(* ===== verification/Sofmat_Prelude.thy ===== *)
theory Sofmat_Prelude
  imports Main "HOL-Library.Word"
begin

text \<open>
  Shared vocabulary of the development: bytes and the big-endian integer codec of Go's
  \<^verbatim>\<open>encoding/binary\<close>, the result type of fallible functions, and the generic lemmas on
  lists, words and results that the component theories use.
\<close>

named_theorems codec "both directions of the byte codecs"
named_theorems fits_word "conversions between nat and word that do not wrap"

type_synonym byte = "8 word"
type_synonym bytes = "byte list"
type_synonym u16 = "16 word"
type_synonym u32 = "32 word"
type_synonym u64 = "64 word"

text \<open>A Go value of type \<^verbatim>\<open>(T, error)\<close>: \<open>Inl\<close> is the error.\<close>

type_synonym ('e, 'a) result = "'e + 'a"

text \<open>A computation that also changes a state (a connection, a server) returns it beside the result.\<close>

type_synonym ('s, 'e, 'a) action = "'s \<Rightarrow> ('e, 'a) result \<times> 's"


section \<open>Results\<close>

definition bind_result :: "('e, 'a) result \<Rightarrow> ('a \<Rightarrow> ('e, 'b) result) \<Rightarrow> ('e, 'b) result" where
  "bind_result r k = (case r of Inl e \<Rightarrow> Inl e | Inr a \<Rightarrow> k a)"

definition bind_action :: "('s, 'e, 'a) action \<Rightarrow> ('a \<Rightarrow> ('s, 'e, 'b) action) \<Rightarrow> ('s, 'e, 'b) action" where
  "bind_action m k = (\<lambda>s. case m s of (Inl e, s') \<Rightarrow> (Inl e, s') | (Inr a, s') \<Rightarrow> k a s')"

definition return_action :: "'a \<Rightarrow> ('s, 'e, 'a) action" where
  "return_action a = (\<lambda>s. (Inr a, s))"

definition throw_action :: "'e \<Rightarrow> ('s, 'e, 'a) action" where
  "throw_action e = (\<lambda>s. (Inl e, s))"

lemma bind_result_simps [simp]:
  "bind_result (Inl e) k = Inl e"
  "bind_result (Inr a) k = k a"
  by (simp_all add: bind_result_def)

lemma bind_result_Inr_iff:
  "bind_result r k = Inr b \<longleftrightarrow> (\<exists>a. r = Inr a \<and> k a = Inr b)"
  by (cases r) auto

lemma bind_action_Inr:
  "m s = (Inr a, s') \<Longrightarrow> bind_action m k s = k a s'"
  by (simp add: bind_action_def)

lemma bind_action_Inl:
  "m s = (Inl e, s') \<Longrightarrow> bind_action m k s = (Inl e, s')"
  by (simp add: bind_action_def)

lemma bind_action_Inr_iff:
  "bind_action m k s = (Inr b, s'') \<longleftrightarrow> (\<exists>a s'. m s = (Inr a, s') \<and> k a s' = (Inr b, s''))"
  by (auto simp: bind_action_def split: prod.splits sum.splits)

lemma return_action_apply [simp]: "return_action a s = (Inr a, s)"
  by (simp add: return_action_def)

lemma throw_action_apply [simp]: "throw_action e s = (Inl e, s)"
  by (simp add: throw_action_def)


section \<open>Big-endian integers\<close>

text \<open>
  \<open>be_put n v\<close> writes the low \<open>n\<close> bytes of \<open>v\<close>, most significant first
  (\<^verbatim>\<open>binary.BigEndian.PutUint16/32/64\<close>); \<open>be_get\<close> reads a byte string back.
\<close>

primrec be_put :: "nat \<Rightarrow> nat \<Rightarrow> bytes" where
  "be_put 0 v = []"
| "be_put (Suc n) v = of_nat (v div 256 ^ n) # be_put n v"

definition be_get :: "bytes \<Rightarrow> nat" where
  "be_get bs = foldl (\<lambda>acc b. acc * 256 + unat b) 0 bs"

definition PutUint16 :: "u16 \<Rightarrow> bytes" where "PutUint16 w = be_put 2 (unat w)"
definition PutUint32 :: "u32 \<Rightarrow> bytes" where "PutUint32 w = be_put 4 (unat w)"
definition PutUint64 :: "u64 \<Rightarrow> bytes" where "PutUint64 w = be_put 8 (unat w)"

text \<open>The readers take the leading bytes of the slice they are given, as Go's do.\<close>

definition Uint16 :: "bytes \<Rightarrow> u16" where "Uint16 bs = of_nat (be_get (take 2 bs))"
definition Uint32 :: "bytes \<Rightarrow> u32" where "Uint32 bs = of_nat (be_get (take 4 bs))"
definition Uint64 :: "bytes \<Rightarrow> u64" where "Uint64 bs = of_nat (be_get (take 8 bs))"

lemma foldl_be:
  "foldl (\<lambda>acc b. acc * 256 + unat b) a bs = a * 256 ^ length bs + be_get (bs :: bytes)"
proof (induction bs arbitrary: a)
  case Nil
  then show ?case by (simp add: be_get_def)
next
  case (Cons b bs)
  show ?case
    using Cons.IH[of "a * 256 + unat b"] Cons.IH[of "unat b"]
    by (simp add: be_get_def algebra_simps)
qed

lemma be_get_Nil [simp]: "be_get [] = 0"
  by (simp add: be_get_def)

lemma be_get_Cons [simp]: "be_get (b # bs) = unat b * 256 ^ length bs + be_get bs"
  using foldl_be[of "unat b" bs] by (simp add: be_get_def)

lemma length_be_put [simp]: "length (be_put n v) = n"
  by (induction n) auto

lemma be_put_numeral:
  "be_put (numeral k) v = of_nat (v div 256 ^ pred_numeral k) # be_put (pred_numeral k) v"
  by (simp add: numeral_eq_Suc)

lemma unat_byte_less: "unat (b :: byte) < 256"
  using unsigned_less[of b] by simp

lemma be_get_less: "be_get bs < 256 ^ length bs"
proof (induction bs)
  case Nil
  then show ?case by simp
next
  case (Cons b bs)
  have "unat b * 256 ^ length bs + be_get bs < (unat b + 1) * 256 ^ length bs"
    using Cons.IH by simp
  also have "\<dots> \<le> 256 * 256 ^ length bs"
    using unat_byte_less[of b] by (intro mult_le_mono1) simp
  finally show ?case by simp
qed

lemma unat_of_nat_byte: "unat (of_nat v :: byte) = v mod 256"
  by (simp add: unat_of_nat)

lemma be_get_be_put [codec]: "be_get (be_put n v) = v mod 256 ^ n"
proof (induction n)
  case 0
  then show ?case by simp
next
  case (Suc n)
  have "v mod 256 ^ Suc n = (v div 256 ^ n mod 256) * 256 ^ n + v mod 256 ^ n"
    using mod_mult2_eq[of v "256 ^ n" 256] by (simp add: mult.commute)
  then show ?case
    by (simp add: Suc.IH unat_of_nat_byte)
qed

lemma be_put_mod: "m \<le> n \<Longrightarrow> be_put m (v mod 256 ^ n) = be_put m v"
proof (induction m)
  case 0
  then show ?case by simp
next
  case (Suc m)
  have "v mod 256 ^ n div 256 ^ m mod 256 = v div 256 ^ m mod 256"
  proof -
    have n: "n = m + (n - m)" and pos: "0 < n - m"
      using Suc.prems by auto
    have "v mod 256 ^ n = v mod (256 ^ m * 256 ^ (n - m))"
      by (subst n) (simp add: power_add)
    then have "v mod 256 ^ n div 256 ^ m = v div 256 ^ m mod 256 ^ (n - m)"
      by (simp add: mod_mult2_eq)
    moreover have "(256 :: nat) dvd 256 ^ (n - m)"
      using pos by simp
    ultimately show ?thesis
      by (simp add: mod_mod_cancel)
  qed
  then have "(of_nat (v mod 256 ^ n div 256 ^ m) :: byte) = of_nat (v div 256 ^ m)"
    by (simp add: word_unat_eq_iff unat_of_nat_byte)
  then show ?case
    using Suc by simp
qed

lemma be_put_be_get [codec]: "be_put (length bs) (be_get bs) = bs"
proof (induction bs)
  case Nil
  then show ?case by simp
next
  case (Cons b bs)
  have "be_get (b # bs) div 256 ^ length bs = unat b"
    using be_get_less[of bs] by simp
  moreover have "be_put (length bs) (be_get (b # bs)) = bs"
    using be_put_mod[of "length bs" "length bs" "be_get (b # bs)"] be_get_less[of bs] Cons.IH
    by simp
  ultimately show ?case by simp
qed

lemma length_Put [simp]:
  "length (PutUint16 a) = 2" "length (PutUint32 b) = 4" "length (PutUint64 c) = 8"
  by (simp_all add: PutUint16_def PutUint32_def PutUint64_def)

lemma Uint_Put [simp]:
  "Uint16 (PutUint16 a @ r) = a"
  "Uint32 (PutUint32 b @ r) = b"
  "Uint64 (PutUint64 c @ r) = c"
proof -
  have "unat a < 256 ^ 2" "unat b < 256 ^ 4" "unat c < 256 ^ 8"
    using unsigned_less[of a] unsigned_less[of b] unsigned_less[of c] by simp_all
  then show "Uint16 (PutUint16 a @ r) = a" "Uint32 (PutUint32 b @ r) = b"
    "Uint64 (PutUint64 c @ r) = c"
    by (simp_all add: Uint16_def Uint32_def Uint64_def PutUint16_def PutUint32_def PutUint64_def
        be_get_be_put)
qed

lemma Put_Uint:
  "2 \<le> length bs \<Longrightarrow> PutUint16 (Uint16 bs) = take 2 bs"
  "4 \<le> length bs \<Longrightarrow> PutUint32 (Uint32 bs) = take 4 bs"
  "8 \<le> length bs \<Longrightarrow> PutUint64 (Uint64 bs) = take 8 bs"
proof -
  have *: "be_put n (be_get (take n bs) mod 2 ^ (8 * n)) = take n bs" if "n \<le> length bs" for n
    using that be_put_be_get[of "take n bs"] be_put_mod[of n n "be_get (take n bs)"]
    by (simp add: min_absorb2 power_mult)
  show "2 \<le> length bs \<Longrightarrow> PutUint16 (Uint16 bs) = take 2 bs"
    using *[of 2] by (simp add: PutUint16_def Uint16_def unat_of_nat)
  show "4 \<le> length bs \<Longrightarrow> PutUint32 (Uint32 bs) = take 4 bs"
    using *[of 4] by (simp add: PutUint32_def Uint32_def unat_of_nat)
  show "8 \<le> length bs \<Longrightarrow> PutUint64 (Uint64 bs) = take 8 bs"
    using *[of 8] by (simp add: PutUint64_def Uint64_def unat_of_nat)
qed

text \<open>Small natural numbers survive the conversion to a machine word.\<close>

lemma unat_of_nat_64 [fits_word]: "n < 2 ^ 64 \<Longrightarrow> unat (of_nat n :: u64) = n"
  by (simp add: unat_of_nat)

lemma unat_of_nat_32 [fits_word]: "n < 2 ^ 32 \<Longrightarrow> unat (of_nat n :: u32) = n"
  by (simp add: unat_of_nat)

lemma of_nat_64_eq_iff [fits_word]:
  "m < 2 ^ 64 \<Longrightarrow> n < 2 ^ 64 \<Longrightarrow> (of_nat m :: u64) = of_nat n \<longleftrightarrow> m = n"
  by (metis unat_of_nat_64)

lemma sint_u64_of_nat [fits_word]: "n < 2 ^ 63 \<Longrightarrow> sint (of_nat n :: u64) = int n"
  by (simp add: sint_uint word_size unsigned_of_nat signed_take_bit_int_eq_self take_bit_nat_eq_self)

text \<open>Go's \<^verbatim>\<open>int\<close> and \<^verbatim>\<open>int64\<close> arithmetic: the integer with its wrap-around at 64 bits.\<close>

definition wrap64 :: "int \<Rightarrow> int" where
  "wrap64 i = (i + 2 ^ 63) mod 2 ^ 64 - 2 ^ 63"

lemma wrap64_fits [fits_word]: "- (2 ^ 63) \<le> i \<Longrightarrow> i < 2 ^ 63 \<Longrightarrow> wrap64 i = i"
  by (simp add: wrap64_def)

end
