(* ===== verification/Framing.thy ===== *)
theory Framing
  imports Sofmat_Prelude
begin

text \<open>
  The wire format of \<^verbatim>\<open>internal/framing/framing.go\<close>: activation frames (a typed tensor
  header and its payload) and small control frames (handshake, ACK, ERROR). Byte strings are
  lists of 8-bit words; header fields keep the width they have in Go; Go's 64-bit \<^verbatim>\<open>int\<close> is a
  64-bit word, so that the multiplication in \<^verbatim>\<open>ExpectedBytes\<close> and the conversion
  \<^verbatim>\<open>int(nBytes)\<close> wrap as they do there. Every \<^verbatim>\<open>return ..., err\<close> is a constructor
  of \<open>frame_error\<close>.

  Shown here: encoding and decoding are inverse to each other in both directions (so the decoder
  accepts the encoder's image and nothing else), the decoder bounds what it hands out, and the
  shape/payload agreement that the decoder enforces is agreement modulo \<open>2 ^ 64\<close>.
\<close>


section \<open>Constants and data\<close>

definition Magic :: bytes where
  "Magic = [0x53, 0x4F, 0x46, 0x4D]"

definition ProtoVersion :: byte where "ProtoVersion = 1"
definition MaxNDim :: nat where "MaxNDim = 8"
definition MaxDim :: u32 where "MaxDim = 2 ^ 24"
definition prefixLen :: nat where "prefixLen = 8"
definition actFixedLen :: nat where "actFixedLen = 8"
definition lenLen :: nat where "lenLen = 8"

type_synonym MsgType = byte

definition MsgActivation :: MsgType where "MsgActivation = 1"
definition MsgAuthChallenge :: MsgType where "MsgAuthChallenge = 2"
definition MsgAuthResponse :: MsgType where "MsgAuthResponse = 3"
definition MsgAck :: MsgType where "MsgAck = 4"
definition MsgError :: MsgType where "MsgError = 5"

type_synonym DType = byte

definition Float32 :: DType where "Float32 = 1"
definition Float16 :: DType where "Float16 = 2"
definition BFloat16 :: DType where "BFloat16 = 3"
definition Int8 :: DType where "Int8 = 4"
definition UInt8 :: DType where "UInt8 = 5"
definition Int32 :: DType where "Int32 = 6"
definition Int64 :: DType where "Int64 = 7"

definition dtypeSize :: "DType \<rightharpoonup> u64" where
  "dtypeSize =
     [Float32 \<mapsto> 4, Float16 \<mapsto> 2, BFloat16 \<mapsto> 2, Int8 \<mapsto> 1, UInt8 \<mapsto> 1, Int32 \<mapsto> 4, Int64 \<mapsto> 8]"

datatype frame_error =
    UnknownDType DType
  | TooManyDims nat
  | DimOutOfRange u32
  | PayloadMismatch
  | FrameTooShort
  | BadMagic
  | BadVersion byte
  | NotActivation MsgType
  | ReservedBits
  | NDimTooBig nat
  | TruncatedShape
  | PayloadOverCap
  | PayloadLenMismatch
  | PayloadInconsistent
  | ControlTooBig
  | ControlShort
  | ControlLenMismatch

record ActivationHeader =
  StageID :: u16
  TokenIndex :: u32
  HDType :: DType
  Shape :: "u32 list"


section \<open>Operations\<close>

definition DTypeSize :: "DType \<Rightarrow> (frame_error, u64) result" where
  "DTypeSize d = (case dtypeSize d of Some s \<Rightarrow> Inr s | None \<Rightarrow> Inl (UnknownDType d))"

text \<open>\<^verbatim>\<open>n *= int(d)\<close> on a 64-bit \<^verbatim>\<open>int\<close>: the product wraps.\<close>

definition ExpectedBytes :: "ActivationHeader \<Rightarrow> (frame_error, u64) result" where
  "ExpectedBytes h =
     (case DTypeSize (HDType h) of
        Inl e \<Rightarrow> Inl e
      | Inr s \<Rightarrow> Inr (foldl (\<lambda>n d. n * ucast d) s (Shape h)))"

fun check_dims :: "u32 list \<Rightarrow> (frame_error, unit) result" where
  "check_dims [] = Inr ()"
| "check_dims (d # ds) = (if d > MaxDim then Inl (DimOutOfRange d) else check_dims ds)"

definition validateShape :: "u32 list \<Rightarrow> (frame_error, unit) result" where
  "validateShape shape =
     (if length shape > MaxNDim then Inl (TooManyDims (length shape)) else check_dims shape)"

definition encode_fixed :: "ActivationHeader \<Rightarrow> bytes" where
  "encode_fixed h =
     PutUint16 (StageID h) @ PutUint32 (TokenIndex h) @ [HDType h, of_nat (length (Shape h))]"

definition EncodeActivation :: "ActivationHeader \<Rightarrow> bytes \<Rightarrow> (frame_error, bytes) result" where
  "EncodeActivation h payload =
     (case validateShape (Shape h) of
        Inl e \<Rightarrow> Inl e
      | Inr _ \<Rightarrow>
          (case ExpectedBytes h of
             Inl e \<Rightarrow> Inl e
           | Inr want \<Rightarrow>
               if of_nat (length payload) \<noteq> want then Inl PayloadMismatch
               else Inr (Magic @ [ProtoVersion, MsgActivation, 0, 0] @ encode_fixed h
                         @ concat (map PutUint32 (Shape h))
                         @ PutUint64 (of_nat (length payload)) @ payload)))"

text \<open>The loop that fills \<^verbatim>\<open>h.Shape\<close>, four bytes per dimension, from the current offset.\<close>

fun read_shape :: "nat \<Rightarrow> bytes \<Rightarrow> u32 list" where
  "read_shape 0 bs = []"
| "read_shape (Suc n) bs = Uint32 bs # read_shape n (drop 4 bs)"

text \<open>
  The part of \<^verbatim>\<open>DecodeActivation\<close> after the shape has been read: \<open>off\<close> is the offset of
  the length field. \<^verbatim>\<open>int(nBytes) > maxPayload\<close> compares signed values and
  \<^verbatim>\<open>off+int(nBytes)\<close> is 64-bit arithmetic.
\<close>

definition decode_tail ::
  "ActivationHeader \<Rightarrow> bytes \<Rightarrow> nat \<Rightarrow> int \<Rightarrow> (frame_error, ActivationHeader \<times> bytes) result" where
  "decode_tail h buf off maxPayload =
     (let nBytes = Uint64 (drop off buf);
          off' = off + lenLen
      in if sint nBytes > maxPayload then Inl PayloadOverCap
         else if (of_nat off' :: u64) + nBytes \<noteq> of_nat (length buf) then Inl PayloadLenMismatch
         else
           (case ExpectedBytes h of
              Inl e \<Rightarrow> Inl e
            | Inr want \<Rightarrow>
                if nBytes \<noteq> want then Inl PayloadInconsistent
                else Inr (h, take (unat nBytes) (drop off' buf))))"

definition DecodeActivation ::
  "bytes \<Rightarrow> int \<Rightarrow> (frame_error, ActivationHeader \<times> bytes) result" where
  "DecodeActivation buf maxPayload =
     (if length buf < prefixLen + actFixedLen then Inl FrameTooShort
      else if take 4 buf \<noteq> Magic then Inl BadMagic
      else if buf ! 4 \<noteq> ProtoVersion then Inl (BadVersion (buf ! 4))
      else if buf ! 5 \<noteq> MsgActivation then Inl (NotActivation (buf ! 5))
      else if buf ! 6 \<noteq> 0 \<or> buf ! 7 \<noteq> 0 then Inl ReservedBits
      else
        let off = prefixLen;
            ndim = unat (buf ! (off + 7));
            off2 = off + actFixedLen
        in if ndim > MaxNDim then Inl (NDimTooBig ndim)
           else if length buf < off2 + 4 * ndim + lenLen then Inl TruncatedShape
           else
             let h = \<lparr>StageID = Uint16 (drop off buf), TokenIndex = Uint32 (drop (off + 2) buf),
                      HDType = buf ! (off + 6), Shape = read_shape ndim (drop off2 buf)\<rparr>
             in (case validateShape (Shape h) of
                   Inl e \<Rightarrow> Inl e
                 | Inr _ \<Rightarrow> decode_tail h buf (off2 + 4 * ndim) maxPayload))"

definition FrameControl :: "MsgType \<Rightarrow> bytes \<Rightarrow> (frame_error, bytes) result" where
  "FrameControl mt payload =
     (if length payload > 4096 then Inl ControlTooBig
      else Inr (Magic @ [ProtoVersion, mt, 0, 0] @ PutUint64 (of_nat (length payload)) @ payload))"

definition DecodeControl :: "bytes \<Rightarrow> (frame_error, MsgType \<times> bytes) result" where
  "DecodeControl buf =
     (if length buf < prefixLen + lenLen then Inl ControlShort
      else if take 4 buf \<noteq> Magic then Inl BadMagic
      else if buf ! 4 \<noteq> ProtoVersion then Inl (BadVersion (buf ! 4))
      else
        let n = Uint64 (drop prefixLen buf);
            body = drop (prefixLen + lenLen) buf
        in if (of_nat (length body) :: u64) \<noteq> n then Inl ControlLenMismatch
           else Inr (buf ! 5, body))"


section \<open>Auxiliary facts\<close>

lemmas frame_consts = Magic_def ProtoVersion_def MaxNDim_def prefixLen_def actFixedLen_def lenLen_def

lemma length_Magic [simp]: "length Magic = 4"
  by (simp add: Magic_def)

lemma read_shape_encode [codec]:
  "read_shape (length ds) (concat (map PutUint32 ds) @ r) = ds"
  by (induction ds) auto

lemma length_read_shape [simp]: "length (read_shape n bs) = n"
  by (induction n arbitrary: bs) auto

lemma encode_read_shape [codec]:
  "4 * n \<le> length bs \<Longrightarrow> concat (map PutUint32 (read_shape n bs)) = take (4 * n) bs"
proof (induction n arbitrary: bs)
  case 0
  then show ?case by simp
next
  case (Suc n)
  have "concat (map PutUint32 (read_shape n (drop 4 bs))) = take (4 * n) (drop 4 bs)"
    using Suc by simp
  moreover have "PutUint32 (Uint32 bs) = take 4 bs"
    using Suc.prems by (simp add: Put_Uint)
  ultimately show ?case
    using take_add[of 4 "4 * n" bs] by simp
qed

lemma length_concat_shape [simp]: "length (concat (map PutUint32 ds)) = 4 * length ds"
  by (induction ds) auto

lemma length_encode_fixed [simp]: "length (encode_fixed h) = 8"
  by (simp add: encode_fixed_def)

lemma check_dims_Inr_iff: "check_dims ds = Inr u \<longleftrightarrow> (\<forall>d\<in>set ds. d \<le> MaxDim)"
  by (induction ds) (auto simp: not_less)

lemma validateShape_Inr_iff:
  "validateShape ds = Inr u \<longleftrightarrow> length ds \<le> MaxNDim \<and> (\<forall>d\<in>set ds. d \<le> MaxDim)"
  by (auto simp: validateShape_def check_dims_Inr_iff)


text \<open>The fields of an encoded frame, read at the offsets the decoder uses.\<close>

lemma encoded_prefix:
  assumes "buf = Magic @ [v, mt, a, b] @ rest"
  shows "take 4 buf = Magic" "buf ! 4 = v" "buf ! 5 = mt" "buf ! 6 = a" "buf ! 7 = b"
    "drop 8 buf = rest" "length buf = 8 + length rest"
  using assms by (simp_all add: Magic_def nth_append)

lemma prefix_decompose:
  assumes "8 \<le> length buf" "take 4 buf = Magic"
  shows "buf = Magic @ [buf ! 4, buf ! 5, buf ! 6, buf ! 7] @ drop 8 buf"
proof -
  have "take 4 (drop 4 buf) = [buf ! 4, buf ! 5, buf ! 6, buf ! 7]"
    using assms(1) by (auto simp: list_eq_iff_nth_eq less_Suc_eq eval_nat_numeral)
  moreover have "take 4 (drop 4 buf) @ drop 8 buf = drop 4 buf"
    using append_take_drop_id[of 4 "drop 4 buf"] by (simp only: drop_drop) simp
  ultimately have "drop 4 buf = [buf ! 4, buf ! 5, buf ! 6, buf ! 7] @ drop 8 buf"
    by metis
  then show ?thesis
    using append_take_drop_id[of 4 buf] assms(2) by metis
qed

lemma encoded_fixed:
  assumes "bs = encode_fixed h @ rest"
  shows "Uint16 bs = StageID h" "Uint32 (drop 2 bs) = TokenIndex h" "bs ! 6 = HDType h"
    "bs ! 7 = of_nat (length (Shape h))" "drop 8 bs = rest"
proof -
  show "Uint16 bs = StageID h"
    unfolding assms encode_fixed_def append_assoc by (rule Uint_Put)
  have "drop 2 bs = PutUint32 (TokenIndex h) @ [HDType h, of_nat (length (Shape h))] @ rest"
    by (simp add: assms encode_fixed_def)
  then show "Uint32 (drop 2 bs) = TokenIndex h"
    by (simp only: Uint_Put)
qed (simp_all add: assms encode_fixed_def nth_append)

lemma fixed_decompose:
  assumes "8 \<le> length bs" "StageID h = Uint16 bs" "TokenIndex h = Uint32 (drop 2 bs)"
    "HDType h = bs ! 6" "of_nat (length (Shape h)) = bs ! 7"
  shows "bs = encode_fixed h @ drop 8 bs"
proof -
  have "encode_fixed h = take 2 bs @ take 4 (drop 2 bs) @ [bs ! 6, bs ! 7]"
    using assms by (simp add: encode_fixed_def Put_Uint)
  also have "[bs ! 6, bs ! 7] = take 2 (drop 6 bs)"
    using assms(1) by (auto simp: list_eq_iff_nth_eq less_Suc_eq eval_nat_numeral)
  also have "take 2 bs @ take 4 (drop 2 bs) @ take 2 (drop 6 bs) = take 8 bs"
    using take_add[of 2 4 bs] take_add[of 6 2 bs] by simp
  finally show ?thesis by (metis append_take_drop_id)
qed

text \<open>\<open>EncodeActivation\<close> succeeds exactly on well-shaped input, and then lays the fields out in order.\<close>

lemma EncodeActivation_Inr_iff:
  "EncodeActivation h payload = Inr buf \<longleftrightarrow>
     validateShape (Shape h) = Inr () \<and> ExpectedBytes h = Inr (of_nat (length payload)) \<and>
     buf = Magic @ [ProtoVersion, MsgActivation, 0, 0] @ encode_fixed h
           @ concat (map PutUint32 (Shape h)) @ PutUint64 (of_nat (length payload)) @ payload"
  by (auto simp: EncodeActivation_def split: sum.splits)

lemma unat_ndim: "length ds \<le> MaxNDim \<Longrightarrow> unat (of_nat (length ds) :: byte) = length ds"
  by (simp add: MaxNDim_def unat_of_nat_byte)

lemma decode_tail_Inr_iff:
  assumes len: "length buf < 2 ^ 63" and off: "off + 8 \<le> length buf"
  shows "decode_tail h buf off mp = Inr (h', p) \<longleftrightarrow>
     h' = h \<and> int (length p) \<le> mp \<and> ExpectedBytes h = Inr (of_nat (length p)) \<and>
     drop off buf = PutUint64 (of_nat (length p)) @ p"
    (is "?L \<longleftrightarrow> ?R")
proof
  assume ?R
  then have d: "drop off buf = PutUint64 (of_nat (length p)) @ p" by simp
  then have n: "Uint64 (drop off buf) = of_nat (length p)" by simp
  have "drop 8 (drop off buf) = p" by (simp add: d)
  then have p: "drop (off + 8) buf = p" by (simp add: add.commute)
  then have lp: "length buf = off + 8 + length p" using off by auto
  then have "length p < 2 ^ 63" using len by simp
  then have "sint (of_nat (length p) :: u64) = int (length p)"
    and u: "unat (of_nat (length p) :: u64) = length p"
    by (simp_all add: sint_u64_of_nat unat_of_nat_64)
  moreover have "(of_nat (off + 8) :: u64) + of_nat (length p) = of_nat (length buf)"
    by (simp add: lp)
  ultimately show ?L
    using \<open>?R\<close> unfolding decode_tail_def Let_def n lenLen_def p
    by simp
next
  assume L: ?L
  define nb where "nb = Uint64 (drop off buf)"
  from L have s: "sint nb \<le> mp" and e: "(of_nat (off + 8) :: u64) + nb = of_nat (length buf)"
    and w: "ExpectedBytes h = Inr nb" and h: "h' = h" and p: "p = take (unat nb) (drop (off + 8) buf)"
    by (auto simp: decode_tail_def Let_def nb_def lenLen_def split: if_splits sum.splits)
  have "nb = of_nat (length buf) - of_nat (off + 8)"
    using e by (simp add: algebra_simps)
  then have nb: "nb = of_nat (length buf - (off + 8))"
    using off by (simp only: of_nat_diff)
  have small: "length buf - (off + 8) < 2 ^ 63" using len by simp
  then have u: "unat nb = length buf - (off + 8)" by (simp add: nb unat_of_nat_64)
  then have p': "p = drop (off + 8) buf" by (simp add: p)
  then have lp: "length p = length buf - (off + 8)" by simp
  have "sint nb = int (length p)" using small by (simp only: nb lp sint_u64_of_nat)
  moreover have "drop off buf = PutUint64 nb @ p"
  proof -
    have "PutUint64 nb = take 8 (drop off buf)"
      using off by (simp add: nb_def Put_Uint)
    moreover have "p = drop 8 (drop off buf)"
      by (simp add: p' add.commute)
    ultimately show ?thesis by (metis append_take_drop_id)
  qed
  moreover have "nb = of_nat (length p)" by (simp only: nb lp)
  ultimately show ?R using s w h by simp
qed


lemma decode_of_encode:
  assumes enc: "EncodeActivation h p = Inr buf" and cap: "int (length p) \<le> mp"
    and len: "length buf < 2 ^ 63"
  shows "DecodeActivation buf mp = Inr (h, p)"
proof -
  let ?nd = "length (Shape h)"
  let ?shape = "concat (map PutUint32 (Shape h)) @ PutUint64 (of_nat (length p)) @ p"
  have v: "validateShape (Shape h) = Inr ()" and w: "ExpectedBytes h = Inr (of_nat (length p))"
    and buf: "buf = Magic @ [ProtoVersion, MsgActivation, 0, 0] @ encode_fixed h @ ?shape"
    using enc by (simp_all add: EncodeActivation_Inr_iff)
  note P = encoded_prefix[OF buf]
  note F = encoded_fixed[OF P(6)]
  have nd: "?nd \<le> MaxNDim" using v by (simp add: validateShape_Inr_iff)
  have at: "buf ! (8 + i) = drop 8 buf ! i" for i using P(7) by simp
  have d16: "drop 16 buf = ?shape" using F(5) by simp
  have sh: "read_shape ?nd (drop 16 buf) = Shape h" by (simp only: d16 read_shape_encode)
  have hdr: "\<lparr>StageID = Uint16 (drop 8 buf), TokenIndex = Uint32 (drop 10 buf),
             HDType = buf ! 14, Shape = read_shape ?nd (drop 16 buf)\<rparr> = h"
    using F sh at[of 6] by (simp add: add.commute)
  have ndim: "unat (buf ! 15) = ?nd"
    using at[of 7] F(4) unat_ndim[OF nd] by simp
  have lb: "length buf = 24 + 4 * ?nd + length p" using P(7) by simp
  have "drop (16 + 4 * ?nd) buf = PutUint64 (of_nat (length p)) @ p"
    using arg_cong[OF d16, of "drop (4 * ?nd)"] by (simp add: add.commute)
  then have "decode_tail h buf (16 + 4 * ?nd) mp = Inr (h, p)"
    using decode_tail_Inr_iff[OF len, of "16 + 4 * ?nd" h mp h p] lb cap w by simp
  then show ?thesis
    using P(1-5) lb v nd
    by (simp add: DecodeActivation_def prefixLen_def actFixedLen_def lenLen_def Let_def ndim sh hdr[unfolded sh])
qed

lemma encode_of_decode:
  assumes dec: "DecodeActivation buf mp = Inr (h, p)" and len: "length buf < 2 ^ 63"
  shows "EncodeActivation h p = Inr buf \<and> int (length p) \<le> mp"
proof -
  let ?nd = "unat (buf ! 15)"
  let ?h = "\<lparr>StageID = Uint16 (drop 8 buf), TokenIndex = Uint32 (drop 10 buf),
             HDType = buf ! 14, Shape = read_shape ?nd (drop 16 buf)\<rparr>"
  from dec have pre: "16 \<le> length buf" "take 4 buf = Magic" "buf ! 4 = ProtoVersion"
      "buf ! 5 = MsgActivation" "buf ! 6 = 0" "buf ! 7 = 0"
    and nd: "?nd \<le> MaxNDim" and l2: "16 + 4 * ?nd + 8 \<le> length buf"
    and v: "validateShape (Shape ?h) = Inr ()"
    and tail: "decode_tail ?h buf (16 + 4 * ?nd) mp = Inr (h, p)"
    by (auto simp: DecodeActivation_def prefixLen_def actFixedLen_def lenLen_def Let_def
        split: if_splits sum.splits)
  from tail have h: "h = ?h" and cap: "int (length p) \<le> mp"
    and w: "ExpectedBytes h = Inr (of_nat (length p))"
    and d: "drop (16 + 4 * ?nd) buf = PutUint64 (of_nat (length p)) @ p"
    using decode_tail_Inr_iff[OF len l2] by auto
  have "drop 8 buf = encode_fixed h @ drop 8 (drop 8 buf)"
  proof (rule fixed_decompose)
    show "of_nat (length (Shape h)) = drop 8 buf ! 7"
      using pre(1) by (simp add: h)
  qed (use pre(1) in \<open>simp_all add: h\<close>)
  moreover have "drop 16 buf = concat (map PutUint32 (Shape h)) @ drop (16 + 4 * ?nd) buf"
    using encode_read_shape[of ?nd "drop 16 buf"] l2
      append_take_drop_id[of "4 * ?nd" "drop 16 buf"] by (simp add: h add.commute)
  ultimately have "drop 8 buf = encode_fixed h @ concat (map PutUint32 (Shape h))
      @ PutUint64 (of_nat (length p)) @ p"
    by (simp add: d)
  then have "EncodeActivation h p = Inr buf"
    using prefix_decompose[of buf] pre v w by (simp add: EncodeActivation_Inr_iff h)
  then show ?thesis using cap by simp
qed

lemma ExpectedBytes_unat:
  "ExpectedBytes h = Inr n \<longleftrightarrow>
     (\<exists>s. dtypeSize (HDType h) = Some s \<and>
        n = of_nat (unat s * prod_list (map unat (Shape h))))"
proof -
  have "foldl (\<lambda>n d. n * ucast d) s ds = s * of_nat (prod_list (map unat ds))"
    for s :: u64 and ds :: "u32 list"
    by (induction ds arbitrary: s) (simp_all add: algebra_simps)
  then show ?thesis
    by (auto simp: ExpectedBytes_def DTypeSize_def split: option.splits)
qed


lemma FrameControl_decodes:
  "(case FrameControl mt payload of
      Inr buf \<Rightarrow> DecodeControl buf = Inr (mt, payload) \<and> length buf = 16 + length payload
    | Inl e \<Rightarrow> e = ControlTooBig \<and> 4096 < length payload)"
proof (cases "length payload > 4096")
  case True
  then show ?thesis by (simp add: FrameControl_def)
next
  case False
  let ?buf = "Magic @ [ProtoVersion, mt, 0, 0] @ PutUint64 (of_nat (length payload)) @ payload"
  note P = encoded_prefix[OF refl, of ProtoVersion mt 0 0 "PutUint64 (of_nat (length payload)) @ payload"]
  have "drop 16 ?buf = payload"
    using arg_cong[OF P(6), of "drop 8"] by simp
  then have "DecodeControl ?buf = Inr (mt, payload)"
    unfolding DecodeControl_def prefixLen_def lenLen_def P by (simp del: append_assoc)
  then show ?thesis using False P(7) by (simp add: FrameControl_def)
qed

text \<open>Unfolding everything, for the evaluation of closed frames.\<close>

lemmas frame_eval = EncodeActivation_def DecodeActivation_def decode_tail_def validateShape_def
  ExpectedBytes_def DTypeSize_def dtypeSize_def encode_fixed_def FrameControl_def DecodeControl_def
  PutUint16_def PutUint32_def PutUint64_def Uint16_def Uint32_def Uint64_def be_put_numeral
  frame_consts MaxDim_def MsgActivation_def MsgAuthChallenge_def MsgAuthResponse_def MsgAck_def
  MsgError_def Float32_def Float16_def BFloat16_def Int8_def UInt8_def Int32_def Int64_def


section \<open>Properties\<close>

text \<open>
  C1. The decoder accepts exactly the encoder's output: a frame decodes to a header and payload
  if and only if encoding that header and payload gives that frame and the payload is within the
  receiver's cap. In particular a round trip is the identity and no two frames decode alike.
\<close>

theorem DecodeActivation_iff_Encode:
  assumes "length buf < 2 ^ 63"
  shows "DecodeActivation buf maxPayload = Inr (h, payload) \<longleftrightarrow>
     EncodeActivation h payload = Inr buf \<and> int (length payload) \<le> maxPayload"
  using assms decode_of_encode encode_of_decode by blast

theorem DecodeActivation_iff_Encode_witness:
  "EncodeActivation \<lparr>StageID = 7, TokenIndex = 9, HDType = UInt8, Shape = [2]\<rparr> [1, 2] =
     Inr (Magic @ [1, 1, 0, 0, 0, 7, 0, 0, 0, 9, 5, 1, 0, 0, 0, 2, 0, 0, 0, 0, 0, 0, 0, 2, 1, 2]) \<and>
   DecodeActivation
     (Magic @ [1, 1, 0, 0, 0, 7, 0, 0, 0, 9, 5, 1, 0, 0, 0, 2, 0, 0, 0, 0, 0, 0, 0, 2, 1, 2]) 8 =
     Inr (\<lparr>StageID = 7, TokenIndex = 9, HDType = UInt8, Shape = [2]\<rparr>, [1, 2])"
proof -
  let ?h = "\<lparr>StageID = 7, TokenIndex = 9, HDType = UInt8, Shape = [2]\<rparr> :: ActivationHeader"
  let ?b = "Magic @ [1, 1, 0, 0, 0, 7, 0, 0, 0, 9, 5, 1, 0, 0, 0, 2, 0, 0, 0, 0, 0, 0, 0, 2, 1, 2]"
  have e: "EncodeActivation ?h [1, 2] = Inr ?b"
    by (simp add: frame_eval)
  have "DecodeActivation ?b 8 = Inr (?h, [1, 2])"
    by (rule DecodeActivation_iff_Encode[THEN iffD2]) (simp_all add: e)
  then show ?thesis using e by blast
qed


text \<open>
  What the shape check of the decoder guarantees: a delivered payload has as many bytes as the
  element size times the product of the dimensions, reduced modulo \<open>2 ^ 64\<close> (the product is
  computed in Go's 64-bit \<^verbatim>\<open>int\<close>); there are at most eight dimensions, each at most \<open>2 ^ 24\<close>,
  and the payload is within the cap. So whenever the true product is below \<open>2 ^ 64\<close>
  the payload has exactly the size the header announces.
\<close>

theorem DecodeActivation_bounds:
  assumes "DecodeActivation buf maxPayload = Inr (h, payload)" and "length buf < 2 ^ 63"
  shows "\<exists>s. dtypeSize (HDType h) = Some s \<and>
      length payload = unat s * prod_list (map unat (Shape h)) mod 2 ^ 64 \<and>
      length (Shape h) \<le> MaxNDim \<and> (\<forall>d\<in>set (Shape h). d \<le> MaxDim) \<and>
      int (length payload) \<le> maxPayload"
proof -
  have e: "EncodeActivation h payload = Inr buf" and cap: "int (length payload) \<le> maxPayload"
    using encode_of_decode[OF assms] by auto
  then have v: "validateShape (Shape h) = Inr ()"
    and w: "ExpectedBytes h = Inr (of_nat (length payload))"
    and b: "length payload \<le> length buf"
    by (auto simp: EncodeActivation_Inr_iff)
  obtain s where s: "dtypeSize (HDType h) = Some s"
    and n: "(of_nat (length payload) :: u64) = of_nat (unat s * prod_list (map unat (Shape h)))"
    using w by (auto simp: ExpectedBytes_unat)
  have "length payload = unat (of_nat (length payload) :: u64)"
    using b assms(2) by (simp add: unat_of_nat_64)
  also have "\<dots> = unat s * prod_list (map unat (Shape h)) mod 2 ^ 64"
    unfolding n by (simp only: unat_of_nat) simp
  finally show ?thesis
    using s v cap by (auto simp: validateShape_Inr_iff)
qed

theorem DecodeActivation_bounds_witness:
  "\<exists>s. dtypeSize UInt8 = Some s \<and>
      length [1 :: byte, 2] = unat s * prod_list (map unat [2 :: u32]) mod 2 ^ 64 \<and>
      length [2 :: u32] \<le> MaxNDim \<and> (\<forall>d\<in>set [2 :: u32]. d \<le> MaxDim) \<and>
      int (length [1 :: byte, 2]) \<le> 8"
proof -
  let ?h = "\<lparr>StageID = 7, TokenIndex = 9, HDType = UInt8, Shape = [2]\<rparr> :: ActivationHeader"
  let ?b = "Magic @ [1, 1, 0, 0, 0, 7, 0, 0, 0, 9, 5, 1, 0, 0, 0, 2, 0, 0, 0, 0, 0, 0, 0, 2, 1, 2]"
  have "DecodeActivation ?b 8 = Inr (?h, [1, 2])"
    by (rule decode_of_encode) (simp_all add: frame_eval)
  from DecodeActivation_bounds[OF this] show ?thesis by simp
qed

text \<open>
  The agreement really is only modulo \<open>2 ^ 64\<close>: for every stage and token, the frame announcing
  an int8 tensor of shape \<open>2^24 \<times> 2^24 \<times> 2^16\<close> (\<open>2 ^ 64\<close> elements) with an empty payload passes
  every check of the decoder, under any non-negative cap.
\<close>

theorem DecodeActivation_accepts_wrapped_shape:
  assumes "0 \<le> maxPayload"
  shows "\<exists>buf. DecodeActivation buf maxPayload =
      Inr (\<lparr>StageID = st, TokenIndex = tk, HDType = Int8, Shape = [2 ^ 24, 2 ^ 24, 2 ^ 16]\<rparr>, [])"
proof -
  let ?h = "\<lparr>StageID = st, TokenIndex = tk, HDType = Int8, Shape = [2 ^ 24, 2 ^ 24, 2 ^ 16]\<rparr>
    :: ActivationHeader"
  have v: "validateShape (Shape ?h) = Inr ()"
    by (simp add: validateShape_def MaxNDim_def MaxDim_def)
  have w: "ExpectedBytes ?h = Inr 0"
    by (simp add: frame_eval)
  obtain buf where e: "EncodeActivation ?h [] = Inr buf" and l: "length buf = 36"
    using v w by (auto simp: EncodeActivation_def)
  have "DecodeActivation buf maxPayload = Inr (?h, [])"
    by (rule decode_of_encode[OF e]) (simp_all add: assms l)
  then show ?thesis by blast
qed

theorem DecodeActivation_accepts_wrapped_shape_witness:
  "\<exists>buf. DecodeActivation buf 8388608 =
      Inr (\<lparr>StageID = 0, TokenIndex = 0, HDType = Int8, Shape = [2 ^ 24, 2 ^ 24, 2 ^ 16]\<rparr>, [])"
  by (rule DecodeActivation_accepts_wrapped_shape) simp

text \<open>
  Control frames: what \<^verbatim>\<open>FrameControl\<close> writes, \<^verbatim>\<open>DecodeControl\<close> reads back with the same
  type and body, and \<^verbatim>\<open>FrameControl\<close> refuses exactly the bodies over 4096 bytes.
\<close>

theorem DecodeControl_FrameControl:
  "(case FrameControl mt payload of
      Inr buf \<Rightarrow> DecodeControl buf = Inr (mt, payload) \<and> length buf = 16 + length payload
    | Inl e \<Rightarrow> e = ControlTooBig \<and> 4096 < length payload)"
  by (rule FrameControl_decodes)

end
