(* ===== verification/Transport.thy ===== *)
theory Transport
  imports Framing
begin

text \<open>
  \<^verbatim>\<open>internal/auth/auth.go\<close> and \<^verbatim>\<open>internal/transport/transport.go\<close>: HMAC challenge/response
  and the framed TCP channel. HMAC-SHA256 is a parameter \<open>hmac token nonce\<close>, and the 32 bytes that
  \<^verbatim>\<open>crypto/rand\<close> yields are a parameter (\<open>None\<close> when the read fails).

  A connection is a record: \<open>rx\<close> holds the bytes the peer will have delivered before end of
  stream, \<open>tx\<close> everything written so far, \<open>wr_ok\<close> whether the kernel accepts writes, and
  \<open>closed\<close> whether \<^verbatim>\<open>Close\<close> was called. A blocking \<^verbatim>\<open>io.ReadFull\<close> consumes a prefix of \<open>rx\<close>
  and fails when \<open>rx\<close> is too short. Dialling and \<^verbatim>\<open>SetNoDelay\<close> are socket calls and have no
  counterpart; \<^verbatim>\<open>Connect\<close> and \<^verbatim>\<open>Accept\<close> start from the established connection.
\<close>


section \<open>Authentication\<close>

datatype auth_error = EmptyToken | BadNonceLen nat | RandFailed | BadToken | NotChallenge MsgType | PeerRejects

definition NonceLen :: nat where "NonceLen = 32"

definition NewNonce :: "bytes option \<Rightarrow> (auth_error, bytes) result" where
  "NewNonce rand = (case rand of None \<Rightarrow> Inl RandFailed | Some b \<Rightarrow> Inr b)"

definition Sign :: "(bytes \<Rightarrow> bytes \<Rightarrow> bytes) \<Rightarrow> bytes \<Rightarrow> bytes \<Rightarrow> (auth_error, bytes) result" where
  "Sign hmac token nonce =
     (if length token = 0 then Inl EmptyToken
      else if length nonce \<noteq> NonceLen then Inl (BadNonceLen (length nonce))
      else Inr (hmac token nonce))"

definition Verify :: "(bytes \<Rightarrow> bytes \<Rightarrow> bytes) \<Rightarrow> bytes \<Rightarrow> bytes \<Rightarrow> bytes \<Rightarrow> bool" where
  "Verify hmac token nonce response =
     (case Sign hmac token nonce of Inl _ \<Rightarrow> False | Inr expected \<Rightarrow> expected = response)"


section \<open>The framed channel\<close>

record net_conn =
  rx :: bytes
  tx :: bytes
  wr_ok :: bool
  closed :: bool

record TcpTransport =
  conn :: net_conn
  maxFrameBytes :: int
  maxPayload :: int

datatype transport_error =
    SendFailed
  | RecvLen
  | FrameOverCap nat
  | RecvFrame
  | FrameErr frame_error
  | AuthErr auth_error

definition headerSlack :: int where "headerSlack = 512"

definition NewTransport :: "net_conn \<Rightarrow> int \<Rightarrow> TcpTransport" where
  "NewTransport c maxActivationMB =
     (let mb = (if maxActivationMB \<le> 0 then 8 else maxActivationMB);
          mp = wrap64 (wrap64 (mb * 1024) * 1024)
      in \<lparr>conn = c, maxFrameBytes = wrap64 (mp + headerSlack), maxPayload = mp\<rparr>)"

definition MaxPayload :: "TcpTransport \<Rightarrow> int" where
  "MaxPayload t = maxPayload t"

definition Close :: "TcpTransport \<Rightarrow> TcpTransport" where
  "Close t = t\<lparr>conn := (conn t)\<lparr>closed := True\<rparr>\<rparr>"

text \<open>\<^verbatim>\<open>conn.Write\<close> and \<^verbatim>\<open>io.ReadFull\<close> on the connection.\<close>

definition conn_write :: "bytes \<Rightarrow> net_conn \<Rightarrow> net_conn option" where
  "conn_write bs c = (if wr_ok c \<and> \<not> closed c then Some (c\<lparr>tx := tx c @ bs\<rparr>) else None)"

definition read_full :: "nat \<Rightarrow> net_conn \<Rightarrow> bytes option \<times> net_conn" where
  "read_full n c =
     (if closed c then (None, c)
      else if n \<le> length (rx c) then (Some (take n (rx c)), c\<lparr>rx := drop n (rx c)\<rparr>)
      else (None, c\<lparr>rx := []\<rparr>))"

definition sendFrame :: "bytes \<Rightarrow> (TcpTransport, transport_error, unit) action" where
  "sendFrame frame t =
     (case conn_write (PutUint32 (of_nat (length frame)) @ frame) (conn t) of
        None \<Rightarrow> (Inl SendFailed, t)
      | Some c \<Rightarrow> (Inr (), t\<lparr>conn := c\<rparr>))"

definition recvFrame :: "(TcpTransport, transport_error, bytes) action" where
  "recvFrame t =
     (case read_full 4 (conn t) of
        (None, c) \<Rightarrow> (Inl RecvLen, t\<lparr>conn := c\<rparr>)
      | (Some lp, c) \<Rightarrow>
          (let n = unat (Uint32 lp)
           in if int n > maxFrameBytes t then (Inl (FrameOverCap n), t\<lparr>conn := c\<rparr>)
              else (case read_full n c of
                      (None, c') \<Rightarrow> (Inl RecvFrame, t\<lparr>conn := c'\<rparr>)
                    | (Some frame, c') \<Rightarrow> (Inr frame, t\<lparr>conn := c'\<rparr>))))"

definition SendActivation ::
  "ActivationHeader \<Rightarrow> bytes \<Rightarrow> (TcpTransport, transport_error, unit) action" where
  "SendActivation h payload t =
     (case EncodeActivation h payload of
        Inl e \<Rightarrow> (Inl (FrameErr e), t)
      | Inr frame \<Rightarrow> sendFrame frame t)"

definition RecvActivation :: "(TcpTransport, transport_error, ActivationHeader \<times> bytes) action" where
  "RecvActivation t =
     (case recvFrame t of
        (Inl e, t') \<Rightarrow> (Inl e, t')
      | (Inr frame, t') \<Rightarrow>
          (case DecodeActivation frame (maxPayload t') of
             Inl e \<Rightarrow> (Inl (FrameErr e), t')
           | Inr hp \<Rightarrow> (Inr hp, t')))"


section \<open>Handshake\<close>

text \<open>\<^verbatim>\<open>ch, _ := framing.FrameControl(...)\<close>: the error is dropped and the frame is then nil.\<close>

definition control_or_nil :: "MsgType \<Rightarrow> bytes \<Rightarrow> bytes" where
  "control_or_nil mt payload = (case FrameControl mt payload of Inl _ \<Rightarrow> [] | Inr f \<Rightarrow> f)"

definition recvControl :: "(TcpTransport, transport_error, MsgType \<times> bytes) action" where
  "recvControl t =
     (case recvFrame t of
        (Inl e, t') \<Rightarrow> (Inl e, t')
      | (Inr raw, t') \<Rightarrow>
          (case DecodeControl raw of
             Inl e \<Rightarrow> (Inl (FrameErr e), t')
           | Inr mb \<Rightarrow> (Inr mb, t')))"

definition lift_auth :: "(auth_error, 'a) result \<Rightarrow> (TcpTransport, transport_error, 'a) action" where
  "lift_auth r t = (case r of Inl e \<Rightarrow> (Inl (AuthErr e), t) | Inr a \<Rightarrow> (Inr a, t))"

text \<open>The server's verdict on the response; a failure to send the ERROR frame is ignored.\<close>

definition server_verdict ::
  "(bytes \<Rightarrow> bytes \<Rightarrow> bytes) \<Rightarrow> bytes \<Rightarrow> bytes \<Rightarrow> MsgType \<times> bytes
     \<Rightarrow> (TcpTransport, transport_error, unit) action" where
  "server_verdict hmac token nonce mb t =
     (if fst mb \<noteq> MsgAuthResponse \<or> \<not> Verify hmac token nonce (snd mb)
      then (Inl (AuthErr BadToken),
            snd (sendFrame (control_or_nil MsgError [0x61, 0x75, 0x74, 0x68]) t))
      else sendFrame (control_or_nil MsgAck []) t)"

definition serverHandshake ::
  "(bytes \<Rightarrow> bytes \<Rightarrow> bytes) \<Rightarrow> bytes option \<Rightarrow> bytes \<Rightarrow> (TcpTransport, transport_error, unit) action" where
  "serverHandshake hmac rand token =
     bind_action (lift_auth (NewNonce rand)) (\<lambda>nonce.
     bind_action (sendFrame (control_or_nil MsgAuthChallenge nonce)) (\<lambda>_.
     bind_action recvControl (server_verdict hmac token nonce)))"

definition expect_ack :: "MsgType \<times> bytes \<Rightarrow> (TcpTransport, transport_error, unit) action" where
  "expect_ack mb = (if fst mb \<noteq> MsgAck then throw_action (AuthErr PeerRejects) else return_action ())"

definition clientHandshake ::
  "(bytes \<Rightarrow> bytes \<Rightarrow> bytes) \<Rightarrow> bytes \<Rightarrow> (TcpTransport, transport_error, unit) action" where
  "clientHandshake hmac token =
     bind_action recvControl (\<lambda>(mt, nonce).
       if mt \<noteq> MsgAuthChallenge then throw_action (AuthErr (NotChallenge mt))
       else bind_action (lift_auth (Sign hmac token nonce)) (\<lambda>sig.
            bind_action (sendFrame (control_or_nil MsgAuthResponse sig)) (\<lambda>_.
            bind_action recvControl expect_ack)))"

text \<open>
  \<^verbatim>\<open>Accept\<close> and \<^verbatim>\<open>Connect\<close>: the transport is returned only after the handshake succeeded;
  otherwise the connection is closed. The second component is the connection afterwards.
\<close>

definition Accept ::
  "(bytes \<Rightarrow> bytes \<Rightarrow> bytes) \<Rightarrow> bytes option \<Rightarrow> net_conn \<Rightarrow> bytes \<Rightarrow> int
     \<Rightarrow> (transport_error, TcpTransport) result \<times> net_conn" where
  "Accept hmac rand c token maxActivationMB =
     (case serverHandshake hmac rand token (NewTransport c maxActivationMB) of
        (Inl e, t) \<Rightarrow> (Inl e, conn (Close t))
      | (Inr _, t) \<Rightarrow> (Inr t, conn t))"

definition Connect ::
  "(bytes \<Rightarrow> bytes \<Rightarrow> bytes) \<Rightarrow> net_conn \<Rightarrow> bytes \<Rightarrow> int
     \<Rightarrow> (transport_error, TcpTransport) result \<times> net_conn" where
  "Connect hmac c token maxActivationMB =
     (case clientHandshake hmac token (NewTransport c maxActivationMB) of
        (Inl e, t) \<Rightarrow> (Inl e, conn (Close t))
      | (Inr _, t) \<Rightarrow> (Inr t, conn t))"


section \<open>Frames on the wire\<close>

text \<open>The bytes \<^verbatim>\<open>sendFrame\<close> puts on the wire, and when a transport can be used.\<close>

definition wire_frame :: "bytes \<Rightarrow> bytes" where
  "wire_frame f = PutUint32 (of_nat (length f)) @ f"

definition writable :: "TcpTransport \<Rightarrow> bool" where
  "writable t \<longleftrightarrow> wr_ok (conn t) \<and> \<not> closed (conn t)"

definition after_send :: "bytes \<Rightarrow> TcpTransport \<Rightarrow> TcpTransport" where
  "after_send f t = t\<lparr>conn := (conn t)\<lparr>tx := tx (conn t) @ wire_frame f\<rparr>\<rparr>"

definition with_rx :: "bytes \<Rightarrow> TcpTransport \<Rightarrow> TcpTransport" where
  "with_rx bs t = t\<lparr>conn := (conn t)\<lparr>rx := bs\<rparr>\<rparr>"

lemma sendFrame_writable: "writable t \<Longrightarrow> sendFrame f t = (Inr (), after_send f t)"
  by (simp add: sendFrame_def conn_write_def writable_def after_send_def wire_frame_def)

lemma sendFrame_Inr_iff: "sendFrame f t = (Inr u, t') \<longleftrightarrow> writable t \<and> t' = after_send f t"
  by (auto simp: sendFrame_def conn_write_def writable_def after_send_def wire_frame_def
      split: if_splits)

lemma after_send_simps [simp]:
  "writable (after_send f t) = writable t"
  "rx (conn (after_send f t)) = rx (conn t)"
  "tx (conn (after_send f t)) = tx (conn t) @ wire_frame f"
  "closed (conn (after_send f t)) = closed (conn t)"
  "maxFrameBytes (after_send f t) = maxFrameBytes t"
  "maxPayload (after_send f t) = maxPayload t"
  by (simp_all add: after_send_def writable_def)

lemma with_rx_simps [simp]:
  "writable (with_rx bs t) = writable t"
  "rx (conn (with_rx bs t)) = bs"
  "tx (conn (with_rx bs t)) = tx (conn t)"
  "closed (conn (with_rx bs t)) = closed (conn t)"
  "maxFrameBytes (with_rx bs t) = maxFrameBytes t"
  "maxPayload (with_rx bs t) = maxPayload t"
  by (simp_all add: with_rx_def writable_def)

lemma recvFrame_wire:
  assumes "rx (conn t) = wire_frame f @ rest" "length f < 2 ^ 32" "int (length f) \<le> maxFrameBytes t"
    "\<not> closed (conn t)"
  shows "recvFrame t = (Inr f, with_rx rest t)"
proof -
  have n: "unat (Uint32 (PutUint32 (of_nat (length f)))) = length f"
    using Uint_Put(2)[of "of_nat (length f)" "[]"] assms(2) by (simp add: unat_of_nat_32)
  show ?thesis
    using assms n by (simp add: recvFrame_def read_full_def wire_frame_def with_rx_def)
qed

text \<open>Conversely, a received frame was on the wire, and it respects the cap.\<close>

lemma recvFrame_Inr:
  assumes "recvFrame t = (Inr f, t')"
  shows "rx (conn t) = wire_frame f @ rx (conn t')" "int (length f) \<le> maxFrameBytes t"
    "t' = with_rx (rx (conn t')) t" "length f < 2 ^ 32"
proof -
  define n where "n = unat (Uint32 (take 4 (rx (conn t))))"
  from assms have l4: "4 \<le> length (rx (conn t))" and cap: "int n \<le> maxFrameBytes t"
    and ln: "n \<le> length (rx (conn t)) - 4" and f: "f = take n (drop 4 (rx (conn t)))"
    and t': "t' = with_rx (drop n (drop 4 (rx (conn t)))) t"
    by (auto simp: recvFrame_def read_full_def n_def with_rx_def Let_def
        split: if_splits option.splits prod.splits)
  have lf: "length f = n" using ln by (simp add: f)
  have n32: "n < 2 ^ 32" using unsigned_less[of "Uint32 (take 4 (rx (conn t)))"] by (simp add: n_def)
  then show "length f < 2 ^ 32" by (simp add: lf)
  have "of_nat (length f) = Uint32 (take 4 (rx (conn t)))" by (simp add: lf n_def)
  then have "PutUint32 (of_nat (length f)) = take 4 (rx (conn t))"
    using Put_Uint(2)[of "take 4 (rx (conn t))"] l4 by simp
  then have w: "wire_frame f = take 4 (rx (conn t)) @ f" by (simp only: wire_frame_def)
  have "f @ rx (conn t') = drop 4 (rx (conn t))"
    unfolding f t' with_rx_simps by (rule append_take_drop_id)
  then show "rx (conn t) = wire_frame f @ rx (conn t')" unfolding w by simp
  show "int (length f) \<le> maxFrameBytes t" "t' = with_rx (rx (conn t')) t"
    using cap t' by (simp_all add: lf)
qed


lemma recvControl_wire:
  assumes "rx (conn t) = wire_frame (control_or_nil mt p) @ rest" "length p \<le> 4096"
    "4112 \<le> maxFrameBytes t" "\<not> closed (conn t)"
  shows "recvControl t = (Inr (mt, p), with_rx rest t)"
proof -
  obtain f where f: "FrameControl mt p = Inr f" using assms(2) by (simp add: FrameControl_def)
  then have dec: "DecodeControl f = Inr (mt, p)" and len: "length f = 16 + length p"
    using FrameControl_decodes[where mt = mt and payload = p] by auto
  have "recvFrame t = (Inr f, with_rx rest t)"
    by (rule recvFrame_wire) (use assms f len in \<open>simp_all add: control_or_nil_def\<close>)
  then show ?thesis by (simp add: recvControl_def dec)
qed

lemma recvControl_Inr:
  assumes "recvControl t = (Inr (mt, p), t')"
  shows "\<exists>raw. rx (conn t) = wire_frame raw @ rx (conn t') \<and> DecodeControl raw = Inr (mt, p) \<and>
     t' = with_rx (rx (conn t')) t"
proof -
  obtain raw where r: "recvFrame t = (Inr raw, t')" and d: "DecodeControl raw = Inr (mt, p)"
    using assms by (auto simp: recvControl_def split: prod.splits sum.splits)
  show ?thesis using recvFrame_Inr[OF r] d by blast
qed

text \<open>
  The whole server side, when the peer's next frame is the control frame \<open>(mt, body)\<close>:
  the challenge goes out, and the verdict depends on \<open>(mt, body)\<close> alone.
\<close>

lemma serverHandshake_response:
  assumes "writable t" "length nonce \<le> 4096" "4112 \<le> maxFrameBytes t" "length body \<le> 4096"
    "rx (conn t) = wire_frame (control_or_nil mt body) @ rest"
  shows "serverHandshake hmac (Some nonce) token t =
     server_verdict hmac token nonce (mt, body)
       (with_rx rest (after_send (control_or_nil MsgAuthChallenge nonce) t))"
proof -
  let ?t1 = "after_send (control_or_nil MsgAuthChallenge nonce) t"
  have "recvControl ?t1 = (Inr (mt, body), with_rx rest ?t1)"
    by (rule recvControl_wire) (use assms in \<open>simp_all add: writable_def\<close>)
  then show ?thesis
    using assms(1)
    by (simp add: serverHandshake_def lift_auth_def NewNonce_def bind_action_def sendFrame_writable)
qed

lemma clientHandshake_challenge:
  assumes "writable t" "4112 \<le> maxFrameBytes t" "length (hmac token nonce) \<le> 4096"
    "length nonce = NonceLen" "token \<noteq> []" "length body \<le> 4096"
    "rx (conn t) = wire_frame (control_or_nil MsgAuthChallenge nonce)
        @ wire_frame (control_or_nil mt body) @ rest"
  shows "clientHandshake hmac token t =
     expect_ack (mt, body)
       (with_rx rest (after_send (control_or_nil MsgAuthResponse (hmac token nonce))
          (with_rx (wire_frame (control_or_nil mt body) @ rest) t)))"
proof -
  let ?r = "wire_frame (control_or_nil mt body) @ rest"
  let ?t1 = "after_send (control_or_nil MsgAuthResponse (hmac token nonce)) (with_rx ?r t)"
  have "recvControl t = (Inr (MsgAuthChallenge, nonce), with_rx ?r t)"
    by (rule recvControl_wire) (use assms in \<open>simp_all add: writable_def NonceLen_def\<close>)
  moreover have "recvControl ?t1 = (Inr (mt, body), with_rx rest ?t1)"
    by (rule recvControl_wire) (use assms in \<open>simp_all add: writable_def\<close>)
  ultimately show ?thesis
    using assms(1,4,5)
    by (simp add: clientHandshake_def lift_auth_def Sign_def bind_action_def sendFrame_writable)
qed

lemma NewTransport_ready [simp]:
  "writable (NewTransport c mb) \<longleftrightarrow> wr_ok c \<and> \<not> closed c"
  "conn (NewTransport c mb) = c"
  by (auto simp: NewTransport_def Let_def writable_def)

text \<open>Below 2^43 megabytes the frame cap does not wrap; at 2^43 it is negative.\<close>

lemma NewTransport_cap [simp]:
  assumes "mb < 2 ^ 43"
  shows "4112 \<le> maxFrameBytes (NewTransport c mb)"
proof -
  define m where "m = (if mb \<le> 0 then 8 else mb)"
  have m: "1 \<le> m" "m < 2 ^ 43" using assms by (auto simp: m_def)
  then have w: "wrap64 (m * 1024) = m * 1024" "wrap64 (m * 1024 * 1024) = m * 1024 * 1024" "wrap64 (m * 1024 * 1024 + 512) = m * 1024 * 1024 + 512"
    by (simp_all add: wrap64_fits)
  have "maxFrameBytes (NewTransport c mb) = wrap64 (wrap64 (wrap64 (m * 1024) * 1024) + 512)"
    unfolding NewTransport_def Let_def headerSlack_def m_def[symmetric] by (simp only: TcpTransport.simps)
  also have "\<dots> = m * 1024 * 1024 + 512" unfolding w ..
  finally show ?thesis using m(1) by linarith
qed

lemma NewTransport_cap_wraps: "maxFrameBytes (NewTransport c (2 ^ 43)) < 0"
  by (simp add: NewTransport_def Let_def headerSlack_def wrap64_def)

lemma Accept_valid_response:
  assumes "token \<noteq> []" "length nonce = NonceLen" "length (hmac token nonce) \<le> 4096" "mb < 2 ^ 43"
  shows "\<exists>t. fst (Accept hmac (Some nonce)
       \<lparr>rx = wire_frame (control_or_nil MsgAuthResponse (hmac token nonce)) @ rest,
        tx = [], wr_ok = True, closed = False\<rparr> token mb) = Inr t \<and>
     tx (conn t) = wire_frame (control_or_nil MsgAuthChallenge nonce)
                   @ wire_frame (control_or_nil MsgAck []) \<and> rx (conn t) = rest"
proof -
  let ?c = "\<lparr>rx = wire_frame (control_or_nil MsgAuthResponse (hmac token nonce)) @ rest,
     tx = [], wr_ok = True, closed = False\<rparr>"
  have "length nonce \<le> 4096" using assms(2) by (simp add: NonceLen_def)
  then have "serverHandshake hmac (Some nonce) token (NewTransport ?c mb) =
    server_verdict hmac token nonce (MsgAuthResponse, hmac token nonce)
      (with_rx rest (after_send (control_or_nil MsgAuthChallenge nonce) (NewTransport ?c mb)))"
    by (intro serverHandshake_response) (use assms in simp_all)
  then show ?thesis
    using assms by (simp add: Accept_def server_verdict_def Verify_def Sign_def sendFrame_writable)
qed


section \<open>Properties\<close>

text \<open>
  C2. The channel is handed out only to a peer that proves the token: if \<^verbatim>\<open>Accept\<close> returns a
  transport then the token is not empty, a 32-byte nonce was drawn and sent as the challenge, and
  the first frame the peer sent is an AUTH_RESPONSE whose body is the HMAC of that nonce under the
  token.
\<close>

theorem Accept_authenticates:
  assumes "fst (Accept hmac rand c token mb) = Inr t"
  shows "\<exists>nonce raw rest. rand = Some nonce \<and> length nonce = NonceLen \<and> token \<noteq> [] \<and>
     rx c = wire_frame raw @ rest \<and> DecodeControl raw = Inr (MsgAuthResponse, hmac token nonce) \<and>
     tx (conn t) = tx c @ wire_frame (control_or_nil MsgAuthChallenge nonce)
                      @ wire_frame (control_or_nil MsgAck [])"
proof -
  let ?t0 = "NewTransport c mb"
  have c0: "conn ?t0 = c" by (rule NewTransport_ready)
  from assms have hs: "serverHandshake hmac rand token ?t0 = (Inr (), t)"
    by (auto simp: Accept_def split: prod.splits sum.splits)
  then obtain nonce t2 mt body where n: "rand = Some nonce"
    and rc: "recvControl (after_send (control_or_nil MsgAuthChallenge nonce) ?t0) = (Inr (mt, body), t2)"
    and v: "server_verdict hmac token nonce (mt, body) t2 = (Inr (), t)"
    by (auto simp: serverHandshake_def bind_action_Inr_iff lift_auth_def NewNonce_def
        sendFrame_Inr_iff split: option.splits sum.splits)
  obtain raw where raw: "rx c = wire_frame raw @ rx (conn t2)"
    and d: "DecodeControl raw = Inr (mt, body)"
    and t2: "t2 = with_rx (rx (conn t2)) (after_send (control_or_nil MsgAuthChallenge nonce) ?t0)"
    using recvControl_Inr[OF rc] by (auto simp: c0)
  from v have mt: "mt = MsgAuthResponse" and ok: "Verify hmac token nonce body"
    and t: "t = after_send (control_or_nil MsgAck []) t2"
    by (auto simp: server_verdict_def sendFrame_Inr_iff split: if_splits)
  have "token \<noteq> []" "length nonce = NonceLen" "body = hmac token nonce"
    using ok by (auto simp: Verify_def Sign_def split: if_splits)
  moreover have "tx (conn t2) = tx c @ wire_frame (control_or_nil MsgAuthChallenge nonce)"
    by (subst t2) (simp add: c0)
  ultimately show ?thesis using n raw d mt t by auto
qed

theorem Accept_authenticates_witness:
  "\<exists>nonce raw rest. Some (replicate 32 7) = Some nonce \<and> length nonce = NonceLen \<and> [1 :: byte] \<noteq> [] \<and>
     wire_frame (control_or_nil MsgAuthResponse ([1] @ replicate 32 7)) = wire_frame raw @ rest \<and>
     DecodeControl raw = Inr (MsgAuthResponse, [1] @ nonce)"
proof -
  let ?c = "\<lparr>rx = wire_frame (control_or_nil MsgAuthResponse ([1] @ replicate 32 7)) @ [],
     tx = [], wr_ok = True, closed = False\<rparr> :: net_conn"
  obtain t where "fst (Accept (@) (Some (replicate 32 7)) ?c [1] 8) = Inr t"
    using Accept_valid_response[of "[1]" "replicate 32 7" "(@)" 8 "[]"] by (auto simp: NonceLen_def)
  from Accept_authenticates[OF this] show ?thesis by fastforce
qed

text \<open>
  C25. Two ends with the same non-empty token and a 32-byte nonce complete the handshake, for every frame cap below
  2^43 megabytes (from there on the cap in bytes wraps and can be negative): there are byte streams such that each end reads
  exactly what the other writes and both \<^verbatim>\<open>Accept\<close> and \<^verbatim>\<open>Connect\<close> return a transport.
\<close>

theorem handshake_completes:
  assumes "token \<noteq> []" "length nonce = NonceLen" "length (hmac token nonce) \<le> 4096" "mb < 2 ^ 43"
  shows "\<exists>s2c c2s ts tc.
     fst (Accept hmac (Some nonce) \<lparr>rx = c2s, tx = [], wr_ok = True, closed = False\<rparr> token mb) = Inr ts \<and>
     fst (Connect hmac \<lparr>rx = s2c, tx = [], wr_ok = True, closed = False\<rparr> token mb) = Inr tc \<and>
     tx (conn ts) = s2c \<and> tx (conn tc) = c2s \<and> rx (conn ts) = [] \<and> rx (conn tc) = []"
proof -
  let ?sig = "hmac token nonce"
  let ?c2s = "wire_frame (control_or_nil MsgAuthResponse ?sig)"
  let ?s2c = "wire_frame (control_or_nil MsgAuthChallenge nonce) @ wire_frame (control_or_nil MsgAck [])"
  let ?cs = "\<lparr>rx = ?c2s, tx = [], wr_ok = True, closed = False\<rparr>"
  let ?cc = "\<lparr>rx = ?s2c, tx = [], wr_ok = True, closed = False\<rparr>"
  obtain ts where ts: "fst (Accept hmac (Some nonce) ?cs token mb) = Inr ts"
      "tx (conn ts) = ?s2c" "rx (conn ts) = []"
    using Accept_valid_response[where hmac = hmac, OF assms, of "[]"] by auto
  have "clientHandshake hmac token (NewTransport ?cc mb) =
    expect_ack (MsgAck, []) (with_rx [] (after_send (control_or_nil MsgAuthResponse ?sig)
       (with_rx (wire_frame (control_or_nil MsgAck []) @ []) (NewTransport ?cc mb))))"
    by (rule clientHandshake_challenge) (use assms in simp_all)
  then obtain tc where "fst (Connect hmac ?cc token mb) = Inr tc" "tx (conn tc) = ?c2s" "rx (conn tc) = []"
    by (simp add: Connect_def expect_ack_def)
  with ts show ?thesis by blast
qed

theorem handshake_completes_witness:
  "\<exists>s2c c2s ts tc.
     fst (Accept (\<lambda>t n. t @ n) (Some (replicate 32 7)) \<lparr>rx = c2s, tx = [], wr_ok = True, closed = False\<rparr> [1] 8)
       = Inr ts \<and>
     fst (Connect (\<lambda>t n. t @ n) \<lparr>rx = s2c, tx = [], wr_ok = True, closed = False\<rparr> [1] 8) = Inr tc \<and>
     tx (conn ts) = s2c \<and> tx (conn tc) = c2s \<and> rx (conn ts) = [] \<and> rx (conn tc) = []"
  by (rule handshake_completes) (simp_all add: NonceLen_def)

text \<open>
  A client with a different token is refused on both sides: whatever follows on the wire, a
  server that reads an AUTH_RESPONSE whose body is not the HMAC of its nonce ends with the
  connection closed and no transport, after writing the ERROR frame; and a client that reads that
  ERROR frame after the challenge gets no transport either.
\<close>

theorem handshake_rejects:
  assumes "body \<noteq> hmac token nonce" "length body \<le> 4096" "length nonce = NonceLen"
    and "token' \<noteq> []" "length (hmac token' nonce) \<le> 4096" "mb < 2 ^ 43"
  shows "Accept hmac (Some nonce)
       \<lparr>rx = wire_frame (control_or_nil MsgAuthResponse body) @ rest, tx = [], wr_ok = True, closed = False\<rparr>
       token mb =
     (Inl (AuthErr BadToken),
      \<lparr>rx = rest, tx = wire_frame (control_or_nil MsgAuthChallenge nonce)
                       @ wire_frame (control_or_nil MsgError [0x61, 0x75, 0x74, 0x68]),
       wr_ok = True, closed = True\<rparr>) \<and>
     fst (Connect hmac
       \<lparr>rx = wire_frame (control_or_nil MsgAuthChallenge nonce)
              @ wire_frame (control_or_nil MsgError [0x61, 0x75, 0x74, 0x68]),
        tx = [], wr_ok = True, closed = False\<rparr> token' mb) = Inl (AuthErr PeerRejects)"
proof -
  let ?cs = "\<lparr>rx = wire_frame (control_or_nil MsgAuthResponse body) @ rest,
     tx = [], wr_ok = True, closed = False\<rparr>"
  let ?err = "[0x61, 0x75, 0x74, 0x68] :: bytes"
  let ?cc = "\<lparr>rx = wire_frame (control_or_nil MsgAuthChallenge nonce)
     @ wire_frame (control_or_nil MsgError ?err), tx = [], wr_ok = True, closed = False\<rparr>"
  have n: "length nonce \<le> 4096" using assms(3) by (simp add: NonceLen_def)
  have "serverHandshake hmac (Some nonce) token (NewTransport ?cs mb) =
    server_verdict hmac token nonce (MsgAuthResponse, body)
      (with_rx rest (after_send (control_or_nil MsgAuthChallenge nonce) (NewTransport ?cs mb)))"
    by (rule serverHandshake_response) (use assms n NewTransport_ready in simp_all)
  moreover have "\<not> Verify hmac token nonce body"
    using assms(1) by (auto simp: Verify_def Sign_def split: if_splits)
  ultimately have "Accept hmac (Some nonce) ?cs token mb = (Inl (AuthErr BadToken),
      \<lparr>rx = rest, tx = wire_frame (control_or_nil MsgAuthChallenge nonce)
        @ wire_frame (control_or_nil MsgError ?err), wr_ok = True, closed = True\<rparr>)"
    by (simp add: Accept_def server_verdict_def sendFrame_writable NewTransport_ready Close_def)
       (simp add: after_send_def with_rx_def NewTransport_ready)
  moreover have "clientHandshake hmac token' (NewTransport ?cc mb) =
    expect_ack (MsgError, ?err) (with_rx [] (after_send (control_or_nil MsgAuthResponse (hmac token' nonce))
       (with_rx (wire_frame (control_or_nil MsgError ?err) @ []) (NewTransport ?cc mb))))"
    by (rule clientHandshake_challenge) (use assms NewTransport_ready in simp_all)
  then have "fst (Connect hmac ?cc token' mb) = Inl (AuthErr PeerRejects)"
    by (simp add: Connect_def expect_ack_def MsgError_def MsgAck_def)
  ultimately show ?thesis by blast
qed

theorem handshake_rejects_witness:
  "fst (Connect (\<lambda>t n. t @ n)
       \<lparr>rx = wire_frame (control_or_nil MsgAuthChallenge (replicate 32 7))
              @ wire_frame (control_or_nil MsgError [0x61, 0x75, 0x74, 0x68]),
        tx = [], wr_ok = True, closed = False\<rparr> [2] 8) = Inl (AuthErr PeerRejects)"
  by (rule handshake_rejects[where token = "[1]" and body = "[2]", THEN conjunct2])
     (simp_all add: NonceLen_def)

end
