(* ===== verification/Kv_Handoff.thy ===== *)
theory Kv_Handoff
  imports Transport
begin

text \<open>
  \<^verbatim>\<open>internal/kvhandoff/kv_handoff.go\<close>: the serialized KV state of a sequence is cut into chunks,
  announced by a manifest (total size, number of chunks, SHA-256) and reassembled by the receiver.
  The Go interface \<^verbatim>\<open>Transport\<close> is a pair of operations passed as arguments (\<open>send\<close>,
  \<open>recv\<close>); its contract is the locale \<open>activation_link\<close>, which the TCP transport satisfies.
  SHA-256 is the parameter \<open>sha\<close> (SHA-256). \<^verbatim>\<open>make([]byte, 0, total)\<close> panics when \<open>total\<close> is negative
  or above the runtime's allocation limit, the parameter \<open>max_alloc\<close>.
\<close>


section \<open>Definitions\<close>

definition stageManifest :: u16 where "stageManifest = 0xFFFE"
definition stageChunk :: u16 where "stageChunk = 0xFFFD"
definition defaultChunk :: int where "defaultChunk = 4 * 1024 * 1024"
definition hashLen :: nat where "hashLen = 32"
definition manifestLen :: nat where "manifestLen = 8 + 4 + hashLen"
definition MaxSeqID :: u32 where "MaxSeqID = 2 ^ 31 - 1"

datatype 'e handoff_error =
    ChunkOverCap
  | TransportErr 'e
  | NotManifest u16
  | BadManifestLen
  | NotChunk u16
  | ChunkOutOfOrder u32
  | ChunksExceedTotal
  | SizeMismatch
  | HashMismatch
  | SeqIDTooBig u32
  | PanicMakeslice

definition SeqIDToSlot :: "u32 \<Rightarrow> ('e handoff_error, int) result" where
  "SeqIDToSlot seqID = (if seqID > MaxSeqID then Inl (SeqIDTooBig seqID) else Inr (sint seqID))"

definition lift_tx :: "('t, 'e, 'a) action \<Rightarrow> ('t, 'e handoff_error, 'a) action" where
  "lift_tx m t = (case m t of (Inl e, t') \<Rightarrow> (Inl (TransportErr e), t') | (Inr a, t') \<Rightarrow> (Inr a, t'))"

text \<open>\<^verbatim>\<open>fmt.Sprintf("%x", sum)\<close>.\<close>

definition hex_digit :: "nat \<Rightarrow> char" where
  "hex_digit n = ''0123456789abcdef'' ! n"

definition hex_string :: "bytes \<Rightarrow> string" where
  "hex_string bs = concat (map (\<lambda>b. [hex_digit (unat b div 16), hex_digit (unat b mod 16)]) bs)"

definition bulk_header :: "u16 \<Rightarrow> u32 \<Rightarrow> bytes \<Rightarrow> ActivationHeader" where
  "bulk_header st tk p =
     \<lparr>StageID = st, TokenIndex = tk, HDType = UInt8, Shape = [of_nat (length p)]\<rparr>"

definition manifest_bytes :: "(bytes \<Rightarrow> bytes) \<Rightarrow> bytes \<Rightarrow> nat \<Rightarrow> bytes" where
  "manifest_bytes sha blob nChunks =
     PutUint64 (of_nat (length blob)) @ PutUint32 (of_nat nChunks) @ sha blob"

definition chunk_at :: "bytes \<Rightarrow> nat \<Rightarrow> nat \<Rightarrow> bytes" where
  "chunk_at blob chunkBytes i =
     (let lo = i * chunkBytes;
          hi = (if lo + chunkBytes > length blob then length blob else lo + chunkBytes)
      in take (hi - lo) (drop lo blob))"

fun send_chunks ::
  "(ActivationHeader \<Rightarrow> bytes \<Rightarrow> ('t, 'e, unit) action) \<Rightarrow> bytes \<Rightarrow> nat \<Rightarrow> nat \<Rightarrow> nat
     \<Rightarrow> ('t, 'e handoff_error, unit) action" where
  "send_chunks send blob cb i 0 = return_action ()"
| "send_chunks send blob cb i (Suc n) =
     (let chunk = chunk_at blob cb i
      in bind_action (lift_tx (send (bulk_header stageChunk (of_nat i) chunk) chunk))
           (\<lambda>_. send_chunks send blob cb (Suc i) n))"

definition SendKV ::
  "(ActivationHeader \<Rightarrow> bytes \<Rightarrow> ('t, 'e, unit) action) \<Rightarrow> ('t \<Rightarrow> int) \<Rightarrow> (bytes \<Rightarrow> bytes)
     \<Rightarrow> u32 \<Rightarrow> bytes \<Rightarrow> int \<Rightarrow> ('t, 'e handoff_error, string) action" where
  "SendKV send cap sha seqID blob chunkBytes t =
     (let cb = (if chunkBytes \<le> 0 then defaultChunk else chunkBytes)
      in if cap t > 0 \<and> cb > cap t then (Inl ChunkOverCap, t)
         else
           let tot = length blob;
               nChunks = (if tot > 0 then (tot + nat cb - 1) div nat cb else 0);
               manifest = manifest_bytes sha blob nChunks
           in bind_action (lift_tx (send (bulk_header stageManifest seqID manifest) manifest)) (\<lambda>_.
              bind_action (send_chunks send blob (nat cb) 0 nChunks) (\<lambda>_.
              return_action (hex_string (sha blob)))) t)"

fun recv_chunks ::
  "('r, 'e, ActivationHeader \<times> bytes) action \<Rightarrow> u64 \<Rightarrow> nat \<Rightarrow> nat \<Rightarrow> bytes
     \<Rightarrow> ('r, 'e handoff_error, bytes) action" where
  "recv_chunks recv tot i 0 blob = return_action blob"
| "recv_chunks recv tot i (Suc n) blob =
     bind_action (lift_tx recv) (\<lambda>(ch, cview).
       if StageID ch \<noteq> stageChunk then throw_action (NotChunk (StageID ch))
       else if TokenIndex ch \<noteq> of_nat i then throw_action (ChunkOutOfOrder (TokenIndex ch))
       else
         let blob' = blob @ cview
         in if int (length blob') > sint tot then throw_action ChunksExceedTotal
            else recv_chunks recv tot (Suc i) n blob')"

definition finish_recv ::
  "(bytes \<Rightarrow> bytes) \<Rightarrow> u64 \<Rightarrow> bytes \<Rightarrow> u32 \<Rightarrow> bytes \<Rightarrow> ('r, 'e handoff_error, u32 \<times> bytes) action" where
  "finish_recv sha tot wantHash seqID blob =
     (if int (length blob) \<noteq> sint tot then throw_action SizeMismatch
      else if sha blob \<noteq> wantHash then throw_action HashMismatch
      else return_action (seqID, blob))"

definition RecvKV ::
  "('r, 'e, ActivationHeader \<times> bytes) action \<Rightarrow> int \<Rightarrow> (bytes \<Rightarrow> bytes)
     \<Rightarrow> ('r, 'e handoff_error, u32 \<times> bytes) action" where
  "RecvKV recv max_alloc sha =
     bind_action (lift_tx recv) (\<lambda>(h, view).
       if StageID h \<noteq> stageManifest then throw_action (NotManifest (StageID h))
       else if length view \<noteq> manifestLen then throw_action BadManifestLen
       else
         let tot = Uint64 view;
             nChunks = unat (Uint32 (drop 8 view));
             wantHash = drop 12 view
         in if sint tot < 0 \<or> sint tot > max_alloc then throw_action PanicMakeslice
            else bind_action (recv_chunks recv tot 0 nChunks [])
                   (finish_recv sha tot wantHash (TokenIndex h)))"


section \<open>Chunking\<close>

text \<open>The abstract view of the transfer: the chunks of a blob, and the messages that carry them.\<close>

definition chunks_from :: "bytes \<Rightarrow> nat \<Rightarrow> nat \<Rightarrow> nat \<Rightarrow> bytes list" where
  "chunks_from blob cb i n = map (chunk_at blob cb) [i..<i + n]"

definition chunk_msg :: "bytes \<Rightarrow> nat \<Rightarrow> nat \<Rightarrow> ActivationHeader \<times> bytes" where
  "chunk_msg blob cb i = (bulk_header stageChunk (of_nat i) (chunk_at blob cb i), chunk_at blob cb i)"

lemma chunk_at_eq: "chunk_at blob cb i = take cb (drop (i * cb) blob)"
proof (cases "i * cb + cb > length blob")
  case True
  then have "length (drop (i * cb) blob) \<le> cb" by simp
  then show ?thesis by (simp add: chunk_at_def Let_def True)
next
  case False
  then show ?thesis by (simp add: chunk_at_def Let_def)
qed

lemma length_chunk_at: "length (chunk_at blob cb i) \<le> cb"
  by (simp add: chunk_at_eq)

lemma concat_chunks_from: "concat (chunks_from blob cb i n) = take (n * cb) (drop (i * cb) blob)"
proof (induction n arbitrary: i)
  case 0
  then show ?case by (simp add: chunks_from_def)
next
  case (Suc n)
  have "[i..<i + Suc n] = i # [Suc i..<Suc i + n]" by (simp add: upt_conv_Cons)
  then have "concat (chunks_from blob cb i (Suc n)) = chunk_at blob cb i @ concat (chunks_from blob cb (Suc i) n)"
    by (simp only: chunks_from_def list.map concat.simps)
  also have "\<dots> = take cb (drop (i * cb) blob) @ take (n * cb) (drop cb (drop (i * cb) blob))"
    by (simp add: Suc.IH chunk_at_eq add.commute)
  also have "\<dots> = take (Suc n * cb) (drop (i * cb) blob)"
    using take_add[of cb "n * cb" "drop (i * cb) blob"] by simp
  finally show ?case .
qed

lemma ceil_div_covers: "0 < cb \<Longrightarrow> tot \<le> ((tot + cb - 1) div cb) * (cb :: nat)"
proof -
  assume cb: "0 < cb"
  have "tot + cb - 1 < ((tot + cb - 1) div cb) * cb + cb"
    using mod_less_divisor[OF cb, of "tot + cb - 1"] div_mult_mod_eq[of "tot + cb - 1" cb]
    by linarith
  then show ?thesis using cb by linarith
qed

text \<open>The chunk size and count \<^verbatim>\<open>SendKV\<close> settles on, its manifest, and the messages of a transfer.\<close>

definition chunk_size :: "int \<Rightarrow> nat" where
  "chunk_size b = nat (if b \<le> 0 then defaultChunk else b)"

definition chunk_count :: "int \<Rightarrow> bytes \<Rightarrow> nat" where
  "chunk_count b blob =
     (if length blob > 0 then (length blob + chunk_size b - 1) div chunk_size b else 0)"

definition kv_manifest :: "(bytes \<Rightarrow> bytes) \<Rightarrow> bytes \<Rightarrow> int \<Rightarrow> bytes" where
  "kv_manifest sha blob b = manifest_bytes sha blob (chunk_count b blob)"

definition kv_messages :: "(bytes \<Rightarrow> bytes) \<Rightarrow> u32 \<Rightarrow> bytes \<Rightarrow> int \<Rightarrow> (ActivationHeader \<times> bytes) list" where
  "kv_messages sha seqID blob b =
     (bulk_header stageManifest seqID (kv_manifest sha blob b), kv_manifest sha blob b)
     # map (chunk_msg blob (chunk_size b)) [0..<chunk_count b blob]"

lemma chunk_size_pos: "0 < chunk_size b"
  by (simp add: chunk_size_def defaultChunk_def)

lemma concat_all_chunks: "concat (chunks_from blob (chunk_size b) 0 (chunk_count b blob)) = blob"
  using ceil_div_covers[OF chunk_size_pos, of "length blob" b]
  by (simp add: concat_chunks_from chunk_count_def)

lemma length_kv_manifest: "length (sha blob) = hashLen \<Longrightarrow> length (kv_manifest sha blob b) = manifestLen"
  by (simp add: kv_manifest_def manifest_bytes_def manifestLen_def)

lemma kv_manifest_fields:
  assumes "length (sha blob) = hashLen" "length blob < 2 ^ 63" "chunk_count b blob < 2 ^ 32"
  shows "length (kv_manifest sha blob b) = manifestLen"
    "sint (Uint64 (kv_manifest sha blob b)) = int (length blob)"
    "unat (Uint32 (drop 8 (kv_manifest sha blob b))) = chunk_count b blob"
    "drop 12 (kv_manifest sha blob b) = sha blob"
  using assms
  by (simp_all add: length_kv_manifest, simp_all add: kv_manifest_def manifest_bytes_def
      sint_u64_of_nat unat_of_nat_32)

lemma SendKV_unfold:
  assumes "cap t > 0 \<longrightarrow> int (chunk_size b) \<le> cap t"
  shows "SendKV send cap sha seqID blob b t =
     bind_action (lift_tx (send (bulk_header stageManifest seqID (kv_manifest sha blob b))
                             (kv_manifest sha blob b))) (\<lambda>_.
     bind_action (send_chunks send blob (chunk_size b) 0 (chunk_count b blob)) (\<lambda>_.
     return_action (hex_string (sha blob)))) t"
proof -
  define c where "c = (if b \<le> 0 then defaultChunk else b)"
  have "0 < c" by (simp add: c_def defaultChunk_def)
  then have "\<not> (cap t > 0 \<and> c > cap t)" using assms by (auto simp: chunk_size_def c_def)
  moreover have "chunk_size b = nat c" by (simp add: chunk_size_def c_def)
  ultimately show ?thesis
    by (auto simp: SendKV_def Let_def kv_manifest_def chunk_count_def simp flip: c_def)
qed

section \<open>The transport contract\<close>

text \<open>
  What the hand-off relies on of its channel: a message the link can carry (\<open>ok\<close>) is appended to
  the byte stream of the sender, and a receiver whose stream starts with that message delivers it
  and moves past it; byte blobs up to \<open>maxp\<close> bytes can be carried.
\<close>

locale activation_link =
  fixes send :: "ActivationHeader \<Rightarrow> bytes \<Rightarrow> ('s, 'e, unit) action"
    and recv :: "('r, 'e, ActivationHeader \<times> bytes) action"
    and sink :: "'s \<Rightarrow> bytes" and source :: "'r \<Rightarrow> bytes"
    and up_s :: "'s \<Rightarrow> bool" and up_r :: "'r \<Rightarrow> bool"
    and wire :: "ActivationHeader \<times> bytes \<Rightarrow> bytes"
    and ok :: "ActivationHeader \<Rightarrow> bytes \<Rightarrow> bool"
    and maxp :: nat
  assumes send_ok: "up_s s \<Longrightarrow> ok h p \<Longrightarrow>
      \<exists>s'. send h p s = (Inr (), s') \<and> sink s' = sink s @ wire (h, p) \<and> up_s s'"
    and recv_ok: "up_r r \<Longrightarrow> ok h p \<Longrightarrow> source r = wire (h, p) @ rest \<Longrightarrow>
      \<exists>r'. recv r = (Inr (h, p), r') \<and> source r' = rest \<and> up_r r'"
    and bulk_ok: "length p \<le> maxp \<Longrightarrow> ok (bulk_header st tk p) p"
begin

lemma send_chunks_link:
  assumes "up_s s" "cb \<le> maxp"
  shows "\<exists>s'. send_chunks send blob cb i n s = (Inr (), s') \<and> up_s s' \<and>
     sink s' = sink s @ concat (map (\<lambda>j. wire (chunk_msg blob cb j)) [i..<i + n])"
  using assms(1)
proof (induction n arbitrary: i s)
  case 0
  then show ?case by simp
next
  case (Suc n)
  let ?c = "chunk_at blob cb i"
  have "length ?c \<le> maxp" using length_chunk_at[of blob cb i] assms(2) by simp
  then obtain s1 where s1: "send (bulk_header stageChunk (of_nat i) ?c) ?c s = (Inr (), s1)"
      "sink s1 = sink s @ wire (chunk_msg blob cb i)" "up_s s1"
    using send_ok[OF Suc.prems bulk_ok] unfolding chunk_msg_def by blast
  obtain s2 where s2: "send_chunks send blob cb (Suc i) n s1 = (Inr (), s2)" "up_s s2"
      "sink s2 = sink s1 @ concat (map (\<lambda>j. wire (chunk_msg blob cb j)) [Suc i..<Suc i + n])"
    using Suc.IH[OF s1(3)] by blast
  have "[i..<i + Suc n] = i # [Suc i..<Suc i + n]" by (simp add: upt_conv_Cons)
  then show ?case
    using s1 s2 by (simp add: Let_def bind_action_def lift_tx_def)
qed

lemma recv_chunks_link:
  assumes "up_r r" "cb \<le> maxp"
    "source r = concat (map (\<lambda>j. wire (chunk_msg blob cb j)) [i..<i + n]) @ rest"
    "int (length acc + length (concat (chunks_from blob cb i n))) \<le> sint tot"
  shows "\<exists>r'. recv_chunks recv tot i n acc r = (Inr (acc @ concat (chunks_from blob cb i n)), r') \<and>
     up_r r' \<and> source r' = rest"
  using assms(1,3,4)
proof (induction n arbitrary: i r acc)
  case 0
  then show ?case by (simp add: chunks_from_def)
next
  case (Suc n)
  let ?c = "chunk_at blob cb i"
  have u: "[i..<i + Suc n] = i # [Suc i..<Suc i + n]" by (simp add: upt_conv_Cons)
  have cs: "chunks_from blob cb i (Suc n) = ?c # chunks_from blob cb (Suc i) n"
    unfolding chunks_from_def u by simp
  have "length ?c \<le> maxp" using length_chunk_at[of blob cb i] assms(2) by simp
  then have ok: "ok (bulk_header stageChunk (of_nat i) ?c) ?c" by (rule bulk_ok)
  have "source r = wire (chunk_msg blob cb i)
      @ (concat (map (\<lambda>j. wire (chunk_msg blob cb j)) [Suc i..<Suc i + n]) @ rest)"
    using Suc.prems(2) unfolding u by simp
  from recv_ok[OF Suc.prems(1) ok this[unfolded chunk_msg_def[of _ _ i]]]
  obtain r1 where r1: "recv r = (Inr (chunk_msg blob cb i), r1)" "up_r r1"
      "source r1 = concat (map (\<lambda>j. wire (chunk_msg blob cb j)) [Suc i..<Suc i + n]) @ rest"
    unfolding chunk_msg_def[of _ _ i] by blast
  have b: "int (length (acc @ ?c) + length (concat (chunks_from blob cb (Suc i) n))) \<le> sint tot"
    using Suc.prems(3) unfolding cs by simp
  obtain r2 where "recv_chunks recv tot (Suc i) n (acc @ ?c) r1 =
      (Inr ((acc @ ?c) @ concat (chunks_from blob cb (Suc i) n)), r2)" "up_r r2" "source r2 = rest"
    using Suc.IH[OF r1(2,3) b] by blast
  then show ?case
    using r1(1) b unfolding cs
    by (simp add: bind_action_def lift_tx_def chunk_msg_def bulk_header_def Let_def)
qed

text \<open>The sender's half and the receiver's half of a transfer, over the same stream of messages.\<close>

lemma SendKV_link:
  assumes "up_s s" "chunk_size b \<le> maxp" "cap s > 0 \<longrightarrow> int (chunk_size b) \<le> cap s"
    and m: "length (kv_manifest sha blob b) \<le> maxp"
  shows "\<exists>s'. SendKV send cap sha seqID blob b s = (Inr (hex_string (sha blob)), s') \<and>
     sink s' = sink s @ concat (map wire (kv_messages sha seqID blob b))"
proof -
  let ?m = "kv_manifest sha blob b" and ?cb = "chunk_size b" and ?n = "chunk_count b blob"
  obtain s1 where s1: "send (bulk_header stageManifest seqID ?m) ?m s = (Inr (), s1)"
      "sink s1 = sink s @ wire (bulk_header stageManifest seqID ?m, ?m)" "up_s s1"
    using send_ok[OF assms(1) bulk_ok[OF m]] by blast
  obtain s2 where s2: "send_chunks send blob ?cb 0 ?n s1 = (Inr (), s2)"
      "sink s2 = sink s1 @ concat (map (\<lambda>j. wire (chunk_msg blob ?cb j)) [0..<0 + ?n])"
    using send_chunks_link[OF s1(3) assms(2)] by blast
  have "SendKV send cap sha seqID blob b s = (Inr (hex_string (sha blob)), s2)"
    unfolding SendKV_unfold[where cap = cap, OF assms(3)]
    using s1(1) s2(1) by (simp add: bind_action_def lift_tx_def)
  then show ?thesis
    using s1(2) s2(2) by (simp add: kv_messages_def comp_def)
qed

lemma RecvKV_link:
  assumes "up_r r" "chunk_size b \<le> maxp" and m: "length (kv_manifest sha blob b) \<le> maxp"
    and sha: "length (sha blob) = hashLen"
    and size: "length blob < 2 ^ 63" "int (length blob) \<le> max_alloc" "chunk_count b blob < 2 ^ 32"
    and src: "source r = concat (map wire (kv_messages sha seqID blob b)) @ rest"
  shows "\<exists>r'. RecvKV recv max_alloc sha r = (Inr (seqID, blob), r') \<and> source r' = rest"
proof -
  let ?m = "kv_manifest sha blob b" and ?cb = "chunk_size b" and ?n = "chunk_count b blob"
  let ?chunks = "concat (map (\<lambda>j. wire (chunk_msg blob ?cb j)) [0..<0 + ?n])"
  have "source r = wire (bulk_header stageManifest seqID ?m, ?m) @ (?chunks @ rest)"
    using src by (simp add: kv_messages_def comp_def)
  from recv_ok[OF assms(1) bulk_ok[OF m] this]
  obtain r1 where r1: "recv r = (Inr (bulk_header stageManifest seqID ?m, ?m), r1)"
      "source r1 = ?chunks @ rest" "up_r r1" by blast
  note F = kv_manifest_fields[where sha = sha, OF sha size(1,3)]
  obtain r2 where r2: "recv_chunks recv (Uint64 ?m) 0 ?n [] r1 = (Inr blob, r2)" "source r2 = rest"
    using recv_chunks_link[OF r1(3) assms(2) r1(2), of "[]" "Uint64 ?m"] F(2)
    by (auto simp: concat_all_chunks)
  have "RecvKV recv max_alloc sha r = (Inr (seqID, blob), r2)"
    using r1(1) r2(1) F size(2)
    by (simp add: RecvKV_def bind_action_def lift_tx_def bulk_header_def Let_def finish_recv_def)
  then show ?thesis using r2(2) by blast
qed

end


section \<open>The TCP transport satisfies the contract\<close>

definition wire_msg :: "ActivationHeader \<times> bytes \<Rightarrow> bytes" where
  "wire_msg m = (case EncodeActivation (fst m) (snd m) of Inl _ \<Rightarrow> [] | Inr f \<Rightarrow> wire_frame f)"

definition tcp_carries :: "int \<Rightarrow> ActivationHeader \<Rightarrow> bytes \<Rightarrow> bool" where
  "tcp_carries mp h p \<longleftrightarrow>
     (\<exists>f. EncodeActivation h p = Inr f \<and> int (length p) \<le> mp \<and> length f < 2 ^ 32)"

definition receiving :: "int \<Rightarrow> TcpTransport \<Rightarrow> bool" where
  "receiving mp t \<longleftrightarrow> \<not> closed (conn t) \<and> maxPayload t = mp \<and> maxFrameBytes t = mp + headerSlack"

lemma length_EncodeActivation:
  "EncodeActivation h p = Inr f \<Longrightarrow> length f = 24 + 4 * length (Shape h) + length p \<and> length (Shape h) \<le> 8"
  by (auto simp: EncodeActivation_Inr_iff validateShape_Inr_iff MaxNDim_def)

lemma EncodeActivation_bulk:
  assumes "length p \<le> 2 ^ 24"
  shows "\<exists>f. EncodeActivation (bulk_header st tk p) p = Inr f \<and> length f = 28 + length p"
proof -
  have u: "unat (of_nat (length p) :: u32) = length p" using assms by (simp add: unat_of_nat_32)
  have "(of_nat (length p) :: u32) \<le> MaxDim"
    using assms by (simp add: word_le_nat_alt u MaxDim_def)
  then have "validateShape (Shape (bulk_header st tk p)) = Inr ()"
    by (simp add: validateShape_Inr_iff bulk_header_def MaxNDim_def)
  moreover have "dtypeSize UInt8 = Some 1" by (simp add: frame_eval)
  then have "ExpectedBytes (bulk_header st tk p) = Inr (of_nat (length p))"
    by (simp add: ExpectedBytes_unat bulk_header_def u)
  ultimately show ?thesis
    by (simp add: EncodeActivation_Inr_iff) (simp add: bulk_header_def)
qed

interpretation tcp: activation_link SendActivation RecvActivation
  "\<lambda>t. tx (conn t)" "\<lambda>t. rx (conn t)" writable "receiving (int mp)" wire_msg "tcp_carries (int mp)"
  "min mp (2 ^ 24)" for mp
proof (unfold_locales, goal_cases)
  case (1 s h p)
  then show ?case
    by (auto simp: tcp_carries_def SendActivation_def sendFrame_writable wire_msg_def)
next
  case (2 r h p rest)
  then obtain f where f: "EncodeActivation h p = Inr f" "int (length p) \<le> int mp" "length f < 2 ^ 32"
    by (auto simp: tcp_carries_def)
  have "recvFrame r = (Inr f, with_rx rest r)"
    by (rule recvFrame_wire)
       (use 2 f length_EncodeActivation[OF f(1)] in
         \<open>simp_all add: receiving_def headerSlack_def wire_msg_def\<close>)
  moreover have "DecodeActivation f (int mp) = Inr (h, p)"
    by (rule decode_of_encode[OF f(1,2)]) (use f(3) in simp)
  ultimately show ?case
    using 2(1) by (simp add: RecvActivation_def receiving_def)
next
  case (3 p st tk)
  then show ?case
    using EncodeActivation_bulk[of p st tk] by (auto simp: tcp_carries_def)
qed


section \<open>Properties\<close>

lemma chunk_count_fits:
  assumes "length blob \<le> chunk_size b * (2 ^ 32 - 1)"
  shows "chunk_count b blob < 2 ^ 32"
proof -
  have "chunk_size b * (2 ^ 32 - 1) + chunk_size b = chunk_size b * 2 ^ 32"
    by (simp add: algebra_simps)
  then have "length blob + chunk_size b - 1 < chunk_size b * 2 ^ 32"
    using assms chunk_size_pos[of b] by linarith
  then have "length blob + chunk_size b - 1 < 2 ^ 32 * chunk_size b"
    by (simp only: mult.commute)
  then have "(length blob + chunk_size b - 1) div chunk_size b < 2 ^ 32"
    by (rule less_mult_imp_div_less)
  then show ?thesis by (simp add: chunk_count_def)
qed

text \<open>
  C3. A KV blob survives the hand-off over TCP: for a transport with a cap of at least 44 bytes and
  at least the chunk size (which is at most \<open>2 ^ 24\<close>), \<^verbatim>\<open>SendKV\<close> succeeds with the hex digest, and a
  receiver with the same cap that reads the bytes it wrote gets back exactly the sequence id and
  the blob, leaving the rest of the stream untouched.
\<close>

theorem SendKV_RecvKV_tcp:
  assumes "writable s" "MaxPayload s = int mp" "44 \<le> mp" "chunk_size b \<le> mp" "chunk_size b \<le> 2 ^ 24"
    and "length (sha blob) = hashLen"
    and "length blob < 2 ^ 63" "int (length blob) \<le> max_alloc"
      "length blob \<le> chunk_size b * (2 ^ 32 - 1)"
    and "receiving (int mp) r"
  shows "\<exists>s' w. SendKV SendActivation MaxPayload sha seqID blob b s =
            (Inr (hex_string (sha blob)), s') \<and>
          tx (conn s') = tx (conn s) @ w \<and>
          (\<forall>rest. \<exists>r'. RecvKV RecvActivation max_alloc sha (with_rx (w @ rest) r) = (Inr (seqID, blob), r') \<and>
             rx (conn r') = rest)"
proof -
  let ?w = "concat (map wire_msg (kv_messages sha seqID blob b))"
  have maxp: "chunk_size b \<le> min mp (2 ^ 24)" "length (kv_manifest sha blob b) \<le> min mp (2 ^ 24)"
    using assms(3-6) by (simp_all add: length_kv_manifest manifestLen_def hashLen_def)
  have "\<exists>s'. SendKV SendActivation MaxPayload sha seqID blob b s = (Inr (hex_string (sha blob)), s')
      \<and> tx (conn s') = tx (conn s) @ ?w"
    by (rule tcp.SendKV_link[OF assms(1) maxp(1) _ maxp(2)]) (use assms(2,4) in simp)
  moreover have "\<exists>r'. RecvKV RecvActivation max_alloc sha (with_rx (?w @ rest) r) = (Inr (seqID, blob), r')
      \<and> rx (conn r') = rest" for rest
    by (rule tcp.RecvKV_link[OF _ maxp assms(6,7,8) chunk_count_fits[OF assms(9)]])
       (use assms(10) in \<open>simp_all add: receiving_def\<close>)
  ultimately show ?thesis by blast
qed

theorem SendKV_RecvKV_tcp_witness:
  "\<exists>s' w. SendKV SendActivation MaxPayload (\<lambda>_. replicate 32 0) 3 [1, 2, 3] 2
            (NewTransport \<lparr>rx = [], tx = [], wr_ok = True, closed = False\<rparr> 8) =
            (Inr (hex_string (replicate 32 0)), s') \<and>
          tx (conn s') = [] @ w \<and>
          (\<forall>rest. \<exists>r'. RecvKV RecvActivation (2 ^ 48) (\<lambda>_. replicate 32 0)
               (with_rx (w @ rest) (NewTransport \<lparr>rx = [], tx = [], wr_ok = True, closed = False\<rparr> 8)) =
                 (Inr (3, [1, 2, 3]), r') \<and> rx (conn r') = rest)"
  using SendKV_RecvKV_tcp[where s = "NewTransport \<lparr>rx = [], tx = [], wr_ok = True, closed = False\<rparr> 8"
      and r = "NewTransport \<lparr>rx = [], tx = [], wr_ok = True, closed = False\<rparr> 8"
      and sha = "\<lambda>_. replicate 32 0" and mp = 8388608 and b = 2 and blob = "[1, 2, 3]"
      and max_alloc = "2 ^ 48" and seqID = 3]
  by (simp add: NewTransport_def Let_def MaxPayload_def chunk_size_def hashLen_def receiving_def
      headerSlack_def writable_def wrap64_def)


text \<open>Receiving a given number of messages, with no check at all: what \<open>recv_chunks\<close> is measured against.\<close>

fun recv_list :: "('r, 'e, 'm) action \<Rightarrow> nat \<Rightarrow> ('r, 'e, 'm list) action" where
  "recv_list recv 0 = return_action []"
| "recv_list recv (Suc n) =
     bind_action recv (\<lambda>m. bind_action (recv_list recv n) (\<lambda>ms. return_action (m # ms)))"

lemma lift_tx_Inr_iff: "lift_tx m t = (Inr a, t') \<longleftrightarrow> m t = (Inr a, t')"
  by (auto simp: lift_tx_def split: prod.splits sum.splits)

lemma recv_chunks_Inr:
  assumes "recv_chunks recv tot i n acc r = (Inr blob, r')"
  shows "\<exists>msgs. recv_list recv n r = (Inr msgs, r') \<and> blob = acc @ concat (map snd msgs) \<and>
     length msgs = n \<and>
     (\<forall>k<n. StageID (fst (msgs ! k)) = stageChunk \<and> TokenIndex (fst (msgs ! k)) = of_nat (i + k))"
  using assms
proof (induction n arbitrary: i acc r)
  case 0
  then show ?case by auto
next
  case (Suc n)
  then obtain ch cview r1 where r1: "recv r = (Inr (ch, cview), r1)"
    and ch: "StageID ch = stageChunk" "TokenIndex ch = of_nat i"
    and rest: "recv_chunks recv tot (Suc i) n (acc @ cview) r1 = (Inr blob, r')"
    by (auto simp: bind_action_Inr_iff lift_tx_Inr_iff Let_def split: if_splits)
  from Suc.IH[OF rest] obtain msgs where m: "recv_list recv n r1 = (Inr msgs, r')"
      "blob = (acc @ cview) @ concat (map snd msgs)" "length msgs = n"
      "\<forall>k<n. StageID (fst (msgs ! k)) = stageChunk \<and> TokenIndex (fst (msgs ! k)) = of_nat (Suc i + k)"
    by blast
  have "recv_list recv (Suc n) r = (Inr ((ch, cview) # msgs), r')"
    using r1 m(1) by (simp add: bind_action_def)
  moreover have "StageID (fst (((ch, cview) # msgs) ! k)) = stageChunk \<and>
      TokenIndex (fst (((ch, cview) # msgs) ! k)) = of_nat (i + k)" if "k < Suc n" for k
    using that m(4) ch by (cases k) auto
  ultimately show ?case using m(2,3) by (intro exI[of _ "(ch, cview) # msgs"]) simp
qed

text \<open>
  C10. A blob reaches the consumer only intact: if \<^verbatim>\<open>RecvKV\<close> returns a blob over any transport, then
  the first message was a manifest carrying the returned sequence id, the blob's length and the
  blob's SHA-256, and the blob is the concatenation, in order, of exactly the announced number of
  chunk messages numbered 0, 1, 2, ...
\<close>

theorem RecvKV_integrity:
  assumes "RecvKV recv max_alloc sha r = (Inr (seqID, blob), r')"
  shows "\<exists>h view r1 msgs. recv r = (Inr (h, view), r1) \<and>
     StageID h = stageManifest \<and> TokenIndex h = seqID \<and> length view = manifestLen \<and>
     sint (Uint64 view) = int (length blob) \<and> drop 12 view = sha blob \<and>
     recv_list recv (unat (Uint32 (drop 8 view))) r1 = (Inr msgs, r') \<and>
     blob = concat (map snd msgs) \<and> int (length blob) \<le> max_alloc \<and>
     (\<forall>k<length msgs. StageID (fst (msgs ! k)) = stageChunk \<and> TokenIndex (fst (msgs ! k)) = of_nat k)"
proof -
  from assms obtain h view r1 where m: "recv r = (Inr (h, view), r1)" "StageID h = stageManifest"
      "TokenIndex h = seqID" "length view = manifestLen" "sint (Uint64 view) = int (length blob)"
      "drop 12 view = sha blob" "sint (Uint64 view) \<le> max_alloc"
    and c: "recv_chunks recv (Uint64 view) 0 (unat (Uint32 (drop 8 view))) [] r1 = (Inr blob, r')"
    by (auto simp: RecvKV_def bind_action_Inr_iff lift_tx_Inr_iff finish_recv_def Let_def split: if_splits)
  from recv_chunks_Inr[OF c] obtain msgs where
      "recv_list recv (unat (Uint32 (drop 8 view))) r1 = (Inr msgs, r')" "blob = concat (map snd msgs)"
      "length msgs = unat (Uint32 (drop 8 view))"
      "\<forall>k<length msgs. StageID (fst (msgs ! k)) = stageChunk \<and> TokenIndex (fst (msgs ! k)) = of_nat k"
    by auto
  with m show ?thesis by (intro exI[of _ h] exI[of _ view] exI[of _ r1] exI[of _ msgs]) simp
qed

theorem RecvKV_integrity_witness:
  "\<exists>h view r1 msgs. (\<lambda>_ :: unit. (Inr (bulk_header stageManifest 5 (kv_manifest (\<lambda>_. replicate 32 0) [] 1),
        kv_manifest (\<lambda>_. replicate 32 0) [] 1), ()) :: (nat, ActivationHeader \<times> bytes) result \<times> unit) ()
        = (Inr (h, view), r1) \<and>
     StageID h = stageManifest \<and> TokenIndex h = 5 \<and> sint (Uint64 view) = int (length ([] :: bytes))"
proof -
  let ?m = "kv_manifest (\<lambda>_. replicate 32 0) [] 1"
  let ?recv = "\<lambda>_ :: unit. (Inr (bulk_header stageManifest 5 ?m, ?m), ())
     :: (nat, ActivationHeader \<times> bytes) result \<times> unit"
  note F = kv_manifest_fields[of "\<lambda>_. replicate 32 0" "[]" 1]
  have "RecvKV ?recv 1000 (\<lambda>_. replicate 32 0) () = (Inr (5, []), ())"
    using F by (simp add: RecvKV_def bind_action_def lift_tx_def bulk_header_def Let_def finish_recv_def
        hashLen_def chunk_count_def)
  from RecvKV_integrity[OF this] show ?thesis by blast
qed

text \<open>
  The size announced by the manifest is trusted before it is checked: a manifest whose total is
  negative as a 64-bit \<^verbatim>\<open>int\<close> or above the runtime's allocation limit makes \<^verbatim>\<open>RecvKV\<close> panic in
  \<^verbatim>\<open>make\<close>, whatever the chunk count and hash say and before any chunk is read.
\<close>

theorem RecvKV_panics_on_huge_total:
  assumes "recv r = (Inr (h, view), r1)" "StageID h = stageManifest" "length view = manifestLen"
    and "sint (Uint64 view) < 0 \<or> max_alloc < sint (Uint64 view)"
  shows "RecvKV recv max_alloc sha r = (Inl PanicMakeslice, r1)"
  using assms by (simp add: RecvKV_def bind_action_def lift_tx_def Let_def)

theorem RecvKV_panics_on_huge_total_witness:
  "RecvKV (\<lambda>_ :: unit. (Inr (bulk_header stageManifest 5 (PutUint64 (2 ^ 63) @ replicate 36 0),
        PutUint64 (2 ^ 63) @ replicate 36 0), ()) :: (nat, ActivationHeader \<times> bytes) result \<times> unit)
     (2 ^ 48) (\<lambda>_. []) () = (Inl PanicMakeslice, ())"
  by (rule RecvKV_panics_on_huge_total, rule refl)
     (simp_all add: bulk_header_def manifestLen_def hashLen_def)

text \<open>
  A sequence id crosses the engine boundary only when it fits in a non-negative \<^verbatim>\<open>int32\<close>, and
  then with its value unchanged; every other id is rejected.
\<close>

theorem SeqIDToSlot_nonneg:
  "(SeqIDToSlot w :: ('e handoff_error, int) result) =
     (if unat w < 2 ^ 31 then Inr (int (unat w)) else Inl (SeqIDTooBig w))"
proof -
  have "unat MaxSeqID = 2147483647" by (simp add: MaxSeqID_def)
  then have le: "w \<le> MaxSeqID \<longleftrightarrow> unat w < 2 ^ 31"
    by (auto simp: word_le_nat_alt)
  have "sint w = int (unat w)" if "unat w < 2 ^ 31"
  proof -
    have u: "uint w = int (unat w)" by simp
    have "int (unat w) < int (2 ^ 31)" using that by (simp only: of_nat_less_iff)
    then have "uint w < 2 ^ 31" by simp
    moreover have "- (2 ^ 31) \<le> uint w" by (simp add: order_trans[OF _ unsigned_greater_eq])
    ultimately have "signed_take_bit 31 (uint w) = uint w"
      by (intro signed_take_bit_int_eq_self)
    then show ?thesis by (simp add: sint_uint)
  qed
  with le show ?thesis by (auto simp: SeqIDToSlot_def not_less)
qed

end
