(* ===== verification/Go_Data.thy ===== *)
theory Go_Data
  imports Complex_Main "HOL-Library.AList" Sofmat_Prelude
begin

text \<open>
  Values of Go the components share: \<^verbatim>\<open>float64\<close> as an exact real, \<^verbatim>\<open>any\<close> (decoded JSON and record
  fields), the two map types built on it, header maps, and the rune count of a byte string. A Go
  map is an association list with distinct keys: \<open>map_of\<close> reads it, \<open>AList.update\<close> writes it, and
  its order is the order in which a \<^verbatim>\<open>range\<close> loop meets the entries.
\<close>

type_synonym float64 = real

text \<open>Go's \<^verbatim>\<open>int(x)\<close> truncates towards zero.\<close>

definition go_int :: "float64 \<Rightarrow> int" where
  "go_int x = (if x \<ge> 0 then \<lfloor>x\<rfloor> else \<lceil>x\<rceil>)"

text \<open>
  \<open>Num\<close> is an \<^verbatim>\<open>int\<close> or \<^verbatim>\<open>int64\<close>, \<open>Flt\<close> a \<^verbatim>\<open>float64\<close>, \<open>Arr\<close> an \<^verbatim>\<open>[]any\<close>, \<open>Objs\<close> a
  \<^verbatim>\<open>[]map[string]any\<close>, \<open>Obj\<close> a \<^verbatim>\<open>map[string]any\<close>.
\<close>

datatype go_any =
    Null
  | Bool bool
  | Num int
  | Flt float64
  | Str string
  | Arr "go_any list"
  | Obj "(string \<times> go_any) list"
  | Objs "(string \<times> go_any) list list"

type_synonym Body = "(string \<times> go_any) list"
type_synonym Record = "(string \<times> go_any) list"
type_synonym Headers = "(string \<times> string) list"

text \<open>\<open>m[key]\<close> reads the zero value for a missing key.\<close>

definition field :: "Body \<Rightarrow> string \<Rightarrow> go_any" where
  "field m k = (case map_of m k of None \<Rightarrow> Null | Some v \<Rightarrow> v)"

definition header :: "Headers \<Rightarrow> string \<Rightarrow> string" where
  "header h k = (case map_of h k of None \<Rightarrow> [] | Some v \<Rightarrow> v)"

text \<open>Type assertions in the form \<^verbatim>\<open>v, _ := x.(T)\<close>: the zero value when the type differs.\<close>

definition as_str :: "go_any \<Rightarrow> string" where
  "as_str v = (case v of Str s \<Rightarrow> s | _ \<Rightarrow> [])"

definition as_arr :: "go_any \<Rightarrow> go_any list" where
  "as_arr v = (case v of Arr xs \<Rightarrow> xs | _ \<Rightarrow> [])"

definition as_obj :: "go_any \<Rightarrow> Body" where
  "as_obj v = (case v of Obj m \<Rightarrow> m | _ \<Rightarrow> [])"

lemmas any_access = field_def header_def as_str_def as_arr_def as_obj_def


section \<open>Runes\<close>

text \<open>
  \<^verbatim>\<open>utf8.RuneCountInString\<close>: \<open>rune_size\<close> is the size of the encoding a lead byte announces with the
  range its second byte must lie in, and \<open>rune_len\<close> the bytes the first rune takes, one for an
  invalid or truncated encoding.
\<close>

definition byte_of :: "char \<Rightarrow> nat" where
  "byte_of c = of_char c"

definition rune_size :: "nat \<Rightarrow> nat \<times> nat \<times> nat" where
  "rune_size b =
     (if 194 \<le> b \<and> b \<le> 223 then (2, 128, 191)
      else if b = 224 then (3, 160, 191)
      else if b = 237 then (3, 128, 159)
      else if 225 \<le> b \<and> b \<le> 239 then (3, 128, 191)
      else if b = 240 then (4, 144, 191)
      else if 241 \<le> b \<and> b \<le> 243 then (4, 128, 191)
      else if b = 244 then (4, 128, 143)
      else (1, 0, 0))"

definition continuation :: "char \<Rightarrow> bool" where
  "continuation c \<longleftrightarrow> 128 \<le> byte_of c \<and> byte_of c \<le> 191"

definition rune_len :: "string \<Rightarrow> nat" where
  "rune_len s =
     (case s of
        [] \<Rightarrow> 0
      | c # rest \<Rightarrow>
          let (n, lo, hi) = rune_size (byte_of c)
          in if n = 1 then 1
             else if length s < n then 1
             else if \<not> (lo \<le> byte_of (hd rest) \<and> byte_of (hd rest) \<le> hi) then 1
             else if \<not> list_all continuation (take (n - 2) (tl rest)) then 1
             else n)"

lemma rune_len_pos: "s \<noteq> [] \<Longrightarrow> 1 \<le> rune_len s"
  by (auto simp: rune_len_def rune_size_def Let_def split: list.splits)

lemma rune_len_le: "rune_len s \<le> length s"
  by (auto simp: rune_len_def Let_def split: list.splits prod.splits)

function RuneCountInString :: "string \<Rightarrow> nat" where
  "RuneCountInString s = (if s = [] then 0 else Suc (RuneCountInString (drop (rune_len s) s)))"
  by pat_completeness auto
termination
  using rune_len_pos by (relation "measure length") (auto simp: Suc_le_eq)

declare RuneCountInString.simps [simp del]

lemma RuneCount_le: "RuneCountInString s \<le> length s"
proof (induction s rule: RuneCountInString.induct)
  case (1 s)
  show ?case
  proof (cases "s = []")
    case False
    then have "RuneCountInString (drop (rune_len s) s) \<le> length s - rune_len s" using 1 by simp
    moreover have "1 \<le> rune_len s" "rune_len s \<le> length s" using False rune_len_pos rune_len_le by blast+
    ultimately show ?thesis using False by (subst RuneCountInString.simps) simp
  qed (simp add: RuneCountInString.simps)
qed

text \<open>ASCII text has one rune per byte.\<close>

lemma RuneCount_ascii: "\<forall>c\<in>set s. byte_of c < 128 \<Longrightarrow> RuneCountInString s = length s"
proof (induction s)
  case (Cons c s)
  then have "rune_len (c # s) = 1" by (simp add: rune_len_def rune_size_def)
  then show ?case using Cons by (subst RuneCountInString.simps) simp
qed (simp add: RuneCountInString.simps)

end
