(* ===== verification/Partitioner.thy ===== *)
theory Partitioner
  imports "HOL-Library.List_Lexorder" "HOL-Library.Char_ord" Go_Data
begin

text \<open>
  \<^verbatim>\<open>internal/partitioner/solver.go\<close>: placement of a model's layers on a pool of heterogeneous
  nodes. \<^verbatim>\<open>float64\<close> quantities (GB, ms, fractions) are exact reals, so rounding is not modelled;
  node ids are byte strings compared lexicographically, as in Go. A Go \<^verbatim>\<open>(nil, nil)\<close> result is
  \<open>Inr None\<close>. The k-subset enumeration with a callback is the list of subsets in the order the
  callback sees them, and \<^verbatim>\<open>bestPerK\<close> is the list of its entries by increasing \<open>k\<close>.
\<close>


section \<open>Data\<close>

datatype partition_error =
    NoProfile string
  | BadLayers int
  | BadBatchSlots int
  | BadSizes
  | NoNodesPresent
  | CapsTooSmall
  | NetworkBudgetExceeded
  | NoReplicaFits
  | BadLeadFactor
  | NoRoleNode
  | DraftTooSlow string
  | NoRoleAssignment "partition_error option"

record NodeProfile =
  ID :: string
  ModelMemCapGB :: float64
  MsPerLayer :: float64
  MemBandwidthGBps :: float64
  Absent :: bool

record ModelSpec =
  NLayers :: int
  WeightsGB :: float64
  KVCacheGB :: float64
  BatchSlots :: int
  PrefixCacheGB :: float64

record Stage =
  NodeID :: string
  FirstLayer :: int
  SNLayers :: int
  MemGB :: float64
  SStageMS :: float64

record PartitionPlan =
  Stages :: "Stage list"
  TokenMS :: float64
  NetworkMS :: float64
  NetworkFraction :: float64

record PartitionResult =
  Plan :: PartitionPlan
  Fallbacks :: "(string \<times> PartitionPlan option) list"

definition StageMS :: "NodeProfile \<Rightarrow> int \<Rightarrow> float64 \<Rightarrow> (partition_error, float64) result" where
  "StageMS n nLayers gbPerLayer =
     (if MsPerLayer n > 0 then Inr (of_int nLayers * MsPerLayer n)
      else if MemBandwidthGBps n > 0
      then Inr (of_int nLayers * gbPerLayer / MemBandwidthGBps n * 1000)
      else Inl (NoProfile (ID n)))"

definition NewModelSpec ::
  "int \<Rightarrow> float64 \<Rightarrow> float64 \<Rightarrow> int \<Rightarrow> float64 \<Rightarrow> (partition_error, ModelSpec) result" where
  "NewModelSpec nLayers weightsGB kvCacheGB batchSlots prefixCacheGB =
     (let bs = (if batchSlots = 0 then 1 else batchSlots)
      in if nLayers < 1 then Inl (BadLayers nLayers)
         else if bs < 1 then Inl (BadBatchSlots bs)
         else if weightsGB \<le> 0 \<or> kvCacheGB < 0 \<or> prefixCacheGB < 0 then Inl BadSizes
         else Inr \<lparr>NLayers = nLayers, WeightsGB = weightsGB, KVCacheGB = kvCacheGB,
                   BatchSlots = bs, PrefixCacheGB = prefixCacheGB\<rparr>)"

definition KVTotalGB :: "ModelSpec \<Rightarrow> float64" where
  "KVTotalGB m = KVCacheGB m * of_int (BatchSlots m) + PrefixCacheGB m"

definition GBPerLayerTotal :: "ModelSpec \<Rightarrow> float64" where
  "GBPerLayerTotal m = (WeightsGB m + KVCacheGB m) / of_int (NLayers m)"

definition GBPerLayerResident :: "ModelSpec \<Rightarrow> float64" where
  "GBPerLayerResident m = (WeightsGB m + KVTotalGB m) / of_int (NLayers m)"

definition TotalGB :: "ModelSpec \<Rightarrow> float64" where
  "TotalGB m = WeightsGB m + KVTotalGB m"

definition gbPerLayer :: "ModelSpec \<Rightarrow> float64" where
  "gbPerLayer m = WeightsGB m / of_int (NLayers m)"

definition NodeIDs :: "PartitionPlan \<Rightarrow> string list" where
  "NodeIDs p = map NodeID (Stages p)"


section \<open>One subset of nodes\<close>

definition fits :: "NodeProfile list \<Rightarrow> ModelSpec \<Rightarrow> bool" where
  "fits nodes model \<longleftrightarrow> foldl (\<lambda>s n. s + ModelMemCapGB n) 0 nodes \<ge> TotalGB model"

definition layer_cap :: "ModelSpec \<Rightarrow> NodeProfile \<Rightarrow> int" where
  "layer_cap model n = go_int (ModelMemCapGB n / GBPerLayerResident model)"

fun speeds_of :: "NodeProfile list \<Rightarrow> ModelSpec \<Rightarrow> (partition_error, float64 list) result" where
  "speeds_of [] model = Inr []"
| "speeds_of (n # ns) model =
     (case StageMS n 1 (GBPerLayerTotal model) of
        Inl e \<Rightarrow> Inl e
      | Inr ms \<Rightarrow> (case speeds_of ns model of Inl e \<Rightarrow> Inl e | Inr r \<Rightarrow> Inr (ms # r)))"

text \<open>The loop over \<^verbatim>\<open>order\<close>: fill the fastest node to its cap, stop when nothing remains.\<close>

fun fill :: "int list \<Rightarrow> nat list \<Rightarrow> int list \<Rightarrow> int \<Rightarrow> int list \<times> int" where
  "fill caps [] counts remaining = (counts, remaining)"
| "fill caps (i # is) counts remaining =
     (let k = min remaining (caps ! i - counts ! i);
          counts' = counts[i := counts ! i + k];
          remaining' = remaining - k
      in if remaining' = 0 then (counts', remaining') else fill caps is counts' remaining')"

definition assignLayers ::
  "NodeProfile list \<Rightarrow> ModelSpec \<Rightarrow> (partition_error, int list option) result" where
  "assignLayers sub model =
     (let caps = map (layer_cap model) sub
      in if list_ex (\<lambda>c. c < 1) caps then Inr None
         else if sum_list caps < NLayers model then Inr None
         else
           let counts = map (\<lambda>_. 1) sub;
               remaining = NLayers model - int (length sub)
           in if remaining < 0 then Inr None
              else
                (case speeds_of sub model of
                   Inl e \<Rightarrow> Inl e
                 | Inr speeds \<Rightarrow>
                     let order = sort_key (\<lambda>i. speeds ! i) [0..<length sub];
                         (counts', remaining') = fill caps order counts remaining
                     in if remaining' \<noteq> 0 then Inr None else Inr (Some counts')))"

fun build_stages ::
  "NodeProfile list \<Rightarrow> int list \<Rightarrow> ModelSpec \<Rightarrow> int \<Rightarrow> (partition_error, Stage list) result" where
  "build_stages (n # ns) (c # cs) model first =
     (case StageMS n c (GBPerLayerTotal model) of
        Inl e \<Rightarrow> Inl e
      | Inr ms \<Rightarrow>
          (case build_stages ns cs model (first + c) of
             Inl e \<Rightarrow> Inl e
           | Inr rest \<Rightarrow>
               Inr (\<lparr>NodeID = ID n, FirstLayer = first, SNLayers = c,
                     MemGB = of_int c * (gbPerLayer model + KVTotalGB model / of_int (NLayers model)),
                     SStageMS = ms\<rparr> # rest)))"
| "build_stages _ _ model first = Inr []"

definition plan_of_stages ::
  "Stage list \<Rightarrow> nat \<Rightarrow> float64 \<Rightarrow> float64 \<Rightarrow> PartitionPlan option" where
  "plan_of_stages stages n boundaryOverheadMS networkTimeBudget =
     (let networkMS = of_int (int n - 1) * boundaryOverheadMS;
          computeMS = foldl (\<lambda>s st. s + SStageMS st) 0 stages;
          tokenMS = computeMS + networkMS;
          fraction = (if tokenMS > 0 then networkMS / tokenMS else 0)
      in if n > 1 \<and> fraction > networkTimeBudget then None
         else Some \<lparr>Stages = stages, TokenMS = tokenMS, NetworkMS = networkMS, NetworkFraction = fraction\<rparr>)"

definition planForSubset ::
  "NodeProfile list \<Rightarrow> ModelSpec \<Rightarrow> float64 \<Rightarrow> float64
     \<Rightarrow> (partition_error, PartitionPlan option) result" where
  "planForSubset sub model boundaryOverheadMS networkTimeBudget =
     (case assignLayers sub model of
        Inl e \<Rightarrow> Inl e
      | Inr None \<Rightarrow> Inr None
      | Inr (Some counts) \<Rightarrow>
          (case build_stages sub counts model 0 of
             Inl e \<Rightarrow> Inl e
           | Inr stages \<Rightarrow>
               Inr (plan_of_stages stages (length sub) boundaryOverheadMS networkTimeBudget)))"


section \<open>Search over subsets\<close>

definition presentSorted :: "NodeProfile list \<Rightarrow> NodeProfile list" where
  "presentSorted nodes = sort_key ID (filter (\<lambda>n. \<not> Absent n) nodes)"

text \<open>
  The recursion \<^verbatim>\<open>rec(start, depth)\<close> of \<^verbatim>\<open>combinations\<close>, with \<open>m = k - depth\<close> indices still to
  choose: \<^verbatim>\<open>i\<close> runs from \<^verbatim>\<open>start\<close> to \<^verbatim>\<open>len(items)-(k-depth)\<close>.
\<close>

fun comb_idx :: "nat \<Rightarrow> nat \<Rightarrow> nat \<Rightarrow> nat list list" where
  "comb_idx n 0 start = [[]]"
| "comb_idx n (Suc m) start =
     concat (map (\<lambda>i. map (\<lambda>idx. i # idx) (comb_idx n m (Suc i))) [start..<n - m])"

definition combinations :: "NodeProfile list \<Rightarrow> nat \<Rightarrow> NodeProfile list list" where
  "combinations items k = map (map (\<lambda>j. items ! j)) (comb_idx (length items) k 0)"

text \<open>The callback of \<^verbatim>\<open>Solve\<close> folded over the subsets of one size: the first strictly faster plan wins.\<close>

fun best_in ::
  "NodeProfile list list \<Rightarrow> ModelSpec \<Rightarrow> float64 \<Rightarrow> float64 \<Rightarrow> PartitionPlan option
     \<Rightarrow> (partition_error, PartitionPlan option) result" where
  "best_in [] model bo nb best = Inr best"
| "best_in (s # ss) model bo nb best =
     (case planForSubset s model bo nb of
        Inl e \<Rightarrow> Inl e
      | Inr None \<Rightarrow> best_in ss model bo nb best
      | Inr (Some plan) \<Rightarrow>
          (case best of
             None \<Rightarrow> best_in ss model bo nb (Some plan)
           | Some b \<Rightarrow> best_in ss model bo nb (if TokenMS plan < TokenMS b then Some plan else Some b)))"

fun best_per_k ::
  "NodeProfile list \<Rightarrow> ModelSpec \<Rightarrow> float64 \<Rightarrow> float64 \<Rightarrow> nat list
     \<Rightarrow> (partition_error, (nat \<times> PartitionPlan) list) result" where
  "best_per_k present model bo nb [] = Inr []"
| "best_per_k present model bo nb (k # ks) =
     (case best_in (combinations present k) model bo nb None of
        Inl e \<Rightarrow> Inl e
      | Inr b \<Rightarrow>
          (case best_per_k present model bo nb ks of
             Inl e \<Rightarrow> Inl e
           | Inr rest \<Rightarrow> Inr (case b of None \<Rightarrow> rest | Some p \<Rightarrow> (k, p) # rest)))"

definition better :: "PartitionPlan \<Rightarrow> PartitionPlan \<Rightarrow> bool" where
  "better p best \<longleftrightarrow> TokenMS p < TokenMS best \<or>
     (TokenMS p = TokenMS best \<and> length (Stages p) < length (Stages best))"

text \<open>\<^verbatim>\<open>fastest()\<close> ranges over a Go map: \<open>ps\<close> is the order in which it meets the plans.\<close>

fun fastest :: "PartitionPlan list \<Rightarrow> PartitionPlan option \<Rightarrow> PartitionPlan option" where
  "fastest [] best = best"
| "fastest (p # ps) best =
     (case best of
        None \<Rightarrow> fastest ps (Some p)
      | Some b \<Rightarrow> fastest ps (if better p b then Some p else Some b))"

fun first_reaching :: "(nat \<times> PartitionPlan) list \<Rightarrow> float64 option \<Rightarrow> PartitionPlan option" where
  "first_reaching [] floorMS = None"
| "first_reaching ((k, p) # ks) floorMS =
     (if (case floorMS of None \<Rightarrow> True | Some f \<Rightarrow> TokenMS p \<le> f) then Some p
      else first_reaching ks floorMS)"

text \<open>\<open>None\<close> as a floor in ms is \<^verbatim>\<open>math.Inf(1)\<close>.\<close>

definition floor_ms :: "float64 \<Rightarrow> float64 option" where
  "floor_ms minUsable = (if minUsable > 0 then Some (1000 / minUsable) else None)"

definition choose_plan :: "(nat \<times> PartitionPlan) list \<Rightarrow> float64 option \<Rightarrow> PartitionPlan option" where
  "choose_plan bestPerK minUsableTokensS =
     (case minUsableTokensS of
        None \<Rightarrow> fastest (map snd bestPerK) None
      | Some v \<Rightarrow>
          (case first_reaching bestPerK (floor_ms v) of
             Some p \<Rightarrow> Some p
           | None \<Rightarrow> fastest (map snd bestPerK) None))"

text \<open>\<^verbatim>\<open>Solve\<close> without the fallbacks: the plan it settles on.\<close>

definition solve_plan ::
  "NodeProfile list \<Rightarrow> ModelSpec \<Rightarrow> float64 \<Rightarrow> float64 \<Rightarrow> float64 option
     \<Rightarrow> (partition_error, PartitionPlan) result" where
  "solve_plan nodes model bo nb minUsableTokensS =
     (let present = presentSorted nodes
      in if length present = 0 then Inl NoNodesPresent
         else if \<not> fits present model then Inl CapsTooSmall
         else
           (case best_per_k present model bo nb [1..<length present + 1] of
              Inl e \<Rightarrow> Inl e
            | Inr bestPerK \<Rightarrow>
                if bestPerK = [] then Inl NetworkBudgetExceeded
                else (case choose_plan bestPerK minUsableTokensS of
                        None \<Rightarrow> Inl NetworkBudgetExceeded
                      | Some p \<Rightarrow> Inr p)))"

definition Solve ::
  "NodeProfile list \<Rightarrow> ModelSpec \<Rightarrow> float64 \<Rightarrow> float64 \<Rightarrow> float64 option \<Rightarrow> bool
     \<Rightarrow> (partition_error, PartitionResult) result" where
  "Solve nodes model bo nb minUsableTokensS withFallbacks =
     (case solve_plan nodes model bo nb minUsableTokensS of
        Inl e \<Rightarrow> Inl e
      | Inr best \<Rightarrow>
          Inr \<lparr>Plan = best,
               Fallbacks =
                 (if withFallbacks then
                    map (\<lambda>nodeID.
                      (nodeID,
                       case solve_plan (filter (\<lambda>n. ID n \<noteq> nodeID) (presentSorted nodes))
                              model bo nb minUsableTokensS of
                         Inl _ \<Rightarrow> None | Inr p \<Rightarrow> Some p)) (NodeIDs best)
                  else [])\<rparr>)"



section \<open>Specification vocabulary\<close>

text \<open>
  A valid model is what \<^verbatim>\<open>NewModelSpec\<close> accepts; a profiled node has one of the two speed figures.
  \<open>feasible\<close> says which layer counts a subset of nodes can hold: at least one layer per node, the
  resident bytes within each node's cap, all layers placed.
\<close>

definition valid_model :: "ModelSpec \<Rightarrow> bool" where
  "valid_model m \<longleftrightarrow> NLayers m \<ge> 1 \<and> BatchSlots m \<ge> 1 \<and> WeightsGB m > 0 \<and> KVCacheGB m \<ge> 0 \<and> PrefixCacheGB m \<ge> 0"

definition profiled :: "NodeProfile \<Rightarrow> bool" where
  "profiled n \<longleftrightarrow> MsPerLayer n > 0 \<or> MemBandwidthGBps n > 0"

definition layer_ms :: "ModelSpec \<Rightarrow> NodeProfile \<Rightarrow> float64" where
  "layer_ms model n =
     (if MsPerLayer n > 0 then MsPerLayer n else GBPerLayerTotal model / MemBandwidthGBps n * 1000)"

definition feasible :: "ModelSpec \<Rightarrow> NodeProfile list \<Rightarrow> int list \<Rightarrow> bool" where
  "feasible model sub xs \<longleftrightarrow> length xs = length sub \<and> sum_list xs = NLayers model \<and>
     (\<forall>i<length sub. 1 \<le> xs ! i \<and> of_int (xs ! i) * GBPerLayerResident model \<le> ModelMemCapGB (sub ! i))"

definition compute_ms :: "ModelSpec \<Rightarrow> NodeProfile list \<Rightarrow> int list \<Rightarrow> float64" where
  "compute_ms model sub xs = (\<Sum>i<length sub. of_int (xs ! i) * layer_ms model (sub ! i))"

lemma NewModelSpec_valid: "NewModelSpec n w kv bs pc = Inr m \<Longrightarrow> valid_model m"
  by (auto simp: NewModelSpec_def Let_def valid_model_def split: if_splits)

lemma GBPerLayerResident_pos: "valid_model m \<Longrightarrow> 0 < GBPerLayerResident m"
  by (auto simp: valid_model_def GBPerLayerResident_def KVTotalGB_def intro!: divide_pos_pos add_pos_nonneg)

lemma StageMS_profiled: "profiled n \<Longrightarrow> StageMS n c (GBPerLayerTotal model) = Inr (of_int c * layer_ms model n)"
  by (auto simp: profiled_def StageMS_def layer_ms_def)

lemma speeds_of_profiled:
  "\<forall>n\<in>set sub. profiled n \<Longrightarrow> speeds_of sub model = Inr (map (layer_ms model) sub)"
  by (induction sub) (auto simp: StageMS_profiled)

text \<open>The integer cap of a node is exactly the largest number of layers whose bytes fit.\<close>

lemma le_layer_cap_iff:
  assumes "valid_model model" "1 \<le> k"
  shows "k \<le> layer_cap model n \<longleftrightarrow> of_int k * GBPerLayerResident model \<le> ModelMemCapGB n"
proof -
  let ?g = "GBPerLayerResident model" and ?q = "ModelMemCapGB n / GBPerLayerResident model"
  have g: "0 < ?g" by (rule GBPerLayerResident_pos[OF assms(1)])
  have eq: "of_int k * ?g \<le> ModelMemCapGB n \<longleftrightarrow> of_int k \<le> ?q"
    using g by (simp add: pos_le_divide_eq)
  have "k \<le> go_int ?q \<longleftrightarrow> of_int k \<le> ?q"
  proof (cases "?q \<ge> 0")
    case True
    then show ?thesis by (simp add: go_int_def le_floor_iff)
  next
    case False
    then have "\<lceil>?q\<rceil> \<le> 0" by (simp add: ceiling_le_iff)
    then have "go_int ?q \<le> 0" using False by (simp only: go_int_def if_False)
    moreover have "(0 :: real) < of_int k" using assms(2) by simp
    then have "\<not> of_int k \<le> ?q" using False by linarith
    ultimately show ?thesis using assms(2) by linarith
  qed
  then show ?thesis using eq by (simp add: layer_cap_def)
qed

lemma feasible_iff_caps:
  assumes "valid_model model"
  shows "feasible model sub xs \<longleftrightarrow> length xs = length sub \<and> sum_list xs = NLayers model \<and>
     (\<forall>i<length sub. 1 \<le> xs ! i \<and> xs ! i \<le> map (layer_cap model) sub ! i)"
  using le_layer_cap_iff[OF assms] by (auto simp: feasible_def)


section \<open>The greedy fill\<close>

lemma sum_list_add_at:
  "i < length xs \<Longrightarrow> sum_list (xs[i := xs ! i + (k :: int)]) = sum_list xs + k"
  by (induction xs arbitrary: i) (auto split: nat.splits)

lemma fill_frame:
  "fill caps is xs r = (ys, r') \<Longrightarrow> length ys = length xs \<and> (\<forall>j. j \<notin> set is \<longrightarrow> ys ! j = xs ! j)"
  by (induction "is" arbitrary: xs r) (auto simp: Let_def split: if_splits)

lemma fill_conserves:
  assumes "fill caps is xs r = (ys, r')" "\<forall>i\<in>set is. i < length xs"
  shows "sum_list ys + r' = sum_list xs + r"
  using assms
proof (induction "is" arbitrary: xs r)
  case Nil
  then show ?case by simp
next
  case (Cons i "is")
  let ?k = "min r (caps ! i - xs ! i)" and ?xs = "xs[i := xs ! i + min r (caps ! i - xs ! i)]"
  have s: "sum_list ?xs = sum_list xs + ?k" using Cons.prems(2) by (simp add: sum_list_add_at)
  show ?case
  proof (cases "r - ?k = 0")
    case True
    then show ?thesis using Cons.prems(1) s by (simp add: Let_def)
  next
    case False
    then have "fill caps is ?xs (r - ?k) = (ys, r')"
      using Cons.prems(1) by (simp only: fill.simps Let_def False if_False)
    from Cons.IH[OF this] Cons.prems(2) s show ?thesis by simp
  qed
qed

lemma fill_bounds:
  assumes "fill caps is xs r = (ys, r')" "0 \<le> r" "distinct is" "\<forall>i\<in>set is. i < length xs \<and> xs ! i \<le> caps ! i"
  shows "0 \<le> r' \<and> (\<forall>i\<in>set is. xs ! i \<le> ys ! i \<and> ys ! i \<le> caps ! i \<and> (r' \<noteq> 0 \<longrightarrow> ys ! i = caps ! i))"
  using assms
proof (induction "is" arbitrary: xs r)
  case Nil
  then show ?case by simp
next
  case (Cons i "is")
  let ?k = "min r (caps ! i - xs ! i)" and ?xs = "xs[i := xs ! i + min r (caps ! i - xs ! i)]"
  have k: "0 \<le> ?k" "?k \<le> r" "xs ! i + ?k \<le> caps ! i" using Cons.prems(2,4) by auto
  have i: "i < length xs" "i \<notin> set is" using Cons.prems(3,4) by auto
  show ?case
  proof (cases "r - ?k = 0")
    case True
    then have ys: "ys = ?xs" "r' = 0" using Cons.prems(1) by (auto simp: Let_def)
    have "xs ! j \<le> ys ! j \<and> ys ! j \<le> caps ! j" if "j \<in> set (i # is)" for j
      using that k i Cons.prems(4) by (cases "j = i") (auto simp: ys)
    then show ?thesis using ys(2) by simp
  next
    case False
    then have f: "fill caps is ?xs (r - ?k) = (ys, r')"
      using Cons.prems(1) by (simp only: fill.simps Let_def False if_False)
    have full: "xs ! i + ?k = caps ! i" using False by linarith
    have "\<forall>j\<in>set is. j < length ?xs \<and> ?xs ! j \<le> caps ! j"
      using Cons.prems(4) i(2) by (auto simp: nth_list_update)
    with Cons.IH[OF f] k(2) Cons.prems(3)
    have IH: "0 \<le> r'" "\<forall>j\<in>set is. ?xs ! j \<le> ys ! j \<and> ys ! j \<le> caps ! j \<and> (r' \<noteq> 0 \<longrightarrow> ys ! j = caps ! j)"
      by auto
    have yi: "ys ! i = caps ! i" using fill_frame[OF f] i full by auto
    have "xs ! j \<le> ys ! j \<and> ys ! j \<le> caps ! j \<and> (r' \<noteq> 0 \<longrightarrow> ys ! j = caps ! j)"
      if "j \<in> set (i # is)" for j
    proof (cases "j = i")
      case True
      then show ?thesis using yi Cons.prems(4) by simp
    next
      case False
      then have "j \<in> set is" "?xs ! j = xs ! j" using that by auto
      then show ?thesis using IH(2) by metis
    qed
    then show ?thesis using IH(1) by simp
  qed
qed

text \<open>The fill is greedy: some speed \<open>t\<close> separates the nodes filled to their cap from those left alone.\<close>

lemma fill_threshold:
  assumes "fill caps is xs r = (ys, 0)" "distinct is" "sorted (map s is)"
    "\<forall>i\<in>set is. i < length xs"
  shows "\<exists>t :: real. (is \<noteq> [] \<longrightarrow> t \<in> s ` set is) \<and>
     (\<forall>i\<in>set is. (s i < t \<longrightarrow> ys ! i = caps ! i) \<and> (s i > t \<longrightarrow> ys ! i = xs ! i))"
  using assms
proof (induction "is" arbitrary: xs r)
  case Nil
  then show ?case by simp
next
  case (Cons i "is")
  let ?k = "min r (caps ! i - xs ! i)" and ?xs = "xs[i := xs ! i + min r (caps ! i - xs ! i)]"
  have i: "i < length xs" "i \<notin> set is" "\<forall>j\<in>set is. s i \<le> s j" using Cons.prems(2-4) by auto
  show ?case
  proof (cases "r - ?k = 0")
    case True
    then have "ys = ?xs" using Cons.prems(1) by (auto simp: Let_def)
    moreover have "ys ! j = xs ! j" if "j \<in> set is" for j
      using that i(2) calculation by (cases "j = i") auto
    ultimately show ?thesis using i(3) by (intro exI[of _ "s i"]) auto
  next
    case False
    then have f: "fill caps is ?xs (r - ?k) = (ys, 0)"
      using Cons.prems(1) by (simp only: fill.simps Let_def False if_False)
    have ne: "is \<noteq> []" using f False by auto
    have "\<forall>j\<in>set is. j < length ?xs" using Cons.prems(4) by simp
    with Cons.IH[OF f] Cons.prems(2,3) ne obtain t where t: "t \<in> s ` set is"
      "\<forall>j\<in>set is. (s j < t \<longrightarrow> ys ! j = caps ! j) \<and> (s j > t \<longrightarrow> ys ! j = ?xs ! j)"
      by auto
    have yi: "ys ! i = caps ! i" using fill_frame[OF f] i(1,2) False by auto
    have keep: "?xs ! j = xs ! j" if "j \<in> set is" for j
      using that i(2) by (cases "j = i") auto
    have "s i \<le> t" using t(1) i(3) by auto
    then have "\<forall>j\<in>set (i # is). (s j < t \<longrightarrow> ys ! j = caps ! j) \<and> (s j > t \<longrightarrow> ys ! j = xs ! j)"
      using t(2) yi keep by auto
    then show ?thesis using t(1) by (intro exI[of _ t]) auto
  qed
qed

text \<open>Hence it minimises any sum weighted by the speeds, among counts within the same bounds and total.\<close>

lemma threshold_optimal:
  fixes s :: "nat \<Rightarrow> real" and c x lo hi :: "nat \<Rightarrow> int"
  assumes "\<And>i. i < n \<Longrightarrow> s i < t \<Longrightarrow> c i = hi i" "\<And>i. i < n \<Longrightarrow> s i > t \<Longrightarrow> c i = lo i"
    and "\<And>i. i < n \<Longrightarrow> lo i \<le> x i \<and> x i \<le> hi i" and "(\<Sum>i<n. x i) = (\<Sum>i<n. c i)"
  shows "(\<Sum>i<n. of_int (c i) * s i) \<le> (\<Sum>i<n. of_int (x i) * s i)"
proof -
  have "0 \<le> (\<Sum>i<n. (s i - t) * (of_int (x i) - of_int (c i)))"
  proof (rule sum_nonneg)
    fix i assume "i \<in> {..<n}"
    then have i: "i < n" by simp
    consider "s i < t" | "s i = t" | "s i > t" by linarith
    then show "0 \<le> (s i - t) * (of_int (x i) - of_int (c i))"
    proof cases
      case 1
      then have "(of_int (x i) :: real) \<le> of_int (c i)" using assms(1,3) i by simp
      then show ?thesis using 1 by (simp add: mult_nonpos_nonpos)
    next
      case 3
      then have "(of_int (c i) :: real) \<le> of_int (x i)" using assms(2,3) i by simp
      then show ?thesis using 3 by simp
    qed simp
  qed
  also have "\<dots> = (\<Sum>i<n. of_int (x i) * s i) - (\<Sum>i<n. of_int (c i) * s i)
      - t * ((\<Sum>i<n. of_int (x i)) - (\<Sum>i<n. of_int (c i)))"
    by (simp add: sum_subtractf sum_distrib_left algebra_simps sum.distrib)
  also have "(\<Sum>i<n. (of_int (x i) :: real)) = (\<Sum>i<n. of_int (c i))"
    using assms(4) by (metis of_int_sum)
  finally show ?thesis by simp
qed



section \<open>assignLayers\<close>

lemma insort_key_cong:
  "f x = g x \<Longrightarrow> \<forall>y\<in>set ys. f y = g y \<Longrightarrow> insort_key f x ys = insort_key g x ys"
  by (induction ys) auto

lemma sort_key_cong:
  "\<forall>x\<in>set xs. f x = g x \<Longrightarrow> sort_key f xs = sort_key g xs"
proof (induction xs)
  case (Cons x xs)
  then have "insort_key f x (sort_key g xs) = insort_key g x (sort_key g xs)"
    by (intro insort_key_cong) auto
  then show ?case using Cons by simp
qed simp

lemma caps_ok_iff:
  "list_ex (\<lambda>c. c < 1) caps \<longleftrightarrow> \<not> (\<forall>i<length caps. (1 :: int) \<le> caps ! i)"
  by (auto simp: list_ex_length not_le)

lemma sum_list_idx: "sum_list xs = (\<Sum>i<length xs. xs ! i)"
  by (simp add: sum_list_sum_nth atLeast0LessThan)

text \<open>The shape of a call that gets past the capacity guards.\<close>

lemma assignLayers_run:
  assumes prof: "\<forall>n\<in>set sub. profiled n"
    and caps: "\<forall>i<length sub. 1 \<le> map (layer_cap model) sub ! i"
      "NLayers model \<le> sum_list (map (layer_cap model) sub)" "int (length sub) \<le> NLayers model"
  shows "\<exists>ys. fill (map (layer_cap model) sub) (sort_key (\<lambda>i. layer_ms model (sub ! i)) [0..<length sub])
      (map (\<lambda>_. 1) sub) (NLayers model - int (length sub)) = (ys, 0) \<and> assignLayers sub model = Inr (Some ys)"
proof -
  let ?caps = "map (layer_cap model) sub" and ?n = "length sub" and ?one = "map (\<lambda>_. 1 :: int) sub"
  let ?r = "NLayers model - int (length sub)"
  let ?ord = "sort_key (\<lambda>i. layer_ms model (sub ! i)) [0..<?n]"
  obtain ys r' where f: "fill ?caps ?ord ?one ?r = (ys, r')" by fastforce
  have ones: "sum_list ?one = int ?n" by (induction sub) auto
  have b: "0 \<le> r'" "\<forall>i<?n. ys ! i \<le> ?caps ! i" "r' \<noteq> 0 \<longrightarrow> (\<forall>i<?n. ys ! i = ?caps ! i)"
    using fill_bounds[OF f] caps(1,3) by auto
  have len: "length ys = ?n" using fill_frame[OF f] by simp
  have sum: "sum_list ys + r' = NLayers model"
    using fill_conserves[OF f] by (auto simp: ones)
  have "r' = 0"
  proof (rule ccontr)
    assume "r' \<noteq> 0"
    then have "ys = ?caps" using b(3) len by (intro nth_equalityI) auto
    then show False using sum caps(2) b(1) \<open>r' \<noteq> 0\<close> by simp
  qed
  moreover have "sort_key (\<lambda>i. map (layer_ms model) sub ! i) [0..<?n] = ?ord"
    by (rule sort_key_cong) simp
  moreover have "\<not> list_ex (\<lambda>c. c < 1) ?caps"
    using caps(1) by (simp add: caps_ok_iff)
  ultimately show ?thesis
    using f caps(2,3) by (simp add: assignLayers_def Let_def speeds_of_profiled[OF prof])
qed

lemma assignLayers_guard:
  assumes prof: "\<forall>n\<in>set sub. profiled n"
    and "\<not> ((\<forall>i<length sub. 1 \<le> map (layer_cap model) sub ! i) \<and>
      NLayers model \<le> sum_list (map (layer_cap model) sub) \<and> int (length sub) \<le> NLayers model)"
  shows "assignLayers sub model = Inr None"
  using assms(2) caps_ok_iff[of "map (layer_cap model) sub"] by (auto simp: assignLayers_def Let_def)

lemma assignLayers_feasible:
  assumes "valid_model model" "\<forall>n\<in>set sub. profiled n" "assignLayers sub model = Inr (Some ys)"
  shows "feasible model sub ys"
proof -
  let ?caps = "map (layer_cap model) sub" and ?one = "map (\<lambda>_. 1 :: int) sub"
  have caps: "\<forall>i<length sub. 1 \<le> ?caps ! i" "NLayers model \<le> sum_list ?caps"
      "int (length sub) \<le> NLayers model"
    using assignLayers_guard[OF assms(2), of model] assms(3) by auto
  obtain f where f: "fill ?caps (sort_key (\<lambda>i. layer_ms model (sub ! i)) [0..<length sub]) ?one
      (NLayers model - int (length sub)) = (ys, 0)"
    using assignLayers_run[OF assms(2) caps] assms(3) by auto
  have ones: "sum_list ?one = int (length sub)" by (induction sub) auto
  have "length ys = length sub" using fill_frame[OF f] by simp
  moreover have "sum_list ys = NLayers model" using fill_conserves[OF f] by (simp add: ones)
  moreover have "\<forall>i<length sub. 1 \<le> ys ! i \<and> ys ! i \<le> ?caps ! i"
    using fill_bounds[OF f] caps by auto
  ultimately show ?thesis by (simp add: feasible_iff_caps[OF assms(1)])
qed

lemma assignLayers_optimal:
  assumes "valid_model model" "\<forall>n\<in>set sub. profiled n" "assignLayers sub model = Inr (Some ys)"
    and x: "feasible model sub xs"
  shows "compute_ms model sub ys \<le> compute_ms model sub xs"
proof -
  let ?caps = "map (layer_cap model) sub" and ?one = "map (\<lambda>_. 1 :: int) sub" and ?n = "length sub"
  let ?ord = "sort_key (\<lambda>i. layer_ms model (sub ! i)) [0..<?n]"
  have caps: "\<forall>i<?n. 1 \<le> ?caps ! i" "NLayers model \<le> sum_list ?caps" "int ?n \<le> NLayers model"
    using assignLayers_guard[OF assms(2), of model] assms(3) by auto
  have f: "fill ?caps ?ord ?one (NLayers model - int ?n) = (ys, 0)"
    using assignLayers_run[OF assms(2) caps] assms(3) by auto
  obtain t where "\<forall>i\<in>set ?ord. (layer_ms model (sub ! i) < t \<longrightarrow> ys ! i = ?caps ! i) \<and>
      (layer_ms model (sub ! i) > t \<longrightarrow> ys ! i = ?one ! i)"
    using fill_threshold[OF f, of "\<lambda>i. layer_ms model (sub ! i)"] by auto
  then have t: "\<forall>i<?n. (layer_ms model (sub ! i) < t \<longrightarrow> ys ! i = ?caps ! i) \<and>
      (layer_ms model (sub ! i) > t \<longrightarrow> ys ! i = 1)"
    by simp
  note y = assignLayers_feasible[OF assms(1-3)]
  have sums: "(\<Sum>i<?n. xs ! i) = (\<Sum>i<?n. ys ! i)"
    using x y by (metis feasible_def sum_list_idx)
  show ?thesis
    unfolding compute_ms_def
    by (rule threshold_optimal[where t = t and lo = "\<lambda>_. 1" and hi = "\<lambda>i. ?caps ! i"])
       (use t x sums in \<open>auto simp: feasible_iff_caps[OF assms(1)]\<close>)
qed


lemma assignLayers_None:
  assumes "valid_model model" "\<forall>n\<in>set sub. profiled n" "assignLayers sub model = Inr None"
  shows "\<not> feasible model sub xs"
proof
  let ?caps = "map (layer_cap model) sub"
  assume "feasible model sub xs"
  then have x: "length xs = length sub" "sum_list xs = NLayers model"
      "\<forall>i<length sub. 1 \<le> xs ! i \<and> xs ! i \<le> ?caps ! i"
    by (auto simp: feasible_iff_caps[OF assms(1)])
  have "sum_list xs \<le> sum_list ?caps"
    using x(1,3) by (intro sum_list_mono2) auto
  moreover have "int (length sub) \<le> sum_list xs"
    using sum_mono[of "{..<length sub}" "\<lambda>_. 1 :: int" "\<lambda>i. xs ! i"] x(1,3) sum_list_idx[of xs] by simp
  moreover have "\<forall>i<length sub. 1 \<le> ?caps ! i"
    using x(3) by force
  ultimately show False
    using assignLayers_run[OF assms(2), of model] x(2) assms(3) by auto
qed

lemma assignLayers_never_fails:
  assumes "valid_model model" "\<forall>n\<in>set sub. profiled n"
  shows "\<exists>r. assignLayers sub model = Inr r"
  using assignLayers_run[OF assms(2), of model] assignLayers_guard[OF assms(2), of model] by blast


section \<open>Properties\<close>

text \<open>
  C6. The greedy layer assignment is exact. For a valid model and nodes with a speed figure,
  \<^verbatim>\<open>assignLayers\<close> never fails; the counts it returns are feasible (every node at least one layer and
  within its memory cap, all layers placed) and no feasible assignment has a smaller total compute
  time; and it returns nothing exactly when no feasible assignment exists.
\<close>

theorem assignLayers_exact:
  assumes "valid_model model" "\<forall>n\<in>set sub. profiled n"
  shows "\<exists>r. assignLayers sub model = Inr r \<and>
     (case r of
        None \<Rightarrow> \<not> (\<exists>xs. feasible model sub xs)
      | Some ys \<Rightarrow> feasible model sub ys \<and>
          (\<forall>xs. feasible model sub xs \<longrightarrow> compute_ms model sub ys \<le> compute_ms model sub xs))"
proof -
  obtain r where "assignLayers sub model = Inr r"
    using assignLayers_never_fails[OF assms] by blast
  then show ?thesis
    using assignLayers_feasible[OF assms] assignLayers_optimal[OF assms] assignLayers_None[OF assms]
    by (cases r) auto
qed

theorem assignLayers_exact_witness:
  "\<exists>r. assignLayers
       [\<lparr>ID = ''a'', ModelMemCapGB = 8, MsPerLayer = 2, MemBandwidthGBps = 0, Absent = False\<rparr>,
        \<lparr>ID = ''b'', ModelMemCapGB = 6, MsPerLayer = 1, MemBandwidthGBps = 0, Absent = False\<rparr>]
       \<lparr>NLayers = 10, WeightsGB = 10, KVCacheGB = 0, BatchSlots = 1, PrefixCacheGB = 0\<rparr> = Inr r \<and>
     (case r of None \<Rightarrow> \<not> (\<exists>xs. feasible
         \<lparr>NLayers = 10, WeightsGB = 10, KVCacheGB = 0, BatchSlots = 1, PrefixCacheGB = 0\<rparr>
         [\<lparr>ID = ''a'', ModelMemCapGB = 8, MsPerLayer = 2, MemBandwidthGBps = 0, Absent = False\<rparr>,
          \<lparr>ID = ''b'', ModelMemCapGB = 6, MsPerLayer = 1, MemBandwidthGBps = 0, Absent = False\<rparr>] xs)
      | Some ys \<Rightarrow> feasible
         \<lparr>NLayers = 10, WeightsGB = 10, KVCacheGB = 0, BatchSlots = 1, PrefixCacheGB = 0\<rparr>
         [\<lparr>ID = ''a'', ModelMemCapGB = 8, MsPerLayer = 2, MemBandwidthGBps = 0, Absent = False\<rparr>,
          \<lparr>ID = ''b'', ModelMemCapGB = 6, MsPerLayer = 1, MemBandwidthGBps = 0, Absent = False\<rparr>] ys)"
  using assignLayers_exact[of
      "\<lparr>NLayers = 10, WeightsGB = 10, KVCacheGB = 0, BatchSlots = 1, PrefixCacheGB = 0\<rparr>"
      "[\<lparr>ID = ''a'', ModelMemCapGB = 8, MsPerLayer = 2, MemBandwidthGBps = 0, Absent = False\<rparr>,
        \<lparr>ID = ''b'', ModelMemCapGB = 6, MsPerLayer = 1, MemBandwidthGBps = 0, Absent = False\<rparr>]"]
  by (force simp: valid_model_def profiled_def split: option.splits)

end
