(* ===== verification/Partition_Search.thy ===== *)
theory Partition_Search
  imports Partitioner "HOL-Library.Sublist"
begin

text \<open>
  Correctness of the search of \<^verbatim>\<open>Solve\<close>: the plan of one subset of nodes (\<open>plan_on\<close> is its
  specification), the enumeration of subsets, the choice among them, and the N-1 fallbacks.
\<close>


section \<open>The plan of one subset\<close>

text \<open>
  \<open>plan_on model bo nb sub p\<close>: \<open>p\<close> places the layers on \<open>sub\<close> in pipeline order with an
  assignment of minimal compute time, its cost fields are the ones its stages imply, and a plan
  with more than one stage keeps the network fraction within the budget.
\<close>

definition stage_of :: "ModelSpec \<Rightarrow> NodeProfile list \<Rightarrow> int list \<Rightarrow> int \<Rightarrow> nat \<Rightarrow> Stage" where
  "stage_of model sub cs first i =
     \<lparr>NodeID = ID (sub ! i), FirstLayer = first + sum_list (take i cs), SNLayers = cs ! i,
      MemGB = of_int (cs ! i) * GBPerLayerResident model,
      SStageMS = of_int (cs ! i) * layer_ms model (sub ! i)\<rparr>"

definition plan_on :: "ModelSpec \<Rightarrow> float64 \<Rightarrow> float64 \<Rightarrow> NodeProfile list \<Rightarrow> PartitionPlan \<Rightarrow> bool" where
  "plan_on model bo nb sub p \<longleftrightarrow>
     (\<exists>cs. feasible model sub cs \<and>
        (\<forall>xs. feasible model sub xs \<longrightarrow> compute_ms model sub cs \<le> compute_ms model sub xs) \<and>
        Stages p = map (stage_of model sub cs 0) [0..<length sub] \<and>
        NetworkMS p = of_int (int (length sub) - 1) * bo \<and>
        TokenMS p = compute_ms model sub cs + NetworkMS p \<and>
        NetworkFraction p = (if TokenMS p > 0 then NetworkMS p / TokenMS p else 0) \<and>
        (length sub > 1 \<longrightarrow> NetworkFraction p \<le> nb))"

lemma resident_split:
  "gbPerLayer model + KVTotalGB model / of_int (NLayers model) = GBPerLayerResident model"
  by (simp add: gbPerLayer_def GBPerLayerResident_def add_divide_distrib)

lemma build_stages_profiled:
  "\<forall>n\<in>set ns. profiled n \<Longrightarrow> length cs = length ns \<Longrightarrow>
   build_stages ns cs model first = Inr (map (stage_of model ns cs first) [0..<length ns])"
proof (induction ns cs model first rule: build_stages.induct)
  case (1 n ns c cs model first)
  have "map (stage_of model (n # ns) (c # cs) first) [0..<length (n # ns)] =
      stage_of model (n # ns) (c # cs) first 0 #
      map (stage_of model (n # ns) (c # cs) first) (map Suc [0..<length ns])"
    by (simp add: upt_conv_Cons map_Suc_upt del: upt_Suc)
  also have "map (stage_of model (n # ns) (c # cs) first) (map Suc [0..<length ns]) =
      map (stage_of model ns cs (first + c)) [0..<length ns]"
    by (simp add: stage_of_def)
  finally have *: "map (stage_of model (n # ns) (c # cs) first) [0..<length (n # ns)] =
      stage_of model (n # ns) (c # cs) first 0 # map (stage_of model ns cs (first + c)) [0..<length ns]" .
  have "build_stages ns cs model (first + c) = Inr (map (stage_of model ns cs (first + c)) [0..<length ns])"
    using 1 by (auto simp: StageMS_profiled)
  moreover have "profiled n" using 1 by simp
  ultimately show ?case
    unfolding * by (simp add: StageMS_profiled stage_of_def[of _ _ _ _ 0] resident_split)
qed auto

lemma foldl_stage_ms:
  "foldl (\<lambda>s st. s + SStageMS st) a sts = a + sum_list (map SStageMS sts)"
  by (induction sts arbitrary: a) (simp_all add: add.assoc)

lemma sum_stage_ms:
  "sum_list (map SStageMS (map (stage_of model sub cs first) [0..<length sub])) = compute_ms model sub cs"
  by (simp add: compute_ms_def stage_of_def comp_def interv_sum_list_conv_sum_set_nat atLeast0LessThan)

lemma plan_of_stages_eq:
  assumes "stages = map (stage_of model sub cs 0) [0..<length sub]"
  shows "plan_of_stages stages (length sub) bo nb = Some p \<longleftrightarrow>
     Stages p = stages \<and> NetworkMS p = of_int (int (length sub) - 1) * bo \<and>
     TokenMS p = compute_ms model sub cs + NetworkMS p \<and>
     NetworkFraction p = (if TokenMS p > 0 then NetworkMS p / TokenMS p else 0) \<and>
     (length sub > 1 \<longrightarrow> NetworkFraction p \<le> nb)"
proof -
  have c: "foldl (\<lambda>s st. s + SStageMS st) 0 stages = compute_ms model sub cs"
    unfolding foldl_stage_ms assms by (simp only: sum_stage_ms add_0)
  define N T F where "N = of_int (int (length sub) - 1) * bo" and "T = compute_ms model sub cs + N"
    and "F = (if T > 0 then N / T else 0)"
  have "plan_of_stages stages (length sub) bo nb =
      (if length sub > 1 \<and> F > nb then None
       else Some \<lparr>Stages = stages, TokenMS = T, NetworkMS = N, NetworkFraction = F\<rparr>)"
    unfolding plan_of_stages_def Let_def c N_def T_def F_def ..
  moreover have "(NetworkMS p = N \<and> TokenMS p = compute_ms model sub cs + NetworkMS p \<and>
      NetworkFraction p = (if TokenMS p > 0 then NetworkMS p / TokenMS p else 0)) \<longleftrightarrow>
      NetworkMS p = N \<and> TokenMS p = T \<and> NetworkFraction p = F"
    unfolding F_def T_def by auto
  ultimately show ?thesis
    unfolding N_def[symmetric] by (cases p) auto
qed

lemma planForSubset_sound:
  assumes "valid_model model" "\<forall>n\<in>set sub. profiled n" "planForSubset sub model bo nb = Inr (Some p)"
  shows "plan_on model bo nb sub p"
proof -
  from assms(3) obtain cs where a: "assignLayers sub model = Inr (Some cs)"
    by (auto simp: planForSubset_def split: sum.splits option.splits)
  note f = assignLayers_feasible[OF assms(1,2) a]
  then have "length cs = length sub" by (simp add: feasible_def)
  note b = build_stages_profiled[OF assms(2) this, of model 0]
  have "plan_of_stages (map (stage_of model sub cs 0) [0..<length sub]) (length sub) bo nb = Some p"
    using assms(3) by (simp add: planForSubset_def a b)
  then show ?thesis
    unfolding plan_on_def plan_of_stages_eq[OF refl] using f assignLayers_optimal[OF assms(1,2) a] by auto
qed

text \<open>Conversely every specified plan is matched, in time, by the one the code computes.\<close>

lemma planForSubset_complete:
  assumes "valid_model model" "\<forall>n\<in>set sub. profiled n" "plan_on model bo nb sub q"
  shows "\<exists>p. planForSubset sub model bo nb = Inr (Some p) \<and> TokenMS p = TokenMS q"
proof -
  from assms(3) obtain xs where x: "feasible model sub xs"
    "\<forall>ys. feasible model sub ys \<longrightarrow> compute_ms model sub xs \<le> compute_ms model sub ys"
    "NetworkMS q = of_int (int (length sub) - 1) * bo" "TokenMS q = compute_ms model sub xs + NetworkMS q"
    "NetworkFraction q = (if TokenMS q > 0 then NetworkMS q / TokenMS q else 0)"
    "length sub > 1 \<longrightarrow> NetworkFraction q \<le> nb"
    by (auto simp: plan_on_def)
  obtain cs where a: "assignLayers sub model = Inr (Some cs)"
  proof -
    have "assignLayers sub model \<noteq> Inr None" "\<exists>r. assignLayers sub model = Inr r"
      using assignLayers_never_fails[OF assms(1,2)] assignLayers_None[OF assms(1,2)] x(1) by auto
    then show ?thesis using that by (metis option.exhaust)
  qed
  note f = assignLayers_feasible[OF assms(1,2) a]
  have eq: "compute_ms model sub cs = compute_ms model sub xs"
    using assignLayers_optimal[OF assms(1,2) a x(1)] x(2) f by force
  have "length cs = length sub" using f by (simp add: feasible_def)
  note b = build_stages_profiled[OF assms(2) this, of model 0]
  let ?st = "map (stage_of model sub cs 0) [0..<length sub]"
  let ?p = "\<lparr>Stages = ?st, TokenMS = TokenMS q, NetworkMS = NetworkMS q, NetworkFraction = NetworkFraction q\<rparr>"
  have "plan_of_stages ?st (length sub) bo nb = Some ?p"
    unfolding plan_of_stages_eq[OF refl] using x eq by simp
  then show ?thesis by (simp add: planForSubset_def a b)
qed

lemma planForSubset_never_fails:
  assumes "valid_model model" "\<forall>n\<in>set sub. profiled n"
  shows "\<exists>r. planForSubset sub model bo nb = Inr r"
proof -
  obtain r where r: "assignLayers sub model = Inr r"
    using assignLayers_never_fails[OF assms] by auto
  show ?thesis
  proof (cases r)
    case None
    then show ?thesis by (simp add: planForSubset_def r)
  next
    case (Some cs)
    then have "length cs = length sub"
      using assignLayers_feasible[OF assms] r by (simp add: feasible_def)
    then show ?thesis
      by (simp add: planForSubset_def r Some build_stages_profiled[OF assms(2)])
  qed
qed

lemma plan_on_stages: "plan_on model bo nb sub p \<Longrightarrow> NodeIDs p = map ID sub \<and> length (Stages p) = length sub"
  by (auto simp: plan_on_def NodeIDs_def stage_of_def comp_def intro: nth_equalityI)

lemma plan_on_feasible: "plan_on model bo nb sub p \<Longrightarrow> \<exists>xs. feasible model sub xs"
  by (auto simp: plan_on_def)

lemma plan_on_nonempty: "valid_model model \<Longrightarrow> plan_on model bo nb sub p \<Longrightarrow> sub \<noteq> []"
  by (auto simp: plan_on_def feasible_def valid_model_def)


section \<open>Enumeration of subsets\<close>

lemma comb_idx_shift: "comb_idx (Suc n) m (Suc s) = map (map Suc) (comb_idx n m s)"
proof (induction m arbitrary: s)
  case 0
  then show ?case by simp
next
  case (Suc m)
  show ?case
  proof (cases "m \<le> n")
    case True
    then have "[Suc s..<Suc n - m] = map Suc [s..<n - m]" by (simp add: Suc_diff_le map_Suc_upt)
    then show ?thesis by (simp add: Suc.IH comp_def map_concat)
  qed simp
qed

lemma comb_idx_empty: "n < m \<Longrightarrow> comb_idx n m s = []"
  by (cases m) auto

lemma combinations_0: "combinations xs 0 = [[]]"
  by (simp add: combinations_def)

lemma combinations_Nil: "combinations [] (Suc k) = []"
  by (simp add: combinations_def)

lemma combinations_Cons:
  "combinations (x # xs) (Suc k) = map ((#) x) (combinations xs k) @ combinations xs (Suc k)"
proof (cases "k \<le> length xs")
  case True
  then have "[0..<Suc (length xs) - k] = 0 # map Suc [0..<length xs - k]"
    by (simp add: Suc_diff_le map_Suc_upt upt_conv_Cons del: upt_Suc)
  then show ?thesis
    by (simp add: combinations_def comb_idx_shift comp_def map_concat)
next
  case False
  then show ?thesis by (simp add: combinations_def comb_idx_empty)
qed

lemma set_combinations: "set (combinations xs k) = {ys \<in> set (subseqs xs). length ys = k}"
proof (induction xs arbitrary: k)
  case Nil
  then show ?case by (cases k) (auto simp: combinations_0 combinations_Nil)
next
  case (Cons x xs)
  show ?case
  proof (cases k)
    case 0
    have "[] \<in> set (subseqs xs)" by (induction xs) (auto simp: Let_def)
    then show ?thesis by (auto simp: 0 combinations_0 Let_def)
  next
    case (Suc k')
    then show ?thesis by (auto simp: combinations_Cons Cons.IH Let_def)
  qed
qed


section \<open>Best plan of one size\<close>

definition plan_in :: "ModelSpec \<Rightarrow> float64 \<Rightarrow> float64 \<Rightarrow> NodeProfile list list \<Rightarrow> PartitionPlan \<Rightarrow> bool" where
  "plan_in model bo nb ss p \<longleftrightarrow> (\<exists>s\<in>set ss. plan_on model bo nb s p)"

lemma plan_in_simps [simp]:
  "\<not> plan_in model bo nb [] p"
  "plan_in model bo nb (s # ss) p \<longleftrightarrow> plan_on model bo nb s p \<or> plan_in model bo nb ss p"
  by (auto simp: plan_in_def)

lemma plan_in_Cons:
  "plan_in model bo nb (s # ss) = (\<lambda>q. plan_on model bo nb s q \<or> plan_in model bo nb ss q)"
  by (simp add: fun_eq_iff)

text \<open>What the callback fold returns: a plan no slower than its start value and than any plan of \<open>ss\<close>.\<close>

definition best_of :: "PartitionPlan option \<Rightarrow> (PartitionPlan \<Rightarrow> bool) \<Rightarrow> PartitionPlan option \<Rightarrow> bool" where
  "best_of b P r \<longleftrightarrow>
     (case r of
        None \<Rightarrow> b = None \<and> (\<forall>q. \<not> P q)
      | Some p \<Rightarrow> (b = Some p \<or> P p) \<and> (\<forall>q. P q \<or> b = Some q \<longrightarrow> TokenMS p \<le> TokenMS q))"

lemma planForSubset_best:
  assumes "valid_model model" "\<forall>n\<in>set s. profiled n"
  shows "\<exists>r. planForSubset s model bo nb = Inr r \<and> best_of None (plan_on model bo nb s) r"
proof -
  obtain r where r: "planForSubset s model bo nb = Inr r"
    using planForSubset_never_fails[OF assms] by blast
  have "\<exists>p. r = Some p \<and> TokenMS p = TokenMS q" if "plan_on model bo nb s q" for q
    using planForSubset_complete[OF assms that] r by auto
  moreover have "plan_on model bo nb s p" if "r = Some p" for p
    using planForSubset_sound[OF assms] r that by auto
  ultimately have "best_of None (plan_on model bo nb s) r"
    by (cases r; simp add: best_of_def) (meson order_refl option.discI | metis option.inject order_refl option.discI)+
  then show ?thesis using r by blast
qed

lemma best_of_step:
  assumes "best_of None P (Some p)" "best_of (Some (if TokenMS p < TokenMS b then p else b)) Q r"
  shows "best_of (Some b) (\<lambda>q. P q \<or> Q q) r"
  using assms by (fastforce simp: best_of_def split: option.splits if_splits)

lemma best_in_best:
  assumes "valid_model model" "\<forall>s\<in>set ss. \<forall>n\<in>set s. profiled n"
  shows "\<exists>r. best_in ss model bo nb b = Inr r \<and> best_of b (plan_in model bo nb ss) r"
  using assms(2)
proof (induction ss arbitrary: b)
  case Nil
  then show ?case by (auto simp: best_of_def split: option.splits)
next
  case (Cons s ss)
  obtain x where o: "planForSubset s model bo nb = Inr x" "best_of None (plan_on model bo nb s) x"
    using planForSubset_best[OF assms(1), of s] Cons.prems by (meson list.set_intros(1))
  have IH: "\<exists>r. best_in ss model bo nb c = Inr r \<and> best_of c (plan_in model bo nb ss) r" for c
    using Cons by simp
  show ?case
  proof (cases x)
    case None
    then have "plan_in model bo nb (s # ss) = plan_in model bo nb ss"
      using o(2) by (auto simp: best_of_def)
    then show ?thesis using IH[of b] o(1) None by simp
  next
    case (Some p)
    show ?thesis
    proof (cases b)
      case None
      from IH[of "Some p"] obtain r where "best_in ss model bo nb (Some p) = Inr r"
        "best_of (Some p) (plan_in model bo nb ss) r" by blast
      then show ?thesis using o Some None by (fastforce simp: best_of_def split: option.splits)
    next
      case b: (Some c)
      let ?c = "if TokenMS p < TokenMS c then p else c"
      from IH[of "Some ?c"] obtain r where r: "best_in ss model bo nb (Some ?c) = Inr r"
        "best_of (Some ?c) (plan_in model bo nb ss) r" by blast
      have "best_of b (plan_in model bo nb (s # ss)) r"
        using best_of_step[OF o(2)[unfolded Some] r(2)] by (simp add: b plan_in_Cons)
      moreover have "(if TokenMS p < TokenMS c then Some p else Some c) = Some ?c" by simp
      ultimately show ?thesis using o(1) r(1) Some b by (simp add: plan_in_Cons)
    qed
  qed
qed

definition has_plan :: "ModelSpec \<Rightarrow> float64 \<Rightarrow> float64 \<Rightarrow> NodeProfile list \<Rightarrow> nat \<Rightarrow> bool" where
  "has_plan model bo nb present k \<longleftrightarrow> (\<exists>p. plan_in model bo nb (combinations present k) p)"

lemma combinations_profiled:
  "\<forall>n\<in>set present. profiled n \<Longrightarrow> \<forall>s\<in>set (combinations present k). \<forall>n\<in>set s. profiled n"
  using subseqs_powset[of present] unfolding set_combinations by blast

lemma best_per_k_best:
  assumes "valid_model model" "\<forall>n\<in>set present. profiled n"
  shows "\<exists>r. best_per_k present model bo nb ks = Inr r \<and>
     map fst r = filter (has_plan model bo nb present) ks \<and>
     (\<forall>(k, p)\<in>set r. best_of None (plan_in model bo nb (combinations present k)) (Some p))"
proof (induction ks)
  case Nil
  then show ?case by simp
next
  case (Cons k ks)
  obtain b where b: "best_in (combinations present k) model bo nb None = Inr b"
    "best_of None (plan_in model bo nb (combinations present k)) b"
    using best_in_best[OF assms(1) combinations_profiled[OF assms(2)]] by blast
  have "has_plan model bo nb present k \<longleftrightarrow> b \<noteq> None"
    using b(2) by (auto simp: has_plan_def best_of_def split: option.splits)
  then show ?case using Cons b by (auto split: option.splits)
qed


section \<open>Choice among the sizes\<close>

definition no_worse :: "PartitionPlan \<Rightarrow> PartitionPlan \<Rightarrow> bool" where
  "no_worse p q \<longleftrightarrow> TokenMS p < TokenMS q \<or>
     (TokenMS p = TokenMS q \<and> length (Stages p) \<le> length (Stages q))"

lemma no_worse_iff: "no_worse p q \<longleftrightarrow> \<not> better q p"
  by (auto simp: no_worse_def better_def)

lemma no_worse_refl [simp]: "no_worse p p" by (simp add: no_worse_def)

lemma no_worse_trans: "no_worse p q \<Longrightarrow> no_worse q r \<Longrightarrow> no_worse p r"
  by (auto simp: no_worse_def)

lemma fastest_start:
  "\<exists>p. fastest ps (Some b) = Some p \<and> p \<in> insert b (set ps) \<and> (\<forall>q\<in>insert b (set ps). no_worse p q)"
proof (induction ps arbitrary: b)
  case (Cons q ps)
  let ?b = "if better q b then q else b"
  obtain p where p: "fastest ps (Some ?b) = Some p" "p \<in> insert ?b (set ps)"
    "\<forall>x\<in>insert ?b (set ps). no_worse p x"
    using Cons.IH by blast
  have "no_worse ?b q \<and> no_worse ?b b"
    by (auto simp: no_worse_iff) (auto simp: better_def)
  then have w: "no_worse p q" "no_worse p b"
    using p(3) no_worse_trans by blast+
  have "fastest (q # ps) (Some b) = Some p" using p(1) by (cases "better q b") simp_all
  moreover have "p \<in> insert b (set (q # ps))" using p(2) by (cases "better q b") auto
  moreover have "\<forall>x\<in>insert b (set (q # ps)). no_worse p x" using p(3) w by auto
  ultimately show ?case by blast
qed simp

lemma fastest_best:
  "ps \<noteq> [] \<Longrightarrow> \<exists>p. fastest ps None = Some p \<and> p \<in> set ps \<and> (\<forall>q\<in>set ps. no_worse p q)"
  using fastest_start by (cases ps) auto

lemma first_reaching_Some:
  "first_reaching ks f = Some p \<Longrightarrow>
   \<exists>pre k post. ks = pre @ (k, p) # post \<and> (case f of None \<Rightarrow> True | Some x \<Rightarrow> TokenMS p \<le> x) \<and>
     (\<forall>(i, q)\<in>set pre. \<not> (case f of None \<Rightarrow> True | Some x \<Rightarrow> TokenMS q \<le> x))"
proof (induction ks f rule: first_reaching.induct)
  case (2 k q ks f)
  show ?case
  proof (cases "case f of None \<Rightarrow> True | Some x \<Rightarrow> TokenMS q \<le> x")
    case True
    then show ?thesis using 2(2) by (intro exI[of _ "[]"]) auto
  next
    case False
    then obtain pre j post where "ks = pre @ (j, p) # post" "case f of None \<Rightarrow> True | Some x \<Rightarrow> TokenMS p \<le> x"
      "\<forall>(i, q)\<in>set pre. \<not> (case f of None \<Rightarrow> True | Some x \<Rightarrow> TokenMS q \<le> x)"
      using 2 by auto
    then show ?thesis using False by (intro exI[of _ "(k, q) # pre"]) auto
  qed
qed simp

lemma first_reaching_None:
  "first_reaching ks f = None \<longleftrightarrow> (\<forall>(k, p)\<in>set ks. \<not> (case f of None \<Rightarrow> True | Some x \<Rightarrow> TokenMS p \<le> x))"
  by (induction ks f rule: first_reaching.induct) auto


section \<open>Admissible plans of a pool\<close>

text \<open>
  \<open>admissible\<close> plans are the specified plans of every set of present nodes. \<open>chosen\<close> is the
  selection rule: without a floor the fastest plan (fewer stages on a tie); with one, among the
  plans reaching it the fewest nodes and then the fastest, and the fastest overall if none does.
\<close>

definition admissible :: "ModelSpec \<Rightarrow> float64 \<Rightarrow> float64 \<Rightarrow> NodeProfile list \<Rightarrow> PartitionPlan \<Rightarrow> bool" where
  "admissible model bo nb nodes p \<longleftrightarrow>
     (\<exists>sub\<in>set (subseqs (presentSorted nodes)). plan_on model bo nb sub p)"

definition reaches :: "float64 \<Rightarrow> PartitionPlan \<Rightarrow> bool" where
  "reaches minUsable p \<longleftrightarrow> (minUsable > 0 \<longrightarrow> TokenMS p \<le> 1000 / minUsable)"

definition chosen :: "(PartitionPlan \<Rightarrow> bool) \<Rightarrow> float64 option \<Rightarrow> PartitionPlan \<Rightarrow> bool" where
  "chosen P flr p \<longleftrightarrow> P p \<and>
     (case flr of
        None \<Rightarrow> (\<forall>q. P q \<longrightarrow> no_worse p q)
      | Some v \<Rightarrow>
          if \<exists>q. P q \<and> reaches v q
          then reaches v p \<and> (\<forall>q. P q \<and> reaches v q \<longrightarrow>
                 length (Stages p) < length (Stages q) \<or>
                 (length (Stages p) = length (Stages q) \<and> TokenMS p \<le> TokenMS q))
          else (\<forall>q. P q \<longrightarrow> no_worse p q))"

lemma chosenD: "chosen P flr p \<Longrightarrow> P p"
  by (simp add: chosen_def)

lemma reaches_floor_ms:
  "(case floor_ms v of None \<Rightarrow> True | Some x \<Rightarrow> TokenMS p \<le> x) = reaches v p"
  by (simp add: floor_ms_def reaches_def)

lemma reaches_mono: "TokenMS p \<le> TokenMS q \<Longrightarrow> reaches v q \<Longrightarrow> reaches v p"
  by (auto simp: reaches_def)

text \<open>The table \<^verbatim>\<open>bestPerK\<close> represents the admissible plans: one plan per size, at its fastest.\<close>

definition represents :: "(PartitionPlan \<Rightarrow> bool) \<Rightarrow> (nat \<times> PartitionPlan) list \<Rightarrow> bool" where
  "represents P ks \<longleftrightarrow> sorted_wrt (<) (map fst ks) \<and>
     (\<forall>(k, p)\<in>set ks. P p \<and> length (Stages p) = k) \<and>
     (\<forall>q. P q \<longrightarrow> (\<exists>p. (length (Stages q), p) \<in> set ks \<and> TokenMS p \<le> TokenMS q))"

lemma choose_fastest:
  assumes "represents P ks" "ks \<noteq> []"
  shows "\<exists>p. fastest (map snd ks) None = Some p \<and> P p \<and> (\<forall>q. P q \<longrightarrow> no_worse p q)"
proof -
  obtain p where p: "fastest (map snd ks) None = Some p" "p \<in> snd ` set ks" "\<forall>q\<in>snd ` set ks. no_worse p q"
    using fastest_best[of "map snd ks"] assms(2) by auto
  have "no_worse p q" if q: "P q" for q
  proof -
    obtain x where x: "(length (Stages q), x) \<in> set ks" "TokenMS x \<le> TokenMS q"
      using assms(1) q by (auto simp: represents_def)
    then have "no_worse p x" "length (Stages x) = length (Stages q)"
      using p(3) assms(1) by (force simp: represents_def)+
    then show ?thesis using x(2) by (auto simp: no_worse_def)
  qed
  then show ?thesis using p(1,2) assms(1) by (auto simp: represents_def)
qed

lemma choose_reaching:
  assumes "represents P ks" "first_reaching ks (floor_ms v) = Some p"
  shows "P p \<and> reaches v p \<and> (\<forall>q. P q \<and> reaches v q \<longrightarrow> length (Stages p) < length (Stages q) \<or>
     (length (Stages p) = length (Stages q) \<and> TokenMS p \<le> TokenMS q))"
proof -
  from first_reaching_Some[OF assms(2)] obtain pre k post where ks: "ks = pre @ (k, p) # post"
    and r: "reaches v p" "\<forall>(i, q)\<in>set pre. \<not> reaches v q"
    by (auto simp: reaches_floor_ms)
  have p: "P p" "length (Stages p) = k" using assms(1) ks by (auto simp: represents_def)
  have "k < length (Stages q) \<or> (k = length (Stages q) \<and> TokenMS p \<le> TokenMS q)"
    if q: "P q" "reaches v q" for q
  proof -
    obtain x where x: "(length (Stages q), x) \<in> set ks" "TokenMS x \<le> TokenMS q"
      using assms(1) q(1) by (auto simp: represents_def)
    then have "(length (Stages q), x) \<notin> set pre"
      using reaches_mono[OF x(2) q(2)] r(2) by auto
    then consider "(length (Stages q), x) = (k, p)" | "(length (Stages q), x) \<in> set post"
      using x(1) ks by auto
    then show ?thesis
    proof cases
      case 2
      then have "k < length (Stages q)"
        using assms(1) ks by (force simp: represents_def sorted_wrt_append)
      then show ?thesis ..
    qed (use x in auto)
  qed
  then show ?thesis using p r(1) by blast
qed

lemma choose_plan_chosen:
  assumes "represents P ks" "ks \<noteq> []"
  shows "\<exists>p. choose_plan ks flr = Some p \<and> chosen P flr p"
proof (cases flr)
  case None
  then show ?thesis using choose_fastest[OF assms] by (auto simp: choose_plan_def chosen_def)
next
  case (Some v)
  show ?thesis
  proof (cases "first_reaching ks (floor_ms v)")
    case None
    have "\<not> reaches v q" if q: "P q" for q
    proof -
      obtain x where "(length (Stages q), x) \<in> set ks" "TokenMS x \<le> TokenMS q"
        using assms(1) q by (auto simp: represents_def)
      then show ?thesis
        using None reaches_mono by (fastforce simp: first_reaching_None reaches_floor_ms)
    qed
    then show ?thesis
      using choose_fastest[OF assms] None Some by (auto simp: choose_plan_def chosen_def)
  next
    case p: (Some p)
    show ?thesis
      using choose_reaching[OF assms(1) p] p Some by (auto simp: choose_plan_def chosen_def)
  qed
qed


section \<open>The solver\<close>

abbreviation present_profiled :: "NodeProfile list \<Rightarrow> bool" where
  "present_profiled nodes \<equiv> \<forall>n\<in>set nodes. \<not> Absent n \<longrightarrow> profiled n"

lemma set_presentSorted [simp]: "set (presentSorted nodes) = {n \<in> set nodes. \<not> Absent n}"
  by (simp add: presentSorted_def)

lemma admissible_size:
  assumes "valid_model model" "admissible model bo nb nodes q"
  shows "length (Stages q) \<in> set [1..<length (presentSorted nodes) + 1] \<and>
    plan_in model bo nb (combinations (presentSorted nodes) (length (Stages q))) q"
proof -
  obtain sub where s: "sub \<in> set (subseqs (presentSorted nodes))" "plan_on model bo nb sub q"
    using assms(2) by (auto simp: admissible_def)
  then have l: "length (Stages q) = length sub" "sub \<noteq> []"
    using plan_on_stages plan_on_nonempty[OF assms(1)] by blast+
  have "subseq sub (presentSorted nodes)" using s(1) by simp
  then have "length sub \<le> length (presentSorted nodes)" by (rule list_emb_length)
  then show ?thesis using s l by (auto simp: plan_in_def set_combinations Suc_le_eq)
qed

lemma best_per_k_represents:
  assumes "valid_model model" "present_profiled nodes"
  shows "\<exists>ks. best_per_k (presentSorted nodes) model bo nb [1..<length (presentSorted nodes) + 1] = Inr ks \<and>
     represents (admissible model bo nb nodes) ks"
proof -
  let ?P = "presentSorted nodes" and ?A = "admissible model bo nb nodes"
  let ?C = "\<lambda>k. plan_in model bo nb (combinations (presentSorted nodes) k)"
  have "\<forall>n\<in>set ?P. profiled n" using assms(2) by simp
  from best_per_k_best[OF assms(1) this] obtain ks where
    ks: "best_per_k ?P model bo nb [1..<length ?P + 1] = Inr ks"
    "map fst ks = filter (has_plan model bo nb ?P) [1..<length ?P + 1]"
    "\<forall>(k, p)\<in>set ks. best_of None (?C k) (Some p)"
    by blast
  have "sorted_wrt (<) (map fst ks)"
    unfolding ks(2) by (intro sorted_wrt_filter sorted_wrt_upt)
  moreover have "?A p \<and> length (Stages p) = k" if "(k, p) \<in> set ks" for k p
  proof -
    have "?C k p" using ks(3) that by (auto simp: best_of_def)
    then show ?thesis
      using plan_on_stages by (auto simp: plan_in_def admissible_def set_combinations)
  qed
  moreover have "\<exists>p. (length (Stages q), p) \<in> set ks \<and> TokenMS p \<le> TokenMS q" if q: "?A q" for q
  proof -
    note a = admissible_size[OF assms(1) q]
    then have "length (Stages q) \<in> set (map fst ks)"
      unfolding ks(2) by (auto simp: has_plan_def)
    then obtain p where p: "(length (Stages q), p) \<in> set ks" by auto
    then have "TokenMS p \<le> TokenMS q" using ks(3) a by (auto simp: best_of_def)
    then show ?thesis using p by blast
  qed
  ultimately have "represents ?A ks" by (auto simp: represents_def)
  then show ?thesis using ks(1) by blast
qed

lemma represents_Nil: "represents P [] \<longleftrightarrow> (\<forall>p. \<not> P p)"
  by (auto simp: represents_def)

lemma represents_nonempty: "represents P ks \<Longrightarrow> ks \<noteq> [] \<Longrightarrow> \<exists>p. P p"
  by (cases ks) (auto simp: represents_def)

text \<open>A feasible assignment fits the summed caps, so the early capacity check loses no plan.\<close>

lemma foldl_add: "foldl (\<lambda>s n. s + f n) a xs = a + sum_list (map f xs :: real list)"
  by (induction xs arbitrary: a) (simp_all add: add.assoc)

lemma sum_list_subseq:
  "subseq xs ys \<Longrightarrow> \<forall>y\<in>set ys. 0 \<le> (f y :: real) \<Longrightarrow> sum_list (map f xs) \<le> sum_list (map f ys)"
  by (induction rule: list_emb.induct) (auto intro!: add_increasing sum_list_nonneg)

lemma feasible_fits:
  assumes "valid_model model" "feasible model sub xs"
  shows "TotalGB model \<le> sum_list (map ModelMemCapGB sub)"
proof -
  have "TotalGB model = of_int (sum_list xs) * GBPerLayerResident model"
    using assms by (simp add: feasible_def GBPerLayerResident_def TotalGB_def valid_model_def)
  also have "\<dots> = sum_list (map (\<lambda>x. of_int x * GBPerLayerResident model) xs)"
    by (induction xs) (simp_all add: distrib_right)
  also have "\<dots> \<le> sum_list (map ModelMemCapGB sub)"
    using assms(2) by (intro sum_list_mono2) (auto simp: feasible_def)
  finally show ?thesis .
qed

lemma admissible_fits:
  assumes "valid_model model" "\<forall>n\<in>set nodes. 0 \<le> ModelMemCapGB n" "admissible model bo nb nodes p"
  shows "presentSorted nodes \<noteq> [] \<and> fits (presentSorted nodes) model"
proof -
  obtain sub xs where s: "subseq sub (presentSorted nodes)" "plan_on model bo nb sub p" "feasible model sub xs"
    using assms(3) plan_on_feasible by (force simp: admissible_def)
  have "sum_list (map ModelMemCapGB sub) \<le> sum_list (map ModelMemCapGB (presentSorted nodes))"
    by (rule sum_list_subseq[OF s(1)]) (use assms(2) in simp)
  then show ?thesis
    using feasible_fits[OF assms(1) s(3)] plan_on_nonempty[OF assms(1) s(2)] s(1)
    by (auto simp: fits_def foldl_add)
qed

lemma solve_plan_chosen:
  assumes "valid_model model" "present_profiled nodes" "solve_plan nodes model bo nb flr = Inr p"
  shows "chosen (admissible model bo nb nodes) flr p"
proof -
  obtain ks where ks: "best_per_k (presentSorted nodes) model bo nb [1..<length (presentSorted nodes) + 1] = Inr ks"
    "represents (admissible model bo nb nodes) ks"
    using best_per_k_represents[OF assms(1,2)] by blast
  have "ks \<noteq> []" "choose_plan ks flr = Some p"
    using assms(3) ks(1) by (auto simp: solve_plan_def Let_def split: if_splits option.splits)
  then show ?thesis using choose_plan_chosen[OF ks(2), of flr] by auto
qed

lemma solve_plan_fails:
  assumes "valid_model model" "present_profiled nodes" "\<forall>n\<in>set nodes. 0 \<le> ModelMemCapGB n"
    "solve_plan nodes model bo nb flr = Inl e"
  shows "\<not> admissible model bo nb nodes p"
proof
  assume a: "admissible model bo nb nodes p"
  obtain ks where ks: "best_per_k (presentSorted nodes) model bo nb [1..<length (presentSorted nodes) + 1] = Inr ks"
    "represents (admissible model bo nb nodes) ks"
    using best_per_k_represents[OF assms(1,2)] by blast
  have "ks \<noteq> []" using ks(2) a represents_Nil by metis
  then show False
    using choose_plan_chosen[OF ks(2), of flr] admissible_fits[OF assms(1,3) a] assms(4) ks(1)
    by (auto simp: solve_plan_def Let_def)
qed

lemma Solve_plan: "Solve nodes model bo nb flr fb = Inr r \<Longrightarrow> solve_plan nodes model bo nb flr = Inr (Plan r)"
  by (auto simp: Solve_def split: sum.splits)

lemma Solve_Inl: "(\<exists>e. Solve nodes model bo nb flr fb = Inl e) \<longleftrightarrow> (\<exists>e. solve_plan nodes model bo nb flr = Inl e)"
  by (auto simp: Solve_def split: sum.splits)

lemma presentSorted_filter_profiled:
  "present_profiled nodes \<Longrightarrow> present_profiled (filter P (presentSorted nodes))"
  by simp

lemma admissible_nodes: "admissible model bo nb nodes p \<Longrightarrow> set (NodeIDs p) \<subseteq> ID ` {n \<in> set nodes. \<not> Absent n}"
proof -
  assume "admissible model bo nb nodes p"
  then obtain sub where s: "sub \<in> set (subseqs (presentSorted nodes))" "plan_on model bo nb sub p"
    unfolding admissible_def by blast
  have "set sub \<subseteq> set (presentSorted nodes)"
    using s(1) subseqs_powset[of "presentSorted nodes"] by blast
  then show ?thesis using plan_on_stages[OF s(2)] by auto
qed


section \<open>A concrete pool\<close>

definition demo_nodes :: "NodeProfile list" where
  "demo_nodes = [\<lparr>ID = ''b'', ModelMemCapGB = 8, MsPerLayer = 2, MemBandwidthGBps = 0, Absent = False\<rparr>,
     \<lparr>ID = ''a'', ModelMemCapGB = 6, MsPerLayer = 1, MemBandwidthGBps = 0, Absent = False\<rparr>]"

definition demo_model :: ModelSpec where
  "demo_model = \<lparr>NLayers = 10, WeightsGB = 10, KVCacheGB = 0, BatchSlots = 1, PrefixCacheGB = 0\<rparr>"

lemmas solve_eval = Solve_def solve_plan_def presentSorted_def fits_def TotalGB_def KVTotalGB_def
  combinations_def planForSubset_def assignLayers_def layer_cap_def go_int_def GBPerLayerResident_def
  GBPerLayerTotal_def StageMS_def gbPerLayer_def plan_of_stages_def choose_plan_def demo_nodes_def
  demo_model_def Let_def upt_rec NodeIDs_def

lemma demo_ok: "valid_model demo_model" "present_profiled demo_nodes" "\<forall>n\<in>set demo_nodes. 0 \<le> ModelMemCapGB n"
  by (simp_all add: valid_model_def profiled_def demo_nodes_def demo_model_def)

lemma demo_solved: "\<exists>r. Solve demo_nodes demo_model 1 (1 / 2) None True = Inr r"
  by (simp add: solve_eval)


section \<open>Properties\<close>

text \<open>
  C5. A plan returned by \<^verbatim>\<open>Solve\<close> is the one its selection rule names among all admissible plans of
  the pool: the fastest one without a floor (fewest stages on a tie); with a floor, the one on the
  fewest nodes that reaches it (the fastest of that size), or the fastest of all when none reaches it.
\<close>

theorem Solve_optimal:
  assumes "valid_model model" "present_profiled nodes" "Solve nodes model bo nb flr fb = Inr r"
  shows "chosen (admissible model bo nb nodes) flr (Plan r)"
  using solve_plan_chosen[OF assms(1,2) Solve_plan[OF assms(3)]] .

theorem Solve_optimal_witness:
  "\<exists>r. Solve demo_nodes demo_model 1 (1 / 2) None True = Inr r \<and>
     chosen (admissible demo_model 1 (1 / 2) demo_nodes) None (Plan r)"
  using Solve_optimal[OF demo_ok(1,2)] demo_solved by blast

lemma Solve_fails_admissible:
  assumes "valid_model model" "present_profiled nodes" "\<forall>n\<in>set nodes. 0 \<le> ModelMemCapGB n"
  shows "(\<exists>e. Solve nodes model bo nb flr fb = Inl e) \<longleftrightarrow> (\<forall>p. \<not> admissible model bo nb nodes p)"
proof
  assume "\<exists>e. Solve nodes model bo nb flr fb = Inl e"
  then show "\<forall>p. \<not> admissible model bo nb nodes p"
    using solve_plan_fails[OF assms] unfolding Solve_Inl by blast
next
  assume none: "\<forall>p. \<not> admissible model bo nb nodes p"
  show "\<exists>e. Solve nodes model bo nb flr fb = Inl e"
  proof (cases "solve_plan nodes model bo nb flr")
    case (Inr p)
    then show ?thesis using chosenD[OF solve_plan_chosen[OF assms(1,2) Inr]] none by simp
  qed (auto simp: Solve_Inl)
qed

text \<open>
  \<^verbatim>\<open>Solve\<close> is complete: with non-negative caps it returns an error exactly when no set of present
  nodes has an admissible plan, so the early capacity check and the network budget reject nothing else.
\<close>

theorem Solve_fails_iff:
  assumes "valid_model model" "present_profiled nodes" "\<forall>n\<in>set nodes. 0 \<le> ModelMemCapGB n"
  shows "(\<exists>e. Solve nodes model bo nb flr fb = Inl e) \<longleftrightarrow> (\<forall>p. \<not> admissible model bo nb nodes p)"
  using Solve_fails_admissible[OF assms] .

theorem Solve_fails_iff_witness:
  "(\<exists>e. Solve demo_nodes demo_model 1 (1 / 2) None True = Inl e) \<longleftrightarrow>
     (\<forall>p. \<not> admissible demo_model 1 (1 / 2) demo_nodes p)"
  by (rule Solve_fails_iff[OF demo_ok])

text \<open>
  The N-1 fallbacks: there is one entry per node of the chosen plan, in pipeline order. An entry
  with a plan holds the plan the selection rule names for the present pool without that node, so it
  never uses the node; an entry without one means that pool has no admissible plan.
\<close>

theorem Solve_fallbacks:
  assumes "valid_model model" "present_profiled nodes" "\<forall>n\<in>set nodes. 0 \<le> ModelMemCapGB n"
    "Solve nodes model bo nb flr True = Inr r"
  shows "map fst (Fallbacks r) = NodeIDs (Plan r) \<and>
    (\<forall>(lost, f)\<in>set (Fallbacks r).
       let pool = filter (\<lambda>n. ID n \<noteq> lost) (presentSorted nodes)
       in case f of
            None \<Rightarrow> \<forall>p. \<not> admissible model bo nb pool p
          | Some p \<Rightarrow> chosen (admissible model bo nb pool) flr p \<and> lost \<notin> set (NodeIDs p))"
proof -
  let ?pool = "\<lambda>lost. filter (\<lambda>n. ID n \<noteq> lost) (presentSorted nodes)"
  have f: "Fallbacks r = map (\<lambda>i. (i, case solve_plan (?pool i) model bo nb flr of Inl _ \<Rightarrow> None | Inr p \<Rightarrow> Some p))
      (NodeIDs (Plan r))"
    using assms(4) by (auto simp: Solve_def split: sum.splits)
  have pp: "present_profiled (?pool i)" "\<forall>n\<in>set (?pool i). 0 \<le> ModelMemCapGB n" for i
    using assms(2,3) by auto
  have "lost \<notin> set (NodeIDs p)" if "chosen (admissible model bo nb (?pool lost)) flr p" for lost p
    using admissible_nodes[OF chosenD[OF that]] by auto
  then show ?thesis
    using solve_plan_chosen[OF assms(1) pp(1)] solve_plan_fails[OF assms(1) pp]
    unfolding f by (auto simp: Let_def comp_def split: sum.splits)
qed

theorem Solve_fallbacks_witness:
  "\<exists>r. Solve demo_nodes demo_model 1 (1 / 2) None True = Inr r \<and>
     map fst (Fallbacks r) = NodeIDs (Plan r)"
  using Solve_fallbacks[OF demo_ok] demo_solved by blast

text \<open>
  The stages of a plan cover the model once, in order: the first stage starts at layer 0, each
  stage starts where the previous one ends, the layer counts add up to the model's, every stage has at
  least one layer, sits on a present node and its memory is within that node's cap; a plan with more
  than one stage spends at most the budgeted fraction of a token on the network.
\<close>

theorem Solve_stages:
  assumes "valid_model model" "present_profiled nodes" "Solve nodes model bo nb flr fb = Inr r"
  shows "sum_list (map SNLayers (Stages (Plan r))) = NLayers model \<and>
    (\<forall>i<length (Stages (Plan r)).
       let s = Stages (Plan r) ! i in
         FirstLayer s = sum_list (map SNLayers (take i (Stages (Plan r)))) \<and> 1 \<le> SNLayers s \<and>
         (\<exists>n\<in>set nodes. \<not> Absent n \<and> ID n = NodeID s \<and> MemGB s \<le> ModelMemCapGB n)) \<and>
    (1 < length (Stages (Plan r)) \<longrightarrow> NetworkFraction (Plan r) \<le> nb)"
proof -
  obtain sub cs where s: "sub \<in> set (subseqs (presentSorted nodes))" "feasible model sub cs"
    "Stages (Plan r) = map (stage_of model sub cs 0) [0..<length sub]"
    "length sub > 1 \<longrightarrow> NetworkFraction (Plan r) \<le> nb"
    using chosenD[OF solve_plan_chosen[OF assms(1,2) Solve_plan[OF assms(3)]]]
    by (auto simp: admissible_def plan_on_def)
  have sub: "set sub \<subseteq> {n \<in> set nodes. \<not> Absent n}"
    using s(1) subseqs_powset[of "presentSorted nodes"] set_presentSorted by blast
  have len: "length cs = length sub" using s(2) by (simp add: feasible_def)
  have cs: "map SNLayers (Stages (Plan r)) = cs"
    unfolding s(3) by (rule nth_equalityI) (simp_all add: len stage_of_def)
  have "sum_list (map SNLayers (take i (Stages (Plan r)))) = sum_list (take i cs)" for i
    using cs by (simp add: take_map[symmetric])
  moreover have "sub ! i \<in> set nodes \<and> \<not> Absent (sub ! i)" if "i < length sub" for i
    using sub that nth_mem by blast
  ultimately show ?thesis
    using s(2,4) unfolding cs by (auto simp: s(3) stage_of_def feasible_def Let_def)
qed

theorem Solve_stages_witness:
  "\<exists>r. Solve demo_nodes demo_model 1 (1 / 2) None True = Inr r \<and>
     sum_list (map SNLayers (Stages (Plan r))) = 10"
  using Solve_stages[OF demo_ok(1,2)] demo_solved by (force simp: demo_model_def)

end
