(* ===== verification/Partition_Roles.thy ===== *)
theory Partition_Roles
  imports Partition_Search "HOL-Library.Multiset"
begin

text \<open>
  The service-level solvers of \<^verbatim>\<open>internal/partitioner/solver.go\<close>: \<^verbatim>\<open>SolveReplicas\<close> (independent
  replicas on disjoint sub-pools, a search memoised on the set of node ids) and \<^verbatim>\<open>SolveRoles\<close>
  (prefill and draft nodes reserved beside the decode pipeline), and the consumer of role plans,
  \<^verbatim>\<open>BackendsFromRolePlan\<close> of \<^verbatim>\<open>internal/gateway/roleplan.go\<close>. A Go set of ids
  (\<^verbatim>\<open>map[string]bool\<close>) is the list of its members in increasing order.
\<close>


section \<open>Replicas\<close>

record ReplicaPlan =
  Replicas :: "PartitionPlan list"
  AggregateTokensS :: float64
  IdleNodeIDs :: "string list"

fun join_bar :: "string list \<Rightarrow> string" where
  "join_bar [] = []"
| "join_bar [k] = k"
| "join_bar (k # ks) = k @ ''|'' @ join_bar ks"

definition setKey :: "string list \<Rightarrow> string" where
  "setKey ids = join_bar (sort ids)"

definition by_id :: "NodeProfile list \<Rightarrow> string \<Rightarrow> NodeProfile option" where
  "by_id present = foldl (\<lambda>m n. m(ID n \<mapsto> n)) Map.empty present"

text \<open>
  \<open>plan_group\<close> is the body of \<^verbatim>\<open>planFor\<close> on a cache miss. Every error \<^verbatim>\<open>Solve\<close> returns is a
  \<^verbatim>\<open>*PartitionError\<close>, so each becomes the \<^verbatim>\<open>nil\<close> plan.
\<close>

definition plan_group ::
  "(string \<Rightarrow> NodeProfile option) \<Rightarrow> ModelSpec \<Rightarrow> float64 \<Rightarrow> float64 \<Rightarrow> string list \<Rightarrow> PartitionPlan option" where
  "plan_group byID model bo nb ids =
     (case Solve (map (\<lambda>i. the (byID i)) ids) model bo nb None False of
        Inl _ \<Rightarrow> None | Inr result \<Rightarrow> Some (Plan result))"

type_synonym plan_cache = "string \<Rightarrow> PartitionPlan option option"

definition planFor ::
  "(string \<Rightarrow> NodeProfile option) \<Rightarrow> ModelSpec \<Rightarrow> float64 \<Rightarrow> float64 \<Rightarrow> string list \<Rightarrow> plan_cache
     \<Rightarrow> PartitionPlan option \<times> plan_cache" where
  "planFor byID model bo nb ids planCache =
     (case planCache (setKey ids) of
        Some plan \<Rightarrow> (plan, planCache)
      | None \<Rightarrow>
          let plan = plan_group byID model bo nb ids
          in (plan, planCache(setKey ids \<mapsto> plan)))"

record assignment =
  agg :: float64
  plans :: "PartitionPlan list"

type_synonym best_cache = "string \<Rightarrow> assignment option"

text \<open>The scan for the smallest id; \<^verbatim>\<open>""\<close> is its \<^verbatim>\<open>unset\<close> value.\<close>

definition first_id :: "string list \<Rightarrow> string" where
  "first_id ids = foldl (\<lambda>first i. if first = [] \<or> i < first then i else first) [] ids"

fun masked :: "string list \<Rightarrow> nat \<Rightarrow> string list" where
  "masked [] msk = []"
| "masked (i # ids) msk =
     (if msk mod 2 = 1 then i # masked ids (msk div 2) else masked ids (msk div 2))"

definition improves :: "float64 \<Rightarrow> PartitionPlan list \<Rightarrow> assignment \<Rightarrow> bool" where
  "improves a cand best \<longleftrightarrow> a > agg best + 1 / 10 ^ 9 \<or>
     (\<bar>a - agg best\<bar> \<le> 1 / 10 ^ 9 \<and> length cand < length (plans best))"

lemma first_id_in: "ids \<noteq> [] \<Longrightarrow> first_id ids \<in> set ids"
proof -
  have *: "foldl (\<lambda>first i. if first = [] \<or> i < first then i else first) a xs \<in> insert a (set xs)"
    for a and xs :: "string list"
    by (induction xs arbitrary: a) auto
  show "ids \<noteq> [] \<Longrightarrow> first_id ids \<in> set ids"
    using * by (cases ids) (auto simp: first_id_def)
qed

lemma fewer_left:
  "ids \<noteq> [] \<Longrightarrow> length (removeAll (first_id ids) ids) < length ids"
  "ids \<noteq> [] \<Longrightarrow> length (filter (\<lambda>i. i \<noteq> first_id ids \<and> P i) ids) < length ids"
  using first_id_in[of ids] by (auto simp: removeAll_filter_not_eq length_filter_less)

text \<open>
  \<^verbatim>\<open>bestAssignment\<close> with both caches threaded through: the option to leave the first node idle,
  then every group of the first node with a subset (a bit mask) of the rest.
\<close>

function (sequential) bestAssignment ::
  "(string \<Rightarrow> NodeProfile option) \<Rightarrow> ModelSpec \<Rightarrow> float64 \<Rightarrow> float64 \<Rightarrow> string list
     \<Rightarrow> plan_cache \<times> best_cache \<Rightarrow> assignment \<times> plan_cache \<times> best_cache" where
  "bestAssignment byID model bo nb ids caches =
     (if ids = [] then (\<lparr>agg = 0, plans = []\<rparr>, caches)
      else
        (case snd caches (setKey ids) of
           Some a \<Rightarrow> (a, caches)
         | None \<Rightarrow>
             let first = first_id ids;
                 rest = removeAll first ids;
                 start = bestAssignment byID model bo nb rest caches;
                 step = (\<lambda>(best, pc, bc) msk.
                   let group = first # masked rest msk;
                       (plan, pc') = planFor byID model bo nb group pc
                   in case plan of
                        None \<Rightarrow> (best, pc', bc)
                      | Some p \<Rightarrow>
                          let (sub, pc'', bc') =
                                bestAssignment byID model bo nb (filter (\<lambda>i. i \<notin> set group) ids) (pc', bc);
                              a = 1000 / TokenMS p + agg sub;
                              candPlans = p # plans sub
                          in if improves a candPlans best
                             then (\<lparr>agg = a, plans = candPlans\<rparr>, pc'', bc')
                             else (best, pc'', bc'));
                 (best, pc, bc) = foldl step start [0..<2 ^ length rest]
             in (best, pc, bc(setKey ids \<mapsto> best))))"
  by pat_completeness auto
termination
  by (relation "measure (\<lambda>(_, _, _, _, ids, _). length ids)") (auto simp: fewer_left)

declare bestAssignment.simps [simp del]

definition replica_sort_key :: "PartitionPlan \<Rightarrow> string" where
  "replica_sort_key p = join_bar (NodeIDs p)"

definition SolveReplicas ::
  "NodeProfile list \<Rightarrow> ModelSpec \<Rightarrow> float64 \<Rightarrow> float64 \<Rightarrow> (partition_error, ReplicaPlan) result" where
  "SolveReplicas nodes model bo nb =
     (let present = presentSorted nodes
      in if length present = 0 then Inl NoNodesPresent
         else
           let byID = by_id present;
               all = remdups (map ID present);
               best = fst (bestAssignment byID model bo nb all (Map.empty, Map.empty))
           in if length (plans best) = 0 then Inl NoReplicaFits
              else
                let used = concat (map NodeIDs (plans best));
                    idle = filter (\<lambda>i. i \<notin> set used) (map ID present)
                in Inr \<lparr>Replicas = sort_key replica_sort_key (plans best),
                        AggregateTokensS = agg best, IdleNodeIDs = idle\<rparr>)"



section \<open>The memoised search equals the plain one\<close>

text \<open>The recursion of \<^verbatim>\<open>bestAssignment\<close> without its caches, as the reference.\<close>

function (sequential) best_plain ::
  "(string \<Rightarrow> NodeProfile option) \<Rightarrow> ModelSpec \<Rightarrow> float64 \<Rightarrow> float64 \<Rightarrow> string list \<Rightarrow> assignment" where
  "best_plain byID model bo nb [] = \<lparr>agg = 0, plans = []\<rparr>"
| "best_plain byID model bo nb (first # rest) =
     foldl (\<lambda>best msk.
       case plan_group byID model bo nb (first # masked rest msk) of
         None \<Rightarrow> best
       | Some p \<Rightarrow>
           let sub = best_plain byID model bo nb (filter (\<lambda>i. i \<notin> set (masked rest msk)) rest);
               a = 1000 / TokenMS p + agg sub
           in if improves a (p # plans sub) best then \<lparr>agg = a, plans = p # plans sub\<rparr> else best)
       (best_plain byID model bo nb rest) [0..<2 ^ length rest]"
  by pat_completeness auto
termination
  by (relation "measure (\<lambda>(_, _, _, _, ids). length ids)") (auto simp: le_imp_less_Suc)

definition plain_id :: "string \<Rightarrow> bool" where
  "plain_id i \<longleftrightarrow> i \<noteq> [] \<and> CHR ''|'' \<notin> set i"

definition id_set :: "string list \<Rightarrow> bool" where
  "id_set ids \<longleftrightarrow> sorted_wrt (<) ids \<and> (\<forall>i\<in>set ids. plain_id i)"

lemma join_bar_inj:
  assumes "join_bar xs = join_bar ys" "xs \<noteq> []" "ys \<noteq> []" "\<forall>i\<in>set xs. plain_id i" "\<forall>i\<in>set ys. plain_id i"
  shows "xs = ys"
  using assms
proof (induction xs arbitrary: ys rule: join_bar.induct)
  case (2 k)
  then show ?case
    by (cases ys rule: join_bar.cases) (auto simp: plain_id_def)
next
  case (3 k k' ks)
  show ?case
  proof (cases ys rule: join_bar.cases)
    case (2 j)
    then show ?thesis using 3(2,5,6) by (auto simp: plain_id_def)
  next
    case ys: (3 j j' js)
    have tw: "takeWhile (\<lambda>c. c \<noteq> CHR ''|'') (i @ CHR ''|'' # z) = i" if "plain_id i" for i z
      using that by (auto simp: plain_id_def takeWhile_append2 intro: takeWhile_append2[of i, THEN trans])
    have "k @ CHR ''|'' # join_bar (k' # ks) = j @ CHR ''|'' # join_bar (j' # js)"
      using 3(2) ys by simp
    then have "k = j"
      using tw[of k "join_bar (k' # ks)"] tw[of j "join_bar (j' # js)"] 3(5,6) ys
      by (metis list.set_intros(1))
    then have "join_bar (k' # ks) = join_bar (j' # js)" using 3(2) ys by simp
    then show ?thesis using 3(1)[of "j' # js"] 3(5,6) ys \<open>k = j\<close> by simp
  qed (use 3 in auto)
qed simp

lemma setKey_inj: "setKey xs = setKey ys \<Longrightarrow> xs \<noteq> [] \<Longrightarrow> ys \<noteq> [] \<Longrightarrow> id_set xs \<Longrightarrow> id_set ys \<Longrightarrow> xs = ys"
  using join_bar_inj[of xs ys]
  by (simp add: setKey_def id_set_def sort_key_id_if_sorted strict_sorted_imp_sorted)

lemma set_masked: "set (masked xs m) \<subseteq> set xs"
  by (induction xs m rule: masked.induct) auto

lemma masked_sorted: "sorted_wrt (<) xs \<Longrightarrow> sorted_wrt (<) (masked xs m)"
  using set_masked by (induction xs m rule: masked.induct) fastforce+

lemma id_set_simps:
  "id_set []"
  "id_set (x # xs) \<longleftrightarrow> plain_id x \<and> (\<forall>y\<in>set xs. x < y) \<and> id_set xs"
  "id_set xs \<Longrightarrow> id_set (filter P xs)"
  by (auto simp: id_set_def sorted_wrt_filter)

lemma id_set_group: "id_set (x # xs) \<Longrightarrow> id_set (x # masked xs m)"
  using set_masked[of xs m] by (auto simp: id_set_def masked_sorted)

lemma first_id_sorted:
  assumes "id_set (x # xs)"
  shows "first_id (x # xs) = x" "removeAll x (x # xs) = xs"
proof -
  have "foldl (\<lambda>first i. if first = [] \<or> i < first then i else first) x ys = x"
    if "\<forall>y\<in>set ys. x < y" "x \<noteq> []" for ys
    using that by (induction ys) (auto dest: less_asym)
  then show "first_id (x # xs) = x" using assms by (simp add: first_id_def id_set_simps plain_id_def)
  show "removeAll x (x # xs) = xs" using assms by (auto simp: id_set_simps intro!: removeAll_id)
qed

text \<open>A cache is sound when what it holds for a set of ids is what the function computes.\<close>

definition memo_ok :: "(string list \<Rightarrow> 'a) \<Rightarrow> (string \<Rightarrow> 'a option) \<Rightarrow> bool" where
  "memo_ok f m \<longleftrightarrow> (\<forall>ids p. id_set ids \<longrightarrow> ids \<noteq> [] \<longrightarrow> m (setKey ids) = Some p \<longrightarrow> p = f ids)"

lemma memo_ok_hit: "memo_ok f m \<Longrightarrow> id_set ids \<Longrightarrow> ids \<noteq> [] \<Longrightarrow> m (setKey ids) = Some p \<Longrightarrow> p = f ids"
  by (simp add: memo_ok_def)

lemma memo_ok_upd:
  assumes "memo_ok f m" "id_set ids" "ids \<noteq> []"
  shows "memo_ok f (m(setKey ids \<mapsto> f ids))"
  unfolding memo_ok_def
proof (intro allI impI)
  fix xs p assume xs: "id_set xs" "xs \<noteq> []" "(m(setKey ids \<mapsto> f ids)) (setKey xs) = Some p"
  show "p = f xs"
  proof (cases "setKey xs = setKey ids")
    case True
    then show ?thesis using setKey_inj[OF True xs(2) assms(3) xs(1) assms(2)] xs(3) by simp
  next
    case False
    then show ?thesis using xs memo_ok_hit[OF assms(1)] by simp
  qed
qed

definition caches_ok ::
  "(string \<Rightarrow> NodeProfile option) \<Rightarrow> ModelSpec \<Rightarrow> float64 \<Rightarrow> float64 \<Rightarrow> plan_cache \<times> best_cache \<Rightarrow> bool" where
  "caches_ok byID model bo nb caches \<longleftrightarrow>
     memo_ok (plan_group byID model bo nb) (fst caches) \<and> memo_ok (best_plain byID model bo nb) (snd caches)"

lemma planFor_cached:
  assumes "caches_ok byID model bo nb (pc, bc)" "id_set ids" "ids \<noteq> []"
  shows "\<exists>pc'. planFor byID model bo nb ids pc = (plan_group byID model bo nb ids, pc') \<and>
    caches_ok byID model bo nb (pc', bc)"
  using assms memo_ok_hit[of _ pc ids] memo_ok_upd[of _ pc ids]
  by (cases "pc (setKey ids)") (auto simp: planFor_def caches_ok_def Let_def)

lemma best_cached:
  assumes "caches_ok byID model bo nb (pc, bc)" "id_set ids" "ids \<noteq> []"
  shows "caches_ok byID model bo nb (pc, bc(setKey ids \<mapsto> best_plain byID model bo nb ids))"
  using assms by (auto simp: caches_ok_def intro: memo_ok_upd)

lemma foldl_simulation:
  assumes "\<And>b c x. I c \<Longrightarrow> x \<in> set xs \<Longrightarrow> \<exists>c'. f (b, c) x = (g b x, c') \<and> I c'" and "I c"
  shows "\<exists>c'. foldl f (b, c) xs = (foldl g b xs, c') \<and> I c'"
  using assms
proof (induction xs arbitrary: b c)
  case (Cons x xs)
  then obtain c' where "f (b, c) x = (g b x, c')" "I c'" by (meson list.set_intros(1))
  then show ?case using Cons.IH[of c' "g b x"] Cons.prems(1) by simp
qed simp

lemma bestAssignment_plain:
  assumes "id_set ids" "caches_ok byID model bo nb caches"
  shows "\<exists>caches'. bestAssignment byID model bo nb ids caches = (best_plain byID model bo nb ids, caches') \<and>
    caches_ok byID model bo nb caches'"
  using assms
proof (induction "length ids" arbitrary: ids caches rule: less_induct)
  case less
  let ?ok = "caches_ok byID model bo nb" and ?B = "bestAssignment byID model bo nb" and ?P = "best_plain byID model bo nb"
  show ?case
  proof (cases "ids = [] \<or> snd caches (setKey ids) \<noteq> None")
    case True
    then show ?thesis
      using less.prems memo_ok_hit[of "best_plain byID model bo nb" "snd caches" ids]
      by (cases caches) (auto simp: caches_ok_def bestAssignment.simps[of _ _ _ _ ids])
  next
    case False
    then have ne: "(ids = []) = False" by simp
    from False obtain x xs where ids: "ids = x # xs" and miss: "snd caches (setKey ids) = None" by (cases ids) auto
    have first: "first_id ids = x" "removeAll x ids = xs"
      using first_id_sorted less.prems(1) ids by blast+
    have IH: "\<exists>c'. ?B ys c = (?P ys, c') \<and> ?ok c'" if "length ys < length ids" "id_set ys" "?ok c" for ys c
      using less.hyps that by blast
    let ?f = "(\<lambda>(best, pc, bc) msk.
        let group = x # masked xs msk; (plan, pc') = planFor byID model bo nb group pc
        in case plan of None \<Rightarrow> (best, pc', bc)
           | Some p \<Rightarrow>
               let (sub, pc'', bc') = ?B (filter (\<lambda>i. i \<notin> set group) ids) (pc', bc);
                   a = 1000 / TokenMS p + agg sub; candPlans = p # plans sub
               in if improves a candPlans best then (\<lparr>agg = a, plans = candPlans\<rparr>, pc'', bc')
                  else (best, pc'', bc'))"
    let ?g = "\<lambda>best msk. case plan_group byID model bo nb (x # masked xs msk) of None \<Rightarrow> best
        | Some p \<Rightarrow> let sub = ?P (filter (\<lambda>i. i \<notin> set (masked xs msk)) xs); a = 1000 / TokenMS p + agg sub
            in if improves a (p # plans sub) best then \<lparr>agg = a, plans = p # plans sub\<rparr> else best"
    have step: "\<exists>c'. ?f (b, c) m = (?g b m, c') \<and> ?ok c'" if c: "?ok c" for b c m
    proof -
      obtain pc bc where [simp]: "c = (pc, bc)" by (cases c)
      obtain pc' where pf: "planFor byID model bo nb (x # masked xs m) pc = (plan_group byID model bo nb (x # masked xs m), pc')"
        "?ok (pc', bc)"
        using planFor_cached[of byID model bo nb pc bc "x # masked xs m"] c id_set_group less.prems(1) ids by auto
      let ?rem = "filter (\<lambda>i. i \<notin> set (masked xs m)) xs"
      have rem: "filter (\<lambda>i. i \<notin> set (x # masked xs m)) ids = ?rem"
        using less.prems(1) by (auto simp: ids id_set_simps intro!: filter_cong)
      have "length ?rem < length ids" "id_set ?rem"
        using less.prems(1) by (auto simp: ids id_set_simps le_imp_less_Suc)
      then obtain c' where "?B ?rem (pc', bc) = (?P ?rem, c')" "?ok c'" using IH pf(2) by blast
      then show ?thesis using pf by (cases c') (auto simp: Let_def rem simp del: set_simps split: option.splits)
    qed
    obtain c0 where c0: "?B xs caches = (?P xs, c0)" "?ok c0"
      using IH[of xs caches] less.prems by (auto simp: ids id_set_simps)
    obtain c1 where "foldl ?f (?P xs, c0) [0..<2 ^ length xs] = (?P ids, c1)" "?ok c1"
      using foldl_simulation[of ?ok "[0..<2 ^ length xs]" ?f ?g c0 "?P xs"] step c0(2)
      unfolding ids best_plain.simps by blast
    moreover have "?B ids caches =
        (let (best, pc, bc) = foldl ?f (?B xs caches) [0..<2 ^ length xs] in (best, pc, bc(setKey ids \<mapsto> best)))"
      using miss by (subst bestAssignment.simps) (simp only: Let_def first option.case if_False ne)
    ultimately show ?thesis
      using c0 best_cached[of byID model bo nb "fst c1" "snd c1" ids] less.prems(1)
      by (cases c1) (simp add: ids)
  qed
qed



section \<open>Soundness of the replica search\<close>

definition pool_ids :: "NodeProfile list \<Rightarrow> bool" where
  "pool_ids nodes \<longleftrightarrow> distinct (map ID (presentSorted nodes)) \<and> (\<forall>n\<in>set (presentSorted nodes). plain_id (ID n))"

lemma presentSorted_sorted: "sorted (map ID (presentSorted nodes))"
  by (simp add: presentSorted_def)

lemma pool_id_set: "pool_ids nodes \<Longrightarrow> id_set (map ID (presentSorted nodes))"
  using presentSorted_sorted[of nodes] by (auto simp: pool_ids_def id_set_def strict_sorted_iff)

lemma foldl_upd_frame: "i \<notin> ID ` set ns \<Longrightarrow> foldl (\<lambda>m n. m(ID n \<mapsto> n)) m ns i = m i"
  by (induction ns arbitrary: m) auto

lemma by_id_lookup: "distinct (map ID ns) \<Longrightarrow> n \<in> set ns \<Longrightarrow> by_id ns (ID n) = Some n"
proof -
  have "foldl (\<lambda>m n. m(ID n \<mapsto> n)) m ns (ID n) = Some n" if "distinct (map ID ns)" "n \<in> set ns" for m
    using that by (induction ns arbitrary: m) (auto simp: foldl_upd_frame)
  then show "distinct (map ID ns) \<Longrightarrow> n \<in> set ns \<Longrightarrow> ?thesis" by (simp add: by_id_def)
qed

text \<open>A group is the sub-pool of the present nodes with those ids, in pipeline order.\<close>

lemma group_filter:
  assumes "pool_ids nodes" "id_set ids" "set ids \<subseteq> ID ` set (presentSorted nodes)"
  shows "map (\<lambda>i. the (by_id (presentSorted nodes) i)) ids = filter (\<lambda>n. ID n \<in> set ids) (presentSorted nodes)"
proof -
  let ?P = "presentSorted nodes" and ?g = "\<lambda>i. the (by_id (presentSorted nodes) i)"
  have look: "?g (ID n) = n" if "n \<in> set ?P" for n
    using by_id_lookup that assms(1) by (simp add: pool_ids_def)
  then have ID: "ID (?g i) = i" if "i \<in> set ids" for i using assms(3) that by fastforce
  have m: "map ID (map ?g ids) = ids" using ID by (simp add: map_idI)
  have sub: "set (map ?g ids) \<subseteq> set ?P" using look assms(3) by fastforce
  show ?thesis
  proof (rule map_sorted_distinct_set_unique[where f = ID])
    show "inj_on ID (set (map ?g ids) \<union> set (filter (\<lambda>n. ID n \<in> set ids) ?P))"
      using assms(1) sub by (auto simp: pool_ids_def distinct_map intro: inj_on_subset)
    show "set (map ?g ids) = set (filter (\<lambda>n. ID n \<in> set ids) ?P)"
      using look assms(3) by fastforce
    show "sorted (map ID (map ?g ids))" "distinct (map ID (map ?g ids))"
      unfolding m using assms(2) by (auto simp: id_set_def strict_sorted_iff)
    show "sorted (map ID (filter (\<lambda>n. ID n \<in> set ids) ?P))"
      by (rule sorted_filter[OF presentSorted_sorted])
    show "distinct (map ID (filter (\<lambda>n. ID n \<in> set ids) ?P))"
      using assms(1) by (simp add: pool_ids_def distinct_map_filter)
  qed
qed

lemma presentSorted_filter: "presentSorted (filter P (presentSorted nodes)) = filter P (presentSorted nodes)"
proof -
  have "filter (\<lambda>n. \<not> Absent n) (filter P (presentSorted nodes)) = filter P (presentSorted nodes)"
    by (auto simp: filter_empty_conv filter_id_conv simp del: filter_filter)
  moreover have "sorted (map ID (filter P (presentSorted nodes)))"
    by (rule sorted_filter[OF presentSorted_sorted])
  ultimately show ?thesis by (simp add: presentSorted_def sort_key_id_if_sorted sorted_map)
qed

lemma admissible_subpool: "admissible model bo nb (filter P (presentSorted nodes)) p \<Longrightarrow> admissible model bo nb nodes p"
  unfolding admissible_def presentSorted_filter
  by (meson in_set_subseqs subseq_filter_left subseq_order.trans)

lemma plan_group_sound:
  assumes "valid_model model" "present_profiled nodes" "pool_ids nodes" "id_set ids"
    "set ids \<subseteq> ID ` set (presentSorted nodes)" "plan_group (by_id (presentSorted nodes)) model bo nb ids = Some p"
  shows "admissible model bo nb nodes p \<and> set (NodeIDs p) \<subseteq> set ids \<and> distinct (NodeIDs p)"
proof -
  let ?G = "filter (\<lambda>n. ID n \<in> set ids) (presentSorted nodes)"
  obtain r where r: "Solve ?G model bo nb None False = Inr r" "p = Plan r"
    using assms(6) by (auto simp: plan_group_def group_filter[OF assms(3-5)] split: sum.splits)
  have "present_profiled ?G" using assms(2) by auto
  then have a: "admissible model bo nb ?G p"
    using chosenD[OF solve_plan_chosen[OF assms(1) _ Solve_plan[OF r(1)]]] r(2) by blast
  then obtain sub where "subseq sub ?G" "plan_on model bo nb sub p"
    unfolding admissible_def presentSorted_filter by auto
  moreover from this have "subseq (map ID sub) (map ID ?G)" by (intro subseq_map)
  moreover have "distinct (map ID ?G)" using assms(3) by (simp add: pool_ids_def distinct_map_filter)
  ultimately have "distinct (NodeIDs p)" using plan_on_stages subseqs_distinctD by (metis in_set_subseqs)
  moreover have "set (NodeIDs p) \<subseteq> set ids" using admissible_nodes[OF a] by auto
  ultimately show ?thesis using admissible_subpool[OF a] by blast
qed

definition sound_assignment ::
  "ModelSpec \<Rightarrow> float64 \<Rightarrow> float64 \<Rightarrow> NodeProfile list \<Rightarrow> string list \<Rightarrow> assignment \<Rightarrow> bool" where
  "sound_assignment model bo nb nodes ids a \<longleftrightarrow>
     distinct (concat (map NodeIDs (plans a))) \<and> set (concat (map NodeIDs (plans a))) \<subseteq> set ids \<and>
     (\<forall>p\<in>set (plans a). admissible model bo nb nodes p) \<and> agg a = sum_list (map (\<lambda>p. 1000 / TokenMS p) (plans a))"

lemma foldl_invariant: "I b \<Longrightarrow> (\<And>b x. I b \<Longrightarrow> x \<in> set xs \<Longrightarrow> I (f b x)) \<Longrightarrow> I (foldl f b xs)"
  by (induction xs arbitrary: b) auto

lemma best_plain_sound:
  assumes "valid_model model" "present_profiled nodes" "pool_ids nodes" "id_set ids"
    "set ids \<subseteq> ID ` set (presentSorted nodes)"
  shows "sound_assignment model bo nb nodes ids (best_plain (by_id (presentSorted nodes)) model bo nb ids)"
  using assms(4,5)
proof (induction "length ids" arbitrary: ids rule: less_induct)
  case less
  let ?S = "sound_assignment model bo nb nodes" and ?P = "best_plain (by_id (presentSorted nodes)) model bo nb"
  show ?case
  proof (cases ids)
    case Nil
    then show ?thesis by (simp add: sound_assignment_def)
  next
    case (Cons x xs)
    have IH: "?S (filter Q xs) (?P (filter Q xs))" for Q
      using less.hyps[of "filter Q xs"] less.prems by (auto simp: Cons id_set_simps le_imp_less_Suc)
    show ?thesis
      unfolding Cons best_plain.simps
    proof (rule foldl_invariant)
      show "?S (x # xs) (?P xs)" using IH[of "\<lambda>_. True"] by (auto simp: sound_assignment_def)
      fix b m assume b: "?S (x # xs) b"
      let ?G = "x # masked xs m" and ?sub = "?P (filter (\<lambda>i. i \<notin> set (masked xs m)) xs)"
      have g: "id_set ?G" "set ?G \<subseteq> ID ` set (presentSorted nodes)"
        using less.prems id_set_group set_masked[of xs m] by (auto simp: Cons)
      have "?S (x # xs) \<lparr>agg = 1000 / TokenMS p + agg ?sub, plans = p # plans ?sub\<rparr>"
        if "plan_group (by_id (presentSorted nodes)) model bo nb ?G = Some p" for p
        using plan_group_sound[OF assms(1-3) g that] IH[of "\<lambda>i. i \<notin> set (masked xs m)"] set_masked[of xs m] less.prems(1)
        by (auto simp: sound_assignment_def Cons id_set_simps)
      then show "?S (x # xs) (case plan_group (by_id (presentSorted nodes)) model bo nb ?G of None \<Rightarrow> b
         | Some p \<Rightarrow> let sub = ?sub; a = 1000 / TokenMS p + agg sub
             in if improves a (p # plans sub) b then \<lparr>agg = a, plans = p # plans sub\<rparr> else b)"
        using b by (auto simp: Let_def split: option.splits)
    qed
  qed
qed

lemma caches_ok_empty: "caches_ok byID model bo nb (Map.empty, Map.empty)"
  by (simp add: caches_ok_def memo_ok_def)

lemma bestAssignment_fresh:
  "id_set ids \<Longrightarrow> fst (bestAssignment byID model bo nb ids (Map.empty, Map.empty)) = best_plain byID model bo nb ids"
  using bestAssignment_plain[OF _ caches_ok_empty] by (metis fst_conv)

lemma SolveReplicas_run:
  assumes "pool_ids nodes"
  shows "SolveReplicas nodes model bo nb =
    (if presentSorted nodes = [] then Inl NoNodesPresent
     else let best = best_plain (by_id (presentSorted nodes)) model bo nb (map ID (presentSorted nodes))
          in if plans best = [] then Inl NoReplicaFits
             else Inr \<lparr>Replicas = sort_key replica_sort_key (plans best), AggregateTokensS = agg best,
               IdleNodeIDs = filter (\<lambda>i. i \<notin> set (concat (map NodeIDs (plans best)))) (map ID (presentSorted nodes))\<rparr>)"
  using assms by (simp add: SolveReplicas_def Let_def pool_ids_def bestAssignment_fresh[OF pool_id_set[OF assms]]
      distinct_remdups_id)

lemma masked_all: "masked xs (2 ^ length xs - 1) = xs"
proof (induction xs)
  case (Cons x xs)
  have "(1 :: nat) \<le> 2 ^ length xs" by simp
  then have "(2 ^ length (x # xs) - 1 :: nat) = 2 * (2 ^ length xs - 1) + 1"
    unfolding length_Cons power_Suc by linarith
  moreover have "(2 * (2 ^ length xs - 1) + 1 :: nat) mod 2 = 1" "(2 * (2 ^ length xs - 1) + 1 :: nat) div 2 = 2 ^ length xs - 1"
    by presburger+
  ultimately show ?case using Cons.IH by (simp only: masked.simps) simp
qed simp

lemma layer_ms_pos: "valid_model model \<Longrightarrow> profiled n \<Longrightarrow> 0 < layer_ms model n"
  by (auto simp: layer_ms_def profiled_def valid_model_def GBPerLayerTotal_def add_pos_nonneg)

lemma plan_on_cost: "plan_on model bo nb sub p \<Longrightarrow> \<exists>cs. feasible model sub cs \<and>
    TokenMS p = compute_ms model sub cs + of_int (int (length sub) - 1) * bo"
  by (auto simp: plan_on_def)

lemma admissible_pos:
  assumes "valid_model model" "present_profiled nodes" "0 \<le> bo" "admissible model bo nb nodes p"
  shows "0 < TokenMS p"
proof -
  obtain sub cs where s: "sub \<in> set (subseqs (presentSorted nodes))" "plan_on model bo nb sub p" "feasible model sub cs"
      "TokenMS p = compute_ms model sub cs + of_int (int (length sub) - 1) * bo"
    using assms(4) plan_on_cost unfolding admissible_def by metis
  have "set sub \<subseteq> set (presentSorted nodes)"
    using s(1) subseqs_powset[of "presentSorted nodes"] by blast
  then have "\<forall>i<length sub. profiled (sub ! i)" using assms(2) nth_mem by fastforce
  moreover have ne: "0 < length sub" using plan_on_nonempty[OF assms(1) s(2)] by simp
  ultimately have "0 < compute_ms model sub cs"
    unfolding compute_ms_def using s(3) layer_ms_pos[OF assms(1)]
    by (intro sum_pos mult_pos_pos) (force simp: feasible_def)+
  moreover have "0 \<le> of_int (int (length sub) - 1) * bo"
    using ne assms(3) by (intro mult_nonneg_nonneg) (auto simp: Suc_le_eq)
  ultimately show ?thesis unfolding s(4) by (rule add_pos_nonneg)
qed

lemma best_plain_finds:
  assumes "plan_group byID model bo nb (x # xs) = Some p" "0 < TokenMS p" "TokenMS p < 10 ^ 12"
    and agg0: "\<And>b. plans b = [] \<Longrightarrow> I b \<Longrightarrow> agg b = 0"
    and I: "I (best_plain byID model bo nb xs)" "\<And>b m. I b \<Longrightarrow>
      I (case plan_group byID model bo nb (x # masked xs m) of
         None \<Rightarrow> b
       | Some p \<Rightarrow>
           let sub = best_plain byID model bo nb (filter (\<lambda>i. i \<notin> set (masked xs m)) xs);
               a = 1000 / TokenMS p + agg sub
           in if improves a (p # plans sub) b then \<lparr>agg = a, plans = p # plans sub\<rparr> else b)"
  shows "plans (best_plain byID model bo nb (x # xs)) \<noteq> []"
proof -
  define f where "f = (\<lambda>b m. case plan_group byID model bo nb (x # masked xs m) of None \<Rightarrow> b
       | Some p \<Rightarrow> let sub = best_plain byID model bo nb (filter (\<lambda>i. i \<notin> set (masked xs m)) xs);
               a = 1000 / TokenMS p + agg sub
           in if improves a (p # plans sub) b then \<lparr>agg = a, plans = p # plans sub\<rparr> else b)"
  define m :: nat where "m = 2 ^ length xs - 1"
  define b where "b = foldl f (best_plain byID model bo nb xs) [0..<m]"
  have split: "[0..<2 ^ length xs] = [0..<m] @ [m]"
    unfolding m_def by (metis Suc_pred' le0 pos2 upt_Suc_append zero_less_power)
  have "I b" unfolding b_def by (rule foldl_invariant) (use I in \<open>auto simp: f_def\<close>)
  moreover have "1000 / TokenMS p > 1 / 10 ^ 9"
    using assms(2,3) by (simp add: field_simps)
  moreover have "f b m = (let a = 1000 / TokenMS p in if improves a [p] b then \<lparr>agg = a, plans = [p]\<rparr> else b)"
    using assms(1) by (simp add: f_def m_def masked_all[simplified] Let_def)
  ultimately have "plans (f b m) \<noteq> []"
    using agg0[of b] by (auto simp: Let_def improves_def)
  moreover have "best_plain byID model bo nb (x # xs) = f b m"
    unfolding best_plain.simps split f_def[symmetric] b_def by simp
  ultimately show ?thesis by simp
qed

lemma best_plain_nonempty:
  assumes "valid_model model" "present_profiled nodes" "pool_ids nodes" "id_set (x # xs)"
    "set (x # xs) \<subseteq> ID ` set (presentSorted nodes)"
    "plan_group (by_id (presentSorted nodes)) model bo nb (x # xs) = Some p" "0 < TokenMS p" "TokenMS p < 10 ^ 12"
  shows "plans (best_plain (by_id (presentSorted nodes)) model bo nb (x # xs)) \<noteq> []"
proof (rule best_plain_finds[where I = "\<lambda>b. plans b = [] \<longrightarrow> agg b = 0", OF assms(6-8)])
  show "plans (best_plain (by_id (presentSorted nodes)) model bo nb xs) = [] \<longrightarrow>
      agg (best_plain (by_id (presentSorted nodes)) model bo nb xs) = 0"
    using best_plain_sound[OF assms(1-3), of xs bo nb] assms(4,5) by (auto simp: sound_assignment_def id_set_simps)
qed (auto simp: Let_def split: option.splits)

lemma sum_list_perm: "mset xs = mset ys \<Longrightarrow> sum_list (map f xs) = (sum_list (map f ys) :: real)"
proof -
  assume "mset xs = mset ys"
  then have "sum_mset (mset (map f xs)) = sum_mset (mset (map f ys))" by simp
  then show ?thesis unfolding sum_mset_sum_list .
qed

lemma all_group: "pool_ids nodes \<Longrightarrow>
    map (\<lambda>i. the (by_id (presentSorted nodes) i)) (map ID (presentSorted nodes)) = presentSorted nodes"
  by (auto simp: pool_ids_def by_id_lookup intro!: map_idI)

lemma presentSorted_idem: "presentSorted (presentSorted nodes) = presentSorted nodes"
  using presentSorted_filter[of "\<lambda>_. True"] by simp

text \<open>Whatever plan the pool has, the group of all nodes already yields a replica.\<close>

lemma SolveReplicas_succeeds:
  assumes "valid_model model" "present_profiled nodes" "pool_ids nodes" "\<forall>n\<in>set nodes. 0 \<le> ModelMemCapGB n"
    "0 \<le> bo" "\<forall>p. admissible model bo nb nodes p \<longrightarrow> TokenMS p < 10 ^ 12" "admissible model bo nb nodes q"
  shows "\<exists>r. SolveReplicas nodes model bo nb = Inr r"
proof -
  let ?P = "presentSorted nodes"
  note q = assms(7)
  then have q': "admissible model bo nb ?P q" by (simp add: admissible_def presentSorted_idem)
  have P: "present_profiled ?P" "\<forall>n\<in>set ?P. 0 \<le> ModelMemCapGB n" using assms(2,4) by auto
  obtain p where p: "solve_plan ?P model bo nb None = Inr p"
    using solve_plan_fails[OF assms(1) P] q' by (cases "solve_plan ?P model bo nb None") auto
  have adm: "admissible model bo nb nodes p"
    using chosenD[OF solve_plan_chosen[OF assms(1) P(1) p]] by (simp add: admissible_def presentSorted_idem)
  have g: "plan_group (by_id ?P) model bo nb (map ID ?P) = Some p"
    by (simp only: plan_group_def all_group[OF assms(3)]) (simp add: Solve_def p)
  obtain n ns where ns: "?P = n # ns"
    using admissible_fits[OF assms(1,4) q] by (cases ?P) auto
  have "plans (best_plain (by_id ?P) model bo nb (map ID ?P)) \<noteq> []"
    using best_plain_nonempty[OF assms(1-3), of "ID n" "map ID ns" bo nb p] pool_id_set[OF assms(3)] g
      admissible_pos[OF assms(1,2,5) adm] assms(6) adm
    by (auto simp: ns)
  then show ?thesis
    unfolding SolveReplicas_run[OF assms(3)] by (simp add: ns Let_def)
qed

lemma demo_sorted: "presentSorted demo_nodes = rev demo_nodes"
  by (simp add: presentSorted_def demo_nodes_def)

lemma demo_pool: "pool_ids demo_nodes"
  unfolding pool_ids_def demo_sorted by (simp add: demo_nodes_def plain_id_def)

lemma demo_bound:
  assumes "admissible demo_model 1 (1 / 2) demo_nodes p"
  shows "TokenMS p < 10 ^ 12"
proof -
  obtain sub cs where s: "sub \<in> set (subseqs (rev demo_nodes))" "feasible demo_model sub cs"
      "TokenMS p = compute_ms demo_model sub cs + of_int (int (length sub) - 1) * 1"
    using assms plan_on_cost unfolding admissible_def demo_sorted by metis
  let ?ms = "\<lambda>i. layer_ms demo_model (sub ! i)"
  have "set sub \<subseteq> set demo_nodes"
    using s(1) subseqs_powset[of "rev demo_nodes"] by (metis PowD image_eqI set_rev)
  moreover have "\<forall>n\<in>set demo_nodes. layer_ms demo_model n \<le> 2"
    by (simp add: demo_nodes_def layer_ms_def)
  ultimately have ms: "?ms i \<le> 2" if "i < length sub" for i using that nth_mem by blast
  have cs: "0 \<le> cs ! i" if "i < length sub" for i using s(2) that by (force simp: feasible_def)
  have "length sub \<le> length (rev demo_nodes)"
    by (rule list_emb_length) (use s(1) in simp)
  then have len: "length sub \<le> 2" by (simp add: demo_nodes_def)
  have "compute_ms demo_model sub cs \<le> (\<Sum>i<length sub. of_int (cs ! i) * 2)"
    unfolding compute_ms_def using ms cs by (intro sum_mono mult_left_mono) auto
  also have "\<dots> = of_int (sum_list cs) * 2"
    using s(2) by (simp add: feasible_def sum_list_idx sum_distrib_right)
  also have "\<dots> = 20" using s(2) by (simp add: feasible_def demo_model_def)
  finally show ?thesis using s(3) len by simp
qed

lemma demo_replicas: "\<exists>r. SolveReplicas demo_nodes demo_model 1 (1 / 2) = Inr r"
proof -
  obtain r where "Solve demo_nodes demo_model 1 (1 / 2) None True = Inr r" using demo_solved by blast
  note a = chosenD[OF solve_plan_chosen[OF demo_ok(1,2) Solve_plan[OF this]]]
  show ?thesis
    by (rule SolveReplicas_succeeds[OF demo_ok(1,2) demo_pool demo_ok(3) _ _ a]) (auto simp: demo_bound[simplified])
qed



section \<open>Properties of the replica search\<close>

text \<open>
  C26. The two caches of \<^verbatim>\<open>SolveReplicas\<close> do not change its answer: for node ids that are non-empty and
  free of the separator \<^verbatim>\<open>|\<close> (so that \<^verbatim>\<open>setKey\<close> identifies a set), the memoised search started with
  empty caches returns what the plain recursion returns.
\<close>

theorem bestAssignment_memo:
  assumes "id_set ids"
  shows "fst (bestAssignment byID model bo nb ids (Map.empty, Map.empty)) = best_plain byID model bo nb ids"
  by (rule bestAssignment_fresh[OF assms])

theorem bestAssignment_memo_witness:
  "fst (bestAssignment (by_id demo_nodes) demo_model 1 (1 / 2) [''a'', ''b''] (Map.empty, Map.empty)) =
     best_plain (by_id demo_nodes) demo_model 1 (1 / 2) [''a'', ''b'']"
  by (rule bestAssignment_memo) (simp add: id_set_def plain_id_def)

text \<open>
  A replica plan is sound: it has at least one replica, no node serves in two replicas (nor twice
  in one), every replica is an admissible plan of the pool, the aggregate is the sum of the replicas'
  single-stream speeds, and the idle nodes are exactly the present nodes no replica uses.
\<close>

theorem SolveReplicas_sound:
  assumes "valid_model model" "present_profiled nodes" "pool_ids nodes" "SolveReplicas nodes model bo nb = Inr r"
  shows "Replicas r \<noteq> [] \<and> distinct (concat (map NodeIDs (Replicas r))) \<and>
    (\<forall>p\<in>set (Replicas r). admissible model bo nb nodes p) \<and>
    AggregateTokensS r = sum_list (map (\<lambda>p. 1000 / TokenMS p) (Replicas r)) \<and>
    set (IdleNodeIDs r) = ID ` set (presentSorted nodes) - (\<Union>p\<in>set (Replicas r). set (NodeIDs p))"
proof -
  define b where "b = best_plain (by_id (presentSorted nodes)) model bo nb (map ID (presentSorted nodes))"
  have s: "sound_assignment model bo nb nodes (map ID (presentSorted nodes)) b"
    unfolding b_def by (rule best_plain_sound[OF assms(1-3) pool_id_set[OF assms(3)]]) simp
  have r: "plans b \<noteq> []" "Replicas r = sort_key replica_sort_key (plans b)" "AggregateTokensS r = agg b"
    "IdleNodeIDs r = filter (\<lambda>i. i \<notin> set (concat (map NodeIDs (plans b)))) (map ID (presentSorted nodes))"
    using assms(4) unfolding SolveReplicas_run[OF assms(3)] b_def[symmetric] by (auto simp: Let_def split: if_splits)
  have perm: "mset (Replicas r) = mset (plans b)" by (simp add: r(2))
  then have "mset (concat (map NodeIDs (Replicas r))) = mset (concat (map NodeIDs (plans b)))"
    by (simp add: mset_concat mset_map[symmetric] del: mset_map)
       (metis (no_types, lifting) mset_map sum_mset_sum_list)
  then have "distinct (concat (map NodeIDs (Replicas r)))"
    using s mset_eq_imp_distinct_iff unfolding sound_assignment_def by blast
  moreover have "sum_list (map (\<lambda>p. 1000 / TokenMS p) (Replicas r)) = sum_list (map (\<lambda>p. 1000 / TokenMS p) (plans b))"
    by (rule sum_list_perm[OF perm])
  moreover have "set (Replicas r) = set (plans b)" by (simp add: r(2))
  moreover have "Replicas r \<noteq> []" using perm r(1) by auto
  moreover have "set (IdleNodeIDs r) = ID ` set (presentSorted nodes) - (\<Union>p\<in>set (plans b). set (NodeIDs p))"
    unfolding r(4) by auto
  ultimately show ?thesis using s r(3) unfolding sound_assignment_def by simp
qed

theorem SolveReplicas_sound_witness:
  "\<exists>r. SolveReplicas demo_nodes demo_model 1 (1 / 2) = Inr r \<and> Replicas r \<noteq> [] \<and>
     distinct (concat (map NodeIDs (Replicas r)))"
  using SolveReplicas_sound[OF demo_ok(1,2) demo_pool] demo_replicas by blast

text \<open>
  Replicas are found whenever the model fits at all: with non-negative caps and boundary cost, and
  no plan slower than \<open>10\<^sup>12\<close> ms per token (below which a speed exceeds the tolerance of the comparison),
  \<^verbatim>\<open>SolveReplicas\<close> succeeds exactly when the pool has an admissible plan.
\<close>

theorem SolveReplicas_complete:
  assumes "valid_model model" "present_profiled nodes" "pool_ids nodes" "\<forall>n\<in>set nodes. 0 \<le> ModelMemCapGB n"
    "0 \<le> bo" "\<forall>p. admissible model bo nb nodes p \<longrightarrow> TokenMS p < 10 ^ 12"
  shows "(\<exists>r. SolveReplicas nodes model bo nb = Inr r) \<longleftrightarrow> (\<exists>p. admissible model bo nb nodes p)"
proof
  assume "\<exists>r. SolveReplicas nodes model bo nb = Inr r"
  then have "plans (best_plain (by_id (presentSorted nodes)) model bo nb (map ID (presentSorted nodes))) \<noteq> []"
    unfolding SolveReplicas_run[OF assms(3)] by (auto simp: Let_def split: if_splits)
  moreover have "sound_assignment model bo nb nodes (map ID (presentSorted nodes))
      (best_plain (by_id (presentSorted nodes)) model bo nb (map ID (presentSorted nodes)))"
    by (rule best_plain_sound[OF assms(1-3) pool_id_set[OF assms(3)]]) simp
  ultimately show "\<exists>p. admissible model bo nb nodes p"
    unfolding sound_assignment_def by (meson last_in_set)
next
  assume "\<exists>p. admissible model bo nb nodes p"
  then show "\<exists>r. SolveReplicas nodes model bo nb = Inr r"
    using SolveReplicas_succeeds[OF assms] by blast
qed

theorem SolveReplicas_complete_witness:
  "(\<exists>r. SolveReplicas demo_nodes demo_model 1 (1 / 2) = Inr r) \<longleftrightarrow>
     (\<exists>p. admissible demo_model 1 (1 / 2) demo_nodes p)"
  by (rule SolveReplicas_complete[OF demo_ok(1,2) demo_pool demo_ok(3)]) (use demo_bound in auto)

end
