(* ===== verification/Role_Plan.thy ===== *)
theory Role_Plan
  imports Partition_Roles
begin

text \<open>
  \<^verbatim>\<open>SolveRoles\<close> of \<^verbatim>\<open>internal/partitioner/solver.go\<close>: nodes reserved for the prefill and draft roles
  beside the decode pipeline, and \<^verbatim>\<open>BackendsFromRolePlan\<close> of \<^verbatim>\<open>internal/gateway/roleplan.go\<close>, which
  turns such a plan into endpoints. The empty string is the unset node id, as in the code. The loop
  over the candidate reservations is \<open>role_loop\<close>; its body is \<open>try_reservation\<close>.
\<close>


section \<open>Definitions\<close>

record RoleDemand =
  PrefillModel :: "ModelSpec option"
  DraftModel :: "ModelSpec option"
  DraftLeadFactor :: float64

definition leadFactor :: "RoleDemand \<Rightarrow> float64" where
  "leadFactor d = (if DraftLeadFactor d = 0 then 2 else DraftLeadFactor d)"

record RolePlan =
  Decode :: PartitionResult
  PrefillNodeID :: string
  DraftNodeID :: string
  DraftMS :: float64
  RIdleNodeIDs :: "string list"

definition residentMS :: "NodeProfile \<Rightarrow> ModelSpec \<Rightarrow> (partition_error, float64) result" where
  "residentMS node model = StageMS node (NLayers model) (GBPerLayerTotal model)"

definition fitsRoles :: "NodeProfile \<Rightarrow> ModelSpec list \<Rightarrow> bool" where
  "fitsRoles node models \<longleftrightarrow> ModelMemCapGB node \<ge> foldl (\<lambda>s m. s + TotalGB m) 0 models"

definition reservations :: "NodeProfile list \<Rightarrow> RoleDemand \<Rightarrow> (string \<times> string) list" where
  "reservations present demand =
     (case (PrefillModel demand, DraftModel demand) of
        (Some pm, Some dm) \<Rightarrow>
          map (\<lambda>n. (ID n, ID n)) (filter (\<lambda>n. fitsRoles n [pm, dm]) present) @
          concat (map (\<lambda>p. map (\<lambda>d. (ID p, ID d))
            (filter (\<lambda>d. ID p \<noteq> ID d \<and> fitsRoles p [pm] \<and> fitsRoles d [dm]) present)) present)
      | (Some pm, None) \<Rightarrow> map (\<lambda>n. (ID n, [])) (filter (\<lambda>n. fitsRoles n [pm]) present)
      | (None, Some dm) \<Rightarrow> map (\<lambda>n. ([], ID n)) (filter (\<lambda>n. fitsRoles n [dm]) present)
      | (None, None) \<Rightarrow> [])"

definition reserved_ids :: "string \<times> string \<Rightarrow> string list" where
  "reserved_ids r = remdups (filter (\<lambda>i. i \<noteq> []) [fst r, snd r])"

definition idle_ids :: "NodeProfile list \<Rightarrow> string list \<Rightarrow> string list" where
  "idle_ids present used = filter (\<lambda>i. i \<notin> set used) (map ID present)"

record scored =
  sc_tokenMS :: float64
  sc_nReserved :: nat
  sc_prefillMS :: float64
  sc_plan :: RolePlan

definition draft_check ::
  "(string \<Rightarrow> NodeProfile option) \<Rightarrow> RoleDemand \<Rightarrow> string \<Rightarrow> float64 \<Rightarrow> (partition_error, float64) result" where
  "draft_check byID demand draft tokenMS =
     (if draft = [] then Inr 0
      else case residentMS (the (byID draft)) (the (DraftModel demand)) of
             Inl e \<Rightarrow> Inl e
           | Inr draftMS \<Rightarrow>
               if draftMS * leadFactor demand > tokenMS then Inl (DraftTooSlow draft) else Inr draftMS)"

definition prefill_check ::
  "(string \<Rightarrow> NodeProfile option) \<Rightarrow> RoleDemand \<Rightarrow> string \<Rightarrow> (partition_error, float64) result" where
  "prefill_check byID demand prefill =
     (if prefill = [] then Inr 0 else residentMS (the (byID prefill)) (the (PrefillModel demand)))"

definition try_reservation ::
  "NodeProfile list \<Rightarrow> ModelSpec \<Rightarrow> float64 \<Rightarrow> RoleDemand \<Rightarrow> float64 \<Rightarrow> float64 option \<Rightarrow> string \<times> string
     \<Rightarrow> (partition_error, scored) result" where
  "try_reservation present decodeModel bo demand nb minUsable r =
     (let decodePool = filter (\<lambda>n. ID n \<notin> set (reserved_ids r)) present
      in case Solve decodePool decodeModel bo nb minUsable True of
           Inl e \<Rightarrow> Inl e
         | Inr decode \<Rightarrow>
             (case draft_check (by_id present) demand (snd r) (TokenMS (Plan decode)) of
                Inl e \<Rightarrow> Inl e
              | Inr draftMS \<Rightarrow>
                  (case prefill_check (by_id present) demand (fst r) of
                     Inl e \<Rightarrow> Inl e
                   | Inr prefillMS \<Rightarrow>
                       Inr \<lparr>sc_tokenMS = TokenMS (Plan decode), sc_nReserved = length (reserved_ids r),
                            sc_prefillMS = prefillMS,
                            sc_plan = \<lparr>Decode = decode, PrefillNodeID = fst r, DraftNodeID = snd r,
                              DraftMS = draftMS,
                              RIdleNodeIDs = idle_ids present (NodeIDs (Plan decode) @ reserved_ids r)\<rparr>\<rparr>)))"

definition beats :: "scored \<Rightarrow> scored \<Rightarrow> bool" where
  "beats cand best \<longleftrightarrow> sc_tokenMS cand < sc_tokenMS best \<or>
     (sc_tokenMS cand = sc_tokenMS best \<and> sc_nReserved cand < sc_nReserved best) \<or>
     (sc_tokenMS cand = sc_tokenMS best \<and> sc_nReserved cand = sc_nReserved best \<and>
      sc_prefillMS cand < sc_prefillMS best)"

fun role_loop ::
  "(string \<times> string \<Rightarrow> (partition_error, scored) result) \<Rightarrow> (string \<times> string) list
     \<Rightarrow> scored option \<Rightarrow> partition_error option \<Rightarrow> scored option \<times> partition_error option" where
  "role_loop attempt [] best lastErr = (best, lastErr)"
| "role_loop attempt (r # rs) best lastErr =
     (case attempt r of
        Inl e \<Rightarrow> role_loop attempt rs best (Some e)
      | Inr cand \<Rightarrow>
          role_loop attempt rs
            (case best of None \<Rightarrow> Some cand | Some b \<Rightarrow> if beats cand b then Some cand else Some b) lastErr)"

definition SolveRoles ::
  "NodeProfile list \<Rightarrow> ModelSpec \<Rightarrow> float64 \<Rightarrow> RoleDemand \<Rightarrow> float64 \<Rightarrow> float64 option
     \<Rightarrow> (partition_error, RolePlan) result" where
  "SolveRoles nodes decodeModel bo demand nb minUsable =
     (if leadFactor demand \<le> 1 then Inl BadLeadFactor
      else
        let present = presentSorted nodes
        in if length present = 0 then Inl NoNodesPresent
           else if PrefillModel demand = None \<and> DraftModel demand = None then
             (case Solve present decodeModel bo nb minUsable True of
                Inl e \<Rightarrow> Inl e
              | Inr decode \<Rightarrow>
                  Inr \<lparr>Decode = decode, PrefillNodeID = [], DraftNodeID = [], DraftMS = 0,
                       RIdleNodeIDs = idle_ids present (NodeIDs (Plan decode))\<rparr>)
           else
             let rs = reservations present demand
             in if length rs = 0 then Inl NoRoleNode
                else
                  (case role_loop (try_reservation present decodeModel bo demand nb minUsable) rs None None of
                     (None, lastErr) \<Rightarrow> Inl (NoRoleAssignment lastErr)
                   | (Some best, _) \<Rightarrow> Inr (sc_plan best)))"

record BackendConfig =
  DecodeEntryURL :: string
  PrefillURL :: string
  DecodeNodeIDs :: "string list"

definition PrefillAvailable :: "BackendConfig \<Rightarrow> bool" where
  "PrefillAvailable b \<longleftrightarrow> PrefillURL b \<noteq> []"

datatype roleplan_error = NoDecodeStages | NoEndpoint string

definition BackendsFromRolePlan ::
  "RolePlan \<Rightarrow> (string \<Rightarrow> string option) \<Rightarrow> (roleplan_error, BackendConfig) result" where
  "BackendsFromRolePlan plan endpoints =
     (case Stages (Plan (Decode plan)) of
        [] \<Rightarrow> Inl NoDecodeStages
      | st # _ \<Rightarrow>
          let entry = NodeID st
          in case endpoints entry of
               None \<Rightarrow> Inl (NoEndpoint entry)
             | Some entryURL \<Rightarrow>
                 if entryURL = [] then Inl (NoEndpoint entry)
                 else Inr \<lparr>DecodeEntryURL = entryURL,
                           PrefillURL =
                             (if PrefillNodeID plan \<noteq> [] then
                                (case endpoints (PrefillNodeID plan) of Some u \<Rightarrow> u | None \<Rightarrow> [])
                              else []),
                           DecodeNodeIDs = NodeIDs (Plan (Decode plan))\<rparr>)"


section \<open>Lemmas\<close>

definition scored_le :: "scored \<Rightarrow> scored \<Rightarrow> bool" where
  "scored_le a b \<longleftrightarrow> sc_tokenMS a < sc_tokenMS b \<or> (sc_tokenMS a = sc_tokenMS b \<and>
     (sc_nReserved a < sc_nReserved b \<or> (sc_nReserved a = sc_nReserved b \<and> sc_prefillMS a \<le> sc_prefillMS b)))"

lemma scored_le_iff: "scored_le a b \<longleftrightarrow> \<not> beats b a"
  by (auto simp: scored_le_def beats_def)

lemma scored_le_refl [simp]: "scored_le a a" by (simp add: scored_le_def)

lemma scored_le_trans: "scored_le a b \<Longrightarrow> scored_le b c \<Longrightarrow> scored_le a c"
  by (auto simp: scored_le_def)

lemma role_loop_some:
  "\<exists>c e'. role_loop attempt rs (Some b) e = (Some c, e') \<and> (c = b \<or> (\<exists>r\<in>set rs. attempt r = Inr c)) \<and>
     scored_le c b \<and> (\<forall>r\<in>set rs. \<forall>x. attempt r = Inr x \<longrightarrow> scored_le c x)"
proof (induction rs arbitrary: b e)
  case (Cons r rs)
  show ?case
  proof (cases "attempt r")
    case (Inl x)
    then show ?thesis using Cons.IH[of b "Some x"] by auto
  next
    case (Inr x)
    let ?b = "if beats x b then x else b"
    obtain c e' where c: "role_loop attempt rs (Some ?b) e = (Some c, e')" "c = ?b \<or> (\<exists>r\<in>set rs. attempt r = Inr c)"
      "scored_le c ?b" "\<forall>r\<in>set rs. \<forall>x. attempt r = Inr x \<longrightarrow> scored_le c x"
      using Cons.IH[of ?b e] by blast
    have "scored_le ?b x \<and> scored_le ?b b"
      by (auto simp: scored_le_iff) (auto simp: beats_def)
    then have "scored_le c x" "scored_le c b" using c(3) scored_le_trans by blast+
    moreover have "role_loop attempt (r # rs) (Some b) e = (Some c, e')"
      using c(1) Inr by (cases "beats x b") auto
    ultimately show ?thesis using c(2,4) Inr by (cases "beats x b") auto
  qed
qed simp

lemma role_loop_none:
  "role_loop attempt rs None e = (res, e') \<Longrightarrow>
   (case res of
      None \<Rightarrow> (\<forall>r\<in>set rs. \<exists>x. attempt r = Inl x)
    | Some c \<Rightarrow> (\<exists>r\<in>set rs. attempt r = Inr c) \<and> (\<forall>r\<in>set rs. \<forall>x. attempt r = Inr x \<longrightarrow> scored_le c x))"
proof (induction rs arbitrary: e)
  case (Cons r rs)
  show ?case
  proof (cases "attempt r")
    case (Inl x)
    then show ?thesis using Cons by (fastforce split: option.splits)
  next
    case (Inr x)
    then show ?thesis using Cons.prems role_loop_some[of attempt rs x e] by auto
  qed
qed simp

text \<open>Memory the role plan puts on the node with id \<open>i\<close> besides decode.\<close>

definition role_gb :: "RoleDemand \<Rightarrow> RolePlan \<Rightarrow> string \<Rightarrow> float64" where
  "role_gb demand rp i =
     (case PrefillModel demand of Some m \<Rightarrow> if PrefillNodeID rp = i then TotalGB m else 0 | None \<Rightarrow> 0) +
     (case DraftModel demand of Some m \<Rightarrow> if DraftNodeID rp = i then TotalGB m else 0 | None \<Rightarrow> 0)"

definition decode_pool :: "NodeProfile list \<Rightarrow> RolePlan \<Rightarrow> NodeProfile list" where
  "decode_pool nodes rp =
     filter (\<lambda>n. ID n \<noteq> PrefillNodeID rp \<and> ID n \<noteq> DraftNodeID rp) (presentSorted nodes)"

lemma pool_id_nonempty: "pool_ids nodes \<Longrightarrow> n \<in> set (presentSorted nodes) \<Longrightarrow> ID n \<noteq> []"
  by (auto simp: pool_ids_def plain_id_def)

lemma reserved_pool:
  assumes "pool_ids nodes"
  shows "filter (\<lambda>n. ID n \<notin> set (reserved_ids (p, d))) (presentSorted nodes) =
    filter (\<lambda>n. ID n \<noteq> p \<and> ID n \<noteq> d) (presentSorted nodes)"
  using pool_id_nonempty[OF assms] by (intro filter_cong) (auto simp: reserved_ids_def simp del: set_presentSorted)

lemma try_reservation_Inr:
  assumes "pool_ids nodes" "try_reservation (presentSorted nodes) dm bo demand nb flr r = Inr c"
  shows "Solve (decode_pool nodes (sc_plan c)) dm bo nb flr True = Inr (Decode (sc_plan c)) \<and>
    PrefillNodeID (sc_plan c) = fst r \<and> DraftNodeID (sc_plan c) = snd r \<and>
    draft_check (by_id (presentSorted nodes)) demand (snd r) (TokenMS (Plan (Decode (sc_plan c)))) = Inr (DraftMS (sc_plan c)) \<and>
    RIdleNodeIDs (sc_plan c) = idle_ids (presentSorted nodes) (NodeIDs (Plan (Decode (sc_plan c))) @ reserved_ids r) \<and>
    sc_tokenMS c = TokenMS (Plan (Decode (sc_plan c)))"
  using assms(2) reserved_pool[OF assms(1), of "fst r" "snd r"]
  by (auto simp: try_reservation_def Let_def decode_pool_def split: sum.splits)

lemma set_reservations:
  assumes "(p, d) \<in> set (reservations present demand)" "\<forall>n\<in>set present. ID n \<noteq> []"
  shows "(PrefillModel demand = None \<longrightarrow> p = []) \<and> (DraftModel demand = None \<longrightarrow> d = []) \<and>
    (\<forall>m. PrefillModel demand = Some m \<longrightarrow> p \<noteq> [] \<and> (\<exists>n\<in>set present. ID n = p \<and>
       TotalGB m + (case DraftModel demand of Some m' \<Rightarrow> if d = p then TotalGB m' else 0 | None \<Rightarrow> 0) \<le> ModelMemCapGB n)) \<and>
    (\<forall>m. DraftModel demand = Some m \<longrightarrow> d \<noteq> [] \<and> (\<exists>n\<in>set present. ID n = d \<and>
       (case PrefillModel demand of Some m' \<Rightarrow> if p = d then TotalGB m' else 0 | None \<Rightarrow> 0) + TotalGB m \<le> ModelMemCapGB n))"
  using assms
  by (cases "PrefillModel demand"; cases "DraftModel demand")
     (auto simp: reservations_def fitsRoles_def)

lemma SolveRoles_cases:
  assumes "pool_ids nodes" "SolveRoles nodes dm bo demand nb flr = Inr rp"
  obtains (plain) "PrefillModel demand = None" "DraftModel demand = None"
      "Solve (presentSorted nodes) dm bo nb flr True = Inr (Decode rp)"
      "PrefillNodeID rp = []" "DraftNodeID rp = []"
      "RIdleNodeIDs rp = idle_ids (presentSorted nodes) (NodeIDs (Plan (Decode rp)))"
    | (roles) r c where "r \<in> set (reservations (presentSorted nodes) demand)"
      "try_reservation (presentSorted nodes) dm bo demand nb flr r = Inr c" "rp = sc_plan c"
proof -
  let ?t = "try_reservation (presentSorted nodes) dm bo demand nb flr" and ?rs = "reservations (presentSorted nodes) demand"
  show thesis
  proof (cases "PrefillModel demand = None \<and> DraftModel demand = None")
    case True
    then show thesis
      using assms(2) plain by (auto simp: SolveRoles_def Let_def split: if_splits sum.splits)
  next
    case False
    then obtain c e where "role_loop ?t ?rs None None = (Some c, e)" "rp = sc_plan c"
      using assms(2) by (auto simp: SolveRoles_def Let_def split: if_splits prod.splits option.splits)
    then show thesis using role_loop_none[of ?t ?rs None "Some c" e] roles by auto
  qed
qed

lemma decode_pool_all: "pool_ids nodes \<Longrightarrow> PrefillNodeID rp = [] \<Longrightarrow> DraftNodeID rp = [] \<Longrightarrow>
    decode_pool nodes rp = presentSorted nodes"
  using pool_id_nonempty by (auto simp: decode_pool_def filter_id_conv simp del: set_presentSorted)

lemma SolveRoles_decode:
  assumes "pool_ids nodes" "SolveRoles nodes dm bo demand nb flr = Inr rp"
  shows "Solve (decode_pool nodes rp) dm bo nb flr True = Inr (Decode rp)"
  using assms
proof (cases rule: SolveRoles_cases)
  case plain
  then show ?thesis using decode_pool_all[OF assms(1)] by simp
next
  case (roles r c)
  then show ?thesis using try_reservation_Inr[OF assms(1)] by blast
qed

lemma SolveRoles_roles:
  assumes "pool_ids nodes" "SolveRoles nodes dm bo demand nb flr = Inr rp"
  shows "(PrefillNodeID rp \<noteq> [] \<longleftrightarrow> PrefillModel demand \<noteq> None) \<and> (DraftNodeID rp \<noteq> [] \<longleftrightarrow> DraftModel demand \<noteq> None) \<and>
    (\<forall>i\<in>{PrefillNodeID rp, DraftNodeID rp}. i \<noteq> [] \<longrightarrow>
       (\<exists>n\<in>set (presentSorted nodes). ID n = i \<and> role_gb demand rp i \<le> ModelMemCapGB n))"
  using assms
proof (cases rule: SolveRoles_cases)
  case (roles r c)
  note t = try_reservation_Inr[OF assms(1) roles(2), folded roles(3)]
  have "(fst r, snd r) \<in> set (reservations (presentSorted nodes) demand)" using roles(1) by simp
  from set_reservations[OF this] pool_id_nonempty[OF assms(1)] t show ?thesis
    by (cases "PrefillModel demand"; cases "DraftModel demand")
       (auto simp: role_gb_def simp del: set_presentSorted)
qed simp

lemma SolveRoles_draft:
  assumes "pool_ids nodes" "SolveRoles nodes dm bo demand nb flr = Inr rp" "DraftModel demand = Some m"
  shows "(\<exists>n\<in>set (presentSorted nodes). ID n = DraftNodeID rp \<and> residentMS n m = Inr (DraftMS rp)) \<and>
    DraftMS rp * leadFactor demand \<le> TokenMS (Plan (Decode rp))"
  using assms(1,2)
proof (cases rule: SolveRoles_cases)
  case (roles r c)
  note t = try_reservation_Inr[OF assms(1) roles(2), folded roles(3)]
  obtain n where n: "n \<in> set (presentSorted nodes)" "ID n = snd r" "snd r \<noteq> []"
    using SolveRoles_roles[OF assms(1,2)] assms(3) t by auto
  then have "by_id (presentSorted nodes) (snd r) = Some n"
    using by_id_lookup assms(1) by (metis pool_ids_def)
  then show ?thesis
    using t n assms(3) by (auto simp: draft_check_def split: sum.splits if_splits)
qed (use assms(3) in simp)

lemma SolveRoles_idle:
  assumes "pool_ids nodes" "SolveRoles nodes dm bo demand nb flr = Inr rp"
  shows "set (RIdleNodeIDs rp) = ID ` set (presentSorted nodes) -
    (set (NodeIDs (Plan (Decode rp))) \<union> {PrefillNodeID rp, DraftNodeID rp})"
  using assms
proof (cases rule: SolveRoles_cases)
  case plain
  then show ?thesis using pool_id_nonempty[OF assms(1)] by (auto simp: idle_ids_def simp del: set_presentSorted)
next
  case (roles r c)
  then show ?thesis
    using try_reservation_Inr[OF assms(1) roles(2)] pool_id_nonempty[OF assms(1)]
    by (auto simp: idle_ids_def reserved_ids_def simp del: set_presentSorted)
qed


section \<open>Properties\<close>

definition role_nodes :: "NodeProfile list" where
  "role_nodes = [\<lparr>ID = ''a'', ModelMemCapGB = 12, MsPerLayer = 3, MemBandwidthGBps = 0, Absent = False\<rparr>,
     \<lparr>ID = ''p'', ModelMemCapGB = 14, MsPerLayer = 1, MemBandwidthGBps = 0, Absent = False\<rparr>]"

definition role_demand :: RoleDemand where
  "role_demand = \<lparr>PrefillModel = Some demo_model,
     DraftModel = Some \<lparr>NLayers = 2, WeightsGB = 2, KVCacheGB = 0, BatchSlots = 1, PrefixCacheGB = 0\<rparr>,
     DraftLeadFactor = 4\<rparr>"

lemma role_sorted: "presentSorted role_nodes = role_nodes"
  by (simp add: presentSorted_def role_nodes_def)

lemma role_pool: "pool_ids role_nodes" "present_profiled role_nodes"
  unfolding pool_ids_def role_sorted by (simp_all add: role_nodes_def plain_id_def profiled_def)

lemma role_solved: "\<exists>rp. SolveRoles role_nodes demo_model 1 role_demand (1 / 2) None = Inr rp"
  unfolding SolveRoles_def role_sorted
  by (simp add: solve_eval role_nodes_def role_demand_def leadFactor_def reservations_def fitsRoles_def
      try_reservation_def reserved_ids_def draft_check_def prefill_check_def residentMS_def by_id_def beats_def)

text \<open>
  C9. A role plan isolates its roles: the decode plan is the one \<^verbatim>\<open>Solve\<close> selects on the present nodes
  without the prefill and draft nodes, and so never uses them; a role has a node exactly when it is
  demanded; that node is present and its cap holds the residents of all roles placed on it; the idle
  nodes are the present ones left without any role.
\<close>

theorem SolveRoles_isolation:
  assumes "valid_model dm" "present_profiled nodes" "pool_ids nodes" "SolveRoles nodes dm bo demand nb flr = Inr rp"
  shows "chosen (admissible dm bo nb (decode_pool nodes rp)) flr (Plan (Decode rp)) \<and>
    PrefillNodeID rp \<notin> set (NodeIDs (Plan (Decode rp))) \<and> DraftNodeID rp \<notin> set (NodeIDs (Plan (Decode rp))) \<and>
    (PrefillNodeID rp \<noteq> [] \<longleftrightarrow> PrefillModel demand \<noteq> None) \<and> (DraftNodeID rp \<noteq> [] \<longleftrightarrow> DraftModel demand \<noteq> None) \<and>
    (\<forall>i\<in>{PrefillNodeID rp, DraftNodeID rp}. i \<noteq> [] \<longrightarrow>
       (\<exists>n\<in>set nodes. \<not> Absent n \<and> ID n = i \<and> role_gb demand rp i \<le> ModelMemCapGB n)) \<and>
    set (RIdleNodeIDs rp) = ID ` {n \<in> set nodes. \<not> Absent n} -
      (set (NodeIDs (Plan (Decode rp))) \<union> {PrefillNodeID rp, DraftNodeID rp})"
proof -
  have "present_profiled (decode_pool nodes rp)" using assms(2) by (simp add: decode_pool_def)
  then have c: "chosen (admissible dm bo nb (decode_pool nodes rp)) flr (Plan (Decode rp))"
    using solve_plan_chosen[OF assms(1) _ Solve_plan[OF SolveRoles_decode[OF assms(3,4)]]] by blast
  moreover have "set (NodeIDs (Plan (Decode rp))) \<subseteq> ID ` set (decode_pool nodes rp)"
    using admissible_nodes[OF chosenD[OF c]] by blast
  then have "PrefillNodeID rp \<notin> set (NodeIDs (Plan (Decode rp))) \<and> DraftNodeID rp \<notin> set (NodeIDs (Plan (Decode rp)))"
    by (auto simp: decode_pool_def)
  ultimately show ?thesis
    using SolveRoles_roles[OF assms(3,4)] SolveRoles_idle[OF assms(3,4)]
    unfolding set_presentSorted by blast
qed

theorem SolveRoles_isolation_witness:
  "\<exists>rp. SolveRoles role_nodes demo_model 1 role_demand (1 / 2) None = Inr rp \<and>
     chosen (admissible demo_model 1 (1 / 2) (decode_pool role_nodes rp)) None (Plan (Decode rp)) \<and>
     PrefillNodeID rp \<noteq> []"
  using SolveRoles_isolation[OF demo_ok(1) role_pool(2,1)] role_solved by (fastforce simp: role_demand_def)

text \<open>
  When a draft role is demanded, the time per token reported for it is the one of the draft model on
  the chosen draft node, and it stays ahead of decode by the lead factor.
\<close>

theorem SolveRoles_draft_leads:
  assumes "pool_ids nodes" "SolveRoles nodes dm bo demand nb flr = Inr rp" "DraftModel demand = Some m"
  shows "(\<exists>n\<in>set (presentSorted nodes). ID n = DraftNodeID rp \<and> residentMS n m = Inr (DraftMS rp)) \<and>
    DraftMS rp * leadFactor demand \<le> TokenMS (Plan (Decode rp)) \<and> 1 < leadFactor demand"
  using SolveRoles_draft[OF assms] assms(2) by (auto simp: SolveRoles_def split: if_splits)

theorem SolveRoles_draft_leads_witness:
  "\<exists>rp. SolveRoles role_nodes demo_model 1 role_demand (1 / 2) None = Inr rp \<and>
     DraftMS rp * 4 \<le> TokenMS (Plan (Decode rp))"
  using SolveRoles_draft_leads[OF role_pool(1)] role_solved by (fastforce simp: role_demand_def leadFactor_def)

text \<open>
  Among all reservations that leave a decode pipeline and satisfy the draft's lead, \<^verbatim>\<open>SolveRoles\<close>
  returns one that is minimal for decode time, then reserved nodes, then prefill time; it fails only
  when no reservation works.
\<close>

theorem SolveRoles_best:
  assumes "1 < leadFactor demand" "presentSorted nodes \<noteq> []" "PrefillModel demand \<noteq> None \<or> DraftModel demand \<noteq> None"
  shows "case SolveRoles nodes dm bo demand nb flr of
      Inr rp \<Rightarrow> \<exists>r\<in>set (reservations (presentSorted nodes) demand). \<exists>c.
        try_reservation (presentSorted nodes) dm bo demand nb flr r = Inr c \<and> rp = sc_plan c \<and>
        (\<forall>r'\<in>set (reservations (presentSorted nodes) demand). \<forall>x.
           try_reservation (presentSorted nodes) dm bo demand nb flr r' = Inr x \<longrightarrow> scored_le c x)
    | Inl e \<Rightarrow> \<forall>r\<in>set (reservations (presentSorted nodes) demand).
        \<exists>x. try_reservation (presentSorted nodes) dm bo demand nb flr r = Inl x"
proof -
  let ?t = "try_reservation (presentSorted nodes) dm bo demand nb flr" and ?rs = "reservations (presentSorted nodes) demand"
  obtain res e where l: "role_loop ?t ?rs None None = (res, e)" by fastforce
  then show ?thesis
    using role_loop_none[OF l] assms by (cases res) (auto simp: SolveRoles_def Let_def)
qed

theorem SolveRoles_best_witness:
  "case SolveRoles role_nodes demo_model 1 role_demand (1 / 2) None of
      Inr rp \<Rightarrow> \<exists>r\<in>set (reservations (presentSorted role_nodes) role_demand). \<exists>c.
        try_reservation (presentSorted role_nodes) demo_model 1 role_demand (1 / 2) None r = Inr c \<and> rp = sc_plan c
    | Inl e \<Rightarrow> \<forall>r\<in>set (reservations (presentSorted role_nodes) role_demand).
        \<exists>x. try_reservation (presentSorted role_nodes) demo_model 1 role_demand (1 / 2) None r = Inl x"
proof -
  have "1 < leadFactor role_demand" "presentSorted role_nodes \<noteq> []" "PrefillModel role_demand \<noteq> None \<or> DraftModel role_demand \<noteq> None"
    unfolding role_sorted by (simp_all add: role_demand_def leadFactor_def role_nodes_def)
  from SolveRoles_best[OF this, of demo_model 1 "1 / 2" None] show ?thesis
    by (cases "SolveRoles role_nodes demo_model 1 role_demand (1 / 2) None") auto
qed

text \<open>
  Turning a solved role plan into backends fails only when the node of the first decode stage has no
  configured endpoint; a plan without a prefill endpoint degrades to decode only. Otherwise decode
  enters at that node, and an available prefill endpoint is the one configured for the prefill node.
\<close>

theorem BackendsFromRolePlan_of_roles:
  assumes "valid_model dm" "present_profiled nodes" "pool_ids nodes" "SolveRoles nodes dm bo demand nb flr = Inr rp"
  shows "case BackendsFromRolePlan rp endpoints of
      Inl e \<Rightarrow> e = NoEndpoint (hd (NodeIDs (Plan (Decode rp)))) \<and>
        endpoints (hd (NodeIDs (Plan (Decode rp)))) \<in> {None, Some []}
    | Inr cfg \<Rightarrow> endpoints (hd (NodeIDs (Plan (Decode rp)))) = Some (DecodeEntryURL cfg) \<and> DecodeEntryURL cfg \<noteq> [] \<and>
        DecodeNodeIDs cfg = NodeIDs (Plan (Decode rp)) \<and>
        (PrefillAvailable cfg \<longleftrightarrow> PrefillModel demand \<noteq> None \<and> endpoints (PrefillNodeID rp) \<notin> {None, Some []}) \<and>
        (PrefillAvailable cfg \<longrightarrow> endpoints (PrefillNodeID rp) = Some (PrefillURL cfg))"
proof -
  have "present_profiled (decode_pool nodes rp)" using assms(2) by (simp add: decode_pool_def)
  then have "admissible dm bo nb (decode_pool nodes rp) (Plan (Decode rp))"
    using chosenD[OF solve_plan_chosen[OF assms(1) _ Solve_plan[OF SolveRoles_decode[OF assms(3,4)]]]] by blast
  from admissible_size[OF assms(1) this] have "Stages (Plan (Decode rp)) \<noteq> []" by auto
  then obtain st sts where "Stages (Plan (Decode rp)) = st # sts"
    by (cases "Stages (Plan (Decode rp))") auto
  then show ?thesis
    using SolveRoles_roles[OF assms(3,4)]
    by (auto simp: BackendsFromRolePlan_def Let_def NodeIDs_def PrefillAvailable_def split: option.splits)
qed

theorem BackendsFromRolePlan_of_roles_witness:
  "\<exists>rp. SolveRoles role_nodes demo_model 1 role_demand (1 / 2) None = Inr rp \<and>
     BackendsFromRolePlan rp Map.empty = Inl (NoEndpoint (hd (NodeIDs (Plan (Decode rp)))))"
proof -
  obtain rp where rp: "SolveRoles role_nodes demo_model 1 role_demand (1 / 2) None = Inr rp" using role_solved by blast
  from BackendsFromRolePlan_of_roles[OF demo_ok(1) role_pool(2,1) rp, of Map.empty] rp show ?thesis
    by (cases "BackendsFromRolePlan rp Map.empty") auto
qed

end
