(* ===== verification/Bounded_Map.thy ===== *)
theory Bounded_Map
  imports Sofmat_Prelude "HOL-Library.AList"
begin

text \<open>
  The gateway keeps several bounded registries: a Go map from keys to values, a slice of the keys
  in insertion order, and a capacity (\<^verbatim>\<open>KnownPrefixes\<close>, \<^verbatim>\<open>lastPrompts\<close>, \<^verbatim>\<open>convSlots\<close>). The locale
  \<open>bounded_map\<close> is the contract they share, \<open>lru_map\<close> adds the promise that a write makes its key
  the most recent one. Each registry interprets the locale it satisfies in its own theory. A Go map
  is an association list with distinct keys; \<^verbatim>\<open>None\<close> as the result of a write is the run-time panic of
  indexing an empty slice.
\<close>


section \<open>Association lists as Go maps\<close>

lemma length_AList_update:
  "length (AList.update k v m) = (if k \<in> fst ` set m then length m else Suc (length m))"
  by (induction m) (auto split: if_splits)

lemma delete_absent: "k \<notin> fst ` set m \<Longrightarrow> AList.delete k m = m"
  by (induction m) (auto simp: AList.delete_eq)

lemma length_AList_delete:
  "distinct (map fst m) \<Longrightarrow> length (AList.delete k m) = (if k \<in> fst ` set m then length m - 1 else length m)"
proof (induction m)
  case (Cons p m)
  show ?case
  proof (cases "fst p = k")
    case True
    then have "AList.delete k m = m" using Cons.prems by (intro delete_absent) auto
    then show ?thesis using True by (cases p) (simp add: AList.delete_eq)
  next
    case False
    then show ?thesis
      using Cons by (cases p; cases m) (auto simp: AList.delete_eq)
  qed
qed simp

lemma distinct_AList_delete: "distinct (map fst m) \<Longrightarrow> distinct (map fst (AList.delete k m))"
  by (induction m) (auto simp: AList.delete_eq)

lemma keys_AList_delete: "fst ` set (AList.delete k m) = fst ` set m - {k}"
  by (auto simp: AList.delete_eq)

lemma map_of_in_keys: "map_of m k \<noteq> None \<longleftrightarrow> k \<in> fst ` set m"
  by (metis map_of_eq_None_iff)

lemma set_remove1_distinct: "distinct xs \<Longrightarrow> set (remove1 x xs) = set xs - {x}"
  by simp


text \<open>
  The shape the registries share: \<open>m\<close> the entries, \<open>ord\<close> the keys, \<open>c\<close> the capacity. \<open>reg_room\<close> is
  the state after the eviction step of a write.
\<close>

definition reg_inv :: "int \<Rightarrow> ('k \<times> 'v) list \<Rightarrow> 'k list \<Rightarrow> bool" where
  "reg_inv c m ord \<longleftrightarrow> 0 < c \<and> distinct (map fst m) \<and> distinct ord \<and> set ord = fst ` set m \<and> int (length ord) \<le> c"

definition reg_room :: "int \<Rightarrow> ('k \<times> 'v) list \<Rightarrow> 'k list \<Rightarrow> 'k \<Rightarrow> ('k \<times> 'v) list \<times> 'k list" where
  "reg_room c m ord k =
     (if map_of m k = None \<and> int (length m) \<ge> c then (AList.delete (hd ord) m, tl ord) else (m, ord))"

lemma reg_length: "reg_inv c m ord \<Longrightarrow> length m = length ord"
  unfolding reg_inv_def by (metis distinct_card length_map list.set_map)

lemma reg_dom: "reg_inv c m ord \<Longrightarrow> dom (map_of m) = set ord"
  by (simp add: reg_inv_def dom_map_of_conv_image_fst)

lemma reg_full_nonempty: "reg_inv c m ord \<Longrightarrow> int (length m) \<ge> c \<Longrightarrow> ord \<noteq> []"
  using reg_length[of c m ord] by (auto simp: reg_inv_def)

lemma reg_room_ok:
  assumes "reg_inv c m ord" "reg_room c m ord k = (m', ord')"
  shows "reg_inv c m' ord'" "k \<notin> set ord' \<Longrightarrow> int (length ord') < c" "k \<in> set ord' \<longleftrightarrow> k \<in> set ord"
    "ord' = (if k \<notin> set ord \<and> c \<le> int (length ord) then tl ord else ord)"
    "map_of m' = (if k \<notin> set ord \<and> c \<le> int (length ord) then (map_of m)(hd ord := None) else map_of m)"
proof -
  have dom: "map_of m k = None \<longleftrightarrow> k \<notin> set ord" using reg_dom[OF assms(1)] by auto
  show "ord' = (if k \<notin> set ord \<and> c \<le> int (length ord) then tl ord else ord)"
    "map_of m' = (if k \<notin> set ord \<and> c \<le> int (length ord) then (map_of m)(hd ord := None) else map_of m)"
    using assms(2) reg_length[OF assms(1)] dom
    by (auto simp: reg_room_def delete_conv' split: if_splits)
  have "reg_inv c m' ord' \<and> (k \<notin> set ord' \<longrightarrow> int (length ord') < c) \<and> (k \<in> set ord' \<longleftrightarrow> k \<in> set ord)"
  proof (cases "k \<notin> set ord \<and> c \<le> int (length ord)")
    case True
    then obtain x xs where ord: "ord = x # xs" using assms(1) by (cases ord) (auto simp: reg_inv_def)
    have "m' = AList.delete x m" "ord' = xs"
      using assms(2) True dom reg_length[OF assms(1)] by (simp_all add: reg_room_def ord)
    then show ?thesis
      using assms(1) True by (simp add: reg_inv_def ord distinct_AList_delete keys_AList_delete) auto
  next
    case False
    then have "m' = m" "ord' = ord"
      using assms(2) dom reg_length[OF assms(1)] by (auto simp: reg_room_def split: if_splits)
    then show ?thesis using assms(1) False by auto
  qed
  then show "reg_inv c m' ord'" "k \<notin> set ord' \<Longrightarrow> int (length ord') < c" "k \<in> set ord' \<longleftrightarrow> k \<in> set ord"
    by blast+
qed

lemma reg_update:
  assumes "reg_inv c m ord" "k \<notin> set ord \<Longrightarrow> int (length ord) < c"
  shows "reg_inv c (AList.update k v m) (remove1 k ord @ [k])"
    "k \<in> set ord \<Longrightarrow> reg_inv c (AList.update k v m) ord"
    "k \<notin> set ord \<Longrightarrow> reg_inv c (AList.update k v m) (ord @ [k])"
proof -
  have "fst ` set (AList.update k v m) = insert k (fst ` set m)"
    by (metis dom_map_of_conv_image_fst AList.update_conv' dom_fun_upd option.discI)
  then show "reg_inv c (AList.update k v m) (remove1 k ord @ [k])"
    "k \<in> set ord \<Longrightarrow> reg_inv c (AList.update k v m) ord"
    "k \<notin> set ord \<Longrightarrow> reg_inv c (AList.update k v m) (ord @ [k])"
    using assms by (auto simp: reg_inv_def distinct_update length_remove1 Suc_le_eq of_nat_diff)
qed

lemma reg_delete: "reg_inv c m ord \<Longrightarrow> reg_inv c (AList.delete k m) (remove1 k ord)"
  by (auto simp: reg_inv_def distinct_AList_delete keys_AList_delete length_remove1)


section \<open>The contract\<close>

text \<open>
  \<open>keys\<close> lists the keys from the next victim to the newest. A write of a known key keeps every key;
  a write of a new key into a full registry evicts the first one.
\<close>

definition evicts :: "nat \<Rightarrow> 'k list \<Rightarrow> 'k \<Rightarrow> bool" where
  "evicts cap ks k \<longleftrightarrow> k \<notin> set ks \<and> cap \<le> length ks"

locale bounded_map =
  fixes inv :: "'s \<Rightarrow> bool"
    and capacity_of :: "'s \<Rightarrow> nat"
    and lookup :: "'s \<Rightarrow> 'k \<Rightarrow> 'v option"
    and keys :: "'s \<Rightarrow> 'k list"
    and put :: "'k \<Rightarrow> 'v \<Rightarrow> 's \<Rightarrow> 's option"
    and forget :: "'k \<Rightarrow> 's \<Rightarrow> 's"
  assumes keys_dom: "inv s \<Longrightarrow> set (keys s) = dom (lookup s)"
    and keys_distinct: "inv s \<Longrightarrow> distinct (keys s)"
    and keys_bounded: "inv s \<Longrightarrow> length (keys s) \<le> capacity_of s"
    and capacity_pos: "inv s \<Longrightarrow> 0 < capacity_of s"
    and put_ok: "inv s \<Longrightarrow> \<exists>s'. put k v s = Some s' \<and> inv s' \<and> capacity_of s' = capacity_of s \<and>
        lookup s' = (if evicts (capacity_of s) (keys s) k then (lookup s)(hd (keys s) := None, k \<mapsto> v)
                     else (lookup s)(k \<mapsto> v))"
    and forget_ok: "inv s \<Longrightarrow> inv (forget k s) \<and> capacity_of (forget k s) = capacity_of s \<and>
        lookup (forget k s) = (lookup s)(k := None)"
begin

text \<open>A history of writes and removals, oldest first; \<open>Inl\<close> writes, \<open>Inr\<close> forgets.\<close>

fun run :: "(('k \<times> 'v) + 'k) list \<Rightarrow> 's \<Rightarrow> 's option" where
  "run [] s = Some s"
| "run (Inl (k, v) # ops) s = (case put k v s of None \<Rightarrow> None | Some s' \<Rightarrow> run ops s')"
| "run (Inr k # ops) s = run ops (forget k s)"

text \<open>The value an unbounded map would hold for \<open>k\<close> after the history.\<close>

fun last_value :: "(('k \<times> 'v) + 'k) list \<Rightarrow> 'k \<Rightarrow> 'v option \<Rightarrow> 'v option" where
  "last_value [] k d = d"
| "last_value (Inl (j, v) # ops) k d = last_value ops k (if j = k then Some v else d)"
| "last_value (Inr j # ops) k d = last_value ops k (if j = k then None else d)"

lemma put_lookup: "inv s \<Longrightarrow> put k v s = Some s' \<Longrightarrow> lookup s' k = Some v"
  using put_ok[of s k v] by (auto split: if_splits)

lemma put_other: "inv s \<Longrightarrow> put k v s = Some s' \<Longrightarrow> j \<noteq> k \<Longrightarrow> lookup s' j = lookup s j \<or> lookup s' j = None"
  using put_ok[of s k v] by (auto split: if_splits)

lemma run_total:
  "inv s \<Longrightarrow> \<exists>s'. run ops s = Some s' \<and> inv s' \<and> capacity_of s' = capacity_of s \<and>
     length (keys s') \<le> capacity_of s \<and> distinct (keys s')"
proof (induction ops arbitrary: s)
  case Nil
  then show ?case using keys_bounded keys_distinct by auto
next
  case (Cons op ops)
  show ?case
  proof (cases op)
    case (Inl p)
    then show ?thesis using Cons.IH put_ok[OF Cons.prems, of "fst p" "snd p"] by (cases p) fastforce
  next
    case (Inr k)
    then show ?thesis using Cons.IH forget_ok[OF Cons.prems, of k] by fastforce
  qed
qed

lemma run_lookup:
  "inv s \<Longrightarrow> run ops s = Some s' \<Longrightarrow> lookup s k = d \<or> lookup s k = None \<Longrightarrow>
   lookup s' k = last_value ops k d \<or> lookup s' k = None"
proof (induction ops arbitrary: s d)
  case (Cons op ops)
  show ?case
  proof (cases op)
    case (Inl p)
    obtain j v where p: "p = (j, v)" by fastforce
    obtain s1 where s1: "put j v s = Some s1" "inv s1" using put_ok[OF Cons.prems(1)] by blast
    have "lookup s1 k = (if j = k then Some v else d) \<or> lookup s1 k = None"
      using put_lookup[OF Cons.prems(1) s1(1)] put_other[OF Cons.prems(1) s1(1), of k] Cons.prems(3) by auto
    then show ?thesis using Cons.IH[OF s1(2)] Cons.prems(2) Inl p s1(1) by simp
  next
    case (Inr j)
    have f: "inv (forget j s)" "lookup (forget j s) = (lookup s)(j := None)"
      using forget_ok[OF Cons.prems(1)] by auto
    then show ?thesis using Cons.IH[OF f(1), of "if j = k then None else d"] Cons.prems(2,3) Inr by auto
  qed
qed simp

end


text \<open>An LRU registry: a write moves its key to the end of the list.\<close>

locale lru_map = bounded_map +
  assumes put_keys: "inv s \<Longrightarrow> put k v s = Some s' \<Longrightarrow>
      keys s' = (if evicts (capacity_of s) (keys s) k then tl (keys s) else remove1 k (keys s)) @ [k]"
begin

lemma survives:
  assumes "inv s" "lookup s k = Some v" "keys s = pre @ k # post" "run (map Inl ps) s = Some s'"
    "k \<notin> fst ` set ps" "card (set post \<union> fst ` set ps) < capacity_of s"
  shows "lookup s' k = Some v"
  using assms
proof (induction ps arbitrary: s pre post)
  case Nil
  then show ?case by simp
next
  case (Cons p ps)
  obtain j w where p: "p = (j, w)" by fastforce
  have jk: "j \<noteq> k" using Cons.prems(5) p by auto
  obtain s1 where s1: "put j w s = Some s1" "inv s1" "capacity_of s1 = capacity_of s"
    "lookup s1 = (if evicts (capacity_of s) (keys s) j then (lookup s)(hd (keys s) := None, j \<mapsto> w)
                  else (lookup s)(j \<mapsto> w))"
    using put_ok[OF Cons.prems(1), of j w] by blast
  note dist = keys_distinct[OF Cons.prems(1)]
  have ks: "keys s1 = (if evicts (capacity_of s) (keys s) j then tl (keys s) else remove1 j (keys s)) @ [j]"
    by (rule put_keys[OF Cons.prems(1) s1(1)])
  have run: "run (map Inl ps) s1 = Some s'" using Cons.prems(4) s1(1) p by simp
  have smaller: "card (set post' \<union> fst ` set ps) < capacity_of s1" if "set post' \<subseteq> set post \<union> {j}" for post'
  proof -
    have "card (set post' \<union> fst ` set ps) \<le> card (set post \<union> fst ` set (p # ps))"
      using that p by (intro card_mono) auto
    then show ?thesis using Cons.prems(6) s1(3) by linarith
  qed
  show ?case
  proof (cases "evicts (capacity_of s) (keys s) j")
    case True
    have "pre \<noteq> []"
    proof
      assume "pre = []"
      then have "capacity_of s \<le> Suc (length post)" "j \<notin> set post" "distinct post"
        using True Cons.prems(3) dist by (auto simp: evicts_def)
      moreover have "card (set post \<union> {j}) \<le> card (set post \<union> fst ` set (p # ps))"
        using p by (intro card_mono) auto
      ultimately show False using Cons.prems(6) by (simp add: distinct_card)
    qed
    then obtain x pre' where pre: "pre = x # pre'" by (cases pre) auto
    have "lookup s1 k = Some v" using s1(4) True Cons.prems(2,3) dist jk pre by auto
    moreover have "keys s1 = pre' @ k # (post @ [j])" using ks True Cons.prems(3) pre by simp
    ultimately show ?thesis using Cons.IH[OF s1(2) _ _ run] Cons.prems(5) smaller[of "post @ [j]"] by auto
  next
    case False
    then have "lookup s1 k = Some v" using s1(4) Cons.prems(2) jk by auto
    moreover define post' where "post' = (if j \<in> set pre then post else remove1 j post) @ [j]"
    have "keys s1 = remove1 j pre @ k # post'"
      using ks False Cons.prems(3) dist jk by (auto simp: post'_def remove1_append remove1_idem)
    moreover have "set post' \<subseteq> set post \<union> {j}"
      using set_remove1_subset[of j post] by (auto simp: post'_def)
    ultimately show ?thesis
      using Cons.IH[OF s1(2) _ _ run, of "remove1 j pre" post'] Cons.prems(5) smaller[of post'] by auto
  qed
qed

text \<open>
  A written key survives every later history of writes to fewer than \<open>capacity\<close> other keys.
\<close>

lemma recent_survives:
  assumes "inv s" "put k v s = Some s1" "run (map Inl ps) s1 = Some s'" "k \<notin> fst ` set ps"
    "card (fst ` set ps) < capacity_of s"
  shows "lookup s' k = Some v"
proof -
  have "inv s1" "capacity_of s1 = capacity_of s" using put_ok[OF assms(1), of k v] assms(2) by auto
  then show ?thesis
    using survives[OF _ put_lookup[OF assms(1,2)], of _ "[]" ps s'] put_keys[OF assms(1,2)] assms(3-5) by auto
qed

end

end
