(* ===== verification/Admission.thy ===== *)
theory Admission
  imports Bounded_Map Go_Data
begin

text \<open>
  Admission of requests, \<^verbatim>\<open>internal/gateway/admission.go\<close>, \<^verbatim>\<open>admit.go\<close> and \<^verbatim>\<open>cachecost.go\<close>: the token
  estimate, the registry of hot prefixes, the routing decision, the record of last prompts and the
  cost model that compares the direct path with the prefill path. Token counts are unbounded
  integers (the code's stay far below \<open>2\<^sup>6\<^sup>3\<close>). A mutex is not modelled: each method is one step.
\<close>


section \<open>Token estimates\<close>

definition PrefillThresholdTokens :: int where "PrefillThresholdTokens = 6144"
definition PrefillExactMinTokens :: int where "PrefillExactMinTokens = 8192"
definition charsPerToken :: int where "charsPerToken = 4"

definition EstimateTokens :: "string \<Rightarrow> (string \<Rightarrow> int) option \<Rightarrow> int" where
  "EstimateTokens tx tok =
     (if tx = [] then 0
      else case tok of
             Some f \<Rightarrow> if f tx < 0 then 0 else f tx
           | None \<Rightarrow> int (RuneCountInString tx) div charsPerToken)"


section \<open>Hot prefixes\<close>

record KnownPrefixes =
  kp_capacity :: int
  kp_toks :: "(string \<times> int) list"
  kp_order :: "string list"

definition NewKnownPrefixes :: "int \<Rightarrow> (string, KnownPrefixes) result" where
  "NewKnownPrefixes cap =
     (if cap \<le> 0 then Inl ''capacity must be positive''
      else Inr \<lparr>kp_capacity = cap, kp_toks = [], kp_order = []\<rparr>)"

definition kp_touch :: "string \<Rightarrow> KnownPrefixes \<Rightarrow> KnownPrefixes" where
  "kp_touch key k = k\<lparr>kp_order := remove1 key (kp_order k) @ [key]\<rparr>"

text \<open>\<^verbatim>\<open>Record\<close>; \<open>None\<close> is the panic of \<^verbatim>\<open>k.order[0]\<close> on an empty slice.\<close>

definition kp_Record :: "string \<Rightarrow> int \<Rightarrow> KnownPrefixes \<Rightarrow> KnownPrefixes option" where
  "kp_Record key estTokens k =
     (let evict = (map_of (kp_toks k) key = None \<and> int (length (kp_toks k)) \<ge> kp_capacity k)
      in if evict \<and> kp_order k = [] then None
         else
           let k' = (if evict
                     then k\<lparr>kp_order := tl (kp_order k), kp_toks := AList.delete (hd (kp_order k)) (kp_toks k)\<rparr>
                     else k)
           in Some (kp_touch key (k'\<lparr>kp_toks := AList.update key estTokens (kp_toks k')\<rparr>)))"

definition kp_Forget :: "string \<Rightarrow> KnownPrefixes \<Rightarrow> KnownPrefixes" where
  "kp_Forget key k =
     (if map_of (kp_toks k) key = None then k
      else k\<lparr>kp_toks := AList.delete key (kp_toks k), kp_order := remove1 key (kp_order k)\<rparr>)"

definition kp_HotTokens :: "string \<Rightarrow> KnownPrefixes \<Rightarrow> int \<times> KnownPrefixes" where
  "kp_HotTokens key k =
     (case map_of (kp_toks k) key of None \<Rightarrow> (0, k) | Some v \<Rightarrow> (v, kp_touch key k))"


section \<open>The decision\<close>

record AdmissionDecision =
  Route :: string
  Reason :: string
  EstNewTokens :: int

record AdmissionInput =
  PrefixTokens :: int
  TailTokens :: int
  HotPrefixTokens :: int
  ResidentTokens :: int
  Threshold :: int
  APrefillAvailable :: bool

definition new_tokens :: "AdmissionInput \<Rightarrow> int" where
  "new_tokens i =
     (let n = PrefixTokens i - HotPrefixTokens i;
          n' = (if n < 0 then 0 else n) + TailTokens i
      in if ResidentTokens i > 0
         then (let m = PrefixTokens i + TailTokens i - ResidentTokens i in if m < 0 then 0 else m)
         else n')"

definition ClassifyAdmission :: "AdmissionInput \<Rightarrow> AdmissionDecision" where
  "ClassifyAdmission i =
     (let threshold = (if Threshold i = 0 then PrefillThresholdTokens else Threshold i);
          newTokens = new_tokens i
      in if \<not> APrefillAvailable i then \<lparr>Route = ''decode'', Reason = ''prefill-unavailable'', EstNewTokens = newTokens\<rparr>
         else if newTokens \<ge> threshold then \<lparr>Route = ''prefill'', Reason = ''large-new-prefill'', EstNewTokens = newTokens\<rparr>
         else if HotPrefixTokens i > 0 \<and> PrefixTokens i \<le> HotPrefixTokens i + threshold
           then \<lparr>Route = ''decode'', Reason = ''prefix-hot'', EstNewTokens = newTokens\<rparr>
         else \<lparr>Route = ''decode'', Reason = ''small-new-decode'', EstNewTokens = newTokens\<rparr>)"

datatype Decision = DecodeDirect | PrefillThenHandoff

definition Decision_String :: "Decision \<Rightarrow> string" where
  "Decision_String d = (if d = PrefillThenHandoff then ''prefill-then-handoff'' else ''decode-direct'')"

definition Admit :: "int \<Rightarrow> bool \<Rightarrow> Decision" where
  "Admit estNew prefixHot =
     (let i = \<lparr>PrefixTokens = 0, TailTokens = estNew, HotPrefixTokens = (if prefixHot then 1 else 0),
               ResidentTokens = 0, Threshold = 0, APrefillAvailable = True\<rparr>
      in if Route (ClassifyAdmission i) = ''prefill'' then PrefillThenHandoff else DecodeDirect)"


section \<open>Last prompts\<close>

record lastPrompts =
  lp_capacity :: int
  lp_ids :: "(string \<times> int list) list"
  lp_order :: "string list"

definition newLastPrompts :: "int \<Rightarrow> lastPrompts" where
  "newLastPrompts cap = \<lparr>lp_capacity = (if cap \<le> 0 then 4 else cap), lp_ids = [], lp_order = []\<rparr>"

text \<open>The comparison loop: \<open>i\<close> advances while both slices have an equal element there.\<close>

fun common_len :: "int list \<Rightarrow> int list \<Rightarrow> nat" where
  "common_len (x # xs) (y # ys) = (if x = y then Suc (common_len xs ys) else 0)"
| "common_len _ _ = 0"

definition commonPrefix :: "string \<Rightarrow> int list \<Rightarrow> lastPrompts \<Rightarrow> nat" where
  "commonPrefix key ids l = (case map_of (lp_ids l) key of None \<Rightarrow> 0 | Some prev \<Rightarrow> common_len prev ids)"

definition bestPrefix :: "string \<Rightarrow> string \<Rightarrow> int list \<Rightarrow> lastPrompts \<Rightarrow> nat" where
  "bestPrefix ckey pkey ids l =
     (let n = commonPrefix ckey ids l
      in if ckey = pkey then n
         else (let m = commonPrefix pkey ids l in if m > n then m else n))"

definition lp_remember :: "string \<Rightarrow> int list \<Rightarrow> lastPrompts \<Rightarrow> lastPrompts option" where
  "lp_remember key ids l =
     (let evict = (map_of (lp_ids l) key = None \<and> int (length (lp_ids l)) \<ge> lp_capacity l)
      in if evict \<and> lp_order l = [] then None
         else
           let l' = (if evict
                     then l\<lparr>lp_order := tl (lp_order l), lp_ids := AList.delete (hd (lp_order l)) (lp_ids l)\<rparr>
                     else l)
           in Some (l'\<lparr>lp_ids := AList.update key ids (lp_ids l'), lp_order := remove1 key (lp_order l') @ [key]\<rparr>))"

definition lp_forget :: "string \<Rightarrow> lastPrompts \<Rightarrow> lastPrompts" where
  "lp_forget key l =
     (if map_of (lp_ids l) key = None then l
      else l\<lparr>lp_ids := AList.delete key (lp_ids l), lp_order := remove1 key (lp_order l)\<rparr>)"


section \<open>Cost model\<close>

definition costBuckets :: "int list" where
  "costBuckets = [16384, 49152, 2 ^ 30]"

record costModel =
  ppDecode :: "float64 list"
  ppPrefill :: "float64 list"
  handoffPerTk :: float64
  handoffFixed :: float64
  seenDec :: "bool list"
  seenPre :: "bool list"

definition newCostModel :: costModel where
  "newCostModel =
     \<lparr>ppDecode = [2270, 1400, 1200], ppPrefill = [2080, 1830, 1440], handoffPerTk = 45 / 1000,
      handoffFixed = 200, seenDec = [False, False, False], seenPre = [False, False, False]\<rparr>"

fun bucket_from :: "int list \<Rightarrow> nat \<Rightarrow> int \<Rightarrow> nat" where
  "bucket_from [] i tokens = length costBuckets - 1"
| "bucket_from (b # bs) i tokens = (if tokens \<le> b then i else bucket_from bs (Suc i) tokens)"

definition bucketOf :: "int \<Rightarrow> nat" where
  "bucketOf tokens = bucket_from costBuckets 0 tokens"

definition prefillCheaper :: "int \<Rightarrow> int \<Rightarrow> costModel \<Rightarrow> bool" where
  "prefillCheaper ttl newTokens c =
     (if ttl \<le> 0 then False
      else
        let b = bucketOf ttl;
            direct = of_int newTokens / ppDecode c ! b * 1000;
            pre = of_int ttl / ppPrefill c ! b * 1000 + handoffFixed c + of_int ttl * handoffPerTk c
        in pre < direct)"

definition costAlpha :: float64 where "costAlpha = 3 / 10"

definition ema :: "float64 \<Rightarrow> float64 \<Rightarrow> bool \<Rightarrow> float64" where
  "ema cur obs seen = (if \<not> seen \<or> cur \<le> 0 then obs else cur + costAlpha * (obs - cur))"

text \<open>\<^verbatim>\<open>timingInt\<close> and \<^verbatim>\<open>timingFloat\<close> of \<^verbatim>\<open>gateway.go\<close>: \<open>None\<close> is \<^verbatim>\<open>(0, false)\<close>.\<close>

definition timingInt :: "Body \<Rightarrow> string \<Rightarrow> int option" where
  "timingInt resp key =
     (case field resp ''timings'' of
        Obj tm \<Rightarrow> (case field tm key of Num v \<Rightarrow> Some v | Flt v \<Rightarrow> Some (go_int v) | _ \<Rightarrow> None)
      | _ \<Rightarrow> None)"

definition timingFloat :: "Body \<Rightarrow> string \<Rightarrow> float64 option" where
  "timingFloat resp key =
     (case field resp ''timings'' of
        Obj tm \<Rightarrow> (case field tm key of Num v \<Rightarrow> Some (of_int v) | Flt v \<Rightarrow> Some v | _ \<Rightarrow> None)
      | _ \<Rightarrow> None)"

definition sum_ms :: "Record \<Rightarrow> float64" where
  "sum_ms flds =
     foldl (\<lambda>ms k. case field flds k of Flt v \<Rightarrow> ms + v | _ \<Rightarrow> ms) 0 [''save_ms'', ''fetch_ms'', ''restore_ms'']"

definition observe_rate :: "Record \<Rightarrow> int \<Rightarrow> costModel \<Rightarrow> costModel" where
  "observe_rate flds toks c =
     (case field flds ''prefill_pp'' of
        Flt pp \<Rightarrow>
          if pp > 0 \<and> toks > 0 then
            let b = bucketOf toks
            in c\<lparr>ppPrefill := (ppPrefill c)[b := ema (ppPrefill c ! b) pp (seenPre c ! b)],
                 seenPre := (seenPre c)[b := True]\<rparr>
          else c
      | _ \<Rightarrow> c)"

definition observe_handoff :: "Record \<Rightarrow> int \<Rightarrow> costModel \<Rightarrow> costModel" where
  "observe_handoff flds toks c =
     (let ms = sum_ms flds
      in if ms > 0 \<and> toks > 0 then
           (let per = (ms - handoffFixed c) / of_int toks
            in if per > 0 then c\<lparr>handoffPerTk := ema (handoffPerTk c) per True\<rparr> else c)
         else c)"

definition cm_observe :: "Record \<Rightarrow> Body \<Rightarrow> bool \<Rightarrow> costModel \<Rightarrow> costModel" where
  "cm_observe flds resp viaPrefill c =
     (if viaPrefill then
        let toks = (case field flds ''tokens'' of Num n \<Rightarrow> n | _ \<Rightarrow> 0)
        in observe_handoff flds toks (observe_rate flds toks c)
      else
        case (timingInt resp ''prompt_n'', timingFloat resp ''prompt_ms'') of
          (Some pn, Some pms) \<Rightarrow>
            if pn \<ge> 2048 \<and> pms > 0 then
              let b = bucketOf pn
              in c\<lparr>ppDecode := (ppDecode c)[b := ema (ppDecode c ! b) (of_int pn / pms * 1000) (seenDec c ! b)],
                   seenDec := (seenDec c)[b := True]\<rparr>
            else c
        | _ \<Rightarrow> c)"



section \<open>The registries satisfy the contract\<close>

definition kp_inv :: "KnownPrefixes \<Rightarrow> bool" where
  "kp_inv k \<longleftrightarrow> reg_inv (kp_capacity k) (kp_toks k) (kp_order k)"

definition lp_inv :: "lastPrompts \<Rightarrow> bool" where
  "lp_inv l \<longleftrightarrow> reg_inv (lp_capacity l) (lp_ids l) (lp_order l)"

lemma kp_Record_room:
  assumes "kp_inv k" "reg_room (kp_capacity k) (kp_toks k) (kp_order k) key = (m, ord)"
  shows "kp_Record key v k = Some (k\<lparr>kp_toks := AList.update key v m, kp_order := remove1 key ord @ [key]\<rparr>)"
  using assms reg_full_nonempty[of "kp_capacity k" "kp_toks k" "kp_order k"]
  by (auto simp: kp_Record_def kp_inv_def kp_touch_def reg_room_def Let_def split: if_splits)

lemma lp_remember_room:
  assumes "lp_inv l" "reg_room (lp_capacity l) (lp_ids l) (lp_order l) key = (m, ord)"
  shows "lp_remember key v l = Some (l\<lparr>lp_ids := AList.update key v m, lp_order := remove1 key ord @ [key]\<rparr>)"
  using assms reg_full_nonempty[of "lp_capacity l" "lp_ids l" "lp_order l"]
  by (auto simp: lp_remember_def lp_inv_def reg_room_def Let_def split: if_splits)

lemma reg_put_contract:
  assumes "reg_inv c m ord" "reg_room c m ord k = (m', ord')"
  shows "reg_inv c (AList.update k v m') (remove1 k ord' @ [k])"
    "map_of (AList.update k v m') =
       (if evicts (nat c) ord k then (map_of m)(hd ord := None, k \<mapsto> v) else (map_of m)(k \<mapsto> v))"
    "remove1 k ord' = (if evicts (nat c) ord k then tl ord else remove1 k ord)"
proof -
  have ev: "evicts (nat c) ord k \<longleftrightarrow> k \<notin> set ord \<and> c \<le> int (length ord)"
    by (simp add: evicts_def nat_le_iff)
  show "reg_inv c (AList.update k v m') (remove1 k ord' @ [k])"
    by (rule reg_update(1)[OF reg_room_ok(1,2)[OF assms]])
  show "map_of (AList.update k v m') =
       (if evicts (nat c) ord k then (map_of m)(hd ord := None, k \<mapsto> v) else (map_of m)(k \<mapsto> v))"
    unfolding ev update_conv' reg_room_ok(5)[OF assms] by simp
  have "k \<notin> set (tl ord)" if "k \<notin> set ord" using that by (cases ord) auto
  then show "remove1 k ord' = (if evicts (nat c) ord k then tl ord else remove1 k ord)"
    unfolding ev reg_room_ok(4)[OF assms] by (simp add: remove1_idem)
qed

lemma reg_delete_contract:
  assumes "reg_inv c m ord"
  shows "reg_inv c (AList.delete k m) (remove1 k ord)" "map_of (AList.delete k m) = (map_of m)(k := None)"
    "map_of m k = None \<Longrightarrow> (map_of m)(k := None) = map_of m"
  using reg_delete[OF assms] by (auto simp: delete_conv')

interpretation kp: lru_map kp_inv "\<lambda>k. nat (kp_capacity k)" "\<lambda>k. map_of (kp_toks k)" kp_order kp_Record kp_Forget
proof
  fix k :: KnownPrefixes and key v k'
  assume k: "kp_inv k"
  then have r: "reg_inv (kp_capacity k) (kp_toks k) (kp_order k)" by (simp add: kp_inv_def)
  show "set (kp_order k) = dom (map_of (kp_toks k))" using reg_dom[OF r] by simp
  show "distinct (kp_order k)" "length (kp_order k) \<le> nat (kp_capacity k)" "0 < nat (kp_capacity k)"
    using r by (auto simp: reg_inv_def)
  obtain m ord where room: "reg_room (kp_capacity k) (kp_toks k) (kp_order k) key = (m, ord)" by fastforce
  note put = kp_Record_room[OF k room, of v] reg_put_contract[OF r room]
  show "\<exists>s'. kp_Record key v k = Some s' \<and> kp_inv s' \<and> nat (kp_capacity s') = nat (kp_capacity k) \<and>
      map_of (kp_toks s') = (if evicts (nat (kp_capacity k)) (kp_order k) key
        then (map_of (kp_toks k))(hd (kp_order k) := None, key \<mapsto> v) else (map_of (kp_toks k))(key \<mapsto> v))"
    using put by (simp add: kp_inv_def)
  show "kp_inv (kp_Forget key k) \<and> nat (kp_capacity (kp_Forget key k)) = nat (kp_capacity k) \<and>
      map_of (kp_toks (kp_Forget key k)) = (map_of (kp_toks k))(key := None)"
    using reg_delete_contract[OF r, of key] r by (simp add: kp_Forget_def kp_inv_def)
  show "kp_order k' = (if evicts (nat (kp_capacity k)) (kp_order k) key then tl (kp_order k)
      else remove1 key (kp_order k)) @ [key]" if "kp_Record key v k = Some k'"
    using that put by auto
qed

interpretation lp: lru_map lp_inv "\<lambda>l. nat (lp_capacity l)" "\<lambda>l. map_of (lp_ids l)" lp_order lp_remember lp_forget
proof
  fix l :: lastPrompts and key v l'
  assume l: "lp_inv l"
  then have r: "reg_inv (lp_capacity l) (lp_ids l) (lp_order l)" by (simp add: lp_inv_def)
  show "set (lp_order l) = dom (map_of (lp_ids l))" using reg_dom[OF r] by simp
  show "distinct (lp_order l)" "length (lp_order l) \<le> nat (lp_capacity l)" "0 < nat (lp_capacity l)"
    using r by (auto simp: reg_inv_def)
  obtain m ord where room: "reg_room (lp_capacity l) (lp_ids l) (lp_order l) key = (m, ord)" by fastforce
  note put = lp_remember_room[OF l room, of v] reg_put_contract[OF r room]
  show "\<exists>s'. lp_remember key v l = Some s' \<and> lp_inv s' \<and> nat (lp_capacity s') = nat (lp_capacity l) \<and>
      map_of (lp_ids s') = (if evicts (nat (lp_capacity l)) (lp_order l) key
        then (map_of (lp_ids l))(hd (lp_order l) := None, key \<mapsto> v) else (map_of (lp_ids l))(key \<mapsto> v))"
    using put by (simp add: lp_inv_def)
  show "lp_inv (lp_forget key l) \<and> nat (lp_capacity (lp_forget key l)) = nat (lp_capacity l) \<and>
      map_of (lp_ids (lp_forget key l)) = (map_of (lp_ids l))(key := None)"
    using reg_delete_contract[OF r, of key] r by (simp add: lp_forget_def lp_inv_def)
  show "lp_order l' = (if evicts (nat (lp_capacity l)) (lp_order l) key then tl (lp_order l)
      else remove1 key (lp_order l)) @ [key]" if "lp_remember key v l = Some l'"
    using that put by auto
qed


section \<open>Histories of the prefix registry\<close>

datatype kp_op = KRecord string int | KForget string | KHot string

fun kp_run :: "kp_op list \<Rightarrow> KnownPrefixes \<Rightarrow> KnownPrefixes option" where
  "kp_run [] k = Some k"
| "kp_run (KRecord key n # ops) k = (case kp_Record key n k of None \<Rightarrow> None | Some k' \<Rightarrow> kp_run ops k')"
| "kp_run (KForget key # ops) k = kp_run ops (kp_Forget key k)"
| "kp_run (KHot key # ops) k = kp_run ops (snd (kp_HotTokens key k))"

text \<open>The last estimate recorded for a key and not forgotten since, 0 when there is none.\<close>

fun last_est :: "kp_op list \<Rightarrow> string \<Rightarrow> int \<Rightarrow> int" where
  "last_est [] key d = d"
| "last_est (KRecord k n # ops) key d = last_est ops key (if k = key then n else d)"
| "last_est (KForget k # ops) key d = last_est ops key (if k = key then 0 else d)"
| "last_est (KHot k # ops) key d = last_est ops key d"

lemma kp_HotTokens_ok:
  assumes "kp_inv k"
  shows "kp_inv (snd (kp_HotTokens key k))" "kp_toks (snd (kp_HotTokens key k)) = kp_toks k"
    "kp_capacity (snd (kp_HotTokens key k)) = kp_capacity k"
proof -
  have "key \<in> set (kp_order k)" if "map_of (kp_toks k) key = Some v" for v
    using kp.keys_dom[OF assms] that by auto
  then show "kp_inv (snd (kp_HotTokens key k))"
    using assms by (auto simp: kp_HotTokens_def kp_touch_def kp_inv_def reg_inv_def length_remove1 of_nat_diff Suc_le_eq
        split: option.splits dest: length_pos_if_in_set)
  show "kp_toks (snd (kp_HotTokens key k)) = kp_toks k" "kp_capacity (snd (kp_HotTokens key k)) = kp_capacity k"
    by (auto simp: kp_HotTokens_def kp_touch_def split: option.splits)
qed

definition hot :: "KnownPrefixes \<Rightarrow> string \<Rightarrow> int" where
  "hot k key = (case map_of (kp_toks k) key of None \<Rightarrow> 0 | Some v \<Rightarrow> v)"

lemma fst_HotTokens: "fst (kp_HotTokens key k) = hot k key"
  by (simp add: kp_HotTokens_def hot_def split: option.splits)

lemma kp_run_ok:
  "kp_inv k \<Longrightarrow> hot k key \<in> {0, d} \<Longrightarrow>
   \<exists>k'. kp_run ops k = Some k' \<and> kp_inv k' \<and> kp_capacity k' = kp_capacity k \<and> hot k' key \<in> {0, last_est ops key d}"
proof (induction ops arbitrary: k d)
  case (Cons op ops)
  show ?case
  proof (cases op)
    case (KRecord j n)
    obtain k1 where k1: "kp_Record j n k = Some k1" "kp_inv k1" "nat (kp_capacity k1) = nat (kp_capacity k)"
      "map_of (kp_toks k1) = (if evicts (nat (kp_capacity k)) (kp_order k) j
        then (map_of (kp_toks k))(hd (kp_order k) := None, j \<mapsto> n) else (map_of (kp_toks k))(j \<mapsto> n))"
      using kp.put_ok[OF Cons.prems(1)] by blast
    have "kp_capacity k1 = kp_capacity k"
      using k1(2,3) Cons.prems(1) by (auto simp: kp_inv_def reg_inv_def)
    moreover have "hot k1 key \<in> {0, if j = key then n else d}"
      using k1(4) Cons.prems(2) by (auto simp: hot_def split: if_splits)
    ultimately show ?thesis using Cons.IH[OF k1(2)] k1(1) KRecord by fastforce
  next
    case (KForget j)
    note f = kp.forget_ok[OF Cons.prems(1), of j]
    have "kp_capacity (kp_Forget j k) = kp_capacity k" by (simp add: kp_Forget_def)
    moreover have "hot (kp_Forget j k) key \<in> {0, if j = key then 0 else d}"
      using f Cons.prems(2) by (auto simp: hot_def)
    ultimately show ?thesis using Cons.IH[of "kp_Forget j k"] f KForget by fastforce
  next
    case (KHot j)
    note h = kp_HotTokens_ok[OF Cons.prems(1), of j]
    have "hot (snd (kp_HotTokens j k)) key \<in> {0, d}" using h(2) Cons.prems(2) by (simp add: hot_def)
    then show ?thesis using Cons.IH[OF h(1)] h(3) KHot by fastforce
  qed
qed simp

lemma kp_run_records: "kp_run (map (\<lambda>(j, w). KRecord j w) ps) k = kp.run (map Inl ps) k"
  by (induction ps arbitrary: k) (auto split: option.splits)

lemma kp_run_append: "kp_run (a @ b) k = (case kp_run a k of None \<Rightarrow> None | Some k' \<Rightarrow> kp_run b k')"
  by (induction a k rule: kp_run.induct) (auto split: option.splits)

lemma New_inv: "NewKnownPrefixes cap = Inr k \<Longrightarrow> kp_inv k \<and> kp_capacity k = cap \<and> 0 < cap"
  by (auto simp: NewKnownPrefixes_def kp_inv_def reg_inv_def split: if_splits)


section \<open>Common prefixes\<close>

lemma common_len_bound: "common_len xs ys \<le> length xs \<and> common_len xs ys \<le> length ys"
  by (induction xs ys rule: common_len.induct) auto

lemma common_len_take: "take (common_len xs ys) xs = take (common_len xs ys) ys"
  by (induction xs ys rule: common_len.induct) auto

lemma common_len_max: "n \<le> length xs \<Longrightarrow> n \<le> length ys \<Longrightarrow> take n xs = take n ys \<Longrightarrow> n \<le> common_len xs ys"
proof (induction xs ys arbitrary: n rule: common_len.induct)
  case (1 x xs y ys)
  then show ?case by (cases n) auto
qed auto


section \<open>Cost model invariant\<close>

definition cm_inv :: "costModel \<Rightarrow> bool" where
  "cm_inv c \<longleftrightarrow> length (ppDecode c) = 3 \<and> length (ppPrefill c) = 3 \<and> length (seenDec c) = 3 \<and> length (seenPre c) = 3 \<and>
     (\<forall>r\<in>set (ppDecode c). 0 < r) \<and> (\<forall>r\<in>set (ppPrefill c). 0 < r) \<and> 0 < handoffPerTk c \<and> handoffFixed c = 200"

lemma bucketOf_lt: "bucketOf t < 3"
  by (simp add: bucketOf_def costBuckets_def)

lemma ema_pos: "0 < obs \<Longrightarrow> 0 < ema cur obs seen"
  by (auto simp: ema_def costAlpha_def field_simps)

lemma update_pos: "\<forall>r\<in>set xs. 0 < r \<Longrightarrow> 0 < x \<Longrightarrow> \<forall>r\<in>set (xs[i := x]). 0 < (r :: real)"
  using set_update_subset_insert by fastforce

lemma cm_inv_update:
  assumes "cm_inv c" "0 < x"
  shows "cm_inv (c\<lparr>ppPrefill := (ppPrefill c)[b := x], seenPre := (seenPre c)[b := True]\<rparr>)"
    "cm_inv (c\<lparr>ppDecode := (ppDecode c)[b := x], seenDec := (seenDec c)[b := True]\<rparr>)"
    "cm_inv (c\<lparr>handoffPerTk := x\<rparr>)"
proof -
  have "\<forall>r\<in>set ((ppPrefill c)[b := x]). 0 < r" "\<forall>r\<in>set ((ppDecode c)[b := x]). 0 < r"
    by (rule update_pos; use assms in \<open>simp add: cm_inv_def\<close>)+
  then show "cm_inv (c\<lparr>ppPrefill := (ppPrefill c)[b := x], seenPre := (seenPre c)[b := True]\<rparr>)"
    "cm_inv (c\<lparr>ppDecode := (ppDecode c)[b := x], seenDec := (seenDec c)[b := True]\<rparr>)"
    "cm_inv (c\<lparr>handoffPerTk := x\<rparr>)"
    using assms unfolding cm_inv_def by simp_all
qed

lemma observe_rate_inv: "cm_inv c \<Longrightarrow> cm_inv (observe_rate flds toks c)"
  by (cases "field flds ''prefill_pp''") (simp_all add: observe_rate_def Let_def cm_inv_update ema_pos)

lemma observe_handoff_inv: "cm_inv c \<Longrightarrow> cm_inv (observe_handoff flds toks c)"
  by (simp add: observe_handoff_def Let_def cm_inv_update ema_pos)

lemma cm_observe_inv: "cm_inv c \<Longrightarrow> cm_inv (cm_observe flds resp via c)"
  using observe_rate_inv observe_handoff_inv
  by (cases "timingInt resp ''prompt_n''"; cases "timingFloat resp ''prompt_ms''")
     (simp_all add: cm_observe_def Let_def cm_inv_update ema_pos)


section \<open>Properties\<close>

text \<open>
  The registry of hot prefixes is safe under every history of \<^verbatim>\<open>Record\<close>, \<^verbatim>\<open>Forget\<close> and \<^verbatim>\<open>HotTokens\<close>
  from a fresh one: no call panics on an empty order slice, there are never more entries than the
  capacity, the order slice lists exactly the keys of the map, once each, and a key reads either as
  unknown or as the last estimate recorded for it since it was last forgotten.
\<close>

theorem KnownPrefixes_safe:
  assumes "NewKnownPrefixes cap = Inr k0"
  shows "\<exists>k. kp_run ops k0 = Some k \<and> int (length (kp_toks k)) \<le> cap \<and> distinct (kp_order k) \<and>
    set (kp_order k) = fst ` set (kp_toks k) \<and> fst (kp_HotTokens key k) \<in> {0, last_est ops key 0}"
proof -
  note n = New_inv[OF assms]
  have "hot k0 key \<in> {0, 0}" using assms by (auto simp: NewKnownPrefixes_def hot_def split: if_splits)
  then obtain k where k: "kp_run ops k0 = Some k" "kp_inv k" "kp_capacity k = cap" "hot k key \<in> {0, last_est ops key 0}"
    using kp_run_ok[of k0 key 0 ops] n by auto
  then show ?thesis
    using reg_length[of "kp_capacity k" "kp_toks k" "kp_order k"] by (auto simp: kp_inv_def reg_inv_def fst_HotTokens)
qed

theorem KnownPrefixes_safe_witness:
  "\<exists>k. kp_run [KRecord ''a'' 3, KHot ''a'', KRecord ''b'' 5] \<lparr>kp_capacity = 1, kp_toks = [], kp_order = []\<rparr> = Some k \<and>
     int (length (kp_toks k)) \<le> 1"
  using KnownPrefixes_safe[of 1 "\<lparr>kp_capacity = 1, kp_toks = [], kp_order = []\<rparr>"
      "[KRecord ''a'' 3, KHot ''a'', KRecord ''b'' 5]" "[]"]
  by (auto simp: NewKnownPrefixes_def)

text \<open>
  C31. The registry is least-recently-used: a prefix recorded after any history is still known, with its
  estimate, after records of fewer than \<open>capacity\<close> other keys.
\<close>

theorem KnownPrefixes_recent:
  assumes "NewKnownPrefixes cap = Inr k0" "key \<notin> fst ` set ps" "int (card (fst ` set ps)) < cap"
  shows "\<exists>k. kp_run (ops @ KRecord key n # map (\<lambda>(j, w). KRecord j w) ps) k0 = Some k \<and>
    fst (kp_HotTokens key k) = n"
proof -
  obtain k1 where k1: "kp_run ops k0 = Some k1" "kp_inv k1" "kp_capacity k1 = cap"
    using kp_run_ok[of k0 key "hot k0 key" ops] New_inv[OF assms(1)] by auto
  obtain k2 where k2: "kp_Record key n k1 = Some k2" "kp_inv k2" using kp.put_ok[OF k1(2)] by blast
  obtain k3 where k3: "kp.run (map Inl ps) k2 = Some k3" using kp.run_total[OF k2(2)] by blast
  have "map_of (kp_toks k3) key = Some n"
    by (rule kp.recent_survives[OF k1(2) k2(1) k3 assms(2)]) (use assms(3) k1(3) in linarith)
  then have "fst (kp_HotTokens key k3) = n" by (simp add: fst_HotTokens hot_def)
  then show ?thesis using k1(1) k2(1) k3 by (simp add: kp_run_append kp_run_records)
qed

theorem KnownPrefixes_recent_witness:
  "\<exists>k. kp_run ([KRecord ''x'' 1, KRecord ''y'' 2] @ KRecord ''a'' 7 # map (\<lambda>(j, w). KRecord j w) [(''b'', 1)])
       \<lparr>kp_capacity = 2, kp_toks = [], kp_order = []\<rparr> = Some k \<and> fst (kp_HotTokens ''a'' k) = 7"
  by (rule KnownPrefixes_recent[of 2]) (simp_all add: NewKnownPrefixes_def)

text \<open>
  The admission rule: a request goes to the prefill node exactly when one is available and its new
  tokens reach the threshold, so admission never depends on an unavailable prefill role; and when the
  credits are consistent (hot part within the prefix, resident total covering the hot part) the new
  tokens are the prompt minus the larger credit, never negative.
\<close>

theorem ClassifyAdmission_rule:
  assumes "0 \<le> TailTokens i" "0 \<le> HotPrefixTokens i" "HotPrefixTokens i \<le> PrefixTokens i"
    "ResidentTokens i = 0 \<or> HotPrefixTokens i \<le> ResidentTokens i"
  shows "Route (ClassifyAdmission i) =
      (if APrefillAvailable i \<and> EstNewTokens (ClassifyAdmission i) \<ge>
            (if Threshold i = 0 then PrefillThresholdTokens else Threshold i)
       then ''prefill'' else ''decode'') \<and>
    EstNewTokens (ClassifyAdmission i) =
      max 0 (PrefixTokens i + TailTokens i - max (HotPrefixTokens i) (ResidentTokens i))"
  using assms by (auto simp: ClassifyAdmission_def new_tokens_def Let_def)

theorem ClassifyAdmission_rule_witness:
  "EstNewTokens (ClassifyAdmission \<lparr>PrefixTokens = 5000, TailTokens = 9000, HotPrefixTokens = 4000,
       ResidentTokens = 6000, Threshold = 0, APrefillAvailable = True\<rparr>) =
     max 0 (5000 + 9000 - max 4000 6000)"
  using ClassifyAdmission_rule[of "\<lparr>PrefixTokens = 5000, TailTokens = 9000, HotPrefixTokens = 4000,
       ResidentTokens = 6000, Threshold = 0, APrefillAvailable = True\<rparr>"]
  by simp

text \<open>
  C33. The two admission interfaces agree: \<^verbatim>\<open>Admit\<close> hands off exactly the requests whose new tokens reach
  the default threshold, and the heat marker never changes its answer.
\<close>

theorem Admit_iff: "Admit n prefixHot = PrefillThenHandoff \<longleftrightarrow> n \<ge> PrefillThresholdTokens"
  by (simp add: Admit_def ClassifyAdmission_def new_tokens_def PrefillThresholdTokens_def Let_def)

text \<open>
  The estimate of an ASCII text is a quarter of its bytes, an estimate is never negative, and without
  a tokenizer it never exceeds a quarter of the bytes of the text.
\<close>

theorem EstimateTokens_bounds:
  "0 \<le> EstimateTokens tx tok \<and> EstimateTokens tx None \<le> int (length tx) div 4 \<and>
   ((\<forall>c\<in>set tx. byte_of c < 128) \<longrightarrow> EstimateTokens tx None = int (length tx) div 4)"
  using RuneCount_le[of tx] RuneCount_ascii[of tx]
  by (auto simp: EstimateTokens_def charsPerToken_def zdiv_mono1 split: option.splits)

theorem EstimateTokens_bounds_witness: "EstimateTokens ''hola mundo'' None = 2"
  using EstimateTokens_bounds[of "''hola mundo''" None] by (simp add: byte_of_def)

text \<open>
  C35. The resident part of the next prompt: after \<^verbatim>\<open>remember\<close>, \<^verbatim>\<open>commonPrefix\<close> is the length of the longest
  common prefix of the two token lists, and \<^verbatim>\<open>bestPrefix\<close> never credits less than the shared record.
\<close>

theorem commonPrefix_longest:
  assumes "lp_inv l"
  shows "\<exists>l'. lp_remember key prev l = Some l' \<and> lp_inv l' \<and>
    (let n = commonPrefix key ids l' in
       n \<le> length ids \<and> take n prev = take n ids \<and>
       (\<forall>m. m \<le> length prev \<and> m \<le> length ids \<and> take m prev = take m ids \<longrightarrow> m \<le> n) \<and>
       n \<le> bestPrefix key pkey ids l' \<and> commonPrefix pkey ids l' \<le> bestPrefix key pkey ids l')"
proof -
  obtain l' where l': "lp_remember key prev l = Some l'" "lp_inv l'" using lp.put_ok[OF assms] by blast
  have n: "commonPrefix key ids l' = common_len prev ids"
    using lp.put_lookup[OF assms l'(1)] by (simp add: commonPrefix_def)
  have "commonPrefix key ids l' \<le> bestPrefix key pkey ids l'" "commonPrefix pkey ids l' \<le> bestPrefix key pkey ids l'"
    by (simp_all add: bestPrefix_def Let_def)
  moreover have "\<forall>m. m \<le> length prev \<and> m \<le> length ids \<and> take m prev = take m ids \<longrightarrow> m \<le> commonPrefix key ids l'"
    using common_len_max n by simp
  ultimately show ?thesis
    unfolding Let_def using l' common_len_bound[of prev ids] common_len_take[of prev ids] n by (intro exI[of _ l']) simp
qed

theorem commonPrefix_longest_witness:
  "\<exists>l'. lp_remember ''c'' [1, 2, 3] (newLastPrompts 2) = Some l' \<and>
     take (commonPrefix ''c'' [1, 2, 9] l') [1, 2, 3] = take (commonPrefix ''c'' [1, 2, 9] l') [1, 2, 9 :: int]"
  using commonPrefix_longest[of "newLastPrompts 2" "''c''" "[1, 2, 3]" "[1, 2, 9]" "''p''"]
  by (auto simp: lp_inv_def reg_inv_def newLastPrompts_def Let_def)

text \<open>
  The cost model stays usable: from its defaults, after any sequence of observed requests every rate
  is positive (so no division by zero), and then the prefill path is chosen only for a direct time that
  exceeds the fixed handoff cost, and remains chosen when more of the prompt is new.
\<close>

theorem costModel_stays_sound:
  assumes "c = foldl (\<lambda>c (flds, resp, via). cm_observe flds resp via c) newCostModel obs"
  shows "cm_inv c \<and>
    (prefillCheaper ttl new c \<longrightarrow> 0 < new \<and> 200 < of_int new / ppDecode c ! bucketOf ttl * 1000) \<and>
    (prefillCheaper ttl new c \<and> new \<le> new' \<longrightarrow> prefillCheaper ttl new' c)"
proof -
  have inv: "cm_inv (foldl (\<lambda>c (flds, resp, via). cm_observe flds resp via c) c0 obs)" if "cm_inv c0" for c0
    using that by (induction obs arbitrary: c0) (auto simp: cm_observe_inv)
  have c: "cm_inv c" unfolding assms by (rule inv) (simp add: cm_inv_def newCostModel_def)
  let ?d = "ppDecode c ! bucketOf ttl" and ?p = "ppPrefill c ! bucketOf ttl"
  have d: "0 < ?d" "0 < ?p" using c bucketOf_lt[of ttl] by (auto simp: cm_inv_def)
  have pre: "200 < of_int new / ?d * 1000" if "prefillCheaper ttl new c"
  proof -
    have "0 < ttl" "of_int ttl / ?p * 1000 + 200 + of_int ttl * handoffPerTk c < of_int new / ?d * 1000"
      using that c by (auto simp: prefillCheaper_def Let_def cm_inv_def split: if_splits)
    moreover from this have "0 < of_int ttl / ?p * 1000" "0 < of_int ttl * handoffPerTk c"
      using d c by (auto simp: cm_inv_def)
    ultimately show ?thesis by linarith
  qed
  moreover have "0 < new" if "prefillCheaper ttl new c"
  proof (rule ccontr)
    assume "\<not> 0 < new"
    then have "of_int new / ?d * 1000 \<le> 0" using d(1) by (simp add: divide_nonpos_pos)
    then show False using pre[OF that] by simp
  qed
  moreover have "prefillCheaper ttl new' c" if "prefillCheaper ttl new c" "new \<le> new'"
  proof -
    have "of_int new / ?d * 1000 \<le> of_int new' / ?d * 1000" using that(2) d(1) by (simp add: divide_right_mono)
    then show ?thesis using that(1) by (auto simp: prefillCheaper_def Let_def split: if_splits)
  qed
  ultimately show ?thesis using c by blast
qed

theorem costModel_stays_sound_witness: "cm_inv newCostModel"
  using costModel_stays_sound[of newCostModel "[]"] by simp

end
