(* ===== verification/Gateway_Body.thy ===== *)
theory Gateway_Body
  imports Admission
begin

text \<open>
  The readers of request and reply bodies in \<^verbatim>\<open>internal/gateway/gateway.go\<close>: messages, prefix and tail
  texts, conversation seed, tool fields, headers. \<^verbatim>\<open>json.Marshal\<close> is the parameter \<open>marshal\<close>
  (\<open>None\<close> is an error) and \<^verbatim>\<open>strconv.ParseFloat\<close> the parameter \<open>parse\<close>.
\<close>


section \<open>Definitions\<close>

definition messagesOf :: "Body \<Rightarrow> Body list" where
  "messagesOf body =
     (case field body ''messages'' of
        Objs ms \<Rightarrow> ms
      | m \<Rightarrow> concat (map (\<lambda>v. case v of Obj mm \<Rightarrow> [mm] | _ \<Rightarrow> []) (as_arr m)))"

definition has_role :: "string \<Rightarrow> Body \<Rightarrow> bool" where
  "has_role r m \<longleftrightarrow> field m ''role'' = Str r"

fun first_system :: "Body list \<Rightarrow> string" where
  "first_system [] = []"
| "first_system (m # ms) = (if has_role ''system'' m then as_str (field m ''content'') else first_system ms)"

definition systemPromptOf :: "Body \<Rightarrow> string" where
  "systemPromptOf body = first_system (messagesOf body)"

fun first_user :: "Body list \<Rightarrow> string" where
  "first_user [] = []"
| "first_user (m # ms) = (if has_role ''user'' m then as_str (field m ''content'') else first_user ms)"

definition lastUserTextOf :: "Body \<Rightarrow> string" where
  "lastUserTextOf body = first_user (rev (messagesOf body))"

definition toolsTextOf :: "(go_any \<Rightarrow> string option) \<Rightarrow> Body \<Rightarrow> string" where
  "toolsTextOf marshal body =
     (let tools = field body ''tools''
      in if tools = Null then []
         else case marshal tools of None \<Rightarrow> [] | Some b \<Rightarrow> b)"

definition prefixTextOf :: "(go_any \<Rightarrow> string option) \<Rightarrow> Body \<Rightarrow> string" where
  "prefixTextOf marshal body = systemPromptOf body @ toolsTextOf marshal body"

definition turn_text :: "(go_any \<Rightarrow> string option) \<Rightarrow> Body \<Rightarrow> string" where
  "turn_text marshal m =
     (let s = as_str (field m ''content'');
          tc = field m ''tool_calls''
      in if tc = Null then s else case marshal tc of None \<Rightarrow> s | Some b \<Rightarrow> s @ b)"

fun tail_loop :: "(go_any \<Rightarrow> string option) \<Rightarrow> Body list \<Rightarrow> string \<Rightarrow> string" where
  "tail_loop marshal [] out = out"
| "tail_loop marshal (m # ms) out =
     (if has_role ''system'' m then tail_loop marshal ms out
      else tail_loop marshal ms ((if out \<noteq> [] then out @ [CHR 0x0A] else out) @ turn_text marshal m))"

definition tailTextOf :: "(go_any \<Rightarrow> string option) \<Rightarrow> Body \<Rightarrow> string" where
  "tailTextOf marshal body = tail_loop marshal (messagesOf body) []"

definition toolChoiceOf :: "Body \<Rightarrow> string" where
  "toolChoiceOf body =
     (case field body ''tool_choice'' of
        Str tc \<Rightarrow> tc
      | Obj tc \<Rightarrow>
          (let kind = as_str (field tc ''type'')
           in case field tc ''function'' of
                Obj fn \<Rightarrow> (let name = as_str (field fn ''name'') in if name \<noteq> [] then name else kind)
              | _ \<Rightarrow> kind)
      | _ \<Rightarrow> [])"

definition toolsCount :: "Body \<Rightarrow> nat" where
  "toolsCount body = (case field body ''tools'' of Arr ts \<Rightarrow> length ts | _ \<Rightarrow> 0)"

definition toolCallsIn :: "Body \<Rightarrow> nat" where
  "toolCallsIn resp =
     foldl (\<lambda>n c. n + (case field (as_obj (field (as_obj c) ''message'')) ''tool_calls'' of Arr tc \<Rightarrow> length tc | _ \<Rightarrow> 0))
       0 (as_arr (field resp ''choices''))"

definition clip :: "string \<Rightarrow> nat \<Rightarrow> string" where
  "clip s n = (if length s \<le> n then s else take n s)"

definition numberOf :: "go_any \<Rightarrow> float64" where
  "numberOf v = (case v of Num n \<Rightarrow> of_int n | Flt x \<Rightarrow> x | _ \<Rightarrow> 0)"

definition intField :: "Body \<Rightarrow> string \<Rightarrow> int" where
  "intField b key = (case field b key of Flt v \<Rightarrow> go_int v | Num v \<Rightarrow> v | _ \<Rightarrow> 0)"

definition conversationSeedChars :: nat where "conversationSeedChars = 2048"

definition seed_skips :: "Body \<Rightarrow> bool" where
  "seed_skips mm \<longleftrightarrow> as_str (field mm ''role'') \<in> {''system'', ''developer''}"

fun seed_loop :: "(go_any \<Rightarrow> string option) \<Rightarrow> go_any list \<Rightarrow> string \<Rightarrow> string" where
  "seed_loop marshal [] first = first"
| "seed_loop marshal (m # ms) first =
     (case m of
        Obj mm \<Rightarrow>
          if seed_skips mm \<or> first \<noteq> [] then seed_loop marshal ms first
          else
            (case marshal (field mm ''content'') of
               None \<Rightarrow> seed_loop marshal ms first
             | Some b \<Rightarrow>
                 if b = [] then seed_loop marshal ms first
                 else seed_loop marshal ms (if length b > conversationSeedChars then take conversationSeedChars b else b))
      | _ \<Rightarrow> seed_loop marshal ms first)"

definition conversationSeed :: "(go_any \<Rightarrow> string option) \<Rightarrow> Body \<Rightarrow> string" where
  "conversationSeed marshal body = seed_loop marshal (as_arr (field body ''messages'')) []"

text \<open>\<^verbatim>\<open>strings.EqualFold\<close> on header names, which are ASCII tokens.\<close>

definition lower_char :: "char \<Rightarrow> char" where
  "lower_char c = (if 65 \<le> byte_of c \<and> byte_of c \<le> 90 then char_of (byte_of c + 32) else c)"

definition EqualFold :: "string \<Rightarrow> string \<Rightarrow> bool" where
  "EqualFold a b \<longleftrightarrow> map lower_char a = map lower_char b"

fun fold_header :: "Headers \<Rightarrow> string \<Rightarrow> string" where
  "fold_header [] key = []"
| "fold_header ((k, v) # h) key = (if EqualFold k key \<and> v \<noteq> [] then v else fold_header h key)"

definition firstHeader :: "Headers \<Rightarrow> string \<Rightarrow> string" where
  "firstHeader h key = (let v = header h key in if v \<noteq> [] then v else fold_header h key)"

definition headerMs :: "(string \<Rightarrow> float64 option) \<Rightarrow> Headers \<Rightarrow> string \<Rightarrow> float64 \<Rightarrow> float64" where
  "headerMs parse h key d =
     (let v = header h key in if v = [] then d else case parse v of None \<Rightarrow> d | Some f \<Rightarrow> f)"

fun copyMetrics :: "Record \<Rightarrow> Body \<Rightarrow> Record" where
  "copyMetrics dst [] = dst"
| "copyMetrics dst ((k, v) # src) =
     copyMetrics (case v of Num _ \<Rightarrow> AList.update k v dst | Flt _ \<Rightarrow> AList.update k v dst | Bool _ \<Rightarrow> AList.update k v dst | _ \<Rightarrow> dst) src"


section \<open>Lemmas\<close>

lemma seed_loop_done: "first \<noteq> [] \<Longrightarrow> seed_loop marshal ms first = first"
  by (induction ms) (auto split: go_any.splits)

lemma seed_loop_append: "seed_loop marshal (xs @ ys) first = seed_loop marshal ys (seed_loop marshal xs first)"
  by (induction xs arbitrary: first) (auto split: go_any.splits option.splits)

lemma seed_loop_bound: "length first \<le> 2048 \<Longrightarrow> length (seed_loop marshal ms first) \<le> 2048"
  by (induction ms arbitrary: first) (auto simp: conversationSeedChars_def split: go_any.splits option.splits)

lemma field_update: "field (AList.update k v b) j = (if j = k then v else field b j)"
  by (simp add: field_def update_conv')

lemma copyMetrics_field:
  "distinct (map fst src) \<Longrightarrow> field (copyMetrics dst src) k =
     (case map_of src k of
        Some (Num n) \<Rightarrow> Num n | Some (Flt x) \<Rightarrow> Flt x | Some (Bool b) \<Rightarrow> Bool b | _ \<Rightarrow> field dst k)"
proof (induction dst src rule: copyMetrics.induct)
  case (2 dst j v src)
  have "map_of src j = None" using 2(2) by (simp add: map_of_eq_None_iff)
  then show ?case using 2 by (cases v) (auto simp: field_update split: option.splits go_any.splits)
qed (simp split: option.splits)


section \<open>Properties\<close>

text \<open>
  The seed of a conversation stays put as turns are appended: once a request has a non-empty seed,
  every later request of the conversation (the same messages followed by more) has the same one; it is
  at most 2048 bytes, and messages of the system or developer do not affect it.
\<close>

theorem conversationSeed_stable:
  assumes "conversationSeed marshal ((''messages'', Arr ms) # b) \<noteq> []"
  shows "conversationSeed marshal ((''messages'', Arr (ms @ extra)) # b') = conversationSeed marshal ((''messages'', Arr ms) # b) \<and>
    length (conversationSeed marshal ((''messages'', Arr ms) # b)) \<le> 2048 \<and>
    (seed_skips mm \<longrightarrow> conversationSeed marshal ((''messages'', Arr (Obj mm # ms)) # b') =
       conversationSeed marshal ((''messages'', Arr ms) # b))"
  using assms seed_loop_bound[of "[]" marshal ms]
  by (simp add: conversationSeed_def any_access seed_loop_append seed_loop_done)

theorem conversationSeed_stable_witness:
  "conversationSeed (\<lambda>v. case v of Str s \<Rightarrow> Some s | _ \<Rightarrow> None)
     [(''messages'', Arr ([Obj [(''role'', Str ''user''), (''content'', Str ''hi'')]] @ [Obj [(''role'', Str ''user''), (''content'', Str ''more'')]]))] = ''hi''"
  using conversationSeed_stable[of "\<lambda>v. case v of Str s \<Rightarrow> Some s | _ \<Rightarrow> None"
      "[Obj [(''role'', Str ''user''), (''content'', Str ''hi'')]]" "[]"
      "[Obj [(''role'', Str ''user''), (''content'', Str ''more'')]]" "[]" "[]"]
  by (simp add: conversationSeed_def any_access seed_skips_def conversationSeedChars_def)

text \<open>
  Driver metrics never bring content into the record: a field of the source reaches the record only
  as a number or a boolean, with its value; every other field of the record is left as it was.
\<close>

theorem copyMetrics_metrics_only:
  assumes "distinct (map fst src)"
  shows "field (copyMetrics dst src) k =
     (case map_of src k of
        Some (Num n) \<Rightarrow> Num n | Some (Flt x) \<Rightarrow> Flt x | Some (Bool b) \<Rightarrow> Bool b | _ \<Rightarrow> field dst k)"
  by (rule copyMetrics_field[OF assms])

theorem copyMetrics_metrics_only_witness:
  "field (copyMetrics [(''a'', Num 1)] [(''a'', Str ''secret''), (''b'', Flt 2)]) ''a'' = Num 1"
  using copyMetrics_metrics_only[of "[(''a'', Str ''secret''), (''b'', Flt 2)]" "[(''a'', Num 1)]" "''a''"]
  by (simp add: field_def)

end
