(* ===== verification/Policy.thy ===== *)
theory Policy
  imports Go_Data "HOL-Library.List_Lexorder" "HOL-Library.Char_ord"
begin

text \<open>
  The serving policy, \<^verbatim>\<open>internal/gateway/policy.go\<close>: speculative depth from the acceptance rate,
  the consistent-hash ring that gives a conversation its slot, and the canonical form of a prompt.
  SHA-256 and Unicode lower-casing are the parameters \<open>sha\<close> and \<open>lower\<close>.
\<close>


section \<open>Speculative depth\<close>

definition NMaxFloor :: int where "NMaxFloor = 2"
definition NMaxCap :: int where "NMaxCap = 4"

definition NMaxForAlpha :: "float64 \<Rightarrow> (float64, int) result" where
  "NMaxForAlpha alpha =
     (if alpha < 0 \<or> alpha > 1 then Inl alpha
      else
        let n = (if alpha \<ge> 55 / 100 then 3 else 2);
            n = (if n < NMaxFloor then NMaxFloor else n);
            n = (if n > NMaxCap then NMaxCap else n)
        in Inr n)"

definition domainAlpha :: "(string \<times> float64) list" where
  "domainAlpha = [(''code'', 96 / 100), (''technical'', 59 / 100), (''prose'', 39 / 100)]"

text \<open>
  The alternatives of \<^verbatim>\<open>codeMarkers\<close>, each tested at one position; \<^verbatim>\<open>MatchString\<close> tries every position.
\<close>

definition is_ws :: "char \<Rightarrow> bool" where
  "is_ws c \<longleftrightarrow> byte_of c \<in> {9, 10, 12, 13, 32}"

definition is_word :: "char \<Rightarrow> bool" where
  "is_word c \<longleftrightarrow> (let b = byte_of c in (48 \<le> b \<and> b \<le> 57) \<or> (65 \<le> b \<and> b \<le> 90) \<or> (97 \<le> b \<and> b \<le> 122) \<or> b = 95)"

definition starts :: "string \<Rightarrow> string \<Rightarrow> bool" where
  "starts p s \<longleftrightarrow> take (length p) s = p"

text \<open>\<^verbatim>\<open>\s+\w+\<close>: what follows it, if it matches.\<close>

definition ws_word :: "string \<Rightarrow> string option" where
  "ws_word s =
     (let r = dropWhile is_ws s
      in if s = [] \<or> \<not> is_ws (hd s) \<or> r = [] \<or> \<not> is_word (hd r) then None else Some (dropWhile is_word r))"

definition kw_word :: "string \<Rightarrow> string \<Rightarrow> bool" where
  "kw_word kw s \<longleftrightarrow> starts kw s \<and> ws_word (drop (length kw) s) \<noteq> None"

definition def_call :: "string \<Rightarrow> bool" where
  "def_call s \<longleftrightarrow> starts ''def'' s \<and>
     (case ws_word (drop 3 s) of None \<Rightarrow> False | Some r \<Rightarrow> starts ''('' (dropWhile is_ws r))"

definition semicolon_eol :: "string \<Rightarrow> bool" where
  "semicolon_eol s \<longleftrightarrow> starts '';'' s \<and>
     (dropWhile is_ws (tl s) = [] \<or> (\<exists>c\<in>set (takeWhile is_ws (tl s)). byte_of c = 10))"

definition tag :: "string \<Rightarrow> bool" where
  "tag s \<longleftrightarrow> starts ''<'' s \<and>
     (let r = (if starts ''/'' (tl s) then tl (tl s) else tl s)
      in r \<noteq> [] \<and> is_word (hd r) \<and> starts ''>'' (dropWhile is_word r))"

definition marker_at :: "string \<Rightarrow> bool" where
  "marker_at s \<longleftrightarrow> starts ''```'' s \<or> def_call s \<or> kw_word ''class'' s \<or> kw_word ''import'' s \<or>
     kw_word ''function'' s \<or> starts ''=>'' s \<or> semicolon_eol s \<or> tag s"

fun codeMarkers :: "string \<Rightarrow> bool" where
  "codeMarkers [] = marker_at []"
| "codeMarkers (c # s) = (marker_at (c # s) \<or> codeMarkers s)"

definition technicalWords :: "string list" where
  "technicalWords = [''protocol'', ''protocolo'', ''algorithm'', ''algoritmo'', ''latency'',
     ''throughput'', ''cache'', ''kernel'', ''tcp'', ''http'', ''gpu'', ''config'']"

fun contains :: "string \<Rightarrow> string \<Rightarrow> bool" where
  "contains [] w = starts w []"
| "contains (c # s) w = (starts w (c # s) \<or> contains s w)"

definition ClassifyDomain :: "(string \<Rightarrow> string) \<Rightarrow> string \<Rightarrow> string" where
  "ClassifyDomain lower prompt =
     (if codeMarkers prompt then ''code''
      else if list_ex (contains (lower prompt)) technicalWords then ''technical''
      else ''prose'')"

definition SpeculativeNMaxKey :: string where "SpeculativeNMaxKey = ''speculative.n_max''"

definition NextWaveNMax :: "(string \<Rightarrow> string) \<Rightarrow> float64 option \<Rightarrow> string option \<Rightarrow> int \<Rightarrow> int" where
  "NextWaveNMax lower alphaEma prompt cap =
     (let cap' = (if cap \<le> 0 then NMaxCap else cap);
          lk = (\<lambda>d. case map_of domainAlpha d of None \<Rightarrow> 0 | Some a \<Rightarrow> a);
          a = (case alphaEma of
                 Some v \<Rightarrow> v
               | None \<Rightarrow> (case prompt of Some p \<Rightarrow> lk (ClassifyDomain lower p) | None \<Rightarrow> lk ''technical''));
          n = (case NMaxForAlpha a of Inl _ \<Rightarrow> NMaxFloor | Inr n \<Rightarrow> n)
      in if n > cap' then cap' else n)"

record AlphaEma =
  smoothing :: float64
  warmup :: int
  ae_ema :: "(string \<times> float64) list"
  ae_n :: "(string \<times> int) list"

definition NewAlphaEma :: "float64 \<Rightarrow> int \<Rightarrow> (float64, AlphaEma) result" where
  "NewAlphaEma sm w =
     (if sm \<le> 0 \<or> sm > 1 then Inl sm else Inr \<lparr>smoothing = sm, warmup = w, ae_ema = [], ae_n = []\<rparr>)"

definition count_of :: "(string \<times> int) list \<Rightarrow> string \<Rightarrow> int" where
  "count_of m k = (case map_of m k of None \<Rightarrow> 0 | Some n \<Rightarrow> n)"

definition AlphaEma_Update :: "string \<Rightarrow> int \<Rightarrow> int \<Rightarrow> AlphaEma \<Rightarrow> AlphaEma" where
  "AlphaEma_Update key drafted accepted e =
     (if drafted \<le> 0 then e
      else
        let rate = of_int accepted / of_int drafted;
            rate = (if rate < 0 then 0 else rate);
            rate = (if rate > 1 then 1 else rate);
            v = (case map_of (ae_ema e) key of
                   Some prev \<Rightarrow> smoothing e * rate + (1 - smoothing e) * prev
                 | None \<Rightarrow> rate)
        in e\<lparr>ae_ema := AList.update key v (ae_ema e), ae_n := AList.update key (count_of (ae_n e) key + 1) (ae_n e)\<rparr>)"

definition AlphaEma_Get :: "string \<Rightarrow> AlphaEma \<Rightarrow> float64 option" where
  "AlphaEma_Get key e = (if count_of (ae_n e) key < warmup e then None else map_of (ae_ema e) key)"


section \<open>The ring\<close>

record ringPoint =
  rp_h :: u64
  rp_m :: string

record Ring =
  vnodes :: int
  ring :: "ringPoint list"
  members :: "string list"

definition str_bytes :: "string \<Rightarrow> bytes" where
  "str_bytes s = map of_char s"

definition ringHash :: "(bytes \<Rightarrow> bytes) \<Rightarrow> string \<Rightarrow> u64" where
  "ringHash sha s = Uint64 (take 8 (sha (str_bytes s)))"

fun decimal :: "nat \<Rightarrow> string" where
  "decimal n = (if n < 10 then [char_of (48 + n)] else decimal (n div 10) @ [char_of (48 + n mod 10)])"

declare decimal.simps [simp del]

definition vnode_points :: "(bytes \<Rightarrow> bytes) \<Rightarrow> string \<Rightarrow> int \<Rightarrow> ringPoint list" where
  "vnode_points sha member vn =
     map (\<lambda>v. \<lparr>rp_h = ringHash sha (member @ ''#'' @ decimal v), rp_m = member\<rparr>) [0..<nat vn]"

definition Ring_Add :: "(bytes \<Rightarrow> bytes) \<Rightarrow> string \<Rightarrow> Ring \<Rightarrow> Ring" where
  "Ring_Add sha member r =
     (if member \<in> set (members r) then r
      else r\<lparr>members := members r @ [member],
             ring := sort_key rp_h (ring r @ vnode_points sha member (vnodes r))\<rparr>)"

definition NewRing :: "(bytes \<Rightarrow> bytes) \<Rightarrow> string list \<Rightarrow> int \<Rightarrow> Ring" where
  "NewRing sha ms vn =
     foldl (\<lambda>r m. Ring_Add sha m r) \<lparr>vnodes = (if vn < 1 then 1 else vn), ring = [], members = []\<rparr> ms"

definition Ring_Remove :: "string \<Rightarrow> Ring \<Rightarrow> Ring" where
  "Ring_Remove member r =
     r\<lparr>members := filter (\<lambda>m. m \<noteq> member) (members r), ring := filter (\<lambda>p. rp_m p \<noteq> member) (ring r)\<rparr>"

text \<open>\<^verbatim>\<open>sort.Search\<close>: binary search for the smallest index in \<open>[i, j)\<close> where \<open>f\<close> holds.\<close>

function go_search :: "(nat \<Rightarrow> bool) \<Rightarrow> nat \<Rightarrow> nat \<Rightarrow> nat" where
  "go_search f i j =
     (if i < j then
        let h = (i + j) div 2 in if \<not> f h then go_search f (Suc h) j else go_search f i h
      else i)"
  by pat_completeness auto
termination by (relation "measure (\<lambda>(f, i, j). j - i)") auto

declare go_search.simps [simp del]

definition Ring_Route :: "(bytes \<Rightarrow> bytes) \<Rightarrow> string \<Rightarrow> Ring \<Rightarrow> (string, string) result" where
  "Ring_Route sha key r =
     (if length (ring r) = 0 then Inl ''ring has no members''
      else
        let h = ringHash sha key;
            idx = go_search (\<lambda>i. rp_h (ring r ! i) \<ge> h) 0 (length (ring r));
            idx = (if idx = length (ring r) then 0 else idx)
        in Inr (rp_m (ring r ! idx)))"


section \<open>Canonical prompts\<close>

abbreviation NL :: char where "NL \<equiv> CHR 0x0A"
abbreviation CR :: char where "CR \<equiv> CHR 0x0D"

fun replace_crlf :: "string \<Rightarrow> string" where
  "replace_crlf [] = []"
| "replace_crlf [c] = [c]"
| "replace_crlf (a # b # s) = (if a = CR \<and> b = NL then NL # replace_crlf s else a # replace_crlf (b # s))"

definition replace_cr :: "string \<Rightarrow> string" where
  "replace_cr s = map (\<lambda>c. if c = CR then NL else c) s"

fun split_lines :: "string \<Rightarrow> string list" where
  "split_lines [] = [[]]"
| "split_lines (c # s) =
     (if c = NL then [] # split_lines s
      else case split_lines s of [] \<Rightarrow> [[c]] | l # ls \<Rightarrow> (c # l) # ls)"

fun join_lines :: "string list \<Rightarrow> string" where
  "join_lines [] = []"
| "join_lines [l] = l"
| "join_lines (l # ls) = l @ NL # join_lines ls"

definition is_trail :: "char \<Rightarrow> bool" where
  "is_trail c \<longleftrightarrow> byte_of c \<in> {32, 9, 11, 12}"

definition trim_right :: "(char \<Rightarrow> bool) \<Rightarrow> string \<Rightarrow> string" where
  "trim_right P s = rev (dropWhile P (rev s))"

fun collapse :: "string list \<Rightarrow> nat \<Rightarrow> string list" where
  "collapse [] blank = []"
| "collapse (lne # lns) blank =
     (let lne' = trim_right is_trail lne
      in if lne' = [] then
           (if Suc blank \<le> 1 then lne' # collapse lns (Suc blank) else collapse lns (Suc blank))
         else lne' # collapse lns 0)"

definition CanonicalizePrompt :: "string \<Rightarrow> string" where
  "CanonicalizePrompt tx =
     (let t = replace_cr (replace_crlf tx);
          out = collapse (split_lines t) 0
      in trim_right (\<lambda>c. c = NL) (dropWhile (\<lambda>c. c = NL) (join_lines out)))"

definition hex_lower :: "byte \<Rightarrow> string" where
  "hex_lower b = (let d = (\<lambda>n. ''0123456789abcdef'' ! n) in [d (unat b div 16), d (unat b mod 16)])"

definition PrefixKey :: "(bytes \<Rightarrow> bytes) \<Rightarrow> string \<Rightarrow> string \<Rightarrow> string" where
  "PrefixKey sha systemPrompt tenant =
     (let canon = CanonicalizePrompt systemPrompt
      in concat (map hex_lower (sha (str_bytes (tenant @ CHR 0x00 # canon)))))"



section \<open>Binary search and routing\<close>

lemma go_search_first:
  assumes "\<And>x y. i \<le> x \<Longrightarrow> x \<le> y \<Longrightarrow> y < j \<Longrightarrow> f x \<Longrightarrow> f y" "i \<le> j"
  shows "i \<le> go_search f i j \<and> go_search f i j \<le> j \<and> (\<forall>x. i \<le> x \<and> x < go_search f i j \<longrightarrow> \<not> f x) \<and>
    (go_search f i j < j \<longrightarrow> f (go_search f i j))"
  using assms
proof (induction f i j rule: go_search.induct)
  case (1 f i j)
  show ?case
  proof (cases "i < j")
    case True
    define h where "h = (i + j) div 2"
    have h: "i \<le> h" "h < j" using True by (auto simp: h_def)
    show ?thesis
    proof (cases "f h")
      case False
      have below: "\<not> f x" if "i \<le> x" "x \<le> h" for x using 1(3)[of x h] that h False by blast
      have up: "f y" if "Suc h \<le> x" "x \<le> y" "y < j" "f x" for x y
        by (rule 1(3)[OF _ that(2-4)]) (use that(1) h in linarith)
      have IH: "Suc h \<le> go_search f (Suc h) j \<and> go_search f (Suc h) j \<le> j \<and>
          (\<forall>x. Suc h \<le> x \<and> x < go_search f (Suc h) j \<longrightarrow> \<not> f x) \<and> (go_search f (Suc h) j < j \<longrightarrow> f (go_search f (Suc h) j))"
        by (rule 1(1)[OF True h_def False up]) (use h in auto)
      have "go_search f i j = go_search f (Suc h) j"
        using True False by (subst go_search.simps) (simp add: h_def Let_def)
      moreover have "\<not> f x" if "i \<le> x" "x < go_search f (Suc h) j" for x
        using below[OF that(1)] IH that by (cases "x \<le> h") auto
      ultimately show ?thesis using IH h by auto
    next
      case fh: True
      have "go_search f i j = go_search f i h"
        using True fh by (subst go_search.simps) (simp add: h_def Let_def)
      moreover have up: "f y" if "i \<le> x" "x \<le> y" "y < h" "f x" for x y
        by (rule 1(3)[OF that(1,2) _ that(4)]) (use that(3) h in linarith)
      moreover have "i \<le> go_search f i h \<and> go_search f i h \<le> h \<and>
          (\<forall>x. i \<le> x \<and> x < go_search f i h \<longrightarrow> \<not> f x) \<and> (go_search f i h < h \<longrightarrow> f (go_search f i h))"
        by (rule 1(2)[OF True h_def _ up]) (use h fh in auto)
      ultimately show ?thesis using h fh by (cases "go_search f i h = h") auto
    qed
  next
    case False
    then have "go_search f i j = i" by (subst go_search.simps) simp
    then show ?thesis using False 1(4) by auto
  qed
qed

definition ring_ok :: "Ring \<Rightarrow> bool" where
  "ring_ok r \<longleftrightarrow> 1 \<le> vnodes r \<and> sorted (map rp_h (ring r)) \<and> distinct (members r) \<and>
     rp_m ` set (ring r) = set (members r)"

text \<open>The point that owns a hash: the first at or after it, wrapping to the first point.\<close>

definition owner :: "u64 \<Rightarrow> ringPoint list \<Rightarrow> string" where
  "owner h ps = rp_m (hd (filter (\<lambda>p. h \<le> rp_h p) ps @ ps))"

lemma hd_filter_nth:
  assumes "k < length ps" "P (ps ! k)" "\<forall>x<k. \<not> P (ps ! x)"
  shows "hd (filter P ps) = ps ! k"
  using assms
proof (induction ps arbitrary: k)
  case (Cons p ps)
  then show ?case by (cases k) (fastforce simp: nth_Cons')+
qed simp

lemma Route_owner:
  assumes "sorted (map rp_h (ring r))" "ring r \<noteq> []"
  shows "Ring_Route sha key r = Inr (owner (ringHash sha key) (ring r))"
proof -
  let ?h = "ringHash sha key" and ?ps = "ring r"
  define k where "k = go_search (\<lambda>i. rp_h (?ps ! i) \<ge> ?h) 0 (length ?ps)"
  have mono: "?h \<le> rp_h (?ps ! x) \<Longrightarrow> x \<le> y \<Longrightarrow> y < length ?ps \<Longrightarrow> ?h \<le> rp_h (?ps ! y)" for x y
    using assms(1) by (auto simp: sorted_iff_nth_mono intro: order_trans)
  have k: "k \<le> length ?ps" "\<forall>x<k. \<not> ?h \<le> rp_h (?ps ! x)" "k < length ?ps \<longrightarrow> ?h \<le> rp_h (?ps ! k)"
    using go_search_first[of 0 "length ?ps" "\<lambda>i. rp_h (?ps ! i) \<ge> ?h", folded k_def] mono by blast+
  have run: "Ring_Route sha key r = Inr (rp_m (?ps ! (if k = length ?ps then 0 else k)))"
    using assms(2) by (simp add: Ring_Route_def k_def Let_def)
  show ?thesis
  proof (cases "k = length ?ps")
    case True
    then have "filter (\<lambda>p. ?h \<le> rp_h p) ?ps = []"
      using k(2) by (auto simp: filter_empty_conv in_set_conv_nth)
    then show ?thesis using run True assms(2) by (simp add: owner_def hd_conv_nth)
  next
    case False
    then have "k < length ?ps" "?h \<le> rp_h (?ps ! k)" using k by auto
    moreover from this have "filter (\<lambda>p. ?h \<le> rp_h p) ?ps \<noteq> []"
      by (auto simp: filter_empty_conv intro!: nth_mem)
    ultimately show ?thesis
      using run False hd_filter_nth[of k ?ps "\<lambda>p. ?h \<le> rp_h p"] k(2) by (simp add: owner_def)
  qed
qed

lemma owner_member: "ps \<noteq> [] \<Longrightarrow> owner h ps \<in> rp_m ` set ps"
proof -
  assume "ps \<noteq> []"
  then have "hd (filter (\<lambda>p. h \<le> rp_h p) ps @ ps) \<in> set (filter (\<lambda>p. h \<le> rp_h p) ps @ ps)" by (intro hd_in_set) simp
  then show ?thesis by (auto simp: owner_def)
qed

text \<open>Deleting points of other members leaves the owner in place.\<close>

lemma owner_filter:
  assumes "ps \<noteq> []" "owner h ps \<noteq> m"
  shows "filter (\<lambda>p. rp_m p \<noteq> m) ps \<noteq> [] \<and> owner h (filter (\<lambda>p. rp_m p \<noteq> m) ps) = owner h ps"
proof -
  let ?Q = "\<lambda>p. h \<le> rp_h p" and ?K = "\<lambda>p. rp_m p \<noteq> m"
  have swap: "filter ?Q (filter ?K ps) = filter ?K (filter ?Q ps)" by (simp add: conj_commute)
  show ?thesis
  proof (cases "filter ?Q ps")
    case Nil
    then obtain p qs where "ps = p # qs" using assms(1) by (cases ps) auto
    then show ?thesis using assms(2) Nil swap by (auto simp: owner_def)
  next
    case (Cons p qs)
    then have "rp_m p \<noteq> m" using assms(2) by (simp add: owner_def)
    then have "filter ?Q (filter ?K ps) = p # filter ?K qs" using swap Cons by simp
    then show ?thesis using Cons by (auto simp: owner_def simp del: filter_filter)
  qed
qed

lemma vnode_points_m: "1 \<le> vn \<Longrightarrow> rp_m ` set (vnode_points sha m vn) = {m}"
  by (auto simp: vnode_points_def image_image image_constant_conv)

lemma Ring_Add_ok: "ring_ok r \<Longrightarrow> ring_ok (Ring_Add sha m r) \<and> set (members (Ring_Add sha m r)) = insert m (set (members r))"
  using vnode_points_m[of "vnodes r" sha m] by (auto simp: ring_ok_def Ring_Add_def image_Un)

lemma Ring_Remove_ok: "ring_ok r \<Longrightarrow> ring_ok (Ring_Remove m r) \<and> set (members (Ring_Remove m r)) = set (members r) - {m}"
  by (auto simp: ring_ok_def Ring_Remove_def sorted_filter)

lemma Remove_Add:
  assumes "ring_ok r" "m \<notin> set (members r)"
  shows "ring (Ring_Remove m (Ring_Add sha m r)) = ring r"
proof -
  have "filter (\<lambda>p. rp_m p \<noteq> m) (ring r) = ring r"
    using assms by (auto simp: filter_id_conv ring_ok_def)
  moreover have "filter (\<lambda>p. rp_m p \<noteq> m) (vnode_points sha m (vnodes r)) = []"
    by (auto simp: filter_empty_conv vnode_points_def)
  ultimately show ?thesis
    using assms by (simp add: Ring_Remove_def Ring_Add_def filter_sort ring_ok_def sort_key_id_if_sorted sorted_map)
qed

datatype ring_op = RAdd string | RRemove string

fun ring_step :: "(bytes \<Rightarrow> bytes) \<Rightarrow> Ring \<Rightarrow> ring_op \<Rightarrow> Ring" where
  "ring_step sha r (RAdd m) = Ring_Add sha m r"
| "ring_step sha r (RRemove m) = Ring_Remove m r"

lemma NewRing_ok: "ring_ok (NewRing sha ms vn)"
proof -
  have "ring_ok (foldl (\<lambda>r m. Ring_Add sha m r) r ms)" if "ring_ok r" for r
    using that Ring_Add_ok by (induction ms arbitrary: r) auto
  then show ?thesis unfolding NewRing_def by (simp add: ring_ok_def)
qed

lemma ring_run_ok: "ring_ok r \<Longrightarrow> ring_ok (foldl (ring_step sha) r ops)"
proof (induction ops arbitrary: r)
  case (Cons op ops)
  then show ?case using Ring_Add_ok Ring_Remove_ok by (cases op) auto
qed simp

lemma ring_nonempty: "ring_ok r \<Longrightarrow> ring r = [] \<longleftrightarrow> members r = []"
  by (auto simp: ring_ok_def)



section \<open>Lines and canonical form\<close>

lemma join_split: "join_lines (split_lines s) = s"
proof (induction s)
  case (Cons c s)
  then show ?case by (cases "split_lines s" rule: join_lines.cases) (auto split: list.splits)
qed simp

lemma split_nonempty [simp]: "split_lines s \<noteq> []"
  by (induction s) (auto split: list.splits)

lemma split_no_nl: "\<forall>l\<in>set (split_lines s). NL \<notin> set l"
  by (induction s) (auto split: list.splits)

lemma set_split: "l \<in> set (split_lines s) \<Longrightarrow> set l \<subseteq> set s"
proof (induction s arbitrary: l)
  case (Cons c s)
  then show ?case by (fastforce split: if_splits list.splits)
qed simp

lemma split_line: "NL \<notin> set l \<Longrightarrow> split_lines l = [l]"
  by (induction l) auto

lemma split_append: "NL \<notin> set l \<Longrightarrow> split_lines (l @ NL # s) = l # split_lines s"
  by (induction l) auto

lemma split_join: "ls \<noteq> [] \<Longrightarrow> \<forall>l\<in>set ls. NL \<notin> set l \<Longrightarrow> split_lines (join_lines ls) = ls"
  by (induction ls rule: join_lines.induct) (auto simp: split_line split_append)

lemma no_cr_replace: "CR \<notin> set (replace_cr s)"
  by (auto simp: replace_cr_def)

lemma replace_id: "CR \<notin> set s \<Longrightarrow> replace_cr (replace_crlf s) = s"
proof -
  assume a: "CR \<notin> set s"
  then have "replace_crlf s = s" by (induction s rule: replace_crlf.induct) auto
  then show ?thesis using a by (auto simp: replace_cr_def intro!: map_idI)
qed

lemma set_join: "c \<in> set (join_lines ls) \<Longrightarrow> c = NL \<or> (\<exists>l\<in>set ls. c \<in> set l)"
  by (induction ls rule: join_lines.induct) auto

lemma dropWhile_hd: "xs = [] \<or> \<not> P (hd xs) \<Longrightarrow> dropWhile P xs = xs"
  by (cases xs) auto

lemma trim_right_idem: "trim_right P (trim_right P s) = trim_right P s"
  unfolding trim_right_def rev_rev_ident by (rule arg_cong[OF dropWhile_hd]) (metis hd_dropWhile)

lemma set_trim_right: "set (trim_right P s) \<subseteq> set s"
  using set_dropWhileD[of _ P "rev s"] by (auto simp: trim_right_def)

definition canon_line :: "string \<Rightarrow> bool" where
  "canon_line l \<longleftrightarrow> NL \<notin> set l \<and> CR \<notin> set l \<and> trim_right is_trail l = l"

text \<open>No two adjacent blank lines; \<open>b\<close> says whether the line before was blank.\<close>

fun single_blanks :: "bool \<Rightarrow> string list \<Rightarrow> bool" where
  "single_blanks b [] = True"
| "single_blanks b (l # ls) = (\<not> (b \<and> l = []) \<and> single_blanks (l = []) ls)"

lemma collapse_canon:
  "\<forall>l\<in>set ls. NL \<notin> set l \<and> CR \<notin> set l \<Longrightarrow>
   (\<forall>l\<in>set (collapse ls b). canon_line l) \<and> single_blanks (0 < b) (collapse ls b)"
proof (induction ls b rule: collapse.induct)
  case (2 l ls b)
  let ?l = "trim_right is_trail l"
  have l: "canon_line ?l" using 2(4) set_trim_right[of is_trail l] by (auto simp: canon_line_def trim_right_idem)
  show ?case
  proof (cases "?l = []")
    case True
    then show ?thesis using 2(1,2)[OF refl True] 2(4) l by (cases b) (auto simp: Let_def)
  next
    case False
    then show ?thesis using 2(3)[OF refl False] 2(4) l by (auto simp: Let_def)
  qed
qed simp

lemma collapse_id:
  "\<forall>l\<in>set ls. canon_line l \<Longrightarrow> single_blanks (0 < b) ls \<Longrightarrow> collapse ls b = ls"
  by (induction ls b rule: collapse.induct) (auto simp: canon_line_def Let_def)

text \<open>Trimming newlines of joined lines drops the blank lines at the ends.\<close>

abbreviation strip_blank :: "string list \<Rightarrow> string list" where
  "strip_blank ls \<equiv> rev (dropWhile (\<lambda>l. l = []) (rev (dropWhile (\<lambda>l. l = []) ls)))"

lemma dropWhile_join:
  "\<forall>l\<in>set ls. NL \<notin> set l \<Longrightarrow> dropWhile (\<lambda>c. c = NL) (join_lines ls) = join_lines (dropWhile (\<lambda>l. l = []) ls)"
proof (induction ls rule: join_lines.induct)
  case (2 l)
  then show ?case by (cases l) auto
next
  case (3 l l' ls)
  then show ?case by (cases l) auto
qed simp

lemma join_snoc: "ls \<noteq> [] \<Longrightarrow> join_lines (ls @ [l]) = join_lines ls @ NL # l"
  by (induction ls rule: join_lines.induct) auto

lemma rev_join: "rev (join_lines ls) = join_lines (rev (map rev ls))"
proof (induction ls rule: join_lines.induct)
  case (3 l l' ls)
  then show ?case using join_snoc[of "rev (map rev (l' # ls))" "rev l"] by simp
qed simp_all

lemma trim_join:
  assumes "\<forall>l\<in>set ls. NL \<notin> set l"
  shows "trim_right (\<lambda>c. c = NL) (join_lines ls) = join_lines (rev (dropWhile (\<lambda>l. l = []) (rev ls)))"
proof -
  have "dropWhile (\<lambda>l. l = []) (rev (map rev ls)) = map rev (dropWhile (\<lambda>l. l = []) (rev ls))"
    by (simp add: rev_map dropWhile_map comp_def)
  then have "dropWhile (\<lambda>c. c = NL) (rev (join_lines ls)) = join_lines (map rev (dropWhile (\<lambda>l. l = []) (rev ls)))"
    unfolding rev_join using dropWhile_join[of "rev (map rev ls)"] assms by simp
  then show ?thesis unfolding trim_right_def by (simp add: rev_join rev_map comp_def)
qed

lemma Canonicalize_lines:
  "CanonicalizePrompt tx = join_lines (strip_blank (collapse (split_lines (replace_cr (replace_crlf tx))) 0))"
proof -
  let ?ls = "split_lines (replace_cr (replace_crlf tx))"
  have "\<forall>l\<in>set ?ls. NL \<notin> set l \<and> CR \<notin> set l"
    using split_no_nl[of "replace_cr (replace_crlf tx)"] set_split no_cr_replace by blast
  then have c: "\<forall>l\<in>set (collapse ?ls 0). NL \<notin> set l"
    using collapse_canon[of ?ls 0] by (auto simp: canon_line_def)
  then have "\<forall>l\<in>set (dropWhile (\<lambda>l. l = []) (collapse ?ls 0)). NL \<notin> set l"
    using set_dropWhileD by fast
  then show ?thesis
    unfolding CanonicalizePrompt_def Let_def dropWhile_join[OF c] by (rule trim_join)
qed

text \<open>What canonical text looks like, line by line.\<close>

definition canonical :: "string list \<Rightarrow> bool" where
  "canonical ls \<longleftrightarrow> (\<forall>l\<in>set ls. canon_line l) \<and> single_blanks False ls \<and>
     (ls \<noteq> [] \<longrightarrow> hd ls \<noteq> [] \<and> last ls \<noteq> [])"

lemma single_blanks_mono: "single_blanks True ls \<Longrightarrow> single_blanks b ls"
  by (cases ls) auto

lemma single_blanks_drop: "single_blanks b ls \<Longrightarrow> single_blanks False (dropWhile P ls)"
proof (induction ls arbitrary: b)
  case (Cons l ls)
  then show ?case by (cases b) auto
qed simp

lemma single_blanks_prefix: "single_blanks b (xs @ ys) \<Longrightarrow> single_blanks b xs"
  by (induction xs arbitrary: b) auto

lemma strip_canonical:
  assumes "\<forall>l\<in>set ls. canon_line l" "single_blanks b ls"
  shows "canonical (strip_blank ls)"
proof -
  let ?d = "dropWhile (\<lambda>l. l = []) ls" and ?s = "strip_blank ls"
  have "?d = ?s @ rev (takeWhile (\<lambda>l. l = []) (rev ?d))"
    by (metis rev_append rev_rev_ident takeWhile_dropWhile_id)
  then have "single_blanks False ?s" using single_blanks_drop[OF assms(2)] single_blanks_prefix by metis
  moreover have "\<forall>l\<in>set ?s. canon_line l"
    using assms(1) set_dropWhileD[of _ _ "rev ?d"] set_dropWhileD[of _ _ ls] unfolding set_rev by blast
  moreover have "hd ?s \<noteq> [] \<and> last ?s \<noteq> []" if "?s \<noteq> []"
  proof -
    have ne: "dropWhile (\<lambda>l. l = []) (rev ?d) \<noteq> []" using that by simp
    have "last ?s \<noteq> []" using hd_dropWhile[OF ne] that by (simp add: last_rev)
    moreover have "hd ?s = hd ?d"
      using \<open>?d = ?s @ rev (takeWhile (\<lambda>l. l = []) (rev ?d))\<close> that by (metis hd_append2)
    moreover have "?d \<noteq> []" using ne by (metis dropWhile.simps(1) rev.simps(1))
    ultimately show ?thesis using hd_dropWhile[of "\<lambda>l. l = []" ls] by auto
  qed
  ultimately show ?thesis by (simp add: canonical_def)
qed

lemma strip_id: "canonical ls \<Longrightarrow> strip_blank ls = ls"
proof (cases "ls = []")
  case False
  assume "canonical ls"
  then have "dropWhile (\<lambda>l. l = []) ls = ls" "dropWhile (\<lambda>l. l = []) (rev ls) = rev ls"
    using False by (auto simp: canonical_def hd_rev intro!: dropWhile_hd)
  then show ?thesis by simp
qed simp

lemma Canonicalize_shape: "\<exists>ls. canonical ls \<and> CanonicalizePrompt tx = join_lines ls"
proof -
  let ?ls = "split_lines (replace_cr (replace_crlf tx))"
  have "\<forall>l\<in>set ?ls. NL \<notin> set l \<and> CR \<notin> set l"
    using split_no_nl[of "replace_cr (replace_crlf tx)"] set_split no_cr_replace by blast
  note c = collapse_canon[OF this, of 0]
  show ?thesis using strip_canonical[of _ False] c Canonicalize_lines[of tx] by auto
qed

lemma Canonicalize_canonical:
  assumes "canonical ls"
  shows "CanonicalizePrompt (join_lines ls) = join_lines ls"
proof (cases "ls = []")
  case True
  then show ?thesis by (simp add: Canonicalize_lines replace_cr_def trim_right_def)
next
  case False
  have "CR \<notin> set (join_lines ls)"
    using assms set_join[of CR ls] by (auto simp: canonical_def canon_line_def)
  then have "split_lines (replace_cr (replace_crlf (join_lines ls))) = ls"
    using split_join[OF False] assms replace_id by (auto simp: canonical_def canon_line_def)
  then show ?thesis
    using assms collapse_id[of ls 0] strip_id[OF assms] by (simp add: Canonicalize_lines canonical_def)
qed


section \<open>Acceptance rates\<close>

definition ema_ok :: "AlphaEma \<Rightarrow> bool" where
  "ema_ok e \<longleftrightarrow> 0 < smoothing e \<and> smoothing e \<le> 1 \<and> (\<forall>v\<in>ran (map_of (ae_ema e)). 0 \<le> v \<and> v \<le> 1)"

lemma convex_unit: "0 \<le> (s :: real) \<Longrightarrow> s \<le> 1 \<Longrightarrow> 0 \<le> r \<Longrightarrow> r \<le> 1 \<Longrightarrow> 0 \<le> p \<Longrightarrow> p \<le> 1 \<Longrightarrow>
   0 \<le> s * r + (1 - s) * p \<and> s * r + (1 - s) * p \<le> 1"
  using convex_bound_le[of r 1 p s "1 - s"] by simp

lemma ran_update: "ran (m(k \<mapsto> v)) \<subseteq> insert v (ran m)"
  by (auto simp: ran_def)

lemma Update_ok:
  assumes "ema_ok e"
  shows "ema_ok (AlphaEma_Update key drafted accepted e)"
proof (cases "drafted \<le> 0")
  case False
  define r :: real where "r = min 1 (max 0 (of_int accepted / of_int drafted))"
  define v where "v = (case map_of (ae_ema e) key of Some prev \<Rightarrow> smoothing e * r + (1 - smoothing e) * prev | None \<Rightarrow> r)"
  have r: "0 \<le> r" "r \<le> 1" by (auto simp: r_def)
  have "0 \<le> v \<and> v \<le> 1"
  proof (cases "map_of (ae_ema e) key")
    case (Some prev)
    then have "0 \<le> prev" "prev \<le> 1" using assms by (auto simp: ema_ok_def ran_def)
    then show ?thesis using convex_unit[of "smoothing e" r prev] r assms Some by (simp add: v_def ema_ok_def)
  qed (use r in \<open>simp add: v_def\<close>)
  moreover have "AlphaEma_Update key drafted accepted e =
      e\<lparr>ae_ema := AList.update key v (ae_ema e), ae_n := AList.update key (count_of (ae_n e) key + 1) (ae_n e)\<rparr>"
  proof -
    have "(let rate = of_int accepted / of_int drafted; rate = if rate < 0 then 0 else rate in if rate > 1 then 1 else rate) = r"
      by (auto simp: r_def Let_def)
    then show ?thesis
      using False unfolding AlphaEma_Update_def v_def Let_def by (simp only: if_False)
  qed
  ultimately show ?thesis
    using assms ran_update[of "map_of (ae_ema e)" key v] by (auto simp: ema_ok_def update_conv')
qed (simp add: AlphaEma_Update_def assms)

lemma Get_range: "ema_ok e \<Longrightarrow> AlphaEma_Get key e = Some a \<Longrightarrow> 0 \<le> a \<and> a \<le> 1"
  by (auto simp: AlphaEma_Get_def ema_ok_def ran_def split: if_splits)


section \<open>Properties\<close>

text \<open>
  Consistent hashing: after any history of additions and removals, removing a member moves only the
  keys it owned, and adding a member moves keys only to it.
\<close>

theorem Ring_consistent:
  assumes "r = foldl (ring_step sha) (NewRing sha ms vn) ops" "Ring_Route sha key r = Inr a"
  shows "(a \<noteq> m \<longrightarrow> Ring_Route sha key (Ring_Remove m r) = Inr a) \<and>
    Ring_Route sha key (Ring_Add sha m r) \<in> {Inr a, Inr m}"
proof -
  have ok: "ring_ok r" unfolding assms(1) by (rule ring_run_ok[OF NewRing_ok])
  have route: "ring q \<noteq> [] \<Longrightarrow> Ring_Route sha key q = Inr (owner (ringHash sha key) (ring q))" if "ring_ok q" for q
    using that Route_owner by (simp add: ring_ok_def)
  have ne: "ring r \<noteq> []" using assms(2) by (auto simp: Ring_Route_def)
  have a: "a = owner (ringHash sha key) (ring r)" using route[OF ok ne] assms(2) by simp
  have rem: "Ring_Route sha key (Ring_Remove m r) = Inr a" if "a \<noteq> m"
    using owner_filter[OF ne, of "ringHash sha key" m] that a route[of "Ring_Remove m r"] Ring_Remove_ok[OF ok]
    by (simp add: Ring_Remove_def)
  have add: "Ring_Route sha key (Ring_Add sha m r) \<in> {Inr a, Inr m}"
  proof (cases "m \<in> set (members r)")
    case True
    then show ?thesis using assms(2) by (simp add: Ring_Add_def)
  next
    case False
    let ?r = "Ring_Add sha m r"
    have ok': "ring_ok ?r" using Ring_Add_ok[OF ok] by blast
    have "members ?r \<noteq> []" using False by (simp add: Ring_Add_def)
    then have ne': "ring ?r \<noteq> []" using ring_nonempty[OF ok'] by blast
    have undo: "filter (\<lambda>p. rp_m p \<noteq> m) (ring ?r) = ring r"
      using Remove_Add[OF ok False] by (simp add: Ring_Remove_def)
    show ?thesis
      using owner_filter[OF ne', of "ringHash sha key" m] undo a route[OF ok' ne'] by auto
  qed
  show ?thesis using rem add by blast
qed

theorem Ring_consistent_witness:
  "Ring_Route (\<lambda>b. b) ''k'' (NewRing (\<lambda>b. b) [''a''] 1) = Inr ''a'' \<and>
   Ring_Route (\<lambda>b. b) ''k'' (Ring_Remove ''b'' (NewRing (\<lambda>b. b) [''a''] 1)) = Inr ''a''"
proof -
  have "Ring_Route (\<lambda>b. b) ''k'' (NewRing (\<lambda>b. b) [''a''] 1) = Inr ''a''"
    by (simp add: Ring_Route_def NewRing_def Ring_Add_def vnode_points_def go_search.simps[of _ 0 "Suc 0"]
        go_search.simps[of _ "Suc 0" "Suc 0"] go_search.simps[of _ 0 0] Let_def)
  then show ?thesis using Ring_consistent[of "NewRing (\<lambda>b. b) [''a''] 1" "\<lambda>b. b" "[''a'']" 1 "[]" "''k''" "''a''" "''b''"]
    by simp
qed

text \<open>
  Routing is total on a ring with members and always answers one of them; it fails exactly on a
  ring without members.
\<close>

theorem Ring_Route_total:
  assumes "r = foldl (ring_step sha) (NewRing sha ms vn) ops"
  shows "(members r = [] \<longrightarrow> (\<exists>e. Ring_Route sha key r = Inl e)) \<and>
    (members r \<noteq> [] \<longrightarrow> (\<exists>m\<in>set (members r). Ring_Route sha key r = Inr m))"
proof -
  have ok: "ring_ok r" unfolding assms by (rule ring_run_ok[OF NewRing_ok])
  then have ps: "rp_m ` set (ring r) = set (members r)" by (simp add: ring_ok_def)
  have "\<exists>m\<in>set (members r). Ring_Route sha key r = Inr m" if "ring r \<noteq> []"
    using Route_owner[of r sha key] owner_member[OF that, of "ringHash sha key"] ok that ps
    by (auto simp: ring_ok_def)
  then show ?thesis using ring_nonempty[OF ok] by (auto simp: Ring_Route_def)
qed

theorem Ring_Route_total_witness:
  "\<exists>m\<in>set (members (NewRing (\<lambda>b. b) [''a''] 3)). Ring_Route (\<lambda>b. b) ''k'' (NewRing (\<lambda>b. b) [''a''] 3) = Inr m"
  using Ring_Route_total[of "NewRing (\<lambda>b. b) [''a''] 3" "\<lambda>b. b" "[''a'']" 3 "[]" "''k''"]
  by (simp add: NewRing_def Ring_Add_def)

text \<open>
  Canonicalisation is idempotent, and its result consists of lines without carriage returns or
  trailing blanks, without two adjacent blank lines, and with no blank line at either end.
\<close>

theorem CanonicalizePrompt_canonical:
  "CanonicalizePrompt (CanonicalizePrompt tx) = CanonicalizePrompt tx \<and>
   (\<exists>ls. canonical ls \<and> CanonicalizePrompt tx = join_lines ls)"
  using Canonicalize_shape[of tx] Canonicalize_canonical by metis

text \<open>
  Prompts that differ only in how their lines end share a key: the key does not change when carriage
  returns are dropped from line ends or when the prompt is replaced by its canonical form.
\<close>

theorem PrefixKey_stable:
  "PrefixKey sha (CanonicalizePrompt p) tenant = PrefixKey sha p tenant \<and>
   PrefixKey sha (replace_cr (replace_crlf p)) tenant = PrefixKey sha p tenant"
proof -
  have "CanonicalizePrompt (CanonicalizePrompt p) = CanonicalizePrompt p"
    using Canonicalize_shape[of p] Canonicalize_canonical by metis
  moreover have "CanonicalizePrompt (replace_cr (replace_crlf p)) = CanonicalizePrompt p"
    by (simp add: Canonicalize_lines replace_id no_cr_replace)
  ultimately show ?thesis by (simp add: PrefixKey_def)
qed

text \<open>
  The acceptance average of a key stays in \<open>[0, 1]\<close> under any counters the engine reports, so the
  depth derived from it never falls back on an error, and every per-request depth respects the
  guardrail and the caller's cap.
\<close>

theorem NextWave_guardrail:
  assumes "NewAlphaEma sm w = Inr e0" "e = foldl (\<lambda>e (k, d, a). AlphaEma_Update k d a e) e0 obs"
  shows "(\<forall>a. AlphaEma_Get key e = Some a \<longrightarrow> (\<exists>n. NMaxForAlpha a = Inr n \<and> n \<in> {2, 3})) \<and>
    NextWaveNMax lower (AlphaEma_Get key e) prompt cap \<in> {1, 2, 3} \<and>
    (0 < cap \<longrightarrow> NextWaveNMax lower (AlphaEma_Get key e) prompt cap \<le> cap)"
proof -
  have "ema_ok e0" using assms(1) by (auto simp: NewAlphaEma_def ema_ok_def split: if_splits)
  then have "ema_ok e" unfolding assms(2) using Update_ok by (induction obs arbitrary: e0) auto
  then have "NMaxForAlpha a = Inr 2 \<or> NMaxForAlpha a = Inr 3" if "AlphaEma_Get key e = Some a" for a
    using Get_range[OF _ that] by (auto simp: NMaxForAlpha_def NMaxFloor_def NMaxCap_def)
  moreover have "NextWaveNMax lower x prompt cap \<in> {1, 2, 3} \<and> (0 < cap \<longrightarrow> NextWaveNMax lower x prompt cap \<le> cap)" for x
  proof -
    let ?c = "if cap \<le> 0 then NMaxCap else cap"
    have clip: "(if n > ?c then ?c else n) \<in> {1, 2, 3} \<and> (0 < cap \<longrightarrow> (if n > ?c then ?c else n) \<le> cap)"
      if "n \<in> {2, 3}" for n
      using that by (auto simp: NMaxCap_def)
    show ?thesis
      unfolding NextWaveNMax_def Let_def
      by (rule clip) (simp add: NMaxForAlpha_def NMaxFloor_def NMaxCap_def)
  qed
  ultimately show ?thesis by blast
qed

theorem NextWave_guardrail_witness:
  "NextWaveNMax (\<lambda>s. s) (AlphaEma_Get ''t'' (AlphaEma_Update ''t'' 4 3 \<lparr>smoothing = 3 / 10, warmup = 1, ae_ema = [], ae_n = []\<rparr>)) None 2 \<le> 2"
  using NextWave_guardrail[of "3 / 10" 1 "\<lparr>smoothing = 3 / 10, warmup = 1, ae_ema = [], ae_n = []\<rparr>" _ "[(''t'', 4, 3)]" "''t''" "\<lambda>s. s" None 2]
  by (simp add: NewAlphaEma_def)

end
