(* ===== verification/Gateway_State.thy ===== *)
theory Gateway_State
  imports Gateway_Body Policy
begin

text \<open>
  The smaller stateful parts of the gateway: the learned slots and last turns of conversations and
  the request log (\<^verbatim>\<open>gateway.go\<close>, \<^verbatim>\<open>requestlog.go\<close>), the prefill circuit breaker, and the status
  document (\<^verbatim>\<open>status.go\<close>). Instants are real numbers of milliseconds.
\<close>


section \<open>Learned slots\<close>

record convSlots =
  cs_m :: "(string \<times> string) list"
  cs_ord :: "string list"
  cs_cap :: int

definition newConvSlots :: "int \<Rightarrow> convSlots" where
  "newConvSlots capacity = \<lparr>cs_m = [], cs_ord = [], cs_cap = (if capacity < 1 then 1 else capacity)\<rparr>"

definition cs_get :: "string \<Rightarrow> convSlots \<Rightarrow> string" where
  "cs_get key c = (if key = [] then [] else case map_of (cs_m c) key of None \<Rightarrow> [] | Some s \<Rightarrow> s)"

definition cs_forget :: "string \<Rightarrow> convSlots \<Rightarrow> convSlots" where
  "cs_forget key c =
     (if key = [] then c
      else if map_of (cs_m c) key = None then c
      else c\<lparr>cs_m := AList.delete key (cs_m c), cs_ord := remove1 key (cs_ord c)\<rparr>)"

text \<open>The body of \<^verbatim>\<open>set\<close> after its guard; \<open>None\<close> is the panic of \<^verbatim>\<open>c.ord[0]\<close>.\<close>

definition cs_store :: "string \<Rightarrow> string \<Rightarrow> convSlots \<Rightarrow> convSlots option" where
  "cs_store key slot c =
     (if map_of (cs_m c) key = None then
        (if int (length (cs_ord c)) \<ge> cs_cap c then
           (if cs_ord c = [] then None
            else Some (c\<lparr>cs_m := AList.update key slot (AList.delete (hd (cs_ord c)) (cs_m c)),
                         cs_ord := tl (cs_ord c) @ [key]\<rparr>))
         else Some (c\<lparr>cs_m := AList.update key slot (cs_m c), cs_ord := cs_ord c @ [key]\<rparr>))
      else Some (c\<lparr>cs_m := AList.update key slot (cs_m c)\<rparr>))"

definition cs_set :: "string \<Rightarrow> string \<Rightarrow> convSlots \<Rightarrow> convSlots option" where
  "cs_set key slot c = (if key = [] \<or> slot = [] then Some c else cs_store key slot c)"

definition cs_inv :: "convSlots \<Rightarrow> bool" where
  "cs_inv c \<longleftrightarrow> reg_inv (cs_cap c) (cs_m c) (cs_ord c)"

definition cs_drop :: "string \<Rightarrow> convSlots \<Rightarrow> convSlots" where
  "cs_drop key c = c\<lparr>cs_m := AList.delete key (cs_m c), cs_ord := remove1 key (cs_ord c)\<rparr>"

lemma cs_store_room:
  assumes "cs_inv c" "reg_room (cs_cap c) (cs_m c) (cs_ord c) key = (m, ord)"
  shows "cs_store key slot c = Some (c\<lparr>cs_m := AList.update key slot m,
     cs_ord := (if key \<in> set (cs_ord c) then ord else ord @ [key])\<rparr>)"
  using assms reg_full_nonempty[of "cs_cap c" "cs_m c" "cs_ord c"] reg_length[of "cs_cap c" "cs_m c" "cs_ord c"]
    reg_dom[of "cs_cap c" "cs_m c" "cs_ord c"]
  by (auto simp: cs_store_def cs_inv_def reg_room_def split: if_splits)

interpretation cs: bounded_map cs_inv "\<lambda>c. nat (cs_cap c)" "\<lambda>c. map_of (cs_m c)" cs_ord cs_store cs_drop
proof
  fix c :: convSlots and key v
  assume c: "cs_inv c"
  then have r: "reg_inv (cs_cap c) (cs_m c) (cs_ord c)" by (simp add: cs_inv_def)
  show "set (cs_ord c) = dom (map_of (cs_m c))" using reg_dom[OF r] by simp
  show "distinct (cs_ord c)" "length (cs_ord c) \<le> nat (cs_cap c)" "0 < nat (cs_cap c)"
    using r by (auto simp: reg_inv_def)
  obtain m ord where room: "reg_room (cs_cap c) (cs_m c) (cs_ord c) key = (m, ord)" by fastforce
  have "reg_inv (cs_cap c) (AList.update key v m) (if key \<in> set (cs_ord c) then ord else ord @ [key])"
    using reg_update(2,3)[OF reg_room_ok(1,2)[OF r room]] reg_room_ok(3)[OF r room] by auto
  then show "\<exists>s'. cs_store key v c = Some s' \<and> cs_inv s' \<and> nat (cs_cap s') = nat (cs_cap c) \<and>
      map_of (cs_m s') = (if evicts (nat (cs_cap c)) (cs_ord c) key
        then (map_of (cs_m c))(hd (cs_ord c) := None, key \<mapsto> v) else (map_of (cs_m c))(key \<mapsto> v))"
    using cs_store_room[OF c room, of v] reg_put_contract(2)[OF r room, of v] by (simp add: cs_inv_def)
  show "cs_inv (cs_drop key c) \<and> nat (cs_cap (cs_drop key c)) = nat (cs_cap c) \<and>
      map_of (cs_m (cs_drop key c)) = (map_of (cs_m c))(key := None)"
    using reg_delete_contract[OF r, of key] by (simp add: cs_drop_def cs_inv_def)
qed

lemma cs_set_ok: "cs_inv c \<Longrightarrow> \<exists>c'. cs_set key slot c = Some c' \<and> cs_inv c'"
  using cs.put_ok[of c key slot] by (auto simp: cs_set_def)

lemma cs_forget_ok: "cs_inv c \<Longrightarrow> cs_inv (cs_forget key c) \<and> cs_get key (cs_forget key c) = []"
  using cs.forget_ok[of c key] by (auto simp: cs_forget_def cs_drop_def cs_get_def split: option.splits)


section \<open>Last turns\<close>

record convTurn =
  ct_prefix :: int
  ct_tail :: int
  ct_total :: int

record convTurns =
  cts_cap :: int
  cts_m :: "(string \<times> convTurn) list"

definition newConvTurns :: "int \<Rightarrow> convTurns" where
  "newConvTurns capacity = \<lparr>cts_cap = (if capacity \<le> 0 then 32 else capacity), cts_m = []\<rparr>"

definition cts_get :: "string \<Rightarrow> convTurns \<Rightarrow> convTurn option" where
  "cts_get key c = map_of (cts_m c) key"

definition cts_set :: "string \<Rightarrow> convTurn \<Rightarrow> convTurns \<Rightarrow> convTurns" where
  "cts_set key t c =
     (let m = (if int (length (cts_m c)) \<ge> cts_cap c then [] else cts_m c)
      in c\<lparr>cts_m := AList.update key t m\<rparr>)"


section \<open>Request log\<close>

record RequestLog =
  rl_buf :: "Record list"
  rl_capacity :: int
  rl_keepContent :: bool
  rl_nextID :: nat
  rl_boot :: string

definition NewRequestLog :: "int \<Rightarrow> bool \<Rightarrow> string \<Rightarrow> RequestLog" where
  "NewRequestLog capacity keep boot =
     \<lparr>rl_buf = [], rl_capacity = (if capacity \<le> 0 then 500 else capacity), rl_keepContent = keep,
      rl_nextID = 1, rl_boot = boot\<rparr>"

definition Boot :: "RequestLog \<Rightarrow> string" where "Boot l = rl_boot l"

definition merge_fields :: "Record \<Rightarrow> Record \<Rightarrow> Record" where
  "merge_fields rec flds = foldl (\<lambda>r (k, v). AList.update k v r) rec flds"

definition new_record :: "Record \<Rightarrow> Record option \<Rightarrow> RequestLog \<Rightarrow> Record" where
  "new_record flds content l =
     (let rec = [(''id'', Num (int (rl_nextID l))), (''boot'', Str (rl_boot l)),
                 (''rid'', Str (rl_boot l @ ''-'' @ decimal (rl_nextID l)))];
          rec = merge_fields rec flds
      in case content of
           Some c \<Rightarrow> if rl_keepContent l then AList.update ''content'' (Obj c) rec else rec
         | None \<Rightarrow> rec)"

definition RecordEntry :: "Record \<Rightarrow> Record option \<Rightarrow> RequestLog \<Rightarrow> Record \<times> RequestLog" where
  "RecordEntry flds content l =
     (let rec = new_record flds content l;
          buf = rl_buf l @ [rec];
          buf = (if int (length buf) > rl_capacity l then drop (length buf - nat (rl_capacity l)) buf else buf)
      in (rec, l\<lparr>rl_nextID := rl_nextID l + 1, rl_buf := buf\<rparr>))"

text \<open>\<open>None\<close> is the panic of \<^verbatim>\<open>make\<close> with a negative length.\<close>

definition Tail :: "int \<Rightarrow> RequestLog \<Rightarrow> Record list option" where
  "Tail n l =
     (let n = (if n > int (length (rl_buf l)) then int (length (rl_buf l)) else n)
      in if n < 0 then None else Some (drop (length (rl_buf l) - nat n) (rl_buf l)))"

definition Len :: "RequestLog \<Rightarrow> nat" where "Len l = length (rl_buf l)"


section \<open>Breaker\<close>

record breaker =
  downUntil :: float64
  breakerFor :: float64

definition prefillDown :: "float64 \<Rightarrow> breaker \<Rightarrow> bool" where
  "prefillDown now b \<longleftrightarrow> now < downUntil b"

definition tripBreaker :: "float64 \<Rightarrow> breaker \<Rightarrow> breaker" where
  "tripBreaker now b = (if breakerFor b < 0 then b else b\<lparr>downUntil := now + breakerFor b\<rparr>)"


section \<open>Status\<close>

record NodeRef =
  nr_name :: string
  nr_url :: string

definition agentFields :: "string list" where
  "agentFields = [''gpus'', ''cpu'', ''ram_used_mb'', ''ram_total_mb'', ''rx'', ''tx'', ''rtt_ms'']"

definition sanitizeAgent :: "Body \<Rightarrow> Body" where
  "sanitizeAgent data = concat (map (\<lambda>k. case map_of data k of Some v \<Rightarrow> [(k, v)] | None \<Rightarrow> []) agentFields)"

definition node_entry :: "(string \<Rightarrow> string \<Rightarrow> (string, Body) result) \<Rightarrow> nat \<Rightarrow> NodeRef \<Rightarrow> Body" where
  "node_entry fetch i node =
     (let name = (if nr_name node = [] then ''node-'' @ decimal i else nr_name node)
      in case fetch name (nr_url node) of
           Inl err \<Rightarrow> [(''name'', Str name), (''up'', Bool False), (''error'', Str err)]
         | Inr data \<Rightarrow> merge_fields [(''name'', Str name), (''up'', Bool True)] (sanitizeAgent data))"

text \<open>
  The goroutines of \<^verbatim>\<open>AggregateNodes\<close> write disjoint elements of \<^verbatim>\<open>results\<close>: after \<^verbatim>\<open>wg.Wait\<close> each
  element holds the entry of its node, whatever the interleaving.
\<close>

definition AggregateNodes :: "NodeRef list \<Rightarrow> (string \<Rightarrow> string \<Rightarrow> (string, Body) result) \<Rightarrow> Body list" where
  "AggregateNodes nodes fetch = map (\<lambda>(i, n). node_entry fetch i n) (zip [0..<length nodes] nodes)"

definition BuildStatus ::
  "NodeRef list \<Rightarrow> (string \<Rightarrow> string \<Rightarrow> (string, Body) result) \<Rightarrow> Body option \<Rightarrow> Body option \<Rightarrow> Body" where
  "BuildStatus nodes fetch pipeline serving =
     (let ns = AggregateNodes nodes fetch;
          up = length (filter (\<lambda>n. field n ''up'' = Bool True) ns)
      in [(''nodes'', Objs ns), (''nodes_up'', Num (int up)), (''nodes_total'', Num (int (length ns))),
          (''pipeline'', Obj (case pipeline of None \<Rightarrow> [] | Some p \<Rightarrow> p)),
          (''serving'', Obj (case serving of None \<Rightarrow> [] | Some s \<Rightarrow> s))])"



section \<open>Lemmas\<close>

lemma field_merge_absent: "k \<notin> fst ` set flds \<Longrightarrow> field (merge_fields rec flds) k = field rec k"
proof (induction flds arbitrary: rec)
  case (Cons p flds)
  obtain j v where p: "p = (j, v)" by fastforce
  have "merge_fields rec (p # flds) = merge_fields (AList.update j v rec) flds" by (simp add: merge_fields_def p)
  then show ?case using Cons p by (auto simp: field_update)
qed (simp add: merge_fields_def)

lemma RecordEntry_buf:
  assumes "0 < rl_capacity l" "int (length (rl_buf l)) \<le> rl_capacity l"
  shows "rl_buf (snd (RecordEntry flds c l)) =
     drop (Suc (length (rl_buf l)) - nat (rl_capacity l)) (rl_buf l @ [new_record flds c l])"
    "rl_capacity (snd (RecordEntry flds c l)) = rl_capacity l"
    "int (length (rl_buf (snd (RecordEntry flds c l)))) \<le> rl_capacity l"
    "rl_nextID (snd (RecordEntry flds c l)) = Suc (rl_nextID l)"
    "rl_boot (snd (RecordEntry flds c l)) = rl_boot l" "rl_keepContent (snd (RecordEntry flds c l)) = rl_keepContent l"
  using assms by (auto simp: RecordEntry_def Let_def)

text \<open>The records a log built so far, oldest first, as an unbounded list.\<close>

fun all_records :: "(Record \<times> Record option) list \<Rightarrow> RequestLog \<Rightarrow> Record list" where
  "all_records [] l = []"
| "all_records ((f, c) # es) l = new_record f c l # all_records es (snd (RecordEntry f c l))"

lemma log_run:
  assumes "0 < rl_capacity l" "int (length (rl_buf l)) \<le> rl_capacity l"
  shows "let l' = foldl (\<lambda>l (f, c). snd (RecordEntry f c l)) l es in
    rl_buf l' = drop (length (rl_buf l) + length es - nat (rl_capacity l)) (rl_buf l @ all_records es l) \<and>
    rl_capacity l' = rl_capacity l \<and> int (length (rl_buf l')) \<le> rl_capacity l \<and> length (all_records es l) = length es \<and>
    rl_nextID l' = rl_nextID l + length es"
  using assms
proof (induction es arbitrary: l)
  case Nil
  then show ?case by simp
next
  case (Cons e es)
  obtain f c where e: "e = (f, c)" by fastforce
  let ?l = "snd (RecordEntry f c l)" and ?n = "length (rl_buf l)" and ?k = "nat (rl_capacity l)"
  note b = RecordEntry_buf[OF Cons.prems, of f c]
  have len: "length (rl_buf ?l) = min (Suc ?n) ?k" using b(1) Cons.prems by simp
  have "drop (length (rl_buf ?l) + length es - ?k) (rl_buf ?l @ all_records es ?l) =
      drop (?n + length (e # es) - ?k) (rl_buf l @ all_records (e # es) l)"
    unfolding b(1) using Cons.prems by (simp add: e) (cases "Suc ?n \<le> ?k"; auto simp: le_Suc_eq add.commute)
  moreover have pre: "0 < rl_capacity ?l" "int (length (rl_buf ?l)) \<le> rl_capacity ?l"
    using b(2,3) Cons.prems(1) by simp_all
  moreover define L where "L = foldl (\<lambda>l (f, c). snd (RecordEntry f c l)) ?l es"
  moreover have "L = foldl (\<lambda>l (f, c). snd (RecordEntry f c l)) l (e # es)" by (simp add: e L_def)
  moreover have "rl_buf L = drop (length (rl_buf ?l) + length es - ?k) (rl_buf ?l @ all_records es ?l)"
    "rl_capacity L = rl_capacity l" "int (length (rl_buf L)) \<le> rl_capacity l"
    "length (all_records es ?l) = length es" "rl_nextID L = Suc (rl_nextID l) + length es"
    using Cons.IH[OF pre] unfolding Let_def L_def b(2,4) by blast+
  ultimately show ?case unfolding Let_def by (metis add_Suc_shift all_records.simps(2) e length_Cons)
qed


section \<open>Properties\<close>

text \<open>
  The learned slots are bounded but first-in first-out, not least-recently-used: refreshing the slot
  of the oldest conversation of a full registry does not protect it, and the next new conversation
  evicts it. (The comment on \<^verbatim>\<open>convSlots\<close> calls it a bounded LRU.)
\<close>

theorem convSlots_fifo:
  assumes "cs_inv c" "cs_ord c = k # rest" "int (length (cs_ord c)) = cs_cap c"
    "k \<noteq> []" "j \<noteq> []" "j \<notin> set (cs_ord c)" "s \<noteq> []" "t \<noteq> []"
  shows "\<exists>c1 c2. cs_set k s c = Some c1 \<and> cs_get k c1 = s \<and> cs_set j t c1 = Some c2 \<and> cs_get k c2 = [] \<and> cs_get j c2 = t"
proof -
  have k: "map_of (cs_m c) k \<noteq> None" "map_of (cs_m c) j = None"
    using cs.keys_dom[OF assms(1)] assms(2,6) by auto
  have c1: "cs_set k s c = Some (c\<lparr>cs_m := AList.update k s (cs_m c)\<rparr>)"
    using k(1) assms(4,7) by (auto simp: cs_set_def cs_store_def)
  have "cs_set j t (c\<lparr>cs_m := AList.update k s (cs_m c)\<rparr>) =
      Some (c\<lparr>cs_m := AList.update j t (AList.delete k (AList.update k s (cs_m c))), cs_ord := rest @ [j]\<rparr>)"
    using k assms(2,3,5,6,8) by (simp add: cs_set_def cs_store_def update_conv')
  then show ?thesis using c1 assms(2,4,5,6) by (auto simp: cs_get_def update_conv' delete_conv')
qed

theorem convSlots_fifo_witness:
  "\<exists>c1 c2. cs_set ''a'' ''1'' \<lparr>cs_m = [(''a'', ''0''), (''b'', ''0'')], cs_ord = [''a'', ''b''], cs_cap = 2\<rparr> = Some c1 \<and>
     cs_set ''c'' ''2'' c1 = Some c2 \<and> cs_get ''a'' c2 = []"
  using convSlots_fifo[of "\<lparr>cs_m = [(''a'', ''0''), (''b'', ''0'')], cs_ord = [''a'', ''b''], cs_cap = 2\<rparr>"
      "''a''" "[''b'']" "''c''" "''1''" "''2''"]
  by (force simp: cs_inv_def reg_inv_def)

text \<open>
  The slot registry under any history of writes from a fresh one: no write panics, there are never
  more conversations than the capacity, and a conversation reads as unknown or as the last slot written
  for it.
\<close>

theorem convSlots_safe:
  "\<exists>c. cs.run (map Inl ps) (newConvSlots cap) = Some c \<and> length (cs_m c) \<le> nat (max 1 cap) \<and>
     (map_of (cs_m c) key = None \<or> map_of (cs_m c) key = map_of (rev ps) key)"
proof -
  have inv: "cs_inv (newConvSlots cap)" by (simp add: cs_inv_def newConvSlots_def reg_inv_def)
  obtain c where c: "cs.run (map Inl ps) (newConvSlots cap) = Some c" "cs_inv c"
    "length (cs_ord c) \<le> nat (cs_cap (newConvSlots cap))"
    using cs.run_total[OF inv] by blast
  have lv: "cs.last_value (map Inl ps) key d = (case map_of (rev ps) key of None \<Rightarrow> d | Some v \<Rightarrow> Some v)" for d
    by (induction ps arbitrary: d) (auto split: option.splits)
  have "map_of (cs_m c) key = cs.last_value (map Inl ps) key None \<or> map_of (cs_m c) key = None"
    using cs.run_lookup[OF inv c(1), of key None] by (simp add: newConvSlots_def)
  moreover have "length (cs_m c) = length (cs_ord c)" using c(2) reg_length by (auto simp: cs_inv_def)
  ultimately show ?thesis using c lv by (auto simp: newConvSlots_def max_def split: option.splits)
qed

text \<open>
  C62. The request log keeps the newest records in order: after any number of entries the buffer is the
  list of all records written, cut to the last \<open>capacity\<close>; \<^verbatim>\<open>Tail(n)\<close> for a non-negative \<open>n\<close> is its last
  \<open>n\<close> records, and the next id counts every record ever written.
\<close>

theorem RequestLog_newest:
  assumes "0 \<le> n"
  shows "let l = foldl (\<lambda>l (f, c). snd (RecordEntry f c l)) (NewRequestLog cap keep boot) es;
             recs = all_records es (NewRequestLog cap keep boot);
             k = nat (if cap \<le> 0 then 500 else cap)
         in rl_buf l = drop (length es - k) recs \<and> Len l \<le> k \<and> length recs = length es \<and>
            rl_nextID l = Suc (length es) \<and>
            (\<exists>out. Tail n l = Some out \<and> out = drop (Len l - nat n) (rl_buf l) \<and> length out = min (nat n) (Len l))"
proof -
  let ?l0 = "NewRequestLog cap keep boot"
  define l where "l = foldl (\<lambda>l (f, c). snd (RecordEntry f c l)) ?l0 es"
  have pre: "0 < rl_capacity ?l0" "int (length (rl_buf ?l0)) \<le> rl_capacity ?l0" by (auto simp: NewRequestLog_def)
  have r: "rl_buf l = drop (length es - nat (if cap \<le> 0 then 500 else cap)) (all_records es ?l0)"
    "int (length (rl_buf l)) \<le> (if cap \<le> 0 then 500 else cap)" "length (all_records es ?l0) = length es"
    "rl_nextID l = Suc (length es)"
    using log_run[OF pre, of es] unfolding Let_def l_def[symmetric] by (auto simp: NewRequestLog_def)
  have "Tail n l = Some (drop (Len l - nat n) (rl_buf l))"
    using assms by (simp add: Tail_def Let_def Len_def)
  moreover have "length (drop (Len l - nat n) (rl_buf l)) = min (nat n) (Len l)"
    by (simp add: Len_def min_def)
  moreover have "Len l \<le> nat (if cap \<le> 0 then 500 else cap)" using r(2) by (simp add: Len_def le_nat_iff)
  ultimately show ?thesis
    unfolding Let_def l_def[symmetric] using r(1,3,4) by metis
qed

theorem RequestLog_newest_witness:
  "let l = foldl (\<lambda>l (f, c). snd (RecordEntry f c l)) (NewRequestLog 2 False ''b'') [([], None), ([], None), ([], None)]
   in Len l \<le> 2"
  using RequestLog_newest[of 1 2 False "''b''" "[([], None), ([], None), ([], None)]"] by (simp add: Let_def)

text \<open>
  Prompt and response content never reaches the log unless it was built to keep content: a record
  written without that flag has exactly the bookkeeping and the given fields.
\<close>

theorem RecordEntry_no_content:
  assumes "\<not> rl_keepContent l" "''content'' \<notin> fst ` set flds"
  shows "field (fst (RecordEntry flds content l)) ''content'' = Null"
proof -
  have "field (merge_fields [(''id'', Num (int (rl_nextID l))), (''boot'', Str (rl_boot l)),
      (''rid'', Str (rl_boot l @ ''-'' @ decimal (rl_nextID l)))] flds) ''content'' = Null"
    by (subst field_merge_absent[OF assms(2)]) (simp add: field_def)
  then show ?thesis using assms(1) by (simp add: RecordEntry_def new_record_def Let_def split: option.splits)
qed

theorem RecordEntry_no_content_witness:
  "field (fst (RecordEntry [(''slot'', Str ''1'')] (Some [(''prompt'', Str ''x'')]) (NewRequestLog 2 False ''b''))) ''content'' = Null"
  using RecordEntry_no_content[of "NewRequestLog 2 False ''b''" "[(''slot'', Str ''1'')]" "Some [(''prompt'', Str ''x'')]"]
  by (simp add: NewRequestLog_def)

lemma sanitize_keys: "fst ` set (sanitizeAgent data) \<subseteq> set agentFields"
  by (auto simp: sanitizeAgent_def split: option.splits)

definition agent_answers :: "(string \<Rightarrow> string \<Rightarrow> (string, Body) result) \<Rightarrow> nat \<Rightarrow> NodeRef \<Rightarrow> bool" where
  "agent_answers fetch i n \<longleftrightarrow>
     (case fetch (if nr_name n = [] then ''node-'' @ decimal i else nr_name n) (nr_url n) of Inl _ \<Rightarrow> False | Inr _ \<Rightarrow> True)"

lemma node_entry_up: "field (node_entry fetch i n) ''up'' = Bool (agent_answers fetch i n)"
proof -
  have "field (merge_fields [(''name'', Str nm), (''up'', Bool True)] (sanitizeAgent data)) ''up'' = Bool True" for nm data
    by (subst field_merge_absent) (use sanitize_keys[of data] in \<open>auto simp: agentFields_def field_def\<close>)
  then show ?thesis by (auto simp: node_entry_def agent_answers_def Let_def field_def split: sum.splits)
qed

text \<open>
  C64. The status document is fail-soft and order-preserving: one entry per configured node at its index,
  marked up exactly when its agent answered, whatever fields the agent sends; \<^verbatim>\<open>nodes_up\<close> counts the
  agents that answered.
\<close>

theorem BuildStatus_fail_soft:
  "length (AggregateNodes nodes fetch) = length nodes \<and>
   (\<forall>i<length nodes. field (AggregateNodes nodes fetch ! i) ''up'' = Bool (agent_answers fetch i (nodes ! i))) \<and>
   field (BuildStatus nodes fetch p s) ''nodes_up'' =
     Num (int (card {i. i < length nodes \<and> agent_answers fetch i (nodes ! i)})) \<and>
   field (BuildStatus nodes fetch p s) ''nodes_total'' = Num (int (length nodes))"
proof -
  let ?ns = "AggregateNodes nodes fetch"
  have len: "length ?ns = length nodes" by (simp add: AggregateNodes_def)
  have up: "field (?ns ! i) ''up'' = Bool (agent_answers fetch i (nodes ! i))" if "i < length nodes" for i
    using that by (simp add: AggregateNodes_def node_entry_up)
  have "length (filter (\<lambda>n. field n ''up'' = Bool True) ?ns) = card {i. i < length nodes \<and> agent_answers fetch i (nodes ! i)}"
    unfolding length_filter_conv_card len using up by (intro arg_cong[where f = card]) auto
  then show ?thesis using len up by (simp add: BuildStatus_def Let_def field_def)
qed

theorem BuildStatus_fail_soft_witness:
  "field (BuildStatus [\<lparr>nr_name = ''a'', nr_url = ''u''\<rparr>] (\<lambda>_ _. Inl ''down'') None None) ''nodes_total'' = Num 1"
  using BuildStatus_fail_soft[of "[\<lparr>nr_name = ''a'', nr_url = ''u''\<rparr>]" "\<lambda>_ _. Inl ''down''" None None] by simp

end
