(* ===== verification/Conv_Gate.thy ===== *)
theory Conv_Gate
  imports Go_Data
begin

text \<open>
  \<^verbatim>\<open>convGate\<close> of \<^verbatim>\<open>internal/gateway/gateway.go\<close>: the requests of one conversation run one at a time,
  up to a wait cap. The regions under the mutex are the functions \<open>gate_try\<close>, \<open>gate_force\<close> and
  \<open>gate_release\<close>; the interleaving of requests is the step relation \<open>gate_step\<close>, with one phase per
  request. A channel is a number; closing it puts it in the closed set. Time enters as the freedom of a
  blocked request to give up waiting at any moment (its cap may have run out).
\<close>


section \<open>Definitions\<close>

type_synonym chan = nat

record convGate =
  entries :: "string \<Rightarrow> (int \<times> chan) option"
  closed_chans :: "chan set"
  fresh_chan :: chan

definition newConvGate :: convGate where
  "newConvGate = \<lparr>entries = Map.empty, closed_chans = {}, fresh_chan = 0\<rparr>"

text \<open>A new entry with one request in flight.\<close>

definition new_entry :: "string \<Rightarrow> convGate \<Rightarrow> convGate" where
  "new_entry key g = g\<lparr>entries := (entries g)(key \<mapsto> (1, fresh_chan g)), fresh_chan := Suc (fresh_chan g)\<rparr>"

text \<open>The first locked region of \<^verbatim>\<open>acquire\<close>: join, or learn the channel to wait on.\<close>

definition gate_try :: "string \<Rightarrow> bool \<Rightarrow> convGate \<Rightarrow> convGate + chan" where
  "gate_try key waits g =
     (case entries g key of
        None \<Rightarrow> Inl (new_entry key g)
      | Some (n, done) \<Rightarrow>
          if n = 0 \<or> \<not> waits then Inl (g\<lparr>entries := (entries g)(key \<mapsto> (n + 1, done))\<rparr>) else Inr done)"

text \<open>The second one, once the cap ran out: join whatever is there.\<close>

definition gate_force :: "string \<Rightarrow> convGate \<Rightarrow> convGate" where
  "gate_force key g =
     (case entries g key of
        None \<Rightarrow> new_entry key g
      | Some (n, done) \<Rightarrow> g\<lparr>entries := (entries g)(key \<mapsto> (n + 1, done))\<rparr>)"

definition gate_release :: "string \<Rightarrow> convGate \<Rightarrow> convGate" where
  "gate_release key g =
     (if key = [] then g
      else case entries g key of
             None \<Rightarrow> g
           | Some (n, done) \<Rightarrow>
               if n - 1 \<le> 0
               then g\<lparr>entries := (entries g)(key := None), closed_chans := insert done (closed_chans g)\<rparr>
               else g\<lparr>entries := (entries g)(key \<mapsto> (n - 1, done))\<rparr>)"

text \<open>
  \<open>Held key gaveup\<close>: in flight; \<open>gaveup\<close> says by which of the two locked regions it got there: the first
  one, or the second one after its wait ran out. What the others did does not enter.
\<close>

datatype phase = Idle | Trying string | Blocked string chan | Held string bool

record gate_system =
  gate :: convGate
  phases :: "nat \<Rightarrow> phase"

inductive gate_step :: "bool \<Rightarrow> gate_system \<Rightarrow> gate_system \<Rightarrow> bool" for waits :: bool where
  begin_acquire: "phases s t = Idle \<Longrightarrow> key \<noteq> [] \<Longrightarrow>
    gate_step waits s (s\<lparr>phases := (phases s)(t := Trying key)\<rparr>)"
| join: "phases s t = Trying key \<Longrightarrow> gate_try key waits (gate s) = Inl g \<Longrightarrow>
    gate_step waits s \<lparr>gate = g, phases = (phases s)(t := Held key False)\<rparr>"
| block: "phases s t = Trying key \<Longrightarrow> gate_try key waits (gate s) = Inr done \<Longrightarrow>
    gate_step waits s (s\<lparr>phases := (phases s)(t := Blocked key done)\<rparr>)"
| wake: "phases s t = Blocked key done \<Longrightarrow> done \<in> closed_chans (gate s) \<Longrightarrow>
    gate_step waits s (s\<lparr>phases := (phases s)(t := Trying key)\<rparr>)"
| timer: "phases s t = Blocked key done \<Longrightarrow>
    gate_step waits s (s\<lparr>phases := (phases s)(t := Trying key)\<rparr>)"
| cap_out: "phases s t = Blocked key done \<Longrightarrow>
    gate_step waits s \<lparr>gate = gate_force key (gate s), phases = (phases s)(t := Held key True)\<rparr>"
| release: "phases s t = Held key gaveup \<Longrightarrow>
    gate_step waits s \<lparr>gate = gate_release key (gate s), phases = (phases s)(t := Idle)\<rparr>"

definition gate_init :: gate_system where
  "gate_init = \<lparr>gate = newConvGate, phases = (\<lambda>_. Idle)\<rparr>"

inductive gate_reach :: "bool \<Rightarrow> gate_system \<Rightarrow> bool" for waits :: bool where
  init: "gate_reach waits gate_init"
| step: "gate_reach waits s \<Longrightarrow> gate_step waits s s' \<Longrightarrow> gate_reach waits s'"


section \<open>Invariant\<close>

definition holders :: "string \<Rightarrow> gate_system \<Rightarrow> nat set" where
  "holders key s = {t. \<exists>over. phases s t = Held key over}"

definition count_ok :: "convGate \<Rightarrow> string \<Rightarrow> nat set \<Rightarrow> bool" where
  "count_ok g key H \<longleftrightarrow> finite H \<and>
     (case entries g key of
        None \<Rightarrow> H = {}
      | Some (n, done) \<Rightarrow> n = int (card H) \<and> H \<noteq> {} \<and> done \<notin> closed_chans g)"

definition counts_ok :: "gate_system \<Rightarrow> bool" where
  "counts_ok s \<longleftrightarrow> (\<forall>key. count_ok (gate s) key (holders key s))"

definition chans_ok :: "gate_system \<Rightarrow> bool" where
  "chans_ok s \<longleftrightarrow> (\<forall>key n done. entries (gate s) key = Some (n, done) \<longrightarrow> done < fresh_chan (gate s)) \<and>
     (\<forall>c\<in>closed_chans (gate s). c < fresh_chan (gate s)) \<and>
     (\<forall>k1 k2 n1 n2 c. entries (gate s) k1 = Some (n1, c) \<longrightarrow> entries (gate s) k2 = Some (n2, c) \<longrightarrow> k1 = k2)"

definition waiters_ok :: "gate_system \<Rightarrow> bool" where
  "waiters_ok s \<longleftrightarrow> (\<forall>t key done. phases s t = Blocked key done \<longrightarrow>
     done \<in> closed_chans (gate s) \<or> (\<exists>n. entries (gate s) key = Some (n, done)))"

definition clean_ok :: "bool \<Rightarrow> gate_system \<Rightarrow> bool" where
  "clean_ok waits s \<longleftrightarrow> waits \<longrightarrow> (\<forall>key t t'. phases s t = Held key False \<longrightarrow> phases s t' = Held key False \<longrightarrow> t = t')"

definition keys_ok :: "gate_system \<Rightarrow> bool" where
  "keys_ok s \<longleftrightarrow> (\<forall>t key over. phases s t = Held key over \<or> phases s t = Trying key \<longrightarrow> key \<noteq> []) \<and>
     (\<forall>t key done. phases s t = Blocked key done \<longrightarrow> key \<noteq> [])"

text \<open>How a step of one request changes the holders of a key.\<close>

lemma holders_upd:
  "holders k \<lparr>gate = g, phases = (phases s)(t := p)\<rparr> =
     (if \<exists>over. p = Held k over then insert t (holders k s) else holders k s - {t})"
  "holders k (s\<lparr>phases := (phases s)(t := p)\<rparr>) =
     (if \<exists>over. p = Held k over then insert t (holders k s) else holders k s - {t})"
  by (auto simp: holders_def)

lemma not_holder: "\<forall>over. phases s t \<noteq> Held k over \<Longrightarrow> holders k s - {t} = holders k s"
  by (auto simp: holders_def)

text \<open>With waiting configured the first region lets a request in only when nobody is in flight.\<close>

lemma try_alone:
  assumes "counts_ok s" "gate_try key True (gate s) = Inl g"
  shows "holders key s = {}"
proof -
  have "count_ok (gate s) key (holders key s)" using assms(1) by (simp add: counts_ok_def)
  then show ?thesis using assms(2) by (auto simp: count_ok_def gate_try_def split: option.splits if_splits)
qed

text \<open>Both ways of joining add one request in flight.\<close>

definition joined :: "string \<Rightarrow> convGate \<Rightarrow> convGate \<Rightarrow> bool" where
  "joined key g g' \<longleftrightarrow> g' = (case entries g key of None \<Rightarrow> new_entry key g
     | Some (n, done) \<Rightarrow> g\<lparr>entries := (entries g)(key \<mapsto> (n + 1, done))\<rparr>)"

lemma try_joined: "gate_try key waits g = Inl g' \<Longrightarrow> joined key g g'"
  by (auto simp: gate_try_def joined_def split: option.splits if_splits)

lemma force_joined: "joined key g (gate_force key g)"
  by (simp add: gate_force_def joined_def)

lemma join_counts:
  assumes "counts_ok s" "chans_ok s" "joined key (gate s) g" "\<forall>k over. phases s t \<noteq> Held k over"
  shows "counts_ok \<lparr>gate = g, phases = (phases s)(t := Held key o')\<rparr>"
  unfolding counts_ok_def
proof
  fix k
  have t: "t \<notin> holders key s" using assms(4) by (auto simp: holders_def)
  have c: "count_ok (gate s) k (holders k s)" using assms(1) by (simp add: counts_ok_def)
  have fresh: "fresh_chan (gate s) \<notin> closed_chans (gate s)" using assms(2) by (auto simp: chans_ok_def)
  show "count_ok (gate \<lparr>gate = g, phases = (phases s)(t := Held key o')\<rparr>) k
      (holders k \<lparr>gate = g, phases = (phases s)(t := Held key o')\<rparr>)"
    unfolding holders_upd using c t fresh assms(3,4) not_holder[of s t k]
    by (cases "k = key") (auto simp: count_ok_def joined_def new_entry_def split: option.splits prod.splits)
qed

lemma release_counts:
  assumes "counts_ok s" "chans_ok s" "phases s t = Held key over" "key \<noteq> []"
  shows "counts_ok \<lparr>gate = gate_release key (gate s), phases = (phases s)(t := Idle)\<rparr>"
  unfolding counts_ok_def
proof
  fix k
  let ?s = "\<lparr>gate = gate_release key (gate s), phases = (phases s)(t := Idle)\<rparr>"
  have h: "holders k ?s = holders k s - {t}" by (simp add: holders_upd)
  have c: "count_ok (gate s) k (holders k s)" using assms(1) by (simp add: counts_ok_def)
  have t: "t \<in> holders key s" using assms(3) by (auto simp: holders_def)
  have ck: "count_ok (gate s) key (holders key s)" using assms(1) by (simp add: counts_ok_def)
  then obtain n d where e: "entries (gate s) key = Some (n, d)" "n = int (card (holders key s))" "finite (holders key s)"
    using t by (auto simp: count_ok_def split: option.splits)
  show "count_ok (gate ?s) k (holders k ?s)"
  proof (cases "k = key")
    case True
    have hk: "holders key ?s = holders key s - {t}" by (simp add: holders_upd)
    have card: "card (holders key s) = Suc (card (holders key s - {t}))"
      by (rule card.remove[OF e(3) t])
    have d: "d \<notin> closed_chans (gate s)" using ck e(1) by (simp add: count_ok_def)
    show ?thesis
    proof (cases "holders key s - {t} = {}")
      case last: True
      then have "entries (gate_release key (gate s)) key = None"
        using e(1,2) assms(4) unfolding card last by (simp add: gate_release_def)
      then show ?thesis using hk last True by (simp add: count_ok_def)
    next
      case more: False
      have fin: "finite (holders key s - {t})" using e(3) by simp
      then have "0 < card (holders key s - {t})" using more by (simp add: card_gt_0_iff)
      then have "gate_release key (gate s) = gate s\<lparr>entries := (entries (gate s))(key \<mapsto> (int (card (holders key s - {t})), d))\<rparr>"
        using e(1,2) card assms(4) by (simp add: gate_release_def)
      then show ?thesis using hk True fin more d by (simp add: count_ok_def)
    qed
  next
    case False
    have "t \<notin> holders k s" using assms(3) False by (auto simp: holders_def)
    then have h': "holders k ?s = holders k s" unfolding h by simp
    have "d' \<noteq> d" if "entries (gate s) k = Some (m, d')" for m d'
      using assms(2) e(1) that False unfolding chans_ok_def by blast
    then show ?thesis
      using c e(1) False assms(4) unfolding h' by (auto simp: count_ok_def gate_release_def split: option.splits prod.splits)
  qed
qed

lemma joined_chans: "chans_ok s \<Longrightarrow> joined key (gate s) g \<Longrightarrow> chans_ok \<lparr>gate = g, phases = ph\<rparr>"
  unfolding chans_ok_def joined_def
  by (fastforce simp: new_entry_def less_Suc_eq split: option.splits prod.splits if_splits)

lemma release_chans: "chans_ok s \<Longrightarrow> chans_ok \<lparr>gate = gate_release key (gate s), phases = ph\<rparr>"
  unfolding chans_ok_def
  by (fastforce simp: gate_release_def split: option.splits prod.splits if_splits)

lemma joined_entries:
  "joined key g g' \<Longrightarrow> (\<exists>n. entries g k = Some (n, d)) \<Longrightarrow> \<exists>n. entries g' k = Some (n, d)"
  "joined key g g' \<Longrightarrow> closed_chans g' = closed_chans g"
  by (auto simp: joined_def new_entry_def split: option.splits)

lemma release_entries:
  assumes "\<exists>n. entries g k = Some (n, d)"
  shows "d \<in> closed_chans (gate_release key g) \<or> (\<exists>n. entries (gate_release key g) k = Some (n, d))"
  using assms by (auto simp: gate_release_def split: option.splits)

lemma release_closed: "closed_chans g \<subseteq> closed_chans (gate_release key g)"
  by (auto simp: gate_release_def split: option.splits)

definition gate_inv :: "bool \<Rightarrow> gate_system \<Rightarrow> bool" where
  "gate_inv waits s \<longleftrightarrow> counts_ok s \<and> chans_ok s \<and> waiters_ok s \<and> clean_ok waits s \<and> keys_ok s"

lemma phase_key:
  assumes "gate_inv waits s"
  shows "phases s t = Trying key \<Longrightarrow> key \<noteq> []" "phases s t = Blocked key d \<Longrightarrow> key \<noteq> []"
    "phases s t = Held key over \<Longrightarrow> key \<noteq> []"
  using assms unfolding gate_inv_def keys_ok_def by blast+

lemma waiters_upd:
  assumes "waiters_ok s" "\<forall>k d. p \<noteq> Blocked k d"
    "\<And>k d. d \<in> closed_chans (gate s) \<or> (\<exists>n. entries (gate s) k = Some (n, d)) \<Longrightarrow>
       d \<in> closed_chans g \<or> (\<exists>n. entries g k = Some (n, d))"
  shows "waiters_ok \<lparr>gate = g, phases = (phases s)(t := p)\<rparr>"
  unfolding waiters_ok_def
proof (intro allI impI)
  fix u k d
  assume "phases \<lparr>gate = g, phases = (phases s)(t := p)\<rparr> u = Blocked k d"
  then have "phases s u = Blocked k d" using assms(2) by (auto split: if_splits)
  then show "d \<in> closed_chans (gate \<lparr>gate = g, phases = (phases s)(t := p)\<rparr>) \<or>
      (\<exists>n. entries (gate \<lparr>gate = g, phases = (phases s)(t := p)\<rparr>) k = Some (n, d))"
    using assms(1,3) unfolding waiters_ok_def by simp
qed

lemma join_inv:
  assumes "gate_inv waits s" "joined key (gate s) g" "\<forall>k over. phases s t \<noteq> Held k over" "key \<noteq> []"
    "waits \<Longrightarrow> \<not> gaveup \<Longrightarrow> holders key s = {}"
  shows "gate_inv waits \<lparr>gate = g, phases = (phases s)(t := Held key gaveup)\<rparr>" (is "gate_inv waits ?s")
proof -
  have s: "counts_ok s" "chans_ok s" "waiters_ok s" "clean_ok waits s" "keys_ok s" using assms(1) by (auto simp: gate_inv_def)
  have "waiters_ok ?s"
    by (rule waiters_upd[OF s(3)]) (use joined_entries[OF assms(2)] in auto)
  moreover have "clean_ok waits ?s"
    using s(4) assms(5) unfolding clean_ok_def holders_def by auto
  moreover have "keys_ok ?s" using s(5) assms(4) by (auto simp: keys_ok_def)
  ultimately show ?thesis
    using join_counts[OF s(1,2) assms(2,3)] joined_chans[OF s(2) assms(2)] by (simp add: gate_inv_def)
qed

lemma quiet_inv:
  assumes "gate_inv waits s" "\<forall>k over. phases s t \<noteq> Held k over" "\<forall>k over. p \<noteq> Held k over"
    "\<forall>k. p = Trying k \<longrightarrow> k \<noteq> []"
    "\<forall>k d. p = Blocked k d \<longrightarrow> k \<noteq> [] \<and> (d \<in> closed_chans (gate s) \<or> (\<exists>n. entries (gate s) k = Some (n, d)))"
  shows "gate_inv waits (s\<lparr>phases := (phases s)(t := p)\<rparr>)"
proof -
  have "holders k (s\<lparr>phases := (phases s)(t := p)\<rparr>) = holders k s" for k
    using assms(2,3) not_holder[of s t k] by (simp add: holders_upd)
  then show ?thesis
    using assms unfolding gate_inv_def counts_ok_def chans_ok_def waiters_ok_def clean_ok_def keys_ok_def by auto
qed

lemma try_blocked: "gate_try key waits g = Inr d \<Longrightarrow> \<exists>n. entries g key = Some (n, d)"
  by (auto simp: gate_try_def split: option.splits if_splits)

lemma release_inv:
  assumes "gate_inv waits s" "phases s t = Held key over"
  shows "gate_inv waits \<lparr>gate = gate_release key (gate s), phases = (phases s)(t := Idle)\<rparr>" (is "gate_inv waits ?s")
proof -
  have s: "counts_ok s" "chans_ok s" "waiters_ok s" "clean_ok waits s" "keys_ok s" using assms(1) by (auto simp: gate_inv_def)
  have key: "key \<noteq> []" by (rule phase_key(3)[OF assms])
  have "waiters_ok ?s"
    by (rule waiters_upd[OF s(3)]) (use release_entries[of "gate s"] release_closed[of "gate s" key] in blast)+
  moreover have "clean_ok waits ?s" "keys_ok ?s" using s(4,5) unfolding clean_ok_def keys_ok_def by auto
  ultimately show ?thesis
    using release_counts[OF s(1,2) assms(2) key] release_chans[OF s(2)] by (simp add: gate_inv_def)
qed

lemma gate_step_inv: "gate_step waits s s' \<Longrightarrow> gate_inv waits s \<Longrightarrow> gate_inv waits s'"
proof (induction rule: gate_step.induct)
  case (begin_acquire s t key)
  then show ?case by (intro quiet_inv) auto
next
  case (join s t key g)
  have "waits \<Longrightarrow> holders key s = {}" using join try_alone[of s key g] by (simp add: gate_inv_def)
  then show ?case using join by (intro join_inv try_joined) (auto dest: phase_key)
next
  case (block s t key d)
  then show ?case using try_blocked[OF block(2)] by (intro quiet_inv) (auto dest: phase_key)
next
  case (wake s t key d)
  then show ?case by (intro quiet_inv) (auto dest: phase_key)
next
  case (timer s t key d)
  then show ?case by (intro quiet_inv) (auto dest: phase_key)
next
  case (cap_out s t key d)
  then show ?case by (intro join_inv force_joined) (auto dest: phase_key)
next
  case (release s t key over)
  then show ?case by (intro release_inv)
qed

lemma gate_reach_inv: "gate_reach waits s \<Longrightarrow> gate_inv waits s"
proof (induction rule: gate_reach.induct)
  case init
  show ?case
    by (simp add: gate_inv_def gate_init_def newConvGate_def counts_ok_def count_ok_def holders_def chans_ok_def
        waiters_ok_def clean_ok_def keys_ok_def)
next
  case (step s s')
  then show ?case using gate_step_inv by blast
qed


section \<open>Properties\<close>

text \<open>
  C8. One request of a conversation at a time. With waiting configured, of two different requests in flight for
  one conversation at least one gave up waiting, that is, came in by the region after the cap; and a request that comes in by the first
  region finds nobody of its conversation in flight and is alone afterwards.
\<close>

theorem convGate_exclusion:
  assumes "gate_reach True s"
  shows "(\<forall>t t' gaveup gaveup'. phases s t = Held key gaveup \<and> phases s t' = Held key gaveup' \<and> t \<noteq> t' \<longrightarrow> gaveup \<or> gaveup') \<and>
    (\<forall>t g. phases s t = Trying key \<and> gate_try key True (gate s) = Inl g \<longrightarrow>
       holders key s = {} \<and> holders key \<lparr>gate = g, phases = (phases s)(t := Held key False)\<rparr> = {t})"
proof -
  have i: "clean_ok True s" "counts_ok s" using gate_reach_inv[OF assms] by (simp_all add: gate_inv_def)
  have "gaveup \<or> gaveup'" if "phases s t = Held key gaveup" "phases s t' = Held key gaveup'" "t \<noteq> t'" for t t' gaveup gaveup'
    using i(1) that unfolding clean_ok_def by (cases gaveup; cases gaveup') auto
  then show ?thesis using try_alone[OF i(2)] by (auto simp: holders_upd)
qed

text \<open>
  The gate counts exactly: an entry's count is the number of requests in flight for its conversation,
  there is no entry when there are none, so every conversation ends unlocked and the table does not
  grow; and the channel of an entry is still open, so it is never closed twice.
\<close>

theorem convGate_counts:
  assumes "gate_reach waits s"
  shows "(case entries (gate s) key of
      None \<Rightarrow> holders key s = {}
    | Some (n, done) \<Rightarrow> n = int (card (holders key s)) \<and> 0 < n \<and> done \<notin> closed_chans (gate s))"
proof -
  have "count_ok (gate s) key (holders key s)" using gate_reach_inv[OF assms] by (simp add: gate_inv_def counts_ok_def)
  then show ?thesis by (auto simp: count_ok_def card_gt_0_iff split: option.splits)
qed

text \<open>
  C28. No lost wake-up: a request blocked on a channel either sees it closed and can go on, or its
  conversation has a request in flight that will close this very channel when the last one leaves.
\<close>

theorem convGate_no_lost_wakeup:
  assumes "gate_reach waits s" "phases s t = Blocked key done"
  shows "(done \<in> closed_chans (gate s) \<and> gate_step waits s (s\<lparr>phases := (phases s)(t := Trying key)\<rparr>)) \<or>
    (holders key s \<noteq> {} \<and> (\<exists>n. entries (gate s) key = Some (n, done)) \<and>
     (\<forall>u. holders key s = {u} \<longrightarrow> done \<in> closed_chans (gate_release key (gate s))))"
proof -
  have inv: "waiters_ok s" "count_ok (gate s) key (holders key s)" "keys_ok s"
    using gate_reach_inv[OF assms(1)] by (simp_all add: gate_inv_def counts_ok_def)
  have key: "key \<noteq> []" by (rule phase_key(2)[OF gate_reach_inv[OF assms(1)] assms(2)])
  consider "done \<in> closed_chans (gate s)" | n where "entries (gate s) key = Some (n, done)"
    using inv(1) assms(2) unfolding waiters_ok_def by blast
  then show ?thesis
  proof cases
    case 1
    then show ?thesis using gate_step.wake[OF assms(2)] by blast
  next
    case (2 n)
    then have "n = int (card (holders key s))" "holders key s \<noteq> {}" using inv(2) by (auto simp: count_ok_def)
    then show ?thesis using 2 key by (auto simp: gate_release_def)
  qed
qed

definition gate_demo :: gate_system where
  "gate_demo = \<lparr>gate = new_entry ''c'' newConvGate, phases = (\<lambda>_. Idle)(0 := Held ''c'' False, 1 := Blocked ''c'' 0)\<rparr>"

lemma gate_demo_reach: "gate_reach True gate_demo"
proof -
  let ?s1 = "gate_init\<lparr>phases := (phases gate_init)(0 := Trying ''c'')\<rparr>"
  let ?s2 = "\<lparr>gate = new_entry ''c'' newConvGate, phases = (\<lambda>_. Idle)(0 := Held ''c'' False)\<rparr>"
  let ?s3 = "?s2\<lparr>phases := (phases ?s2)(1 := Trying ''c'')\<rparr>"
  have r1: "gate_reach True ?s1" by (rule gate_reach.step[OF gate_reach.init gate_step.begin_acquire]) (simp_all add: gate_init_def)
  have "gate_step True ?s1 \<lparr>gate = new_entry ''c'' newConvGate, phases = (phases ?s1)(0 := Held ''c'' False)\<rparr>"
    by (rule gate_step.join) (simp_all add: gate_init_def gate_try_def newConvGate_def)
  then have "gate_step True ?s1 ?s2" by (simp add: gate_init_def)
  from gate_reach.step[OF r1 this] have r2: "gate_reach True ?s2" .
  have r3: "gate_reach True ?s3" by (rule gate_reach.step[OF r2 gate_step.begin_acquire]) simp_all
  have "gate_step True ?s3 (?s3\<lparr>phases := (phases ?s3)(1 := Blocked ''c'' 0)\<rparr>)"
    by (rule gate_step.block) (simp_all add: gate_try_def new_entry_def newConvGate_def)
  from gate_reach.step[OF r3 this] show ?thesis by (simp add: gate_demo_def)
qed

theorem convGate_no_lost_wakeup_witness: "holders ''c'' gate_demo \<noteq> {}"
  using convGate_no_lost_wakeup[OF gate_demo_reach, of 1 "''c''" 0]
  by (auto simp: gate_demo_def new_entry_def newConvGate_def)

theorem convGate_counts_witness: "entries (gate gate_demo) ''c'' = Some (int (card (holders ''c'' gate_demo)), 0)"
  using convGate_counts[OF gate_demo_reach, of "''c''"] by (simp add: gate_demo_def new_entry_def newConvGate_def)

definition gate_demo2 :: gate_system where
  "gate_demo2 = \<lparr>gate = gate_force ''c'' (gate gate_demo), phases = (phases gate_demo)(1 := Held ''c'' True)\<rparr>"

lemma gate_demo2_reach: "gate_reach True gate_demo2"
proof -
  have "gate_step True gate_demo \<lparr>gate = gate_force ''c'' (gate gate_demo),
      phases = (phases gate_demo)(1 := Held ''c'' True)\<rparr>"
    by (rule gate_step.cap_out[of _ 1 _ 0]) (simp add: gate_demo_def)
  then have "gate_step True gate_demo gate_demo2"
    by (simp add: gate_demo2_def)
  then show ?thesis by (rule gate_reach.step[OF gate_demo_reach])
qed

theorem convGate_exclusion_witness:
  "\<exists>b. phases gate_demo2 0 = Held ''c'' False \<and> phases gate_demo2 1 = Held ''c'' b \<and> b"
proof -
  have h: "phases gate_demo2 0 = Held ''c'' False" "phases gate_demo2 1 = Held ''c'' True" by (simp_all add: gate_demo2_def gate_demo_def)
  have "\<forall>t t' gaveup gaveup'. phases gate_demo2 t = Held ''c'' gaveup \<and> phases gate_demo2 t' = Held ''c'' gaveup' \<and> t \<noteq> t' \<longrightarrow> gaveup \<or> gaveup'"
    using convGate_exclusion[OF gate_demo2_reach, of "''c''"] by (rule conjunct1)
  then have "False \<or> True" using h by (metis zero_neq_one)
  then show ?thesis using h by blast
qed

end
