(* ===== verification/Gateway.thy ===== *)
theory Gateway
  imports Gateway_State Conv_Gate
begin

text \<open>
  \<^verbatim>\<open>Gateway.Prepare\<close> of \<^verbatim>\<open>internal/gateway/gateway.go\<close>: everything that happens to a request before the
  decode engine is called. The callables wired by the coordinator (authentication, prefill, handoff,
  tokenizer, probes) and the library functions on text are fields of \<open>gw_env\<close>; a panic of a callable
  is one of its failures, as the \<^verbatim>\<open>recover\<close> wrappers make it. One request sees one instant \<open>e_now\<close>,
  \<open>e_wait\<close> is what waiting at the conversation gate came to, and \<open>e_elapsed\<close> the durations measured
  with \<^verbatim>\<open>msSince\<close>, under the name of the field they are written to. The long body of \<^verbatim>\<open>Prepare\<close> is the
  composition of the definitions below, in the order of the code; \<open>route_st\<close> carries its locals
  through the prefill branch.
\<close>


section \<open>Environment, state and plan\<close>

datatype call_error = Skip string | Failed string

record gw_env =
  e_sha :: "bytes \<Rightarrow> bytes"
  e_marshal :: "go_any \<Rightarrow> string option"
  e_lower :: "string \<Rightarrow> string"
  e_trim :: "string \<Rightarrow> string"
  e_atoi :: "string \<Rightarrow> int option"
  e_parse :: "string \<Rightarrow> float64 option"
  e_verify :: "Headers \<Rightarrow> bool"
  e_prefill :: "(Body \<Rightarrow> Headers \<Rightarrow> (call_error, Body) result) option"
  e_handoff :: "(string \<Rightarrow> string \<Rightarrow> (call_error, Body) result) option"
  e_count :: "(Body \<Rightarrow> (string, int) result) option"
  e_tokens :: "(Body \<Rightarrow> (string, int list) result) option"
  e_busy :: bool
  e_allowed :: "(Body \<Rightarrow> bool) option"
  e_resident :: "(Body \<Rightarrow> int \<Rightarrow> string \<Rightarrow> bool) option"
  e_poolHeld :: "int option"
  e_slotOf :: "(int \<Rightarrow> string option) option"
  e_replyRoom :: "(int \<Rightarrow> int) option"
  e_now :: float64
  e_stamp :: string
  e_elapsed :: "string \<Rightarrow> float64"
  e_wait :: "float64 \<times> bool"

datatype gw_mode = ModeBusy | ModeAlways | ModeAuto

record Gateway =
  g_noThink :: bool
  g_mode :: gw_mode
  g_threshold :: int
  g_exactMin :: int
  g_ring :: Ring
  g_alpha :: AlphaEma
  g_log :: RequestLog
  g_known :: KnownPrefixes
  g_prefixExact :: KnownPrefixes
  g_convLast :: convTurns
  g_last :: lastPrompts
  g_convSlot :: convSlots
  g_cost :: costModel
  g_gate :: convGate
  g_admitSeq :: nat
  g_breaker :: breaker

record Plan =
  p_Body :: Body
  p_Headers :: Headers
  p_fields :: Record
  p_pkey :: string
  p_ckey :: string
  p_prefixToks :: int
  p_tailToks :: int
  p_alphaKey :: string
  p_viaPrefill :: bool
  p_tokenized :: bool
  p_gated :: bool

datatype gw_error = ErrUnauthorized | RingEmpty string | Panic | BackendError string

definition Disaggregated :: "gw_env \<Rightarrow> bool" where
  "Disaggregated env \<longleftrightarrow> e_prefill env \<noteq> None \<and> e_handoff env \<noteq> None"

definition residentFor :: "gw_env \<Rightarrow> Body \<Rightarrow> int \<Rightarrow> string \<Rightarrow> bool" where
  "residentFor env body expect slot =
     (case e_resident env of None \<Rightarrow> True | Some f \<Rightarrow> if expect \<le> 0 then True else f body expect slot)"

definition residentHot :: "gw_env \<Rightarrow> Body \<Rightarrow> int \<Rightarrow> string \<Rightarrow> int" where
  "residentHot env body n slot = (if n > 0 \<and> \<not> residentFor env body n slot then 0 else n)"

text \<open>Integer division of Go truncates towards zero.\<close>

definition go_quot :: "int \<Rightarrow> int \<Rightarrow> int" where
  "go_quot a b = (if (a < 0) = (b < 0) then \<bar>a\<bar> div \<bar>b\<bar> else - (\<bar>a\<bar> div \<bar>b\<bar>))"

definition poolCouldHold :: "gw_env \<Rightarrow> int \<Rightarrow> bool" where
  "poolCouldHold env ttl = (case e_poolHeld env of None \<Rightarrow> True | Some held \<Rightarrow> held \<ge> go_quot (ttl * 8) 10)"

definition slotOfSafe :: "gw_env \<Rightarrow> int \<Rightarrow> string option" where
  "slotOfSafe env n = (case e_slotOf env of None \<Rightarrow> None | Some f \<Rightarrow> if n \<le> 0 then None else f n)"

text \<open>\<^verbatim>\<open>m[k] = v\<close>\<close>

abbreviation put :: "string \<Rightarrow> go_any \<Rightarrow> Record \<Rightarrow> Record" where
  "put k v r \<equiv> AList.update k v r"


section \<open>Keys, slot and credit\<close>

definition tenant_of :: "Headers \<Rightarrow> string" where
  "tenant_of h = (let t = header h ''x-sofmat-tenant'' in if t = [] then header h ''X-Sofmat-Tenant'' else t)"

definition conv_keys :: "gw_env \<Rightarrow> Headers \<Rightarrow> Body \<Rightarrow> string \<times> string \<times> string" where
  "conv_keys env h body =
     (let tenant = tenant_of h;
          systemPrompt = systemPromptOf body;
          pkey = PrefixKey (e_sha env) (prefixTextOf (e_marshal env) body) tenant;
          seed = conversationSeed (e_marshal env) body;
          (ckey, src) =
            (if seed \<noteq> [] then (PrefixKey (e_sha env) (systemPrompt @ CHR 0x00 # seed) tenant, ''first-message'')
             else (pkey, ''prefix''));
          conv = e_trim env (firstHeader h ''x-sofmat-conversation'')
      in if conv \<noteq> [] then (pkey, PrefixKey (e_sha env) (systemPrompt @ CHR 0x00 # ''conv:'' @ conv) tenant, ''header'')
         else (pkey, ckey, src))"

definition pick_slot :: "gw_env \<Rightarrow> Gateway \<Rightarrow> string \<Rightarrow> string \<Rightarrow> (gw_error, string \<times> string) result" where
  "pick_slot env g pkey ckey =
     (let slot = cs_get ckey (g_convSlot g)
      in if slot = [] then
           (case Ring_Route (e_sha env) pkey (g_ring g) of
              Inl e \<Rightarrow> Inl (RingEmpty e)
            | Inr s \<Rightarrow> Inr (s, ''ring''))
         else Inr (slot, ''learned''))"

text \<open>The body sent to the tokenizer for the prefix alone.\<close>

definition prefix_body :: "Body \<Rightarrow> Body" where
  "prefix_body body =
     (let sp = systemPromptOf body;
          pb = [(''messages'', Arr (if sp \<noteq> [] then [Obj [(''role'', Str ''system''), (''content'', Str sp)]] else []))]
      in foldl (\<lambda>pb k. case map_of body k of Some v \<Rightarrow> AList.update k v pb | None \<Rightarrow> pb) pb
           [''tools'', ''tool_choice'', ''chat_template_kwargs'', ''reasoning_format'', ''parallel_tool_calls''])"

definition prefixTokens :: "gw_env \<Rightarrow> string \<Rightarrow> Body \<Rightarrow> Gateway \<Rightarrow> ((int \<times> bool) \<times> Gateway) option" where
  "prefixTokens env pkey body g =
     (let est = EstimateTokens (prefixTextOf (e_marshal env) body) None
      in case e_count env of
           None \<Rightarrow> Some ((est, False), g)
         | Some count \<Rightarrow>
             if pkey = [] \<or> est = 0 \<or> field body ''tools'' = Null \<or> prefillDown (e_now env) (g_breaker g)
             then Some ((est, False), g)
             else
               let (n, pe) = kp_HotTokens pkey (g_prefixExact g);
                   g = g\<lparr>g_prefixExact := pe\<rparr>
               in if n > 0 then Some ((n, True), g)
                  else
                    case count (prefix_body body) of
                      Inl _ \<Rightarrow> Some ((est, False), g)
                    | Inr n \<Rightarrow>
                        if n \<le> 0 then Some ((est, False), g)
                        else (case kp_Record pkey n (g_prefixExact g) of
                                None \<Rightarrow> None
                              | Some pe' \<Rightarrow> Some ((n, True), g\<lparr>g_prefixExact := pe'\<rparr>)))"

definition resident_credit :: "gw_env \<Rightarrow> Gateway \<Rightarrow> Body \<Rightarrow> string \<Rightarrow> string \<Rightarrow> int \<Rightarrow> int \<Rightarrow> int" where
  "resident_credit env g body ckey slot prefixToks tailToks =
     (case cts_get ckey (g_convLast g) of
        None \<Rightarrow> 0
      | Some ct \<Rightarrow>
          if ct_total ct > 0 \<and> ct_prefix ct = prefixToks \<and> tailToks \<ge> ct_tail ct \<and>
             residentFor env body (ct_total ct) slot \<and> poolCouldHold env (ct_total ct)
          then ct_total ct else 0)"

definition merge_policy :: "gw_env \<Rightarrow> Gateway \<Rightarrow> string \<Rightarrow> Body \<Rightarrow> Body" where
  "merge_policy env g alphaKey body =
     (let nMax = NextWaveNMax (e_lower env) (AlphaEma_Get alphaKey (g_alpha g)) (Some (lastUserTextOf body)) 0;
          merged = (if g_noThink g \<and> map_of body ''chat_template_kwargs'' = None
                    then put ''chat_template_kwargs'' (Obj [(''enable_thinking'', Bool False)]) body else body)
      in if map_of merged SpeculativeNMaxKey = None then put SpeculativeNMaxKey (Num nMax) merged else merged)"


section \<open>The prefill branch\<close>

record route_st =
  r_fields :: Record
  r_merged :: Body
  r_headers :: Headers
  r_via :: string
  r_go :: bool
  r_n :: int
  r_new :: int
  r_ids :: "int list option"
  r_tokenized :: bool
  r_breaker :: breaker
  r_slot :: string
  r_viaPrefill :: bool

definition to_decode :: "string \<Rightarrow> route_st \<Rightarrow> route_st" where
  "to_decode reason st =
     st\<lparr>r_fields := put ''admission'' (Str reason) (r_fields st), r_via := ''decode'', r_go := False\<rparr>"

definition route_guards :: "gw_env \<Rightarrow> Gateway \<Rightarrow> route_st \<Rightarrow> route_st" where
  "route_guards env g st =
     (let st = (if prefillDown (e_now env) (r_breaker st) then to_decode ''prefill-down'' st else st);
          st = (if r_go st \<and> (case e_allowed env of None \<Rightarrow> False | Some f \<Rightarrow> \<not> f (r_merged st))
                then to_decode ''other-engine'' st else st);
          busy = (r_go st \<and> g_mode g \<noteq> ModeAlways \<and> e_busy env)
      in if r_go st \<and> g_mode g = ModeBusy \<and> \<not> busy then to_decode ''decode-idle'' st else st)"

definition prefill_fails :: "gw_env \<Rightarrow> string \<Rightarrow> string \<Rightarrow> route_st \<Rightarrow> route_st" where
  "prefill_fails env key msg st =
     st\<lparr>r_fields := put key (Str msg) (r_fields st), r_breaker := tripBreaker (e_now env) (r_breaker st), r_go := False\<rparr>"

definition route_recount :: "gw_env \<Rightarrow> Gateway \<Rightarrow> string \<Rightarrow> string \<Rightarrow> route_st \<Rightarrow> route_st" where
  "route_recount env g ckey pkey st =
     (if \<not> r_go st then st
      else case e_tokens env of
             Some tokens \<Rightarrow>
               (case tokens (r_merged st) of
                  Inl e \<Rightarrow> (prefill_fails env ''prefill_error'' (''tokenize: '' @ e) st)\<lparr>r_tokenized := True\<rparr>
                | Inr ids \<Rightarrow>
                    st\<lparr>r_tokenized := True, r_ids := Some ids, r_n := int (length ids),
                       r_new := int (length ids) - int (bestPrefix ckey pkey ids (g_last g))\<rparr>)
           | None \<Rightarrow>
               (case e_count env of
                  Some count \<Rightarrow>
                    (case count (r_merged st) of
                       Inl e \<Rightarrow> prefill_fails env ''prefill_error'' (''count: '' @ e) st
                     | Inr n \<Rightarrow> st\<lparr>r_n := n, r_new := n\<rparr>)
                | None \<Rightarrow> st))"

text \<open>The reply is capped to what the engine can still host.\<close>

definition clamp_reply :: "gw_env \<Rightarrow> route_st \<Rightarrow> route_st" where
  "clamp_reply env st =
     (case e_replyRoom env of
        None \<Rightarrow> st
      | Some rr \<Rightarrow>
          let room = rr (r_n st);
              want = intField (r_merged st) ''max_tokens''
          in if room > 0 \<and> want > room
             then st\<lparr>r_merged := put ''max_tokens'' (Num room) (r_merged st),
                     r_fields := put ''max_tokens_asked'' (Num want) (put ''max_tokens_clamped'' (Num room) (r_fields st))\<rparr>
             else st)"

definition route_measured :: "gw_env \<Rightarrow> Gateway \<Rightarrow> route_st \<Rightarrow> route_st" where
  "route_measured env g st =
     (if \<not> (r_go st \<and> r_n st > 0) then st
      else
        let n = r_n st;
            st = st\<lparr>r_fields := put ''tokens'' (Num n) (r_fields st),
                    r_headers := AList.update ''x-sofmat-exact-tokens'' (decimal (nat n)) (r_headers st)\<rparr>;
            st = (if r_new st < g_exactMin g \<and> \<not> residentFor env (r_merged st) (n - r_new st) (r_slot st)
                  then st\<lparr>r_fields := put ''cache_evicted'' (Bool True) (r_fields st), r_new := n\<rparr> else st);
            st = st\<lparr>r_fields := put ''new_tokens'' (Num (r_new st)) (r_fields st)\<rparr>;
            st = clamp_reply env st
        in if r_new st < g_exactMin g then
             (if r_new st < n
              then (to_decode ''cache-hot'' st)\<lparr>r_merged := put ''cache_prompt'' (Bool True) (r_merged st)\<rparr>
              else to_decode ''exact-below-floor'' st)
           else st)"

definition route_cheaper :: "gw_env \<Rightarrow> Gateway \<Rightarrow> route_st \<Rightarrow> route_st" where
  "route_cheaper env g st =
     (if r_go st \<and> g_mode g = ModeAuto \<and> \<not> e_busy env \<and> r_n st > 0 \<and> \<not> prefillCheaper (r_n st) (r_new st) (g_cost g)
      then to_decode ''decode-cheaper'' st else st)"

definition handoff_skipped :: "string \<Rightarrow> route_st \<Rightarrow> route_st" where
  "handoff_skipped reason st =
     st\<lparr>r_fields := put ''handoff_skipped'' (Str reason) (put ''admission'' (Str ''handoff-skipped'') (r_fields st)),
        r_via := ''decode''\<rparr>"

definition handoff_done :: "gw_env \<Rightarrow> string \<Rightarrow> Body \<Rightarrow> route_st \<Rightarrow> route_st" where
  "handoff_done env hid hm st =
     (let fs = put ''handoff_ms'' (Flt (e_elapsed env ''handoff_ms'')) (put ''handoff_id'' (Str hid) (copyMetrics (r_fields st) hm));
          hs = AList.update ''x-sofmat-kv-handoff'' hid (r_headers st);
          s = as_str (field hm ''slot'');
          moved = (s \<noteq> [] \<and> s \<noteq> r_slot st);
          slot = (if moved then s else r_slot st);
          merged = (case e_atoi env slot of Some si \<Rightarrow> put ''id_slot'' (Num si) (r_merged st) | None \<Rightarrow> r_merged st)
      in st\<lparr>r_fields := (if moved then put ''slot'' (Str s) fs else fs),
            r_headers := (if moved then AList.update ''x-sofmat-slot'' s hs else hs),
            r_slot := slot, r_merged := put ''cache_prompt'' (Bool True) merged,
            r_via := ''prefill'', r_viaPrefill := True\<rparr>)"

definition route_handoff :: "gw_env \<Rightarrow> route_st \<Rightarrow> route_st" where
  "route_handoff env st =
     (case (e_prefill env, e_handoff env) of
        (Some prefill, Some handoff) \<Rightarrow>
          if \<not> r_go st then st
          else
            (case prefill (r_merged st) [(''x-sofmat-slot'', r_slot st)] of
               Inl (Skip reason) \<Rightarrow> handoff_skipped reason st
             | Inl (Failed e) \<Rightarrow> prefill_fails env ''prefill_error'' e st
             | Inr pre \<Rightarrow>
                 let st = st\<lparr>r_fields := copyMetrics (r_fields st) pre\<rparr>;
                     hid = as_str (field pre ''handoff_id'')
                 in if hid = [] then st\<lparr>r_fields := put ''prefill_error'' (Str ''no handoff_id'') (r_fields st)\<rparr>
                    else
                      (case handoff hid (r_slot st) of
                         Inl (Skip reason) \<Rightarrow> handoff_skipped reason st
                       | Inl (Failed e) \<Rightarrow> prefill_fails env ''handoff_error'' e st
                       | Inr hm \<Rightarrow> handoff_done env hid hm st))
      | _ \<Rightarrow> st)"

definition route_prefill :: "gw_env \<Rightarrow> Gateway \<Rightarrow> string \<Rightarrow> string \<Rightarrow> route_st \<Rightarrow> route_st" where
  "route_prefill env g ckey pkey st =
     route_handoff env (route_cheaper env g (route_measured env g (route_recount env g ckey pkey
       (route_guards env g (st\<lparr>r_via := ''decode-fallback'', r_go := True\<rparr>)))))"


section \<open>Prepare\<close>

definition base_fields ::
  "gw_env \<Rightarrow> Headers \<Rightarrow> Body \<Rightarrow> Body \<Rightarrow> string \<Rightarrow> string \<Rightarrow> string \<Rightarrow> string \<Rightarrow> string \<Rightarrow> string \<Rightarrow> nat
     \<Rightarrow> AdmissionDecision \<Rightarrow> int \<Rightarrow> int \<Rightarrow> int \<Rightarrow> int \<Rightarrow> bool \<Rightarrow> int \<Rightarrow> Record" where
  "base_fields env h body merged tenant slot slotSrc pkey ckey ckeySrc sq decision
     knownHot hotPrefix resident prefixToks prefixExact tailToks =
     (let route = firstHeader h ''X-Sofmat-Route'';
          fs =
            [(''route'', Str (if route = [] then ''/api/chat'' else route)),
             (''client_ip'', Str (firstHeader h ''X-Sofmat-Client-Ip'')),
             (''client_fwd'', Str (firstHeader h ''X-Sofmat-Client-Fwd'')),
             (''client_ua'', Str (clip (firstHeader h ''X-Sofmat-Client-Ua'') 160)),
             (''tenant'', Str tenant), (''slot'', Str slot), (''slot_src'', Str slotSrc),
             (''n_max'', field merged SpeculativeNMaxKey), (''admission'', Str (Reason decision)),
             (''est_new_tokens'', Num (EstNewTokens decision)), (''pkey'', Str pkey), (''ckey'', Str ckey),
             (''ckey_src'', Str ckeySrc), (''seq_admit'', Num (int sq)), (''tool_choice'', Str (toolChoiceOf body)),
             (''tools_n'', Num (int (toolsCount body))), (''known_hot_tokens'', Num knownHot),
             (''hot_prefix_tokens'', Num hotPrefix), (''resident_toks'', Num resident), (''prefix_toks'', Num prefixToks),
             (''prefix_exact'', Bool prefixExact), (''tail_toks'', Num tailToks), (''t1_admit'', Str (e_stamp env))]
      in case e_poolHeld env of Some held \<Rightarrow> put ''pool_held_at_admit'' (Num held) fs | None \<Rightarrow> fs)"

text \<open>What admission decides, with the registries it touched.\<close>

record admitted =
  a_decision :: AdmissionDecision
  a_knownHot :: int
  a_hotPrefix :: int
  a_resident :: int
  a_prefixToks :: int
  a_prefixExact :: bool
  a_tailToks :: int

definition admit_request ::
  "gw_env \<Rightarrow> Body \<Rightarrow> string \<Rightarrow> string \<Rightarrow> string \<Rightarrow> Gateway \<Rightarrow> (admitted \<times> Gateway) option" where
  "admit_request env body pkey ckey slot g =
     (case prefixTokens env pkey body g of
        None \<Rightarrow> None
      | Some ((prefixToks, exact), g) \<Rightarrow>
          let tailToks = EstimateTokens (tailTextOf (e_marshal env) body) None;
              (knownHot, known) = kp_HotTokens pkey (g_known g);
              g = g\<lparr>g_known := known\<rparr>;
              hotPrefix = residentHot env body knownHot slot;
              resident = resident_credit env g body ckey slot prefixToks tailToks;
              decision = ClassifyAdmission \<lparr>PrefixTokens = prefixToks, TailTokens = tailToks,
                HotPrefixTokens = hotPrefix, ResidentTokens = resident, Threshold = g_threshold g,
                APrefillAvailable = Disaggregated env\<rparr>
          in Some (\<lparr>a_decision = decision, a_knownHot = knownHot, a_hotPrefix = hotPrefix, a_resident = resident,
                    a_prefixToks = prefixToks, a_prefixExact = exact, a_tailToks = tailToks\<rparr>, g))"

text \<open>The bookkeeping at the end: last prompts and the conversation's slot.\<close>

definition remember_turn :: "string \<Rightarrow> string \<Rightarrow> route_st \<Rightarrow> Gateway \<Rightarrow> Gateway option" where
  "remember_turn ckey pkey st g =
     (case (case r_ids st of
              None \<Rightarrow> Some (g_last g)
            | Some ids \<Rightarrow>
                (case lp_remember ckey ids (g_last g) of
                   None \<Rightarrow> None
                 | Some l \<Rightarrow> if ckey \<noteq> pkey then lp_remember pkey ids l else Some l)) of
        None \<Rightarrow> None
      | Some l \<Rightarrow>
          (case cs_set ckey (r_slot st) (g_convSlot g) of
             None \<Rightarrow> None
           | Some cs \<Rightarrow> Some (g\<lparr>g_last := l, g_convSlot := cs, g_breaker := r_breaker st\<rparr>)))"

text \<open>The locals at the start of routing, and the fields added at the end of admission.\<close>

definition start_st :: "Record \<Rightarrow> Body \<Rightarrow> string \<Rightarrow> string \<Rightarrow> breaker \<Rightarrow> route_st" where
  "start_st fs merged slot via b =
     \<lparr>r_fields = fs, r_merged = merged, r_headers = [(''x-sofmat-slot'', slot)], r_via = via, r_go = False,
      r_n = 0, r_new = 0, r_ids = None, r_tokenized = False, r_breaker = b, r_slot = slot, r_viaPrefill = False\<rparr>"

definition admit_fields :: "gw_env \<Rightarrow> route_st \<Rightarrow> Record" where
  "admit_fields env st =
     put ''wait_conv_capped'' (Bool (snd (e_wait env)))
       (put ''wait_conv_ms'' (Flt (fst (e_wait env)))
         (put ''admit_ms'' (Flt (e_elapsed env ''admit_ms'' - fst (e_wait env)))
           (put ''admitted_via'' (Str (r_via st)) (r_fields st))))"

definition route_request :: "gw_env \<Rightarrow> Gateway \<Rightarrow> string \<Rightarrow> string \<Rightarrow> string \<Rightarrow> route_st \<Rightarrow> route_st" where
  "route_request env g ckey pkey via st = (if via = ''prefill'' then route_prefill env g ckey pkey st else st)"

definition Prepare :: "gw_env \<Rightarrow> Headers \<Rightarrow> Body \<Rightarrow> Gateway \<Rightarrow> (gw_error, Plan) result \<times> Gateway" where
  "Prepare env h body g =
     (if \<not> e_verify env h then (Inl ErrUnauthorized, g)
      else
        let tenant = tenant_of h;
            (pkey, ckey, ckeySrc) = conv_keys env h body;
            g = g\<lparr>g_admitSeq := Suc (g_admitSeq g)\<rparr>
        in case pick_slot env g pkey ckey of
             Inl e \<Rightarrow> (Inl e, g)
           | Inr (slot, slotSrc) \<Rightarrow>
               let g = (if ckey = [] then g else g\<lparr>g_gate := gate_force ckey (g_gate g)\<rparr>)
               in case admit_request env body pkey ckey slot g of
                    None \<Rightarrow> (Inl Panic, g\<lparr>g_gate := gate_release ckey (g_gate g)\<rparr>)
                  | Some (a, g) \<Rightarrow>
                      let alphaKey = (if tenant = [] then pkey else tenant);
                          merged = merge_policy env g alphaKey body;
                          fs = base_fields env h body merged tenant slot slotSrc pkey ckey ckeySrc (g_admitSeq g)
                                 (a_decision a) (a_knownHot a) (a_hotPrefix a) (a_resident a) (a_prefixToks a)
                                 (a_prefixExact a) (a_tailToks a);
                          st = route_request env g ckey pkey (Route (a_decision a))
                                 (start_st fs merged slot (Route (a_decision a)) (g_breaker g))
                      in case remember_turn ckey pkey st g of
                           None \<Rightarrow> (Inl Panic, g\<lparr>g_gate := gate_release ckey (g_gate g)\<rparr>)
                         | Some g \<Rightarrow>
                             (Inr \<lparr>p_Body = r_merged st, p_Headers = r_headers st, p_fields = admit_fields env st, p_pkey = pkey,
                                   p_ckey = ckey, p_prefixToks = a_prefixToks a, p_tailToks = a_tailToks a,
                                   p_alphaKey = alphaKey, p_viaPrefill = r_viaPrefill st,
                                   p_tokenized = r_tokenized st, p_gated = True\<rparr>, g))"

definition Note :: "string \<Rightarrow> go_any \<Rightarrow> Plan \<Rightarrow> Plan" where
  "Note key v p = (if key = [] then p else p\<lparr>p_fields := put key v (p_fields p)\<rparr>)"

end
