(* ===== verification/Gateway_Prepare.thy ===== *)
theory Gateway_Prepare
  imports Gateway
begin

text \<open>
  Correctness of \<^verbatim>\<open>Gateway.Prepare\<close>: the invariant of the gateway's state, that preparation never fails
  an authorised request whatever the callables do, what it may change in the request, when it hands a
  prompt off, and that an open breaker keeps the prefill side out of the way.
\<close>


section \<open>Invariant\<close>

definition gate_ok :: "convGate \<Rightarrow> bool" where
  "gate_ok g \<longleftrightarrow> (\<forall>k n d. entries g k = Some (n, d) \<longrightarrow> 0 < n)"

definition log_ok :: "RequestLog \<Rightarrow> bool" where
  "log_ok l \<longleftrightarrow> 0 < rl_capacity l \<and> int (length (rl_buf l)) \<le> rl_capacity l"

definition gw_inv :: "Gateway \<Rightarrow> bool" where
  "gw_inv g \<longleftrightarrow> ring_ok (g_ring g) \<and> members (g_ring g) \<noteq> [] \<and> kp_inv (g_known g) \<and> kp_inv (g_prefixExact g) \<and>
     lp_inv (g_last g) \<and> cs_inv (g_convSlot g) \<and> cm_inv (g_cost g) \<and> ema_ok (g_alpha g) \<and> gate_ok (g_gate g) \<and> log_ok (g_log g)"

lemma gate_okD: "gate_ok g \<Longrightarrow> entries g k = Some (n, d) \<Longrightarrow> 0 < n"
  unfolding gate_ok_def by blast

lemma gate_force_ok:
  assumes "gate_ok g"
  shows "gate_ok (gate_force k g)"
  unfolding gate_ok_def gate_force_def new_entry_def
  using gate_okD[OF assms] by (auto split: option.splits if_splits intro: less_imp_le)

lemma gate_release_ok: "gate_ok g \<Longrightarrow> gate_ok (gate_release k g)"
  by (auto simp: gate_ok_def gate_release_def split: option.splits)

text \<open>Leaving right after joining gives the same table back.\<close>

lemma release_force:
  assumes "gate_ok g" "k \<noteq> []"
  shows "entries (gate_release k (gate_force k g)) = entries g"
proof (cases "entries g k")
  case (Some e)
  obtain n d where e: "e = (n, d)" by fastforce
  have "0 < n" using gate_okD[OF assms(1)] Some e by blast
  then show ?thesis using Some e assms(2) by (auto simp: gate_release_def gate_force_def fun_eq_iff)
qed (use assms(2) in \<open>auto simp: gate_release_def gate_force_def new_entry_def fun_eq_iff\<close>)

lemma pick_slot_ok:
  assumes "gw_inv g"
  shows "\<exists>s src. pick_slot env g pkey ckey = Inr (s, src)"
proof -
  have r: "ring_ok (g_ring g)" "members (g_ring g) \<noteq> []" using assms by (auto simp: gw_inv_def)
  then have "sorted (map rp_h (ring (g_ring g)))" "ring (g_ring g) \<noteq> []"
    using ring_nonempty by (auto simp: ring_ok_def)
  then show ?thesis using Route_owner by (simp add: pick_slot_def Let_def)
qed

lemma prefixTokens_ok:
  assumes "gw_inv g"
  shows "\<exists>r pe. prefixTokens env pkey body g = Some (r, g\<lparr>g_prefixExact := pe\<rparr>) \<and> kp_inv pe"
proof -
  define P where "P x \<longleftrightarrow> (\<exists>r pe. x = Some (r, g\<lparr>g_prefixExact := pe\<rparr>) \<and> kp_inv pe)" for x :: "((int \<times> bool) \<times> Gateway) option"
  have k: "kp_inv (g_prefixExact g)" using assms by (simp add: gw_inv_def)
  have same: "P (Some (r, g))" for r
    unfolding P_def using k by (intro exI[of _ r] exI[of _ "g_prefixExact g"]) simp
  have hot: "P (Some (r, g\<lparr>g_prefixExact := pe\<rparr>))" if "kp_inv pe" for r pe
    unfolding P_def using that by blast
  obtain n pe where h: "kp_HotTokens pkey (g_prefixExact g) = (n, pe)" by fastforce
  have pe: "kp_inv pe" using kp_HotTokens_ok(1)[OF k, of pkey] h by simp
  have "P (case kp_Record pkey m pe of None \<Rightarrow> None | Some pe' \<Rightarrow> Some (r, g\<lparr>g_prefixExact := pe, g_prefixExact := pe'\<rparr>))" for m r
    using kp.put_ok[OF pe, of pkey m] hot[of _ r] by auto
  then have "P (prefixTokens env pkey body g)"
    using h same hot[OF pe] by (cases "e_count env") (simp_all add: prefixTokens_def Let_def split: sum.split)
  then show ?thesis by (simp add: P_def)
qed

lemma admit_request_ok:
  assumes "gw_inv g"
  shows "\<exists>a pe kn. admit_request env body pkey ckey slot g = Some (a, g\<lparr>g_prefixExact := pe, g_known := kn\<rparr>) \<and>
    gw_inv (g\<lparr>g_prefixExact := pe, g_known := kn\<rparr>)"
proof -
  obtain n b pe where p: "prefixTokens env pkey body g = Some ((n, b), g\<lparr>g_prefixExact := pe\<rparr>)" "kp_inv pe"
    using prefixTokens_ok[OF assms, of env pkey body] by fastforce
  obtain k kn where h: "kp_HotTokens pkey (g_known g) = (k, kn)" by fastforce
  have "kp_inv kn" using kp_HotTokens_ok(1)[of "g_known g" pkey] h assms by (simp add: gw_inv_def)
  then show ?thesis using p h assms by (auto simp: admit_request_def Let_def gw_inv_def)
qed

lemma remember_turn_ok:
  assumes "gw_inv g"
  shows "\<exists>l cs. remember_turn ckey pkey st g = Some (g\<lparr>g_last := l, g_convSlot := cs, g_breaker := r_breaker st\<rparr>) \<and>
    gw_inv (g\<lparr>g_last := l, g_convSlot := cs, g_breaker := r_breaker st\<rparr>)"
proof -
  have inv: "lp_inv (g_last g)" "cs_inv (g_convSlot g)" using assms by (auto simp: gw_inv_def)
  obtain cs where cs: "cs_set ckey (r_slot st) (g_convSlot g) = Some cs" "cs_inv cs" using cs_set_ok[OF inv(2)] by blast
  have "\<exists>l. (case r_ids st of None \<Rightarrow> Some (g_last g)
      | Some ids \<Rightarrow> (case lp_remember ckey ids (g_last g) of None \<Rightarrow> None
          | Some l \<Rightarrow> if ckey \<noteq> pkey then lp_remember pkey ids l else Some l)) = Some l \<and> lp_inv l"
  proof (cases "r_ids st")
    case (Some ids)
    obtain l where l: "lp_remember ckey ids (g_last g) = Some l" "lp_inv l" using lp.put_ok[OF inv(1)] by blast
    obtain l' where "lp_remember pkey ids l = Some l'" "lp_inv l'" using lp.put_ok[OF l(2)] by blast
    then show ?thesis using l Some by auto
  qed (use inv in simp)
  then obtain l where l: "(case r_ids st of None \<Rightarrow> Some (g_last g)
      | Some ids \<Rightarrow> (case lp_remember ckey ids (g_last g) of None \<Rightarrow> None
          | Some l \<Rightarrow> if ckey \<noteq> pkey then lp_remember pkey ids l else Some l)) = Some l" "lp_inv l" by blast
  show ?thesis using cs l assms
    by (intro exI[of _ l] exI[of _ cs]) (simp add: remember_turn_def gw_inv_def)
qed


section \<open>What a prepared request is\<close>

text \<open>
  The plan of an authorised request, without the error branches that cannot happen: \<open>a\<close> is what admission
  decided, \<open>g1\<close> the state it left and \<open>st\<close> the locals after routing.
\<close>

lemma Prepare_run:
  assumes "gw_inv g" "e_verify env h" "conv_keys env h body = (pkey, ckey, src)"
  obtains a :: admitted and g1 fs slot st g2 ts where
    "gw_inv g1" "gw_inv g2" "g_breaker g1 = g_breaker g" "g_noThink g1 = g_noThink g" "g_log g2 = g_log g"
    "g_gate g2 = (if ckey = [] then g_gate g else gate_force ckey (g_gate g))" "g_breaker g2 = r_breaker st"
    "Route (a_decision a) = ''prefill'' \<or> Route (a_decision a) = ''decode''"
    "Route (a_decision a) = ''prefill'' \<longrightarrow> Disaggregated env"
    "st = route_request env g1 ckey pkey (Route (a_decision a))
       (start_st fs (merge_policy env g1 ts body) slot (Route (a_decision a)) (g_breaker g))"
    "Prepare env h body g =
      (Inr \<lparr>p_Body = r_merged st, p_Headers = r_headers st, p_fields = admit_fields env st,
            p_pkey = pkey, p_ckey = ckey, p_prefixToks = a_prefixToks a, p_tailToks = a_tailToks a, p_alphaKey = ts,
            p_viaPrefill = r_viaPrefill st, p_tokenized = r_tokenized st, p_gated = True\<rparr>, g2)"
proof -
  let ?h = "g\<lparr>g_admitSeq := Suc (g_admitSeq g)\<rparr>"
  let ?g = "if ckey = [] then ?h else ?h\<lparr>g_gate := gate_force ckey (g_gate ?h)\<rparr>"
  have i0: "gw_inv ?h" using assms(1) by (simp add: gw_inv_def)
  have gk: "gate_ok (gate_force ckey (g_gate g))"
    using assms(1) by (intro gate_force_ok) (simp add: gw_inv_def)
  have i: "gw_inv ?g" using i0 gk by (simp add: gw_inv_def)
  obtain slot ssrc where slot: "pick_slot env ?h pkey ckey = Inr (slot, ssrc)" using pick_slot_ok[OF i0] by blast
  obtain a pe kn where a: "admit_request env body pkey ckey slot ?g = Some (a, ?g\<lparr>g_prefixExact := pe, g_known := kn\<rparr>)"
    and i1: "gw_inv (?g\<lparr>g_prefixExact := pe, g_known := kn\<rparr>)"
    using admit_request_ok[OF i] by blast
  define g1 where "g1 = ?g\<lparr>g_prefixExact := pe, g_known := kn\<rparr>"
  define ts where "ts = (if tenant_of h = [] then pkey else tenant_of h)"
  define fs where "fs = base_fields env h body (merge_policy env g1 ts body) (tenant_of h) slot ssrc pkey ckey src (g_admitSeq g1)
     (a_decision a) (a_knownHot a) (a_hotPrefix a) (a_resident a) (a_prefixToks a) (a_prefixExact a) (a_tailToks a)"
  define st where "st = route_request env g1 ckey pkey (Route (a_decision a))
       (start_st fs (merge_policy env g1 ts body) slot (Route (a_decision a)) (g_breaker g))"
  have br: "g_breaker g1 = g_breaker g" "g_noThink g1 = g_noThink g" "g_log g1 = g_log g"
    by (auto simp: g1_def)
  obtain l cs where rt: "remember_turn ckey pkey st g1 = Some (g1\<lparr>g_last := l, g_convSlot := cs, g_breaker := r_breaker st\<rparr>)"
    and i2: "gw_inv (g1\<lparr>g_last := l, g_convSlot := cs, g_breaker := r_breaker st\<rparr>)"
    using remember_turn_ok[OF i1[folded g1_def]] by blast
  have via: "Route (a_decision a) = ''prefill'' \<or> Route (a_decision a) = ''decode''"
    using a by (auto simp: admit_request_def ClassifyAdmission_def Let_def split: option.splits prod.splits if_splits)
  have dis: "Route (a_decision a) = ''prefill'' \<longrightarrow> Disaggregated env"
    using a by (auto simp: admit_request_def ClassifyAdmission_def Let_def split: option.splits prod.splits if_splits)
  have gate: "g_gate g1 = (if ckey = [] then g_gate g else gate_force ckey (g_gate g))" by (simp add: g1_def)
  have P: "Prepare env h body g = (Inr \<lparr>p_Body = r_merged st, p_Headers = r_headers st, p_fields = admit_fields env st,
            p_pkey = pkey, p_ckey = ckey, p_prefixToks = a_prefixToks a, p_tailToks = a_tailToks a, p_alphaKey = ts,
            p_viaPrefill = r_viaPrefill st, p_tokenized = r_tokenized st, p_gated = True\<rparr>,
            g1\<lparr>g_last := l, g_convSlot := cs, g_breaker := r_breaker st\<rparr>)"
    unfolding Prepare_def Let_def assms(3) prod.case slot sum.case a[folded g1_def] option.case br(1)
      ts_def[symmetric] fs_def[symmetric] st_def[symmetric] rt
    using assms(2) by simp
  have S: "g_log (g1\<lparr>g_last := l, g_convSlot := cs, g_breaker := r_breaker st\<rparr>) = g_log g"
    "g_gate (g1\<lparr>g_last := l, g_convSlot := cs, g_breaker := r_breaker st\<rparr>) =
      (if ckey = [] then g_gate g else gate_force ckey (g_gate g))"
    "g_breaker (g1\<lparr>g_last := l, g_convSlot := cs, g_breaker := r_breaker st\<rparr>) = r_breaker st"
    using br gate by simp_all
  show thesis by (rule that[OF i1[folded g1_def] i2 br(1,2) S via dis st_def P])
qed


section \<open>What routing may change\<close>

text \<open>
  The states before the handoff: the request differs from the merged one in a lowered \<^verbatim>\<open>max_tokens\<close> and in
  \<^verbatim>\<open>cache_prompt\<close>; nothing was handed off; while the prompt is still bound for the prefill node the breaker
  is closed and untouched.
\<close>

definition lowered :: "Body \<Rightarrow> Body \<Rightarrow> bool" where
  "lowered m m' \<longleftrightarrow> map_of m' ''max_tokens'' = map_of m ''max_tokens'' \<or>
     (\<exists>room. map_of m' ''max_tokens'' = Some (Num room) \<and> 0 < room \<and> room < intField m ''max_tokens'')"

definition same_request :: "Body \<Rightarrow> Body \<Rightarrow> bool" where
  "same_request m m' \<longleftrightarrow> lowered m m' \<and>
     (\<forall>k. k \<notin> {''max_tokens'', ''cache_prompt'', ''id_slot''} \<longrightarrow> map_of m' k = map_of m k)"

definition unhanded :: "gw_env \<Rightarrow> Body \<Rightarrow> breaker \<Rightarrow> route_st \<Rightarrow> bool" where
  "unhanded env m b st \<longleftrightarrow> same_request m (r_merged st) \<and>
     \<not> r_viaPrefill st \<and> map_of (r_headers st) ''x-sofmat-kv-handoff'' = None \<and> r_via st \<noteq> ''prefill'' \<and>
     (if r_go st then r_breaker st = b \<and> \<not> prefillDown (e_now env) b \<and> r_via st = ''decode-fallback''
      else r_breaker st = b \<or> r_breaker st = tripBreaker (e_now env) b \<and> r_via st = ''decode-fallback'')"

lemma same_request_refl [simp]: "same_request m m"
  by (simp add: same_request_def lowered_def)

lemma same_request_flag:
  assumes "same_request m m'" "k \<in> {''cache_prompt'', ''id_slot''}"
  shows "same_request m (put k v m')"
  using assms by (auto simp: same_request_def lowered_def update_conv')

lemma to_decode_unhanded: "unhanded env m b st \<Longrightarrow> r_breaker st = b \<Longrightarrow> unhanded env m b (to_decode reason st)"
  by (simp add: unhanded_def to_decode_def)

lemma unhanded_breaker: "unhanded env m b st \<Longrightarrow> r_go st \<Longrightarrow> r_breaker st = b"
  by (simp add: unhanded_def)

lemma prefill_fails_unhanded: "unhanded env m b st \<Longrightarrow> r_go st \<Longrightarrow> unhanded env m b (prefill_fails env key msg st)"
  by (simp add: unhanded_def prefill_fails_def)

lemma route_guards_unhanded:
  assumes "same_request m (r_merged st)" "\<not> r_viaPrefill st" "map_of (r_headers st) ''x-sofmat-kv-handoff'' = None"
    "r_breaker st = b" "r_via st = ''decode-fallback''"
  shows "unhanded env m b (route_guards env g st)"
  using assms by (auto simp: route_guards_def Let_def to_decode_def unhanded_def)

lemma route_recount_unhanded: "unhanded env m b st \<Longrightarrow> unhanded env m b (route_recount env g ckey pkey st)"
  using prefill_fails_unhanded[of env m b st]
  by (auto simp: route_recount_def unhanded_def split: option.splits sum.splits)

lemma clamp_reply_frame:
  "r_go (clamp_reply env st) = r_go st" "r_viaPrefill (clamp_reply env st) = r_viaPrefill st"
  "r_headers (clamp_reply env st) = r_headers st" "r_breaker (clamp_reply env st) = r_breaker st"
  "r_via (clamp_reply env st) = r_via st" "r_new (clamp_reply env st) = r_new st"
  by (simp_all add: clamp_reply_def Let_def split: option.splits)

lemma intField_lowered: "lowered m m' \<Longrightarrow> 0 < room \<Longrightarrow> room < intField m' ''max_tokens'' \<Longrightarrow>
    lowered m (put ''max_tokens'' (Num room) m')"
  by (auto simp: lowered_def update_conv' intField_def field_def numberOf_def split: option.splits)

lemma clamp_reply_request: "same_request m (r_merged st) \<Longrightarrow> same_request m (r_merged (clamp_reply env st))"
  by (auto simp: clamp_reply_def Let_def same_request_def intField_lowered update_conv' split: option.splits)

lemma route_measured_unhanded: "unhanded env m b st \<Longrightarrow> unhanded env m b (route_measured env g st)"
  by (auto simp: route_measured_def Let_def unhanded_def to_decode_def clamp_reply_frame update_conv'
      intro!: clamp_reply_request same_request_flag)

lemma route_cheaper_unhanded: "unhanded env m b st \<Longrightarrow> unhanded env m b (route_cheaper env g st)"
  using to_decode_unhanded unhanded_breaker by (auto simp: route_cheaper_def)

text \<open>The state after routing, with the calls that a handoff rests on.\<close>

definition handed :: "gw_env \<Rightarrow> breaker \<Rightarrow> string \<Rightarrow> bool" where
  "handed env b hid \<longleftrightarrow> \<not> prefillDown (e_now env) b \<and>
     (\<exists>prefill handoff body hs slot pre hm. e_prefill env = Some prefill \<and> e_handoff env = Some handoff \<and>
        prefill body hs = Inr pre \<and> as_str (field pre ''handoff_id'') = hid \<and> hid \<noteq> [] \<and> handoff hid slot = Inr hm)"

definition routed :: "gw_env \<Rightarrow> Body \<Rightarrow> breaker \<Rightarrow> route_st \<Rightarrow> bool" where
  "routed env m b st \<longleftrightarrow> same_request m (r_merged st) \<and>
     (if r_viaPrefill st
      then r_via st = ''prefill'' \<and> r_breaker st = b \<and> map_of (r_merged st) ''cache_prompt'' = Some (Bool True) \<and>
        (\<exists>hid. map_of (r_headers st) ''x-sofmat-kv-handoff'' = Some hid \<and> handed env b hid)
      else r_via st \<noteq> ''prefill'' \<and> map_of (r_headers st) ''x-sofmat-kv-handoff'' = None \<and>
        (r_breaker st = b \<or> r_breaker st = tripBreaker (e_now env) b \<and> r_via st = ''decode-fallback''))"

lemma unhanded_routed: "unhanded env m b st \<Longrightarrow> routed env m b st"
  by (auto simp: unhanded_def routed_def split: if_splits)

lemma handoff_done_routed:
  assumes "unhanded env m b st" "r_go st" "handed env b hid"
  shows "routed env m b (handoff_done env hid hm st)"
proof -
  have "same_request m (r_merged st)" "r_breaker st = b" using assms by (auto simp: unhanded_def)
  moreover from this(1) have "same_request m (case e_atoi env x of Some si \<Rightarrow> put ''id_slot'' (Num si) (r_merged st) | None \<Rightarrow> r_merged st)" for x
    by (auto intro: same_request_flag split: option.splits)
  ultimately show ?thesis using assms(3)
    by (auto simp: routed_def handoff_done_def Let_def update_conv' intro!: same_request_flag)
qed

lemma route_handoff_routed:
  assumes "unhanded env m b st"
  shows "routed env m b (route_handoff env st)"
proof (cases "r_go st")
  case go: True
  show ?thesis
  proof (cases "\<exists>pf hf. e_prefill env = Some pf \<and> e_handoff env = Some hf")
    case True
    then obtain pf hf where c: "e_prefill env = Some pf" "e_handoff env = Some hf" by blast
    have skip: "routed env m b (handoff_skipped x st)" if "unhanded env m b st" "r_go st" for x st
      using that by (auto simp: unhanded_def routed_def handoff_skipped_def)
    have fail: "routed env m b (prefill_fails env k x st)" if "unhanded env m b st" "r_go st" for k x st
      using that prefill_fails_unhanded unhanded_routed by blast
    have flds: "unhanded env m b (st\<lparr>r_fields := f\<rparr>)" for f using assms by (simp add: unhanded_def)
    show ?thesis
    proof (cases "pf (r_merged st) [(''x-sofmat-slot'', r_slot st)]")
      case (Inl e)
      then show ?thesis using c go skip fail assms by (cases e) (simp_all add: route_handoff_def)
    next
      case (Inr pre)
      define hid where "hid = as_str (field pre ''handoff_id'')"
      define st1 where "st1 = st\<lparr>r_fields := copyMetrics (r_fields st) pre\<rparr>"
      have st1: "unhanded env m b st1" "r_go st1" "r_slot st1 = r_slot st" using flds go by (auto simp: st1_def)
      have eq: "route_handoff env st = (if hid = [] then st1\<lparr>r_fields := put ''prefill_error'' (Str ''no handoff_id'') (r_fields st1)\<rparr>
          else case hf hid (r_slot st1) of Inl (Skip reason) \<Rightarrow> handoff_skipped reason st1
             | Inl (Failed e) \<Rightarrow> prefill_fails env ''handoff_error'' e st1 | Inr hm \<Rightarrow> handoff_done env hid hm st1)"
        unfolding route_handoff_def Let_def hid_def st1_def using c go Inr by simp
      have last: "routed env m b (handoff_done env hid hm st1)" if "hid \<noteq> []" "hf hid (r_slot st1) = Inr hm" for hm
      proof (rule handoff_done_routed[OF st1(1,2)])
        have "\<not> prefillDown (e_now env) b" using st1 by (simp add: unhanded_def)
        then show "handed env b hid" using c Inr that hid_def unfolding handed_def by blast
      qed
      have none: "routed env m b (st1\<lparr>r_fields := f\<rparr>)" for f
        using st1(1) by (intro unhanded_routed) (simp add: unhanded_def)
      show ?thesis unfolding eq using skip[OF st1(1,2)] fail[OF st1(1,2)] last none
        by (simp split: sum.split call_error.split)
    qed
  qed (use unhanded_routed[OF assms] in \<open>auto simp: route_handoff_def split: option.splits\<close>)
qed (use unhanded_routed[OF assms] in \<open>auto simp: route_handoff_def split: option.splits\<close>)

lemma route_request_routed:
  assumes "via = ''prefill'' \<or> via = ''decode''"
  shows "routed env m b (route_request env g ckey pkey via (start_st fs m slot via b))"
proof (cases "via = ''prefill''")
  case True
  have "unhanded env m b (route_guards env g ((start_st fs m slot via b)\<lparr>r_via := ''decode-fallback'', r_go := True\<rparr>))"
    by (rule route_guards_unhanded) (simp_all add: start_st_def)
  then show ?thesis unfolding route_request_def route_prefill_def using True
    by (simp add: route_handoff_routed route_cheaper_unhanded route_measured_unhanded route_recount_unhanded)
qed (use assms in \<open>simp add: route_request_def start_st_def routed_def\<close>)


section \<open>An open breaker\<close>

lemma route_prefill_open:
  "prefillDown (e_now env) (r_breaker st) \<Longrightarrow>
     route_prefill env g ckey pkey st = to_decode ''prefill-down'' (st\<lparr>r_via := ''decode-fallback'', r_go := True\<rparr>)"
  by (simp add: route_prefill_def route_guards_def Let_def to_decode_def route_recount_def route_measured_def
      route_cheaper_def route_handoff_def split: option.split)

lemma admit_request_breaker: "admit_request env body pkey ckey slot g = Some (a, g1) \<Longrightarrow> g_breaker g1 = g_breaker g"
  by (auto simp: admit_request_def prefixTokens_def Let_def split: option.splits prod.splits if_splits sum.splits)

lemma Prepare_open_breaker:
  assumes "prefillDown (e_now env) (g_breaker g)" "Disaggregated env"
  shows "Prepare (env\<lparr>e_prefill := Some pf, e_handoff := Some hf, e_tokens := tk\<rparr>) h body g = Prepare env h body g"
proof -
  define env' where "env' = env\<lparr>e_prefill := Some pf, e_handoff := Some hf, e_tokens := tk\<rparr>"
  have same: "e_sha env' = e_sha env" "e_marshal env' = e_marshal env" "e_lower env' = e_lower env" "e_trim env' = e_trim env"
    "e_verify env' = e_verify env" "e_count env' = e_count env" "e_resident env' = e_resident env" "e_poolHeld env' = e_poolHeld env"
    "e_now env' = e_now env" "e_stamp env' = e_stamp env" "e_elapsed env' = e_elapsed env" "e_wait env' = e_wait env"
    by (simp_all add: env'_def)
  have dis: "Disaggregated env' = Disaggregated env" using assms(2) by (simp add: env'_def Disaggregated_def)
  have keys: "conv_keys env' h body = conv_keys env h body" unfolding conv_keys_def same ..
  have slot: "pick_slot env' = pick_slot env" unfolding fun_eq_iff pick_slot_def same by simp
  have pt: "prefixTokens env' = prefixTokens env" unfolding fun_eq_iff prefixTokens_def same by simp
  have res: "resident_credit env' = resident_credit env" "residentHot env' = residentHot env"
    unfolding fun_eq_iff resident_credit_def residentHot_def residentFor_def poolCouldHold_def same by simp_all
  have adm: "admit_request env' = admit_request env" unfolding fun_eq_iff admit_request_def same pt res dis by simp
  have mp: "merge_policy env' = merge_policy env" unfolding fun_eq_iff merge_policy_def same by simp
  have bf: "base_fields env' = base_fields env" unfolding fun_eq_iff base_fields_def same by simp
  have af: "admit_fields env' = admit_fields env" unfolding fun_eq_iff admit_fields_def same by simp
  have rr: "route_request env' g1 ckey pkey via (start_st fs m s via b) = route_request env g1 ckey pkey via (start_st fs m s via b)"
    if "prefillDown (e_now env) b" for g1 ckey pkey via fs m s b
    using that by (simp add: route_request_def route_prefill_open start_st_def env'_def)
  show ?thesis unfolding env'_def[symmetric] Prepare_def keys slot adm mp bf af same Let_def
    using assms(1) by (auto simp: rr admit_request_breaker split: prod.splits sum.splits option.splits)
qed


section \<open>A prepared plan\<close>

lemma Prepare_routed:
  assumes "gw_inv g" "Prepare env h body g = (Inr p, g')"
  obtains st g1 ts where
    "routed env (merge_policy env g1 ts body) (g_breaker g) st" "g_noThink g1 = g_noThink g" "ema_ok (g_alpha g1)"
    "p_Body p = r_merged st" "p_Headers p = r_headers st" "p_fields p = admit_fields env st"
    "p_viaPrefill p = r_viaPrefill st" "g_breaker g' = r_breaker st"
proof -
  have v: "e_verify env h" using assms(2) by (auto simp: Prepare_def split: if_splits)
  obtain pkey ckey src where k: "conv_keys env h body = (pkey, ckey, src)" using prod_cases3 by blast
  show thesis
  proof (rule Prepare_run[OF assms(1) v k])
    fix a :: admitted and g1 fs slot st g2 ts
    assume *: "gw_inv g1" "g_noThink g1 = g_noThink g" "g_breaker g2 = r_breaker st"
      "Route (a_decision a) = ''prefill'' \<or> Route (a_decision a) = ''decode''"
      "st = route_request env g1 ckey pkey (Route (a_decision a))
         (start_st fs (merge_policy env g1 ts body) slot (Route (a_decision a)) (g_breaker g))"
      "Prepare env h body g =
        (Inr \<lparr>p_Body = r_merged st, p_Headers = r_headers st, p_fields = admit_fields env st,
              p_pkey = pkey, p_ckey = ckey, p_prefixToks = a_prefixToks a, p_tailToks = a_tailToks a, p_alphaKey = ts,
              p_viaPrefill = r_viaPrefill st, p_tokenized = r_tokenized st, p_gated = True\<rparr>, g2)"
    have r: "routed env (merge_policy env g1 ts body) (g_breaker g) st"
      unfolding *(5) by (rule route_request_routed[OF *(4)])
    have "ema_ok (g_alpha g1)" using *(1) by (simp add: gw_inv_def)
    then show thesis using that[OF r *(2)] *(3,6) assms(2) by simp
  qed
qed

end
