(* ===== verification/Gateway_Finish.thy ===== *)
theory Gateway_Finish
  imports Gateway_Prepare
begin

text \<open>
  The rest of a request's life in \<^verbatim>\<open>internal/gateway/gateway.go\<close>: \<^verbatim>\<open>Finish\<close> and \<^verbatim>\<open>finishRecord\<close> after the
  decode call, \<^verbatim>\<open>Chat\<close> around both halves, the read handlers and the constructor \<^verbatim>\<open>New\<close>. The callables may
  answer differently once the reply is there, so \<open>Chat\<close> takes an environment for each half. \<open>None\<close> is a
  panic of the registries; it is proved impossible. The lines written to the standard error stream are
  left out.
\<close>


section \<open>Learning from the engine's counters\<close>

definition as_int :: "go_any \<Rightarrow> int" where
  "as_int v = (case v of Num n \<Rightarrow> n | _ \<Rightarrow> 0)"

text \<open>The conversation came back whole, measured against its last turn.\<close>

definition came_whole :: "int \<Rightarrow> convTurn option \<Rightarrow> int \<Rightarrow> int \<Rightarrow> bool" where
  "came_whole prefixToks prev cn pn =
     (case prev of
        None \<Rightarrow> False
      | Some t \<Rightarrow> ct_total t > 0 \<and> cn > go_quot (prefixToks * 11) 10 \<and> cn \<ge> go_quot (min (ct_total t) (cn + pn) * 8) 10)"

definition kv_source :: "Plan \<Rightarrow> convTurn option \<Rightarrow> int \<Rightarrow> int \<Rightarrow> string" where
  "kv_source p prev cn pn =
     (if p_viaPrefill p then ''handoff''
      else if came_whole (p_prefixToks p) prev cn pn then
        (case (prev, field (p_fields p) ''pool_held_at_admit'') of
           (Some t, Num held) \<Rightarrow> if held < go_quot (ct_total t * 8) 10 then ''ram'' else ''slot''
         | _ \<Rightarrow> ''slot'')
      else if p_prefixToks p > 0 \<and> cn \<ge> go_quot (p_prefixToks p) 2 then ''lcp''
      else ''none'')"

definition note_turn :: "int \<Rightarrow> Plan \<Rightarrow> Gateway \<Rightarrow> Gateway" where
  "note_turn ttl p g =
     (if p_ckey p \<noteq> [] \<and> ttl > 0
      then g\<lparr>g_convLast := cts_set (p_ckey p) \<lparr>ct_prefix = p_prefixToks p, ct_tail = p_tailToks p, ct_total = ttl\<rparr> (g_convLast g)\<rparr>
      else g)"

definition resident_wrong :: "Plan \<Rightarrow> int \<Rightarrow> bool" where
  "resident_wrong p cn = (let resident = as_int (field (p_fields p) ''resident_toks'') in resident > 0 \<and> cn < go_quot resident 2)"

definition learn_slot :: "string \<Rightarrow> string \<Rightarrow> string \<Rightarrow> Plan \<Rightarrow> Gateway \<Rightarrow> (Plan \<times> Gateway) option" where
  "learn_slot src prevSlot s p g =
     (let src = (if src = ''lcp'' \<and> prevSlot \<noteq> [] \<and> s = prevSlot then ''lcp-self'' else src);
          recorded = as_str (field (p_fields p) ''slot'');
          fs = put ''slot_engine'' (Str s) (p_fields p);
          fs = (if recorded \<noteq> [] \<and> recorded \<noteq> s then put ''slot_mismatch'' (Bool True) fs else fs)
      in case (if p_ckey p \<noteq> [] then cs_set (p_ckey p) s (g_convSlot g) else Some (g_convSlot g)) of
           None \<Rightarrow> None
         | Some cs \<Rightarrow> Some (p\<lparr>p_fields := put ''kv_source'' (Str src) fs\<rparr>, g\<lparr>g_convSlot := cs\<rparr>))"

definition fin_learn :: "gw_env \<Rightarrow> Body \<Rightarrow> Plan \<Rightarrow> Gateway \<Rightarrow> (Plan \<times> Gateway) option" where
  "fin_learn env resp p g =
     (case (timingInt resp ''cache_n'', timingInt resp ''prompt_n'') of
        (Some cn, Some pn) \<Rightarrow>
          let gen = (case timingInt resp ''predicted_n'' of Some n \<Rightarrow> n | None \<Rightarrow> 0);
              src = kv_source p (cts_get (p_ckey p) (g_convLast g)) cn pn;
              prevSlot = cs_get (p_ckey p) (g_convSlot g);
              g = note_turn (cn + pn + gen) p g;
              wrong = resident_wrong p cn;
              p = p\<lparr>p_fields := put ''resident_wrong'' (Bool wrong) (p_fields p)\<rparr>;
              g = (if wrong then g\<lparr>g_convSlot := cs_forget (p_ckey p) (g_convSlot g)\<rparr> else g)
          in (case slotOfSafe env (cn + pn + gen) of
                Some s \<Rightarrow>
                  if s \<noteq> [] then learn_slot src prevSlot s p g
                  else Some (p\<lparr>p_fields := put ''kv_source'' (Str src) (p_fields p)\<rparr>, g)
              | None \<Rightarrow> Some (p\<lparr>p_fields := put ''kv_source'' (Str src) (p_fields p)\<rparr>, g))
      | _ \<Rightarrow> Some (p, g))"

text \<open>The engine did not have the prefix: the registry was stale.\<close>

definition prefix_cold :: "Body \<Rightarrow> Plan \<Rightarrow> bool" where
  "prefix_cold resp p =
     (case timingInt resp ''cache_n'' of
        Some cn \<Rightarrow> \<not> p_viaPrefill p \<and> p_prefixToks p > 0 \<and> cn < go_quot (p_prefixToks p) 2
      | None \<Rightarrow> False)"

definition fin_cold :: "Body \<Rightarrow> Plan \<Rightarrow> Gateway \<Rightarrow> Plan \<times> Gateway" where
  "fin_cold resp p g =
     (if prefix_cold resp p then
        let fs = put ''prefix_cold'' (Bool True) (p_fields p);
            fs = (if as_int (field fs ''hot_prefix_tokens'') > 0 then put ''catalog_evicted'' (Bool True) fs else fs)
        in (p\<lparr>p_fields := fs\<rparr>, g\<lparr>g_known := kp_Forget (p_pkey p) (g_known g), g_last := lp_forget (p_pkey p) (g_last g)\<rparr>)
      else (p, g))"

definition fin_last :: "gw_env \<Rightarrow> Plan \<Rightarrow> Gateway \<Rightarrow> Gateway option" where
  "fin_last env p g =
     (case e_tokens env of
        None \<Rightarrow> Some g
      | Some tokens \<Rightarrow>
          if \<not> p_tokenized p \<and> \<not> prefillDown (e_now env) (g_breaker g) \<and> p_ckey p \<noteq> [] then
            (case tokens (p_Body p) of
               Inl _ \<Rightarrow> Some g
             | Inr ids \<Rightarrow>
                 if ids = [] then Some g
                 else (case lp_remember (p_ckey p) ids (g_last g) of None \<Rightarrow> None | Some l \<Rightarrow> Some (g\<lparr>g_last := l\<rparr>)))
          else Some g)"


section \<open>The record\<close>

definition opt_put :: "string \<Rightarrow> go_any option \<Rightarrow> Record \<Rightarrow> Record" where
  "opt_put k v r = (case v of Some x \<Rightarrow> put k x r | None \<Rightarrow> r)"

definition default_put :: "string \<Rightarrow> go_any \<Rightarrow> Record \<Rightarrow> Record" where
  "default_put k v r = (if map_of r k = None then put k v r else r)"

definition fin_alpha :: "Body \<Rightarrow> Plan \<Rightarrow> Gateway \<Rightarrow> Plan \<times> Gateway" where
  "fin_alpha resp p g =
     (let dn = timingInt resp ''draft_n'';
          da = timingInt resp ''draft_n_accepted'';
          g = (case (dn, da) of (Some d, Some a) \<Rightarrow> g\<lparr>g_alpha := AlphaEma_Update (p_alphaKey p) d a (g_alpha g)\<rparr> | _ \<Rightarrow> g);
          fs = put ''alpha_ema'' (case AlphaEma_Get (p_alphaKey p) (g_alpha g) of Some v \<Rightarrow> Flt v | None \<Rightarrow> Null) (p_fields p);
          fs = put ''draft_n_accepted'' Null (put ''draft_n'' Null fs);
          fs = opt_put ''draft_n_accepted'' (map_option Num da) (opt_put ''draft_n'' (map_option Num dn) fs)
      in (p\<lparr>p_fields := fs\<rparr>, g))"

definition kvMissPromptTokens :: int where "kvMissPromptTokens = 64"

definition fin_timings :: "Body \<Rightarrow> bool \<Rightarrow> Record \<Rightarrow> Record" where
  "fin_timings resp viaPrefill fs =
     (let fs = (case timingInt resp ''prompt_n'' of
                  Some pn \<Rightarrow>
                    let fs = put ''prompt_n'' (Num pn) fs
                    in if viaPrefill then put ''kv_miss'' (Bool (pn > kvMissPromptTokens)) fs else fs
                | None \<Rightarrow> fs);
          fs = opt_put ''cache_n'' (map_option Num (timingInt resp ''cache_n'')) fs;
          fs = opt_put ''predicted_n'' (map_option Num (timingInt resp ''predicted_n'')) fs;
          fs = default_put ''tool_calls_n'' (Num (int (toolCallsIn resp))) fs;
          fs = opt_put ''tg_tokps'' (map_option Flt (timingFloat resp ''predicted_per_second'')) fs
      in opt_put ''prompt_ms'' (map_option Flt (timingFloat resp ''prompt_ms'')) fs)"

definition fin_waits :: "gw_env \<Rightarrow> Body \<Rightarrow> Headers \<Rightarrow> Record \<Rightarrow> Record" where
  "fin_waits env resp h fs =
     (let fs = default_put ''wait_budget_ms'' (Flt (headerMs (e_parse env) h ''x-sofmat-t-wait-budget-ms'' 0)) fs;
          fs = (if numberOf (field fs ''wait_budget_ms'') > 10000 then put ''wait_budget_slow'' (Bool True) fs else fs);
          fs = default_put ''first_byte_ms'' (Flt (headerMs (e_parse env) h ''x-sofmat-t-first-byte-ms'' (- 1))) fs;
          fs = opt_put ''predicted_ms'' (map_option Flt (timingFloat resp ''predicted_ms'')) fs
      in default_put ''first_token_ms'' (Flt (- 1)) fs)"

definition as_flt :: "go_any \<Rightarrow> float64" where
  "as_flt v = (case v of Flt x \<Rightarrow> x | _ \<Rightarrow> 0)"

text \<open>The wait in front of the slot, and which derivation gave it; \<open>None\<close> when it cannot be derived.\<close>

definition slot_wait :: "Record \<Rightarrow> (float64 \<times> string) option" where
  "slot_wait fs =
     (case field fs ''prompt_ms'' of
        Flt pm \<Rightarrow>
          let ft = as_flt (field fs ''first_token_ms'');
              fb = as_flt (field fs ''first_byte_ms'')
          in if ft \<ge> 0 then Some (ft - pm, ''first-token'')
             else if fb \<ge> 0 then
               (case field fs ''predicted_ms'' of Flt gm \<Rightarrow> Some (fb - pm - gm, ''whole-reply'') | _ \<Rightarrow> None)
             else None
      | _ \<Rightarrow> None)"

definition fin_slot_wait :: "Record \<Rightarrow> Record" where
  "fin_slot_wait fs =
     (let fs = put ''wait_slot_src'' (Str []) (put ''wait_slot_ms'' (Flt (- 1)) fs)
      in case slot_wait fs of
           None \<Rightarrow> fs
         | Some (ws, src) \<Rightarrow>
             let ws = (if ws < 0 then 0 else ws)
             in put ''arranque_ms'' (Flt ws) (put ''wait_slot_src'' (Str src) (put ''wait_slot_ms'' (Flt ws) fs)))"

definition finishRecord :: "gw_env \<Rightarrow> Plan \<Rightarrow> Gateway \<Rightarrow> Plan \<times> Gateway" where
  "finishRecord env p g =
     (let g = (if p_gated p then g\<lparr>g_gate := gate_release (p_ckey p) (g_gate g)\<rparr> else g);
          p = p\<lparr>p_gated := False, p_fields := put ''total_ms'' (Flt (e_elapsed env ''total_ms'')) (p_fields p)\<rparr>
      in (p, g\<lparr>g_log := snd (RecordEntry (p_fields p) None (g_log g))\<rparr>))"

definition Finish :: "gw_env \<Rightarrow> Plan \<Rightarrow> Body \<Rightarrow> Gateway \<Rightarrow> (Plan \<times> Gateway) option" where
  "Finish env p resp g =
     (case kp_Record (p_pkey p) (p_prefixToks p) (g_known g) of
        None \<Rightarrow> None
      | Some known \<Rightarrow>
          (case fin_learn env resp p (g\<lparr>g_known := known\<rparr>) of
             None \<Rightarrow> None
           | Some (p, g) \<Rightarrow>
               let (p, g) = fin_cold resp p g
               in case fin_last env p g of
                    None \<Rightarrow> None
                  | Some g \<Rightarrow>
                      let g = g\<lparr>g_cost := cm_observe (p_fields p) resp (p_viaPrefill p) (g_cost g)\<rparr>;
                          (p, g) = fin_alpha resp p g;
                          fs = fin_timings resp (p_viaPrefill p) (p_fields p);
                          fs = fin_slot_wait (fin_waits env resp (p_Headers p) fs);
                          fs = put ''finish_ms'' (Flt (e_elapsed env ''finish_ms'')) fs
                      in Some (finishRecord env (p\<lparr>p_fields := fs\<rparr>) g)))"


section \<open>Handlers\<close>

type_synonym BackendCall = "Body \<Rightarrow> Headers \<Rightarrow> (string, Body) result"

definition Chat :: "gw_env \<Rightarrow> gw_env \<Rightarrow> BackendCall \<Rightarrow> Headers \<Rightarrow> Body \<Rightarrow> Gateway \<Rightarrow> (gw_error, Body) result \<times> Gateway" where
  "Chat env env' backend h body g =
     (case Prepare env h body g of
        (Inl e, g) \<Rightarrow> (Inl e, g)
      | (Inr p, g) \<Rightarrow>
          (case backend (p_Body p) (p_Headers p) of
             Inl e \<Rightarrow> (Inl (BackendError e), snd (finishRecord env' (p\<lparr>p_fields := put ''error'' (Str e) (p_fields p)\<rparr>) g))
           | Inr resp \<Rightarrow>
               (case Finish env' p resp g of
                  None \<Rightarrow> (Inl Panic, g)
                | Some (p, g) \<Rightarrow> (Inr resp, g))))"

definition gw_auth :: "gw_env \<Rightarrow> Headers \<Rightarrow> (gw_error, unit) result" where
  "gw_auth env h = (if \<not> e_verify env h then Inl ErrUnauthorized else Inr ())"

definition gw_Status :: "gw_env \<Rightarrow> Body \<Rightarrow> Headers \<Rightarrow> (gw_error, Body) result" where
  "gw_Status env status h = (case gw_auth env h of Inl e \<Rightarrow> Inl e | Inr _ \<Rightarrow> Inr status)"

definition gw_Requests :: "gw_env \<Rightarrow> Headers \<Rightarrow> int \<Rightarrow> Gateway \<Rightarrow> (gw_error, Record list) result" where
  "gw_Requests env h n g =
     (case gw_auth env h of
        Inl e \<Rightarrow> Inl e
      | Inr _ \<Rightarrow> (case Tail n (g_log g) of None \<Rightarrow> Inl Panic | Some rs \<Rightarrow> Inr rs))"


section \<open>Construction\<close>

record Options =
  o_wired :: bool
  o_busyProbe :: bool
  o_NoThink :: bool
  o_Mode :: string
  o_Threshold :: int
  o_ExactMinTokens :: int
  o_NSlots :: int
  o_KeepContent :: bool
  o_PrefillBreaker :: float64

datatype new_error = MissingCallables | UnknownMode string | NeedsBusyProbe string | BadCapacity string | BadSmoothing float64 | NewPanic

text \<open>\<open>None\<close> is the panic.\<close>

definition mustKnownPrefixes :: "int \<Rightarrow> KnownPrefixes option" where
  "mustKnownPrefixes cap = (case NewKnownPrefixes cap of Inl _ \<Rightarrow> None | Inr k \<Rightarrow> Some k)"

definition PrefillBreakerDefault :: float64 where "PrefillBreakerDefault = 30000"

definition mode_of :: "Options \<Rightarrow> (new_error, gw_mode) result" where
  "mode_of opts =
     (if o_Mode opts = ''busy'' then Inr ModeBusy
      else if o_Mode opts = ''always'' then Inr ModeAlways
      else if o_Mode opts = ''auto'' then Inr ModeAuto
      else if o_Mode opts = [] then Inr (if o_busyProbe opts then ModeBusy else ModeAlways)
      else Inl (UnknownMode (o_Mode opts)))"

definition NewGateway :: "(bytes \<Rightarrow> bytes) \<Rightarrow> string \<Rightarrow> Options \<Rightarrow> (new_error, Gateway) result" where
  "NewGateway sha boot opts =
     (if \<not> o_wired opts then Inl MissingCallables
      else
        let n = (if o_NSlots opts \<le> 0 then 4 else o_NSlots opts);
            ms = map decimal [0..<nat n]
        in case NewAlphaEma (3 / 10) 3 of
             Inl e \<Rightarrow> Inl (BadSmoothing e)
           | Inr alpha \<Rightarrow>
               (case NewKnownPrefixes n of
                  Inl e \<Rightarrow> Inl (BadCapacity e)
                | Inr known \<Rightarrow>
                    let th = (if o_Threshold opts \<le> 0 then PrefillThresholdTokens else o_Threshold opts);
                        em = (if o_ExactMinTokens opts \<le> 0 then PrefillExactMinTokens else o_ExactMinTokens opts)
                    in (case mode_of opts of
                          Inl e \<Rightarrow> Inl e
                        | Inr mode \<Rightarrow>
                            if mode \<noteq> ModeAlways \<and> \<not> o_busyProbe opts
                            then Inl (NeedsBusyProbe (if mode = ModeBusy then ''busy'' else ''auto''))
                            else
                              (case mustKnownPrefixes 64 of
                                 None \<Rightarrow> Inl NewPanic
                               | Some exact \<Rightarrow>
                                   Inr \<lparr>g_noThink = o_NoThink opts, g_mode = mode, g_threshold = th, g_exactMin = em,
                                        g_ring = NewRing sha ms 64, g_alpha = alpha,
                                        g_log = NewRequestLog 500 (o_KeepContent opts) boot,
                                        g_known = known, g_prefixExact = exact, g_convLast = newConvTurns (8 * n),
                                        g_last = newLastPrompts (8 * n), g_convSlot = newConvSlots (8 * n),
                                        g_cost = newCostModel, g_gate = newConvGate, g_admitSeq = 0,
                                        g_breaker = \<lparr>downUntil = 0,
                                          breakerFor = (if o_PrefillBreaker opts = 0 then PrefillBreakerDefault else o_PrefillBreaker opts)\<rparr>\<rparr>))))"


section \<open>Finish keeps the invariant\<close>

text \<open>What the bookkeeping steps of \<^verbatim>\<open>Finish\<close> have in common: only the record of the plan changes.\<close>

definition booked :: "Plan \<Rightarrow> Gateway \<Rightarrow> Plan \<Rightarrow> Gateway \<Rightarrow> bool" where
  "booked p g p' g' \<longleftrightarrow> (gw_inv g \<longrightarrow> gw_inv g') \<and> g_gate g' = g_gate g \<and> g_log g' = g_log g \<and> (\<exists>fs. p' = p\<lparr>p_fields := fs\<rparr>)"

lemma booked_trans: "booked p g p1 g1 \<Longrightarrow> booked p1 g1 p2 g2 \<Longrightarrow> booked p g p2 g2"
  by (auto simp: booked_def)

lemma booked_fields: "booked p g p' g' \<Longrightarrow> booked p g (p'\<lparr>p_fields := fs\<rparr>) g'"
  by (auto simp: booked_def)

lemma booked_refl: "booked p g p g"
  by (auto simp: booked_def intro!: exI[of _ "p_fields p"])

lemma note_turn_booked: "booked p g p (note_turn n q g)"
  by (auto simp: booked_def note_turn_def gw_inv_def intro!: exI[of _ "p_fields p"])

lemma learn_slot_booked:
  assumes "gw_inv g"
  obtains p' g' where "learn_slot src prev s p g = Some (p', g')" "booked p g p' g'"
proof -
  have "cs_inv (g_convSlot g)" using assms by (simp add: gw_inv_def)
  then obtain cs where cs: "(if p_ckey p \<noteq> [] then cs_set (p_ckey p) s (g_convSlot g) else Some (g_convSlot g)) = Some cs" "cs_inv cs"
    using cs_set_ok[of "g_convSlot g" "p_ckey p" s] by (cases "p_ckey p = []") auto
  have "booked p g (p\<lparr>p_fields := fs\<rparr>) (g\<lparr>g_convSlot := cs\<rparr>)" for fs
    using cs(2) by (auto simp: booked_def gw_inv_def)
  then show thesis using that cs(1) by (simp add: learn_slot_def Let_def)
qed

lemma forget_slot_booked: "booked p g p (g\<lparr>g_convSlot := cs_forget k (g_convSlot g)\<rparr>)"
  using cs_forget_ok[of "g_convSlot g" k] by (auto simp: booked_def gw_inv_def intro!: exI[of _ "p_fields p"])

lemma fin_learn_booked:
  assumes "gw_inv g"
  obtains p' g' where "fin_learn env resp p g = Some (p', g')" "booked p g p' g'"
proof (cases "(\<exists>cn. timingInt resp ''cache_n'' = Some cn) \<and> (\<exists>pn. timingInt resp ''prompt_n'' = Some pn)")
  case True
  then obtain cn pn where t: "timingInt resp ''cache_n'' = Some cn" "timingInt resp ''prompt_n'' = Some pn" by blast
  define ttl where "ttl = cn + pn + (case timingInt resp ''predicted_n'' of Some n \<Rightarrow> n | None \<Rightarrow> 0)"
  define src where "src = kv_source p (cts_get (p_ckey p) (g_convLast g)) cn pn"
  define prev where "prev = cs_get (p_ckey p) (g_convSlot g)"
  define p1 where "p1 = p\<lparr>p_fields := put ''resident_wrong'' (Bool (resident_wrong p cn)) (p_fields p)\<rparr>"
  define g1 where "g1 = note_turn ttl p g"
  define g2 where "g2 = (if resident_wrong p cn then g1\<lparr>g_convSlot := cs_forget (p_ckey p1) (g_convSlot g1)\<rparr> else g1)"
  have "booked p g p1 g1" unfolding p1_def g1_def by (intro booked_fields note_turn_booked)
  then have b: "booked p g p1 g2"
    using forget_slot_booked[of p1 g1 "p_ckey p1"] booked_trans by (auto simp: g2_def)
  then have i: "gw_inv g2" using assms by (simp add: booked_def)
  have l: "\<exists>p3 g3. learn_slot src prev s p1 g2 = Some (p3, g3) \<and> booked p g p3 g3" for s
    using learn_slot_booked[OF i, of src prev s p1] booked_trans[OF b] by metis
  have "fin_learn env resp p g = (case slotOfSafe env ttl of
       Some s \<Rightarrow> if s \<noteq> [] then learn_slot src prev s p1 g2 else Some (p1\<lparr>p_fields := put ''kv_source'' (Str src) (p_fields p1)\<rparr>, g2)
     | None \<Rightarrow> Some (p1\<lparr>p_fields := put ''kv_source'' (Str src) (p_fields p1)\<rparr>, g2))"
    unfolding fin_learn_def Let_def src_def prev_def p1_def g2_def g1_def ttl_def using t by simp
  then show thesis
    using that l booked_fields[OF b] by (cases "slotOfSafe env ttl") (auto, metis)
next
  case False
  then have "fin_learn env resp p g = Some (p, g)"
    by (auto simp: fin_learn_def split: option.splits)
  then show thesis using that booked_refl by blast
qed

lemma learn_slot_frame: "learn_slot src prev s p g = Some (p', g') \<Longrightarrow> g_known g' = g_known g"
  by (auto simp: learn_slot_def Let_def split: option.splits)

lemma fin_learn_frame: "fin_learn env resp p g = Some (p', g') \<Longrightarrow> g_known g' = g_known g"
  by (auto simp: fin_learn_def Let_def note_turn_def dest!: learn_slot_frame split: option.splits if_splits)

lemma learn_slot_learns:
  assumes "learn_slot src prev s p g = Some (p', g')" "cs_inv (g_convSlot g)" "p_ckey p \<noteq> []" "s \<noteq> []"
  shows "cs_get (p_ckey p) (g_convSlot g') = s"
proof -
  obtain cs where "cs_set (p_ckey p) s (g_convSlot g) = Some cs" "g_convSlot g' = cs"
    using assms(1,3) by (auto simp: learn_slot_def Let_def split: option.splits)
  then show ?thesis using cs.put_lookup[OF assms(2), of "p_ckey p" s cs] assms(3,4) by (simp add: cs_set_def cs_get_def)
qed

lemma note_turn_convSlot: "g_convSlot (note_turn n p g) = g_convSlot g"
  by (simp add: note_turn_def)

lemma fin_learn_slot:
  assumes "fin_learn env resp p g = Some (p', g')" "cs_inv (g_convSlot g)"
  shows "\<forall>cn pn gen. timingInt resp ''cache_n'' = Some cn \<and> timingInt resp ''prompt_n'' = Some pn \<and>
       gen = (case timingInt resp ''predicted_n'' of Some n \<Rightarrow> n | None \<Rightarrow> 0) \<and> p_ckey p \<noteq> [] \<longrightarrow>
       (case slotOfSafe env (cn + pn + gen) of
          Some s \<Rightarrow> s \<noteq> [] \<longrightarrow> cs_get (p_ckey p) (g_convSlot g') = s
        | None \<Rightarrow> resident_wrong p cn \<longrightarrow> cs_get (p_ckey p) (g_convSlot g') = [])"
proof (intro allI impI)
  fix cn pn gen
  assume *: "timingInt resp ''cache_n'' = Some cn \<and> timingInt resp ''prompt_n'' = Some pn \<and>
       gen = (case timingInt resp ''predicted_n'' of Some n \<Rightarrow> n | None \<Rightarrow> 0) \<and> p_ckey p \<noteq> []"
  show "case slotOfSafe env (cn + pn + gen) of
          Some s \<Rightarrow> s \<noteq> [] \<longrightarrow> cs_get (p_ckey p) (g_convSlot g') = s
        | None \<Rightarrow> resident_wrong p cn \<longrightarrow> cs_get (p_ckey p) (g_convSlot g') = []"
  proof (cases "slotOfSafe env (cn + pn + gen)")
    case None
    then show ?thesis using assms(1) * cs_forget_ok[OF assms(2), of "p_ckey p"]
      by (auto simp: fin_learn_def Let_def note_turn_convSlot)
  next
    case (Some s)
    have "s \<noteq> [] \<Longrightarrow> cs_get (p_ckey p) (g_convSlot g') = s"
      using assms(1) * Some learn_slot_learns cs_forget_ok[OF assms(2), of "p_ckey p"] assms(2)
      by (fastforce simp: fin_learn_def Let_def note_turn_convSlot split: if_splits)
    then show ?thesis using Some by simp
  qed
qed

lemma fin_cold_booked: "booked p g (fst (fin_cold resp p g)) (snd (fin_cold resp p g))"
proof (cases "prefix_cold resp p")
  case True
  have "gw_inv g \<longrightarrow> gw_inv (g\<lparr>g_known := kp_Forget (p_pkey p) (g_known g), g_last := lp_forget (p_pkey p) (g_last g)\<rparr>)"
    using kp.forget_ok[of "g_known g" "p_pkey p"] lp.forget_ok[of "g_last g" "p_pkey p"] by (simp add: gw_inv_def)
  then show ?thesis using True by (auto simp: fin_cold_def Let_def booked_def)
qed (simp add: fin_cold_def booked_refl)

lemma fin_last_booked:
  assumes "gw_inv g"
  obtains g' where "fin_last env p g = Some g'" "booked p g p g'"
    "g_known g' = g_known g" "g_convSlot g' = g_convSlot g"
proof -
  define P where "P x \<longleftrightarrow> (\<exists>g'. x = Some g' \<and> booked p g p g' \<and> g_known g' = g_known g \<and> g_convSlot g' = g_convSlot g)" for x
  have "lp_inv (g_last g)" using assms by (simp add: gw_inv_def)
  then have "P (case lp_remember (p_ckey p) ids (g_last g) of None \<Rightarrow> None | Some l \<Rightarrow> Some (g\<lparr>g_last := l\<rparr>))" for ids
    using lp.put_ok[of "g_last g" "p_ckey p" ids] by (auto simp: P_def booked_def gw_inv_def intro!: exI[of _ "p_fields p"])
  moreover have "P (Some g)" using booked_refl by (simp add: P_def)
  ultimately have "P (fin_last env p g)"
    by (cases "e_tokens env") (simp_all add: fin_last_def split: sum.split)
  then show thesis using that by (auto simp: P_def)
qed

lemma cost_booked: "booked p g p (g\<lparr>g_cost := cm_observe f r v (g_cost g)\<rparr>)"
  using cm_observe_inv[of "g_cost g" f r v] by (auto simp: booked_def gw_inv_def intro!: exI[of _ "p_fields p"])

lemma fin_alpha_booked: "booked p g (fst (fin_alpha resp p g)) (snd (fin_alpha resp p g))"
  using Update_ok[of "g_alpha g" "p_alphaKey p"]
  by (auto simp: fin_alpha_def Let_def booked_def gw_inv_def split: option.split)

lemma fin_alpha_frame:
  "g_known (snd (fin_alpha resp p g)) = g_known g" "g_convSlot (snd (fin_alpha resp p g)) = g_convSlot g"
  by (simp_all add: fin_alpha_def Let_def split: option.split)

text \<open>The record as it is stored: the last steps of \<^verbatim>\<open>Finish\<close> on the fields.\<close>

definition final_fields :: "gw_env \<Rightarrow> Body \<Rightarrow> Plan \<Rightarrow> Record" where
  "final_fields env resp p =
     put ''finish_ms'' (Flt (e_elapsed env ''finish_ms''))
       (fin_slot_wait (fin_waits env resp (p_Headers p) (fin_timings resp (p_viaPrefill p) (p_fields p))))"

lemma Finish_run:
  assumes "gw_inv g"
  obtains known p1 g1 g3 p4 g4 where
    "kp_Record (p_pkey p) (p_prefixToks p) (g_known g) = Some known" "kp_inv known"
    "fin_learn env resp p (g\<lparr>g_known := known\<rparr>) = Some (p1, g1)" "booked p (g\<lparr>g_known := known\<rparr>) p1 g1"
    "g_known g3 = g_known (snd (fin_cold resp p1 g1))" "g_convSlot g3 = g_convSlot g1"
    "(p4, g4) = fin_alpha resp (fst (fin_cold resp p1 g1)) g3"
    "booked p g p4 g4" "gw_inv g4"
    "Finish env p resp g = Some (finishRecord env (p4\<lparr>p_fields := final_fields env resp p4\<rparr>) g4)"
proof -
  have "kp_inv (g_known g)" using assms by (simp add: gw_inv_def)
  then obtain known where k: "kp_Record (p_pkey p) (p_prefixToks p) (g_known g) = Some known" "kp_inv known"
    using kp.put_ok by blast
  have b0: "booked p g p (g\<lparr>g_known := known\<rparr>)" and i0: "gw_inv (g\<lparr>g_known := known\<rparr>)"
    using k assms by (auto simp: booked_def gw_inv_def intro!: exI[of _ "p_fields p"])
  obtain p1 g1 where l: "fin_learn env resp p (g\<lparr>g_known := known\<rparr>) = Some (p1, g1)" "booked p (g\<lparr>g_known := known\<rparr>) p1 g1"
    by (rule fin_learn_booked[OF i0])
  obtain p2 g2 where c: "fin_cold resp p1 g1 = (p2, g2)" by fastforce
  have b2: "booked p g p2 g2"
    using booked_trans[OF booked_trans[OF b0 l(2)] fin_cold_booked[of p1 g1 resp]] c by simp
  then have i2: "gw_inv g2" using assms by (simp add: booked_def)
  obtain g3 where f: "fin_last env p2 g2 = Some g3" "booked p2 g2 p2 g3" "g_known g3 = g_known g2" "g_convSlot g3 = g_convSlot g2"
    by (rule fin_last_booked[OF i2])
  define g3' where "g3' = g3\<lparr>g_cost := cm_observe (p_fields p2) resp (p_viaPrefill p2) (g_cost g3)\<rparr>"
  obtain p4 g4 where al: "fin_alpha resp p2 g3' = (p4, g4)" by fastforce
  have b4: "booked p g p4 g4"
    using booked_trans[OF booked_trans[OF b2 f(2)] booked_trans[OF _ fin_alpha_booked[of p2 g3' resp]]]
      cost_booked[of p2 g3 "p_fields p2" resp "p_viaPrefill p2", folded g3'_def] al
    by simp
  have fin: "Finish env p resp g = Some (finishRecord env (p4\<lparr>p_fields := final_fields env resp p4\<rparr>) g4)"
    unfolding Finish_def Let_def final_fields_def using k(1) l(1) c f(1) al by (simp add: g3'_def)
  have slot: "g_convSlot g2 = g_convSlot g1" using c by (auto simp: fin_cold_def Let_def split: if_splits)
  show thesis
    by (rule that[OF k l, of g3' p4 g4]) (use c al b4 fin assms f slot in \<open>auto simp: g3'_def booked_def\<close>)
qed

lemma finishRecord_run:
  assumes "gw_inv g"
  shows "gw_inv (snd (finishRecord env p g)) \<and> \<not> p_gated (fst (finishRecord env p g)) \<and>
    entries (g_gate (snd (finishRecord env p g))) =
      (if p_gated p then entries (gate_release (p_ckey p) (g_gate g)) else entries (g_gate g)) \<and>
    rl_nextID (g_log (snd (finishRecord env p g))) = Suc (rl_nextID (g_log g)) \<and>
    rl_capacity (g_log (snd (finishRecord env p g))) = rl_capacity (g_log g) \<and>
    last (rl_buf (g_log (snd (finishRecord env p g)))) =
      new_record (p_fields (fst (finishRecord env p g))) None (g_log g) \<and>
    length (rl_buf (g_log (snd (finishRecord env p g)))) = min (nat (rl_capacity (g_log g))) (Suc (length (rl_buf (g_log g))))"
proof -
  have lg: "log_ok (g_log g)" and gt: "gate_ok (gate_release k (g_gate g))" "gate_ok (g_gate g)" for k
    using assms by (auto simp: gw_inv_def intro: gate_release_ok)
  have rec: "log_ok (snd (RecordEntry fs None (g_log g))) \<and> rl_nextID (snd (RecordEntry fs None (g_log g))) = Suc (rl_nextID (g_log g)) \<and>
     rl_capacity (snd (RecordEntry fs None (g_log g))) = rl_capacity (g_log g) \<and> last (rl_buf (snd (RecordEntry fs None (g_log g)))) = new_record fs None (g_log g) \<and>
     length (rl_buf (snd (RecordEntry fs None (g_log g)))) = min (nat (rl_capacity (g_log g))) (Suc (length (rl_buf (g_log g))))" for fs
    using lg by (auto simp: log_ok_def RecordEntry_def Let_def)
  show ?thesis using assms gt rec
    by (simp add: finishRecord_def Let_def gw_inv_def)
qed

lemma Chat_run:
  assumes "gw_inv g" "e_verify env h"
  obtains p gp where "Prepare env h body g = (Inr p, gp)" "gw_inv gp" "g_log gp = g_log g" "p_gated p"
    "entries (gate_release (p_ckey p) (g_gate gp)) = entries (g_gate g)"
proof -
  have gt: "gate_ok (g_gate g)" using assms by (simp add: gw_inv_def)
  obtain pkey ckey src where k: "conv_keys env h body = (pkey, ckey, src)" using prod_cases3 by blast
  obtain p g' where p: "Prepare env h body g = (Inr p, g')" "gw_inv g'" "p_gated p" "g_log g' = g_log g" "p_ckey p = ckey"
    "g_gate g' = (if ckey = [] then g_gate g else gate_force ckey (g_gate g))"
    by (rule Prepare_run[OF assms k]) auto
  have "gate_release [] x = x" for x by (simp add: gate_release_def)
  then show thesis using that[OF p(1,2,4,3)] p(5,6) release_force[OF gt, of ckey] by (cases "ckey = []") auto
qed


section \<open>A new gateway\<close>

lemma NewRing_members: "set (members (NewRing sha ms vn)) = set ms"
proof -
  have "ring_ok r \<Longrightarrow> set (members (foldl (\<lambda>r m. Ring_Add sha m r) r ms)) = set (members r) \<union> set ms" for r
  proof (induction ms arbitrary: r)
    case (Cons m ms)
    show ?case using Cons.IH[of "Ring_Add sha m r"] Ring_Add_ok[OF Cons.prems, of sha m] by auto
  qed simp
  then show ?thesis unfolding NewRing_def by (simp add: ring_ok_def)
qed

lemma NewGateway_parts:
  assumes "NewGateway sha boot opts = Inr g"
  obtains n where "0 < n" "g_ring g = NewRing sha (map decimal [0..<nat n]) 64"
    "g_alpha g = \<lparr>smoothing = 3 / 10, warmup = 3, ae_ema = [], ae_n = []\<rparr>"
    "g_known g = \<lparr>kp_capacity = n, kp_toks = [], kp_order = []\<rparr>"
    "g_prefixExact g = \<lparr>kp_capacity = 64, kp_toks = [], kp_order = []\<rparr>"
    "g_last g = newLastPrompts (8 * n)" "g_convSlot g = newConvSlots (8 * n)" "g_cost g = newCostModel"
    "g_gate g = newConvGate" "g_log g = NewRequestLog 500 (o_KeepContent opts) boot"
proof -
  define n where "n = (if o_NSlots opts \<le> 0 then 4 else o_NSlots opts)"
  have n: "0 < n" by (simp add: n_def)
  have known: "NewKnownPrefixes n = Inr \<lparr>kp_capacity = n, kp_toks = [], kp_order = []\<rparr>"
    "mustKnownPrefixes 64 = Some \<lparr>kp_capacity = 64, kp_toks = [], kp_order = []\<rparr>"
    "NewAlphaEma (3 / 10) 3 = Inr \<lparr>smoothing = 3 / 10, warmup = 3, ae_ema = [], ae_n = []\<rparr>"
    using n by (simp_all add: NewKnownPrefixes_def mustKnownPrefixes_def NewAlphaEma_def)
  have w: "o_wired opts" using assms by (simp add: NewGateway_def split: if_splits)
  have nw: "NewGateway sha boot opts = Inr g" by (rule assms)
  note eq = nw[unfolded NewGateway_def Let_def n_def[symmetric] known sum.case option.case]
  obtain mode where m: "mode_of opts = Inr mode" using eq w by (cases "mode_of opts") auto
  have "\<not> (mode \<noteq> ModeAlways \<and> \<not> o_busyProbe opts)" using eq w m by (auto split: if_splits)
  note g = eq[unfolded m sum.case if_not_P[OF this]]
  show thesis by (rule that[OF n]) (use g w in auto)
qed

lemma NewGateway_inv:
  assumes "NewGateway sha boot opts = Inr g"
  shows "gw_inv g"
proof (rule NewGateway_parts[OF assms])
  fix n :: int
  assume n: "0 < n" and *: "g_ring g = NewRing sha (map decimal [0..<nat n]) 64"
    "g_alpha g = \<lparr>smoothing = 3 / 10, warmup = 3, ae_ema = [], ae_n = []\<rparr>"
    "g_known g = \<lparr>kp_capacity = n, kp_toks = [], kp_order = []\<rparr>"
    "g_prefixExact g = \<lparr>kp_capacity = 64, kp_toks = [], kp_order = []\<rparr>"
    "g_last g = newLastPrompts (8 * n)" "g_convSlot g = newConvSlots (8 * n)" "g_cost g = newCostModel"
    "g_gate g = newConvGate" "g_log g = NewRequestLog 500 (o_KeepContent opts) boot"
  have "members (g_ring g) \<noteq> []"
    using NewRing_members[of sha "map decimal [0..<nat n]" 64] n * by auto
  moreover have "cm_inv (g_cost g)" using * by (simp add: cm_inv_def newCostModel_def)
  ultimately show ?thesis using n NewRing_ok *
    by (simp add: gw_inv_def kp_inv_def lp_inv_def cs_inv_def reg_inv_def newLastPrompts_def newConvSlots_def ema_ok_def
        gate_ok_def newConvGate_def log_ok_def NewRequestLog_def)
qed

text \<open>A sequence of chats, each with its own callables and engine.\<close>

type_synonym chat_call = "gw_env \<times> gw_env \<times> BackendCall \<times> Headers \<times> Body"

definition chat_run :: "chat_call list \<Rightarrow> Gateway \<Rightarrow> Gateway" where
  "chat_run calls g = foldl (\<lambda>g (env, env', backend, h, body). snd (Chat env env' backend h body g)) g calls"

definition authorised :: "chat_call \<Rightarrow> bool" where
  "authorised c = (case c of (env, _, _, h, _) \<Rightarrow> e_verify env h)"


section \<open>Whole requests\<close>

lemma Chat_step:
  assumes "gw_inv g"
  shows "(\<not> e_verify env h \<longrightarrow> Chat env env' backend h body g = (Inl ErrUnauthorized, g)) \<and>
    (e_verify env h \<longrightarrow> (\<exists>p gp r g'. Prepare env h body g = (Inr p, gp) \<and> Chat env env' backend h body g = (r, g') \<and>
       r = (case backend (p_Body p) (p_Headers p) of Inl e \<Rightarrow> Inl (BackendError e) | Inr resp \<Rightarrow> Inr resp) \<and>
       gw_inv g' \<and> entries (g_gate g') = entries (g_gate g) \<and> rl_nextID (g_log g') = Suc (rl_nextID (g_log g)) \<and>
       rl_capacity (g_log g') = rl_capacity (g_log g) \<and>
       Len (g_log g') = min (nat (rl_capacity (g_log g))) (Suc (Len (g_log g)))))"
proof (intro conjI impI)
  assume v: "e_verify env h"
  obtain p gp where p: "Prepare env h body g = (Inr p, gp)" "gw_inv gp" "g_log gp = g_log g" "p_gated p"
    "entries (gate_release (p_ckey p) (g_gate gp)) = entries (g_gate g)" by (rule Chat_run[OF assms v])
  have rec: "gw_inv (snd (finishRecord env' q g1)) \<and> entries (g_gate (snd (finishRecord env' q g1))) = entries (g_gate g) \<and>
     rl_nextID (g_log (snd (finishRecord env' q g1))) = Suc (rl_nextID (g_log g)) \<and>
     rl_capacity (g_log (snd (finishRecord env' q g1))) = rl_capacity (g_log g) \<and>
     Len (g_log (snd (finishRecord env' q g1))) = min (nat (rl_capacity (g_log g))) (Suc (Len (g_log g)))"
    if "booked p gp q g1" for q g1
  proof -
    have "gw_inv g1" "g_gate g1 = g_gate gp" "g_log g1 = g_log g" "p_gated q" "p_ckey q = p_ckey p"
      using that p by (auto simp: booked_def)
    then show ?thesis using finishRecord_run[of g1 env' q] p(5) by (simp add: Len_def)
  qed
  have "\<exists>r g'. Chat env env' backend h body g = (r, g') \<and>
       r = (case backend (p_Body p) (p_Headers p) of Inl e \<Rightarrow> Inl (BackendError e) | Inr resp \<Rightarrow> Inr resp) \<and>
       gw_inv g' \<and> entries (g_gate g') = entries (g_gate g) \<and> rl_nextID (g_log g') = Suc (rl_nextID (g_log g)) \<and>
       rl_capacity (g_log g') = rl_capacity (g_log g) \<and>
       Len (g_log g') = min (nat (rl_capacity (g_log g))) (Suc (Len (g_log g)))"
  proof (cases "backend (p_Body p) (p_Headers p)")
    case (Inl e)
    then show ?thesis using rec[OF booked_fields[OF booked_refl]] p(1) by (simp add: Chat_def)
  next
    case (Inr resp)
    obtain q g1 where q: "booked p gp q g1" "Finish env' p resp gp = Some (finishRecord env' (q\<lparr>p_fields := final_fields env' resp q\<rparr>) g1)"
      by (rule Finish_run[OF p(2), of p env' resp])
    obtain q' g' where f: "finishRecord env' (q\<lparr>p_fields := final_fields env' resp q\<rparr>) g1 = (q', g')" by fastforce
    have "Chat env env' backend h body g = (Inr resp, g')" using p(1) Inr q(2) f by (simp add: Chat_def)
    then show ?thesis using rec[OF booked_fields[OF q(1)], of "final_fields env' resp q"] f Inr by simp
  qed
  then show "\<exists>p gp r g'. Prepare env h body g = (Inr p, gp) \<and> Chat env env' backend h body g = (r, g') \<and>
       r = (case backend (p_Body p) (p_Headers p) of Inl e \<Rightarrow> Inl (BackendError e) | Inr resp \<Rightarrow> Inr resp) \<and>
       gw_inv g' \<and> entries (g_gate g') = entries (g_gate g) \<and> rl_nextID (g_log g') = Suc (rl_nextID (g_log g)) \<and>
       rl_capacity (g_log g') = rl_capacity (g_log g) \<and>
       Len (g_log g') = min (nat (rl_capacity (g_log g))) (Suc (Len (g_log g)))"
    using p(1) by blast
qed (simp add: Chat_def Prepare_def)

lemma min_cut: "min c (min c x + y) = min c (x + y :: nat)"
  by (simp add: min_def)

lemma chat_run_inv:
  assumes "gw_inv g"
  shows "gw_inv (chat_run calls g) \<and> entries (g_gate (chat_run calls g)) = entries (g_gate g) \<and>
    rl_capacity (g_log (chat_run calls g)) = rl_capacity (g_log g) \<and>
    rl_nextID (g_log (chat_run calls g)) = rl_nextID (g_log g) + length (filter authorised calls) \<and>
    Len (g_log (chat_run calls g)) = min (nat (rl_capacity (g_log g))) (Len (g_log g) + length (filter authorised calls))"
  using assms
proof (induction calls arbitrary: g)
  case Nil
  have "Len (g_log g) \<le> nat (rl_capacity (g_log g))" using Nil by (simp add: gw_inv_def log_ok_def Len_def le_nat_iff)
  then show ?case using Nil by (simp add: chat_run_def)
next
  case (Cons c calls)
  obtain env env' backend h body where c: "c = (env, env', backend, h, body)" using prod_cases5 by blast
  define g1 where "g1 = snd (Chat env env' backend h body g)"
  have run: "chat_run (c # calls) g = chat_run calls g1" by (simp add: chat_run_def c g1_def)
  have step: "gw_inv g1 \<and> entries (g_gate g1) = entries (g_gate g) \<and> rl_capacity (g_log g1) = rl_capacity (g_log g) \<and>
    rl_nextID (g_log g1) = rl_nextID (g_log g) + (if authorised c then 1 else 0) \<and>
    Len (g_log g1) = min (nat (rl_capacity (g_log g))) (Len (g_log g) + (if authorised c then 1 else 0))"
  proof (cases "e_verify env h")
    case False
    have "Len (g_log g) \<le> nat (rl_capacity (g_log g))" using Cons.prems by (simp add: gw_inv_def log_ok_def Len_def le_nat_iff)
    then show ?thesis using Chat_step[OF Cons.prems, of env h env' backend body] False Cons.prems
      by (simp add: g1_def authorised_def c)
  next
    case True
    then show ?thesis using Chat_step[OF Cons.prems, of env h env' backend body]
      by (auto simp: g1_def authorised_def c)
  qed
  then show ?case using Cons.IH[of g1] unfolding run by (simp add: min_cut)
qed

end
