(* ===== verification/Gateway_Correct.thy ===== *)
theory Gateway_Correct
  imports Gateway_Finish
begin

text \<open>
  The properties of a request's life in the gateway, from admission to the stored record, over the lemmas
  of \<^verbatim>\<open>Gateway_Prepare\<close> and \<^verbatim>\<open>Gateway_Finish\<close>.
\<close>


section \<open>A gateway and an environment for the examples\<close>

definition demo_opts :: Options where
  "demo_opts = \<lparr>o_wired = True, o_busyProbe = False, o_NoThink = True, o_Mode = [], o_Threshold = 1, o_ExactMinTokens = 1,
     o_NSlots = 1, o_KeepContent = False, o_PrefillBreaker = 0\<rparr>"

definition demo_gateway :: Gateway where
  "demo_gateway = projr (NewGateway (\<lambda>_. []) ''b'' demo_opts)"

lemma demo_gateway_new: "NewGateway (\<lambda>_. []) ''b'' demo_opts = Inr demo_gateway"
  by (simp add: demo_gateway_def NewGateway_def demo_opts_def mode_of_def NewAlphaEma_def NewKnownPrefixes_def mustKnownPrefixes_def Let_def)

lemma demo_gateway_inv: "gw_inv demo_gateway"
  by (rule NewGateway_inv[OF demo_gateway_new])

text \<open>An environment with a tokenizer, a prefill node and a handoff driver that work.\<close>

definition demo_env :: gw_env where
  "demo_env = \<lparr>e_sha = \<lambda>_. [], e_marshal = \<lambda>_. None, e_lower = \<lambda>s. s, e_trim = \<lambda>s. s, e_atoi = \<lambda>_. Some 0,
     e_parse = \<lambda>_. None, e_verify = \<lambda>_. True, e_prefill = Some (\<lambda>_ _. Inr [(''handoff_id'', Str ''h1'')]),
     e_handoff = Some (\<lambda>_ _. Inr []), e_count = None, e_tokens = Some (\<lambda>_. Inr [1, 2, 3, 4, 5]), e_busy = False, e_allowed = None,
     e_resident = None, e_poolHeld = None, e_slotOf = None, e_replyRoom = None, e_now = 1, e_stamp = [],
     e_elapsed = \<lambda>_. 0, e_wait = (0, False)\<rparr>"


section \<open>Properties\<close>

text \<open>
  C7. Preparation is fail-soft. An unauthorised request is refused without touching the state. An
  authorised one always gets a plan, whatever the tokenizer, prefill, handoff and probe callables answer
  and however they fail; the state stays well formed, nothing is logged yet, and the conversation gate
  holds one more request, which releasing the plan's key undoes.
\<close>

theorem Prepare_fail_soft:
  assumes "gw_inv g"
  shows "(\<not> e_verify env h \<longrightarrow> Prepare env h body g = (Inl ErrUnauthorized, g)) \<and>
    (e_verify env h \<longrightarrow> (\<exists>p g'. Prepare env h body g = (Inr p, g') \<and> gw_inv g' \<and> p_gated p \<and> g_log g' = g_log g \<and>
       entries (gate_release (p_ckey p) (g_gate g')) = entries (g_gate g)))"
proof (intro conjI impI)
  assume v: "e_verify env h"
  obtain pkey ckey src where k: "conv_keys env h body = (pkey, ckey, src)" using prod_cases3 by blast
  have gt: "gate_ok (g_gate g)" using assms by (simp add: gw_inv_def)
  obtain p g' where p: "Prepare env h body g = (Inr p, g')" "gw_inv g'" "p_gated p" "g_log g' = g_log g" "p_ckey p = ckey"
    "g_gate g' = (if ckey = [] then g_gate g else gate_force ckey (g_gate g))"
    by (rule Prepare_run[OF assms v k]) auto
  then show "\<exists>p g'. Prepare env h body g = (Inr p, g') \<and> gw_inv g' \<and> p_gated p \<and> g_log g' = g_log g \<and>
       entries (gate_release (p_ckey p) (g_gate g')) = entries (g_gate g)"
    using release_force[OF gt, of ckey] by (intro exI[of _ p] exI[of _ g']) (simp add: gate_release_def)
qed (simp add: Prepare_def)

theorem Prepare_fail_soft_witness:
  "\<exists>p g'. Prepare demo_env [] [(''messages'', Num 3)] demo_gateway = (Inr p, g') \<and> gw_inv g'"
  using Prepare_fail_soft[OF demo_gateway_inv, of demo_env "[]" "[(''messages'', Num 3)]"] by (auto simp: demo_env_def)

text \<open>
  A plan says it went through the prefill node exactly when it carries a handoff id for the decode
  engine, and exactly when its record says so; then the breaker was closed, both the prefill call and the
  handoff call succeeded with that id, and the decode engine is told to reuse the cache.
\<close>

theorem Prepare_handoff:
  assumes "gw_inv g" "Prepare env h body g = (Inr p, g')"
  shows "(p_viaPrefill p \<longleftrightarrow> map_of (p_Headers p) ''x-sofmat-kv-handoff'' \<noteq> None) \<and>
    (p_viaPrefill p \<longleftrightarrow> field (p_fields p) ''admitted_via'' = Str ''prefill'') \<and>
    (p_viaPrefill p \<longrightarrow> map_of (p_Body p) ''cache_prompt'' = Some (Bool True) \<and> g_breaker g' = g_breaker g \<and>
       (\<exists>hid. map_of (p_Headers p) ''x-sofmat-kv-handoff'' = Some hid \<and> handed env (g_breaker g) hid))"
proof (rule Prepare_routed[OF assms])
  fix st g1 ts
  assume *: "routed env (merge_policy env g1 ts body) (g_breaker g) st" "p_Body p = r_merged st" "p_Headers p = r_headers st"
    "p_fields p = admit_fields env st" "p_viaPrefill p = r_viaPrefill st" "g_breaker g' = r_breaker st"
  have "field (p_fields p) ''admitted_via'' = Str (r_via st)"
    using *(4) by (simp add: admit_fields_def field_def update_conv')
  then show ?thesis using *(1,2,3,5,6) by (cases "r_viaPrefill st") (auto simp: routed_def)
qed

definition demo_body :: Body where
  "demo_body = [(''messages'', Arr [Obj [(''role'', Str ''user''), (''content'', Str ''hola mundo'')]])]"

definition demo_plan :: Plan where
  "demo_plan = projr (fst (Prepare demo_env [] demo_body demo_gateway))"

lemma demo_plan_prepared: "Prepare demo_env [] demo_body demo_gateway = (Inr demo_plan, snd (Prepare demo_env [] demo_body demo_gateway))"
proof -
  have "e_verify demo_env []" by (simp add: demo_env_def)
  then show ?thesis unfolding demo_plan_def
    by (rule Chat_run[OF demo_gateway_inv, of demo_env "[]" demo_body]) auto
qed

theorem Prepare_handoff_witness:
  "p_viaPrefill demo_plan \<longleftrightarrow> map_of (p_Headers demo_plan) ''x-sofmat-kv-handoff'' \<noteq> None"
  using Prepare_handoff[OF demo_gateway_inv demo_plan_prepared] by blast

lemma same_request_other:
  "same_request m m' \<Longrightarrow> k \<notin> {''max_tokens'', ''cache_prompt'', ''id_slot''} \<Longrightarrow> map_of m' k = map_of m k"
  by (simp add: same_request_def)

lemma merge_policy_other:
  "k \<notin> {''chat_template_kwargs'', SpeculativeNMaxKey} \<Longrightarrow> map_of (merge_policy env g ts body) k = map_of body k"
  by (simp add: merge_policy_def Let_def update_conv')

lemma merge_policy_max: "intField (merge_policy env g ts body) ''max_tokens'' = intField body ''max_tokens''"
  by (simp add: intField_def field_def merge_policy_other SpeculativeNMaxKey_def)

lemma NextWave_range: "NMaxFloor \<le> NextWaveNMax lo x q 0 \<and> NextWaveNMax lo x q 0 \<le> NMaxCap"
proof -
  have "NMaxForAlpha a = Inr n \<Longrightarrow> n \<in> {2, 3}" for a n by (auto simp: NMaxForAlpha_def NMaxFloor_def NMaxCap_def split: if_splits)
  then have "(case NMaxForAlpha a of Inl _ \<Rightarrow> NMaxFloor | Inr n \<Rightarrow> n) \<in> {2, 3}" for a
    by (cases "NMaxForAlpha a") (auto simp: NMaxFloor_def)
  then have n: "(case NMaxForAlpha a of Inl _ \<Rightarrow> NMaxFloor | Inr n \<Rightarrow> n) = 2 \<or> (case NMaxForAlpha a of Inl _ \<Rightarrow> NMaxFloor | Inr n \<Rightarrow> n) = 3" for a
    by (metis insertE singletonD)
  define a where "a = (case x of Some v \<Rightarrow> v | None \<Rightarrow> (case q of
      Some p \<Rightarrow> case map_of domainAlpha (ClassifyDomain lo p) of None \<Rightarrow> 0 | Some a \<Rightarrow> a
    | None \<Rightarrow> case map_of domainAlpha ''technical'' of None \<Rightarrow> 0 | Some a \<Rightarrow> a))"
  show ?thesis unfolding NextWaveNMax_def Let_def a_def[symmetric] using n[of a] by (auto simp: NMaxFloor_def NMaxCap_def)
qed

text \<open>
  What reaches the engine is the client's request: besides the policy's own switches every entry is
  unchanged; a thinking switch or a draft length set by the client is kept, the draft length the policy
  adds is within its limits, and a reply limit is only ever lowered, to a positive number.
\<close>

theorem Prepare_body:
  assumes "gw_inv g" "Prepare env h body g = (Inr p, g')"
  shows "(\<forall>k. k \<notin> {''max_tokens'', ''cache_prompt'', ''id_slot'', ''chat_template_kwargs'', SpeculativeNMaxKey} \<longrightarrow>
      map_of (p_Body p) k = map_of body k) \<and>
    (map_of body ''chat_template_kwargs'' \<noteq> None \<longrightarrow> map_of (p_Body p) ''chat_template_kwargs'' = map_of body ''chat_template_kwargs'') \<and>
    (map_of body SpeculativeNMaxKey \<noteq> None \<longrightarrow> map_of (p_Body p) SpeculativeNMaxKey = map_of body SpeculativeNMaxKey) \<and>
    (map_of body SpeculativeNMaxKey = None \<longrightarrow>
      (\<exists>n. map_of (p_Body p) SpeculativeNMaxKey = Some (Num n) \<and> NMaxFloor \<le> n \<and> n \<le> NMaxCap)) \<and>
    lowered body (p_Body p)"
proof (rule Prepare_routed[OF assms])
  fix st g1 ts
  assume r: "routed env (merge_policy env g1 ts body) (g_breaker g) st" and b: "p_Body p = r_merged st" and al: "ema_ok (g_alpha g1)"
  let ?m = "merge_policy env g1 ts body"
  have s: "same_request ?m (p_Body p)" using r b by (simp add: routed_def)
  have keys: "''chat_template_kwargs'' \<notin> {''max_tokens'', ''cache_prompt'', ''id_slot''}"
    "SpeculativeNMaxKey \<notin> {''max_tokens'', ''cache_prompt'', ''id_slot''}" "SpeculativeNMaxKey \<noteq> ''chat_template_kwargs''"
    by (simp_all add: SpeculativeNMaxKey_def)
  have n: "NMaxFloor \<le> NextWaveNMax lo (AlphaEma_Get ts (g_alpha g1)) q 0 \<and> NextWaveNMax lo (AlphaEma_Get ts (g_alpha g1)) q 0 \<le> NMaxCap" for lo q
    by (rule NextWave_range)
  have "map_of (p_Body p) k = map_of body k"
    if "k \<notin> {''max_tokens'', ''cache_prompt'', ''id_slot'', ''chat_template_kwargs'', SpeculativeNMaxKey}" for k
    using that same_request_other[OF s, of k] merge_policy_other[of k] by simp
  moreover have "map_of body ''chat_template_kwargs'' \<noteq> None \<longrightarrow> map_of (p_Body p) ''chat_template_kwargs'' = map_of body ''chat_template_kwargs''"
    using same_request_other[OF s keys(1)] keys(3) by (auto simp: merge_policy_def Let_def update_conv')
  moreover have "map_of (p_Body p) SpeculativeNMaxKey = map_of ?m SpeculativeNMaxKey"
    by (rule same_request_other[OF s keys(2)])
  then have "map_of body SpeculativeNMaxKey \<noteq> None \<longrightarrow> map_of (p_Body p) SpeculativeNMaxKey = map_of body SpeculativeNMaxKey"
    "map_of body SpeculativeNMaxKey = None \<longrightarrow>
      (\<exists>n. map_of (p_Body p) SpeculativeNMaxKey = Some (Num n) \<and> NMaxFloor \<le> n \<and> n \<le> NMaxCap)"
    using keys(3) n by (auto simp: merge_policy_def Let_def update_conv')
  moreover have "lowered body (p_Body p)"
    using s merge_policy_max[of env g1 ts body] merge_policy_other[of "''max_tokens''" env g1 ts body]
    by (auto simp: same_request_def lowered_def SpeculativeNMaxKey_def)
  ultimately show ?thesis by blast
qed

theorem Prepare_body_witness: "map_of (p_Body demo_plan) ''messages'' = map_of demo_body ''messages''"
  using Prepare_body[OF demo_gateway_inv demo_plan_prepared] by (simp add: SpeculativeNMaxKey_def)

text \<open>
  The circuit breaker. Preparation leaves it alone or trips it, and when it trips it the request goes
  to the decode engine directly. While it is open the prefill side is out of the way: the outcome does not
  depend on what the tokenizer, the prefill node or the handoff driver would have answered.
\<close>

theorem Prepare_breaker:
  assumes "gw_inv g" "Prepare env h body g = (Inr p, g')"
  shows "(g_breaker g' = g_breaker g \<or> g_breaker g' = tripBreaker (e_now env) (g_breaker g) \<and>
      \<not> p_viaPrefill p \<and> field (p_fields p) ''admitted_via'' = Str ''decode-fallback'') \<and>
    (prefillDown (e_now env) (g_breaker g) \<and> Disaggregated env \<longrightarrow>
      Prepare (env\<lparr>e_prefill := Some pf, e_handoff := Some hf, e_tokens := tk\<rparr>) h body g = (Inr p, g'))"
proof (rule conjI, rule Prepare_routed[OF assms])
  fix st g1 ts
  assume *: "routed env (merge_policy env g1 ts body) (g_breaker g) st"
    "p_fields p = admit_fields env st" "p_viaPrefill p = r_viaPrefill st" "g_breaker g' = r_breaker st"
  have "field (p_fields p) ''admitted_via'' = Str (r_via st)"
    using *(2) by (simp add: admit_fields_def field_def update_conv')
  then show "g_breaker g' = g_breaker g \<or> g_breaker g' = tripBreaker (e_now env) (g_breaker g) \<and>
      \<not> p_viaPrefill p \<and> field (p_fields p) ''admitted_via'' = Str ''decode-fallback''"
    using * by (auto simp: routed_def split: if_splits)
next
  show "prefillDown (e_now env) (g_breaker g) \<and> Disaggregated env \<longrightarrow>
      Prepare (env\<lparr>e_prefill := Some pf, e_handoff := Some hf, e_tokens := tk\<rparr>) h body g = (Inr p, g')"
    using Prepare_open_breaker[of env g] assms(2) by simp
qed

theorem Prepare_breaker_witness:
  "g_breaker (snd (Prepare demo_env [] demo_body demo_gateway)) = g_breaker demo_gateway \<or>
   g_breaker (snd (Prepare demo_env [] demo_body demo_gateway)) = tripBreaker 1 (g_breaker demo_gateway)"
  using Prepare_breaker[OF demo_gateway_inv demo_plan_prepared] by (auto simp: demo_env_def)

text \<open>
  C4. A chat request leaves the gateway as it found it but for what it learned: unauthorised ones change
  nothing; every other one returns the engine's reply verbatim, or the engine's error, appends exactly one
  record, gives the conversation gate back, and keeps the invariant. No answer or failure of the engine and
  of the callables around it makes the gateway panic.
\<close>

theorem Chat_lifecycle:
  assumes "gw_inv g"
  shows "(\<not> e_verify env h \<longrightarrow> Chat env env' backend h body g = (Inl ErrUnauthorized, g)) \<and>
    (e_verify env h \<longrightarrow> (\<exists>p gp r g'. Prepare env h body g = (Inr p, gp) \<and> Chat env env' backend h body g = (r, g') \<and>
       r = (case backend (p_Body p) (p_Headers p) of Inl e \<Rightarrow> Inl (BackendError e) | Inr resp \<Rightarrow> Inr resp) \<and>
       gw_inv g' \<and> entries (g_gate g') = entries (g_gate g) \<and> rl_nextID (g_log g') = Suc (rl_nextID (g_log g)) \<and>
       rl_capacity (g_log g') = rl_capacity (g_log g) \<and>
       Len (g_log g') = min (nat (rl_capacity (g_log g))) (Suc (Len (g_log g)))))"
  by (rule Chat_step[OF assms])

theorem Chat_lifecycle_witness:
  "\<exists>g'. Chat demo_env demo_env (\<lambda>_ _. Inr [(''id'', Num 7)]) [] [] demo_gateway = (Inr [(''id'', Num 7)], g') \<and> gw_inv g'"
  using Chat_lifecycle[OF demo_gateway_inv, of demo_env "[]" demo_env "\<lambda>_ _. Inr [(''id'', Num 7)]" "[]"]
  by (auto simp: demo_env_def)

text \<open>
  A gateway is built exactly when its callables are wired, the mode is known and the modes that watch
  the decode engine have a probe; it is then well formed, with an empty log, nothing in flight and all
  its slots on the ring.
\<close>

theorem NewGateway_ok:
  "((\<exists>g. NewGateway sha boot opts = Inr g) \<longleftrightarrow>
      o_wired opts \<and> o_Mode opts \<in> {[], ''busy'', ''always'', ''auto''} \<and> (o_Mode opts \<in> {''busy'', ''auto''} \<longrightarrow> o_busyProbe opts)) \<and>
   (\<forall>g. NewGateway sha boot opts = Inr g \<longrightarrow> gw_inv g \<and> Len (g_log g) = 0 \<and> entries (g_gate g) = Map.empty \<and>
      set (members (g_ring g)) = decimal ` {0..<nat (if o_NSlots opts \<le> 0 then 4 else o_NSlots opts)})"
proof (intro conjI allI impI)
  show "(\<exists>g. NewGateway sha boot opts = Inr g) \<longleftrightarrow>
      o_wired opts \<and> o_Mode opts \<in> {[], ''busy'', ''always'', ''auto''} \<and> (o_Mode opts \<in> {''busy'', ''auto''} \<longrightarrow> o_busyProbe opts)"
    by (simp add: NewGateway_def mode_of_def NewAlphaEma_def NewKnownPrefixes_def mustKnownPrefixes_def Let_def)
next
  fix g
  assume g: "NewGateway sha boot opts = Inr g"
  then show "gw_inv g" by (rule NewGateway_inv)
  show "Len (g_log g) = 0" "entries (g_gate g) = Map.empty"
    by (rule NewGateway_parts[OF g]; simp add: Len_def NewRequestLog_def newConvGate_def)+
  have "g_ring g = NewRing sha (map decimal [0..<nat (if o_NSlots opts \<le> 0 then 4 else o_NSlots opts)]) 64"
    using g by (auto simp: NewGateway_def NewAlphaEma_def NewKnownPrefixes_def mustKnownPrefixes_def Let_def
        split: if_splits sum.splits)
  then show "set (members (g_ring g)) = decimal ` {0..<nat (if o_NSlots opts \<le> 0 then 4 else o_NSlots opts)}"
    using NewRing_members by simp
qed

theorem NewGateway_ok_witness: "gw_inv demo_gateway \<and> Len (g_log demo_gateway) = 0"
  using NewGateway_ok[of "\<lambda>_. []" "''b''" demo_opts] demo_gateway_new by blast

text \<open>
  C27. Over any sequence of chats on a new gateway, with callables and engines that answer and fail as they
  like, the state stays well formed, no conversation is left in flight, and the log holds one record for
  each authorised request, the last five hundred of them.
\<close>

theorem gateway_session:
  assumes "NewGateway sha boot opts = Inr g"
  shows "gw_inv (chat_run calls g) \<and> entries (g_gate (chat_run calls g)) = Map.empty \<and>
    rl_nextID (g_log (chat_run calls g)) = Suc (length (filter authorised calls)) \<and>
    Len (g_log (chat_run calls g)) = min 500 (length (filter authorised calls))"
proof -
  have "entries (g_gate g) = Map.empty" "rl_capacity (g_log g) = 500" "Len (g_log g) = 0" "rl_nextID (g_log g) = 1"
    by (rule NewGateway_parts[OF assms]; simp add: newConvGate_def NewRequestLog_def Len_def)+
  then show ?thesis using chat_run_inv[OF NewGateway_inv[OF assms], of calls] by simp
qed

theorem gateway_session_witness:
  "Len (g_log (chat_run [(demo_env, demo_env, \<lambda>_ _. Inl ''x'', [], [])] demo_gateway)) = 1"
  using gateway_session[OF demo_gateway_new, of "[(demo_env, demo_env, \<lambda>_ _. Inl ''x'', [], [])]"]
  by (simp add: authorised_def demo_env_def)

text \<open>
  C11. \<^verbatim>\<open>Finish\<close> corrects what admission believed by what the engine measured: the prefix counts as hot
  afterwards exactly when the engine reused at least half of it or the prompt was handed off; a
  conversation credited as resident that the engine did not have loses its slot, and a slot the engine is
  seen to hold it in becomes its slot.
\<close>

theorem Finish_corrects:
  assumes "gw_inv g" "Finish env p resp g = Some (p', g')"
  shows "hot (g_known g') (p_pkey p) = (if prefix_cold resp p then 0 else p_prefixToks p) \<and>
    (\<forall>cn pn gen. timingInt resp ''cache_n'' = Some cn \<and> timingInt resp ''prompt_n'' = Some pn \<and>
       gen = (case timingInt resp ''predicted_n'' of Some n \<Rightarrow> n | None \<Rightarrow> 0) \<and> p_ckey p \<noteq> [] \<longrightarrow>
       (case slotOfSafe env (cn + pn + gen) of
          Some s \<Rightarrow> s \<noteq> [] \<longrightarrow> cs_get (p_ckey p) (g_convSlot g') = s
        | None \<Rightarrow> resident_wrong p cn \<longrightarrow> cs_get (p_ckey p) (g_convSlot g') = []))"
proof (rule Finish_run[OF assms(1), of p env resp])
  fix known p1 g1 g3 p4 g4
  assume k: "kp_Record (p_pkey p) (p_prefixToks p) (g_known g) = Some known" "kp_inv known"
    and l: "fin_learn env resp p (g\<lparr>g_known := known\<rparr>) = Some (p1, g1)" "booked p (g\<lparr>g_known := known\<rparr>) p1 g1"
    and c: "g_known g3 = g_known (snd (fin_cold resp p1 g1))" "g_convSlot g3 = g_convSlot g1"
    and al: "(p4, g4) = fin_alpha resp (fst (fin_cold resp p1 g1)) g3"
    and fin: "Finish env p resp g = Some (finishRecord env (p4\<lparr>p_fields := final_fields env resp p4\<rparr>) g4)"
  have g': "g_known g' = g_known g3" "g_convSlot g' = g_convSlot g1"
    using fin assms(2) fin_alpha_frame[of resp "fst (fin_cold resp p1 g1)" g3] al[symmetric] c
    by (auto simp: finishRecord_def Let_def)
  have same: "prefix_cold resp p1 = prefix_cold resp p" "p_pkey p1 = p_pkey p"
    using l(2) by (auto simp: booked_def prefix_cold_def split: option.splits)
  have g1k: "g_known g1 = known" using fin_learn_frame[OF l(1)] by simp
  have "hot known (p_pkey p) = p_prefixToks p"
    using kp.put_lookup[of "g_known g" "p_pkey p" "p_prefixToks p" known] k(1) assms(1) by (simp add: hot_def gw_inv_def)
  moreover have "hot (kp_Forget (p_pkey p) known) (p_pkey p) = 0"
    using kp.forget_ok[OF k(2), of "p_pkey p"] by (simp add: hot_def)
  ultimately have "hot (g_known g') (p_pkey p) = (if prefix_cold resp p then 0 else p_prefixToks p)"
    using g'(1) c(1) same g1k by (simp add: fin_cold_def Let_def)
  moreover have "cs_inv (g_convSlot g)" using assms(1) by (simp add: gw_inv_def)
  ultimately show ?thesis using fin_learn_slot[OF l(1)] unfolding g'(2) by simp
qed

definition demo_resp :: Body where
  "demo_resp = [(''timings'', Obj [(''cache_n'', Num 0), (''prompt_n'', Num 5), (''prompt_ms'', Flt 3)])]"

definition demo_finished :: "Plan \<times> Gateway" where
  "demo_finished = the (Finish demo_env demo_plan demo_resp demo_gateway)"

lemma demo_finished_run: "Finish demo_env demo_plan demo_resp demo_gateway = Some (fst demo_finished, snd demo_finished)"
  unfolding demo_finished_def by (rule Finish_run[OF demo_gateway_inv, of demo_plan demo_env demo_resp]) simp

theorem Finish_corrects_witness:
  "hot (g_known (snd demo_finished)) (p_pkey demo_plan) = (if prefix_cold demo_resp demo_plan then 0 else p_prefixToks demo_plan)"
  using Finish_corrects[OF demo_gateway_inv demo_finished_run] by blast

lemma opt_put_other: "j \<noteq> k \<Longrightarrow> map_of (opt_put k v r) j = map_of r j"
  by (simp add: opt_put_def update_conv' split: option.splits)

lemma default_put_other: "j \<noteq> k \<Longrightarrow> map_of (default_put k v r) j = map_of r j"
  by (simp add: default_put_def update_conv')

lemma default_put_same: "\<exists>y. map_of (default_put k v r) k = Some y"
  by (simp add: default_put_def update_conv')

lemma opt_put_keeps: "map_of r j \<noteq> None \<Longrightarrow> map_of (opt_put k v r) j \<noteq> None"
  by (simp add: opt_put_def update_conv' split: option.splits)

lemma default_put_keeps: "map_of r j \<noteq> None \<Longrightarrow> map_of (default_put k v r) j \<noteq> None"
  by (simp add: default_put_def update_conv')

lemma put_keeps: "map_of r j \<noteq> None \<Longrightarrow> map_of (put k v r) j \<noteq> None"
  by (simp add: update_conv')

lemmas record_puts = opt_put_other default_put_other default_put_same update_conv'

lemma fin_slot_wait_other: "k \<notin> {''wait_slot_ms'', ''wait_slot_src'', ''arranque_ms''} \<Longrightarrow> map_of (fin_slot_wait fs) k = map_of fs k"
  by (simp add: fin_slot_wait_def Let_def update_conv' split: option.split prod.split)

lemma fin_slot_wait_value:
  "\<exists>w src. field (fin_slot_wait fs) ''wait_slot_ms'' = Flt w \<and> field (fin_slot_wait fs) ''wait_slot_src'' = Str src \<and>
     (w = - 1 \<and> src = [] \<or> 0 \<le> w \<and> src \<in> {''first-token'', ''whole-reply''})"
proof -
  have "slot_wait r = Some (ws, src) \<Longrightarrow> src \<in> {''first-token'', ''whole-reply''}" for r ws src
    by (auto simp: slot_wait_def Let_def split: go_any.splits if_splits)
  then show ?thesis
    by (auto simp: fin_slot_wait_def Let_def field_def update_conv' split: option.split prod.split)
qed

lemma fin_waits_keys:
  "k \<in> {''wait_budget_ms'', ''first_byte_ms'', ''first_token_ms''} \<Longrightarrow> map_of (fin_waits env resp h fs) k \<noteq> None"
  by (auto simp: fin_waits_def Let_def record_puts)

lemma fin_waits_keeps: "map_of fs k \<noteq> None \<Longrightarrow> map_of (fin_waits env resp h fs) k \<noteq> None"
  by (auto simp: fin_waits_def Let_def opt_put_keeps default_put_keeps put_keeps simp del: not_None_eq)

lemma fin_timings_keeps: "map_of fs k \<noteq> None \<Longrightarrow> map_of (fin_timings resp via fs) k \<noteq> None"
  by (auto simp: fin_timings_def Let_def opt_put_keeps default_put_keeps put_keeps simp del: not_None_eq split: option.split)

lemma fin_timings_miss:
  "timingInt resp ''prompt_n'' = Some n \<Longrightarrow> map_of (fin_timings resp True fs) ''kv_miss'' = Some (Bool (n > kvMissPromptTokens))"
  by (simp add: fin_timings_def Let_def record_puts)

lemma fin_alpha_keys:
  "k \<in> {''alpha_ema'', ''draft_n'', ''draft_n_accepted''} \<Longrightarrow> map_of (p_fields (fst (fin_alpha resp p g))) k \<noteq> None"
  by (auto simp: fin_alpha_def Let_def update_conv' opt_put_def split: option.split)

text \<open>
  The record that is stored. It is the last one of the log and always carries the waits, the draft
  counters, the acceptance average and the two durations; the wait for a slot is either unknown, written
  as -1 with no derivation, or a non-negative time with its derivation; after a handoff it says whether the
  engine reprocessed the prompt.
\<close>

theorem Finish_record:
  assumes "gw_inv g" "Finish env p resp g = Some (p', g')"
  shows "last (rl_buf (g_log g')) = new_record (p_fields p') None (g_log g) \<and>
    (\<forall>k. k \<in> {''wait_budget_ms'', ''first_byte_ms'', ''first_token_ms'', ''alpha_ema'', ''draft_n'', ''draft_n_accepted'',
       ''finish_ms'', ''total_ms''} \<longrightarrow> map_of (p_fields p') k \<noteq> None) \<and>
    (\<exists>w src. field (p_fields p') ''wait_slot_ms'' = Flt w \<and> field (p_fields p') ''wait_slot_src'' = Str src \<and>
       (w = - 1 \<and> src = [] \<or> 0 \<le> w \<and> src \<in> {''first-token'', ''whole-reply''})) \<and>
    (\<forall>n. p_viaPrefill p \<and> timingInt resp ''prompt_n'' = Some n \<longrightarrow> field (p_fields p') ''kv_miss'' = Bool (n > kvMissPromptTokens))"
proof (rule Finish_run[OF assms(1), of p env resp])
  fix known p1 g1 g3 p4 g4
  assume al: "(p4, g4) = fin_alpha resp (fst (fin_cold resp p1 g1)) g3" and b: "booked p g p4 g4" and i: "gw_inv g4"
    and fin: "Finish env p resp g = Some (finishRecord env (p4\<lparr>p_fields := final_fields env resp p4\<rparr>) g4)"
  let ?w = "fin_slot_wait (fin_waits env resp (p_Headers p4) (fin_timings resp (p_viaPrefill p4) (p_fields p4)))"
  have p': "p' = fst (finishRecord env (p4\<lparr>p_fields := final_fields env resp p4\<rparr>) g4)"
    "g' = snd (finishRecord env (p4\<lparr>p_fields := final_fields env resp p4\<rparr>) g4)" using fin assms(2) by (metis fst_conv snd_conv option.inject)+
  have f: "map_of (p_fields p') = (map_of ?w)(''finish_ms'' \<mapsto> Flt (e_elapsed env ''finish_ms''), ''total_ms'' \<mapsto> Flt (e_elapsed env ''total_ms''))"
    unfolding p' by (simp add: finishRecord_def Let_def final_fields_def update_conv')
  have "last (rl_buf (g_log g')) = new_record (p_fields p') None (g_log g)"
    using finishRecord_run[OF i, of env "p4\<lparr>p_fields := final_fields env resp p4\<rparr>"] b unfolding p' by (simp add: booked_def)
  moreover have "map_of (p_fields p') k \<noteq> None"
    if kk: "k \<in> {''wait_budget_ms'', ''first_byte_ms'', ''first_token_ms'', ''alpha_ema'', ''draft_n'', ''draft_n_accepted'',
       ''finish_ms'', ''total_ms''}" for k
  proof -
    let ?f = "fin_waits env resp (p_Headers p4) (fin_timings resp (p_viaPrefill p4) (p_fields p4))"
    have shown: "map_of (p_fields p') k \<noteq> None" if "map_of ?f k \<noteq> None" "k \<notin> {''wait_slot_ms'', ''wait_slot_src'', ''arranque_ms''}"
      using that unfolding f by (simp add: fin_slot_wait_other)
    consider (waits) "k \<in> {''wait_budget_ms'', ''first_byte_ms'', ''first_token_ms''}"
      | (alpha) "k \<in> {''alpha_ema'', ''draft_n'', ''draft_n_accepted''}" | (durations) "k = ''finish_ms'' \<or> k = ''total_ms''"
      using kk unfolding insert_iff empty_iff by metis
    then show ?thesis
    proof cases
      case waits
      then show ?thesis by (intro shown fin_waits_keys) auto
    next
      case alpha
      then have "map_of (p_fields p4) k \<noteq> None" using fin_alpha_keys al by (metis fst_conv)
      then show ?thesis using alpha by (intro shown fin_waits_keeps fin_timings_keeps) auto
    next
      case durations
      then show ?thesis unfolding f by auto
    qed
  qed
  moreover have "field (p_fields p') ''wait_slot_ms'' = field ?w ''wait_slot_ms''" "field (p_fields p') ''wait_slot_src'' = field ?w ''wait_slot_src''"
    by (simp_all add: field_def f)
  moreover have "field (p_fields p') ''kv_miss'' = Bool (n > kvMissPromptTokens)"
    if "p_viaPrefill p" "timingInt resp ''prompt_n'' = Some n" for n
  proof -
    have "p_viaPrefill p4" using b that by (auto simp: booked_def)
    then show ?thesis using fin_timings_miss[OF that(2)]
      by (simp add: field_def f fin_slot_wait_other fin_waits_def Let_def record_puts)
  qed
  ultimately show ?thesis using fin_slot_wait_value by simp
qed

theorem Finish_record_witness:
  "last (rl_buf (g_log (snd demo_finished))) = new_record (p_fields (fst demo_finished)) None (g_log demo_gateway)"
  using Finish_record[OF demo_gateway_inv demo_finished_run] by blast

end
