(* ===== verification/Kv_State.thy ===== *)
theory Kv_State
  imports Gateway_Body Policy
begin

text \<open>
  \<^verbatim>\<open>internal/coordinator/kvstate.go\<close>: the files a node serves, deletes and fetches for the handoff of slot
  states. The file system is an association list from cleaned paths to nodes; the lexical part of
  \<^verbatim>\<open>path/filepath\<close> is that of Unix. \<open>io_err\<close> lets any call of the operating system fail with any text, and
  \<open>io_short\<close> says how many bytes a failing write leaves behind. SHA-256 and the peer's answer are parameters.
\<close>


section \<open>Names\<close>

definition alnum :: "char \<Rightarrow> bool" where
  "alnum c \<longleftrightarrow>
     (65 \<le> byte_of c \<and> byte_of c \<le> 90) \<or> (97 \<le> byte_of c \<and> byte_of c \<le> 122) \<or> (48 \<le> byte_of c \<and> byte_of c \<le> 57)"

definition name_char :: "char \<Rightarrow> bool" where
  "name_char c \<longleftrightarrow> alnum c \<or> c \<in> {CHR ''.'', CHR ''_'', CHR ''-''}"

text \<open>\<open>strip_end e s\<close> is \<open>s\<close> without its ending \<open>e\<close>.\<close>

definition strip_end :: "string \<Rightarrow> string \<Rightarrow> string option" where
  "strip_end e s =
     (if length e \<le> length s \<and> drop (length s - length e) s = e then Some (take (length s - length e) s) else None)"

definition stem_ok :: "string \<Rightarrow> bool" where
  "stem_ok s = (case s of [] \<Rightarrow> False | c # mid \<Rightarrow> alnum c \<and> length mid \<le> 127 \<and> list_all name_char mid)"

definition stateNameRe :: "string \<Rightarrow> bool" where
  "stateNameRe s \<longleftrightarrow>
     (case strip_end ''.bin'' s of Some t \<Rightarrow> stem_ok t | None \<Rightarrow> False) \<or>
     (case strip_end ''.bin.dft'' s of Some t \<Rightarrow> stem_ok t | None \<Rightarrow> False)"

definition validStateName :: "string \<Rightarrow> bool" where
  "validStateName n \<longleftrightarrow> stateNameRe n \<and> \<not> contains n ''..''"

definition maxStateBytes :: nat where "maxStateBytes = 32 * 2 ^ 30"


section \<open>Paths\<close>

fun split_on :: "char \<Rightarrow> string \<Rightarrow> string list" where
  "split_on d [] = [[]]"
| "split_on d (c # s) =
     (if c = d then [] # split_on d s
      else case split_on d s of [] \<Rightarrow> [[c]] | w # ws \<Rightarrow> (c # w) # ws)"

fun join_slash :: "string list \<Rightarrow> string" where
  "join_slash [] = []"
| "join_slash [w] = w"
| "join_slash (w # ws) = w @ ''/'' @ join_slash ws"

text \<open>\<^verbatim>\<open>filepath.Clean\<close>: \<open>acc\<close> holds the components kept so far, last first.\<close>

fun clean_comps :: "bool \<Rightarrow> string list \<Rightarrow> string list \<Rightarrow> string list" where
  "clean_comps rooted acc [] = rev acc"
| "clean_comps rooted acc (c # cs) =
     (if c = [] \<or> c = ''.'' then clean_comps rooted acc cs
      else if c = ''..'' then
        (case acc of
           [] \<Rightarrow> clean_comps rooted (if rooted then [] else [c]) cs
         | a # as \<Rightarrow> if a = ''..'' then clean_comps rooted (c # acc) cs else clean_comps rooted as cs)
      else clean_comps rooted (c # acc) cs)"

definition is_rooted :: "string \<Rightarrow> bool" where
  "is_rooted p \<longleftrightarrow> p \<noteq> [] \<and> hd p = CHR ''/''"

definition path_comps :: "string \<Rightarrow> string list" where
  "path_comps p = clean_comps (is_rooted p) [] (split_on CHR ''/'' p)"

definition render_path :: "bool \<Rightarrow> string list \<Rightarrow> string" where
  "render_path rooted cs = (if rooted then ''/'' @ join_slash cs else if cs = [] then ''.'' else join_slash cs)"

definition path_clean :: "string \<Rightarrow> string" where
  "path_clean p = render_path (is_rooted p) (path_comps p)"

text \<open>\<^verbatim>\<open>filepath.Join\<close> of two elements; an empty element is left out.\<close>

definition path_join :: "string \<Rightarrow> string \<Rightarrow> string" where
  "path_join a b =
     (if a = [] \<and> b = [] then []
      else if a = [] then path_clean b
      else if b = [] then path_clean a
      else path_clean (a @ ''/'' @ b))"


section \<open>Files\<close>

datatype fnode = FFile bytes | FDir

type_synonym fs = "(string \<times> fnode) list"

datatype fs_call =
    COpen string | CStat string | CRemove string | CMkdirAll string | CCreate string | CWrite nat | CClose string
  | CRename string string

record io_env =
  io_err :: "fs_call \<Rightarrow> string option"
  io_short :: "nat \<Rightarrow> nat"

datatype fs_error = NotExist | OtherErr string

definition os_remove :: "io_env \<Rightarrow> string \<Rightarrow> fs \<Rightarrow> (fs_error, fs) result" where
  "os_remove io p fs =
     (case io_err io (CRemove p) of
        Some e \<Rightarrow> Inl (OtherErr e)
      | None \<Rightarrow>
          (case map_of fs p of
             None \<Rightarrow> Inl NotExist
           | Some (FFile _) \<Rightarrow> Inr (AList.delete p fs)
           | Some FDir \<Rightarrow>
               if list_ex (\<lambda>q. starts (p @ ''/'') (fst q)) fs then Inl (OtherErr ''directory not empty'')
               else Inr (AList.delete p fs)))"

text \<open>The path itself and everything above it, outermost first.\<close>

fun path_prefixes :: "string \<Rightarrow> string \<Rightarrow> string list" where
  "path_prefixes acc [] = [acc]"
| "path_prefixes acc (c # cs) = (if c = CHR ''/'' \<and> acc \<noteq> [] then [acc] else []) @ path_prefixes (acc @ [c]) cs"

definition os_mkdirs :: "io_env \<Rightarrow> string \<Rightarrow> fs \<Rightarrow> (string, fs) result" where
  "os_mkdirs io dir fs =
     (case io_err io (CMkdirAll dir) of
        Some e \<Rightarrow> Inl e
      | None \<Rightarrow>
          let ps = path_prefixes [] dir
          in if list_ex (\<lambda>p. case map_of fs p of Some (FFile _) \<Rightarrow> True | _ \<Rightarrow> False) ps then Inl ''not a directory''
             else Inr (foldl (\<lambda>fs p. if map_of fs p = None then AList.update p FDir fs else fs) fs ps))"

definition os_create :: "io_env \<Rightarrow> string \<Rightarrow> fs \<Rightarrow> (string, fs) result" where
  "os_create io p fs =
     (case io_err io (CCreate p) of
        Some e \<Rightarrow> Inl e
      | None \<Rightarrow> if map_of fs p = Some FDir then Inl ''is a directory'' else Inr (AList.update p (FFile []) fs))"

definition os_rename :: "io_env \<Rightarrow> string \<Rightarrow> string \<Rightarrow> fs \<Rightarrow> (string, fs) result" where
  "os_rename io p q fs =
     (case io_err io (CRename p q) of
        Some e \<Rightarrow> Inl e
      | None \<Rightarrow>
          (case (map_of fs p, map_of fs q) of
             (None, _) \<Rightarrow> Inl ''no such file or directory''
           | (_, Some FDir) \<Rightarrow> Inl ''file exists''
           | (Some node, _) \<Rightarrow> Inr (AList.update q node (AList.delete p fs))))"


section \<open>The handlers\<close>

datatype http_resp = JsonResp nat Body | ContentResp string bytes

definition resp_status :: "http_resp \<Rightarrow> nat" where
  "resp_status r = (case r of JsonResp s _ \<Rightarrow> s | ContentResp _ _ \<Rightarrow> 200)"

definition bad_name :: string where
  "bad_name = ''nombre de estado inv'' @ [CHR 0xC3, CHR 0xA1] @ ''lido''"

definition trim_prefix :: "string \<Rightarrow> string \<Rightarrow> string" where
  "trim_prefix p s = (if starts p s then drop (length p) s else s)"

definition withSlotSavePath :: "string \<Rightarrow> string list \<Rightarrow> string list" where
  "withSlotSavePath dir args =
     (if dir = [] then args
      else if list_ex (\<lambda>a. a = ''--slot-save-path'') args then args
      else args @ [''--slot-save-path'', dir])"

definition kvFile :: "io_env \<Rightarrow> string \<Rightarrow> string \<Rightarrow> string \<Rightarrow> fs \<Rightarrow> http_resp \<times> fs" where
  "kvFile io dir meth url fs =
     (let name = trim_prefix ''/kv/'' url
      in if \<not> validStateName name then (JsonResp 400 [(''error'', Str bad_name)], fs)
         else if dir = [] then (JsonResp 503 [(''error'', Str ''kv_state_dir no configurado en este nodo'')], fs)
         else
           let path = path_join dir name
           in if meth = ''GET'' \<or> meth = ''HEAD'' then
                (let missing = JsonResp 404 [(''error'', Str ''estado no encontrado'')]
                 in if io_err io (COpen path) \<noteq> None \<or> io_err io (CStat path) \<noteq> None then (missing, fs)
                    else (case map_of fs path of
                            Some (FFile d) \<Rightarrow> (ContentResp name d, fs)
                          | _ \<Rightarrow> (missing, fs)))
              else if meth = ''DELETE'' then
                (case os_remove io path fs of
                   Inl NotExist \<Rightarrow> (JsonResp 404 [(''ok'', Bool False), (''error'', Str ''estado no encontrado'')], fs)
                 | Inl (OtherErr e) \<Rightarrow> (JsonResp 500 [(''ok'', Bool False), (''error'', Str e)], fs)
                 | Inr fs' \<Rightarrow> (JsonResp 200 [(''ok'', Bool True)], fs'))
              else (JsonResp 405 [(''error'', Str (''m'' @ [CHR 0xC3, CHR 0xA9] @ ''todo no permitido''))], fs))"

record fetch_body =
  fb_URL :: string
  fb_Name :: string
  fb_SHA256 :: string

text \<open>What the peer answers: the status, the pieces of the body as they are read, and how reading ends.\<close>

record peer_answer =
  pa_code :: nat
  pa_status :: string
  pa_chunks :: "bytes list"
  pa_broken :: "string option"

text \<open>
  \<^verbatim>\<open>io.Copy\<close> into the file and the hash from a reader limited to \<open>left\<close> more bytes. The result is the
  states of the file system after each write, the bytes written and the error.
\<close>

fun kv_copy ::
  "io_env \<Rightarrow> string \<Rightarrow> string option \<Rightarrow> nat \<Rightarrow> nat \<Rightarrow> bytes \<Rightarrow> bytes list \<Rightarrow> fs \<Rightarrow> fs list \<times> bytes \<times> string option" where
  "kv_copy io tmp broken left i acc [] fs = ([], acc, if left = 0 then None else broken)"
| "kv_copy io tmp broken left i acc (c # cs) fs =
     (if left = 0 then ([], acc, None)
      else
        let c = take left c
        in case io_err io (CWrite i) of
             Some e \<Rightarrow>
               let acc = acc @ take (io_short io i) c
               in ([AList.update tmp (FFile acc) fs], acc, Some e)
           | None \<Rightarrow>
               let acc = acc @ c; fs = AList.update tmp (FFile acc) fs;
                   (tr, d, e) = kv_copy io tmp broken (left - length c) (Suc i) acc cs fs
               in (fs # tr, d, e))"

definition first_err :: "string option list \<Rightarrow> string option" where
  "first_err es = (case dropWhile (\<lambda>e. e = None) es of [] \<Rightarrow> None | e # _ \<Rightarrow> e)"

text \<open>The checks of \<^verbatim>\<open>controlKVFetch\<close> on the copied bytes \<open>d\<close>; \<open>e\<close> is the error of the copy.\<close>

definition fetch_check :: "io_env \<Rightarrow> nat \<Rightarrow> string \<Rightarrow> string \<Rightarrow> string \<Rightarrow> bytes \<Rightarrow> string option \<Rightarrow> string option" where
  "fetch_check io cap tmp want hash d e =
     first_err
       [e, io_err io (CClose tmp), if length d > cap then Some ''short buffer'' else None,
        if want \<noteq> [] \<and> \<not> EqualFold want hash then Some ''sha256 del estado no coincide'' else None]"

text \<open>The rename, or the removal of the temporary file, and the answer.\<close>

definition fetch_end :: "io_env \<Rightarrow> float64 \<Rightarrow> string \<Rightarrow> string \<Rightarrow> string \<Rightarrow> string \<Rightarrow> bytes \<Rightarrow> string option \<Rightarrow> fs \<Rightarrow> http_resp \<times> fs" where
  "fetch_end io ms name final tmp hash d err fs =
     (let (err, fs) = (case err of
                         Some e \<Rightarrow> (Some e, fs)
                       | None \<Rightarrow> (case os_rename io tmp final fs of Inl e \<Rightarrow> (Some e, fs) | Inr fs' \<Rightarrow> (None, fs')))
      in case err of
           Some e \<Rightarrow>
             (JsonResp 502 [(''ok'', Bool False), (''error'', Str e), (''bytes'', Num (int (length d)))],
              case os_remove io tmp fs of Inl _ \<Rightarrow> fs | Inr fs' \<Rightarrow> fs')
         | None \<Rightarrow>
             (JsonResp 200 [(''ok'', Bool True), (''name'', Str name), (''bytes'', Num (int (length d))),
                (''sha256'', Str hash), (''ms'', Flt ms)], fs))"

text \<open>
  The part of \<^verbatim>\<open>controlKVFetch\<close> after the peer answered 200: the temporary file, the copy, the checks and the
  rename. The second component lists the states the file system goes through.
\<close>

definition fetch_store ::
  "io_env \<Rightarrow> (bytes \<Rightarrow> bytes) \<Rightarrow> nat \<Rightarrow> float64 \<Rightarrow> string \<Rightarrow> fetch_body \<Rightarrow> peer_answer \<Rightarrow> fs \<Rightarrow> http_resp \<times> fs list" where
  "fetch_store io sha cap ms dir body ans fs =
     (let final = path_join dir (fb_Name body); tmp = final @ ''.part''
      in case os_create io tmp fs of
           Inl e \<Rightarrow> (JsonResp 500 [(''ok'', Bool False), (''error'', Str e)], [])
         | Inr fs1 \<Rightarrow>
             let (tr, d, e) = kv_copy io tmp (pa_broken ans) (cap + 1) 0 [] (pa_chunks ans) fs1;
                 hash = concat (map hex_lower (sha d));
                 (r, fs') = fetch_end io ms (fb_Name body) final tmp hash d (fetch_check io cap tmp (fb_SHA256 body) hash d e)
                   (last (fs1 # tr))
             in (r, fs1 # tr @ [fs']))"

definition controlKVFetch ::
  "io_env \<Rightarrow> (bytes \<Rightarrow> bytes) \<Rightarrow> (string \<Rightarrow> (string, peer_answer) result) \<Rightarrow> float64 \<Rightarrow> string \<Rightarrow> string \<Rightarrow> fetch_body \<Rightarrow> fs \<Rightarrow>
   http_resp \<times> fs list" where
  "controlKVFetch io sha get ms dir meth body fs =
     (let failed = (\<lambda>s e. (JsonResp s [(''ok'', Bool False), (''error'', Str e)], []))
      in if meth \<noteq> ''POST'' then failed 405 ''POST requerido''
         else if \<not> validStateName (fb_Name body) then failed 400 bad_name
         else if \<not> starts ''http://'' (fb_URL body) \<and> \<not> starts ''https://'' (fb_URL body) then failed 400 ''url http(s) requerida''
         else if dir = [] then failed 503 ''kv_state_dir no configurado en este nodo''
         else case os_mkdirs io dir fs of
                Inl e \<Rightarrow> failed 500 e
              | Inr fs0 \<Rightarrow>
                  (case get (fb_URL body) of
                     Inl e \<Rightarrow> (JsonResp 502 [(''ok'', Bool False), (''error'', Str e)], [fs0])
                   | Inr ans \<Rightarrow>
                       if pa_code ans \<noteq> 200 then
                         (JsonResp 502 [(''ok'', Bool False), (''error'', Str (''origen HTTP '' @ pa_status ans))], [fs0])
                       else
                         let (r, tr) = fetch_store io sha maxStateBytes ms dir body ans fs0 in (r, fs0 # tr)))"


section \<open>Names are plain file names\<close>

lemma strip_end_iff: "strip_end e s = Some t \<longleftrightarrow> s = t @ e"
  unfolding strip_end_def by (auto simp: append_eq_conv_conj) (metis append_take_drop_id)

lemma strip_end_None: "strip_end e s = None \<longleftrightarrow> (\<nexists>t. s = t @ e)"
  by (metis not_None_eq strip_end_iff)

lemma stateNameRe_iff: "stateNameRe s \<longleftrightarrow> (\<exists>t. stem_ok t \<and> s \<in> {t @ ''.bin'', t @ ''.bin.dft''})"
proof -
  have "(case strip_end e s of Some t \<Rightarrow> stem_ok t | None \<Rightarrow> False) \<longleftrightarrow> (\<exists>t. stem_ok t \<and> s = t @ e)" for e
    by (auto simp: strip_end_iff strip_end_None split: option.splits)
  then show ?thesis unfolding stateNameRe_def by auto
qed

lemma alnum_dot: "\<not> alnum CHR ''.''" "\<not> alnum CHR ''/''" "\<not> name_char CHR ''/''" "alnum c \<Longrightarrow> name_char c"
  by (auto simp: alnum_def name_char_def byte_of_def)

lemma stem_chars: "stem_ok t \<Longrightarrow> (\<forall>c\<in>set t. name_char c) \<and> t \<noteq> [] \<and> alnum (hd t) \<and> length t \<le> 128"
  by (cases t) (auto simp: stem_ok_def list_all_iff alnum_dot)

lemma suffix_chars: "\<forall>c\<in>set ''.bin.dft''. name_char c"
  by (simp add: name_char_def alnum_def byte_of_def)

lemma stateName_chars:
  assumes "stateNameRe n"
  shows "\<forall>c\<in>set n. name_char c" "n \<noteq> []" "alnum (hd n)" "5 \<le> length n" "length n \<le> 136"
proof -
  obtain t where t: "stem_ok t" "n \<in> {t @ ''.bin'', t @ ''.bin.dft''}" using assms stateNameRe_iff by blast
  note c = stem_chars[OF t(1)]
  have sub: "set ''.bin'' \<subseteq> set ''.bin.dft''" by auto
  show "\<forall>c\<in>set n. name_char c" using t(2) c suffix_chars sub by auto
  show "n \<noteq> []" "alnum (hd n)" using t(2) c by (auto simp: hd_append)
  have "1 \<le> length t" using c by (cases t) auto
  then show "5 \<le> length n" "length n \<le> 136" using t(2) c by auto
qed

lemma no_part: "stateNameRe n \<Longrightarrow> \<not> stateNameRe (n @ ''.part'')"
proof
  assume "stateNameRe (n @ ''.part'')"
  then obtain t where "n @ ''.part'' \<in> {t @ ''.bin'', t @ ''.bin.dft''}" using stateNameRe_iff by blast
  then have "last (n @ ''.part'') \<in> {CHR ''n'', CHR ''t''} \<and> rev (n @ ''.part'') ! 1 \<in> {CHR ''i'', CHR ''f''}"
    by (auto simp: rev_nth)
  then show False by simp
qed


section \<open>Paths\<close>

lemma split_on_nonempty: "split_on d s \<noteq> []"
  by (induction s) (auto split: list.splits)

lemma split_on_free: "d \<notin> set s \<Longrightarrow> split_on d s = [s]"
  by (induction s) auto

lemma split_on_append: "split_on d (a @ d # b) = split_on d a @ split_on d b"
  by (induction a) (use split_on_nonempty in \<open>auto split: list.splits\<close>)

lemma clean_comps_snoc:
  "n \<noteq> [] \<Longrightarrow> n \<noteq> ''.'' \<Longrightarrow> n \<noteq> ''..'' \<Longrightarrow> clean_comps r acc (cs @ [n]) = clean_comps r acc cs @ [n]"
  by (induction cs arbitrary: acc) (auto split: list.splits)

lemma path_comps_snoc:
  assumes "d \<noteq> []" "CHR ''/'' \<notin> set n" "n \<noteq> []" "n \<noteq> ''.''" "n \<noteq> ''..''"
  shows "path_comps (d @ ''/'' @ n) = path_comps d @ [n]"
  using assms split_on_append[of "CHR ''/''" d n] split_on_free[of "CHR ''/''" n] clean_comps_snoc[OF assms(3-5)]
  by (simp add: path_comps_def is_rooted_def)

lemma join_slash_snoc: "join_slash (cs @ [n]) = (if cs = [] then n else join_slash cs @ ''/'' @ n)"
  by (induction cs rule: join_slash.induct) auto

text \<open>What the cleaned directory puts in front of a name.\<close>

definition dir_prefix :: "string \<Rightarrow> string" where
  "dir_prefix d =
     (if path_comps d = [] then (if is_rooted d then ''/'' else []) else path_clean d @ ''/'')"

lemma path_join_name:
  assumes "d \<noteq> []" "stateNameRe n"
  shows "path_join d n = dir_prefix d @ n" "length d' \<le> length (path_clean d) \<Longrightarrow> d' \<noteq> path_join d n"
proof -
  have ne: "CHR ''/'' \<notin> set n" "n \<noteq> []" "n \<noteq> ''.''" "n \<noteq> ''..''"
    using stateName_chars[OF assms(2)] alnum_dot by auto
  then show eq: "path_join d n = dir_prefix d @ n"
    using assms(1) path_comps_snoc[OF assms(1) ne]
    by (auto simp: path_join_def path_clean_def render_path_def dir_prefix_def join_slash_snoc is_rooted_def)
  show "d' \<noteq> path_join d n" if "length d' \<le> length (path_clean d)"
  proof -
    have "length (path_clean d) < length (path_join d n)"
      using stateName_chars(4)[OF assms(2)] unfolding eq
      by (auto simp: dir_prefix_def path_clean_def render_path_def)
    then show ?thesis using that by auto
  qed
qed

lemma path_prefixes_length: "p \<in> set (path_prefixes acc s) \<Longrightarrow> length p \<le> length acc + length s"
  by (induction s arbitrary: acc) (auto split: if_splits, fastforce)


section \<open>The file system\<close>

lemma os_remove_gone:
  "os_remove io p fs = Inr fs' \<Longrightarrow> map_of fs' p = None \<and> (\<forall>q. q \<noteq> p \<longrightarrow> map_of fs' q = map_of fs q)"
  "os_remove io p fs = Inl NotExist \<Longrightarrow> map_of fs p = None"
  by (auto simp: os_remove_def delete_conv split: option.splits fnode.splits if_splits)

lemma os_mkdirs_frame:
  assumes "os_mkdirs io d fs = Inr fs'" "length d < length q"
  shows "map_of fs' q = map_of fs q"
proof -
  have "\<forall>p\<in>set ps. p \<noteq> q \<Longrightarrow>
      map_of (foldl (\<lambda>fs p. if map_of fs p = None then AList.update p FDir fs else fs) fs ps) q = map_of fs q" for ps fs
    by (induction ps arbitrary: fs) (auto simp: update_conv)
  moreover have "\<forall>p\<in>set (path_prefixes [] d). p \<noteq> q" using path_prefixes_length[of _ "[]" d] assms(2) by fastforce
  ultimately show ?thesis using assms(1) by (auto simp: os_mkdirs_def Let_def split: option.splits if_splits)
qed

lemma kv_copy_frame:
  assumes "kv_copy io tmp broken left i acc cs fs = (tr, d, e)" "q \<noteq> tmp" "fs' \<in> set tr"
  shows "map_of fs' q = map_of fs q"
  using assms
proof (induction cs arbitrary: left i acc fs tr d e)
  case (Cons c cs)
  then show ?case
    by (fastforce simp: Let_def update_conv split: if_splits option.splits prod.splits)
qed auto


lemma kv_copy_result:
  assumes "kv_copy io tmp broken left i acc cs fs = (tr, d, None)" "map_of fs tmp = Some (FFile acc)"
  shows "map_of (last (fs # tr)) tmp = Some (FFile d) \<and> d = acc @ take left (concat cs) \<and>
    (length (concat cs) < left \<longrightarrow> broken = None)"
  using assms
proof (induction cs arbitrary: left i acc fs tr)
  case Nil
  then show ?case by (auto split: if_splits)
next
  case (Cons c cs)
  show ?case
  proof (cases "left = 0")
    case False
    define fs1 where "fs1 = AList.update tmp (FFile (acc @ take left c)) fs"
    obtain tr' where k: "kv_copy io tmp broken (left - length (take left c)) (Suc i) (acc @ take left c) cs fs1 = (tr', d, None)"
      and tr: "tr = fs1 # tr'"
      using Cons.prems(1) False by (auto simp: Let_def fs1_def split: option.splits prod.splits)
    have "map_of fs1 tmp = Some (FFile (acc @ take left c))" by (simp add: fs1_def update_conv)
    note ih = Cons.IH[OF k this]
    show ?thesis using ih tr by (auto simp: min_def split: if_splits)
  qed (use Cons.prems in auto)
qed

definition outcome_ok :: "(bytes \<Rightarrow> bytes) \<Rightarrow> nat \<Rightarrow> fetch_body \<Rightarrow> peer_answer \<Rightarrow> bytes \<Rightarrow> bool" where
  "outcome_ok sha cap body ans d \<longleftrightarrow>
     d = concat (pa_chunks ans) \<and> pa_broken ans = None \<and> length d \<le> cap \<and>
     (fb_SHA256 body = [] \<or> EqualFold (fb_SHA256 body) (concat (map hex_lower (sha d))))"

lemma first_err_None: "first_err es = None \<longleftrightarrow> (\<forall>e\<in>set es. e = None)"
proof (induction es)
  case (Cons e es)
  then show ?case by (cases e) (auto simp: first_err_def)
qed (simp add: first_err_def)

lemma first_err_Some: "first_err es = Some e \<Longrightarrow> Some e \<in> set es"
proof (induction es)
  case (Cons x es)
  then show ?case by (cases x) (auto simp: first_err_def)
qed (simp add: first_err_def)


text \<open>A copied file moves to its final name exactly when nothing failed; else the final name is untouched.\<close>

lemma fetch_end_run:
  assumes "fetch_end io ms name final tmp hash d err fs = (r, fs')" "final \<noteq> tmp" "map_of fs tmp = Some (FFile d)"
  shows "q \<notin> {final, tmp} \<Longrightarrow> map_of fs' q = map_of fs q"
    "resp_status r = 200 \<Longrightarrow> err = None \<and> map_of fs' final = Some (FFile d) \<and> map_of fs' tmp = None"
    "resp_status r \<noteq> 200 \<Longrightarrow> map_of fs' final = map_of fs final"
proof -
  have failed: "map_of (case os_remove io tmp fs of Inl _ \<Rightarrow> fs | Inr fs' \<Rightarrow> fs') q = map_of fs q" if "q \<noteq> tmp" for q
    using os_remove_gone(1)[of io tmp fs] that by (auto split: sum.splits)
  have moved: "os_rename io tmp final fs = Inr fs1 \<Longrightarrow> fs1 = AList.update final (FFile d) (AList.delete tmp fs)" for fs1
    using assms(3) by (auto simp: os_rename_def split: option.splits fnode.splits)
  show "q \<notin> {final, tmp} \<Longrightarrow> map_of fs' q = map_of fs q"
    "resp_status r = 200 \<Longrightarrow> err = None \<and> map_of fs' final = Some (FFile d) \<and> map_of fs' tmp = None"
    "resp_status r \<noteq> 200 \<Longrightarrow> map_of fs' final = map_of fs final"
    using assms(1,2) failed moved
    by (auto simp: fetch_end_def Let_def resp_status_def update_conv delete_conv split: option.splits sum.splits)
qed

lemma fetch_check_None:
  assumes "fetch_check io cap tmp (fb_SHA256 body) (concat (map hex_lower (sha d))) d e = None"
    "kv_copy io tmp (pa_broken ans) (cap + 1) 0 [] (pa_chunks ans) fs = (tr, d, e)" "map_of fs tmp = Some (FFile [])"
  shows "outcome_ok sha cap body ans d"
proof -
  have "e = None" "length d \<le> cap" "fb_SHA256 body = [] \<or> EqualFold (fb_SHA256 body) (concat (map hex_lower (sha d)))"
    using assms(1) by (auto simp: fetch_check_def first_err_None split: if_splits)
  then show ?thesis using kv_copy_result[of io tmp "pa_broken ans" "cap + 1" 0 "[]" "pa_chunks ans" fs tr d] assms(2,3)
    by (auto simp: outcome_ok_def)
qed

text \<open>Whatever the copy did, the temporary file holds the bytes it counted.\<close>

lemma kv_copy_tmp:
  "kv_copy io tmp broken left i acc cs fs = (tr, d, e) \<Longrightarrow> map_of fs tmp = Some (FFile acc) \<Longrightarrow>
     map_of (last (fs # tr)) tmp = Some (FFile d)"
  by (induction cs arbitrary: left i acc fs tr)
    (auto simp: Let_def update_conv split: if_splits option.splits prod.splits)

lemma fetch_store_run:
  assumes "fetch_store io sha cap ms dir body ans fs = (r, tr)"
    and "final = path_join dir (fb_Name body)" "tmp = final @ ''.part''"
  shows "\<forall>st\<in>set tr. \<forall>q. q \<notin> {final, tmp} \<longrightarrow> map_of st q = map_of fs q" (is ?A)
    and "\<forall>st\<in>set tr. map_of st final = map_of fs final \<or>
      resp_status r = 200 \<and> (\<exists>d. outcome_ok sha cap body ans d \<and> map_of st final = Some (FFile d))" (is ?B)
    and "resp_status r = 200 \<Longrightarrow> tr \<noteq> [] \<and> map_of (last tr) tmp = None \<and>
      (\<exists>d. outcome_ok sha cap body ans d \<and> map_of (last tr) final = Some (FFile d))"
    and "resp_status r \<noteq> 200 \<Longrightarrow> map_of (last (fs # tr)) final = map_of fs final"
proof -
  have ne: "final \<noteq> tmp" using assms(3) by simp
  have "?A \<and> ?B \<and> (resp_status r = 200 \<longrightarrow> tr \<noteq> [] \<and> map_of (last tr) tmp = None \<and>
      (\<exists>d. outcome_ok sha cap body ans d \<and> map_of (last tr) final = Some (FFile d))) \<and>
    (resp_status r \<noteq> 200 \<longrightarrow> map_of (last (fs # tr)) final = map_of fs final)"
  proof (cases "os_create io tmp fs")
    case (Inl e)
    then show ?thesis using assms by (auto simp: fetch_store_def Let_def resp_status_def)
  next
    case (Inr fs1)
    then have fs1: "map_of fs1 tmp = Some (FFile [])" "\<And>q. q \<noteq> tmp \<Longrightarrow> map_of fs1 q = map_of fs q"
      by (auto simp: os_create_def update_conv split: option.splits if_splits)
    obtain tr1 d e where k: "kv_copy io tmp (pa_broken ans) (cap + 1) 0 [] (pa_chunks ans) fs1 = (tr1, d, e)"
      using prod_cases3 by blast
    have mid: "map_of st q = map_of fs q" if "st \<in> set (fs1 # tr1)" "q \<noteq> tmp" for st q
      using that fs1(2) kv_copy_frame[OF k that(2)] by auto
    have last: "map_of (last (fs1 # tr1)) q = map_of fs q" if "q \<noteq> tmp" for q by (rule mid) (use that in auto)
    obtain r' fs' where f: "fetch_end io ms (fb_Name body) final tmp (concat (map hex_lower (sha d))) d
        (fetch_check io cap tmp (fb_SHA256 body) (concat (map hex_lower (sha d))) d e) (last (fs1 # tr1)) = (r', fs')" by fastforce
    then have rt: "r = r'" "tr = fs1 # tr1 @ [fs']" using assms Inr k by (auto simp: fetch_store_def Let_def simp del: last.simps)
    note ran = fetch_end_run[OF f ne kv_copy_tmp[OF k fs1(1)], folded rt(1)]
    have good: "resp_status r = 200 \<Longrightarrow> outcome_ok sha cap body ans d" using ran(2) fetch_check_None[OF _ k fs1(1), of body sha] by blast
    have in_tr: "st \<in> set (fs1 # tr1) \<or> st = fs'" if "st \<in> set tr" for st using that rt(2) by auto
    have "?A" using in_tr mid ran(1) last by (metis insertCI)
    moreover have "?B" using in_tr mid ran(2,3) last[OF ne] good ne by metis
    moreover have "last tr = fs'" "tr \<noteq> []" "last (fs # tr) = fs'" using rt(2) by auto
    ultimately show ?thesis using ran(2,3) good last[OF ne] by metis
  qed
  then show ?A ?B
    "resp_status r = 200 \<Longrightarrow> tr \<noteq> [] \<and> map_of (last tr) tmp = None \<and>
      (\<exists>d. outcome_ok sha cap body ans d \<and> map_of (last tr) final = Some (FFile d))"
    "resp_status r \<noteq> 200 \<Longrightarrow> map_of (last (fs # tr)) final = map_of fs final" by blast+
qed



section \<open>Properties\<close>

text \<open>
  Name confinement. A name a peer may address is one path component: it has no slash, no \<^verbatim>\<open>..\<close>, starts with
  a letter or digit and has at most 136 bytes. Whatever the configured directory looks like, it joins to that
  directory followed by the name, so two names never meet in one file and none leaves the directory; and the
  temporary file of a fetch is not a name a peer may address.
\<close>

theorem validStateName_confined:
  assumes "validStateName n" "d \<noteq> []"
  shows "CHR ''/'' \<notin> set n \<and> \<not> contains n ''..'' \<and> alnum (hd n) \<and> length n \<le> 136 \<and>
    path_join d n = dir_prefix d @ n \<and> \<not> validStateName (n @ ''.part'') \<and>
    (\<forall>m. validStateName m \<longrightarrow> path_join d m = path_join d n \<longrightarrow> m = n)"
proof -
  have n: "stateNameRe n" "\<not> contains n ''..''" using assms(1) by (auto simp: validStateName_def)
  have "path_join d m = dir_prefix d @ m" if "validStateName m" for m
    using path_join_name(1)[OF assms(2)] that by (simp add: validStateName_def)
  then show ?thesis using stateName_chars[OF n(1)] n alnum_dot no_part[OF n(1)] assms(1) by (auto simp: validStateName_def)
qed

theorem validStateName_confined_witness:
  "validStateName ''sf-0a1b-17.bin'' \<and> path_join ''/var/kv/../state'' ''sf-0a1b-17.bin'' = ''/var/state/sf-0a1b-17.bin'' \<and>
   \<not> validStateName (''sf-0a1b-17.bin'' @ ''.part'') \<and> \<not> validStateName ''../x.bin''"
proof -
  have v: "validStateName ''sf-0a1b-17.bin''"
    by (simp add: validStateName_def stateNameRe_def strip_end_def stem_ok_def name_char_def alnum_def byte_of_def starts_def)
  have d: "dir_prefix ''/var/kv/../state'' = ''/var/state/''"
    by (simp add: dir_prefix_def path_comps_def path_clean_def render_path_def is_rooted_def)
  have "\<not> validStateName ''../x.bin''"
    by (simp add: validStateName_def starts_def)
  then show ?thesis using validStateName_confined[OF v, of "''/var/kv/../state''"] v d by simp
qed

text \<open>
  What the file handler touches. Whatever the method and the URL, only a file directly in the configured
  directory under a valid name can change, and only by DELETE; an answer of 200 or 404 to a DELETE of a valid
  name means the file is not there any more, and a GET that is answered 200 returns what the file holds.
\<close>

theorem kvFile_confined:
  assumes "kvFile io dir meth url fs = (r, fs')"
  shows "(\<forall>q. map_of fs' q \<noteq> map_of fs q \<longrightarrow>
      meth = ''DELETE'' \<and> dir \<noteq> [] \<and> map_of fs' q = None \<and>
      (\<exists>n. validStateName n \<and> url = ''/kv/'' @ n \<or> validStateName n \<and> url = n) \<and> q = dir_prefix dir @ trim_prefix ''/kv/'' url) \<and>
    (meth = ''DELETE'' \<and> resp_status r \<in> {200, 404} \<longrightarrow> map_of fs' (path_join dir (trim_prefix ''/kv/'' url)) = None) \<and>
    (\<forall>n d. r = ContentResp n d \<longrightarrow> fs' = fs \<and> map_of fs (path_join dir n) = Some (FFile d))"
proof -
  define n where "n = trim_prefix ''/kv/'' url"
  have u: "url = ''/kv/'' @ n \<or> url = n"
  proof (cases "starts ''/kv/'' url")
    case True
    then have "url = ''/kv/'' @ drop (length ''/kv/'') url" unfolding starts_def by (metis append_take_drop_id)
    then show ?thesis using True unfolding n_def trim_prefix_def by presburger
  qed (simp add: n_def trim_prefix_def)
  show ?thesis
  proof (cases "validStateName n \<and> dir \<noteq> [] \<and> meth = ''DELETE''")
    case True
    then have p: "path_join dir n = dir_prefix dir @ n" using path_join_name(1)[of dir n] by (simp add: validStateName_def)
    show ?thesis
    proof (cases "os_remove io (path_join dir n) fs")
      case (Inl e)
      then show ?thesis using assms True os_remove_gone(2)[of io "path_join dir n" fs]
        by (cases e) (auto simp: kvFile_def Let_def n_def[symmetric] resp_status_def)
    next
      case (Inr fs1)
      then have "fs' = fs1" "\<exists>s b. r = JsonResp s b" using assms True by (auto simp: kvFile_def Let_def n_def[symmetric])
      then show ?thesis using os_remove_gone(1)[OF Inr] True u p unfolding n_def[symmetric] by (metis http_resp.distinct(1))
    qed
  next
    case False
    then show ?thesis using assms
      by (auto simp: kvFile_def Let_def n_def[symmetric] resp_status_def split: if_splits option.splits fnode.splits)
  qed
qed


definition calm_io :: io_env where
  "calm_io = \<lparr>io_err = \<lambda>_. None, io_short = \<lambda>_. 0\<rparr>"

lemma demo_name: "validStateName ''a.bin''" "path_join ''/kv'' ''a.bin'' = ''/kv/a.bin''"
  by (simp_all add: validStateName_def stateNameRe_def strip_end_def stem_ok_def name_char_def alnum_def byte_of_def starts_def
      path_join_def path_clean_def path_comps_def render_path_def is_rooted_def)

theorem kvFile_confined_witness:
  "\<exists>r fs'. kvFile calm_io ''/kv'' ''DELETE'' ''/kv/a.bin'' [(''/kv/a.bin'', FFile [1]), (''/kv/b.bin'', FFile [2])] = (r, fs') \<and>
     resp_status r = 200 \<and> map_of fs' ''/kv/a.bin'' = None"
proof -
  define fs :: fs where "fs = [(''/kv/a.bin'', FFile [1]), (''/kv/b.bin'', FFile [2])]"
  have "kvFile calm_io ''/kv'' ''DELETE'' ''/kv/a.bin'' fs = (JsonResp 200 [(''ok'', Bool True)], [(''/kv/b.bin'', FFile [2])])"
    by (simp add: kvFile_def trim_prefix_def starts_def demo_name os_remove_def calm_io_def fs_def)
  from kvFile_confined[OF this] show ?thesis unfolding fs_def[symmetric]
    using \<open>kvFile calm_io ''/kv'' ''DELETE'' ''/kv/a.bin'' fs = _\<close>
    by (simp add: resp_status_def)
qed

text \<open>
  C31. A fetch is atomic. Whatever fails and whenever the process stops, every state the file system goes through
  holds under the final name what was there before or, in a fetch answered 200, the whole answer of the peer, within
  the size limit and with the requested hash; a fetch not answered 200 leaves the final name as it was, one answered
  200 leaves no temporary file. The configured directory is a cleaned path.
\<close>

theorem controlKVFetch_atomic:
  assumes "path_clean dir = dir" "controlKVFetch io sha get ms dir meth body fs = (r, tr)"
    and "final = path_join dir (fb_Name body)"
  shows "(\<forall>st\<in>set tr. map_of st final = map_of fs final \<or>
      resp_status r = 200 \<and>
      (\<exists>ans d. get (fb_URL body) = Inr ans \<and> outcome_ok sha maxStateBytes body ans d \<and> map_of st final = Some (FFile d))) \<and>
    (resp_status r = 200 \<longrightarrow> validStateName (fb_Name body) \<and> tr \<noteq> [] \<and> map_of (last tr) (final @ ''.part'') = None \<and>
      (\<exists>ans d. get (fb_URL body) = Inr ans \<and> outcome_ok sha maxStateBytes body ans d \<and> map_of (last tr) final = Some (FFile d))) \<and>
    (resp_status r \<noteq> 200 \<longrightarrow> map_of (last (fs # tr)) final = map_of fs final)"
proof (cases "tr = []")
  case True
  then show ?thesis using assms(2)
    by (auto simp: controlKVFetch_def Let_def resp_status_def split: if_splits sum.splits prod.splits)
next
  case False
  then obtain fs0 where v: "validStateName (fb_Name body)" "dir \<noteq> []" and m: "os_mkdirs io dir fs = Inr fs0"
    using assms(2) by (auto simp: controlKVFetch_def Let_def split: if_splits sum.splits)
  have len: "length dir < length final"
    using path_join_name[OF v(2), of "fb_Name body"] v(1) assms(1,3) by (metis linorder_not_le validStateName_def)
  have fin: "map_of fs0 final = map_of fs final" by (rule os_mkdirs_frame[OF m len])
  show ?thesis
  proof (cases "\<exists>ans. get (fb_URL body) = Inr ans \<and> pa_code ans = 200")
    case False
    then have "tr = [fs0]" "resp_status r \<noteq> 200"
      using assms(2) v m \<open>tr \<noteq> []\<close> by (auto simp: controlKVFetch_def Let_def resp_status_def split: if_splits sum.splits)
    then show ?thesis using fin by simp
  next
    case True
    then obtain ans where a: "get (fb_URL body) = Inr ans" "pa_code ans = 200" by blast
    obtain tr1 where f: "fetch_store io sha maxStateBytes ms dir body ans fs0 = (r, tr1)" and tr: "tr = fs0 # tr1"
      using assms(2) v m a \<open>tr \<noteq> []\<close> by (auto simp: controlKVFetch_def Let_def split: if_splits prod.splits)
    note run = fetch_store_run(2-4)[OF f assms(3) refl]
    have "last (fs # tr) = last (fs0 # tr1)" using tr by simp
    then show ?thesis using run v(1) a(1) fin tr by auto
  qed
qed

theorem controlKVFetch_atomic_witness:
  "\<exists>r tr. controlKVFetch calm_io (\<lambda>_. []) (\<lambda>_. Inr \<lparr>pa_code = 200, pa_status = ''200 OK'', pa_chunks = [[1, 2], [3]], pa_broken = None\<rparr>) 0
      ''/kv'' ''POST'' \<lparr>fb_URL = ''http://n/kv/a.bin'', fb_Name = ''a.bin'', fb_SHA256 = []\<rparr> [(''/kv/a.bin'', FFile [9])] = (r, tr) \<and>
    resp_status r = 200 \<and> map_of (last tr) ''/kv/a.bin'' = Some (FFile [1, 2, 3])"
proof -
  define ans where "ans = \<lparr>pa_code = 200, pa_status = ''200 OK'', pa_chunks = [[1, 2], [3]] :: bytes list, pa_broken = None\<rparr>"
  define body where "body = \<lparr>fb_URL = ''http://n/kv/a.bin'', fb_Name = ''a.bin'', fb_SHA256 = []\<rparr>"
  have clean: "path_clean ''/kv'' = ''/kv''" by (simp add: path_clean_def path_comps_def render_path_def is_rooted_def)
  obtain r tr where c: "controlKVFetch calm_io (\<lambda>_. []) (\<lambda>_. Inr ans) 0 ''/kv'' ''POST'' body [(''/kv/a.bin'', FFile [9])] = (r, tr)"
    and r: "resp_status r = 200"
    by (simp add: controlKVFetch_def fetch_store_def fetch_check_def fetch_end_def body_def ans_def demo_name starts_def os_mkdirs_def
        os_create_def os_rename_def calm_io_def maxStateBytes_def first_err_def resp_status_def Let_def)
  from controlKVFetch_atomic[OF clean c, of "''/kv/a.bin''"] r
  have "map_of (last tr) ''/kv/a.bin'' = Some (FFile [1, 2, 3])"
    by (simp add: body_def ans_def demo_name outcome_ok_def)
  then show ?thesis using c r unfolding ans_def body_def by blast
qed

end
