(* ===== verification/Kv_Janitor.thy ===== *)
theory Kv_Janitor
  imports Kv_State "HOL-Library.List_Lexorder" "HOL-Library.Char_ord"
begin

text \<open>
  \<^verbatim>\<open>internal/coordinator/kvjanitor.go\<close>: the list of handoff states that may still lie on a node. The first part
  models the functions; the second interleaves them with the nodes, which finish a write in their own time, and with
  crashes of the coordinator. The JSON file of the list is the list it encodes, or \<open>Torn\<close> when it is not a
  whole document. Instants are milliseconds.
\<close>

definition kvOrphanAge :: float64 where "kvOrphanAge = 3600000"

record kvPending =
  Ctls :: "string list"
  Since :: float64

type_synonym gc_list = "(string \<times> kvPending) list"

datatype pend_file = Good gc_list | Torn

text \<open>The file and its temporary sibling.\<close>

record pend_disk =
  d_file :: "pend_file option"
  d_tmp :: "pend_file option"

text \<open>The fields of \<^verbatim>\<open>kvPipe\<close> the janitor uses.\<close>

record janitor =
  k_gc :: gc_list
  k_gcPath :: string
  k_decodeCtl :: string
  k_prefillCtl :: string

text \<open>How the operating system answers one save: nothing written, a partial file, no rename, or all of it.\<close>

datatype save_io = CreateFails | WriteFails | RenameFails | Saved


section \<open>Functions\<close>

definition saveGCLocked :: "save_io \<Rightarrow> janitor \<Rightarrow> pend_disk \<Rightarrow> pend_disk" where
  "saveGCLocked sio k d =
     (if k_gcPath k = [] then d
      else case sio of
             CreateFails \<Rightarrow> d
           | WriteFails \<Rightarrow> d\<lparr>d_tmp := Some Torn\<rparr>
           | RenameFails \<Rightarrow> d\<lparr>d_tmp := Some (Good (k_gc k))\<rparr>
           | Saved \<Rightarrow> d\<lparr>d_file := Some (Good (k_gc k)), d_tmp := None\<rparr>)"

definition ctl_list :: "string list \<Rightarrow> string list" where
  "ctl_list ctls = foldl (\<lambda>cs c. if c \<noteq> [] \<and> c \<notin> set cs then cs @ [c] else cs) [] ctls"

definition track :: "save_io \<Rightarrow> float64 \<Rightarrow> string \<Rightarrow> string list \<Rightarrow> janitor \<Rightarrow> pend_disk \<Rightarrow> janitor \<times> pend_disk" where
  "track sio now name ctls k d =
     (let k = k\<lparr>k_gc := AList.update name \<lparr>Ctls = ctl_list ctls, Since = now\<rparr> (k_gc k)\<rparr>
      in (k, saveGCLocked sio k d))"

definition ctlsOf :: "janitor \<Rightarrow> string \<Rightarrow> string list" where
  "ctlsOf k name =
     (case map_of (k_gc k) name of
        Some p \<Rightarrow> if Ctls p \<noteq> [] then Ctls p else [k_decodeCtl k, k_prefillCtl k]
      | None \<Rightarrow> [k_decodeCtl k, k_prefillCtl k])"

text \<open>\<open>del url\<close> is the status a DELETE of the URL is answered with, \<open>None\<close> when there is no answer.\<close>

definition confirmed :: "nat option \<Rightarrow> bool" where
  "confirmed a = (case a of Some s \<Rightarrow> s div 100 = 2 \<or> s = 404 | None \<Rightarrow> False)"

definition deleteState :: "(string \<Rightarrow> nat option) \<Rightarrow> string \<Rightarrow> string \<Rightarrow> bool" where
  "deleteState del base name = confirmed (del (base @ ''/kv/'' @ name))"

definition sidecar :: "string \<Rightarrow> string" where
  "sidecar name = name @ ''.dft''"

definition purge_todo :: "janitor \<Rightarrow> string \<Rightarrow> (string \<times> string) list" where
  "purge_todo k name = concat (map (\<lambda>base. [(base, name), (base, sidecar name)]) (ctlsOf k name))"

definition purge_forget :: "save_io \<Rightarrow> string \<Rightarrow> janitor \<Rightarrow> pend_disk \<Rightarrow> janitor \<times> pend_disk" where
  "purge_forget sio name k d =
     (if map_of (k_gc k) name \<noteq> None then
        let k = k\<lparr>k_gc := AList.delete name (k_gc k)\<rparr> in (k, saveGCLocked sio k d)
      else (k, d))"

definition purge :: "(string \<Rightarrow> nat option) \<Rightarrow> save_io \<Rightarrow> string \<Rightarrow> janitor \<Rightarrow> pend_disk \<Rightarrow> bool \<times> janitor \<times> pend_disk" where
  "purge del sio name k d =
     (let ok = foldl (\<lambda>ok (base, n). if \<not> deleteState del base n then False else ok) True (purge_todo k name)
      in (ok, if ok then purge_forget sio name k d else (k, d)))"

text \<open>The loop of \<^verbatim>\<open>sweep\<close> over the names it collected.\<close>

fun sweep_loop ::
  "(string \<Rightarrow> nat option) \<Rightarrow> (string \<Rightarrow> save_io) \<Rightarrow> string list \<Rightarrow> janitor \<Rightarrow> pend_disk \<Rightarrow> nat \<Rightarrow> nat \<Rightarrow>
   (nat \<times> nat) \<times> janitor \<times> pend_disk" where
  "sweep_loop del sio [] k d gone left = ((gone, left), k, d)"
| "sweep_loop del sio (n # ns) k d gone left =
     (let (ok, k, d) = purge del (sio n) n k d
      in if ok then sweep_loop del sio ns k d (Suc gone) left else sweep_loop del sio ns k d gone (Suc left))"

definition sweep_names :: "float64 \<Rightarrow> float64 \<Rightarrow> janitor \<Rightarrow> string list" where
  "sweep_names now minAge k = sort (map fst (filter (\<lambda>(n, p). now - Since p \<ge> minAge) (k_gc k)))"

definition sweep ::
  "(string \<Rightarrow> nat option) \<Rightarrow> (string \<Rightarrow> save_io) \<Rightarrow> float64 \<Rightarrow> float64 \<Rightarrow> janitor \<Rightarrow> pend_disk \<Rightarrow> (nat \<times> nat) \<times> janitor \<times> pend_disk" where
  "sweep del sio now minAge k d = sweep_loop del sio (sweep_names now minAge k) k d 0 0"

definition load_pending :: "gc_list \<Rightarrow> gc_list \<Rightarrow> gc_list" where
  "load_pending m g = foldl (\<lambda>g (n, p). if validStateName n then AList.update n p g else g) g m"

text \<open>\<^verbatim>\<open>startJanitor\<close> up to the goroutine, which is a \<open>sweep\<close> with age 0 and then one per tick.\<close>

definition startJanitor :: "string \<Rightarrow> pend_disk \<Rightarrow> janitor \<Rightarrow> janitor" where
  "startJanitor path d k =
     (let k = k\<lparr>k_gcPath := path\<rparr>
      in case d_file d of
           Some (Good m) \<Rightarrow> k\<lparr>k_gc := load_pending m (k_gc k)\<rparr>
         | _ \<Rightarrow> k)"


section \<open>The janitor among the nodes\<close>

text \<open>
  \<open>js_files\<close> are the states that lie on the nodes, as pairs of an agent and a file name; \<open>js_late\<close> are the writes a
  node has accepted and not finished, of a save or of a fetch; \<open>js_live\<close> are the handoffs under way. A purge under way
  keeps the deletes it has not sent yet and whether all of them were confirmed so far.
\<close>

record purge_run =
  pr_name :: string
  pr_todo :: "(string \<times> string) list"
  pr_ok :: bool

record jan_sys =
  js_k :: janitor
  js_disk :: pend_disk
  js_files :: "(string \<times> string) set"
  js_late :: "(string \<times> string) set"
  js_live :: "string set"
  js_purges :: "purge_run list"

definition drop_nth :: "nat \<Rightarrow> 'a list \<Rightarrow> 'a list" where
  "drop_nth i xs = take i xs @ drop (Suc i) xs"

text \<open>
  A delete that is confirmed leaves no file; one that is not may have removed it or not. In a calm history
  every save of the list succeeds and a state is purged only when no write of it is under way any more.
\<close>

inductive jan_step :: "bool \<Rightarrow> jan_sys \<Rightarrow> jan_sys \<Rightarrow> bool" for calm where
  begins:
    "validStateName n \<Longrightarrow> map_of (k_gc (js_k s)) n = None \<Longrightarrow> \<forall>r\<in>set (js_purges s). pr_name r \<noteq> n \<Longrightarrow>
     ctl_list ctls \<noteq> [] \<Longrightarrow> calm \<longrightarrow> sio = Saved \<Longrightarrow> track sio now n ctls (js_k s) (js_disk s) = (k, d) \<Longrightarrow>
     jan_step calm s (s\<lparr>js_k := k, js_disk := d, js_live := insert n (js_live s)\<rparr>)"
| accepts:
    "n \<in> js_live s \<Longrightarrow> map_of (k_gc (js_k s)) n = Some p \<Longrightarrow> c \<in> set (Ctls p) \<Longrightarrow> f \<in> {n, sidecar n} \<Longrightarrow>
     jan_step calm s (s\<lparr>js_late := insert (c, f) (js_late s)\<rparr>)"
| lands:
    "(c, f) \<in> js_late s \<Longrightarrow>
     jan_step calm s (s\<lparr>js_late := js_late s - {(c, f)}, js_files := insert (c, f) (js_files s)\<rparr>)"
| gives_up: "(c, f) \<in> js_late s \<Longrightarrow> jan_step calm s (s\<lparr>js_late := js_late s - {(c, f)}\<rparr>)"
| purges:
    "calm \<longrightarrow> (\<forall>(c, f)\<in>js_late s. f \<notin> {n, sidecar n}) \<Longrightarrow>
     jan_step calm s (s\<lparr>js_live := js_live s - {n},
       js_purges := js_purges s @ [\<lparr>pr_name = n, pr_todo = purge_todo (js_k s) n, pr_ok = True\<rparr>]\<rparr>)"
| deletes:
    "i < length (js_purges s) \<Longrightarrow> js_purges s ! i = \<lparr>pr_name = n, pr_todo = (c, f) # todo, pr_ok = ok\<rparr> \<Longrightarrow>
     files = js_files s - {(c, f)} \<or> \<not> confirmed answer \<and> files = js_files s \<Longrightarrow>
     jan_step calm s (s\<lparr>js_files := files,
       js_purges := (js_purges s)[i := \<lparr>pr_name = n, pr_todo = todo, pr_ok = ok \<and> confirmed answer\<rparr>]\<rparr>)"
| finishes:
    "i < length (js_purges s) \<Longrightarrow> js_purges s ! i = \<lparr>pr_name = n, pr_todo = [], pr_ok = ok\<rparr> \<Longrightarrow> calm \<longrightarrow> sio = Saved \<Longrightarrow>
     (k, d) = (if ok then purge_forget sio n (js_k s) (js_disk s) else (js_k s, js_disk s)) \<Longrightarrow>
     jan_step calm s (s\<lparr>js_k := k, js_disk := d, js_purges := drop_nth i (js_purges s)\<rparr>)"
| restarts:
    "jan_step calm s (s\<lparr>js_k := startJanitor (k_gcPath (js_k s)) (js_disk s) ((js_k s)\<lparr>k_gc := []\<rparr>),
       js_live := {}, js_purges := []\<rparr>)"

inductive_cases jan_stepE: "jan_step calm s s'"

definition jan_init :: "string \<Rightarrow> string \<Rightarrow> string \<Rightarrow> jan_sys" where
  "jan_init path dctl pctl =
     \<lparr>js_k = \<lparr>k_gc = [], k_gcPath = path, k_decodeCtl = dctl, k_prefillCtl = pctl\<rparr>, js_disk = \<lparr>d_file = None, d_tmp = None\<rparr>,
      js_files = {}, js_late = {}, js_live = {}, js_purges = []\<rparr>"

inductive jan_reach :: "bool \<Rightarrow> jan_sys \<Rightarrow> jan_sys \<Rightarrow> bool" for calm where
  start: "jan_reach calm s s"
| onward: "jan_reach calm s t \<Longrightarrow> jan_step calm t u \<Longrightarrow> jan_reach calm s u"



section \<open>The invariant\<close>

definition tracked :: "gc_list \<Rightarrow> string \<Rightarrow> string \<Rightarrow> string \<Rightarrow> bool" where
  "tracked g n c f \<longleftrightarrow> (\<exists>p. map_of g n = Some p \<and> c \<in> set (Ctls p)) \<and> f \<in> {n, sidecar n}"

definition gc_ok :: "gc_list \<Rightarrow> bool" where
  "gc_ok g \<longleftrightarrow> distinct (map fst g) \<and> (\<forall>(n, p)\<in>set g. validStateName n \<and> Ctls p \<noteq> [])"

definition disk_ok :: "janitor \<Rightarrow> pend_disk \<Rightarrow> bool" where
  "disk_ok k d \<longleftrightarrow> k_gcPath k \<noteq> [] \<and> gc_ok (k_gc k) \<and>
     (case d_file d of
        None \<Rightarrow> k_gc k = []
      | Some (Good g) \<Rightarrow> gc_ok g \<and> map_of g = map_of (k_gc k)
      | Some Torn \<Rightarrow> False)"

definition late_ok :: "gc_list \<Rightarrow> purge_run list \<Rightarrow> string \<Rightarrow> string \<Rightarrow> bool" where
  "late_ok g ps c f \<longleftrightarrow> (\<exists>n. tracked g n c f \<and> (\<forall>r\<in>set ps. pr_name r \<noteq> n))"

definition file_ok :: "gc_list \<Rightarrow> purge_run list \<Rightarrow> string \<Rightarrow> string \<Rightarrow> bool" where
  "file_ok g ps c f \<longleftrightarrow>
     (\<exists>n. tracked g n c f \<and> (\<forall>r\<in>set ps. pr_name r = n \<longrightarrow> pr_ok r \<longrightarrow> (c, f) \<in> set (pr_todo r)))"

definition live_ok :: "gc_list \<Rightarrow> purge_run list \<Rightarrow> string \<Rightarrow> bool" where
  "live_ok g ps n \<longleftrightarrow> map_of g n \<noteq> None \<and> (\<forall>r\<in>set ps. pr_name r \<noteq> n)"

definition jan_inv :: "jan_sys \<Rightarrow> bool" where
  "jan_inv s \<longleftrightarrow>
     disk_ok (js_k s) (js_disk s) \<and>
     (\<forall>c f. (c, f) \<in> js_late s \<longrightarrow> late_ok (k_gc (js_k s)) (js_purges s) c f) \<and>
     (\<forall>c f. (c, f) \<in> js_files s \<longrightarrow> file_ok (k_gc (js_k s)) (js_purges s) c f) \<and>
     (\<forall>n. n \<in> js_live s \<longrightarrow> live_ok (k_gc (js_k s)) (js_purges s) n)"

lemma gc_ok_update: "gc_ok g \<Longrightarrow> validStateName n \<Longrightarrow> Ctls p \<noteq> [] \<Longrightarrow> gc_ok (AList.update n p g)"
proof -
  assume a: "gc_ok g" "validStateName n" "Ctls p \<noteq> []"
  have "set (AList.update n p g) \<subseteq> insert (n, p) (set g)" by (induction g) auto
  then show ?thesis using a distinct_update[of g n p] by (auto simp: gc_ok_def)
qed

lemma gc_ok_delete: "gc_ok g \<Longrightarrow> gc_ok (AList.delete n g)"
  using distinct_delete[of g n] by (auto simp: gc_ok_def AList.delete_eq)

lemma gc_ok_lookup: "gc_ok g \<Longrightarrow> map_of g n = Some p \<Longrightarrow> validStateName n \<and> Ctls p \<noteq> []"
  unfolding gc_ok_def by (drule map_of_SomeD) blast

lemma load_pending_ok:
  assumes "gc_ok m" "gc_ok g"
  shows "gc_ok (load_pending m g) \<and> map_of (load_pending m g) = map_of g ++ map_of m"
  using assms
proof (induction m arbitrary: g)
  case (Cons x m)
  obtain n p where x: "x = (n, p)" by fastforce
  have ok: "validStateName n" "Ctls p \<noteq> []" "gc_ok m" "n \<notin> fst ` set m" using Cons.prems(1) x by (auto simp: gc_ok_def)
  have "load_pending (x # m) g = load_pending m (AList.update n p g)" using ok x by (simp add: load_pending_def)
  moreover have "map_of m n = None" using ok(4) by (simp add: map_of_eq_None_iff)
  then have "map_of (AList.update n p g) ++ map_of m = map_of g ++ map_of (x # m)"
    using x by (auto simp: update_conv' map_add_def fun_eq_iff split: option.splits)
  ultimately show ?case using Cons.IH[OF ok(3) gc_ok_update[OF Cons.prems(2) ok(1,2)]] by metis
qed (simp add: load_pending_def)

lemma saved_ok:
  "k_gcPath k \<noteq> [] \<Longrightarrow> gc_ok (k_gc k) \<Longrightarrow> disk_ok k (saveGCLocked Saved k d)"
  by (simp add: disk_ok_def saveGCLocked_def)

lemma purge_todo_covers: "gc_ok (k_gc k) \<Longrightarrow> tracked (k_gc k) n c f \<Longrightarrow> (c, f) \<in> set (purge_todo k n)"
  by (auto simp: tracked_def purge_todo_def ctlsOf_def dest: gc_ok_lookup)

lemma tracked_update: "map_of g n = None \<Longrightarrow> tracked g m c f \<Longrightarrow> tracked (AList.update n p g) m c f"
  by (auto simp: tracked_def update_conv)

lemma tracked_delete: "m \<noteq> n \<Longrightarrow> tracked (AList.delete n g) m c f \<longleftrightarrow> tracked g m c f"
  by (auto simp: tracked_def delete_conv)

lemma set_drop_nth: "set (drop_nth i xs) \<subseteq> set xs"
  by (auto simp: drop_nth_def dest: in_set_takeD in_set_dropD)

lemma set_update_cases: "r \<in> set (xs[i := x]) \<Longrightarrow> r = x \<or> r \<in> set xs"
  using set_update_subset_insert[of xs i x] by auto

text \<open>How the three predicates follow the purges and the list.\<close>

lemma ok_fewer_purges:
  assumes "set ps' \<subseteq> set ps"
  shows "late_ok g ps c f \<Longrightarrow> late_ok g ps' c f" "file_ok g ps c f \<Longrightarrow> file_ok g ps' c f" "live_ok g ps n \<Longrightarrow> live_ok g ps' n"
  using assms unfolding late_ok_def file_ok_def live_ok_def by blast+

lemma late_file_ok: "late_ok g ps c f \<Longrightarrow> file_ok g ps c f"
  unfolding late_ok_def file_ok_def by blast

lemma ok_tracked_mono:
  assumes "\<And>m c f. tracked g m c f \<Longrightarrow> tracked g' m c f" "\<And>m. map_of g m \<noteq> None \<Longrightarrow> map_of g' m \<noteq> None"
  shows "late_ok g ps c f \<Longrightarrow> late_ok g' ps c f" "file_ok g ps c f \<Longrightarrow> file_ok g' ps c f" "live_ok g ps n \<Longrightarrow> live_ok g' ps n"
  using assms unfolding late_ok_def file_ok_def live_ok_def by blast+

lemma ok_new_purge:
  assumes "gc_ok (k_gc k)" "r = \<lparr>pr_name = n, pr_todo = purge_todo k n, pr_ok = True\<rparr>"
  shows "late_ok (k_gc k) ps c f \<Longrightarrow> f \<notin> {n, sidecar n} \<Longrightarrow> late_ok (k_gc k) (ps @ [r]) c f"
    "file_ok (k_gc k) ps c f \<Longrightarrow> file_ok (k_gc k) (ps @ [r]) c f"
    "live_ok (k_gc k) ps m \<Longrightarrow> m \<noteq> n \<Longrightarrow> live_ok (k_gc k) (ps @ [r]) m"
proof -
  show "late_ok (k_gc k) ps c f \<Longrightarrow> f \<notin> {n, sidecar n} \<Longrightarrow> late_ok (k_gc k) (ps @ [r]) c f"
    using assms(2) unfolding late_ok_def tracked_def by auto
  show "file_ok (k_gc k) ps c f \<Longrightarrow> file_ok (k_gc k) (ps @ [r]) c f"
    using assms(2) purge_todo_covers[OF assms(1)] unfolding file_ok_def by auto
  show "live_ok (k_gc k) ps m \<Longrightarrow> m \<noteq> n \<Longrightarrow> live_ok (k_gc k) (ps @ [r]) m"
    using assms(2) unfolding live_ok_def by auto
qed

lemma ok_delete_step:
  assumes "i < length ps" "ps ! i = \<lparr>pr_name = n, pr_todo = (c0, f0) # todo, pr_ok = ok\<rparr>"
    "r = \<lparr>pr_name = n, pr_todo = todo, pr_ok = ok \<and> conf\<rparr>"
  shows "late_ok g ps c f \<Longrightarrow> late_ok g (ps[i := r]) c f" "live_ok g ps m \<Longrightarrow> live_ok g (ps[i := r]) m"
    "file_ok g ps c f \<Longrightarrow> conf \<longrightarrow> (c, f) \<noteq> (c0, f0) \<Longrightarrow> file_ok g (ps[i := r]) c f"
proof -
  have old: "ps ! i \<in> set ps" using assms(1) by simp
  have new: "x \<in> set (ps[i := r]) \<Longrightarrow> x = r \<or> x \<in> set ps" for x by (rule set_update_cases)
  show "late_ok g ps c f \<Longrightarrow> late_ok g (ps[i := r]) c f" "live_ok g ps m \<Longrightarrow> live_ok g (ps[i := r]) m"
    using old new assms(2,3) unfolding late_ok_def live_ok_def by force+
  show "file_ok g ps c f \<Longrightarrow> conf \<longrightarrow> (c, f) \<noteq> (c0, f0) \<Longrightarrow> file_ok g (ps[i := r]) c f"
    using old new assms(2,3) unfolding file_ok_def by force
qed

lemma ok_forget:
  assumes "i < length ps" "ps ! i = \<lparr>pr_name = n, pr_todo = [], pr_ok = True\<rparr>"
  shows "late_ok g ps c f \<Longrightarrow> late_ok (AList.delete n g) ps c f" "live_ok g ps m \<Longrightarrow> live_ok (AList.delete n g) ps m"
    "file_ok g ps c f \<Longrightarrow> file_ok (AList.delete n g) ps c f"
proof -
  have r: "ps ! i \<in> set ps" using assms(1) by simp
  show "late_ok g ps c f \<Longrightarrow> late_ok (AList.delete n g) ps c f"
    using r assms(2) unfolding late_ok_def by (metis purge_run.select_convs(1) tracked_delete)
  show "live_ok g ps m \<Longrightarrow> live_ok (AList.delete n g) ps m"
    using r assms(2) unfolding live_ok_def by (metis map_of_delete purge_run.select_convs(1))
  show "file_ok g ps c f \<Longrightarrow> file_ok (AList.delete n g) ps c f"
    using r assms(2) unfolding file_ok_def
    by (metis empty_iff empty_set purge_run.select_convs(1,2,3) tracked_delete)
qed


lemma track_saved:
  assumes "disk_ok k d" "validStateName n" "ctl_list ctls \<noteq> []" "track Saved now n ctls k d = (k', d')"
  shows "disk_ok k' d'" "k_gc k' = AList.update n \<lparr>Ctls = ctl_list ctls, Since = now\<rparr> (k_gc k)"
  using assms saved_ok[of k'] gc_ok_update[of "k_gc k" n] by (auto simp: track_def Let_def disk_ok_def)

lemma purge_forget_saved:
  assumes "disk_ok k d" "purge_forget Saved n k d = (k', d')"
  shows "disk_ok k' d'" "k_gc k' = AList.delete n (k_gc k)"
proof -
  have "map_of (k_gc k) n = None \<Longrightarrow> AList.delete n (k_gc k) = k_gc k" by (simp add: map_of_eq_None_iff)
  then show "disk_ok k' d'" "k_gc k' = AList.delete n (k_gc k)"
    using assms saved_ok[of k'] gc_ok_delete[of "k_gc k" n] by (auto simp: purge_forget_def Let_def disk_ok_def split: if_splits)
qed

lemma startJanitor_reloads:
  assumes "disk_ok k d"
  shows "disk_ok (startJanitor (k_gcPath k) d (k\<lparr>k_gc := []\<rparr>)) d"
    "map_of (k_gc (startJanitor (k_gcPath k) d (k\<lparr>k_gc := []\<rparr>))) = map_of (k_gc k)"
proof -
  have "gc_ok []" by (simp add: gc_ok_def)
  then show "disk_ok (startJanitor (k_gcPath k) d (k\<lparr>k_gc := []\<rparr>)) d"
    "map_of (k_gc (startJanitor (k_gcPath k) d (k\<lparr>k_gc := []\<rparr>))) = map_of (k_gc k)"
    using assms load_pending_ok[of _ "[]"]
    by (auto simp: disk_ok_def startJanitor_def Let_def split: option.splits pend_file.splits)
qed

text \<open>The three steps that change the list.\<close>

lemma begins_inv:
  assumes "jan_inv s" "validStateName n" "map_of (k_gc (js_k s)) n = None" "\<forall>r\<in>set (js_purges s). pr_name r \<noteq> n"
    "ctl_list ctls \<noteq> []" "track Saved now n ctls (js_k s) (js_disk s) = (k, d)"
  shows "jan_inv (s\<lparr>js_k := k, js_disk := d, js_live := insert n (js_live s)\<rparr>)"
proof -
  have "disk_ok (js_k s) (js_disk s)" using assms(1) by (simp add: jan_inv_def)
  note g = track_saved[OF this assms(2,5,6)]
  have "tracked (k_gc k) m c f" if "tracked (k_gc (js_k s)) m c f" for m c f
    using tracked_update[OF assms(3) that] g(2) by simp
  moreover have "map_of (k_gc k) m \<noteq> None" if "map_of (k_gc (js_k s)) m \<noteq> None \<or> m = n" for m
    using that g(2) by (auto simp: update_conv')
  ultimately show ?thesis
    using assms(1,4) g(1) ok_tracked_mono[of "k_gc (js_k s)" "k_gc k" "js_purges s"] by (auto simp: jan_inv_def live_ok_def)
qed

lemma finishes_inv:
  assumes "jan_inv s" "i < length (js_purges s)" "js_purges s ! i = \<lparr>pr_name = n, pr_todo = [], pr_ok = ok\<rparr>"
    "(k, d) = (if ok then purge_forget Saved n (js_k s) (js_disk s) else (js_k s, js_disk s))"
  shows "jan_inv (s\<lparr>js_k := k, js_disk := d, js_purges := drop_nth i (js_purges s)\<rparr>)"
proof (cases ok)
  case True
  have "disk_ok (js_k s) (js_disk s)" using assms(1) by (simp add: jan_inv_def)
  then have "disk_ok k d" "k_gc k = AList.delete n (k_gc (js_k s))"
    using purge_forget_saved[of "js_k s" "js_disk s" n k d] assms(4) True by auto
  then show ?thesis
    using assms(1,3) ok_forget[OF assms(2), of n "k_gc (js_k s)"] True ok_fewer_purges[OF set_drop_nth] by (auto simp: jan_inv_def)
next
  case False
  then show ?thesis using assms(1,4) ok_fewer_purges[OF set_drop_nth] by (auto simp: jan_inv_def)
qed

lemma restarts_inv:
  assumes "jan_inv s" "k = startJanitor (k_gcPath (js_k s)) (js_disk s) ((js_k s)\<lparr>k_gc := []\<rparr>)"
  shows "jan_inv (s\<lparr>js_k := k, js_live := {}, js_purges := []\<rparr>)"
proof -
  have k: "disk_ok k (js_disk s)" "map_of (k_gc k) = map_of (k_gc (js_k s))"
    using startJanitor_reloads[of "js_k s" "js_disk s"] assms by (simp_all add: jan_inv_def)
  then have "tracked (k_gc k) m c f" if "tracked (k_gc (js_k s)) m c f" for m c f
    using that by (simp add: tracked_def)
  then show ?thesis
    using assms(1) k ok_fewer_purges[of "[]" "js_purges s"] ok_tracked_mono[of "k_gc (js_k s)" "k_gc k" "[]"]
    by (auto simp: jan_inv_def)
qed

lemma jan_step_inv:
  assumes "jan_step True s s'" "jan_inv s"
  shows "jan_inv s'"
  using assms(1)
proof (cases rule: jan_step.cases)
  case (begins n ctls sio now k d)
  then show ?thesis using begins_inv[OF assms(2) begins(2-5), of now k d] by simp
next
  case (accepts n p c f)
  have "live_ok (k_gc (js_k s)) (js_purges s) n" using assms(2) accepts(2) by (simp add: jan_inv_def)
  then have "late_ok (k_gc (js_k s)) (js_purges s) c f"
    using accepts(3-5) unfolding late_ok_def tracked_def live_ok_def by blast
  then show ?thesis using assms(2) accepts(1) by (auto simp: jan_inv_def)
next
  case (lands c f)
  then show ?thesis using assms(2) late_file_ok by (auto simp: jan_inv_def)
next
  case (gives_up c f)
  then show ?thesis using assms(2) by (auto simp: jan_inv_def)
next
  case (purges n)
  have "gc_ok (k_gc (js_k s))" using assms(2) by (simp add: jan_inv_def disk_ok_def)
  then show ?thesis using assms(2) purges ok_new_purge[OF _ refl, of "js_k s" "js_purges s"] by (auto simp: jan_inv_def)
next
  case (deletes i n c f todo ok files answer)
  then have "(c', f') \<in> files \<Longrightarrow> (c', f') \<in> js_files s \<and> (confirmed answer \<longrightarrow> (c', f') \<noteq> (c, f))" for c' f' by auto
  then show ?thesis
    using assms(2) ok_delete_step[OF deletes(2,3) refl, of "k_gc (js_k s)"] deletes(1) by (auto simp: jan_inv_def)
next
  case (finishes i n ok sio k d)
  then show ?thesis using finishes_inv[OF assms(2) finishes(2,3), of k d] by simp
next
  case restarts
  then show ?thesis using restarts_inv[OF assms(2) refl] by simp
qed

lemma jan_init_inv: "path \<noteq> [] \<Longrightarrow> jan_inv (jan_init path dc pc)"
  by (simp add: jan_inv_def jan_init_def disk_ok_def gc_ok_def)

lemma jan_reach_inv: "jan_reach True s t \<Longrightarrow> jan_inv s \<Longrightarrow> jan_inv t"
  by (induction rule: jan_reach.induct) (auto intro: jan_step_inv)


section \<open>The functions among the steps\<close>

lemma purge_ok: "fst (purge del sio n k d) \<longleftrightarrow> (\<forall>(b, f)\<in>set (purge_todo k n). deleteState del b f)"
proof -
  have "foldl (\<lambda>ok (b, f). if \<not> deleteState del b f then False else ok) a xs \<longleftrightarrow> a \<and> (\<forall>(b, f)\<in>set xs. deleteState del b f)" for a xs
    by (induction xs arbitrary: a) auto
  then show ?thesis by (simp add: purge_def Let_def)
qed

definition answered :: "(string \<Rightarrow> nat option) \<Rightarrow> (string \<times> string) list \<Rightarrow> (string \<times> string) set" where
  "answered del todo = {(b, f). (b, f) \<in> set todo \<and> deleteState del b f}"

lemma jan_reach_trans: "jan_reach calm s t \<Longrightarrow> jan_reach calm t u \<Longrightarrow> jan_reach calm s u"
  by (rotate_tac, induction rule: jan_reach.induct) (auto intro: jan_reach.onward)

lemma jan_reach_step: "jan_step calm s t \<Longrightarrow> jan_reach calm t u \<Longrightarrow> jan_reach calm s u"
  using jan_reach_trans jan_reach.onward jan_reach.start by metis

text \<open>The deletes of the purge started last, one after the other.\<close>

lemma deletes_run:
  assumes "js_purges s = ps @ [\<lparr>pr_name = n, pr_todo = todo, pr_ok = ok\<rparr>]"
  shows "jan_reach calm s (s\<lparr>js_files := js_files s - answered del todo,
    js_purges := ps @ [\<lparr>pr_name = n, pr_todo = [], pr_ok = ok \<and> (\<forall>(b, f)\<in>set todo. deleteState del b f)\<rparr>]\<rparr>)"
  using assms
proof (induction todo arbitrary: ok s)
  case Nil
  then have "s\<lparr>js_files := js_files s - answered del [], js_purges := ps @ [\<lparr>pr_name = n, pr_todo = [], pr_ok = ok\<rparr>]\<rparr> = s"
    by (simp add: answered_def)
  then show ?case using jan_reach.start[of calm s] by simp
next
  case (Cons x todo)
  obtain b f where x: "x = (b, f)" by fastforce
  define conf where "conf = deleteState del b f"
  define t where "t = s\<lparr>js_files := js_files s - answered del [x],
    js_purges := ps @ [\<lparr>pr_name = n, pr_todo = todo, pr_ok = ok \<and> conf\<rparr>]\<rparr>"
  have st: "jan_step calm s t"
    using jan_step.deletes[where i = "length ps" and s = s and n = n and c = b and f = f and todo = todo and ok = ok and calm = calm
        and files = "js_files s - answered del [x]" and answer = "del (b @ ''/kv/'' @ f)"] Cons.prems x
    by (auto simp: t_def conf_def deleteState_def answered_def)
  have "jan_reach calm t (t\<lparr>js_files := js_files t - answered del todo,
    js_purges := ps @ [\<lparr>pr_name = n, pr_todo = [], pr_ok = (ok \<and> conf) \<and> (\<forall>(b, f)\<in>set todo. deleteState del b f)\<rparr>]\<rparr>)"
    by (rule Cons.IH) (simp add: t_def)
  moreover have "js_files t - answered del todo = js_files s - answered del (x # todo)" by (auto simp: answered_def t_def)
  ultimately show ?case using jan_reach_step[OF st] x by (simp add: t_def conf_def conj_assoc)
qed


lemma purge_todo_other: "m \<noteq> n \<Longrightarrow> purge_todo (k\<lparr>k_gc := AList.delete n (k_gc k)\<rparr>) m = purge_todo k m"
  by (simp add: purge_todo_def ctlsOf_def split: option.split)

lemma purge_run: "purge del sio n k d = (ok, k', d') \<Longrightarrow>
    (ok \<longleftrightarrow> (\<forall>(b, f)\<in>set (purge_todo k n). deleteState del b f)) \<and>
    k' = (if ok then k\<lparr>k_gc := AList.delete n (k_gc k)\<rparr> else k)"
proof -
  assume p: "purge del sio n k d = (ok, k', d')"
  have "map_of (k_gc k) n = None \<Longrightarrow> AList.delete n (k_gc k) = k_gc k" by (simp add: map_of_eq_None_iff)
  then show ?thesis using p purge_ok[of del sio n k d] by (auto simp: purge_def Let_def purge_forget_def split: if_splits)
qed

lemma sweep_loop_run:
  assumes "sweep_loop del sio ns k d gone left = ((g, l), k', d')" "distinct ns"
    "P = (\<lambda>n. \<forall>(b, f)\<in>set (purge_todo k n). deleteState del b f)"
  shows "g = gone + length (filter P ns)" "l = left + length (filter (\<lambda>n. \<not> P n) ns)"
    "map_of (k_gc k') m = (if m \<in> set ns \<and> P m then None else map_of (k_gc k) m)"
proof -
  have "g = gone + length (filter P ns) \<and> l = left + length (filter (\<lambda>n. \<not> P n) ns) \<and>
    map_of (k_gc k') m = (if m \<in> set ns \<and> P m then None else map_of (k_gc k) m)"
    using assms
  proof (induction ns arbitrary: k d gone left P)
    case (Cons n ns)
    obtain ok k1 d1 where p: "purge del (sio n) n k d = (ok, k1, d1)" using prod_cases3 by blast
    note r = purge_run[OF p]
    define Q where "Q = (\<lambda>m. \<forall>(b, f)\<in>set (purge_todo k1 m). deleteState del b f)"
    have Q: "m \<noteq> n \<Longrightarrow> Q m = P m" for m using r Cons.prems(3) purge_todo_other[of m n k] by (simp add: Q_def)
    have f: "filter Q ns = filter P ns" "filter (\<lambda>m. \<not> Q m) ns = filter (\<lambda>m. \<not> P m) ns"
      by (rule filter_cong; use Q Cons.prems(2) in force)+
    have ok: "ok = P n" using r Cons.prems(3) by simp
    have g: "map_of (k_gc k1) m = (if m = n \<and> ok then None else map_of (k_gc k) m)"
      using r by (simp add: delete_conv')
    have rest: "sweep_loop del sio ns k1 d1 (if ok then Suc gone else gone) (if ok then left else Suc left) = ((g, l), k', d')"
      using p Cons.prems(1) by (simp split: if_splits)
    have "m \<in> set ns \<Longrightarrow> Q m = P m" using Q Cons.prems(2) by (cases "m = n") auto
    then show ?case using Cons.IH[OF rest _ Q_def] Cons.prems(2) f ok g by (cases "m \<in> set ns"; cases "m = n") auto
  qed simp
  then show "g = gone + length (filter P ns)" "l = left + length (filter (\<lambda>n. \<not> P n) ns)"
    "map_of (k_gc k') m = (if m \<in> set ns \<and> P m then None else map_of (k_gc k) m)" by blast+
qed



section \<open>Properties\<close>

text \<open>
  C29. No orphans. In every calm history of handoffs, purges, unanswered deletes and restarts of the coordinator,
  a state that lies on a node is on the list of the running process, under that node, and on the list in the file,
  so that the next process finds it too.
\<close>

theorem janitor_no_orphan:
  assumes "path \<noteq> []" "jan_reach True (jan_init path dc pc) s" "(c, f) \<in> js_files s"
  shows "\<exists>n p g. f \<in> {n, n @ ''.dft''} \<and> map_of (k_gc (js_k s)) n = Some p \<and> c \<in> set (Ctls p) \<and>
    d_file (js_disk s) = Some (Good g) \<and> map_of g n = Some p"
proof -
  have "jan_inv s" using jan_reach_inv[OF assms(2)] jan_init_inv[OF assms(1)] by blast
  then have d: "disk_ok (js_k s) (js_disk s)" and "file_ok (k_gc (js_k s)) (js_purges s) c f"
    using assms(3) by (auto simp: jan_inv_def)
  then obtain n p where n: "map_of (k_gc (js_k s)) n = Some p" "c \<in> set (Ctls p)" "f \<in> {n, n @ ''.dft''}"
    unfolding file_ok_def tracked_def sidecar_def by blast
  then obtain g where "d_file (js_disk s) = Some (Good g)" "map_of g n = Some p"
    using d by (auto simp: disk_ok_def split: option.splits pend_file.splits)
  then show ?thesis using n by blast
qed

text \<open>One handoff on one node: its list entry, the write under way, and what is left after it.\<close>

definition one_gc :: gc_list where
  "one_gc = [(''a.bin'', \<lparr>Ctls = [''p''], Since = 0\<rparr>)]"

definition one_sys :: "gc_list \<Rightarrow> (string \<times> string) set \<Rightarrow> (string \<times> string) set \<Rightarrow> string set \<Rightarrow> purge_run list \<Rightarrow> jan_sys" where
  "one_sys g files late live ps =
     \<lparr>js_k = \<lparr>k_gc = g, k_gcPath = ''kv'', k_decodeCtl = ''d'', k_prefillCtl = ''p''\<rparr>, js_disk = \<lparr>d_file = Some (Good g), d_tmp = None\<rparr>,
      js_files = files, js_late = late, js_live = live, js_purges = ps\<rparr>"

definition one_purge :: "string list \<Rightarrow> purge_run" where
  "one_purge fs = \<lparr>pr_name = ''a.bin'', pr_todo = map (Pair ''p'') fs, pr_ok = True\<rparr>"

lemma one_begins: "jan_step calm (jan_init ''kv'' ''d'' ''p'') (one_sys one_gc {} {} {''a.bin''} [])"
  using jan_step.begins[of "''a.bin''" "jan_init ''kv'' ''d'' ''p''" "[''p'']" calm Saved 0] demo_name(1)
  by (auto simp: jan_init_def one_sys_def one_gc_def track_def saveGCLocked_def ctl_list_def)

lemma one_accepts: "jan_step calm (one_sys one_gc {} {} {''a.bin''} []) (one_sys one_gc {} {(''p'', ''a.bin'')} {''a.bin''} [])"
  using jan_step.accepts[of "''a.bin''" "one_sys one_gc {} {} {''a.bin''} []" _ "''p''" "''a.bin''" calm]
  by (auto simp: one_sys_def one_gc_def)

theorem janitor_no_orphan_witness:
  "\<exists>s. jan_reach True (jan_init ''kv'' ''d'' ''p'') s \<and> (''p'', ''a.bin'') \<in> js_files s \<and>
     (\<exists>n p g. ''a.bin'' \<in> {n, n @ ''.dft''} \<and> map_of (k_gc (js_k s)) n = Some p \<and> d_file (js_disk s) = Some (Good g) \<and> map_of g n = Some p)"
proof -
  define s where "s = one_sys one_gc {(''p'', ''a.bin'')} {} {''a.bin''} []"
  have "jan_step True (one_sys one_gc {} {(''p'', ''a.bin'')} {''a.bin''} []) s"
    using jan_step.lands[of "''p''" "''a.bin''" "one_sys one_gc {} {(''p'', ''a.bin'')} {''a.bin''} []" True]
    by (auto simp: one_sys_def s_def)
  then have r: "jan_reach True (jan_init ''kv'' ''d'' ''p'') s"
    using one_begins one_accepts jan_reach.start by (meson jan_reach.onward)
  have f: "(''p'', ''a.bin'') \<in> js_files s" by (simp add: s_def one_sys_def)
  show ?thesis using janitor_no_orphan[OF _ r f] r f by blast
qed

text \<open>
  The case the calm histories leave out. A save the coordinator gave up on may still be running on the node. It
  purges the state at once; the node answers 404 because the file is not there yet, which counts as a confirmation;
  the name is forgotten, and the write then lands: the state lies on the node, and neither the list nor its file has it.
\<close>

theorem janitor_late_save:
  "\<exists>s. jan_reach False (jan_init ''kv'' ''d'' ''p'') s \<and> (''p'', ''a.bin'') \<in> js_files s \<and> js_late s = {} \<and> js_live s = {} \<and>
     js_purges s = [] \<and> k_gc (js_k s) = [] \<and> d_file (js_disk s) = Some (Good [])"
proof -
  define late where "late = {(''p'', ''a.bin'')}"
  have 1: "jan_step False (one_sys one_gc {} late {''a.bin''} []) (one_sys one_gc {} late {} [one_purge [''a.bin'', ''a.bin.dft'']])"
    using jan_step.purges[of False "one_sys one_gc {} late {''a.bin''} []" "''a.bin''"]
    by (simp add: one_sys_def one_purge_def purge_todo_def ctlsOf_def one_gc_def sidecar_def)
  have 2: "jan_step False (one_sys one_gc {} late {} [one_purge (f # fs)]) (one_sys one_gc {} late {} [one_purge fs])" for f fs
    using jan_step.deletes[where i = 0 and s = "one_sys one_gc {} late {} [one_purge (f # fs)]" and n = "''a.bin''" and c = "''p''" and f = f
        and todo = "map (Pair ''p'') fs" and ok = True and files = "{}" and answer = "Some 404" and calm = False]
    by (simp add: one_sys_def one_purge_def confirmed_def)
  have 3: "jan_step False (one_sys one_gc {} late {} [one_purge []]) (one_sys [] {} late {} [])"
    using jan_step.finishes[where i = 0 and s = "one_sys one_gc {} late {} [one_purge []]" and n = "''a.bin''" and ok = True and sio = Saved
        and calm = False]
    by (simp add: one_sys_def one_purge_def one_gc_def drop_nth_def purge_forget_def saveGCLocked_def)
  have 4: "jan_step False (one_sys [] {} late {} []) (one_sys [] late {} {} [])"
    using jan_step.lands[of "''p''" "''a.bin''" "one_sys [] {} late {} []" False] by (simp add: one_sys_def late_def)
  have "jan_reach False (jan_init ''kv'' ''d'' ''p'') (one_sys [] late {} {} [])"
    using one_begins one_accepts[folded late_def] 1 2 3 4 jan_reach.start by (meson jan_reach.onward)
  then show ?thesis by (intro exI[of _ "one_sys [] late {} {} []"]) (simp add: one_sys_def late_def)
qed


text \<open>
  C30. The function \<^verbatim>\<open>purge\<close> is a run of the interleaved system. From any state, with any answers of the nodes, the
  steps of one purge lead to the list and the file the function computes, with exactly the confirmed files gone and the
  other purges as they were.
\<close>

theorem purge_refines:
  assumes "purge del sio n (js_k s) (js_disk s) = (ok, k, d)"
    and "calm \<longrightarrow> sio = Saved \<and> (\<forall>(c, f)\<in>js_late s. f \<notin> {n, sidecar n})"
  shows "jan_reach calm s (s\<lparr>js_live := js_live s - {n}, js_files := js_files s - answered del (purge_todo (js_k s) n),
    js_k := k, js_disk := d\<rparr>)"
proof -
  define todo where "todo = purge_todo (js_k s) n"
  define s1 where "s1 = s\<lparr>js_live := js_live s - {n}, js_purges := js_purges s @ [\<lparr>pr_name = n, pr_todo = todo, pr_ok = True\<rparr>]\<rparr>"
  define s2 where "s2 = s1\<lparr>js_files := js_files s - answered del todo, js_purges := js_purges s @ [\<lparr>pr_name = n, pr_todo = [], pr_ok = ok\<rparr>]\<rparr>"
  have ok: "ok \<longleftrightarrow> (\<forall>(b, f)\<in>set todo. deleteState del b f)" using purge_ok[of del sio n "js_k s" "js_disk s"] assms(1) todo_def by simp
  have kd: "(k, d) = (if ok then purge_forget sio n (js_k s) (js_disk s) else (js_k s, js_disk s))"
    using assms(1) by (auto simp: purge_def Let_def split: if_splits)
  have 1: "jan_step calm s s1" using jan_step.purges[of calm s n] assms(2) by (auto simp: s1_def todo_def)
  have 2: "jan_reach calm s1 s2"
    using deletes_run[of s1 "js_purges s" n todo True calm del] ok by (simp add: s1_def s2_def)
  have 3: "jan_step calm s2 (s2\<lparr>js_k := k, js_disk := d, js_purges := drop_nth (length (js_purges s)) (js_purges s2)\<rparr>)"
    by (rule jan_step.finishes[where n = n and ok = ok and sio = sio]) (use assms(2) kd in \<open>auto simp: s1_def s2_def\<close>)
  have "jan_reach calm s (s2\<lparr>js_k := k, js_disk := d, js_purges := drop_nth (length (js_purges s)) (js_purges s2)\<rparr>)"
    using jan_reach_step[OF 1 jan_reach.onward[OF 2 3]] .
  then show ?thesis by (simp add: s1_def s2_def todo_def drop_nth_def)
qed

theorem purge_refines_witness:
  "jan_reach True (one_sys one_gc {(''p'', ''a.bin'')} {} {} []) (one_sys [] {} {} {} [])"
proof -
  have p: "purge (\<lambda>_. Some 200) Saved ''a.bin'' (js_k (one_sys one_gc {(''p'', ''a.bin'')} {} {} [])) (js_disk (one_sys one_gc {(''p'', ''a.bin'')} {} {} []))
      = (True, js_k (one_sys [] {} {} {} []), js_disk (one_sys [] {} {} {} []))"
    by (simp add: purge_def purge_todo_def ctlsOf_def deleteState_def confirmed_def purge_forget_def saveGCLocked_def one_sys_def one_gc_def)
  from purge_refines[OF p, of True] show ?thesis
    by (simp add: one_sys_def answered_def purge_todo_def ctlsOf_def deleteState_def confirmed_def one_gc_def)
qed

text \<open>
  What a sweep does. It forgets exactly the states old enough whose files were confirmed gone on every node that
  may hold them, keeps all others, and counts both; with every node answering, a sweep of age 0 empties the list.
\<close>

theorem sweep_outcome:
  assumes "distinct (map fst (k_gc k))" "sweep del sio now minAge k d = ((gone, left), k', d')"
    and "old = (\<lambda>n. \<exists>p. map_of (k_gc k) n = Some p \<and> minAge \<le> now - Since p)"
    and "clean = (\<lambda>n. \<forall>(b, f)\<in>set (purge_todo k n). deleteState del b f)"
  shows "(\<forall>n. map_of (k_gc k') n = (if old n \<and> clean n then None else map_of (k_gc k) n)) \<and>
    gone = card {n. old n \<and> clean n} \<and> left = card {n. old n \<and> \<not> clean n}"
proof -
  define ns where "ns = sweep_names now minAge k"
  have dist: "distinct ns" using assms(1) by (simp add: ns_def sweep_names_def distinct_map_filter)
  have mem: "n \<in> set ns \<longleftrightarrow> old n" for n
    using assms(1,3) by (force simp: ns_def sweep_names_def dest: map_of_SomeD)
  have sw: "sweep_loop del sio ns k d 0 0 = ((gone, left), k', d')" using assms(2) by (simp add: sweep_def ns_def)
  note run = sweep_loop_run[OF sw dist assms(4)]
  have "map_of (k_gc k') n = (if old n \<and> clean n then None else map_of (k_gc k) n)" for n using run(3)[of n] mem by simp
  moreover have count: "length (filter P ns) = card {n. old n \<and> P n}" for P
    using dist mem by (metis (mono_tags, lifting) Collect_cong distinct_card distinct_filter set_filter)
  ultimately show ?thesis using run(1,2) count by simp
qed

theorem sweep_outcome_witness:
  "\<exists>k' d'. sweep (\<lambda>_. Some 404) (\<lambda>_. Saved) 0 0 (js_k (one_sys one_gc {} {} {} [])) (js_disk (one_sys one_gc {} {} {} [])) = ((1, 0), k', d') \<and>
     map_of (k_gc k') ''a.bin'' = None"
proof -
  obtain k' d' where s: "sweep (\<lambda>_. Some 404) (\<lambda>_. Saved) 0 0 (js_k (one_sys one_gc {} {} {} [])) (js_disk (one_sys one_gc {} {} {} [])) = ((1, 0), k', d')"
    by (simp add: sweep_def sweep_names_def purge_def purge_todo_def ctlsOf_def deleteState_def confirmed_def one_sys_def one_gc_def
        purge_forget_def saveGCLocked_def)
  have "map_of (k_gc k') ''a.bin'' = None"
    using sweep_outcome[OF _ s refl refl]
    by (simp add: one_sys_def one_gc_def purge_todo_def ctlsOf_def deleteState_def confirmed_def)
  then show ?thesis using s by blast
qed

end
