(* ===== verification/Update_Guard.thy ===== *)
theory Update_Guard
  imports Kv_Janitor
begin

text \<open>
  \<^verbatim>\<open>cmd/sofmat/updateguard.go\<close> and \<^verbatim>\<open>cmd/sofmat/update.go\<close>: the self-update of a node and the guards that keep it from going
  round in circles. The state file is the value it encodes, or \<open>UTorn\<close> with what \<^verbatim>\<open>json.Unmarshal\<close> had filled in before it gave
  up. A binary is its bytes; \<open>ue_sha\<close> is its SHA-256 in hexadecimal and \<open>ue_run\<close> what it prints when asked for its version.
  Versions are stamps compared as strings, which is the order of \<open>List_Lexorder\<close> on characters. \<open>up_loads\<close> counts the
  downloads that were started. Texts of messages are shortened.
\<close>


section \<open>State\<close>

definition maxAttemptsPerVersion :: nat where "maxAttemptsPerVersion = 3"
definition descargasPorIntento :: nat where "descargasPorIntento = 3"

record installed_rec =
  in_Version :: string
  in_Sha :: string
  in_At :: string

record updateState =
  us_Refused :: "(string \<times> string) list"
  us_Attempts :: "(string \<times> nat) list"
  us_Digests :: "(string \<times> string) list"
  us_RefusedTags :: "(string \<times> string) list"
  us_Installed :: installed_rec

definition emptyState :: updateState where
  "emptyState = \<lparr>us_Refused = [], us_Attempts = [], us_Digests = [], us_RefusedTags = [],
     us_Installed = \<lparr>in_Version = [], in_Sha = [], in_At = []\<rparr>\<rparr>"

datatype upd_file = UGood updateState | UTorn updateState

record updater =
  up_version :: string
  up_selfPath :: string
  up_file :: "upd_file option"
  up_corrupt :: string
  up_self :: "bytes option"
  up_new :: "bytes option"
  up_old :: "bytes option"
  up_updating :: bool
  up_last :: string
  up_loads :: nat

definition lk :: "(string \<times> string) list \<Rightarrow> string \<Rightarrow> string" where
  "lk m k = (case map_of m k of Some v \<Rightarrow> v | None \<Rightarrow> [])"

definition attempts :: "updateState \<Rightarrow> string \<Rightarrow> nat" where
  "attempts st target = (case map_of (us_Attempts st) target of Some n \<Rightarrow> n | None \<Rightarrow> 0)"

definition loadUpdateState :: "updater \<Rightarrow> updateState \<times> updater" where
  "loadUpdateState u =
     (if up_selfPath u = [] then (emptyState, u)
      else case up_file u of
             None \<Rightarrow> (emptyState, u\<lparr>up_corrupt := []\<rparr>)
           | Some (UGood st) \<Rightarrow> (st, u\<lparr>up_corrupt := []\<rparr>)
           | Some (UTorn st) \<Rightarrow> (st, u\<lparr>up_corrupt := ''soflink-update-state.json ilegible''\<rparr>))"

definition saveUpdateState :: "save_io \<Rightarrow> updateState \<Rightarrow> updater \<Rightarrow> updater" where
  "saveUpdateState sio st u =
     (if up_selfPath u = [] then u
      else case sio of Saved \<Rightarrow> u\<lparr>up_file := Some (UGood st)\<rparr> | _ \<Rightarrow> u)"


section \<open>The artifact\<close>

definition is_ws :: "char \<Rightarrow> bool" where
  "is_ws c \<longleftrightarrow> c \<in> {CHR 0x20, CHR 0x09, CHR 0x0A, CHR 0x0C, CHR 0x0D}"

text \<open>The pattern \<^verbatim>\<open>^\s*soflink\s+(\S+)\s*$\<close> at the start of a line.\<close>

definition version_at :: "string \<Rightarrow> string option" where
  "version_at s =
     (let r = dropWhile is_ws s
      in if starts ''soflink'' r \<and> drop 7 r \<noteq> [] \<and> is_ws (hd (drop 7 r)) then
           let r = dropWhile is_ws (drop 7 r);
               tok = takeWhile (\<lambda>c. \<not> is_ws c) r;
               rest = dropWhile (\<lambda>c. \<not> is_ws c) r;
               gap = takeWhile is_ws rest
           in if tok \<noteq> [] \<and> (length gap = length rest \<or> CHR 0x0A \<in> set gap) then Some tok else None
         else None)"

fun version_scan :: "string \<Rightarrow> string option" where
  "version_scan [] = None"
| "version_scan (c # s) =
     (if c = CHR 0x0A then (case version_at s of Some v \<Rightarrow> Some v | None \<Rightarrow> version_scan s) else version_scan s)"

definition versionLine :: "string \<Rightarrow> string option" where
  "versionLine s = (case version_at s of Some v \<Rightarrow> Some v | None \<Rightarrow> version_scan s)"

text \<open>\<open>run\<close> gives whether the command failed and what it printed.\<close>

definition declaredVersion :: "(bytes \<Rightarrow> bool \<times> string) \<Rightarrow> (string \<Rightarrow> string) \<Rightarrow> bytes \<Rightarrow> (string, string) result" where
  "declaredVersion run trim b =
     (let (failed, out) = run b
      in if failed \<and> out = [] then Inl ''no responde a version''
         else case versionLine out of
                Some v \<Rightarrow> Inr v
              | None \<Rightarrow>
                  let s = trim out
                  in if s \<noteq> [] \<and> CHR 0x20 \<notin> set s \<and> CHR 0x0A \<notin> set s then Inr s else Inl ''no entiendo su respuesta a version'')"

text \<open>What the download of one try gives: no answer, a status that is not 200, a body that breaks off, or a whole body.\<close>

datatype dl_answer = DlNone | DlStatus nat | DlCut bytes | DlBody bytes

record asset =
  as_Name :: string
  as_URL :: string
  as_Digest :: string

record release =
  re_Tag :: string
  re_Assets :: "asset list"

record upd_env =
  ue_sha :: "bytes \<Rightarrow> string"
  ue_run :: "bytes \<Rightarrow> bool \<times> string"
  ue_trim :: "string \<Rightarrow> string"
  ue_asset :: string
  ue_api :: "(string, nat \<times> release option) result"
  ue_dl :: "nat \<Rightarrow> dl_answer"
  ue_open :: bool
  ue_read :: bool
  ue_save :: save_io
  ue_ren_old :: bool
  ue_ren_new :: bool
  ue_ren_back :: bool
  ue_exec :: bool
  ue_now :: string

definition sha256File :: "upd_env \<Rightarrow> bytes option \<Rightarrow> (string, string) result" where
  "sha256File env f = (case f of Some b \<Rightarrow> if ue_read env then Inr (ue_sha env b) else Inl ''read'' | None \<Rightarrow> Inl ''open'')"

text \<open>\<open>Descarga\<close> wraps \<^verbatim>\<open>ErrDescarga\<close>.\<close>

datatype upd_error = Descarga string | Rechazo string

definition noteRefusedTag :: "save_io \<Rightarrow> string \<Rightarrow> string \<Rightarrow> updater \<Rightarrow> updater" where
  "noteRefusedTag sio target digest u =
     (if digest = [] \<or> target = [] then u
      else let (st, u) = loadUpdateState u
           in saveUpdateState sio (st\<lparr>us_RefusedTags := AList.update target digest (us_RefusedTags st)\<rparr>) u)"

definition refuse :: "upd_env \<Rightarrow> string \<Rightarrow> string \<Rightarrow> string \<Rightarrow> string \<Rightarrow> updateState \<Rightarrow> updater \<Rightarrow> updater" where
  "refuse env sm why wantVersion digest st u =
     noteRefusedTag (ue_save env) wantVersion digest
       (saveUpdateState (ue_save env) (st\<lparr>us_Refused := AList.update sm why (us_Refused st)\<rparr>) u)"

definition plain_digest :: "string \<Rightarrow> string" where
  "plain_digest d = (if starts ''sha256:'' d then drop 7 d else d)"

definition admitArtifact :: "upd_env \<Rightarrow> string \<Rightarrow> string \<Rightarrow> updater \<Rightarrow> string option \<times> updater" where
  "admitArtifact env wantVersion digest u =
     (case sha256File env (up_new u) of
        Inl e \<Rightarrow> (Some ''no puedo calcular el sha del artefacto'', u)
      | Inr sm \<Rightarrow>
          let (st, u) = loadUpdateState u
          in if map_of (us_Refused st) sm \<noteq> None then (Some ''artefacto ya rechazado antes'', u)
             else if digest \<noteq> [] \<and> \<not> EqualFold (plain_digest digest) sm then
               (Some ''el fichero descargado no coincide con el digest del release'',
                refuse env sm ''sha no coincide con el digest publicado'' wantVersion digest st u)
             else
               (case up_new u of
                  None \<Rightarrow> (Some ''no he podido preguntarle su version'', u)
                | Some b \<Rightarrow>
                    (case declaredVersion (ue_run env) (ue_trim env) b of
                       Inl e \<Rightarrow> (Some ''no he podido preguntarle su version'', u)
                     | Inr got \<Rightarrow>
                         if got \<noteq> wantVersion then
                           (Some ''ARTEFACTO MAL ETIQUETADO'',
                            refuse env sm (''el release dice '' @ wantVersion @ '' y el binario declara '' @ got) wantVersion digest st u)
                         else (None, u))))"

definition alreadyRefused :: "string \<Rightarrow> string \<Rightarrow> updater \<Rightarrow> bool \<times> updater" where
  "alreadyRefused target digest u =
     (if digest = [] then (False, u)
      else let (st, u) = loadUpdateState u in (lk (us_RefusedTags st) target = digest, u))"

definition spendAttempt :: "save_io \<Rightarrow> string \<Rightarrow> string \<Rightarrow> updater \<Rightarrow> bool \<times> updater" where
  "spendAttempt sio target digest u =
     (let (st, u) = loadUpdateState u;
          st = (if digest \<noteq> [] \<and> lk (us_Digests st) target \<noteq> digest
                then st\<lparr>us_Attempts := AList.update target 0 (us_Attempts st), us_Digests := AList.update target digest (us_Digests st)\<rparr>
                else st);
          n = attempts st target + 1
      in if n > maxAttemptsPerVersion then (False, u)
         else (True, saveUpdateState sio (st\<lparr>us_Attempts := AList.update target n (us_Attempts st)\<rparr>) u))"

definition refundAttempt :: "save_io \<Rightarrow> string \<Rightarrow> updater \<Rightarrow> updater" where
  "refundAttempt sio target u =
     (let (st, u) = loadUpdateState u
      in case map_of (us_Attempts st) target of
           None \<Rightarrow> u
         | Some n \<Rightarrow>
             if n = 0 then u
             else saveUpdateState sio
                    (st\<lparr>us_Attempts := (if n - 1 = 0 then AList.delete target (us_Attempts st) else AList.update target (n - 1) (us_Attempts st))\<rparr>) u)"

definition purge_upto :: "string \<Rightarrow> (string \<times> 'a) list \<Rightarrow> (string \<times> 'a) list" where
  "purge_upto v m = filter (\<lambda>(t, _). \<not> t \<le> v) m"

definition noteInstalled :: "upd_env \<Rightarrow> string \<Rightarrow> string \<Rightarrow> updater \<Rightarrow> updater" where
  "noteInstalled env v sha u =
     (let (st, u) = loadUpdateState u
      in saveUpdateState (ue_save env)
           (st\<lparr>us_Attempts := purge_upto v (us_Attempts st), us_Digests := purge_upto v (us_Digests st),
               us_RefusedTags := purge_upto v (us_RefusedTags st),
               us_Installed := \<lparr>in_Version = v, in_Sha = sha, in_At = ue_now env\<rparr>\<rparr>) u)"

definition bootstrapInstalled :: "upd_env \<Rightarrow> updater \<Rightarrow> updater" where
  "bootstrapInstalled env u =
     (if up_version u = ''dev'' \<or> up_selfPath u = [] then u
      else case sha256File env (up_self u) of
             Inl e \<Rightarrow> u
           | Inr sha \<Rightarrow>
               let (st, u) = loadUpdateState u
               in if up_corrupt u \<noteq> [] then u
                  else if in_Version (us_Installed st) = up_version u \<and> in_Sha (us_Installed st) = sha then u
                  else noteInstalled env (up_version u) sha u)"

definition clearAttempts :: "upd_env \<Rightarrow> string \<Rightarrow> updater \<Rightarrow> updater" where
  "clearAttempts env target u = noteInstalled env target [] u"

datatype blocked = BlockedFile string | BlockedTries nat string | BlockedTag string | NotBlocked

definition blockedReason :: "updater \<Rightarrow> blocked \<times> updater" where
  "blockedReason u =
     (let (st, u) = loadUpdateState u
      in (if up_corrupt u \<noteq> [] then BlockedFile (up_corrupt u)
          else case find (\<lambda>t. t > up_version u \<and> attempts st t \<ge> maxAttemptsPerVersion) (sort (map fst (us_Attempts st))) of
                 Some t \<Rightarrow> BlockedTries (attempts st t) t
               | None \<Rightarrow>
                   (case find (\<lambda>t. t > up_version u) (sort (map fst (us_RefusedTags st))) of
                      Some t \<Rightarrow> BlockedTag t
                    | None \<Rightarrow> NotBlocked), u))"


section \<open>The update\<close>

definition noteCheck :: "string \<Rightarrow> updater \<Rightarrow> updater" where
  "noteCheck res u = u\<lparr>up_last := res\<rparr>"

definition intentarDescarga :: "upd_env \<Rightarrow> nat \<Rightarrow> updater \<Rightarrow> string option \<times> updater" where
  "intentarDescarga env i u =
     (let u = u\<lparr>up_loads := Suc (up_loads u)\<rparr>
      in case ue_dl env i of
           DlNone \<Rightarrow> (Some ''sin respuesta'', u)
         | DlStatus n \<Rightarrow> (Some (''HTTP '' @ decimal n), u)
         | DlCut b \<Rightarrow> if \<not> ue_open env then (Some ''open'', u) else (Some ''copy'', u\<lparr>up_new := None\<rparr>)
         | DlBody b \<Rightarrow>
             if \<not> ue_open env then (Some ''open'', u)
             else if length b < 1000000 then (Some (''solo '' @ decimal (length b) @ '' bytes''), u\<lparr>up_new := None\<rparr>)
             else (None, u\<lparr>up_new := Some b\<rparr>))"

text \<open>The tries numbered \<open>is\<close>; \<open>want\<close> is the digest in lower case, without its prefix.\<close>

fun bajar_loop :: "upd_env \<Rightarrow> string \<Rightarrow> nat list \<Rightarrow> string \<Rightarrow> updater \<Rightarrow> string option \<times> updater" where
  "bajar_loop env want [] prev u = (Some prev, u)"
| "bajar_loop env want (i # is) prev u =
     (let u = (if i > 1 then noteCheck ''reintento'' u else u)
      in case intentarDescarga env i u of
           (Some e, u) \<Rightarrow> bajar_loop env want is e u
         | (None, u) \<Rightarrow>
             if want = [] then (None, u)
             else case sha256File env (up_new u) of
                    Inl e \<Rightarrow> bajar_loop env want is e u
                  | Inr got \<Rightarrow>
                      if got = want then (None, u)
                      else bajar_loop env want is ''los bytes no coinciden con el digest publicado'' (u\<lparr>up_new := None\<rparr>))"

definition bajarArtefacto :: "upd_env \<Rightarrow> string \<Rightarrow> bool \<Rightarrow> updater \<Rightarrow> upd_error option \<times> updater" where
  "bajarArtefacto env digest startup u =
     (let tries = (if startup then 1 else descargasPorIntento)
      in case bajar_loop env (map lower_char (plain_digest digest)) [1..<Suc tries] [] u of
           (Some e, u) \<Rightarrow> (Some (Descarga e), u)
         | (None, u) \<Rightarrow> (None, u))"

text \<open>
  \<^verbatim>\<open>os.Rename\<close> replaces its target and needs its source. \<open>ue_exec\<close> says whether \<^verbatim>\<open>reexec\<close> takes the process over,
  which is \<open>Inr ()\<close>; when it does not, it returns an error like the others.
\<close>

definition swap_in :: "upd_env \<Rightarrow> updater \<Rightarrow> (upd_error, unit) result \<times> updater" where
  "swap_in env u =
     (let u = u\<lparr>up_old := None\<rparr>
      in if \<not> ue_ren_old env \<or> up_self u = None then (Inl (Rechazo ''rename''), u\<lparr>up_new := None\<rparr>)
         else
           let u = u\<lparr>up_old := up_self u, up_self := None\<rparr>
           in if \<not> ue_ren_new env \<or> up_new u = None
              then (Inl (Rechazo ''rename''), if ue_ren_back env then u\<lparr>up_self := up_old u, up_old := None\<rparr> else u)
              else (Inr (), u\<lparr>up_self := up_new u, up_new := None\<rparr>))"

definition applyUpdate :: "upd_env \<Rightarrow> string \<Rightarrow> string \<Rightarrow> bool \<Rightarrow> updater \<Rightarrow> (upd_error, unit) result \<times> updater" where
  "applyUpdate env wantVersion digest startup u =
     (if up_selfPath u = [] then (Inl (Rechazo ''no self path''), u)
      else case bajarArtefacto env digest startup u of
             (Some e, u) \<Rightarrow> (Inl e, u)
           | (None, u) \<Rightarrow>
               let sha = (case sha256File env (up_new u) of Inr s \<Rightarrow> s | Inl _ \<Rightarrow> [])
               in case admitArtifact env wantVersion digest u of
                    (Some e, u) \<Rightarrow> (Inl (Rechazo e), u\<lparr>up_new := None\<rparr>)
                  | (None, u) \<Rightarrow>
                      (case swap_in env u of
                         (Inl e, u) \<Rightarrow> (Inl e, u)
                       | (Inr (), u) \<Rightarrow>
                           (if ue_exec env then Inr () else Inl (Rechazo ''exec''), noteInstalled env wantVersion sha u)))"

definition strip_v :: "string \<Rightarrow> string" where
  "strip_v t = (if starts ''v'' t then tl t else t)"

text \<open>The part of \<^verbatim>\<open>checkAndUpdate\<close> with a release and its asset in hand; the result says whether it ends in \<^verbatim>\<open>reexec\<close>.\<close>

definition update_to :: "upd_env \<Rightarrow> string \<Rightarrow> string \<Rightarrow> bool \<Rightarrow> updater \<Rightarrow> bool \<times> updater" where
  "update_to env latest digest startup u =
     (case alreadyRefused latest digest u of
        (True, u) \<Rightarrow> (False, noteCheck ''detenido: ya se rechazo'' u)
      | (False, u) \<Rightarrow>
          (case spendAttempt (ue_save env) latest digest u of
             (False, u) \<Rightarrow> (False, noteCheck ''detenido: intentos agotados'' u)
           | (True, u) \<Rightarrow>
               (case applyUpdate env latest digest startup (noteCheck ''actualizando'' u) of
                  (Inl (Descarga e), u) \<Rightarrow> (False, noteCheck ''no he podido descargar'' (refundAttempt (ue_save env) latest u))
                | (Inl (Rechazo e), u) \<Rightarrow> (False, noteCheck ''la actualizacion fallo'' u)
                | (Inr (), u) \<Rightarrow> (True, u))))"

definition check_release :: "upd_env \<Rightarrow> release \<Rightarrow> bool \<Rightarrow> updater \<Rightarrow> bool \<times> updater" where
  "check_release env rel startup u =
     (let latest = strip_v (re_Tag rel)
      in if latest = [] then (False, noteCheck ''NO he podido mirar: sin tag_name'' u)
         else if latest \<le> up_version u then (False, noteCheck ''al dia'' u)
         else case find (\<lambda>a. as_Name a = ue_asset env) (re_Assets rel) of
                None \<Rightarrow> (False, noteCheck ''el release no trae la plataforma'' u)
              | Some a \<Rightarrow>
                  if as_URL a = [] then (False, noteCheck ''el release no trae la plataforma'' u)
                  else update_to env latest (as_Digest a) startup u)"

definition checkAndUpdate :: "upd_env \<Rightarrow> bool \<Rightarrow> updater \<Rightarrow> bool \<times> updater" where
  "checkAndUpdate env startup u =
     (if up_version u = ''dev'' then (False, u)
      else if up_updating u then (False, noteCheck ''otra actualizacion en curso, no miro'' u)
      else
        let (st, u) = loadUpdateState (u\<lparr>up_updating := True\<rparr>);
            (done, u) =
              (if up_corrupt u \<noteq> [] then (False, noteCheck ''NO me actualizo: estado ilegible'' u)
               else case ue_api env of
                      Inl e \<Rightarrow> (False, noteCheck ''NO he podido mirar: sin respuesta de GitHub'' u)
                    | Inr (status, rel) \<Rightarrow>
                        if status \<noteq> 200 then (False, noteCheck ''NO he podido mirar: GitHub HTTP'' u)
                        else (case rel of
                                None \<Rightarrow> (False, noteCheck ''NO he podido mirar: respuesta ilegible'' u)
                              | Some rel \<Rightarrow> check_release env rel startup u))
        in (done, u\<lparr>up_updating := False\<rparr>))"


section \<open>Reading and writing the state\<close>

definition view :: "updater \<Rightarrow> updateState" where
  "view u = fst (loadUpdateState u)"

definition corr :: "updater \<Rightarrow> string" where
  "corr u = up_corrupt (snd (loadUpdateState u))"

lemma load_run: "loadUpdateState u = (view u, u\<lparr>up_corrupt := corr u\<rparr>)"
  by (simp add: view_def corr_def loadUpdateState_def split: option.split upd_file.split)

lemma view_cong: "up_selfPath u = up_selfPath v \<Longrightarrow> up_file u = up_file v \<Longrightarrow> view u = view v"
  by (simp add: view_def loadUpdateState_def split: option.split upd_file.split)

lemma corr_cong: "up_selfPath u = up_selfPath v \<Longrightarrow> up_selfPath v \<noteq> [] \<Longrightarrow> up_file u = up_file v \<Longrightarrow> corr u = corr v"
  by (simp add: corr_def loadUpdateState_def split: option.split upd_file.split)

lemma view_updates [simp]:
  "view (u\<lparr>up_corrupt := c\<rparr>) = view u" "view (u\<lparr>up_self := a\<rparr>) = view u" "view (u\<lparr>up_new := a\<rparr>) = view u" "view (u\<lparr>up_old := a\<rparr>) = view u"
  "view (u\<lparr>up_last := l\<rparr>) = view u" "view (u\<lparr>up_loads := n\<rparr>) = view u" "view (u\<lparr>up_updating := b\<rparr>) = view u"
  by (rule view_cong; simp)+

text \<open>The fields the state file has no part in.\<close>

definition same_node :: "updater \<Rightarrow> updater \<Rightarrow> bool" where
  "same_node u v \<longleftrightarrow> up_version u = up_version v \<and> up_selfPath u = up_selfPath v \<and> up_self u = up_self v \<and> up_new u = up_new v \<and>
     up_loads u = up_loads v \<and> up_last u = up_last v"

lemma save_same: "same_node (saveUpdateState sio st u) u"
  by (simp add: same_node_def saveUpdateState_def split: save_io.split)

lemma save_view: "up_selfPath u \<noteq> [] \<Longrightarrow> view (saveUpdateState Saved st u) = st"
  by (simp add: saveUpdateState_def view_def loadUpdateState_def)

lemma save_fails: "sio \<noteq> Saved \<Longrightarrow> saveUpdateState sio st u = u"
  by (cases sio) (simp_all add: saveUpdateState_def)

lemma save_views:
  "view (saveUpdateState sio st u) = (if up_selfPath u = [] \<or> sio \<noteq> Saved then view u else st)"
proof (cases "sio = Saved")
  case True
  then show ?thesis by (simp add: save_view) (simp add: saveUpdateState_def)
next
  case False
  then show ?thesis by (simp add: save_fails)
qed

lemma same_trans: "same_node u v \<Longrightarrow> same_node v w \<Longrightarrow> same_node u w"
  by (simp add: same_node_def)

lemma same_corrupt: "same_node (u\<lparr>up_corrupt := c\<rparr>) u"
  by (simp add: same_node_def)

lemma same_save_corrupt: "same_node (saveUpdateState sio st (u\<lparr>up_corrupt := c\<rparr>)) u"
  by (rule same_trans[OF save_same same_corrupt])

lemma tag_same: "same_node (noteRefusedTag sio target digest u) u"
  using same_save_corrupt by (simp add: noteRefusedTag_def load_run same_node_def)

lemma refuse_same: "same_node (refuse env sm why want digest st u) u"
  unfolding refuse_def by (rule same_trans[OF tag_same save_same])

lemma admit_same: "admitArtifact env want digest u = (r, u') \<Longrightarrow> same_node u' u"
  unfolding admitArtifact_def load_run using refuse_same same_corrupt same_trans
  by (auto simp: Let_def same_node_def split: sum.splits if_splits option.splits)

lemma spend_same: "spendAttempt sio target digest u = (r, u') \<Longrightarrow> same_node u' u"
  unfolding spendAttempt_def load_run using same_save_corrupt same_corrupt
  by (auto simp: Let_def split: if_splits)

lemma refund_same: "same_node (refundAttempt sio target u) u"
  unfolding refundAttempt_def load_run using same_save_corrupt same_corrupt by (auto simp: Let_def split: option.split)

lemma installed_same: "same_node (noteInstalled env v sha u) u"
  unfolding noteInstalled_def load_run using same_save_corrupt by (simp add: Let_def)

lemma refused_same: "alreadyRefused target digest u = (r, u') \<Longrightarrow> same_node u' u"
  unfolding alreadyRefused_def load_run by (auto simp: same_node_def split: if_splits)


section \<open>What is installed\<close>

text \<open>The download touches only the new file, the log and the count.\<close>

definition download_only :: "updater \<Rightarrow> updater \<Rightarrow> bool" where
  "download_only u v \<longleftrightarrow> up_version v = up_version u \<and> up_selfPath v = up_selfPath u \<and> up_file v = up_file u \<and> up_self v = up_self u"

lemma download_refl: "download_only u u"
  by (simp add: download_only_def)

lemma download_trans: "download_only u v \<Longrightarrow> download_only v w \<Longrightarrow> download_only u w"
  by (simp add: download_only_def)

lemma download_new: "download_only u (u\<lparr>up_new := a\<rparr>)"
  by (simp add: download_only_def)

lemma download_note: "download_only u (noteCheck l u)"
  by (simp add: download_only_def noteCheck_def)

lemma download_view: "download_only u v \<Longrightarrow> view v = view u"
  by (rule view_cong) (simp_all add: download_only_def)

lemma download_try: "intentarDescarga env i u = (r, v) \<Longrightarrow> download_only u v \<and> up_loads v = Suc (up_loads u)"
  by (auto simp: intentarDescarga_def Let_def download_only_def split: dl_answer.splits if_splits)

lemma download_got: "intentarDescarga env i u = (None, v) \<Longrightarrow> up_new v \<noteq> None"
  by (auto simp: intentarDescarga_def Let_def split: dl_answer.splits if_splits)

lemma bajar_loop_run:
  "bajar_loop env want is prev u = (r, v) \<Longrightarrow>
     download_only u v \<and> (r = None \<longrightarrow> up_new v \<noteq> None \<and> (want \<noteq> [] \<longrightarrow> sha256File env (up_new v) = Inr want))"
proof (induction "is" arbitrary: prev u)
  case Nil
  then show ?case using download_refl by auto
next
  case (Cons i "is")
  define u1 where "u1 = (if i > 1 then noteCheck ''reintento'' u else u)"
  have d1: "download_only u u1" using download_note download_refl by (simp add: u1_def)
  obtain e u2 where p: "intentarDescarga env i u1 = (e, u2)" by fastforce
  have d2: "download_only u u2" using download_trans[OF d1] download_try[OF p] by blast
  note run = Cons.prems[unfolded bajar_loop.simps Let_def, folded u1_def, unfolded p]
  show ?case
  proof (cases e)
    case (Some m)
    then have "bajar_loop env want is m u2 = (r, v)" using run by simp
    from Cons.IH[OF this] show ?thesis using d2 download_trans by blast
  next
    case None
    note new = download_got[OF p[unfolded None]]
    show ?thesis
    proof (cases "want = [] \<or> sha256File env (up_new u2) = Inr want")
      case True
      then have "v = u2" "r = None" using run None by (auto split: sum.splits if_splits)
      then show ?thesis using d2 new True by auto
    next
      case False
      then obtain m u3 where b: "bajar_loop env want is m u3 = (r, v)" and u3: "u3 = u2 \<or> u3 = u2\<lparr>up_new := None\<rparr>"
        using run None by (auto split: sum.splits if_splits)
      have "download_only u u3" using u3 d2 download_trans[OF d2 download_new] by blast
      then show ?thesis using Cons.IH[OF b] download_trans by blast
    qed
  qed
qed

lemma admit_ok:
  assumes "admitArtifact env want digest u = (None, u')"
  obtains b where "up_new u = Some b" "ue_read env" "declaredVersion (ue_run env) (ue_trim env) b = Inr want"
    "digest \<noteq> [] \<Longrightarrow> EqualFold (plain_digest digest) (ue_sha env b)" "map_of (us_Refused (view u)) (ue_sha env b) = None"
  using assms unfolding admitArtifact_def load_run sha256File_def
  by (auto simp: Let_def split: sum.splits if_splits option.splits)

lemma admit_reads: "admitArtifact env want digest u = (None, u') \<Longrightarrow> (\<exists>b. up_new u = Some b) \<and> ue_read env"
  by (rule admit_ok) blast+

lemma swap_in_run:
  assumes "swap_in env u = (r, v)"
  shows "case r of
      Inr _ \<Rightarrow> up_self v = up_new u \<and> up_new u \<noteq> None
    | Inl e \<Rightarrow> (\<exists>m. e = Rechazo m) \<and> (ue_ren_back env \<longrightarrow> up_self v = up_self u)"
    and "up_version v = up_version u \<and> up_selfPath v = up_selfPath u \<and> up_file v = up_file u \<and> up_loads v = up_loads u"
  using assms by (auto simp: swap_in_def Let_def split: if_splits)

lemma bajarArtefacto_run:
  assumes "bajarArtefacto env digest startup u = (r, v)"
  shows "download_only u v"
proof -
  obtain r' where "bajar_loop env (map lower_char (plain_digest digest)) [1..<Suc (if startup then 1 else descargasPorIntento)] [] u = (r', v)"
    using assms unfolding bajarArtefacto_def Let_def by (auto split: prod.splits option.splits)
  then show ?thesis using bajar_loop_run by blast
qed

definition installs :: "upd_env \<Rightarrow> string \<Rightarrow> string \<Rightarrow> updateState \<Rightarrow> updater \<Rightarrow> bool" where
  "installs env want digest st v \<longleftrightarrow>
     (case up_self v of
        None \<Rightarrow> False
      | Some b \<Rightarrow> declaredVersion (ue_run env) (ue_trim env) b = Inr want \<and> (digest \<noteq> [] \<longrightarrow> EqualFold (plain_digest digest) (ue_sha env b)) \<and>
          map_of (us_Refused st) (ue_sha env b) = None \<and>
          (ue_save env = Saved \<longrightarrow> in_Version (us_Installed (view v)) = want \<and> in_Sha (us_Installed (view v)) = ue_sha env b))"

lemma noteInstalled_record:
  assumes "ue_save env = Saved" "up_selfPath u \<noteq> []"
  shows "in_Version (us_Installed (view (noteInstalled env v sha u))) = v" "in_Sha (us_Installed (view (noteInstalled env v sha u))) = sha"
  using assms by (simp_all add: noteInstalled_def load_run Let_def save_view)

lemma noteInstalled_installs:
  assumes "up_self u = Some b" "up_selfPath u \<noteq> []" "declaredVersion (ue_run env) (ue_trim env) b = Inr want"
    "digest \<noteq> [] \<Longrightarrow> EqualFold (plain_digest digest) (ue_sha env b)" "map_of (us_Refused st) (ue_sha env b) = None"
  shows "installs env want digest st (noteInstalled env want (ue_sha env b) u)"
proof -
  have "up_self (noteInstalled env want (ue_sha env b) u) = Some b"
    using installed_same[of env want "ue_sha env b" u] assms(1) unfolding same_node_def by simp
  then show ?thesis unfolding installs_def using assms(3-5) noteInstalled_record[OF _ assms(2)] by (auto simp only: option.case)
qed

text \<open>The four ways an update ends.\<close>

lemma applyUpdate_cases:
  assumes "applyUpdate env want digest startup u = (r, v)"
  obtains (nowhere) "up_selfPath u = []" "r = Inl (Rechazo ''no self path'')" "v = u"
  | (download) e where "r = Inl (Descarga e)" "download_only u v"
  | (refused) e u1 u2 where "download_only u u1" "admitArtifact env want digest u1 = (Some e, u2)" "r = Inl (Rechazo e)" "v = u2\<lparr>up_new := None\<rparr>"
  | (stuck) e u1 u2 where "download_only u u1" "admitArtifact env want digest u1 = (None, u2)" "swap_in env u2 = (Inl e, v)" "r = Inl e"
  | (swapped) b u1 u2 u3 where "download_only u u1" "up_new u1 = Some b" "admitArtifact env want digest u1 = (None, u2)" "swap_in env u2 = (Inr (), u3)"
      "r = (if ue_exec env then Inr () else Inl (Rechazo ''exec''))" "v = noteInstalled env want (ue_sha env b) u3" "up_selfPath u \<noteq> []"
proof (cases "up_selfPath u = []")
  case True
  then show ?thesis by (rule that(1)) (use assms True in \<open>auto simp: applyUpdate_def\<close>)
next
  case False
  obtain e1 u1 where p1: "bajarArtefacto env digest startup u = (e1, u1)" by fastforce
  note d = bajarArtefacto_run[OF p1]
  obtain e2 u2 where p2: "admitArtifact env want digest u1 = (e2, u2)" by fastforce
  obtain r3 u3 where p3: "swap_in env u2 = (r3, u3)" by fastforce
  note run = assms[unfolded applyUpdate_def if_not_P[OF False] p1 Let_def]
  show ?thesis
  proof (cases e1)
    case (Some m)
    then have "\<exists>m'. m = Descarga m'" using p1 by (auto simp: bajarArtefacto_def Let_def simp del: upt_Suc split: prod.splits option.splits)
    then obtain m' where "m = Descarga m'" ..
    then show ?thesis by (intro that(2)[of m'] d) (use run Some d in auto)
  next
    case n1: None
    show ?thesis
    proof (cases e2)
      case (Some m)
      then show ?thesis by (intro that(3)[OF d, of m u2]) (use run n1 p2 in auto)
    next
      case n2: None
      show ?thesis
      proof (cases r3)
        case (Inl e)
        then show ?thesis by (intro that(4)[OF d, of u2 e]) (use run n1 p2 p3 n2 in auto)
      next
        case (Inr x)
        from admit_reads[OF p2[unfolded n2]] obtain b where b: "up_new u1 = Some b" "ue_read env" by blast
        have p3': "swap_in env u2 = (Inr (), u3)" using p3 Inr by simp
        have "(if ue_exec env then Inr () else Inl (Rechazo ''exec''), noteInstalled env want (ue_sha env b) u3) = (r, v)"
          using run unfolding n1 p2 n2 prod.case option.case p3' sum.case unit.case by (simp add: sha256File_def b)
        then show ?thesis by (intro that(5)[OF d b(1), of u2 u3]) (use p2 p3' n2 False in auto)
      qed
    qed
  qed
qed

lemma applyUpdate_installs:
  assumes "applyUpdate env want digest startup u = (Inr x, v)"
  shows "up_version v = up_version u \<and> installs env want digest (view u) v"
  using assms
proof (rule applyUpdate_cases)
  fix b u1 u2 u3
  assume h: "download_only u u1" "up_new u1 = Some b" "admitArtifact env want digest u1 = (None, u2)" "swap_in env u2 = (Inr (), u3)"
    "v = noteInstalled env want (ue_sha env b) u3" "up_selfPath u \<noteq> []"
  note s2 = admit_same[OF h(3)] and s3 = swap_in_run[OF h(4)]
  have f: "up_self u3 = Some b" "up_selfPath u3 \<noteq> []" "up_version u3 = up_version u"
    using s2 s3 h(1,2,6) by (simp_all add: same_node_def download_only_def)
  have "installs env want digest (view u) v" unfolding h(5)
    by (rule admit_ok[OF h(3)], rule noteInstalled_installs) (use f h(2) download_view[OF h(1)] in auto)
  moreover have "up_version v = up_version u" using installed_same[of env want "ue_sha env b" u3] f h(5) by (simp add: same_node_def)
  ultimately show ?thesis by blast
qed simp_all

lemma applyUpdate_fails:
  assumes "applyUpdate env want digest startup u = (Inl e, v)"
  shows "up_version v = up_version u" and "ue_ren_back env \<Longrightarrow> ue_exec env \<Longrightarrow> up_self v = up_self u"
proof -
  have "up_version v = up_version u \<and> (ue_ren_back env \<longrightarrow> ue_exec env \<longrightarrow> up_self v = up_self u)"
    using assms
  proof (rule applyUpdate_cases)
    fix e' u1 u2
    assume "download_only u u1" "admitArtifact env want digest u1 = (Some e', u2)" "v = u2\<lparr>up_new := None\<rparr>"
    then show ?thesis using admit_same by (fastforce simp: download_only_def same_node_def)
  next
    fix e' u1 u2
    assume h: "download_only u u1" "admitArtifact env want digest u1 = (None, u2)" "swap_in env u2 = (Inl e', v)"
    show ?thesis using admit_same[OF h(2)] swap_in_run[OF h(3)] h(1) by (simp add: download_only_def same_node_def)
  next
    fix b u1 u2 u3
    assume h: "download_only u u1" "admitArtifact env want digest u1 = (None, u2)" "swap_in env u2 = (Inr (), u3)"
      "Inl e = (if ue_exec env then Inr () else Inl (Rechazo ''exec''))" "v = noteInstalled env want (ue_sha env b) u3"
    show ?thesis using admit_same[OF h(2)] swap_in_run[OF h(3)] installed_same[of env want "ue_sha env b" u3] h(1,4,5)
      by (auto simp: download_only_def same_node_def split: if_splits)
  qed (auto simp: download_only_def)
  then show "up_version v = up_version u" and "ue_ren_back env \<Longrightarrow> ue_exec env \<Longrightarrow> up_self v = up_self u" by blast+
qed

section \<open>One check\<close>

text \<open>What the release that GitHub answers with offers this platform: its version and the published digest.\<close>

definition offer :: "upd_env \<Rightarrow> (string \<times> string) option" where
  "offer env =
     (case ue_api env of
        Inr (status, Some rel) \<Rightarrow>
          if status = 200 \<and> strip_v (re_Tag rel) \<noteq> [] then
            (case find (\<lambda>a. as_Name a = ue_asset env) (re_Assets rel) of
               Some a \<Rightarrow> if as_URL a = [] then None else Some (strip_v (re_Tag rel), as_Digest a)
             | None \<Rightarrow> None)
          else None
      | _ \<Rightarrow> None)"

definition quiet_lines :: "string set" where
  "quiet_lines =
     {''otra actualizacion en curso, no miro'', ''NO me actualizo: estado ilegible'', ''NO he podido mirar: sin respuesta de GitHub'',
      ''NO he podido mirar: GitHub HTTP'', ''NO he podido mirar: respuesta ilegible'', ''NO he podido mirar: sin tag_name'', ''al dia'',
      ''el release no trae la plataforma''}"

definition quiet :: "updater \<Rightarrow> updater \<Rightarrow> bool" where
  "quiet u v \<longleftrightarrow> download_only u v \<and> up_loads v = up_loads u \<and> up_new v = up_new u \<and> (up_version u \<noteq> ''dev'' \<longrightarrow> up_last v \<in> quiet_lines)"

lemma check_release_run:
  assumes "ue_api env = Inr (200, Some rel)" "check_release env rel startup u = (r, v)"
  shows "r = False \<and> quiet u v \<or>
    (\<exists>latest digest. offer env = Some (latest, digest) \<and> up_version u < latest \<and> update_to env latest digest startup u = (r, v))"
  using assms unfolding check_release_def Let_def
  by (auto simp: offer_def quiet_def quiet_lines_def noteCheck_def download_only_def not_le split: if_splits option.splits)

lemma check_reaches:
  assumes "checkAndUpdate env startup u = (r, v)"
  shows "r = False \<and> quiet u v \<or>
    (\<exists>latest digest v'. offer env = Some (latest, digest) \<and> up_version u < latest \<and> up_version u \<noteq> ''dev'' \<and> corr u = [] \<and>
       update_to env latest digest startup (u\<lparr>up_updating := True, up_corrupt := []\<rparr>) = (r, v') \<and> v = v'\<lparr>up_updating := False\<rparr>)"
proof -
  let ?u = "u\<lparr>up_updating := True, up_corrupt := corr u\<rparr>"
  have load: "loadUpdateState (u\<lparr>up_updating := True\<rparr>) = (view u, ?u)"
    by (simp add: view_def corr_def loadUpdateState_def split: option.split upd_file.split)
  have q: "quiet u (w\<lparr>up_updating := False\<rparr>)" if "quiet ?u w" for w
    using that by (simp add: quiet_def download_only_def)
  have note_q: "quiet u (noteCheck l ?u\<lparr>up_updating := False\<rparr>)" if "l \<in> quiet_lines" for l
    using that by (simp add: quiet_def download_only_def noteCheck_def)
  show ?thesis
  proof (cases "up_version u = ''dev'' \<or> up_updating u \<or> corr u \<noteq> [] \<or> (\<forall>rel. ue_api env \<noteq> Inr (200, Some rel))")
    case True
    then have "r = False \<and> (v = u \<and> up_version u = ''dev'' \<or> v = noteCheck ''otra actualizacion en curso, no miro'' u \<or>
        (\<exists>l\<in>quiet_lines. v = noteCheck l ?u\<lparr>up_updating := False\<rparr>))"
      using assms unfolding checkAndUpdate_def load Let_def by (auto simp: quiet_lines_def split: sum.splits option.splits if_splits)
    then show ?thesis using note_q by (auto simp: quiet_def download_only_def noteCheck_def quiet_lines_def)
  next
    case False
    then obtain rel where rel: "ue_api env = Inr (200, Some rel)" by blast
    obtain r' v' where c: "check_release env rel startup ?u = (r', v')" by fastforce
    have rv: "r = r'" "v = v'\<lparr>up_updating := False\<rparr>" using assms False rel c unfolding checkAndUpdate_def load Let_def by auto
    show ?thesis using check_release_run[OF rel c] q False unfolding rv by auto
  qed
qed

lemma refused_run: "alreadyRefused t d u = (r, v) \<Longrightarrow> v = u \<or> v = u\<lparr>up_corrupt := corr u\<rparr>"
  unfolding alreadyRefused_def load_run by (auto split: if_splits)

lemma refused_view: "alreadyRefused t d u = (r, v) \<Longrightarrow> view v = view u"
  using refused_run by fastforce

text \<open>The ways the update ends.\<close>

lemma update_to_cases:
  assumes "update_to env t d startup u = (r, v)"
  obtains (refused) u1 where "alreadyRefused t d u = (True, u1)" "r = False" "v = noteCheck ''detenido: ya se rechazo'' u1"
  | (spent) u1 u2 where "alreadyRefused t d u = (False, u1)" "spendAttempt (ue_save env) t d u1 = (False, u2)" "r = False"
      "v = noteCheck ''detenido: intentos agotados'' u2"
  | (download) u1 u2 e u3 where "alreadyRefused t d u = (False, u1)" "spendAttempt (ue_save env) t d u1 = (True, u2)"
      "applyUpdate env t d startup (noteCheck ''actualizando'' u2) = (Inl (Descarga e), u3)" "r = False"
      "v = noteCheck ''no he podido descargar'' (refundAttempt (ue_save env) t u3)"
  | (failed) u1 u2 e u3 where "alreadyRefused t d u = (False, u1)" "spendAttempt (ue_save env) t d u1 = (True, u2)"
      "applyUpdate env t d startup (noteCheck ''actualizando'' u2) = (Inl (Rechazo e), u3)" "r = False" "v = noteCheck ''la actualizacion fallo'' u3"
  | (installed) u1 u2 where "alreadyRefused t d u = (False, u1)" "spendAttempt (ue_save env) t d u1 = (True, u2)"
      "applyUpdate env t d startup (noteCheck ''actualizando'' u2) = (Inr (), v)" "r = True"
proof -
  obtain b1 u1 where a: "alreadyRefused t d u = (b1, u1)" by fastforce
  obtain b2 u2 where s: "spendAttempt (ue_save env) t d u1 = (b2, u2)" by fastforce
  obtain r3 u3 where p: "applyUpdate env t d startup (noteCheck ''actualizando'' u2) = (r3, u3)" by fastforce
  note run = assms[unfolded update_to_def a prod.case s p]
  consider "b1" | "\<not> b1" "\<not> b2" | e where "\<not> b1" "b2" "r3 = Inl (Descarga e)" | e where "\<not> b1" "b2" "r3 = Inl (Rechazo e)" | "\<not> b1" "b2" "r3 = Inr ()"
    by (metis old.sum.exhaust upd_error.exhaust unit.exhaust)
  then show ?thesis
  proof cases
    case 1
    then have "(False, noteCheck ''detenido: ya se rechazo'' u1) = (r, v)" using run by simp
    then show ?thesis by (intro that(1)[of u1]) (use a 1 in simp_all)
  next
    case 2
    then have "(False, noteCheck ''detenido: intentos agotados'' u2) = (r, v)" using run by simp
    then show ?thesis by (intro that(2)[of u1 u2]) (use a s 2 in simp_all)
  next
    case (3 e)
    then have "(False, noteCheck ''no he podido descargar'' (refundAttempt (ue_save env) t u3)) = (r, v)" using run by simp
    then show ?thesis by (intro that(3)[of u1 u2 e u3]) (use a s p 3 in simp_all)
  next
    case (4 e)
    then have "(False, noteCheck ''la actualizacion fallo'' u3) = (r, v)" using run by simp
    then show ?thesis by (intro that(4)[of u1 u2 e u3]) (use a s p 4 in simp_all)
  next
    case 5
    then have "(True, u3) = (r, v)" using run by (simp split: unit.splits)
    then show ?thesis by (intro that(5)[of u1 u2]) (use a s p 5 in simp_all)
  qed
qed

lemma spend_keeps: "spendAttempt sio t d u = (r, v) \<Longrightarrow> us_Refused (view v) = us_Refused (view u)"
  unfolding spendAttempt_def load_run Let_def by (auto split: if_splits simp: save_views split: save_io.splits)

lemma update_to_installs:
  assumes "update_to env t d startup u = (True, v)"
  shows "up_version v = up_version u \<and> installs env t d (view u) v"
  using assms
proof (rule update_to_cases)
  fix u1 u2
  assume h: "alreadyRefused t d u = (False, u1)" "spendAttempt (ue_save env) t d u1 = (True, u2)"
    "applyUpdate env t d startup (noteCheck ''actualizando'' u2) = (Inr (), v)"
  have "us_Refused (view (noteCheck ''actualizando'' u2)) = us_Refused (view u)"
    using spend_keeps[OF h(2)] refused_view[OF h(1)] by (simp add: noteCheck_def)
  then show ?thesis using applyUpdate_installs[OF h(3)] refused_same[OF h(1)] spend_same[OF h(2)]
    by (simp add: installs_def same_node_def noteCheck_def split: option.splits)
qed simp_all

lemma update_to_fails:
  assumes "update_to env t d startup u = (False, v)"
  shows "up_version v = up_version u \<and> (ue_ren_back env \<longrightarrow> ue_exec env \<longrightarrow> up_self v = up_self u)"
  using assms
proof (rule update_to_cases)
  fix u1 assume "alreadyRefused t d u = (True, u1)" "v = noteCheck ''detenido: ya se rechazo'' u1"
  then show ?thesis using refused_same[of t d u True u1] by (simp add: same_node_def noteCheck_def)
next
  fix u1 u2 assume "alreadyRefused t d u = (False, u1)" "spendAttempt (ue_save env) t d u1 = (False, u2)" "v = noteCheck ''detenido: intentos agotados'' u2"
  then show ?thesis using refused_same[of t d u False u1] spend_same[of "ue_save env" t d u1 False u2] by (simp add: same_node_def noteCheck_def)
next
  fix u1 u2 e u3
  assume h: "alreadyRefused t d u = (False, u1)" "spendAttempt (ue_save env) t d u1 = (True, u2)"
    "applyUpdate env t d startup (noteCheck ''actualizando'' u2) = (Inl (Descarga e), u3)"
    "v = noteCheck ''no he podido descargar'' (refundAttempt (ue_save env) t u3)"
  show ?thesis using refused_same[OF h(1)] spend_same[OF h(2)] applyUpdate_fails[OF h(3)] refund_same[of "ue_save env" t u3]
    by (simp add: same_node_def noteCheck_def h(4))
next
  fix u1 u2 e u3
  assume h: "alreadyRefused t d u = (False, u1)" "spendAttempt (ue_save env) t d u1 = (True, u2)"
    "applyUpdate env t d startup (noteCheck ''actualizando'' u2) = (Inl (Rechazo e), u3)" "v = noteCheck ''la actualizacion fallo'' u3"
  show ?thesis using refused_same[OF h(1)] spend_same[OF h(2)] applyUpdate_fails[OF h(3)] by (simp add: same_node_def noteCheck_def h(4))
qed simp_all

lemma update_sound_run:
  assumes "checkAndUpdate env startup u = (done, v)"
  shows "up_version v = up_version u \<and>
    (if done then \<exists>latest digest. offer env = Some (latest, digest) \<and> up_version u < latest \<and> installs env latest digest (view u) v
     else ue_ren_back env \<and> ue_exec env \<longrightarrow> up_self v = up_self u)"
  using check_reaches[OF assms]
proof (elim disjE exE conjE)
  assume "done = False" "quiet u v"
  then show ?thesis by (simp add: quiet_def download_only_def)
next
  fix latest digest v'
  assume h: "offer env = Some (latest, digest)" "up_version u < latest"
    "update_to env latest digest startup (u\<lparr>up_updating := True, up_corrupt := []\<rparr>) = (done, v')" "v = v'\<lparr>up_updating := False\<rparr>"
  show ?thesis
  proof (cases "done")
    case True
    have "up_version v' = up_version u \<and> installs env latest digest (view u) v'"
      using update_to_installs[of env latest digest startup "u\<lparr>up_updating := True, up_corrupt := []\<rparr>" v'] h(3) True by simp
    then show ?thesis using h(1,2,4) True by (simp add: installs_def split: option.splits)
  next
    case False
    then show ?thesis using update_to_fails[of env latest digest startup "u\<lparr>up_updating := True, up_corrupt := []\<rparr>" v'] h(3,4) by auto
  qed
qed

text \<open>
  What a check may do to the running binary. When it ends in the new program, a newer version than the running one was on offer, and the file
  in place is one that declares exactly that version, whose hash is the published digest if there is one and was not refused before, and it is
  written down as installed. When it does not, and the new program could be started, the binary in place is the one it was.
\<close>

theorem update_sound:
  assumes "checkAndUpdate env startup u = (done, v)"
  shows "up_version v = up_version u \<and>
    (if done then \<exists>latest digest. offer env = Some (latest, digest) \<and> up_version u < latest \<and> installs env latest digest (view u) v
     else ue_ren_back env \<and> ue_exec env \<longrightarrow> up_self v = up_self u)"
  using update_sound_run[OF assms] .


section \<open>Histories\<close>

text \<open>
  The program that \<^verbatim>\<open>reexec\<close> starts: its compiled version is the one it declares, and it records itself
  (\<^verbatim>\<open>bootstrapInstalled\<close> at the start of \<^verbatim>\<open>main\<close>). Each event of a history is a check, at the start or by the ticker or the button.
\<close>

definition boot :: "upd_env \<Rightarrow> updater \<Rightarrow> updater" where
  "boot env u =
     bootstrapInstalled env
       (u\<lparr>up_version := (case up_self u of
              Some b \<Rightarrow> (case declaredVersion (ue_run env) (ue_trim env) b of Inr w \<Rightarrow> w | Inl _ \<Rightarrow> up_version u)
            | None \<Rightarrow> up_version u),
          up_updating := False, up_corrupt := [], up_last := []\<rparr>)"

definition node_step :: "upd_env \<Rightarrow> bool \<Rightarrow> updater \<Rightarrow> updater" where
  "node_step env startup u = (case checkAndUpdate env startup u of (True, v) \<Rightarrow> boot env v | (False, v) \<Rightarrow> v)"

text \<open>
  A restart starts the file that is in place, when there is one. A process that dies in the middle of a check is a check whose later steps failed (\<open>ue_exec\<close>, the
  renames, the saves), followed by a restart. \<open>None\<close> is a node without a program to start. \<open>versions\<close> are the versions that run, after each event.
\<close>

datatype upd_ev = ECheck upd_env bool | ERestart upd_env

definition node_event :: "upd_ev \<Rightarrow> updater \<Rightarrow> updater option" where
  "node_event e u =
     (case e of
        ECheck env startup \<Rightarrow> Some (node_step env startup u)
      | ERestart env \<Rightarrow> if up_self u = None then None else Some (boot env u))"

fun versions :: "upd_ev list \<Rightarrow> updater \<Rightarrow> string list" where
  "versions [] u = []"
| "versions (e # es) u = (case node_event e u of None \<Rightarrow> [] | Some v \<Rightarrow> up_version v # versions es v)"

fun node_run :: "upd_ev list \<Rightarrow> updater \<Rightarrow> updater option" where
  "node_run [] u = Some u"
| "node_run (e # es) u = (case node_event e u of None \<Rightarrow> None | Some v \<Rightarrow> node_run es v)"

lemma boot_same: "up_selfPath (boot env u) = up_selfPath u \<and> up_self (boot env u) = up_self u \<and>
  up_version (boot env u) = (case up_self u of
              Some b \<Rightarrow> (case declaredVersion (ue_run env) (ue_trim env) b of Inr w \<Rightarrow> w | Inl _ \<Rightarrow> up_version u)
            | None \<Rightarrow> up_version u)"
proof -
  have "same_node (bootstrapInstalled env w) w" for w
    unfolding bootstrapInstalled_def load_run using same_trans[OF installed_same same_corrupt] same_corrupt
    by (auto simp: Let_def same_node_def split: sum.splits)
  then show ?thesis unfolding boot_def same_node_def by simp
qed

lemma step_version:
  "if fst (checkAndUpdate env s u) then up_version u < up_version (node_step env s u) \<and> (\<exists>d. offer env = Some (up_version (node_step env s u), d))
   else up_version (node_step env s u) = up_version u"
proof -
  obtain d v where c: "checkAndUpdate env s u = (d, v)" by fastforce
  show ?thesis
  proof (cases d)
    case True
    then obtain latest digest where "offer env = Some (latest, digest)" "up_version u < latest" "installs env latest digest (view u) v"
      using update_sound_run[OF c] by auto
    then show ?thesis using c True boot_same[of env v] by (auto simp: node_step_def installs_def split: option.splits)
  next
    case False
    then show ?thesis using c update_sound_run[OF c] by (simp add: node_step_def)
  qed
qed

text \<open>The file a check leaves in place: the one that was there, none, or one that declares what was asked for.\<close>

definition placed :: "upd_env \<Rightarrow> string \<Rightarrow> updater \<Rightarrow> updater \<Rightarrow> bool" where
  "placed env want u v \<longleftrightarrow> (\<forall>b. up_self v = Some b \<longrightarrow> up_self u = Some b \<or> declaredVersion (ue_run env) (ue_trim env) b = Inr want)"

lemma swap_in_place: "swap_in env u = (Inl e, v) \<Longrightarrow> up_self v = up_self u \<or> up_self v = None"
  by (auto simp: swap_in_def Let_def split: if_splits)

lemma applyUpdate_place:
  assumes "applyUpdate env want digest startup u = (r, v)"
  shows "placed env want u v"
  using assms
proof (rule applyUpdate_cases)
  fix e u1 u2
  assume "download_only u u1" "admitArtifact env want digest u1 = (Some e, u2)" "v = u2\<lparr>up_new := None\<rparr>"
  then show ?thesis using admit_same by (fastforce simp: placed_def download_only_def same_node_def)
next
  fix e u1 u2
  assume h: "download_only u u1" "admitArtifact env want digest u1 = (None, u2)" "swap_in env u2 = (Inl e, v)"
  then show ?thesis using admit_same[OF h(2)] swap_in_place[OF h(3)] by (auto simp: placed_def download_only_def same_node_def)
next
  fix b u1 u2 u3
  assume h: "download_only u u1" "up_new u1 = Some b" "admitArtifact env want digest u1 = (None, u2)" "swap_in env u2 = (Inr (), u3)"
    "v = noteInstalled env want (ue_sha env b) u3"
  have "declaredVersion (ue_run env) (ue_trim env) b = Inr want" by (rule admit_ok[OF h(3)]) (use h(2) in simp)
  moreover have "up_self v = Some b"
    using admit_same[OF h(3)] swap_in_run[OF h(4)] installed_same[of env want "ue_sha env b" u3] h(2,5) by (simp add: same_node_def)
  ultimately show ?thesis by (simp add: placed_def)
qed (auto simp: placed_def download_only_def)

lemma update_to_place:
  assumes "update_to env t d startup u = (r, v)"
  shows "placed env t u v"
proof -
  have self: "up_self u2 = up_self u" if "alreadyRefused t d u = (False, u1)" "spendAttempt (ue_save env) t d u1 = (b, u2)" for u1 u2 b
    using refused_same[OF that(1)] spend_same[OF that(2)] by (simp add: same_node_def)
  have onward: "placed env t u y" if "up_self x = up_self u" "applyUpdate env t d startup (noteCheck l x) = (r', y)" for x y l r'
    using applyUpdate_place[OF that(2)] that(1) by (simp add: placed_def noteCheck_def)
  have cong: "placed env t u w" if "placed env t u y" "up_self w = up_self y" for w y using that by (simp add: placed_def)
  show ?thesis
    using assms
  proof (rule update_to_cases)
    fix u1 assume h: "alreadyRefused t d u = (True, u1)" "v = noteCheck ''detenido: ya se rechazo'' u1"
    show ?thesis using refused_same[OF h(1)] h(2) by (simp add: placed_def same_node_def noteCheck_def)
  next
    fix u1 u2
    assume h: "alreadyRefused t d u = (False, u1)" "spendAttempt (ue_save env) t d u1 = (False, u2)" "v = noteCheck ''detenido: intentos agotados'' u2"
    show ?thesis using self[OF h(1,2)] h(3) by (simp add: placed_def noteCheck_def)
  next
    fix u1 u2 e u3
    assume h: "alreadyRefused t d u = (False, u1)" "spendAttempt (ue_save env) t d u1 = (True, u2)"
      "applyUpdate env t d startup (noteCheck ''actualizando'' u2) = (Inl (Descarga e), u3)"
      "v = noteCheck ''no he podido descargar'' (refundAttempt (ue_save env) t u3)"
    show ?thesis
      by (rule cong[OF onward[OF self[OF h(1,2)] h(3)]]) (use refund_same[of "ue_save env" t u3] h(4) in \<open>simp add: same_node_def noteCheck_def\<close>)
  next
    fix u1 u2 e u3
    assume h: "alreadyRefused t d u = (False, u1)" "spendAttempt (ue_save env) t d u1 = (True, u2)"
      "applyUpdate env t d startup (noteCheck ''actualizando'' u2) = (Inl (Rechazo e), u3)" "v = noteCheck ''la actualizacion fallo'' u3"
    show ?thesis by (rule cong[OF onward[OF self[OF h(1,2)] h(3)]]) (simp add: h(4) noteCheck_def)
  next
    fix u1 u2
    assume h: "alreadyRefused t d u = (False, u1)" "spendAttempt (ue_save env) t d u1 = (True, u2)"
      "applyUpdate env t d startup (noteCheck ''actualizando'' u2) = (Inr (), v)"
    show ?thesis by (rule onward[OF self[OF h(1,2)] h(3)])
  qed
qed

text \<open>The file in place declares a version, at least the one that runs.\<close>

definition in_place :: "(bytes \<Rightarrow> bool \<times> string) \<Rightarrow> (string \<Rightarrow> string) \<Rightarrow> updater \<Rightarrow> bool" where
  "in_place run trim u \<longleftrightarrow> (\<forall>b. up_self u = Some b \<longrightarrow> (\<exists>w. declaredVersion run trim b = Inr w \<and> up_version u \<le> w))"

lemma check_in_place:
  assumes "checkAndUpdate env startup u = (done, v)" "in_place (ue_run env) (ue_trim env) u"
  shows "in_place (ue_run env) (ue_trim env) v"
  using check_reaches[OF assms(1)]
proof (elim disjE exE conjE)
  assume "quiet u v"
  then show ?thesis using assms(2) by (simp add: in_place_def quiet_def download_only_def)
next
  fix latest digest v'
  assume h: "up_version u < latest" "update_to env latest digest startup (u\<lparr>up_updating := True, up_corrupt := []\<rparr>) = (done, v')" "v = v'\<lparr>up_updating := False\<rparr>"
  have "up_version v = up_version u" using update_sound_run[OF assms(1)] by simp
  then show ?thesis using update_to_place[OF h(2)] h(1,3) assms(2) by (fastforce simp: placed_def in_place_def)
qed

lemma boot_in_place:
  assumes "in_place (ue_run env) (ue_trim env) u" "up_self u = Some b"
  shows "in_place (ue_run env) (ue_trim env) (boot env u)" "up_version u \<le> up_version (boot env u)"
proof -
  obtain w where w: "declaredVersion (ue_run env) (ue_trim env) b = Inr w" "up_version u \<le> w" using assms by (auto simp: in_place_def)
  have "up_self (boot env u) = Some b" "up_version (boot env u) = w" using boot_same[of env u] assms(2) w(1) by simp_all
  then show "in_place (ue_run env) (ue_trim env) (boot env u)" "up_version u \<le> up_version (boot env u)" using w by (simp_all add: in_place_def)
qed

text \<open>In a history every program answers to the same run and trim.\<close>

definition answers :: "(bytes \<Rightarrow> bool \<times> string) \<Rightarrow> (string \<Rightarrow> string) \<Rightarrow> upd_ev \<Rightarrow> bool" where
  "answers run trim e \<longleftrightarrow> (case e of ECheck env s \<Rightarrow> ue_run env = run \<and> ue_trim env = trim | ERestart env \<Rightarrow> ue_run env = run \<and> ue_trim env = trim)"

lemma event_in_place:
  assumes "node_event e u = Some v" "in_place run trim u" "answers run trim e"
  shows "in_place run trim v \<and> up_version u \<le> up_version v"
proof (cases e)
  case (ECheck env startup)
  obtain d x where c: "checkAndUpdate env startup u = (d, x)" by fastforce
  have x: "in_place run trim x" "up_version x = up_version u"
    using check_in_place[OF c] update_sound_run[OF c] assms(2,3) ECheck by (simp_all add: answers_def)
  show ?thesis
  proof (cases d)
    case True
    then obtain b where "up_self x = Some b" using update_sound_run[OF c] by (auto simp: installs_def split: option.splits)
    then show ?thesis using boot_in_place[of env x b] x assms(1,3) c True ECheck by (simp add: node_event_def node_step_def answers_def)
  next
    case False
    then show ?thesis using x assms(1) c ECheck by (simp add: node_event_def node_step_def)
  qed
next
  case (ERestart env)
  then obtain b where "up_self u = Some b" "v = boot env u" using assms(1) by (auto simp: node_event_def split: if_splits)
  then show ?thesis using boot_in_place[of env u b] assms(2,3) ERestart by (simp add: answers_def)
qed

lemma versions_least: "in_place run trim u \<Longrightarrow> list_all (answers run trim) es \<Longrightarrow> x \<in> set (versions es u) \<Longrightarrow> up_version u \<le> x"
proof (induction es u rule: versions.induct)
  case (2 e es u)
  show ?case
  proof (cases "node_event e u")
    case (Some v)
    have v: "in_place run trim v" "up_version u \<le> up_version v" using event_in_place[OF Some] 2(2,3) by simp_all
    show ?thesis
    proof (cases "x = up_version v")
      case False
      then have "up_version v \<le> x" using 2(1)[OF Some v(1)] 2(3,4) Some by simp
      then show ?thesis using v(2) by (rule order_trans[rotated])
    qed (simp add: v)
  qed (use 2(4) in simp)
qed simp

lemma run_in_place: "in_place run trim u \<Longrightarrow> list_all (answers run trim) es \<Longrightarrow> node_run es u = Some v \<Longrightarrow> in_place run trim v"
proof (induction es u rule: node_run.induct)
  case (2 e es u)
  then show ?case using event_in_place[of e u] by (fastforce split: option.splits)
qed simp

text \<open>
  C15. Updating never goes back. Over any history of checks and restarts, whatever the releases are labelled, whichever downloads, renames and saves
  fail and wherever a process dies, the versions that run, the ones a restart starts included, never decrease; the file in place always declares a version, which is not below the one
  that runs, so what a check refused is never left there; and a check that ends in the new program raises the version. It supposes that the file in place at the start declares the version
  that runs or a newer one, and that a program tells the same version whenever it is asked.
\<close>

theorem versions_increase:
  assumes "in_place run trim u" "list_all (answers run trim) es"
  shows "sorted_wrt (\<le>) (up_version u # versions es u) \<and>
    (\<forall>v. node_run es u = Some v \<longrightarrow> in_place run trim v \<and>
       (\<forall>env s. fst (checkAndUpdate env s v) \<longrightarrow> up_version v < up_version (node_step env s v)))"
proof -
  have "sorted_wrt (\<le>) (up_version u # versions es u)"
    using assms
  proof (induction es u rule: versions.induct)
    case (2 e es u)
    show ?case
    proof (cases "node_event e u")
      case (Some v)
      have v: "in_place run trim v" "up_version u \<le> up_version v" using event_in_place[OF Some] 2(2,3) by simp_all
      then show ?thesis using 2(1)[OF Some v(1)] 2(3) versions_least[OF v(1), of es] Some by (auto intro: order_trans)
    qed simp
  qed simp
  moreover have "up_version v < up_version (node_step env s v)" if "fst (checkAndUpdate env s v)" for env s v
    using step_version[of env s v] that by simp
  ultimately show ?thesis using run_in_place[OF assms] by blast
qed

section \<open>The belt\<close>

text \<open>
  A run in which every step is paid for out of a credit that only the steps change: what the steps cost in all is at most the credit at the start.
\<close>

fun run_cost :: "('e \<Rightarrow> 's \<Rightarrow> 's) \<Rightarrow> ('e \<Rightarrow> 's \<Rightarrow> nat) \<Rightarrow> 'e list \<Rightarrow> 's \<Rightarrow> nat" where
  "run_cost f c [] s = 0"
| "run_cost f c (e # es) s = c e s + run_cost f c es (f e s)"

locale paid_run =
  fixes act :: "'e \<Rightarrow> 's \<Rightarrow> 's" and cost :: "'e \<Rightarrow> 's \<Rightarrow> nat" and credit :: "'s \<Rightarrow> nat" and ok :: "'e \<Rightarrow> bool" and good :: "'s \<Rightarrow> bool"
  assumes keeps: "ok e \<Longrightarrow> good s \<Longrightarrow> good (act e s)"
    and pays: "ok e \<Longrightarrow> good s \<Longrightarrow> cost e s + credit (act e s) \<le> credit s"
begin

lemma run_cost_le: "list_all ok es \<Longrightarrow> good s \<Longrightarrow> run_cost act cost es s \<le> credit s"
proof (induction es arbitrary: s)
  case (Cons e es)
  then have "run_cost act cost es (act e s) \<le> credit (act e s)" "cost e s + credit (act e s) \<le> credit s"
    using keeps[of e s] pays[of e s] by simp_all
  then show ?case by simp
qed simp

end

text \<open>The attempts that count against the artifact with this digest.\<close>

definition eff :: "string \<Rightarrow> string \<Rightarrow> updateState \<Rightarrow> nat" where
  "eff t d st = (if d \<noteq> [] \<and> lk (us_Digests st) t \<noteq> d then 0 else attempts st t)"

definition budget :: "string \<Rightarrow> string \<Rightarrow> updater \<Rightarrow> nat" where
  "budget t d u = (if t \<le> up_version u then 0 else maxAttemptsPerVersion - eff t d (view u))"

definition failed_check :: "upd_env \<times> bool \<Rightarrow> updater \<Rightarrow> nat" where
  "failed_check e u =
     (if up_version u \<noteq> ''dev'' \<and> \<not> fst (checkAndUpdate (fst e) (snd e) u) \<and>
        up_last (snd (checkAndUpdate (fst e) (snd e) u)) = ''la actualizacion fallo'' then 1 else 0)"

definition publishes :: "string \<Rightarrow> string \<Rightarrow> upd_env \<times> bool \<Rightarrow> bool" where
  "publishes t d e \<longleftrightarrow> offer (fst e) = Some (t, d) \<and> ue_save (fst e) = Saved \<and> ue_exec (fst e)"

definition same_counts :: "updater \<Rightarrow> updater \<Rightarrow> bool" where
  "same_counts u v \<longleftrightarrow> up_selfPath v = up_selfPath u \<and> us_Attempts (view v) = us_Attempts (view u) \<and> us_Digests (view v) = us_Digests (view u)"

lemma counts_trans: "same_counts u v \<Longrightarrow> same_counts v w \<Longrightarrow> same_counts u w"
  by (simp add: same_counts_def)

lemma counts_eff: "same_counts u v \<Longrightarrow> eff t d (view v) = eff t d (view u)"
  by (simp add: same_counts_def eff_def attempts_def)

lemma tag_counts: "same_counts u (noteRefusedTag sio t d u)"
  unfolding noteRefusedTag_def load_run using save_same same_save_corrupt
  by (auto simp: same_counts_def save_views same_node_def)

lemma admit_run:
  "admitArtifact env want d u = (r, v) \<Longrightarrow>
     v = u \<or> v = u\<lparr>up_corrupt := corr u\<rparr> \<or> (\<exists>sm why. v = refuse env sm why want d (view u) (u\<lparr>up_corrupt := corr u\<rparr>))"
  unfolding admitArtifact_def load_run Let_def by (auto split: sum.splits if_splits option.splits)

lemma refuse_counts: "same_counts u (refuse env sm why want d (view u) (u\<lparr>up_corrupt := c\<rparr>))"
  unfolding refuse_def
  by (rule counts_trans[OF _ tag_counts]) (use same_save_corrupt in \<open>auto simp: same_counts_def save_views same_node_def\<close>)

lemma admit_counts: "admitArtifact env want d u = (r, v) \<Longrightarrow> same_counts u v"
  by (drule admit_run, elim disjE exE) (simp_all add: refuse_counts, simp_all add: same_counts_def)

lemma download_counts: "download_only u v \<Longrightarrow> same_counts u v"
  using download_view[of u v] by (simp add: same_counts_def download_only_def)

lemma swap_counts: "swap_in env u = (r, v) \<Longrightarrow> same_counts u v"
  using swap_in_run(2)[of env u r v] view_cong[of v u] by (simp add: same_counts_def)

lemma apply_counts:
  assumes "applyUpdate env t d s u = (Inl e, v)" "ue_exec env"
  shows "same_counts u v"
  using assms(1)
proof (rule applyUpdate_cases)
  fix e' u1 u2
  assume h: "download_only u u1" "admitArtifact env t d u1 = (Some e', u2)" "v = u2\<lparr>up_new := None\<rparr>"
  show ?thesis unfolding h(3) using counts_trans[OF download_counts[OF h(1)] admit_counts[OF h(2)]] by (simp add: same_counts_def)
next
  fix e' u1 u2
  assume h: "download_only u u1" "admitArtifact env t d u1 = (None, u2)" "swap_in env u2 = (Inl e', v)"
  show ?thesis using counts_trans[OF counts_trans[OF download_counts[OF h(1)] admit_counts[OF h(2)]] swap_counts[OF h(3)]] .
qed (use assms(2) download_counts in \<open>auto simp: same_counts_def\<close>)

lemma spend_eff:
  assumes "spendAttempt Saved t d u = (True, v)" "up_selfPath u \<noteq> []"
  shows "eff t d (view v) = Suc (eff t d (view u)) \<and> eff t d (view u) < maxAttemptsPerVersion \<and>
    (d \<noteq> [] \<longrightarrow> lk (us_Digests (view v)) t = d) \<and> map_of (us_Attempts (view v)) t = Some (Suc (eff t d (view u)))"
proof -
  define st where "st = (if d \<noteq> [] \<and> lk (us_Digests (view u)) t \<noteq> d
     then view u\<lparr>us_Attempts := AList.update t 0 (us_Attempts (view u)), us_Digests := AList.update t d (us_Digests (view u))\<rparr> else view u)"
  have e: "attempts st t = eff t d (view u)" by (simp add: st_def eff_def attempts_def update_conv)
  have k: "d \<noteq> [] \<longrightarrow> lk (us_Digests st) t = d" by (simp add: st_def lk_def update_conv)
  have "\<not> maxAttemptsPerVersion < attempts st t + 1"
    "v = saveUpdateState Saved (st\<lparr>us_Attempts := AList.update t (attempts st t + 1) (us_Attempts st)\<rparr>) (u\<lparr>up_corrupt := corr u\<rparr>)"
    using assms(1) unfolding spendAttempt_def load_run Let_def prod.case st_def[symmetric] by (auto split: if_splits)
  then have v: "view v = st\<lparr>us_Attempts := AList.update t (Suc (eff t d (view u))) (us_Attempts st)\<rparr>" and "eff t d (view u) < maxAttemptsPerVersion"
    using e assms(2) by (simp_all add: save_views)
  then show ?thesis using k unfolding v by (auto simp: eff_def attempts_def update_conv)
qed

lemma spend_self: "spendAttempt sio t d u = (r, v) \<Longrightarrow> up_selfPath v = up_selfPath u"
  using spend_same by (auto simp: same_node_def)

lemma refund_eff:
  assumes "map_of (us_Attempts (view u)) t = Some (Suc n)" "d \<noteq> [] \<longrightarrow> lk (us_Digests (view u)) t = d" "up_selfPath u \<noteq> []"
  shows "eff t d (view (refundAttempt Saved t u)) = n"
  using assms by (auto simp: refundAttempt_def load_run Let_def save_views eff_def attempts_def update_conv delete_conv)

text \<open>A check that does not install: a failure of the artifact costs one attempt, anything else none.\<close>

lemma update_to_pays:
  assumes "update_to env t d s u = (False, v)" "ue_save env = Saved" "ue_exec env" "up_selfPath u \<noteq> []"
  shows "if up_last v = ''la actualizacion fallo'' then eff t d (view v) = Suc (eff t d (view u)) \<and> eff t d (view u) < maxAttemptsPerVersion
    else eff t d (view v) = eff t d (view u)"
  using assms(1)
proof (rule update_to_cases)
  fix u1 assume "alreadyRefused t d u = (True, u1)" "v = noteCheck ''detenido: ya se rechazo'' u1"
  then show ?thesis using refused_view[of t d u True u1] by (simp add: noteCheck_def)
next
  fix u1 u2 assume h: "alreadyRefused t d u = (False, u1)" "spendAttempt (ue_save env) t d u1 = (False, u2)" "v = noteCheck ''detenido: intentos agotados'' u2"
  then have "view u2 = view u1" by (auto simp: spendAttempt_def load_run Let_def split: if_splits)
  then show ?thesis using refused_view[OF h(1)] by (simp add: noteCheck_def h(3))
next
  fix u1 u2 e u3
  assume h: "alreadyRefused t d u = (False, u1)" "spendAttempt (ue_save env) t d u1 = (True, u2)"
    "applyUpdate env t d s (noteCheck ''actualizando'' u2) = (Inl (Descarga e), u3)"
    "v = noteCheck ''no he podido descargar'' (refundAttempt (ue_save env) t u3)"
  have p: "up_selfPath u1 \<noteq> []" using refused_same[OF h(1)] assms(4) by (simp add: same_node_def)
  note sp = spend_eff[OF h(2)[unfolded assms(2)] p] and ac = apply_counts[OF h(3) assms(3), unfolded same_counts_def]
  have "eff t d (view (refundAttempt Saved t u3)) = eff t d (view u1)"
    by (rule refund_eff) (use sp ac p spend_self[OF h(2)] in \<open>auto simp: noteCheck_def\<close>)
  then show ?thesis using refused_view[OF h(1)] assms(2) by (simp add: noteCheck_def h(4))
next
  fix u1 u2 e u3
  assume h: "alreadyRefused t d u = (False, u1)" "spendAttempt (ue_save env) t d u1 = (True, u2)"
    "applyUpdate env t d s (noteCheck ''actualizando'' u2) = (Inl (Rechazo e), u3)" "v = noteCheck ''la actualizacion fallo'' u3"
  have p: "up_selfPath u1 \<noteq> []" using refused_same[OF h(1)] assms(4) by (simp add: same_node_def)
  show ?thesis using spend_eff[OF h(2)[unfolded assms(2)] p] counts_eff[OF apply_counts[OF h(3) assms(3)], of t d] refused_view[OF h(1)]
    by (simp add: noteCheck_def h(4))
qed simp_all

lemma same_path: "checkAndUpdate env s u = (r, v) \<Longrightarrow> up_selfPath v = up_selfPath u"
proof -
  assume a: "checkAndUpdate env s u = (r, v)"
  have ap: "applyUpdate e t d s' w = (r', x) \<Longrightarrow> up_selfPath x = up_selfPath w" for e t d s' w r' x
    by (erule applyUpdate_cases)
      (use admit_same swap_in_run(2) installed_same in \<open>fastforce simp: same_node_def download_only_def\<close>)+
  have "update_to e t d s' w = (r', x) \<Longrightarrow> up_selfPath x = up_selfPath w" for e t d s' w r' x
    by (erule update_to_cases) (use refused_same spend_same refund_same ap in \<open>fastforce simp: same_node_def noteCheck_def\<close>)+
  then show ?thesis using check_reaches[OF a] by (auto simp: quiet_def download_only_def)
qed

lemma budget_pays:
  assumes "publishes t d (env, s)" "up_selfPath u \<noteq> []"
  shows "failed_check (env, s) u + budget t d (node_step env s u) \<le> budget t d u"
proof -
  obtain r v where c: "checkAndUpdate env s u = (r, v)" by fastforce
  show ?thesis
  proof (cases r)
    case True
    have b: "budget t d (node_step env s u) = 0" using step_version[of env s u] c True assms(1) by (auto simp: budget_def publishes_def)
    then show ?thesis using True c by (simp add: failed_check_def)
  next
    case False
    have nv: "node_step env s u = v" using c False by (simp add: node_step_def)
    from check_reaches[OF c] show ?thesis
    proof (elim disjE exE conjE)
      assume "quiet u v"
      then show ?thesis using download_view[of u v] c
        by (auto simp: nv quiet_def budget_def failed_check_def quiet_lines_def download_only_def)
    next
      fix t' d' v'
      assume h: "offer env = Some (t', d')" "up_version u < t'" "update_to env t' d' s (u\<lparr>up_updating := True, up_corrupt := []\<rparr>) = (r, v')"
        "v = v'\<lparr>up_updating := False\<rparr>"
      have td: "t' = t" "d' = d" using h(1) assms(1) by (simp_all add: publishes_def)
      have p: "if up_last v = ''la actualizacion fallo'' then eff t d (view v) = Suc (eff t d (view u)) \<and> eff t d (view u) < maxAttemptsPerVersion
        else eff t d (view v) = eff t d (view u)"
        using update_to_pays[of env t d s "u\<lparr>up_updating := True, up_corrupt := []\<rparr>" v'] h(3) td False assms by (auto simp: publishes_def h(4) split: if_splits)
      have "up_version v = up_version u" using update_sound_run[OF c] by blast
      then show ?thesis using p h(2) td c nv by (auto simp: budget_def failed_check_def split: if_splits)
    qed
  qed
qed

lemma step_path: "up_selfPath (node_step env s u) = up_selfPath u"
proof -
  obtain r v where c: "checkAndUpdate env s u = (r, v)" by fastforce
  then show ?thesis using same_path[OF c] boot_same[of env v] by (simp add: node_step_def split: bool.split)
qed

interpretation belt: paid_run "\<lambda>e. node_step (fst e) (snd e)" failed_check "budget t d" "publishes t d" "\<lambda>u. up_selfPath u \<noteq> []" for t d
proof unfold_locales
  show "up_selfPath (node_step (fst e) (snd e) s) \<noteq> []" if "publishes t d e" "up_selfPath s \<noteq> []" for e s
    using that step_path by simp
  show "failed_check e s + budget t d (node_step (fst e) (snd e) s) \<le> budget t d s" if "publishes t d e" "up_selfPath s \<noteq> []" for e s
    using that budget_pays[of t d "fst e" "snd e" s] by simp
qed

text \<open>
  C16. The belt. While the same artifact is published, the state file can be written and the new program can be started, at most three checks of
  a node fail on the artifact, however many checks there are and whatever the network does in between.
\<close>

theorem attempts_bounded:
  assumes "list_all (publishes t d) es" "up_selfPath u \<noteq> []"
  shows "run_cost (\<lambda>e. node_step (fst e) (snd e)) failed_check es u \<le> maxAttemptsPerVersion"
proof -
  have "budget t d u \<le> maxAttemptsPerVersion" by (simp add: budget_def)
  then show ?thesis using belt.run_cost_le[OF assms] by linarith
qed

lemma blocked_by:
  assumes "corr u = []" "up_version u < t" "map_of (us_RefusedTags (view u)) t \<noteq> None \<or> maxAttemptsPerVersion \<le> attempts (view u) t"
  shows "fst (blockedReason u) \<noteq> NotBlocked"
proof -
  have k: "t \<in> fst ` set m" if "map_of m t \<noteq> None" for m :: "(string \<times> 'b) list"
    using that by (simp add: map_of_eq_None_iff)
  have "t \<in> set (map fst (us_Attempts (view u)))" if "maxAttemptsPerVersion \<le> attempts (view u) t"
    using that k[of "us_Attempts (view u)"] by (auto simp: attempts_def maxAttemptsPerVersion_def split: option.splits)
  then have "find (\<lambda>t. t > up_version u \<and> attempts (view u) t \<ge> maxAttemptsPerVersion) (sort (map fst (us_Attempts (view u)))) \<noteq> None \<or>
    find (\<lambda>t. t > up_version u) (sort (map fst (us_RefusedTags (view u)))) \<noteq> None"
    using assms(2,3) k[of "us_RefusedTags (view u)"] by (auto simp: find_None_iff)
  then show ?thesis using assms(1) by (auto simp: blockedReason_def load_run Let_def split: option.splits)
qed

text \<open>
  A node that stops updating says so: whenever a check ends in one of the two refusals that come before any download, the line for the panel
  is not empty.
\<close>

theorem stopped_visible:
  assumes "checkAndUpdate env startup u = (False, v)" "up_version u \<noteq> ''dev''"
    "up_last v \<in> {''detenido: ya se rechazo'', ''detenido: intentos agotados''}"
  shows "fst (blockedReason v) \<noteq> NotBlocked"
  using check_reaches[OF assms(1)]
proof (elim disjE exE conjE)
  assume "quiet u v"
  then show ?thesis using assms(2,3) by (auto simp: quiet_def quiet_lines_def)
next
  fix t d v'
  let ?u = "u\<lparr>up_updating := True, up_corrupt := []\<rparr>"
  assume h: "up_version u < t" "corr u = []" "update_to env t d startup ?u = (False, v')" "v = v'\<lparr>up_updating := False\<rparr>"
  have none: "view u = emptyState" if "up_selfPath u = []"
    using that by (simp add: view_def loadUpdateState_def)
  have cc: "corr w = corr u \<and> view w = view u" if "up_selfPath w = up_selfPath u" "up_file w = up_file u" "view u \<noteq> emptyState" for w
  proof -
    have "up_selfPath u \<noteq> []" using that(3) none by blast
    then show ?thesis using that(1,2) by (simp add: corr_def view_def loadUpdateState_def split: option.split upd_file.split)
  qed
  from h(3) show ?thesis
  proof (rule update_to_cases)
    fix u1 assume a: "alreadyRefused t d ?u = (True, u1)" "v' = noteCheck ''detenido: ya se rechazo'' u1"
    have "lk (us_RefusedTags (view u)) t = d" "d \<noteq> []" "up_selfPath u1 = up_selfPath u" "up_file u1 = up_file u" "up_version u1 = up_version u"
      using a(1) by (auto simp: alreadyRefused_def load_run split: if_splits)
    moreover from this have "view u \<noteq> emptyState" by (auto simp: emptyState_def lk_def)
    ultimately show ?thesis using h(1,2,4) a(2) cc[of v] by (intro blocked_by[of v t]) (auto simp: noteCheck_def lk_def split: option.splits)
  next
    fix u1 u2 assume a: "alreadyRefused t d ?u = (False, u1)" "spendAttempt (ue_save env) t d u1 = (False, u2)" "v' = noteCheck ''detenido: intentos agotados'' u2"
    have f: "up_selfPath u1 = up_selfPath u" "up_file u1 = up_file u" "up_version u1 = up_version u"
      using refused_run[OF a(1)] by auto
    have u2: "u2 = u1\<lparr>up_corrupt := corr u1\<rparr>" "maxAttemptsPerVersion \<le> attempts (view u1) t"
      using a(2) by (auto simp: spendAttempt_def load_run Let_def maxAttemptsPerVersion_def attempts_def update_conv split: if_splits)
    have "view u1 = view u" using refused_view[OF a(1)] by simp
    moreover from this have "view u \<noteq> emptyState" using u2(2) by (auto simp: emptyState_def attempts_def maxAttemptsPerVersion_def)
    ultimately show ?thesis using h(1,2,4) a(3) f u2 cc[of v] by (intro blocked_by[of v t]) (auto simp: noteCheck_def)
  qed (use assms(3) h(4) in \<open>auto simp: noteCheck_def\<close>)
qed

section \<open>Where the belt does not hold\<close>

text \<open>A release whose artifact arrives whole at the first try and has the published digest.\<close>

definition arrives :: "upd_env \<Rightarrow> string \<Rightarrow> string \<Rightarrow> bytes \<Rightarrow> bool" where
  "arrives env t d b \<longleftrightarrow> offer env = Some (t, d) \<and> ue_dl env 1 = DlBody b \<and> 1000000 \<le> length b \<and> ue_open env \<and> ue_read env \<and>
     (d \<noteq> [] \<longrightarrow> map lower_char (plain_digest d) = ue_sha env b \<and> EqualFold (plain_digest d) (ue_sha env b))"

text \<open>A node that will try it.\<close>

definition ready :: "upd_env \<Rightarrow> string \<Rightarrow> string \<Rightarrow> bytes \<Rightarrow> updater \<Rightarrow> bool" where
  "ready env t d b u \<longleftrightarrow> up_selfPath u \<noteq> [] \<and> up_version u \<noteq> ''dev'' \<and> up_version u < t \<and> up_self u \<noteq> None \<and> corr u = [] \<and>
     map_of (us_Refused (view u)) (ue_sha env b) = None \<and> (d \<noteq> [] \<longrightarrow> lk (us_RefusedTags (view u)) t \<noteq> d) \<and> eff t d (view u) < maxAttemptsPerVersion"

fun checks :: "upd_env \<Rightarrow> nat \<Rightarrow> updater \<Rightarrow> updater" where
  "checks env 0 u = u"
| "checks env (Suc n) u = checks env n (snd (checkAndUpdate env False u))"

lemma checks_repeat:
  assumes "\<And>u. P u \<Longrightarrow> P (snd (checkAndUpdate env False u)) \<and> up_loads (snd (checkAndUpdate env False u)) = Suc (up_loads u)" "P u"
  shows "P (checks env n u) \<and> up_loads (checks env n u) = up_loads u + n"
  using assms(2)
proof (induction n arbitrary: u)
  case (Suc n)
  then show ?case using assms(1)[OF Suc.prems] Suc.IH[of "snd (checkAndUpdate env False u)"] by simp
qed simp

lemma offer_check:
  assumes "offer env = Some (t, d)" "up_version u < t" "up_version u \<noteq> ''dev''" "\<not> up_updating u" "corr u = []"
  shows "checkAndUpdate env s u =
    (let (r, v) = update_to env t d s (u\<lparr>up_updating := True, up_corrupt := []\<rparr>) in (r, v\<lparr>up_updating := False\<rparr>))"
proof -
  have load: "loadUpdateState (u\<lparr>up_updating := True\<rparr>) = (view u, u\<lparr>up_updating := True, up_corrupt := []\<rparr>)"
    using assms(5) by (simp add: view_def corr_def loadUpdateState_def split: option.splits upd_file.splits if_splits)
  obtain rel a where "ue_api env = Inr (200, Some rel)" "strip_v (re_Tag rel) = t" "t \<noteq> []"
    "find (\<lambda>a. as_Name a = ue_asset env) (re_Assets rel) = Some a" "as_URL a \<noteq> []" "as_Digest a = d"
    using assms(1) by (auto simp: offer_def split: sum.splits option.splits if_splits)
  moreover have "\<not> t \<le> up_version u" using assms(2) by (simp only: not_le)
  ultimately show ?thesis using assms(3,4) by (simp only: checkAndUpdate_def load check_release_def Let_def) simp
qed

lemma arrives_first:
  assumes "arrives env t d b"
  shows "bajarArtefacto env d False u = (None, u\<lparr>up_loads := Suc (up_loads u), up_new := Some b\<rparr>)"
proof -
  have l: "[1..<Suc descargasPorIntento] = [1, 2, 3]" by (simp add: descargasPorIntento_def upt_rec)
  have p: "plain_digest [] = []" by (simp add: plain_digest_def)
  show ?thesis using assms unfolding bajarArtefacto_def Let_def if_False l
    by (cases "d = []") (simp_all add: arrives_def intentarDescarga_def sha256File_def p)
qed

lemma admit_good:
  assumes "arrives env t d b" "up_new u = Some b" "map_of (us_Refused (view u)) (ue_sha env b) = None"
    "declaredVersion (ue_run env) (ue_trim env) b = Inr t"
  shows "admitArtifact env t d u = (None, u\<lparr>up_corrupt := corr u\<rparr>)"
  using assms by (auto simp: admitArtifact_def arrives_def load_run sha256File_def Let_def)

lemma admit_mislabelled:
  assumes "arrives env t d b" "up_new u = Some b" "map_of (us_Refused (view u)) (ue_sha env b) = None"
    "declaredVersion (ue_run env) (ue_trim env) b = Inr t'" "t' \<noteq> t" "ue_save env \<noteq> Saved" "corr u = []" "up_selfPath u \<noteq> []"
  shows "admitArtifact env t d u = (Some ''ARTEFACTO MAL ETIQUETADO'', u\<lparr>up_corrupt := []\<rparr>)"
proof -
  have "corr (u\<lparr>up_corrupt := []\<rparr>) = []"
    using assms(7,8) by (simp add: corr_def loadUpdateState_def split: option.splits upd_file.splits)
  then have "refuse env sm why t d (view u) (u\<lparr>up_corrupt := []\<rparr>) = u\<lparr>up_corrupt := []\<rparr>" for sm why
    using assms(6) by (simp add: refuse_def noteRefusedTag_def save_fails load_run)
  then show ?thesis using assms(1-5,7) by (auto simp: admitArtifact_def arrives_def load_run sha256File_def Let_def)
qed

lemma ready_spends:
  assumes "ready env t d b u"
  obtains u1 u2 where "alreadyRefused t d u = (False, u1)" "u1 = u \<or> u1 = u\<lparr>up_corrupt := []\<rparr>" "spendAttempt sio t d u1 = (True, u2)"
    "us_Refused (view u2) = us_Refused (view u)" "sio \<noteq> Saved \<Longrightarrow> u2 = u\<lparr>up_corrupt := []\<rparr>"
proof -
  obtain b1 u1 where a: "alreadyRefused t d u = (b1, u1)" by fastforce
  have b1: "\<not> b1" and u1: "u1 = u \<or> u1 = u\<lparr>up_corrupt := []\<rparr>"
    using a assms by (auto simp: alreadyRefused_def load_run ready_def split: if_splits)
  have c: "view u1 = view u" "corr u1 = []"
    using u1 assms by (auto simp: ready_def corr_def loadUpdateState_def split: option.splits upd_file.splits)
  obtain b2 u2 where s: "spendAttempt sio t d u1 = (b2, u2)" by fastforce
  have b2: "b2" using s assms c by (auto simp: spendAttempt_def load_run ready_def eff_def Let_def attempts_def update_conv maxAttemptsPerVersion_def split: if_splits)
  have "u2 = u\<lparr>up_corrupt := []\<rparr>" if "sio \<noteq> Saved"
    using that s b2 c u1 by (auto simp: spendAttempt_def load_run Let_def save_fails split: if_splits)
  then show ?thesis using that[of u1 u2] a b1 u1 s b2 spend_keeps[OF s] c by simp
qed

lemma noteInstalled_ready:
  assumes "ready env t d b u0" "up_selfPath u = up_selfPath u0" "up_version u = up_version u0" "up_self u \<noteq> None"
    "us_Refused (view u) = us_Refused (view u0)" "ue_save env = Saved"
  shows "ready env t d b (noteInstalled env t sha u)" and "attempts (view (noteInstalled env t sha u)) t = 0"
proof -
  let ?v = "noteInstalled env t sha u"
  have gone: "map_of (purge_upto t m) t = None" for m :: "(string \<times> 'b) list"
    by (auto simp: purge_upto_def map_of_eq_None_iff)
  have p: "up_selfPath u \<noteq> []" using assms(1,2) by (simp add: ready_def)
  have w: "us_Attempts (view ?v) = purge_upto t (us_Attempts (view u))" "us_Digests (view ?v) = purge_upto t (us_Digests (view u))"
    "us_RefusedTags (view ?v) = purge_upto t (us_RefusedTags (view u))" "us_Refused (view ?v) = us_Refused (view u)"
    using p assms(6) by (simp_all add: noteInstalled_def load_run Let_def save_views)
  have "corr (saveUpdateState Saved st x) = []" if "up_selfPath x \<noteq> []" for st x
    using that by (simp add: saveUpdateState_def corr_def loadUpdateState_def)
  then have "corr ?v = []" using p assms(6) by (simp add: noteInstalled_def load_run Let_def)
  then show "ready env t d b ?v" using assms p installed_same[of env t sha u] w
    by (simp add: ready_def same_node_def lk_def gone eff_def attempts_def maxAttemptsPerVersion_def)
  show "attempts (view ?v) t = 0" by (simp add: attempts_def w gone)
qed

lemma ready_marks: "ready env t d b (u\<lparr>up_updating := x\<rparr>) = ready env t d b u" "ready env t d b (u\<lparr>up_corrupt := []\<rparr>) = ready env t d b u"
  "ready env t d b (u\<lparr>up_last := l\<rparr>) = ready env t d b u"
proof -
  have "corr (u\<lparr>up_updating := x\<rparr>) = corr u" "corr (u\<lparr>up_last := l\<rparr>) = corr u" "up_selfPath u \<noteq> [] \<Longrightarrow> corr (u\<lparr>up_corrupt := []\<rparr>) = corr u"
    by (simp_all add: corr_def loadUpdateState_def split: option.split upd_file.split)
  then show "ready env t d b (u\<lparr>up_updating := x\<rparr>) = ready env t d b u" "ready env t d b (u\<lparr>up_corrupt := []\<rparr>) = ready env t d b u"
    "ready env t d b (u\<lparr>up_last := l\<rparr>) = ready env t d b u"
    by (auto simp: ready_def)
qed

text \<open>A check whose update fails on the artifact, and leaves the node as ready as it was.\<close>

lemma failing_check:
  assumes "offer env = Some (t, d)" "ready env t d b u" "\<not> up_updating u"
    and fails: "\<And>w. ready env t d b w \<Longrightarrow> \<exists>w2 e x. alreadyRefused t d w = (False, fst w2) \<and> spendAttempt (ue_save env) t d (fst w2) = (True, snd w2) \<and>
      applyUpdate env t d False (noteCheck ''actualizando'' (snd w2)) = (Inl (Rechazo e), x) \<and> ready env t d b x \<and> up_loads x = Suc (up_loads w)"
  shows "let v = snd (checkAndUpdate env False u)
     in ready env t d b v \<and> \<not> up_updating v \<and> up_loads v = Suc (up_loads u) \<and> up_last v = ''la actualizacion fallo''"
proof -
  let ?u = "u\<lparr>up_updating := True, up_corrupt := []\<rparr>"
  have "ready env t d b ?u" using assms(2) ready_marks by simp
  from fails[OF this] obtain w2 e x where h: "alreadyRefused t d ?u = (False, fst w2)" "spendAttempt (ue_save env) t d (fst w2) = (True, snd w2)"
    "applyUpdate env t d False (noteCheck ''actualizando'' (snd w2)) = (Inl (Rechazo e), x)" "ready env t d b x" "up_loads x = Suc (up_loads ?u)" by blast
  have "update_to env t d False ?u = (False, noteCheck ''la actualizacion fallo'' x)" using h(1-3) by (simp add: update_to_def)
  then show ?thesis using assms(1-3) offer_check[of env t d u False] h(4,5) ready_marks
    by (simp add: ready_def[of env t d b u] noteCheck_def Let_def)
qed

lemma good_update:
  assumes "arrives env t d b" "declaredVersion (ue_run env) (ue_trim env) b = Inr t" "ue_save env = Saved" "ue_ren_old env" "ue_ren_new env"
    "ready env t d b w"
  shows "\<exists>w2 x. alreadyRefused t d w = (False, fst w2) \<and> spendAttempt (ue_save env) t d (fst w2) = (True, snd w2) \<and>
      applyUpdate env t d False (noteCheck ''actualizando'' (snd w2)) = (if ue_exec env then Inr () else Inl (Rechazo ''exec''), x) \<and>
      ready env t d b x \<and> up_loads x = Suc (up_loads w)"
proof (rule ready_spends[OF assms(6), of "ue_save env"])
  fix u1 u2
  assume a: "alreadyRefused t d w = (False, u1)" "u1 = w \<or> u1 = w\<lparr>up_corrupt := []\<rparr>" and s: "spendAttempt (ue_save env) t d u1 = (True, u2)"
    and k: "us_Refused (view u2) = us_Refused (view w)"
  have f: "up_selfPath u2 = up_selfPath w" "up_version u2 = up_version w" "up_self u2 = up_self w" "up_loads u2 = up_loads w"
    using spend_same[OF s] a(2) by (auto simp: same_node_def)
  let ?u3 = "(noteCheck ''actualizando'' u2)\<lparr>up_loads := Suc (up_loads u2), up_new := Some b\<rparr>"
  have d: "bajarArtefacto env d False (noteCheck ''actualizando'' u2) = (None, ?u3)"
    using arrives_first[OF assms(1), of "noteCheck ''actualizando'' u2"] by (simp add: noteCheck_def)
  have ad: "admitArtifact env t d ?u3 = (None, ?u3\<lparr>up_corrupt := corr ?u3\<rparr>)"
    by (rule admit_good[OF assms(1)]) (use assms(2,6) k in \<open>auto simp: noteCheck_def ready_def\<close>)
  define u4 where "u4 = ?u3\<lparr>up_corrupt := corr ?u3, up_old := up_self u2, up_self := Some b, up_new := None\<rparr>"
  have sw: "swap_in env (?u3\<lparr>up_corrupt := corr ?u3\<rparr>) = (Inr (), u4)"
    using assms(4,5,6) f by (auto simp: swap_in_def u4_def noteCheck_def ready_def)
  have "applyUpdate env t d False (noteCheck ''actualizando'' u2) =
      (if ue_exec env then Inr () else Inl (Rechazo ''exec''), noteInstalled env t (ue_sha env b) u4)"
    using assms(1,6) f unfolding applyUpdate_def d prod.case option.case ad sw sum.case unit.case
    by (simp add: noteCheck_def ready_def arrives_def sha256File_def)
  moreover have "ready env t d b (noteInstalled env t (ue_sha env b) u4)"
    by (rule noteInstalled_ready(1)[OF assms(6)]) (use f k assms(3) in \<open>auto simp: u4_def noteCheck_def\<close>)
  moreover have "up_loads (noteInstalled env t (ue_sha env b) u4) = Suc (up_loads w)"
    using installed_same[of env t "ue_sha env b" u4] f by (simp add: same_node_def u4_def noteCheck_def)
  ultimately show ?thesis using a(1) s by (intro exI[of _ "(u1, u2)"]) auto
qed

lemma exec_fails:
  assumes "arrives env t d b" "declaredVersion (ue_run env) (ue_trim env) b = Inr t" "ue_save env = Saved" "ue_ren_old env" "ue_ren_new env" "\<not> ue_exec env"
    "ready env t d b w"
  shows "\<exists>w2 e x. alreadyRefused t d w = (False, fst w2) \<and> spendAttempt (ue_save env) t d (fst w2) = (True, snd w2) \<and>
      applyUpdate env t d False (noteCheck ''actualizando'' (snd w2)) = (Inl (Rechazo e), x) \<and> ready env t d b x \<and> up_loads x = Suc (up_loads w)"
  using good_update[OF assms(1-5,7)] assms(6) by auto

lemma good_check:
  assumes "arrives env t d b" "declaredVersion (ue_run env) (ue_trim env) b = Inr t" "ue_save env = Saved" "ue_ren_old env" "ue_ren_new env" "ue_exec env"
    "ready env t d b u" "\<not> up_updating u"
  shows "fst (checkAndUpdate env False u)"
proof -
  let ?u = "u\<lparr>up_updating := True, up_corrupt := []\<rparr>"
  have "ready env t d b ?u" using assms(7) ready_marks by simp
  from good_update[OF assms(1-5) this] obtain w2 x where "alreadyRefused t d ?u = (False, fst w2)" "spendAttempt (ue_save env) t d (fst w2) = (True, snd w2)"
    "applyUpdate env t d False (noteCheck ''actualizando'' (snd w2)) = (Inr (), x)" using assms(6) by auto
  then have "update_to env t d False ?u = (True, x)" by (simp add: update_to_def split: unit.split)
  then show ?thesis using assms(1,7,8) offer_check[of env t d u False] by (simp add: ready_def arrives_def)
qed

text \<open>
  C35. A good release reaches the node: when the artifact arrives whole, is what it says it is, was never refused and there are attempts left, one check
  of an idle node puts it in place and starts it; the program that starts runs the published version.
\<close>

theorem good_release_installs:
  assumes "arrives env t d b" "declaredVersion (ue_run env) (ue_trim env) b = Inr t" "ue_save env = Saved" "ue_ren_old env" "ue_ren_new env" "ue_exec env"
    "ready env t d b u" "\<not> up_updating u"
  shows "fst (checkAndUpdate env False u) \<and> up_version (node_step env False u) = t"
  using good_check[OF assms] step_version[of env False u] assms(1) by (auto simp: arrives_def)

text \<open>
  The belt is taken off before the step that can still fail: the counter of a version is cleared when its file is in place, and the new program is
  started after that. On a node where a good artifact cannot be started, every check downloads it again, and it is so after any number of checks.
\<close>

theorem exec_failure_loops:
  assumes "arrives env t d b" "declaredVersion (ue_run env) (ue_trim env) b = Inr t" "ue_save env = Saved" "ue_ren_old env" "ue_ren_new env" "\<not> ue_exec env"
    "ready env t d b u" "\<not> up_updating u"
  shows "up_loads (checks env n u) = up_loads u + n \<and> ready env t d b (checks env n u)"
proof -
  have "ready env t d b (checks env n u) \<and> \<not> up_updating (checks env n u) \<and> up_loads (checks env n u) = up_loads u + n"
    using checks_repeat[of "\<lambda>u. ready env t d b u \<and> \<not> up_updating u" env u n] assms(7,8)
      failing_check[OF _ _ _ exec_fails[OF assms(1-6)]] assms(1) by (simp add: arrives_def Let_def)
  then show ?thesis by blast
qed

lemma disk_fails:
  assumes "arrives env t d b" "declaredVersion (ue_run env) (ue_trim env) b = Inr t'" "t' \<noteq> t" "ue_save env \<noteq> Saved" "ready env t d b w"
  shows "\<exists>w2 e x. alreadyRefused t d w = (False, fst w2) \<and> spendAttempt (ue_save env) t d (fst w2) = (True, snd w2) \<and>
      applyUpdate env t d False (noteCheck ''actualizando'' (snd w2)) = (Inl (Rechazo e), x) \<and> ready env t d b x \<and> up_loads x = Suc (up_loads w)"
proof (rule ready_spends[OF assms(5), of "ue_save env"])
  fix u1 u2
  assume a: "alreadyRefused t d w = (False, u1)" and s: "spendAttempt (ue_save env) t d u1 = (True, u2)"
    and u2: "ue_save env \<noteq> Saved \<Longrightarrow> u2 = w\<lparr>up_corrupt := []\<rparr>"
  let ?u3 = "(noteCheck ''actualizando'' u2)\<lparr>up_loads := Suc (up_loads u2), up_new := Some b\<rparr>"
  have d: "bajarArtefacto env d False (noteCheck ''actualizando'' u2) = (None, ?u3)"
    using arrives_first[OF assms(1), of "noteCheck ''actualizando'' u2"] by (simp add: noteCheck_def)
  have c: "corr ?u3 = []" using assms(5) u2[OF assms(4)] corr_cong[of ?u3 w] by (simp add: ready_def noteCheck_def)
  have "admitArtifact env t d ?u3 = (Some ''ARTEFACTO MAL ETIQUETADO'', ?u3\<lparr>up_corrupt := []\<rparr>)"
    by (rule admit_mislabelled[OF assms(1) _ _ assms(2-4) c]) (use assms(5) u2[OF assms(4)] in \<open>auto simp: noteCheck_def ready_def\<close>)
  then have "applyUpdate env t d False (noteCheck ''actualizando'' u2) = (Inl (Rechazo ''ARTEFACTO MAL ETIQUETADO''), ?u3\<lparr>up_corrupt := [], up_new := None\<rparr>)"
    using assms(5) u2[OF assms(4)] d by (simp add: applyUpdate_def noteCheck_def ready_def)
  moreover have "ready env t d b (?u3\<lparr>up_corrupt := [], up_new := None\<rparr>)"
    using assms(5) u2[OF assms(4)] corr_cong[of "?u3\<lparr>up_corrupt := [], up_new := None\<rparr>" w] by (simp add: ready_def noteCheck_def)
  ultimately show ?thesis using a s u2[OF assms(4)] by (intro exI[of _ "(u1, u2)"]) (auto simp: noteCheck_def)
qed

text \<open>
  The belt and the refusals need the disk: a write of the state file that fails is not reported. On a node that cannot write it, every
  check of a mislabelled release downloads the artifact again, and it is so after any number of checks.
\<close>

theorem unwritable_state_loops:
  assumes "arrives env t d b" "declaredVersion (ue_run env) (ue_trim env) b = Inr t'" "t' \<noteq> t" "ue_save env \<noteq> Saved"
    "ready env t d b u" "\<not> up_updating u"
  shows "up_loads (checks env n u) = up_loads u + n \<and> ready env t d b (checks env n u)"
proof -
  have "ready env t d b (checks env n u) \<and> \<not> up_updating (checks env n u) \<and> up_loads (checks env n u) = up_loads u + n"
    using checks_repeat[of "\<lambda>u. ready env t d b u \<and> \<not> up_updating u" env u n] assms(5,6)
      failing_check[OF _ _ _ disk_fails[OF assms(1-4)]] assms(1) by (simp add: arrives_def Let_def)
  then show ?thesis by blast
qed


section \<open>Witnesses\<close>

definition demo_env :: "string \<Rightarrow> save_io \<Rightarrow> bool \<Rightarrow> upd_env" where
  "demo_env out sio ex =
     \<lparr>ue_sha = \<lambda>_. ''ab'', ue_run = \<lambda>_. (False, out), ue_trim = \<lambda>s. s, ue_asset = ''soflink'',
      ue_api = Inr (200, Some \<lparr>re_Tag = ''v2'', re_Assets = [\<lparr>as_Name = ''soflink'', as_URL = ''u'', as_Digest = ''sha256:AB''\<rparr>]\<rparr>),
      ue_dl = \<lambda>_. DlBody (replicate 1000000 0), ue_open = True, ue_read = True, ue_save = sio, ue_ren_old = True, ue_ren_new = True,
      ue_ren_back = True, ue_exec = ex, ue_now = []\<rparr>"

definition demo_node :: updater where
  "demo_node =
     \<lparr>up_version = ''1'', up_selfPath = ''/s'', up_file = None, up_corrupt = [], up_self = Some [0], up_new = None, up_old = None,
      up_updating = False, up_last = [], up_loads = 0\<rparr>"

lemma demo_digest: "map lower_char (plain_digest ''sha256:AB'') = ''ab''" "EqualFold (plain_digest ''sha256:AB'') ''ab''"
  by code_simp+

lemma demo_arrives: "arrives (demo_env out sio ex) ''2'' ''sha256:AB'' (replicate 1000000 0)"
  using demo_digest by (simp add: arrives_def demo_env_def offer_def strip_v_def starts_def)

lemma demo_ready: "ready (demo_env out sio ex) ''2'' ''sha256:AB'' b demo_node" "\<not> up_updating demo_node"
  by (simp_all add: ready_def demo_node_def demo_env_def corr_def view_def loadUpdateState_def emptyState_def lk_def eff_def attempts_def maxAttemptsPerVersion_def)

lemma demo_declares: "declaredVersion (ue_run (demo_env ''soflink 2'' sio ex)) (ue_trim (demo_env ''soflink 2'' sio ex)) b = Inr ''2''"
  "declaredVersion (ue_run (demo_env ''soflink 1'' sio ex)) (ue_trim (demo_env ''soflink 1'' sio ex)) b = Inr ''1''"
  by (simp_all add: declaredVersion_def demo_env_def versionLine_def version_at_def is_ws_def starts_def Let_def)

theorem versions_increase_witness:
  "in_place (ue_run (demo_env ''soflink 2'' Saved True)) (ue_trim (demo_env ''soflink 2'' Saved True)) demo_node \<and>
   sorted_wrt (\<le>) (up_version demo_node # versions [ECheck (demo_env ''soflink 2'' Saved True) False, ERestart (demo_env ''soflink 2'' Saved True)] demo_node)"
proof -
  have i: "in_place (ue_run (demo_env ''soflink 2'' Saved True)) (ue_trim (demo_env ''soflink 2'' Saved True)) demo_node"
    unfolding in_place_def using demo_declares(1) by (simp add: demo_node_def)
  have "list_all (answers (ue_run (demo_env ''soflink 2'' Saved True)) (ue_trim (demo_env ''soflink 2'' Saved True)))
    [ECheck (demo_env ''soflink 2'' Saved True) False, ERestart (demo_env ''soflink 2'' Saved True)]"
    by (simp add: answers_def)
  from versions_increase[OF i this] i show ?thesis by blast
qed

theorem good_release_installs_witness:
  "fst (checkAndUpdate (demo_env ''soflink 2'' Saved True) False demo_node) \<and>
   up_version (node_step (demo_env ''soflink 2'' Saved True) False demo_node) = ''2''"
  by (rule good_release_installs[OF demo_arrives demo_declares(1) _ _ _ _ demo_ready]) (simp_all add: demo_env_def)

theorem exec_failure_loops_witness:
  "up_loads (checks (demo_env ''soflink 2'' Saved False) 1000 demo_node) = 1000"
  using exec_failure_loops[OF demo_arrives demo_declares(1) _ _ _ _ demo_ready, of Saved False 1000] by (simp add: demo_env_def demo_node_def)

theorem unwritable_state_loops_witness:
  "up_loads (checks (demo_env ''soflink 1'' WriteFails True) 1000 demo_node) = 1000"
  using unwritable_state_loops[OF demo_arrives demo_declares(2) _ _ demo_ready, of WriteFails True 1000] by (simp add: demo_env_def demo_node_def)

theorem update_sound_witness:
  "installs (demo_env ''soflink 2'' Saved True) ''2'' ''sha256:AB'' (view demo_node) (snd (checkAndUpdate (demo_env ''soflink 2'' Saved True) False demo_node))"
proof -
  have "fst (checkAndUpdate (demo_env ''soflink 2'' Saved True) False demo_node)"
    by (rule good_check[OF demo_arrives demo_declares(1) _ _ _ _ demo_ready]) (simp_all add: demo_env_def)
  moreover have "offer (demo_env ''soflink 2'' Saved True) = Some (''2'', ''sha256:AB'')" using demo_arrives by (simp add: arrives_def)
  ultimately show ?thesis using update_sound[OF prod.collapse[symmetric], of "demo_env ''soflink 2'' Saved True" False demo_node] by auto
qed

theorem attempts_bounded_witness:
  "run_cost (\<lambda>e. node_step (fst e) (snd e)) failed_check (replicate 50 (demo_env ''soflink 1'' Saved True, False)) demo_node \<le> 3"
proof -
  have "publishes ''2'' ''sha256:AB'' (demo_env ''soflink 1'' Saved True, False)"
    using demo_arrives[of "''soflink 1''" Saved True] by (simp add: publishes_def arrives_def) (simp add: demo_env_def)
  then show ?thesis
    using attempts_bounded[of "''2''" "''sha256:AB''" "replicate 50 (demo_env ''soflink 1'' Saved True, False)" demo_node]
    by (simp add: list_all_iff maxAttemptsPerVersion_def demo_node_def)
qed

definition worn_node :: updater where
  "worn_node = demo_node\<lparr>up_file := Some (UGood (emptyState\<lparr>us_Attempts := [(''2'', 3)], us_Digests := [(''2'', ''sha256:AB'')]\<rparr>))\<rparr>"

theorem stopped_visible_witness:
  "fst (blockedReason (snd (checkAndUpdate (demo_env ''soflink 1'' Saved True) False worn_node))) \<noteq> NotBlocked"
proof -
  let ?e = "demo_env ''soflink 1'' Saved True"
  have o: "offer ?e = Some (''2'', ''sha256:AB'')" using demo_arrives by (simp add: arrives_def)
  have "checkAndUpdate ?e False worn_node = (False, worn_node\<lparr>up_last := ''detenido: intentos agotados''\<rparr>)"
    using offer_check[OF o, of worn_node False]
    by (simp add: worn_node_def demo_node_def corr_def loadUpdateState_def update_to_def alreadyRefused_def spendAttempt_def emptyState_def lk_def attempts_def
        maxAttemptsPerVersion_def noteCheck_def Let_def)
  then show ?thesis using stopped_visible[of ?e False worn_node "worn_node\<lparr>up_last := ''detenido: intentos agotados''\<rparr>"]
    by (simp add: worn_node_def demo_node_def)
qed

end
