(* ===== verification/Sse_Stream.thy ===== *)
theory Sse_Stream
  imports Kv_State Gateway
begin

text \<open>
  How \<^verbatim>\<open>internal/coordinator/serve.go\<close> reads the event stream of an engine while it copies it to the client:
  \<^verbatim>\<open>sseToolCalls\<close>, \<^verbatim>\<open>carriesToken\<close>, the loop of \<^verbatim>\<open>chatStream\<close> and the error event it may end with. Bytes are characters. \<^verbatim>\<open>encoding/json\<close> and \<^verbatim>\<open>bytes.TrimSpace\<close> are parameters. The reads of a
  stream are a list: what each one returned and whether the client took it.
\<close>


section \<open>Finding\<close>

text \<open>What follows the first occurrence of \<open>key\<close>.\<close>

fun find_after :: "string \<Rightarrow> string \<Rightarrow> string option" where
  "find_after key [] = (if key = [] then Some [] else None)"
| "find_after key (c # s) = (if starts key (c # s) then Some (drop (length key) (c # s)) else find_after key s)"

lemma find_after_shorter: "find_after key s = Some r \<Longrightarrow> key \<noteq> [] \<Longrightarrow> length r < length s"
  by (induction key s rule: find_after.induct) (auto split: if_splits)

text \<open>\<^verbatim>\<open>bytes.Count\<close> of a separator that is not empty.\<close>

function count_sub :: "string \<Rightarrow> string \<Rightarrow> nat" where
  "count_sub key s = (if key = [] then 0 else case find_after key s of None \<Rightarrow> 0 | Some r \<Rightarrow> Suc (count_sub key r))"
  by pat_completeness auto
termination by (relation "measure (\<lambda>(k, s). length s)") (auto simp: find_after_shorter)

declare count_sub.simps [simp del]

function carries_key :: "string \<Rightarrow> string \<Rightarrow> bool" where
  "carries_key key s =
     (if key = [] then False
      else case find_after key s of
             None \<Rightarrow> False
           | Some r \<Rightarrow> (r \<noteq> [] \<and> hd r \<noteq> CHR 0x22) \<or> carries_key key r)"
  by pat_completeness auto
termination by (relation "measure (\<lambda>(k, s). length s)") (auto simp: find_after_shorter)

declare carries_key.simps [simp del]

definition carriesToken :: "string \<Rightarrow> bool" where
  "carriesToken chunk \<longleftrightarrow> contains chunk ''\"tool_calls\"'' \<or> carries_key ''\"content\":\"'' chunk \<or> carries_key ''\"reasoning_content\":\"'' chunk"


section \<open>Tool calls\<close>

record sse_env =
  se_trim :: "string \<Rightarrow> string"
  se_json :: "string \<Rightarrow> go_any option"
  se_deltas :: "string \<Rightarrow> int option list list option"
  se_marshal :: "go_any \<Rightarrow> string option"

text \<open>\<open>se_deltas\<close> is the decoding into \<^verbatim>\<open>Choices[].Delta.ToolCalls[].Index\<close>.\<close>

record sseToolCalls =
  sc_pending :: string
  sc_seen :: "int list"

text \<open>The first event and what follows its blank line.\<close>

fun cut_event :: "string \<Rightarrow> (string \<times> string) option" where
  "cut_event (a # b # s) =
     (if a = NL \<and> b = NL then Some ([], s)
      else case cut_event (b # s) of None \<Rightarrow> None | Some (e, r) \<Rightarrow> Some (a # e, r))"
| "cut_event s = None"

lemma cut_event_shorter: "cut_event s = Some (e, r) \<Longrightarrow> length r < length s"
  by (induction s arbitrary: e r rule: cut_event.induct) (auto split: if_splits option.splits)

definition see_index :: "int \<Rightarrow> int list \<Rightarrow> int list" where
  "see_index i seen = (if i \<in> set seen then seen else seen @ [i])"

fun see_calls :: "nat \<Rightarrow> int option list \<Rightarrow> int list \<Rightarrow> int list" where
  "see_calls k [] seen = seen"
| "see_calls k (tc # tcs) seen = see_calls (Suc k) tcs (see_index (case tc of Some i \<Rightarrow> i | None \<Rightarrow> int k) seen)"

definition sse_event :: "sse_env \<Rightarrow> string \<Rightarrow> int list \<Rightarrow> int list" where
  "sse_event env ev seen =
     (let ev = se_trim env ev
      in if \<not> starts ''data: {'' ev then seen
         else case se_deltas env (drop 6 ev) of
                None \<Rightarrow> seen
              | Some cs \<Rightarrow> foldl (\<lambda>seen c. see_calls 0 c seen) seen cs)"

function feed_loop :: "sse_env \<Rightarrow> string \<Rightarrow> int list \<Rightarrow> sseToolCalls" where
  "feed_loop env p seen =
     (case cut_event p of
        None \<Rightarrow> \<lparr>sc_pending = p, sc_seen = seen\<rparr>
      | Some (e, r) \<Rightarrow> feed_loop env r (sse_event env e seen))"
  by pat_completeness auto
termination by (relation "measure (\<lambda>(v, p, s). length p)") (auto simp: cut_event_shorter)

declare feed_loop.simps [simp del]

definition feed :: "sse_env \<Rightarrow> string \<Rightarrow> sseToolCalls \<Rightarrow> sseToolCalls" where
  "feed env chunk c = feed_loop env (sc_pending c @ chunk) (sc_seen c)"

definition calls_n :: "sseToolCalls \<Rightarrow> nat" where
  "calls_n c = length (sc_seen c)"

lemma cut_event_append: "cut_event p = Some (e, r) \<Longrightarrow> cut_event (p @ b) = Some (e, r @ b)"
  by (induction p arbitrary: e r rule: cut_event.induct) (auto split: if_splits option.splits)

lemma feed_loop_append:
  "feed_loop env (p @ b) seen = feed_loop env (sc_pending (feed_loop env p seen) @ b) (sc_seen (feed_loop env p seen))"
proof (induction env p seen rule: feed_loop.induct)
  case (1 env p seen)
  show ?case
  proof (cases "cut_event p")
    case None
    then show ?thesis by (simp add: feed_loop.simps[of env p])
  next
    case (Some er)
    obtain e r where er: "er = (e, r)" by (cases er)
    have "feed_loop env (p @ b) seen = feed_loop env (r @ b) (sse_event env e seen)"
      using cut_event_append[of p e r b] Some er by (simp add: feed_loop.simps[of env "p @ b"])
    moreover have "feed_loop env p seen = feed_loop env r (sse_event env e seen)"
      using Some er by (simp add: feed_loop.simps[of env p])
    ultimately show ?thesis using 1[OF Some[unfolded er] refl] by simp
  qed
qed

lemma feed_append: "feed env (a @ b) c = feed env b (feed env a c)"
  using feed_loop_append[of env "sc_pending c @ a" b "sc_seen c"] by (simp add: feed_def)


section \<open>The end of the stream\<close>

definition sse_error_chunk :: "nat \<Rightarrow> string \<Rightarrow> Body" where
  "sse_error_chunk status why =
     [(''object'', Str ''chat.completion.chunk''),
      (''choices'', Arr [Obj [(''index'', Num 0), (''delta'', Obj []), (''finish_reason'', Str ''error'')]]),
      (''error'', Obj [(''code'', Num (int (if status = 200 then 502 else status))), (''type'', Str ''upstream_error''), (''message'', Str why)])]"

definition emitSSEError :: "sse_env \<Rightarrow> nat \<Rightarrow> string \<Rightarrow> string" where
  "emitSSEError env status why =
     (case se_marshal env (Obj (sse_error_chunk status why)) of
        None \<Rightarrow> []
      | Some b \<Rightarrow> ''data: '' @ b @ NL # NL # ''data: [DONE]'' @ [NL, NL])"

text \<open>The line \<^verbatim>\<open>chat-anomalia\<close>, when one is written.\<close>

definition logAnomaly :: "string \<Rightarrow> nat \<Rightarrow> nat \<Rightarrow> string option \<Rightarrow> string \<Rightarrow> (string \<times> nat \<times> nat \<times> string \<times> string) option" where
  "logAnomaly engine status streamed readErr why =
     (if status = 200 \<and> streamed > 0 \<and> readErr = None then None
      else Some (engine, status, streamed, (case readErr of Some e \<Rightarrow> e | None \<Rightarrow> []), why))"


section \<open>The loop\<close>

datatype read_end = Continues | AtEOF | ReadFails string

record sse_read =
  rd_data :: string
  rd_taken :: "string option"
  rd_end :: read_end
  rd_ms :: float64

text \<open>\<open>rd_taken\<close> is the error of the write to the client, \<open>None\<close> when it took the bytes.\<close>

record sse_state =
  ss_streamed :: nat
  ss_events :: nat
  ss_calls :: sseToolCalls
  ss_tail :: string
  ss_head :: string
  ss_first :: "float64 option"
  ss_err :: "string option"
  ss_gone :: bool
  ss_sent :: string

definition tailKeep :: nat where "tailKeep = 16384"

definition sse_start :: sse_state where
  "sse_start = \<lparr>ss_streamed = 0, ss_events = 0, ss_calls = \<lparr>sc_pending = [], sc_seen = []\<rparr>, ss_tail = [], ss_head = [], ss_first = None,
     ss_err = None, ss_gone = False, ss_sent = []\<rparr>"

definition keep_tail :: "string \<Rightarrow> string" where
  "keep_tail t = (if length t > tailKeep then drop (length t - tailKeep) t else t)"

definition read_data :: "sse_env \<Rightarrow> sse_read \<Rightarrow> sse_state \<Rightarrow> sse_state" where
  "read_data env r s =
     (let d = rd_data r
      in s\<lparr>ss_first := (if ss_first s = None \<and> carriesToken d then Some (rd_ms r) else ss_first s),
           ss_events := ss_events s + count_sub ''data: {'' d,
           ss_calls := feed env d (ss_calls s),
           ss_streamed := ss_streamed s + length d,
           ss_head := (if length (ss_head s) < 400 then ss_head s @ take (400 - length (ss_head s)) d else ss_head s)\<rparr>)"

definition write_data :: "sse_read \<Rightarrow> sse_state \<Rightarrow> sse_state" where
  "write_data r s =
     (case rd_taken r of
        Some e \<Rightarrow> s\<lparr>ss_err := Some e, ss_gone := True\<rparr>
      | None \<Rightarrow> s\<lparr>ss_sent := ss_sent s @ rd_data r, ss_tail := keep_tail (ss_tail s @ rd_data r)\<rparr>)"

text \<open>\<open>None\<close> when the reads run out with the loop still going.\<close>

fun sse_loop :: "sse_env \<Rightarrow> sse_read list \<Rightarrow> sse_state \<Rightarrow> sse_state option" where
  "sse_loop env [] s = None"
| "sse_loop env (r # rs) s =
     (let s = (if rd_data r = [] then s else write_data r (read_data env r s))
      in if ss_gone s then Some s
         else case rd_end r of
                Continues \<Rightarrow> sse_loop env rs s
              | AtEOF \<Rightarrow> Some s
              | ReadFails e \<Rightarrow> Some (s\<lparr>ss_err := Some e\<rparr>))"

definition read_bytes :: "sse_read list \<Rightarrow> string" where
  "read_bytes rs = concat (map rd_data rs)"

text \<open>The reads the loop makes: up to the first that ends it.\<close>

fun used_reads :: "sse_read list \<Rightarrow> sse_read list" where
  "used_reads [] = []"
| "used_reads (r # rs) =
     (if rd_data r \<noteq> [] \<and> rd_taken r \<noteq> None \<or> rd_end r \<noteq> Continues then [r] else r # used_reads rs)"

definition sse_consumed :: "sse_env \<Rightarrow> string \<Rightarrow> string \<Rightarrow> sse_state \<Rightarrow> bool" where
  "sse_consumed env all sent s \<longleftrightarrow>
     ss_streamed s = length all \<and> ss_calls s = feed env all \<lparr>sc_pending = [], sc_seen = []\<rparr> \<and> ss_head s = take 400 all \<and>
     ss_sent s = sent \<and> ss_tail s = drop (length sent - tailKeep) sent"

lemma feed_nothing: "feed env [] \<lparr>sc_pending = [], sc_seen = []\<rparr> = \<lparr>sc_pending = [], sc_seen = []\<rparr>"
  by (simp add: feed_def feed_loop.simps)

lemma keep_tail_append: "keep_tail (drop (length s - tailKeep) s @ d) = drop (length (s @ d) - tailKeep) (s @ d)"
  by (cases "tailKeep < length s") (auto simp: keep_tail_def add.commute)

lemma read_consumed:
  assumes "sse_consumed env all sent s" "rd_taken r = None"
  shows "sse_consumed env (all @ rd_data r) (sent @ rd_data r) (if rd_data r = [] then s else write_data r (read_data env r s))"
  using assms by (cases "rd_data r = []") (auto simp: sse_consumed_def write_data_def read_data_def Let_def feed_append keep_tail_append min_def not_less)

lemma read_refused:
  assumes "sse_consumed env all sent s" "rd_taken r = Some e" "rd_data r \<noteq> []"
  shows "sse_consumed env (all @ rd_data r) sent (write_data r (read_data env r s)) \<and> ss_gone (write_data r (read_data env r s)) \<and>
    ss_err (write_data r (read_data env r s)) = Some e"
  using assms by (auto simp: sse_consumed_def write_data_def read_data_def Let_def feed_append min_def not_less)

lemma sse_loop_run:
  assumes "sse_loop env rs s = Some v" "sse_consumed env all sent s" "\<not> ss_gone s" "ss_err s = None"
  shows "\<exists>sent'. sse_consumed env (all @ read_bytes (used_reads rs)) (sent @ sent') v \<and>
    (if ss_gone v then \<exists>d. read_bytes (used_reads rs) = sent' @ d \<and> d \<noteq> [] \<and> ss_err v \<noteq> None else sent' = read_bytes (used_reads rs))"
  using assms
proof (induction env rs s arbitrary: all sent rule: sse_loop.induct)
  case (2 env r rs s)
  let ?s = "if rd_data r = [] then s else write_data r (read_data env r s)"
  show ?case
  proof (cases "rd_data r \<noteq> [] \<and> rd_taken r \<noteq> None")
    case True
    then obtain e where e: "rd_taken r = Some e" by blast
    have "v = ?s" using 2(2) True read_refused[OF 2(3) e] by (simp add: Let_def)
    then show ?thesis using True read_refused[OF 2(3) e] by (intro exI[of _ "[]"]) (auto simp: read_bytes_def)
  next
    case ok: False
    have n: "\<not> ss_gone ?s" "ss_err ?s = None" using ok 2(4,5) by (auto simp: write_data_def read_data_def Let_def)
    have c: "sse_consumed env (all @ rd_data r) (sent @ rd_data r) ?s"
      using ok read_consumed[OF 2(3), of r] 2(3) by (cases "rd_data r = []") auto
    show ?thesis
    proof (cases "rd_end r")
      case Continues
      then have l: "sse_loop env rs ?s = Some v" using 2(2) n by (simp add: Let_def)
      from 2(1)[OF refl n(1) Continues l c n] obtain x where
        "sse_consumed env ((all @ rd_data r) @ read_bytes (used_reads rs)) ((sent @ rd_data r) @ x) v"
        "if ss_gone v then \<exists>d. read_bytes (used_reads rs) = x @ d \<and> d \<noteq> [] \<and> ss_err v \<noteq> None else x = read_bytes (used_reads rs)" by blast
      then show ?thesis using ok Continues by (intro exI[of _ "rd_data r @ x"]) (auto simp: read_bytes_def split: if_splits)
    next
      case AtEOF
      then have "v = ?s" using 2(2) n by (simp add: Let_def)
      then show ?thesis using c n ok AtEOF by (intro exI[of _ "rd_data r"]) (auto simp: read_bytes_def)
    next
      case (ReadFails e)
      then have "v = ?s\<lparr>ss_err := Some e\<rparr>" using 2(2) n by (simp add: Let_def)
      then show ?thesis using c n ok ReadFails by (intro exI[of _ "rd_data r"]) (auto simp: read_bytes_def sse_consumed_def)
    qed
  qed
qed simp

text \<open>
  C37. What the loop of a stream leaves, however the bytes were split into reads: the byte count and the first 400 bytes are those of what was read,
  the number of tool calls is that of the whole stream read at once, the client got all of it, or a part of it when it went away, and the tail kept
  for the timings is the last 16 KiB of what the client got.
\<close>

theorem stream_forwards:
  assumes "sse_loop env rs sse_start = Some v"
  shows "ss_streamed v = length (read_bytes (used_reads rs)) \<and> ss_head v = take 400 (read_bytes (used_reads rs)) \<and>
    calls_n (ss_calls v) = calls_n (feed env (read_bytes (used_reads rs)) \<lparr>sc_pending = [], sc_seen = []\<rparr>) \<and>
    (\<exists>d. read_bytes (used_reads rs) = ss_sent v @ d \<and> (d = [] \<longleftrightarrow> \<not> ss_gone v)) \<and>
    ss_tail v = drop (length (ss_sent v) - tailKeep) (ss_sent v)"
proof -
  have "sse_consumed env [] [] sse_start" "\<not> ss_gone sse_start" "ss_err sse_start = None"
    by (simp_all add: sse_consumed_def sse_start_def feed_nothing)
  from sse_loop_run[OF assms this] show ?thesis by (auto simp: sse_consumed_def split: if_splits)
qed

definition demo_sse :: sse_env where
  "demo_sse = \<lparr>se_trim = \<lambda>s. s, se_json = \<lambda>_. None, se_deltas = \<lambda>_. Some [[None, None]], se_marshal = \<lambda>_. None\<rparr>"

definition demo_read :: "string \<Rightarrow> read_end \<Rightarrow> sse_read" where
  "demo_read d e = \<lparr>rd_data = d, rd_taken = None, rd_end = e, rd_ms = 1\<rparr>"

theorem stream_forwards_witness:
  "\<exists>v. sse_loop demo_sse [demo_read ''data: {'' Continues, demo_read (''}'' @ [NL, NL]) AtEOF] sse_start = Some v \<and>
     calls_n (ss_calls v) = 2 \<and> ss_sent v = ''data: {}'' @ [NL, NL]"
proof -
  let ?rs = "[demo_read ''data: {'' Continues, demo_read (''}'' @ [NL, NL]) AtEOF]"
  obtain v where v: "sse_loop demo_sse ?rs sse_start = Some v" "\<not> ss_gone v"
    by (simp add: demo_read_def write_data_def read_data_def sse_start_def Let_def)
  have "calls_n (feed demo_sse (''data: {}'' @ [NL, NL]) \<lparr>sc_pending = [], sc_seen = []\<rparr>) = 2" by code_simp
  then show ?thesis using stream_forwards[OF v(1)] v by (auto simp: read_bytes_def demo_read_def)
qed

end
