(* ===== verification/Balancer.thy ===== *)
theory Balancer
  imports Gateway_State
begin

text \<open>
  \<^verbatim>\<open>internal/coordinator/balancer.go\<close>: the spread of conversations over the decode engines, with a sticky
  engine per conversation and a token budget per engine. An engine is its index in the list of nodes.
  \<^verbatim>\<open>json.Marshal\<close>, SHA-256 and the probes of the engines are parameters; instants are milliseconds and
  \<open>None\<close> is the zero time. Token counts are integers without wrap-around: they are sizes of prompts, far
  below the 64 bits the code keeps them in.
\<close>


section \<open>Engines\<close>

definition budgetUse :: float64 where "budgetUse = 97 / 100"
definition waitBudget :: float64 where "waitBudget = 240000"
definition replyReserve :: int where "replyReserve = 16384"
definition replyDefault :: int where "replyDefault = 2048"
definition stickyCap :: int where "stickyCap = 256"
definition sessionKeyChars :: nat where "sessionKeyChars = 2048"
definition defaultCtx :: int where "defaultCtx = 100096"

record decodeNode =
  dn_name :: string
  dn_url :: string
  dn_budget :: int
  dn_inflight :: int
  dn_tokens :: int
  dn_held :: int
  dn_heldAt :: "float64 option"
  dn_occupancy :: bool
  dn_excluded :: bool

text \<open>\<open>occ\<close> is what the occupancy probe answers now; the node only knows whether it has a probe.\<close>

definition heldTokens :: "float64 \<Rightarrow> (string \<Rightarrow> int) \<Rightarrow> decodeNode \<Rightarrow> int \<times> decodeNode" where
  "heldTokens now occ n =
     (if \<not> dn_occupancy n then (0, n)
      else if (case dn_heldAt n of Some t \<Rightarrow> now - t < 1000 | None \<Rightarrow> False) then (dn_held n, n)
      else
        let v = occ (dn_url n);
            n = (if v \<ge> 0 then n\<lparr>dn_held := v\<rparr> else n)
        in (dn_held n, n\<lparr>dn_heldAt := Some now\<rparr>))"

definition invalidateHeld :: "decodeNode \<Rightarrow> decodeNode" where
  "invalidateHeld n = n\<lparr>dn_heldAt := None\<rparr>"

definition dn_claim :: "int \<Rightarrow> decodeNode \<Rightarrow> decodeNode" where
  "dn_claim tok n = n\<lparr>dn_inflight := dn_inflight n + 1, dn_tokens := dn_tokens n + tok\<rparr>"

definition dn_release :: "int \<Rightarrow> decodeNode \<Rightarrow> decodeNode" where
  "dn_release tok n =
     n\<lparr>dn_inflight := (if dn_inflight n - 1 < 0 then 0 else dn_inflight n - 1),
       dn_tokens := (if dn_tokens n - tok < 0 then 0 else dn_tokens n - tok)\<rparr>"

definition dn_load :: "decodeNode \<Rightarrow> int \<times> int" where
  "dn_load n = (dn_inflight n, dn_tokens n)"

definition dn_fits :: "float64 \<Rightarrow> (string \<Rightarrow> int) \<Rightarrow> int \<Rightarrow> decodeNode \<Rightarrow> bool \<times> decodeNode" where
  "dn_fits now occ tok n =
     (let mine = snd (dn_load n);
          (held, n) = heldTokens now occ n;
          used = (if held > mine then held else mine)
      in (of_int (used + tok) \<le> of_int (dn_budget n) * budgetUse, n))"


section \<open>The balancer\<close>

record decodeBalancer =
  db_nodes :: "decodeNode list"
  db_sticky :: "(string \<times> nat) list"
  db_order :: "string list"
  db_rr :: nat

text \<open>\<^verbatim>\<open>strings.TrimRight(s, "/")\<close>\<close>

definition trim_slash :: "string \<Rightarrow> string" where
  "trim_slash s = rev (dropWhile (\<lambda>c. c = CHR ''/'') (rev s))"

definition newDecodeBalancer :: "(string \<times> string) list \<Rightarrow> decodeBalancer" where
  "newDecodeBalancer endpoints =
     \<lparr>db_nodes = map (\<lambda>(nm, url). \<lparr>dn_name = nm, dn_url = trim_slash url, dn_budget = defaultCtx, dn_inflight = 0,
        dn_tokens = 0, dn_held = 0, dn_heldAt = None, dn_occupancy = False, dn_excluded = False\<rparr>) endpoints,
      db_sticky = [], db_order = [], db_rr = 0\<rparr>"

definition on_node :: "nat \<Rightarrow> (decodeNode \<Rightarrow> decodeNode) \<Rightarrow> decodeBalancer \<Rightarrow> decodeBalancer" where
  "on_node i f b = b\<lparr>db_nodes := (db_nodes b)[i := f (db_nodes b ! i)]\<rparr>"

definition Primary :: "decodeBalancer \<Rightarrow> nat option" where
  "Primary b = (if db_nodes b = [] then None else Some 0)"

definition db_Len :: "decodeBalancer \<Rightarrow> nat" where
  "db_Len b = length (db_nodes b)"

text \<open>The loop of \<^verbatim>\<open>otherThan\<close>; the probes it makes refresh the readings of the nodes it visits.\<close>

fun other_loop ::
  "float64 \<Rightarrow> (string \<Rightarrow> int) \<Rightarrow> nat \<Rightarrow> nat \<Rightarrow> decodeNode list \<Rightarrow> (nat \<times> int) option \<Rightarrow> nat option \<times> decodeNode list" where
  "other_loop now occ n i [] best = (map_option fst best, [])"
| "other_loop now occ n i (c # cs) best =
     (if i = n \<or> dn_excluded c then
        let (r, cs') = other_loop now occ n (Suc i) cs best in (r, c # cs')
      else
        let (h, c') = heldTokens now occ c;
            best = (case best of None \<Rightarrow> Some (i, h) | Some (_, bh) \<Rightarrow> if h < bh then Some (i, h) else best);
            (r, cs') = other_loop now occ n (Suc i) cs best
        in (r, c' # cs'))"

definition otherThan :: "float64 \<Rightarrow> (string \<Rightarrow> int) \<Rightarrow> nat \<Rightarrow> decodeBalancer \<Rightarrow> nat option \<times> decodeBalancer" where
  "otherThan now occ n b =
     (let (r, ns) = other_loop now occ n 0 (db_nodes b) None in (r, b\<lparr>db_nodes := ns\<rparr>))"

fun index_of :: "('a \<Rightarrow> bool) \<Rightarrow> nat \<Rightarrow> 'a list \<Rightarrow> nat option" where
  "index_of p i [] = None"
| "index_of p i (x # xs) = (if p x then Some i else index_of p (Suc i) xs)"

definition nodeByURL :: "string \<Rightarrow> decodeBalancer \<Rightarrow> nat option" where
  "nodeByURL url b = (let url = trim_slash url in index_of (\<lambda>n. dn_url n = url) 0 (db_nodes b))"

definition setExcluded :: "string \<Rightarrow> bool \<Rightarrow> decodeBalancer \<Rightarrow> bool \<times> decodeBalancer" where
  "setExcluded url on b =
     (case nodeByURL url b of
        None \<Rightarrow> (False, b)
      | Some i \<Rightarrow> (True, on_node i (\<lambda>n. n\<lparr>dn_excluded := on\<rparr>) b))"

definition setOccupancy :: "decodeBalancer \<Rightarrow> decodeBalancer" where
  "setOccupancy b = b\<lparr>db_nodes := map (\<lambda>n. n\<lparr>dn_occupancy := True\<rparr>) (db_nodes b)\<rparr>"

definition probe_budget :: "(string \<Rightarrow> (string, Body) result) \<Rightarrow> decodeNode \<Rightarrow> decodeNode" where
  "probe_budget get n =
     (case get (dn_url n @ ''/props'') of
        Inl _ \<Rightarrow> n
      | Inr d \<Rightarrow>
          (case field d ''default_generation_settings'' of
             Obj gs \<Rightarrow> (case field gs ''n_ctx'' of Flt v \<Rightarrow> if v > 0 then n\<lparr>dn_budget := go_int v\<rparr> else n | _ \<Rightarrow> n)
           | _ \<Rightarrow> n))"

definition probeBudgets :: "(string \<Rightarrow> (string, Body) result) \<Rightarrow> decodeBalancer \<Rightarrow> decodeBalancer" where
  "probeBudgets get b = b\<lparr>db_nodes := map (probe_budget get) (db_nodes b)\<rparr>"


section \<open>Conversations\<close>

definition hashKey :: "(bytes \<Rightarrow> bytes) \<Rightarrow> string \<Rightarrow> string" where
  "hashKey sha s =
     (let s = (if length s > sessionKeyChars then take sessionKeyChars s else s)
      in concat (map hex_lower (take 8 (sha (str_bytes s)))))"

fun first_turn :: "(go_any \<Rightarrow> string option) \<Rightarrow> go_any list \<Rightarrow> string option" where
  "first_turn marshal [] = None"
| "first_turn marshal (m # ms) =
     (case m of
        Obj mm \<Rightarrow>
          if as_str (field mm ''role'') \<in> {''system'', ''developer''} then first_turn marshal ms
          else (case marshal m of
                  Some s \<Rightarrow> if s \<noteq> [] then Some s else first_turn marshal ms
                | None \<Rightarrow> first_turn marshal ms)
      | _ \<Rightarrow> first_turn marshal ms)"

definition sessionKey :: "(bytes \<Rightarrow> bytes) \<Rightarrow> (go_any \<Rightarrow> string option) \<Rightarrow> Body \<Rightarrow> string" where
  "sessionKey sha marshal body =
     (case first_turn marshal (as_arr (field body ''messages'')) of
        Some head \<Rightarrow> hashKey sha head
      | None \<Rightarrow>
          (case marshal (field body ''messages'') of
             Some s \<Rightarrow> if s = [] then ''default'' else hashKey sha s
           | None \<Rightarrow> ''default''))"

definition touchLocked :: "string \<Rightarrow> decodeBalancer \<Rightarrow> decodeBalancer" where
  "touchLocked key b = b\<lparr>db_order := remove1 key (db_order b) @ [key]\<rparr>"

text \<open>\<open>None\<close> is the panic of \<^verbatim>\<open>b.order[0]\<close> on an empty slice.\<close>

definition setLocked :: "string \<Rightarrow> nat \<Rightarrow> decodeBalancer \<Rightarrow> decodeBalancer option" where
  "setLocked key idx b =
     (let full = (map_of (db_sticky b) key = None \<and> int (length (db_sticky b)) \<ge> stickyCap)
      in if full \<and> db_order b = [] then None
         else
           let b' = (if full then b\<lparr>db_order := tl (db_order b), db_sticky := AList.delete (hd (db_order b)) (db_sticky b)\<rparr> else b)
           in Some (touchLocked key (b'\<lparr>db_sticky := AList.update key idx (db_sticky b')\<rparr>)))"

fun least_loaded :: "nat \<Rightarrow> decodeNode list \<Rightarrow> (nat \<times> int \<times> int) option \<Rightarrow> nat \<Rightarrow> (nat \<times> int \<times> int) option \<times> nat" where
  "least_loaded i [] best avail = (best, avail)"
| "least_loaded i (n # ns) best avail =
     (if dn_excluded n then least_loaded (Suc i) ns best avail
      else
        let (ni, nt) = dn_load n;
            wins = (case best of None \<Rightarrow> True | Some (_, bi, bt) \<Rightarrow> nt < bt \<or> (nt = bt \<and> ni < bi))
        in least_loaded (Suc i) ns (if wins then Some (i, ni, nt) else best) (Suc avail))"

fun kth_available :: "nat \<Rightarrow> nat \<Rightarrow> decodeNode list \<Rightarrow> nat option" where
  "kth_available i k [] = None"
| "kth_available i k (n # ns) =
     (if dn_excluded n then kth_available (Suc i) k ns
      else if k = 0 then Some i
      else kth_available (Suc i) (k - 1) ns)"

definition spread :: "string \<Rightarrow> decodeBalancer \<Rightarrow> (nat option \<times> decodeBalancer) option" where
  "spread key b =
     (case least_loaded 0 (db_nodes b) None 0 of
        (None, _) \<Rightarrow> Some (None, b)
      | (Some (i, bi, bt), avail) \<Rightarrow>
          let tie = (bt = 0 \<and> bi = 0 \<and> avail > 1);
              j = (if tie then (case kth_available 0 (db_rr b mod avail) (db_nodes b) of Some j \<Rightarrow> j | None \<Rightarrow> i) else i);
              b = (if tie then b\<lparr>db_rr := db_rr b + 1\<rparr> else b)
          in map_option (\<lambda>b. (Some j, b)) (setLocked key j b))"

definition chooseNode :: "string \<Rightarrow> decodeBalancer \<Rightarrow> (nat option \<times> decodeBalancer) option" where
  "chooseNode key b =
     (case map_of (db_sticky b) key of
        Some i \<Rightarrow>
          if i < length (db_nodes b) \<and> \<not> dn_excluded (db_nodes b ! i) then Some (Some i, touchLocked key b)
          else spread key b
      | None \<Rightarrow> spread key b)"

definition stickyNode :: "string \<Rightarrow> decodeBalancer \<Rightarrow> (nat option \<times> decodeBalancer) option" where
  "stickyNode key b = (if db_nodes b = [] then Some (None, b) else chooseNode key b)"

definition remember_node :: "string \<Rightarrow> nat \<Rightarrow> decodeBalancer \<Rightarrow> decodeBalancer option" where
  "remember_node key n b = (if n < length (db_nodes b) then setLocked key n b else Some b)"

definition usable :: "decodeNode \<Rightarrow> int" where
  "usable n = go_int (of_int (dn_budget n) * budgetUse)"

text \<open>The loop of \<^verbatim>\<open>tooBigForEveryEngine\<close>; \<open>None\<close> when a budget is unknown.\<close>

fun roomiest :: "nat \<Rightarrow> decodeNode list \<Rightarrow> int \<Rightarrow> nat option \<Rightarrow> (int \<times> nat option) option" where
  "roomiest i [] best big = Some (best, big)"
| "roomiest i (n # ns) best big =
     (if dn_excluded n then roomiest (Suc i) ns best big
      else if dn_budget n \<le> 0 then None
      else if usable n > best then roomiest (Suc i) ns (usable n) (Some i)
      else roomiest (Suc i) ns best big)"

definition tooBigForEveryEngine :: "int \<Rightarrow> decodeBalancer \<Rightarrow> nat option \<times> int \<times> bool" where
  "tooBigForEveryEngine tok b =
     (if tok \<le> 0 then (None, 0, False)
      else case roomiest 0 (db_nodes b) (- 1) None of
             None \<Rightarrow> (None, 0, False)
           | Some (best, None) \<Rightarrow> (None, 0, False)
           | Some (best, Some big) \<Rightarrow> (Some big, best, tok > best))"

fun free_loop :: "float64 \<Rightarrow> (string \<Rightarrow> int) \<Rightarrow> int \<Rightarrow> nat \<Rightarrow> decodeNode list \<Rightarrow> nat option \<times> decodeNode list" where
  "free_loop now occ tok i [] = (None, [])"
| "free_loop now occ tok i (n # ns) =
     (if dn_excluded n then let (r, ns') = free_loop now occ tok (Suc i) ns in (r, n # ns')
      else
        let (ok, n') = dn_fits now occ tok n
        in if ok then (Some i, n' # ns)
           else let (r, ns') = free_loop now occ tok (Suc i) ns in (r, n' # ns'))"

definition freeNode :: "float64 \<Rightarrow> (string \<Rightarrow> int) \<Rightarrow> int \<Rightarrow> decodeBalancer \<Rightarrow> nat option \<times> decodeBalancer" where
  "freeNode now occ tok b =
     (let (r, ns) = free_loop now occ tok 0 (db_nodes b) in (r, b\<lparr>db_nodes := ns\<rparr>))"

definition fits_at :: "float64 \<Rightarrow> (string \<Rightarrow> int) \<Rightarrow> int \<Rightarrow> nat \<Rightarrow> decodeBalancer \<Rightarrow> bool \<times> decodeBalancer" where
  "fits_at now occ tok i b =
     (let (ok, n) = dn_fits now occ tok (db_nodes b ! i) in (ok, b\<lparr>db_nodes := (db_nodes b)[i := n]\<rparr>))"


section \<open>Admission to an engine\<close>

text \<open>
  \<^verbatim>\<open>pick\<close> sleeps and looks again until its deadline. A \<open>round\<close> is one look: what the other goroutines did
  since the last one, the instant, and what the probe answers then. The operations of the others are the
  ones that change what \<^verbatim>\<open>pick\<close> reads.
\<close>

datatype bal_op = OClaim nat int | ORelease nat int | OExclude string bool | OBudget nat int | OChoose string

definition claim_at :: "nat \<Rightarrow> int \<Rightarrow> decodeBalancer \<Rightarrow> decodeBalancer" where
  "claim_at i tok b = on_node i (\<lambda>n. invalidateHeld (dn_claim tok n)) b"

definition release_at :: "nat \<Rightarrow> int \<Rightarrow> decodeBalancer \<Rightarrow> decodeBalancer" where
  "release_at i tok b = on_node i (\<lambda>n. invalidateHeld (dn_release tok n)) b"

fun apply_op :: "bal_op \<Rightarrow> decodeBalancer \<Rightarrow> decodeBalancer option" where
  "apply_op (OClaim i tok) b = Some (if i < length (db_nodes b) \<and> 0 \<le> tok then claim_at i tok b else b)"
| "apply_op (ORelease i tok) b = Some (if i < length (db_nodes b) \<and> 0 \<le> tok then release_at i tok b else b)"
| "apply_op (OExclude url on) b = Some (snd (setExcluded url on b))"
| "apply_op (OBudget i v) b = Some (if i < length (db_nodes b) then on_node i (\<lambda>n. n\<lparr>dn_budget := v\<rparr>) b else b)"
| "apply_op (OChoose key) b = map_option snd (chooseNode key b)"

fun apply_ops :: "bal_op list \<Rightarrow> decodeBalancer \<Rightarrow> decodeBalancer option" where
  "apply_ops [] b = Some b"
| "apply_ops (x # xs) b = (case apply_op x b of None \<Rightarrow> None | Some b \<Rightarrow> apply_ops xs b)"

record round =
  rd_ops :: "bal_op list"
  rd_now :: float64
  rd_occ :: "string \<Rightarrow> int"

datatype pick_result = Served nat | NoEngines | EngineTooBig nat | DecodeTraining | EngineFull nat | PickPanic

text \<open>The waiting loop: \<open>None\<close> when the rounds run out with the request still waiting.\<close>

fun pick_wait :: "round list \<Rightarrow> float64 \<Rightarrow> string \<Rightarrow> int \<Rightarrow> nat \<Rightarrow> decodeBalancer \<Rightarrow> (nat option \<times> decodeBalancer) option" where
  "pick_wait [] deadline key est n b = None"
| "pick_wait (r # rs) deadline key est n b =
     (case apply_ops (rd_ops r) b of
        None \<Rightarrow> Some (None, b)
      | Some b \<Rightarrow>
          let (ok, b) = fits_at (rd_now r) (rd_occ r) est n b
          in if ok \<or> \<not> rd_now r < deadline then Some (Some n, b)
             else
               let (alt, b) = freeNode (rd_now r) (rd_occ r) est b
               in case alt of
                    Some m \<Rightarrow>
                      if m \<noteq> n then
                        (case remember_node key m b of None \<Rightarrow> Some (None, b) | Some b \<Rightarrow> Some (Some m, b))
                      else pick_wait rs deadline key est n b
                  | None \<Rightarrow> pick_wait rs deadline key est n b)"

text \<open>
  The last look and the claim are two steps of their own: \<open>fin\<close> is the last round and \<open>gap\<close> what the others
  do between the check and the claim.
\<close>

definition pick_claim :: "round \<Rightarrow> bal_op list \<Rightarrow> int \<Rightarrow> nat \<Rightarrow> decodeBalancer \<Rightarrow> pick_result \<times> decodeBalancer" where
  "pick_claim fin gap est n b =
     (case apply_ops (rd_ops fin) b of
        None \<Rightarrow> (PickPanic, b)
      | Some b \<Rightarrow>
          let (ok, b) = fits_at (rd_now fin) (rd_occ fin) est n b
          in if \<not> ok then (EngineFull n, b)
             else (case apply_ops gap b of
                     None \<Rightarrow> (PickPanic, b)
                   | Some b \<Rightarrow> (Served n, claim_at n est b)))"

definition pick ::
  "round list \<Rightarrow> round \<Rightarrow> bal_op list \<Rightarrow> float64 \<Rightarrow> string \<Rightarrow> int \<Rightarrow> decodeBalancer \<Rightarrow> (pick_result \<times> decodeBalancer) option" where
  "pick rs fin gap start key est b =
     (if db_nodes b = [] then Some (NoEngines, b)
      else
        let est = (if est < 0 then 0 else est)
        in case tooBigForEveryEngine est b of
             (Some big, room, True) \<Rightarrow> Some (EngineTooBig big, b)
           | _ \<Rightarrow>
               (case chooseNode key b of
                  None \<Rightarrow> Some (PickPanic, b)
                | Some (None, b) \<Rightarrow> Some (DecodeTraining, b)
                | Some (Some n, b) \<Rightarrow>
                    (case pick_wait rs (start + waitBudget) key est n b of
                       None \<Rightarrow> None
                     | Some (None, b) \<Rightarrow> Some (PickPanic, b)
                     | Some (Some n, b) \<Rightarrow> Some (pick_claim fin gap est n b))))"


section \<open>Reports\<close>

definition sessionsOn :: "nat \<Rightarrow> decodeBalancer \<Rightarrow> nat" where
  "sessionsOn idx b = length (filter (\<lambda>(_, i). i = idx) (db_sticky b))"

definition sessionsOnNode :: "nat option \<Rightarrow> decodeBalancer \<Rightarrow> nat" where
  "sessionsOnNode n b =
     (case n of
        None \<Rightarrow> 1
      | Some i \<Rightarrow> if i < length (db_nodes b) then (let c = sessionsOn i b in if c > 1 then c else 1) else 1)"

fun stats_loop :: "float64 \<Rightarrow> (string \<Rightarrow> int) \<Rightarrow> decodeBalancer \<Rightarrow> nat \<Rightarrow> decodeNode list \<Rightarrow> Record list \<times> decodeNode list" where
  "stats_loop now occ b i [] = ([], [])"
| "stats_loop now occ b i (n # ns) =
     (let (inf, t) = dn_load n;
          (held, n') = heldTokens now occ n;
          (rs, ns') = stats_loop now occ b (Suc i) ns
      in ([(''name'', Str (dn_name n)), (''url'', Str (dn_url n)), (''budget'', Num (dn_budget n)), (''inflight'', Num inf),
           (''tokens_inflight'', Num t), (''tokens_held'', Num held), (''sessions'', Num (int (sessionsOn i b))),
           (''training'', Bool (dn_excluded n))] # rs, n' # ns'))"

definition stats :: "float64 \<Rightarrow> (string \<Rightarrow> int) \<Rightarrow> decodeBalancer \<Rightarrow> Record list \<times> decodeBalancer" where
  "stats now occ b = (let (rs, ns) = stats_loop now occ b 0 (db_nodes b) in (rs, b\<lparr>db_nodes := ns\<rparr>))"


section \<open>Invariant\<close>

text \<open>
  The sticky table is a bounded registry whose entries point at engines, and the counters of an engine
  are never negative.
\<close>

definition node_ok :: "decodeNode \<Rightarrow> bool" where
  "node_ok n \<longleftrightarrow> 0 \<le> dn_inflight n \<and> 0 \<le> dn_tokens n"

definition bal_inv :: "decodeBalancer \<Rightarrow> bool" where
  "bal_inv b \<longleftrightarrow> reg_inv stickyCap (db_sticky b) (db_order b) \<and>
     (\<forall>i\<in>ran (map_of (db_sticky b)). i < length (db_nodes b)) \<and> (\<forall>n\<in>set (db_nodes b). node_ok n)"

text \<open>Steps that leave the table alone and change nodes one by one.\<close>

definition same_table :: "decodeBalancer \<Rightarrow> decodeBalancer \<Rightarrow> bool" where
  "same_table b b' \<longleftrightarrow> db_sticky b' = db_sticky b \<and> db_order b' = db_order b \<and> length (db_nodes b') = length (db_nodes b)"

lemma bal_inv_nodes: "bal_inv b \<Longrightarrow> same_table b b' \<Longrightarrow> \<forall>n\<in>set (db_nodes b'). node_ok n \<Longrightarrow> bal_inv b'"
  by (simp add: bal_inv_def same_table_def)

lemma on_node_inv:
  assumes "bal_inv b" "i < length (db_nodes b)" "\<And>n. node_ok n \<Longrightarrow> node_ok (f n)"
  shows "bal_inv (on_node i f b)" "same_table b (on_node i f b)"
proof -
  show t: "same_table b (on_node i f b)" by (simp add: same_table_def on_node_def)
  have "node_ok (f (db_nodes b ! i))" using assms by (simp add: bal_inv_def)
  then show "bal_inv (on_node i f b)"
    using assms(1) set_update_subset_insert[of "db_nodes b" i "f (db_nodes b ! i)"]
    by (intro bal_inv_nodes[OF assms(1) t]) (auto simp: on_node_def bal_inv_def)
qed

lemma setLocked_run:
  assumes "bal_inv b" "i < length (db_nodes b)"
  obtains b' where "setLocked key i b = Some b'" "bal_inv b'" "db_nodes b' = db_nodes b" "map_of (db_sticky b') key = Some i"
    "db_rr b' = db_rr b"
proof -
  have r: "reg_inv stickyCap (db_sticky b) (db_order b)" using assms by (simp add: bal_inv_def)
  obtain m ord where room: "reg_room stickyCap (db_sticky b) (db_order b) key = (m, ord)" by fastforce
  define b' where "b' = b\<lparr>db_sticky := AList.update key i m, db_order := remove1 key ord @ [key]\<rparr>"
  have "setLocked key i b = Some b'"
    using room reg_full_nonempty[OF r] by (auto simp: setLocked_def touchLocked_def reg_room_def Let_def b'_def split: if_splits)
  moreover have "ran (map_of (AList.update key i m)) \<subseteq> insert i (ran (map_of (db_sticky b)))"
    unfolding reg_put_contract(2)[OF r room] by (auto simp: ran_def)
  then have "bal_inv b'"
    using assms reg_put_contract(1)[OF r room] by (fastforce simp: bal_inv_def b'_def)
  ultimately show thesis using that by (simp add: b'_def update_conv')
qed

lemma touch_inv: "bal_inv b \<Longrightarrow> map_of (db_sticky b) key = Some i \<Longrightarrow> bal_inv (touchLocked key b)"
  using reg_dom[of stickyCap "db_sticky b" "db_order b"]
  by (auto simp: bal_inv_def touchLocked_def reg_inv_def length_remove1 distinct_remove1 set_remove1_distinct of_nat_diff Suc_le_eq)

lemma least_loaded_result:
  assumes "least_loaded i ns best avail = (r, av)"
  shows "case r of
      None \<Rightarrow> best = None \<and> (\<forall>n\<in>set ns. dn_excluded n)
    | Some (j, bi, bt) \<Rightarrow> (best = Some (j, bi, bt) \<or>
          i \<le> j \<and> j < i + length ns \<and> \<not> dn_excluded (ns ! (j - i)) \<and> dn_load (ns ! (j - i)) = (bi, bt)) \<and>
        (\<forall>n\<in>set ns. \<not> dn_excluded n \<longrightarrow> bt < dn_tokens n \<or> bt = dn_tokens n \<and> bi \<le> dn_inflight n) \<and>
        (\<forall>k ki kt. best = Some (k, ki, kt) \<longrightarrow> bt < kt \<or> bt = kt \<and> bi \<le> ki)"
  using assms
proof (induction ns arbitrary: i best avail)
  case (Cons n ns)
  show ?case
  proof (cases "dn_excluded n")
    case True
    then show ?thesis using Cons.IH[of "Suc i" best avail] Cons.prems
      by (fastforce simp: nth_Cons' less_Suc_eq_le split: option.splits prod.splits)
  next
    case False
    define wins where "wins = (case best of None \<Rightarrow> True | Some (_, bi, bt) \<Rightarrow> dn_tokens n < bt \<or> (dn_tokens n = bt \<and> dn_inflight n < bi))"
    define best' where "best' = (if wins then Some (i, dn_inflight n, dn_tokens n) else best)"
    have run: "least_loaded (Suc i) ns best' (Suc avail) = (r, av)"
      using Cons.prems False by (simp add: best'_def wins_def dn_load_def)
    note ih = Cons.IH[OF run]
    have some: "r \<noteq> None" using ih by (auto simp: best'_def wins_def split: option.splits if_splits)
    then obtain j bi bt where r: "r = Some (j, bi, bt)" by (cases r) auto
    have rest: "best' = Some (j, bi, bt) \<or> Suc i \<le> j \<and> j < Suc i + length ns \<and> \<not> dn_excluded (ns ! (j - Suc i)) \<and> dn_load (ns ! (j - Suc i)) = (bi, bt)"
      and all: "\<forall>n\<in>set ns. \<not> dn_excluded n \<longrightarrow> bt < dn_tokens n \<or> bt = dn_tokens n \<and> bi \<le> dn_inflight n"
      and prev: "\<forall>k ki kt. best' = Some (k, ki, kt) \<longrightarrow> bt < kt \<or> bt = kt \<and> bi \<le> ki"
      using ih r by auto
    have "best = Some (j, bi, bt) \<or> i \<le> j \<and> j < i + length (n # ns) \<and> \<not> dn_excluded ((n # ns) ! (j - i)) \<and> dn_load ((n # ns) ! (j - i)) = (bi, bt)"
      using rest False by (auto simp: best'_def dn_load_def nth_Cons' split: if_splits)
    moreover have "bt < dn_tokens n \<or> bt = dn_tokens n \<and> bi \<le> dn_inflight n"
      using prev by (fastforce simp: best'_def wins_def split: if_splits option.splits)
    moreover have "\<forall>k ki kt. best = Some (k, ki, kt) \<longrightarrow> bt < kt \<or> bt = kt \<and> bi \<le> ki"
      using prev by (fastforce simp: best'_def wins_def split: if_splits)
    ultimately show ?thesis using all r by auto
  qed
qed (auto split: option.splits)

lemma least_loaded_count: "least_loaded i ns best avail = (r, av) \<Longrightarrow> av = avail + length (filter (\<lambda>n. \<not> dn_excluded n) ns)"
proof (induction ns arbitrary: i best avail)
  case (Cons n ns)
  show ?case using Cons.IH[of "Suc i" best avail] Cons.IH[of "Suc i" _ "Suc avail"] Cons.prems
    by (cases "dn_excluded n") (auto simp: Let_def dn_load_def)
qed simp

lemma kth_available_ok:
  "k < length (filter (\<lambda>n. \<not> dn_excluded n) ns) \<Longrightarrow>
     \<exists>j. kth_available i k ns = Some j \<and> i \<le> j \<and> j < i + length ns \<and> \<not> dn_excluded (ns ! (j - i))"
proof (induction ns arbitrary: i k)
  case (Cons n ns)
  show ?case
  proof (cases "dn_excluded n \<or> k \<noteq> 0")
    case True
    then show ?thesis using Cons.IH[of k "Suc i"] Cons.IH[of "k - 1" "Suc i"] Cons.prems
      by (fastforce simp: nth_Cons' split: if_splits)
  qed auto
qed simp

text \<open>What \<^verbatim>\<open>chooseNode\<close> picks for a new conversation.\<close>

definition least :: "decodeBalancer \<Rightarrow> nat \<Rightarrow> bool" where
  "least b j \<longleftrightarrow> j < length (db_nodes b) \<and> \<not> dn_excluded (db_nodes b ! j) \<and>
     (\<forall>n\<in>set (db_nodes b). \<not> dn_excluded n \<longrightarrow>
        dn_tokens (db_nodes b ! j) < dn_tokens n \<or>
        dn_tokens (db_nodes b ! j) = dn_tokens n \<and> dn_inflight (db_nodes b ! j) \<le> dn_inflight n)"

definition all_fenced :: "decodeBalancer \<Rightarrow> bool" where
  "all_fenced b \<longleftrightarrow> (\<forall>n\<in>set (db_nodes b). dn_excluded n)"

text \<open>The engines that are all idle: the rotation takes the next one, whatever its load would say.\<close>

definition rotates :: "decodeBalancer \<Rightarrow> nat \<Rightarrow> bool" where
  "rotates b j \<longleftrightarrow> j < length (db_nodes b) \<and> \<not> dn_excluded (db_nodes b ! j) \<and>
     (\<exists>i. least b i \<and> dn_tokens (db_nodes b ! i) = 0 \<and> dn_inflight (db_nodes b ! i) = 0)"

lemma spread_run:
  assumes "bal_inv b"
  shows "\<exists>r b'. spread key b = Some (r, b') \<and> bal_inv b' \<and> db_nodes b' = db_nodes b \<and>
    (case r of None \<Rightarrow> all_fenced b | Some j \<Rightarrow> (least b j \<or> rotates b j) \<and> map_of (db_sticky b') key = Some j)"
proof -
  obtain r av where ll: "least_loaded 0 (db_nodes b) None 0 = (r, av)" by fastforce
  note res = least_loaded_result[OF ll] and cnt = least_loaded_count[OF ll]
  show ?thesis
  proof (cases r)
    case None
    then show ?thesis using res ll assms by (auto simp: spread_def all_fenced_def)
  next
    case (Some x)
    obtain i bi bt where x: "x = (i, bi, bt)" using prod_cases3 by blast
    have least: "least b i" "dn_load (db_nodes b ! i) = (bi, bt)" using res Some x by (auto simp: least_def dn_load_def)
    define tie where "tie = (bt = 0 \<and> bi = 0 \<and> av > 1)"
    define b1 where "b1 = (if tie then b\<lparr>db_rr := db_rr b + 1\<rparr> else b)"
    define j where "j = (if tie then (case kth_available 0 (db_rr b mod av) (db_nodes b) of Some j \<Rightarrow> j | None \<Rightarrow> i) else i)"
    have b1: "bal_inv b1" "db_nodes b1 = db_nodes b" using assms by (auto simp: b1_def bal_inv_def)
    have j: "least b j \<or> rotates b j"
    proof (cases tie)
      case True
      have "db_rr b mod av < av" using True by (intro mod_less_divisor) (simp add: tie_def)
      then have "db_rr b mod av < length (filter (\<lambda>n. \<not> dn_excluded n) (db_nodes b))" using cnt by simp
      from kth_available_ok[OF this, of 0] obtain k where
        "kth_available 0 (db_rr b mod av) (db_nodes b) = Some k" "k < length (db_nodes b)" "\<not> dn_excluded (db_nodes b ! k)" by auto
      then have "rotates b j" using True least by (auto simp: rotates_def j_def tie_def dn_load_def)
      then show ?thesis ..
    qed (use least in \<open>simp add: j_def\<close>)
    then have "j < length (db_nodes b1)" using b1 by (auto simp: least_def rotates_def)
    then obtain b' where b': "setLocked key j b1 = Some b'" "bal_inv b'" "db_nodes b' = db_nodes b1" "map_of (db_sticky b') key = Some j"
      using setLocked_run[OF b1(1)] by metis
    have "spread key b = Some (Some j, b')"
      unfolding spread_def ll Some x Let_def prod.case option.case tie_def[symmetric] j_def[symmetric] b1_def[symmetric]
      using b'(1) by simp
    then show ?thesis using b' b1 j by auto
  qed
qed

lemma chooseNode_run:
  assumes "bal_inv b"
  shows "\<exists>r b'. chooseNode key b = Some (r, b') \<and> bal_inv b' \<and> db_nodes b' = db_nodes b \<and>
    (case r of
       None \<Rightarrow> all_fenced b
     | Some j \<Rightarrow> j < length (db_nodes b) \<and> \<not> dn_excluded (db_nodes b ! j) \<and> map_of (db_sticky b') key = Some j \<and>
         (case map_of (db_sticky b) key of
            Some i \<Rightarrow> if i < length (db_nodes b) \<and> \<not> dn_excluded (db_nodes b ! i) then j = i else least b j \<or> rotates b j
          | None \<Rightarrow> least b j \<or> rotates b j))"
proof (cases "\<exists>i. map_of (db_sticky b) key = Some i \<and> i < length (db_nodes b) \<and> \<not> dn_excluded (db_nodes b ! i)")
  case True
  then obtain i where i: "map_of (db_sticky b) key = Some i" "i < length (db_nodes b)" "\<not> dn_excluded (db_nodes b ! i)" by blast
  then show ?thesis using touch_inv[OF assms i(1)]
    by (intro exI[of _ "Some i"] exI[of _ "touchLocked key b"]) (simp add: chooseNode_def touchLocked_def)
next
  case False
  then have eq: "chooseNode key b = spread key b" by (auto simp: chooseNode_def split: option.split)
  obtain r b' where s: "spread key b = Some (r, b')" "bal_inv b'" "db_nodes b' = db_nodes b"
    "case r of None \<Rightarrow> all_fenced b | Some j \<Rightarrow> (least b j \<or> rotates b j) \<and> map_of (db_sticky b') key = Some j"
    using spread_run[OF assms] by blast
  have lr: "least b j \<or> rotates b j \<Longrightarrow> j < length (db_nodes b) \<and> \<not> dn_excluded (db_nodes b ! j)" for j
    by (auto simp: least_def rotates_def)
  show ?thesis using s lr False unfolding eq
    by (intro exI[of _ r] exI[of _ b']) (auto split: option.splits)
qed


section \<open>Waiting for room\<close>

text \<open>Looking at an engine refreshes its reading and nothing else.\<close>

definition seen :: "decodeNode \<Rightarrow> decodeNode \<Rightarrow> bool" where
  "seen n n' \<longleftrightarrow> (\<exists>h t. n' = n\<lparr>dn_held := h, dn_heldAt := t\<rparr>)"

lemma seenD: "seen n n' \<Longrightarrow> dn_tokens n' = dn_tokens n \<and> dn_budget n' = dn_budget n \<and> dn_inflight n' = dn_inflight n \<and>
    dn_excluded n' = dn_excluded n \<and> dn_url n' = dn_url n"
  by (auto simp: seen_def)

lemma seen_refl: "seen n n"
  unfolding seen_def by (intro exI[of _ "dn_held n"] exI[of _ "dn_heldAt n"]) simp

definition in_budget :: "decodeNode \<Rightarrow> bool" where
  "in_budget n \<longleftrightarrow> of_int (dn_tokens n) \<le> of_int (dn_budget n) * budgetUse"

lemma heldTokens_seen: "seen n (snd (heldTokens now occ n))"
proof -
  have "seen n (n\<lparr>dn_heldAt := t\<rparr>)" for t
    unfolding seen_def by (intro exI[of _ "dn_held n"] exI[of _ t]) simp
  moreover have "seen n (n\<lparr>dn_held := h, dn_heldAt := t\<rparr>)" for h t unfolding seen_def by blast
  ultimately show ?thesis using seen_refl by (simp add: heldTokens_def Let_def)
qed

lemma dn_fits_run:
  assumes "dn_fits now occ tok n = (ok, n')"
  shows "seen n n'" "ok \<Longrightarrow> of_int (dn_tokens n + tok) \<le> of_int (dn_budget n) * budgetUse"
proof -
  obtain h n1 where h: "heldTokens now occ n = (h, n1)" by fastforce
  have s: "seen n n1" using heldTokens_seen[of n now occ] h by simp
  have eq: "n' = n1" "ok = (of_int ((if h > dn_tokens n then h else dn_tokens n) + tok) \<le> of_int (dn_budget n1) * budgetUse)"
    using assms h by (auto simp: dn_fits_def Let_def dn_load_def)
  show "seen n n'" using s eq by simp
  have m: "real_of_int (dn_tokens n + tok) \<le> of_int ((if h > dn_tokens n then h else dn_tokens n) + tok)" by simp
  show "of_int (dn_tokens n + tok) \<le> of_int (dn_budget n) * budgetUse" if ok
    using that eq(2) seenD[OF s] order_trans[OF m] by simp
qed

lemma seen_inv:
  assumes "bal_inv b" "list_all2 seen (db_nodes b) ns"
  shows "bal_inv (b\<lparr>db_nodes := ns\<rparr>)"
proof -
  have "node_ok n'" if "seen n n'" "node_ok n" for n n' using that seenD[OF that(1)] by (simp add: node_ok_def)
  moreover have "\<forall>n'\<in>set ns. \<exists>n\<in>set (db_nodes b). seen n n'"
    using assms(2) by (metis list_all2_conv_all_nth in_set_conv_nth)
  ultimately show ?thesis using assms list_all2_lengthD[OF assms(2)] by (auto simp: bal_inv_def)
qed

lemma fits_at_run:
  assumes "bal_inv b" "i < length (db_nodes b)" "fits_at now occ tok i b = (ok, b')"
  shows "bal_inv b'" "list_all2 seen (db_nodes b) (db_nodes b')" "db_sticky b' = db_sticky b"
    "ok \<Longrightarrow> of_int (dn_tokens (db_nodes b' ! i) + tok) \<le> of_int (dn_budget (db_nodes b' ! i)) * budgetUse"
proof -
  obtain n where n: "dn_fits now occ tok (db_nodes b ! i) = (ok, n)" "b' = b\<lparr>db_nodes := (db_nodes b)[i := n]\<rparr>"
    using assms(3) by (auto simp: fits_at_def Let_def split: prod.splits)
  have all: "list_all2 seen (db_nodes b) ((db_nodes b)[i := n])"
    using dn_fits_run(1)[OF n(1)] assms(2) seen_refl
    by (auto simp: list_all2_conv_all_nth nth_list_update)
  then show "bal_inv b'" "list_all2 seen (db_nodes b) (db_nodes b')" "db_sticky b' = db_sticky b"
    using seen_inv[OF assms(1)] n(2) by auto
  show "of_int (dn_tokens (db_nodes b' ! i) + tok) \<le> of_int (dn_budget (db_nodes b' ! i)) * budgetUse" if ok
    using dn_fits_run(2)[OF n(1) that] seenD[OF dn_fits_run(1)[OF n(1)]] n(2) assms(2) by simp
qed

lemma free_loop_run:
  assumes "free_loop now occ tok i ns = (r, ns')"
  shows "list_all2 seen ns ns'" "\<And>j. r = Some j \<Longrightarrow> i \<le> j \<and> j < i + length ns"
proof -
  have "list_all2 seen ns ns' \<and> (\<forall>j. r = Some j \<longrightarrow> i \<le> j \<and> j < i + length ns)"
    using assms
  proof (induction ns arbitrary: i r ns')
    case (Cons n ns)
    obtain r1 ns1 where rest: "free_loop now occ tok (Suc i) ns = (r1, ns1)" by fastforce
    obtain ok n1 where f: "dn_fits now occ tok n = (ok, n1)" by fastforce
    have all: "list_all2 seen ns ns" using seen_refl by (simp add: list_all2_refl)
    show ?case using Cons.IH[OF rest] Cons.prems rest f dn_fits_run(1)[OF f] seen_refl all
      by (cases "dn_excluded n"; cases ok) (auto simp: Let_def)
  qed simp
  then show "list_all2 seen ns ns'" "\<And>j. r = Some j \<Longrightarrow> i \<le> j \<and> j < i + length ns" by blast+
qed

lemma index_of_bound: "index_of p i ns = Some j \<Longrightarrow> j < i + length ns"
proof (induction ns arbitrary: i)
  case (Cons n ns)
  then show ?case using Cons.IH[of "Suc i"] by (auto split: if_splits)
qed simp

lemma apply_ops_run:
  assumes "bal_inv b"
  shows "\<exists>b'. apply_ops xs b = Some b' \<and> bal_inv b' \<and> length (db_nodes b') = length (db_nodes b)"
  using assms
proof (induction xs arbitrary: b)
  case (Cons x xs)
  have "\<exists>b'. apply_op x b = Some b' \<and> bal_inv b' \<and> length (db_nodes b') = length (db_nodes b)"
  proof (cases x)
    case (OClaim i tok)
    then show ?thesis using on_node_inv[OF Cons.prems, of i "\<lambda>n. invalidateHeld (dn_claim tok n)"] Cons.prems
      by (auto simp: claim_at_def node_ok_def invalidateHeld_def dn_claim_def same_table_def)
  next
    case (ORelease i tok)
    then show ?thesis using on_node_inv[OF Cons.prems, of i "\<lambda>n. invalidateHeld (dn_release tok n)"] Cons.prems
      by (auto simp: release_at_def node_ok_def invalidateHeld_def dn_release_def same_table_def)
  next
    case (OExclude url on)
    show ?thesis
    proof (cases "nodeByURL url b")
      case (Some i)
      have "i < length (db_nodes b)" using index_of_bound[of _ 0 "db_nodes b" i] Some by (auto simp: nodeByURL_def Let_def)
      then show ?thesis using Some OExclude on_node_inv[OF Cons.prems, of i "\<lambda>n. n\<lparr>dn_excluded := on\<rparr>"]
        by (auto simp: setExcluded_def node_ok_def same_table_def)
    qed (use OExclude Cons.prems in \<open>simp add: setExcluded_def\<close>)
  next
    case (OBudget i v)
    then show ?thesis using on_node_inv[OF Cons.prems, of i "\<lambda>n. n\<lparr>dn_budget := v\<rparr>"] Cons.prems
      by (auto simp: node_ok_def same_table_def)
  next
    case (OChoose key)
    then show ?thesis using chooseNode_run[OF Cons.prems, of key] by auto
  qed
  then show ?case using Cons.IH by (fastforce split: option.splits)
qed simp

lemma freeNode_run:
  assumes "bal_inv b" "freeNode now occ tok b = (r, b')"
  shows "bal_inv b'" "list_all2 seen (db_nodes b) (db_nodes b')" "\<And>j. r = Some j \<Longrightarrow> j < length (db_nodes b)"
proof -
  obtain ns where f: "free_loop now occ tok 0 (db_nodes b) = (r, ns)" "b' = b\<lparr>db_nodes := ns\<rparr>"
    using assms(2) by (auto simp: freeNode_def Let_def split: prod.splits)
  show "bal_inv b'" "list_all2 seen (db_nodes b) (db_nodes b')" "\<And>j. r = Some j \<Longrightarrow> j < length (db_nodes b)"
    using seen_inv[OF assms(1) free_loop_run(1)[OF f(1)]] free_loop_run[OF f(1)] f(2) by auto
qed

text \<open>The loop ends once a round is past the deadline, without a panic.\<close>

lemma pick_wait_run:
  assumes "bal_inv b" "n < length (db_nodes b)" "rs \<noteq> []" "deadline \<le> rd_now (last rs)"
  shows "\<exists>m b'. pick_wait rs deadline key est n b = Some (Some m, b') \<and> bal_inv b' \<and>
    length (db_nodes b') = length (db_nodes b) \<and> m < length (db_nodes b')"
  using assms
proof (induction rs arbitrary: b)
  case (Cons r rs)
  obtain b1 where b1: "apply_ops (rd_ops r) b = Some b1" "bal_inv b1" "length (db_nodes b1) = length (db_nodes b)"
    using apply_ops_run[OF Cons.prems(1)] by blast
  obtain ok b2 where f: "fits_at (rd_now r) (rd_occ r) est n b1 = (ok, b2)" by fastforce
  have b2: "bal_inv b2" "length (db_nodes b2) = length (db_nodes b)"
    using fits_at_run(1,2)[OF b1(2) _ f] Cons.prems(2) b1(3) list_all2_lengthD by fastforce+
  obtain alt b3 where a: "freeNode (rd_now r) (rd_occ r) est b2 = (alt, b3)" by fastforce
  have b3: "bal_inv b3" "length (db_nodes b3) = length (db_nodes b)" "\<And>m. alt = Some m \<Longrightarrow> m < length (db_nodes b3)"
    using freeNode_run[OF b2(1) a] b2(2) list_all2_lengthD by fastforce+
  have moved: "\<exists>b'. remember_node key m b3 = Some b' \<and> bal_inv b' \<and> length (db_nodes b') = length (db_nodes b)"
    if m: "alt = Some m" for m
  proof -
    obtain b' where "setLocked key m b3 = Some b'" "bal_inv b'" "db_nodes b' = db_nodes b3"
      by (rule setLocked_run[OF b3(1) b3(3)[OF m], of key])
    then show ?thesis using b3(2) b3(3)[OF m] by (simp add: remember_node_def)
  qed
  have again: "rs \<noteq> [] \<Longrightarrow> \<exists>m b'. pick_wait rs deadline key est n b3 = Some (Some m, b') \<and> bal_inv b' \<and>
    length (db_nodes b') = length (db_nodes b) \<and> m < length (db_nodes b')"
    using Cons.IH[OF b3(1)] Cons.prems(2,4) b3(2) by simp
  have last: "rs = [] \<Longrightarrow> \<not> rd_now r < deadline" using Cons.prems(4) by simp
  show ?case
  proof (cases "ok \<or> \<not> rd_now r < deadline")
    case True
    then show ?thesis using b1(1) f b2 Cons.prems(2) by simp
  next
    case False
    then have "rs \<noteq> []" using last by blast
    then show ?thesis using False b1(1) f a moved again b3(2,3)
      by (cases alt) (auto split: option.splits)
  qed
qed simp

lemma pick_claim_run:
  assumes "bal_inv b" "n < length (db_nodes b)" "0 \<le> est"
  shows "\<exists>res b'. pick_claim fin gap est n b = (res, b') \<and> bal_inv b' \<and> res \<in> {Served n, EngineFull n} \<and>
    (res = Served n \<and> gap = [] \<longrightarrow> in_budget (db_nodes b' ! n))"
proof -
  obtain b1 where b1: "apply_ops (rd_ops fin) b = Some b1" "bal_inv b1" "length (db_nodes b1) = length (db_nodes b)"
    using apply_ops_run[OF assms(1)] by blast
  have n1: "n < length (db_nodes b1)" using assms(2) b1(3) by simp
  obtain ok b2 where f: "fits_at (rd_now fin) (rd_occ fin) est n b1 = (ok, b2)" by fastforce
  note b2 = fits_at_run[OF b1(2) n1 f]
  have n2: "n < length (db_nodes b2)" using list_all2_lengthD[OF b2(2)] n1 by simp
  obtain b3 where b3: "apply_ops gap b2 = Some b3" "bal_inv b3" "length (db_nodes b3) = length (db_nodes b2)"
    using apply_ops_run[OF b2(1)] by blast
  have "bal_inv (claim_at n est b3)"
    unfolding claim_at_def using assms(3) b3(2,3) n2
    by (intro on_node_inv(1)) (auto simp: node_ok_def invalidateHeld_def dn_claim_def)
  moreover have "in_budget (db_nodes (claim_at n est b2) ! n)" if ok
    using b2(4)[OF that] n2 by (simp add: claim_at_def on_node_def in_budget_def invalidateHeld_def dn_claim_def)
  ultimately show ?thesis using b1(1) f b2(1) b3(1) by (cases ok; cases gap) (auto simp: pick_claim_def)
qed

lemma roomiest_result:
  assumes "roomiest i ns best big = Some (u, r)" "- 1 \<le> best"
  shows "best \<le> u" "\<forall>n\<in>set ns. \<not> dn_excluded n \<longrightarrow> 0 < dn_budget n \<and> usable n \<le> u"
    "u = best \<or> (\<exists>n\<in>set ns. \<not> dn_excluded n \<and> u = usable n)"
    "r = None \<Longrightarrow> big = None \<and> (\<forall>n\<in>set ns. \<not> dn_excluded n \<longrightarrow> usable n \<le> best)"
    "r \<noteq> None \<Longrightarrow> big \<noteq> None \<or> (\<exists>n\<in>set ns. \<not> dn_excluded n)"
proof -
  have "best \<le> u \<and> (\<forall>n\<in>set ns. \<not> dn_excluded n \<longrightarrow> 0 < dn_budget n \<and> usable n \<le> u) \<and>
    (u = best \<or> (\<exists>n\<in>set ns. \<not> dn_excluded n \<and> u = usable n)) \<and>
    (r = None \<longrightarrow> big = None \<and> (\<forall>n\<in>set ns. \<not> dn_excluded n \<longrightarrow> usable n \<le> best)) \<and>
    (r \<noteq> None \<longrightarrow> big \<noteq> None \<or> (\<exists>n\<in>set ns. \<not> dn_excluded n))"
    using assms
  proof (induction ns arbitrary: i best big)
    case (Cons n ns)
    consider "dn_excluded n" | "\<not> dn_excluded n" "0 < dn_budget n" "usable n > best" | "\<not> dn_excluded n" "0 < dn_budget n" "\<not> usable n > best"
      using Cons.prems by (fastforce split: if_splits)
    then show ?case
    proof cases
      case 1
      then show ?thesis using Cons.IH[of "Suc i" best big] Cons.prems by auto
    next
      case 2
      then show ?thesis using Cons.IH[of "Suc i" "usable n" "Some i"] Cons.prems by auto
    next
      case 3
      then show ?thesis using Cons.IH[of "Suc i" best big] Cons.prems by auto
    qed
  qed auto
  then show "best \<le> u" "\<forall>n\<in>set ns. \<not> dn_excluded n \<longrightarrow> 0 < dn_budget n \<and> usable n \<le> u"
    "u = best \<or> (\<exists>n\<in>set ns. \<not> dn_excluded n \<and> u = usable n)"
    "r = None \<Longrightarrow> big = None \<and> (\<forall>n\<in>set ns. \<not> dn_excluded n \<longrightarrow> usable n \<le> best)"
    "r \<noteq> None \<Longrightarrow> big \<noteq> None \<or> (\<exists>n\<in>set ns. \<not> dn_excluded n)" by blast+
qed

lemma roomiest_unknown: "roomiest i ns best big = None \<longleftrightarrow> (\<exists>n\<in>set ns. \<not> dn_excluded n \<and> dn_budget n \<le> 0)"
  by (induction ns arbitrary: i best big) auto

lemma usable_fits: "0 < dn_budget n \<Longrightarrow> tok \<le> usable n \<longleftrightarrow> of_int tok \<le> of_int (dn_budget n) * budgetUse"
  by (simp add: usable_def go_int_def budgetUse_def le_floor_iff)


section \<open>Properties\<close>

lemma newDecodeBalancer_inv: "bal_inv (newDecodeBalancer eps)"
  by (auto simp: bal_inv_def newDecodeBalancer_def reg_inv_def stickyCap_def node_ok_def)

lemma pick_parts:
  assumes "bal_inv b" "db_nodes b \<noteq> []" "e = (if est < 0 then 0 else est)"
    "\<not> (\<exists>big room. tooBigForEveryEngine e b = (Some big, room, True))" "chooseNode key b = Some (Some n, b1)"
  shows "pick rs fin gap start key est b =
    (case pick_wait rs (start + waitBudget) key e n b1 of
       None \<Rightarrow> None | Some (None, b) \<Rightarrow> Some (PickPanic, b) | Some (Some n, b) \<Rightarrow> Some (pick_claim fin gap e n b))"
proof -
  obtain bg room tb where t: "tooBigForEveryEngine e b = (bg, room, tb)" using prod_cases3 by blast
  then show ?thesis using assms by (cases bg; cases tb) (auto simp: pick_def Let_def)
qed

text \<open>
  Picking an engine always ends, at the latest with the first look past the deadline, and never
  panics, whatever the other goroutines do meanwhile; the sticky table stays within its 256 entries, every
  entry points at an engine, and no counter goes negative.
\<close>

theorem pick_total:
  assumes "bal_inv b" "rs \<noteq> []" "start + waitBudget \<le> rd_now (last rs)"
  shows "\<exists>res b'. pick rs fin gap start key est b = Some (res, b') \<and> res \<noteq> PickPanic \<and> bal_inv b' \<and>
    length (db_sticky b') \<le> 256"
proof -
  have cap: "bal_inv b' \<Longrightarrow> length (db_sticky b') \<le> 256" for b'
    using reg_length[of stickyCap "db_sticky b'" "db_order b'"] by (auto simp: bal_inv_def reg_inv_def stickyCap_def)
  define e where "e = (if est < 0 then 0 else est)"
  have e0: "0 \<le> e" by (simp add: e_def)
  obtain r b1 where c: "chooseNode key b = Some (r, b1)" "bal_inv b1" "db_nodes b1 = db_nodes b"
    "\<And>n. r = Some n \<Longrightarrow> n < length (db_nodes b)" using chooseNode_run[OF assms(1), of key] by fastforce
  obtain bg room tb where t: "tooBigForEveryEngine e b = (bg, room, tb)" using prod_cases3 by blast
  have "\<exists>res b'. pick rs fin gap start key est b = Some (res, b') \<and> res \<noteq> PickPanic \<and> bal_inv b'"
  proof (cases "db_nodes b = [] \<or> (bg \<noteq> None \<and> tb) \<or> r = None")
    case True
    then show ?thesis using t c assms(1) e_def by (cases bg; cases tb) (auto simp: pick_def Let_def)
  next
    case False
    then obtain n where n: "r = Some n" by auto
    obtain m b2 where w: "pick_wait rs (start + waitBudget) key e n b1 = Some (Some m, b2)" "bal_inv b2" "m < length (db_nodes b2)"
      using pick_wait_run[OF c(2) _ assms(2,3)] c(3,4) n by metis
    obtain res b3 where p: "pick_claim fin gap e m b2 = (res, b3)" "bal_inv b3" "res \<in> {Served m, EngineFull m}"
      using pick_claim_run[OF w(2,3) e0, of fin gap] by blast
    have "pick rs fin gap start key est b = Some (res, b3)"
      using pick_parts[OF assms(1) _ e_def _ c(1)[unfolded n], of rs fin gap start] False t w(1) p(1) by auto
    then show ?thesis using p by auto
  qed
  then show ?thesis using cap by blast
qed

definition demo_round :: round where
  "demo_round = \<lparr>rd_ops = [], rd_now = 240000, rd_occ = \<lambda>_. 0\<rparr>"

definition demo_balancer :: decodeBalancer where
  "demo_balancer = newDecodeBalancer [(''decode'', ''http://node-a:8080/'')]"

lemma demo_balancer_inv: "bal_inv demo_balancer"
  by (simp add: demo_balancer_def newDecodeBalancer_inv)

theorem pick_total_witness:
  "\<exists>res b'. pick [demo_round] demo_round [] 0 ''k'' 500 demo_balancer = Some (res, b') \<and> bal_inv b'"
  using pick_total[OF demo_balancer_inv, of "[demo_round]" 0 demo_round "[]" "''k''" 500]
  by (auto simp: demo_round_def waitBudget_def)

text \<open>
  The budget guard. When no other goroutine acts between the last check and the claim, a served
  request leaves its engine within the usable share of its context.
\<close>

theorem pick_in_budget:
  assumes "bal_inv b" "rs \<noteq> []" "start + waitBudget \<le> rd_now (last rs)"
    "pick rs fin [] start key est b = Some (Served n, b')"
  shows "n < length (db_nodes b') \<and> of_int (dn_tokens (db_nodes b' ! n)) \<le> of_int (dn_budget (db_nodes b' ! n)) * budgetUse"
proof -
  define e where "e = (if est < 0 then 0 else est)"
  have e0: "0 \<le> e" by (simp add: e_def)
  obtain r b1 where c: "chooseNode key b = Some (r, b1)" "bal_inv b1" "db_nodes b1 = db_nodes b"
    "\<And>n. r = Some n \<Longrightarrow> n < length (db_nodes b)" using chooseNode_run[OF assms(1), of key] by fastforce
  have ne: "db_nodes b \<noteq> []" using assms(4) by (auto simp: pick_def)
  have tb: "\<not> (\<exists>big room. tooBigForEveryEngine e b = (Some big, room, True))"
    using assms(4) ne e_def by (auto simp: pick_def Let_def)
  obtain n0 where r: "r = Some n0"
    using assms(4) ne tb c(1) e_def by (cases r) (auto simp: pick_def Let_def split: prod.splits option.splits bool.splits)
  obtain m b2 where w: "pick_wait rs (start + waitBudget) key e n0 b1 = Some (Some m, b2)" "bal_inv b2" "m < length (db_nodes b2)"
    using pick_wait_run[OF c(2) _ assms(2,3)] c(3,4) r by metis
  have p: "pick_claim fin [] e m b2 = (Served n, b')"
    using pick_parts[OF assms(1) ne e_def tb c(1)[unfolded r], of rs fin "[]" start] w(1) assms(4) by simp
  then have nm: "n = m" and ok: "in_budget (db_nodes b' ! n)"
    using pick_claim_run[OF w(2,3) e0, of fin "[]"] by auto
  have "length (db_nodes b') = length (db_nodes b2)"
  proof -
    obtain b3 where b3: "apply_ops (rd_ops fin) b2 = Some b3" "bal_inv b3" "length (db_nodes b3) = length (db_nodes b2)"
      using apply_ops_run[OF w(2)] by blast
    obtain ok b4 where f: "fits_at (rd_now fin) (rd_occ fin) e m b3 = (ok, b4)" by fastforce
    have "length (db_nodes b4) = length (db_nodes b3)" using f by (auto simp: fits_at_def Let_def split: prod.splits)
    then show ?thesis using p b3 f by (auto simp: pick_claim_def claim_at_def on_node_def split: if_splits)
  qed
  then show ?thesis using nm w(3) ok by (simp add: in_budget_def)
qed

lemmas pick_eval = pick_def demo_balancer_def newDecodeBalancer_def tooBigForEveryEngine_def usable_def go_int_def budgetUse_def
  defaultCtx_def chooseNode_def spread_def dn_load_def setLocked_def touchLocked_def stickyCap_def demo_round_def waitBudget_def
  fits_at_def dn_fits_def heldTokens_def pick_claim_def claim_at_def on_node_def invalidateHeld_def dn_claim_def Let_def

theorem pick_in_budget_witness:
  "\<exists>b'. pick [demo_round] demo_round [] 0 ''k'' 500 demo_balancer = Some (Served 0, b') \<and>
     of_int (dn_tokens (db_nodes b' ! 0)) \<le> of_int (dn_budget (db_nodes b' ! 0)) * budgetUse"
proof -
  obtain b' where p: "pick [demo_round] demo_round [] 0 ''k'' 500 demo_balancer = Some (Served 0, b')"
    by (simp add: pick_eval)
  show ?thesis
    using pick_in_budget[OF demo_balancer_inv, of "[demo_round]" 0 demo_round "''k''" 500 0 b'] p
    by (auto simp: demo_round_def waitBudget_def)
qed

text \<open>
  The check and the claim are not one step. Two requests of 60000 tokens, each of which fits an idle
  engine alone, are both served when the second claims between the check and the claim of the first, and
  the engine is then over its context.
\<close>

theorem pick_race:
  "(\<exists>b'. pick [demo_round] demo_round [] 0 ''x'' 60000 demo_balancer = Some (Served 0, b') \<and>
      dn_tokens (db_nodes b' ! 0) = 60000) \<and>
   (\<exists>b'. pick [demo_round] demo_round [OClaim 0 60000] 0 ''y'' 60000 demo_balancer = Some (Served 0, b') \<and>
      dn_tokens (db_nodes b' ! 0) = 120000 \<and> dn_budget (db_nodes b' ! 0) = 100096)"
  by (simp add: pick_eval)

text \<open>
  An engine fenced while a request waits for it is still given that request: the fence is read when
  the engine is chosen and not when it is claimed.
\<close>

lemma pick_fenced:
  "\<exists>b'. pick [\<lparr>rd_ops = [OClaim 0 90000], rd_now = 0, rd_occ = \<lambda>_. 0\<rparr>,
         \<lparr>rd_ops = [OExclude ''http://node-a:8080'' True, ORelease 0 90000], rd_now = 250, rd_occ = \<lambda>_. 0\<rparr>]
       demo_round [] 0 ''x'' 60000 demo_balancer = Some (Served 0, b') \<and> dn_excluded (db_nodes b' ! 0)"
  by (simp add: pick_eval
      freeNode_def setExcluded_def nodeByURL_def trim_slash_def release_at_def dn_release_def)

text \<open>
  Choosing an engine. A conversation stays on its engine while that one is not fenced; a new one goes to
  an engine that is not fenced with the fewest tokens in flight and then the fewest requests, or, when
  such an engine is idle, to the next one in rotation; there is none exactly when all are fenced.
\<close>

theorem chooseNode_correct:
  assumes "bal_inv b"
  shows "\<exists>r b'. chooseNode key b = Some (r, b') \<and> bal_inv b' \<and> (r = None \<longleftrightarrow> all_fenced b) \<and>
    (\<forall>j. r = Some j \<longrightarrow> map_of (db_sticky b') key = Some j \<and> \<not> dn_excluded (db_nodes b ! j) \<and>
       (case map_of (db_sticky b) key of
          Some i \<Rightarrow> if \<not> dn_excluded (db_nodes b ! i) then j = i else least b j \<or> rotates b j
        | None \<Rightarrow> least b j \<or> rotates b j))"
proof -
  obtain r b' where c: "chooseNode key b = Some (r, b')" "bal_inv b'"
    "case r of None \<Rightarrow> all_fenced b
     | Some j \<Rightarrow> j < length (db_nodes b) \<and> \<not> dn_excluded (db_nodes b ! j) \<and> map_of (db_sticky b') key = Some j \<and>
         (case map_of (db_sticky b) key of
            Some i \<Rightarrow> if i < length (db_nodes b) \<and> \<not> dn_excluded (db_nodes b ! i) then j = i else least b j \<or> rotates b j
          | None \<Rightarrow> least b j \<or> rotates b j)"
    using chooseNode_run[OF assms, of key] by blast
  have "map_of (db_sticky b) key = Some i \<Longrightarrow> i < length (db_nodes b)" for i
    using assms by (auto simp: bal_inv_def ran_def)
  then show ?thesis using c
    by (intro exI[of _ r] exI[of _ b']) (cases r; auto simp: all_fenced_def split: option.splits if_splits)
qed

theorem chooseNode_correct_witness:
  "\<exists>r b'. chooseNode ''k'' demo_balancer = Some (r, b') \<and> (r = None \<longleftrightarrow> all_fenced demo_balancer)"
  using chooseNode_correct[OF demo_balancer_inv, of "''k''"] by blast

text \<open>
  A request is refused for its size exactly when it would not fit any engine that is not fenced even
  with nothing in flight, all budgets being known; it is then refused at once, without a look.
\<close>

theorem pick_too_big:
  assumes "db_nodes b \<noteq> []" "0 < est"
  shows "(\<exists>big. pick [] fin gap start key est b = Some (EngineTooBig big, b)) \<longleftrightarrow>
    \<not> all_fenced b \<and> (\<forall>n\<in>set (db_nodes b). \<not> dn_excluded n \<longrightarrow> 0 < dn_budget n \<and> \<not> of_int est \<le> of_int (dn_budget n) * budgetUse)"
proof -
  have pk: "(\<exists>big. pick [] fin gap start key est b = Some (EngineTooBig big, b)) \<longleftrightarrow>
      (\<exists>big room. tooBigForEveryEngine est b = (Some big, room, True))"
    using assms by (auto simp: pick_def Let_def split: option.splits prod.splits bool.splits)
  show ?thesis
  proof (cases "roomiest 0 (db_nodes b) (- 1) None")
    case None
    then show ?thesis using assms pk roomiest_unknown[of 0 "db_nodes b" "- 1" None] by (auto simp: tooBigForEveryEngine_def)
  next
    case (Some x)
    obtain u r where x: "x = (u, r)" by fastforce
    note res = roomiest_result[OF Some[unfolded x], simplified]
    have pos: "- 1 < usable n" if "0 < dn_budget n" for n
      using usable_fits[OF that, of 0] that by (simp add: budgetUse_def)
    have r: "r = None \<longleftrightarrow> all_fenced b" using res(2,4,5) pos by (force simp: all_fenced_def)
    have fit: "est > usable n \<longleftrightarrow> \<not> of_int est \<le> of_int (dn_budget n) * budgetUse" if "n \<in> set (db_nodes b)" "\<not> dn_excluded n" for n
      using usable_fits[of n est] res(2) that by auto
    have "est > u \<longleftrightarrow> (\<forall>n\<in>set (db_nodes b). \<not> dn_excluded n \<longrightarrow> est > usable n)" if "r \<noteq> None"
      using res(2,3) that r pos by (force simp: all_fenced_def)
    then show ?thesis using pk Some x r fit res(2) assms(2) by (cases r) (auto simp: tooBigForEveryEngine_def)
  qed
qed

theorem pick_too_big_witness:
  "\<exists>big. pick [] demo_round [] 0 ''k'' 97094 demo_balancer = Some (EngineTooBig big, demo_balancer)"
  using pick_too_big[of demo_balancer 97094 demo_round "[]" 0 "''k''"]
  by (simp add: demo_balancer_def newDecodeBalancer_def all_fenced_def defaultCtx_def budgetUse_def)

end
