(* ===== verification/Kv_Rooms.thy ===== *)
theory Kv_Rooms
  imports Balancer Gateway "HOL-Library.Multiset"
begin

text \<open>
  The parts of \<^verbatim>\<open>internal/coordinator/kvpipe.go\<close> that read an engine's slots and keep its prefill slots, with
  \<^verbatim>\<open>committedKV\<close> of \<^verbatim>\<open>serve.go\<close>. A slot is the JSON object the engine reports; what \<^verbatim>\<open>slotsAt\<close> read is a parameter, \<open>None\<close>
  when the engine could not be read. Instants are milliseconds. \<^verbatim>\<open>sort.Slice\<close> is taken to be stable.
\<close>


section \<open>Slots\<close>

definition prefillSlots :: nat where "prefillSlots = 4"
definition prefillBudgetUse :: float64 where "prefillBudgetUse = 8 / 10"
definition ppDirect :: float64 where "ppDirect = 1400"
definition prefillWaitCap :: float64 where "prefillWaitCap = 60000"
definition prefillWaitFloor :: float64 where "prefillWaitFloor = 5000"
definition slotMatchSlack :: int where "slotMatchSlack = 8"

type_synonym slot_row = Body

definition int_str :: "int \<Rightarrow> string" where
  "int_str i = (if i < 0 then CHR ''-'' # decimal (nat (- i)) else decimal (nat i))"

definition num_of :: "slot_row \<Rightarrow> string \<Rightarrow> int option" where
  "num_of s key = (case field s key of Flt v \<Rightarrow> Some (go_int v) | _ \<Rightarrow> None)"

definition slot_tokens :: "slot_row \<Rightarrow> int" where
  "slot_tokens s = (case num_of s ''n_prompt_tokens'' of Some v \<Rightarrow> v | None \<Rightarrow> 0)"

definition slot_id :: "slot_row \<Rightarrow> string" where
  "slot_id s = (case num_of s ''id'' of Some v \<Rightarrow> int_str v | None \<Rightarrow> [])"

definition slot_busy :: "slot_row \<Rightarrow> bool" where
  "slot_busy s = (case field s ''is_processing'' of Bool b \<Rightarrow> b | _ \<Rightarrow> False)"

text \<open>\<open>None\<close> is the early return of an ambiguous match.\<close>

fun match_slots :: "int \<Rightarrow> slot_row list \<Rightarrow> string \<Rightarrow> string option" where
  "match_slots n [] found = Some found"
| "match_slots n (s # ss) found =
     (case num_of s ''n_prompt_tokens'' of
        None \<Rightarrow> match_slots n ss found
      | Some v \<Rightarrow>
          if v < n - slotMatchSlack \<or> v > n + slotMatchSlack then match_slots n ss found
          else case num_of s ''id'' of
                 None \<Rightarrow> match_slots n ss found
               | Some i \<Rightarrow> if found \<noteq> [] then None else match_slots n ss (int_str i))"

definition slotHoldingExactly :: "slot_row list option \<Rightarrow> int \<Rightarrow> string option" where
  "slotHoldingExactly slots n =
     (if n \<le> 0 then None
      else case slots of
             None \<Rightarrow> None
           | Some ss \<Rightarrow> (case match_slots n ss [] of Some f \<Rightarrow> if f = [] then None else Some f | None \<Rightarrow> None))"

text \<open>The slots holding about \<open>want\<close> tokens and those holding any.\<close>

definition slotsHolding :: "slot_row list option \<Rightarrow> int \<Rightarrow> (nat \<times> nat) option" where
  "slotsHolding slots want =
     (if want \<le> 0 then None
      else case slots of
             None \<Rightarrow> None
           | Some ss \<Rightarrow>
               let need = go_int (of_int want * (8 / 10));
                   cached = filter (\<lambda>s. slot_tokens s > 0) ss
               in Some (length (filter (\<lambda>s. slot_tokens s \<ge> need) cached), length cached))"

definition holdsAtLeast :: "slot_row list option \<Rightarrow> int \<Rightarrow> bool" where
  "holdsAtLeast slots want = (case slotsHolding slots want of None \<Rightarrow> True | Some (big, _) \<Rightarrow> big > 0)"

definition slotHeld :: "slot_row list option \<Rightarrow> string \<Rightarrow> int option" where
  "slotHeld slots sid =
     (case slots of
        None \<Rightarrow> None
      | Some ss \<Rightarrow> (case find (\<lambda>s. slot_id s = sid) ss of Some s \<Rightarrow> Some (slot_tokens s) | None \<Rightarrow> Some 0))"

definition DecodeBusy :: "slot_row list option \<Rightarrow> bool" where
  "DecodeBusy slots = (case slots of None \<Rightarrow> False | Some ss \<Rightarrow> list_ex slot_busy ss)"

fun first_idle :: "string \<Rightarrow> slot_row list \<Rightarrow> string \<Rightarrow> string" where
  "first_idle want [] fi = (if fi \<noteq> [] then fi else want)"
| "first_idle want (s # ss) fi =
     (if slot_id s = want \<and> \<not> slot_busy s then want
      else first_idle want ss (if \<not> slot_busy s \<and> fi = [] \<and> slot_id s \<noteq> [] then slot_id s else fi))"

definition pickIdleSlot :: "slot_row list option \<Rightarrow> string \<Rightarrow> string" where
  "pickIdleSlot slots want = (case slots of None \<Rightarrow> want | Some ss \<Rightarrow> first_idle want ss [])"

definition committedKV :: "slot_row list \<Rightarrow> int" where
  "committedKV slots =
     (let (held, rec) = foldl (\<lambda>(held, rec) s. let n = slot_tokens s in
                          (held + n, if \<not> slot_busy s \<and> n > rec then n else rec)) (0, 0) slots
      in held - rec)"


section \<open>Pools\<close>

record enginePool =
  ep_free :: "nat list"
  ep_inflight :: int
  ep_budget :: int
  ep_split :: bool

definition new_pool :: enginePool where
  "new_pool = \<lparr>ep_free = [0..<prefillSlots], ep_inflight = 0, ep_budget = defaultCtx, ep_split = False\<rparr>"

text \<open>The maps of \<^verbatim>\<open>kvPipe\<close> this theory needs: pools and the cached readings with their instants.\<close>

record rooms =
  r_pools :: "(string \<times> enginePool) list"
  r_pHeld :: "(string \<times> int) list"
  r_pHeldAt :: "(string \<times> float64) list"
  r_pAll :: "(string \<times> int) list"
  r_pAllAt :: "(string \<times> float64) list"

definition poolOf :: "string \<Rightarrow> rooms \<Rightarrow> enginePool \<times> rooms" where
  "poolOf url r =
     (case map_of (r_pools r) url of
        Some p \<Rightarrow> (p, r)
      | None \<Rightarrow> (new_pool, r\<lparr>r_pools := AList.update url new_pool (r_pools r)\<rparr>))"

definition setPool :: "string \<Rightarrow> (enginePool \<Rightarrow> enginePool) \<Rightarrow> rooms \<Rightarrow> rooms" where
  "setPool url f r = (let (p, r) = poolOf url r in r\<lparr>r_pools := AList.update url (f p) (r_pools r)\<rparr>)"

definition inflightOf :: "string \<Rightarrow> rooms \<Rightarrow> int" where
  "inflightOf url r = (case map_of (r_pools r) (trim_slash url) of Some p \<Rightarrow> ep_inflight p | None \<Rightarrow> 0)"

definition setEngineBudget :: "string \<Rightarrow> int \<Rightarrow> rooms \<Rightarrow> rooms" where
  "setEngineBudget engine n r = (if n \<le> 0 \<or> engine = [] then r else setPool engine (\<lambda>p. p\<lparr>ep_budget := n\<rparr>) r)"

definition setEngineSplit :: "string \<Rightarrow> bool \<Rightarrow> rooms \<Rightarrow> rooms" where
  "setEngineSplit engine on r = (if engine = [] then r else setPool engine (\<lambda>p. p\<lparr>ep_split := on\<rparr>) r)"

definition engineSplit :: "string \<Rightarrow> rooms \<Rightarrow> bool \<times> rooms" where
  "engineSplit engine r = (let (p, r) = poolOf engine r in (ep_split p, r))"

definition fresh_at :: "float64 \<Rightarrow> (string \<times> float64) list \<Rightarrow> string \<Rightarrow> bool" where
  "fresh_at now ts engine = (case map_of ts engine of Some t \<Rightarrow> now - t < 1000 | None \<Rightarrow> False)"

definition poolHeld :: "float64 \<Rightarrow> slot_row list option \<Rightarrow> string \<Rightarrow> rooms \<Rightarrow> int option \<times> rooms" where
  "poolHeld now slots engine r =
     (if fresh_at now (r_pAllAt r) engine then (Some (case map_of (r_pAll r) engine of Some v \<Rightarrow> v | None \<Rightarrow> 0), r)
      else case slots of
             None \<Rightarrow> (None, r)
           | Some ss \<Rightarrow>
               let held = sum_list (map slot_tokens ss)
               in (Some held, r\<lparr>r_pAll := AList.update engine held (r_pAll r), r_pAllAt := AList.update engine now (r_pAllAt r)\<rparr>))"

definition last_held :: "string \<Rightarrow> rooms \<Rightarrow> int" where
  "last_held engine r = (case map_of (r_pHeld r) engine of Some v \<Rightarrow> v | None \<Rightarrow> 0)"

definition engineHeld :: "float64 \<Rightarrow> slot_row list option \<Rightarrow> string \<Rightarrow> rooms \<Rightarrow> int \<times> rooms" where
  "engineHeld now slots engine r =
     (if fresh_at now (r_pHeldAt r) engine then (last_held engine r, r)
      else case slots of
             None \<Rightarrow> (last_held engine r, r\<lparr>r_pHeldAt := AList.update engine now (r_pHeldAt r)\<rparr>)
           | Some ss \<Rightarrow>
               let held = committedKV ss
               in (held, r\<lparr>r_pHeld := AList.update engine held (r_pHeld r), r_pHeldAt := AList.update engine now (r_pHeldAt r)\<rparr>))"


section \<open>Prefill slots\<close>

definition prefillWaitFor :: "int \<Rightarrow> float64" where
  "prefillWaitFor tokens =
     (let d = of_int tokens / ppDirect * 1000
      in if d < prefillWaitFloor then prefillWaitFloor else if d > prefillWaitCap then prefillWaitCap else d)"

definition pool_room :: "enginePool \<Rightarrow> int" where
  "pool_room p = go_int (of_int (ep_budget p) * prefillBudgetUse)"

definition pool_used :: "int \<Rightarrow> enginePool \<Rightarrow> int" where
  "pool_used held p = (if ep_split p then 0 else if held > ep_inflight p then held else ep_inflight p)"

text \<open>The test and the reservation of one look of \<^verbatim>\<open>acquireSlot\<close>, and its release.\<close>

definition pool_try :: "int \<Rightarrow> int \<Rightarrow> enginePool \<Rightarrow> (nat \<times> enginePool) option" where
  "pool_try held est p =
     (let used = pool_used held p
      in if ep_free p \<noteq> [] \<and> (used + est \<le> pool_room p \<or> used = 0)
         then Some (hd (ep_free p), p\<lparr>ep_free := tl (ep_free p), ep_inflight := ep_inflight p + est\<rparr>)
         else None)"

definition pool_release :: "nat \<Rightarrow> int \<Rightarrow> enginePool \<Rightarrow> enginePool" where
  "pool_release slot est p =
     (let n = ep_inflight p - est
      in p\<lparr>ep_free := ep_free p @ [slot], ep_inflight := (if n < 0 then 0 else n)\<rparr>)"

definition releaseSlot :: "string \<Rightarrow> nat \<Rightarrow> int \<Rightarrow> rooms \<Rightarrow> rooms" where
  "releaseSlot engine slot est r =
     (let r = setPool engine (pool_release slot est) r
      in r\<lparr>r_pHeldAt := AList.delete engine (r_pHeldAt r)\<rparr>)"

text \<open>
  One look of the waiting loop: the instant, what the engine's slots read then, and what the other requests did to the
  rooms since the last look.
\<close>

record look =
  lk_now :: float64
  lk_slots :: "slot_row list option"
  lk_others :: "rooms \<Rightarrow> rooms"

text \<open>\<open>None\<close> when the looks run out with the request still waiting; \<open>Some (None, _)\<close> when the deadline passed.\<close>

fun acquire_loop :: "string \<Rightarrow> int \<Rightarrow> float64 \<Rightarrow> look list \<Rightarrow> rooms \<Rightarrow> (nat option \<times> rooms) option" where
  "acquire_loop engine est deadline [] r = None"
| "acquire_loop engine est deadline (l # ls) r =
     (let (held, r) = engineHeld (lk_now l) (lk_slots l) engine (lk_others l r);
          (p, r) = poolOf engine r
      in case pool_try held est p of
           Some (slot, p) \<Rightarrow> Some (Some slot, r\<lparr>r_pools := AList.update engine p (r_pools r)\<rparr>)
         | None \<Rightarrow> if lk_now l > deadline then Some (None, r) else acquire_loop engine est deadline ls r)"

definition acquireSlot :: "float64 \<Rightarrow> string \<Rightarrow> int \<Rightarrow> look list \<Rightarrow> rooms \<Rightarrow> (nat option \<times> rooms) option" where
  "acquireSlot start engine est looks r = acquire_loop engine est (start + prefillWaitFor est) looks r"


section \<open>Room on the decode engine\<close>

definition known_budget :: "enginePool \<Rightarrow> int" where
  "known_budget p = (if ep_budget p \<le> 0 then defaultCtx else ep_budget p)"

text \<open>The loop of \<^verbatim>\<open>decodeRoom\<close>: tokens of the generating slots, the cheapest idle slot, and how many are idle.\<close>

fun room_scan :: "slot_row list \<Rightarrow> int \<times> string \<times> int \<times> nat \<Rightarrow> int \<times> string \<times> int \<times> nat" where
  "room_scan [] acc = acc"
| "room_scan (s # ss) (held, evict, evictHeld, idle) =
     (let n = slot_tokens s
      in if slot_busy s then room_scan ss (held + n, evict, evictHeld, idle)
         else if evictHeld < 0 \<or> n < evictHeld
              then room_scan ss (held, if num_of s ''id'' \<noteq> None then slot_id s else evict, n, Suc idle)
              else room_scan ss (held, evict, evictHeld, Suc idle))"

definition decodeRoom :: "slot_row list option \<Rightarrow> string \<Rightarrow> rooms \<Rightarrow> (int \<times> string \<times> int) option \<times> rooms" where
  "decodeRoom slots url r =
     (case slots of
        None \<Rightarrow> (None, r)
      | Some ss \<Rightarrow>
          (case room_scan ss (0, [], - 1, 0) of
             (held, evict, evictHeld, idle) \<Rightarrow>
               if idle = 0 then (Some (0, [], 0), r)
               else
                 let evictHeld = (if evictHeld < 0 then 0 else evictHeld);
                     (p, r) = poolOf url r
                 in if ep_split p then (Some (known_budget p, evict, evictHeld), r)
                    else (Some (known_budget p - held, evict, evictHeld), r)))"

record roomInfo =
  ri_heldBefore :: int
  ri_erased :: nat
  ri_erasedTokens :: int
  ri_budget :: int
  ri_need :: int

text \<open>
  \<^verbatim>\<open>erase\<close> of \<^verbatim>\<open>makeDecodeRoom\<close>: \<open>er\<close> says which slots the engine agrees to erase. The state is the evidence, the tokens
  held, the idle slots with what each holds, and the erase calls sent.
\<close>

type_synonym room_st = "roomInfo \<times> int \<times> (string \<times> int) list \<times> string list"

definition erase_slot :: "(string \<Rightarrow> bool) \<Rightarrow> string \<Rightarrow> room_st \<Rightarrow> room_st" where
  "erase_slot er sid st =
     (case st of
        (ri, held, idle, calls) \<Rightarrow>
          if \<not> er sid then (ri, held, idle, calls @ [sid])
          else
            let t = sum_list (map snd (filter (\<lambda>x. fst x = sid) idle))
            in (ri\<lparr>ri_erased := Suc (ri_erased ri), ri_erasedTokens := ri_erasedTokens ri + t\<rparr>, held - t,
                map (\<lambda>x. if fst x = sid then (sid, 0) else x) idle, calls @ [sid]))"

fun erase_loop :: "(string \<Rightarrow> bool) \<Rightarrow> int \<Rightarrow> int \<Rightarrow> string \<Rightarrow> nat list \<Rightarrow> room_st \<Rightarrow> room_st" where
  "erase_loop er need budget target [] st = st"
| "erase_loop er need budget target (i # is) st =
     (case st of
        (ri, held, idle, calls) \<Rightarrow>
          if held + need \<le> budget then st
          else if fst (idle ! i) = target \<or> snd (idle ! i) = 0 then erase_loop er need budget target is st
          else erase_loop er need budget target is (erase_slot er (fst (idle ! i)) st))"

definition idle_rows :: "slot_row list \<Rightarrow> (string \<times> int) list" where
  "idle_rows ss = sort_key snd (map (\<lambda>s. (slot_id s, slot_tokens s)) (filter (\<lambda>s. \<not> slot_busy s \<and> slot_id s \<noteq> []) ss))"

text \<open>The result is the slot or the reason to skip, the evidence, and the erase calls sent.\<close>

definition makeDecodeRoom ::
  "(string \<Rightarrow> bool) \<Rightarrow> slot_row list option \<Rightarrow> string \<Rightarrow> int \<Rightarrow> string \<Rightarrow> rooms \<Rightarrow>
   ((call_error, string) result \<times> roomInfo \<times> string list) \<times> rooms" where
  "makeDecodeRoom er slots url need want r =
     (let ri = \<lparr>ri_heldBefore = 0, ri_erased = 0, ri_erasedTokens = 0, ri_budget = 0, ri_need = need\<rparr>
      in case slots of
           None \<Rightarrow> ((Inr want, ri, []), r)
         | Some ss \<Rightarrow>
             let (p, r) = poolOf url r;
                 budget = known_budget p;
                 held = sum_list (map slot_tokens ss);
                 idle = idle_rows ss;
                 ri = ri\<lparr>ri_heldBefore := held, ri_budget := budget\<rparr>
             in if idle = [] then ((Inl (Skip ''todos los slots del decode generando''), ri, []), r)
                else
                  let target = (case find (\<lambda>x. fst x = want) idle of Some x \<Rightarrow> fst x | None \<Rightarrow> fst (hd idle));
                      st = erase_slot er target (ri, held, idle, [])
                  in if ep_split p then
                       (case st of (ri, held, idle, calls) \<Rightarrow>
                          ((if need > budget then Inl (Skip ''el estado no cabe en un slot'') else Inr target, ri, calls), r))
                     else
                       (case erase_loop er need budget target [0..<length idle] st of (ri, held, idle, calls) \<Rightarrow>
                          ((if held + need > budget then Inl (Skip ''el decode sigue lleno'') else Inr target, ri, calls), r)))"


section \<open>The pool as shared state\<close>












section \<open>Erasing\<close>

definition freed :: "(string \<Rightarrow> bool) \<Rightarrow> (string \<times> int) list \<Rightarrow> string list \<Rightarrow> int" where
  "freed er idle calls = sum_list (map snd (filter (\<lambda>x. fst x \<in> set calls \<and> er (fst x)) idle))"

text \<open>What the erase calls so far amount to.\<close>

definition erase_ok :: "(string \<Rightarrow> bool) \<Rightarrow> int \<Rightarrow> (string \<times> int) list \<Rightarrow> room_st \<Rightarrow> bool" where
  "erase_ok er tot idle0 st =
     (case st of (ri, held, idle, calls) \<Rightarrow>
        idle = map (\<lambda>x. if fst x \<in> set calls \<and> er (fst x) then (fst x, 0) else x) idle0 \<and>
        held = tot - freed er idle0 calls \<and> ri_erasedTokens ri = freed er idle0 calls \<and> set calls \<subseteq> fst ` set idle0)"

lemma freed_snoc:
  "freed er idle0 (calls @ [sid]) = freed er idle0 calls +
     (if er sid then sum_list (map snd (filter (\<lambda>x. fst x = sid)
        (map (\<lambda>x. if fst x \<in> set calls \<and> er (fst x) then (fst x, 0) else x) idle0))) else 0)"
  by (induction idle0) (auto simp: freed_def)

lemma erase_slot_ok:
  assumes "erase_ok er tot idle0 st" "sid \<in> fst ` set idle0"
  shows "erase_ok er tot idle0 (erase_slot er sid st)"
proof -
  obtain ri held idle calls where st: "st = (ri, held, idle, calls)" using prod_cases4 by blast
  show ?thesis
    using assms freed_snoc[of er idle0 calls sid] unfolding st erase_ok_def erase_slot_def
    by (auto simp: Let_def)
qed

lemma erase_loop_ok:
  "erase_ok er tot idle0 st \<Longrightarrow> \<forall>i\<in>set is. i < length idle0 \<Longrightarrow> erase_ok er tot idle0 (erase_loop er need budget target is st)"
proof (induction "is" arbitrary: st)
  case (Cons i "is")
  obtain ri held idle calls where st: "st = (ri, held, idle, calls)" using prod_cases4 by blast
  have "length idle = length idle0" using Cons.prems(1) by (simp add: st erase_ok_def)
  then have "fst (idle ! i) = fst (idle0 ! i)" using Cons.prems by (auto simp: st erase_ok_def)
  moreover have "idle0 ! i \<in> set idle0" using Cons.prems(2) by simp
  ultimately have "fst (idle ! i) \<in> fst ` set idle0" by simp
  then show ?case using Cons erase_slot_ok[OF Cons.prems(1)] by (auto simp: st)
qed simp


lemma erase_loop_keeps:
  "erase_loop er need budget target is st = (ri, held, idle, calls) \<Longrightarrow> set (snd (snd (snd st))) \<subseteq> set calls"
proof (induction "is" arbitrary: st)
  case (Cons i "is")
  obtain ri1 held1 idle1 calls1 where st: "st = (ri1, held1, idle1, calls1)" using prod_cases4 by blast
  have grow: "set calls1 \<subseteq> set (snd (snd (snd (erase_slot er sid st))))" for sid by (auto simp: st erase_slot_def Let_def)
  show ?case using Cons.prems Cons.IH[of st] Cons.IH[of "erase_slot er (fst (idle1 ! i)) st"] grow[of "fst (idle1 ! i)"]
    by (auto simp: st split: if_splits)
qed simp

lemma erase_loop_done:
  assumes "erase_ok er tot idle0 st" "\<forall>i\<in>set is. i < length idle0"
    and "erase_loop er need budget target is st = (ri, held, idle, calls)" "\<not> held + need \<le> budget"
  shows "\<forall>i\<in>set is. fst (idle0 ! i) = target \<or> snd (idle0 ! i) = 0 \<or> fst (idle0 ! i) \<in> set calls"
  using assms
proof (induction "is" arbitrary: st)
  case (Cons i "is")
  obtain ri1 held1 idle1 calls1 where st: "st = (ri1, held1, idle1, calls1)" using prod_cases4 by blast
  define now where "now = (if fst (idle1 ! i) = target \<or> snd (idle1 ! i) = 0 then st else erase_slot er (fst (idle1 ! i)) st)"
  have i: "i < length idle0" using Cons.prems(2) by simp
  have row: "idle1 ! i = (if fst (idle0 ! i) \<in> set calls1 \<and> er (fst (idle0 ! i)) then (fst (idle0 ! i), 0) else idle0 ! i)"
    using Cons.prems(1) i by (simp add: st erase_ok_def)
  have "\<not> held1 + need \<le> budget" using Cons.prems(3,4) by (auto simp: st)
  then have go: "erase_loop er need budget target is now = (ri, held, idle, calls)" using Cons.prems(3) by (auto simp: st now_def)
  have same: "fst (idle1 ! i) = fst (idle0 ! i)" using row by auto
  then have "fst (idle1 ! i) \<in> fst ` set idle0" using i by simp
  then have ok: "erase_ok er tot idle0 now" using Cons.prems(1) erase_slot_ok by (auto simp: now_def)
  have "set calls1 \<subseteq> set calls" using erase_loop_keeps[OF Cons.prems(3)] by (simp add: st)
  moreover have "fst (idle1 ! i) = target \<or> snd (idle1 ! i) = 0 \<or> fst (idle1 ! i) \<in> set (snd (snd (snd now)))"
    by (auto simp: now_def st erase_slot_def Let_def)
  ultimately have "fst (idle0 ! i) = target \<or> snd (idle0 ! i) = 0 \<or> fst (idle0 ! i) \<in> set calls"
    using row same erase_loop_keeps[OF go] by (auto split: if_splits)
  then show ?case using Cons.IH[OF ok _ go Cons.prems(4)] Cons.prems(2) by simp
qed simp

text \<open>With every erase granted and every row target, empty or erased, all idle tokens are freed.\<close>

lemma freed_all:
  assumes "\<forall>x\<in>set idle0. snd x = 0 \<or> fst x \<in> set calls"
  shows "freed (\<lambda>_. True) idle0 calls = sum_list (map snd idle0)"
  using assms by (induction idle0) (auto simp: freed_def)

lemma freed_le:
  assumes "\<forall>x\<in>set idle0. 0 \<le> snd x"
  shows "freed er idle0 calls \<le> sum_list (map snd idle0)"
  using assms by (induction idle0) (auto simp: freed_def)



section \<open>Properties\<close>




text \<open>How \<open>makeDecodeRoom\<close> runs on slots it could read.\<close>

lemma makeDecodeRoom_run:
  assumes "makeDecodeRoom er (Some ss) url need want r = ((res, ri, calls), r')" "idle_rows ss \<noteq> []"
  obtains target where "target \<in> fst ` set (idle_rows ss)" "target \<in> set calls" "set calls \<subseteq> fst ` set (idle_rows ss)"
    "ri_erasedTokens ri = freed er (idle_rows ss) calls"
    "\<And>s. res = Inr s \<Longrightarrow> s = target \<and>
       (if ep_split (fst (poolOf url r)) then need \<le> known_budget (fst (poolOf url r))
        else sum_list (map slot_tokens ss) - freed er (idle_rows ss) calls + need \<le> known_budget (fst (poolOf url r)))"
    "\<And>e. res = Inl e \<Longrightarrow> (\<exists>m. e = Skip m) \<and>
       (if ep_split (fst (poolOf url r)) then known_budget (fst (poolOf url r)) < need
        else known_budget (fst (poolOf url r)) < sum_list (map slot_tokens ss) - freed er (idle_rows ss) calls + need \<and>
          (\<forall>x\<in>set (idle_rows ss). snd x = 0 \<or> fst x \<in> set calls))"
proof -
  define idle where "idle = idle_rows ss"
  define tot where "tot = sum_list (map slot_tokens ss)"
  obtain p r1 where p: "poolOf url r = (p, r1)" by fastforce
  define bud where "bud = known_budget p"
  define target where "target = (case find (\<lambda>x. fst x = want) idle of Some x \<Rightarrow> fst x | None \<Rightarrow> fst (hd idle))"
  define ri0 where "ri0 = \<lparr>ri_heldBefore = tot, ri_erased = 0, ri_erasedTokens = 0, ri_budget = bud, ri_need = need\<rparr>"
  have t: "target \<in> fst ` set idle"
  proof (cases "find (\<lambda>x. fst x = want) idle")
    case None
    then show ?thesis using assms(2) by (simp add: target_def idle_def)
  next
    case (Some x)
    then have "x \<in> set idle" by (auto simp: find_Some_iff)
    then show ?thesis using Some by (simp add: target_def)
  qed
  have "erase_ok er tot idle (ri0, tot, idle, [])" by (simp add: erase_ok_def freed_def ri0_def)
  note ok1 = erase_slot_ok[OF this t]
  obtain ri1 held1 idle1 calls1 where st: "erase_slot er target (ri0, tot, idle, []) = (ri1, held1, idle1, calls1)" using prod_cases4 by blast
  have c1: "calls1 = [target]" using st by (auto simp: erase_slot_def Let_def split: if_splits)
  obtain ri2 held2 idle2 calls2 where lp: "erase_loop er need bud target [0..<length idle] (ri1, held1, idle1, calls1) = (ri2, held2, idle2, calls2)"
    using prod_cases4 by blast
  have ok2: "erase_ok er tot idle (ri2, held2, idle2, calls2)"
    using erase_loop_ok[OF ok1, of "[0..<length idle]" need bud target] lp st by simp
  have run: "(res, ri, calls) = (if ep_split p then (if need > bud then Inl (Skip ''el estado no cabe en un slot'') else Inr target, ri1, calls1)
      else (if held2 + need > bud then Inl (Skip ''el decode sigue lleno'') else Inr target, ri2, calls2))"
    using assms p st lp unfolding makeDecodeRoom_def
    by (auto simp: Let_def idle_def[symmetric] tot_def[symmetric] bud_def[symmetric] target_def[symmetric] ri0_def)
  have keep: "target \<in> set calls2" using erase_loop_keeps[OF lp] c1 by simp
  have all: "\<forall>x\<in>set idle. snd x = 0 \<or> fst x \<in> set calls2" if "\<not> held2 + need \<le> bud"
  proof
    fix x assume "x \<in> set idle"
    then obtain i where "i < length idle" "idle ! i = x" by (auto simp: in_set_conv_nth)
    then show "snd x = 0 \<or> fst x \<in> set calls2" using erase_loop_done[OF ok1[unfolded st] _ lp that] keep by force
  qed
  have o1: "ri_erasedTokens ri1 = freed er idle calls1" using ok1 unfolding st erase_ok_def by simp
  have o2: "ri_erasedTokens ri2 = freed er idle calls2" "held2 = tot - freed er idle calls2" "set calls2 \<subseteq> fst ` set idle"
    using ok2 unfolding erase_ok_def by simp_all
  show thesis
  proof (cases "ep_split p")
    case True
    with run have "calls = calls1" "ri = ri1" "res = (if need > bud then Inl (Skip ''el estado no cabe en un slot'') else Inr target)" by auto
    note r = this
    show thesis
      by (rule that[of target]) (use r t c1 o1 True in \<open>auto simp: p bud_def idle_def split: if_splits\<close>)
  next
    case False
    with run have r: "calls = calls2" "ri = ri2" "res = (if held2 + need > bud then Inl (Skip ''el decode sigue lleno'') else Inr target)" by auto
    show thesis
    proof (rule that[of target])
      show "\<And>e. res = Inl e \<Longrightarrow> (\<exists>m. e = Skip m) \<and>
       (if ep_split (fst (poolOf url r)) then known_budget (fst (poolOf url r)) < need
        else known_budget (fst (poolOf url r)) < sum_list (map slot_tokens ss) - freed er (idle_rows ss) calls + need \<and>
          (\<forall>x\<in>set (idle_rows ss). snd x = 0 \<or> fst x \<in> set calls))"
        using r all o2 False by (auto simp: p bud_def idle_def tot_def split: if_splits)
    qed (use r t keep o2 False in \<open>auto simp: p bud_def idle_def tot_def split: if_splits\<close>)
  qed
qed

text \<open>
  Making room on the decode. On slots that could be read, either no slot is idle and the handoff is skipped with
  nothing erased, or the slot chosen is idle and an erase was sent for it; erases are only ever sent to idle slots, the
  evidence counts exactly the tokens the engine agreed to erase, a slot is returned only when the state fits beside what
  is left, and every failure is a clean skip, given on a shared budget only once every idle slot holding anything was
  tried. An engine that cannot be read is left alone.
\<close>

theorem makeDecodeRoom_sound:
  assumes "makeDecodeRoom er slots url need want r = ((res, ri, calls), r')"
  shows "slots = None \<and> res = Inr want \<and> calls = [] \<or>
    (\<exists>ss. slots = Some ss \<and> idle_rows ss = [] \<and> (\<exists>m. res = Inl (Skip m)) \<and> calls = []) \<or>
    (\<exists>ss target. slots = Some ss \<and> target \<in> fst ` set (idle_rows ss) \<and> target \<in> set calls \<and> set calls \<subseteq> fst ` set (idle_rows ss) \<and>
       ri_erasedTokens ri = freed er (idle_rows ss) calls \<and>
       (case res of
          Inr s \<Rightarrow> s = target \<and>
            (if ep_split (fst (poolOf url r)) then need \<le> known_budget (fst (poolOf url r))
             else sum_list (map slot_tokens ss) - freed er (idle_rows ss) calls + need \<le> known_budget (fst (poolOf url r)))
        | Inl e \<Rightarrow> (\<exists>m. e = Skip m) \<and> (ep_split (fst (poolOf url r)) \<or> (\<forall>x\<in>set (idle_rows ss). snd x = 0 \<or> fst x \<in> set calls))))"
proof (cases slots)
  case None
  then show ?thesis using assms by (simp add: makeDecodeRoom_def Let_def)
next
  case (Some ss)
  show ?thesis
  proof (cases "idle_rows ss = []")
    case True
    then show ?thesis using assms Some by (auto simp: makeDecodeRoom_def Let_def split: prod.splits)
  next
    case False
    from makeDecodeRoom_run[OF assms[unfolded Some] False] obtain target where t:
      "target \<in> fst ` set (idle_rows ss)" "target \<in> set calls" "set calls \<subseteq> fst ` set (idle_rows ss)"
      "ri_erasedTokens ri = freed er (idle_rows ss) calls"
      "\<And>s. res = Inr s \<Longrightarrow> s = target \<and>
       (if ep_split (fst (poolOf url r)) then need \<le> known_budget (fst (poolOf url r))
        else sum_list (map slot_tokens ss) - freed er (idle_rows ss) calls + need \<le> known_budget (fst (poolOf url r)))"
      "\<And>e. res = Inl e \<Longrightarrow> (\<exists>m. e = Skip m) \<and>
       (if ep_split (fst (poolOf url r)) then known_budget (fst (poolOf url r)) < need
        else known_budget (fst (poolOf url r)) < sum_list (map slot_tokens ss) - freed er (idle_rows ss) calls + need \<and>
          (\<forall>x\<in>set (idle_rows ss). snd x = 0 \<or> fst x \<in> set calls))" by blast
    show ?thesis
    proof (cases res)
      case (Inl e)
      have "ep_split (fst (poolOf url r)) \<or> (\<forall>x\<in>set (idle_rows ss). snd x = 0 \<or> fst x \<in> set calls)"
        using t(6)[OF Inl] by (cases "ep_split (fst (poolOf url r))") (simp, presburger)
      then show ?thesis using t(1-4) t(6)[OF Inl] Some
        by (intro disjI2 exI[of _ ss] exI[of _ target]) (simp only: Inl sum.case simp_thms)
    next
      case (Inr s)
      then show ?thesis using t(1-4) t(5)[OF Inr] Some by auto
    qed
  qed
qed

definition ex_row :: "float64 \<Rightarrow> float64 \<Rightarrow> bool \<Rightarrow> slot_row" where
  "ex_row i n busy = [(''id'', Flt i), (''n_prompt_tokens'', Flt n), (''is_processing'', Bool busy)]"

definition ex_rooms :: rooms where
  "ex_rooms = \<lparr>r_pools = [(''d'', new_pool\<lparr>ep_budget := 1000\<rparr>)], r_pHeld = [], r_pHeldAt = [], r_pAll = [], r_pAllAt = []\<rparr>"

definition ex_slots :: "slot_row list" where
  "ex_slots = [ex_row 0 500 True, ex_row 1 200 False, ex_row 2 300 False]"

lemma ex_room_run:
  "makeDecodeRoom (\<lambda>_. True) (Some ex_slots) ''d'' 400 ''2'' ex_rooms =
     ((Inr ''2'', \<lparr>ri_heldBefore = 1000, ri_erased = 2, ri_erasedTokens = 500, ri_budget = 1000, ri_need = 400\<rparr>, [''2'', ''1'']), ex_rooms)"
  by code_simp

theorem makeDecodeRoom_sound_witness:
  "makeDecodeRoom (\<lambda>_. True) (Some ex_slots) ''d'' 400 ''2'' ex_rooms =
     ((Inr ''2'', \<lparr>ri_heldBefore = 1000, ri_erased = 2, ri_erasedTokens = 500, ri_budget = 1000, ri_need = 400\<rparr>, [''2'', ''1'']), ex_rooms) \<and>
   ''2'' \<in> fst ` set (idle_rows ex_slots)"
  using makeDecodeRoom_sound[OF ex_room_run] ex_room_run by auto


lemma room_scan_sums:
  "room_scan ss (held, evict, evictHeld, idle) = (held', evict', evictHeld', idle') \<Longrightarrow>
     held' = held + sum_list (map slot_tokens (filter slot_busy ss)) \<and> idle' = idle + length (filter (\<lambda>s. \<not> slot_busy s) ss)"
proof (induction ss arbitrary: held evict evictHeld idle)
  case (Cons s ss)
  show ?case using Cons.prems Cons.IH by (fastforce simp: Let_def split: if_splits)
qed simp

lemma idle_rows_sum:
  assumes "\<forall>s\<in>set ss. slot_id s \<noteq> []"
  shows "sum_list (map snd (idle_rows ss)) = sum_list (map slot_tokens ss) - sum_list (map slot_tokens (filter slot_busy ss))"
proof -
  have "sum_list (map snd (idle_rows ss)) =
      sum_list (map snd (map (\<lambda>s. (slot_id s, slot_tokens s)) (filter (\<lambda>s. \<not> slot_busy s \<and> slot_id s \<noteq> []) ss)))"
    unfolding idle_rows_def sum_mset_sum_list[symmetric] mset_map mset_sort ..
  also have "\<dots> = sum_list (map slot_tokens ss) - sum_list (map slot_tokens (filter slot_busy ss))"
    using assms by (induction ss) auto
  finally show ?thesis .
qed

text \<open>
  The check made before a prefill and the room made after it agree. On one reading of the slots, all with an id
  and a count of tokens, and an engine that agrees to its erases, a handoff of \<open>need\<close> tokens finds its slot exactly when
  \<open>need\<close> is at most the free tokens \<^verbatim>\<open>decodeRoom\<close> reports: the check neither refuses a handoff there is room for
  nor pays for a prefill there is none for.
\<close>

theorem room_check_exact:
  assumes "\<forall>s\<in>set ss. slot_id s \<noteq> [] \<and> 0 \<le> slot_tokens s" "1 \<le> need"
    and "decodeRoom (Some ss) url r = (Some (free, evict, evictHeld), r1)"
    and "makeDecodeRoom (\<lambda>_. True) (Some ss) url need want r = ((res, ri, calls), r2)"
  shows "(\<exists>s. res = Inr s) \<longleftrightarrow> need \<le> free"
proof -
  obtain held ev evh idle where sc: "room_scan ss (0, [], - 1, 0) = (held, ev, evh, idle)" using prod_cases4 by blast
  obtain p r0 where p: "poolOf url r = (p, r0)" by fastforce
  note sums = room_scan_sums[OF sc]
  have nid: "\<forall>s\<in>set ss. slot_id s \<noteq> []" using assms(1) by blast
  have none: "idle_rows ss = [] \<longleftrightarrow> idle = 0"
  proof -
    have "set (idle_rows ss) = {} \<longleftrightarrow> (\<forall>s\<in>set ss. slot_busy s)" using nid by (auto simp: idle_rows_def)
    then show ?thesis using sums by (simp add: filter_empty_conv)
  qed
  show ?thesis
  proof (cases "idle = 0")
    case True
    then have "free = 0" using assms(3) sc by (simp add: decodeRoom_def)
    moreover have "\<exists>m. res = Inl (Skip m)" using assms(4) True none by (auto simp: makeDecodeRoom_def Let_def split: prod.splits)
    ultimately show ?thesis using assms(2) by auto
  next
    case False
    then have fr: "free = (if ep_split p then known_budget p else known_budget p - held)"
      using assms(3) sc p by (auto simp: decodeRoom_def Let_def split: if_splits)
    have rows: "\<forall>x\<in>set (idle_rows ss). 0 \<le> snd x" using assms(1) by (auto simp: idle_rows_def)
    have tot: "sum_list (map slot_tokens ss) - sum_list (map snd (idle_rows ss)) = held" using idle_rows_sum[OF nid] sums by simp
    from False none have "idle_rows ss \<noteq> []" by simp
    from makeDecodeRoom_run[OF assms(4) this] obtain target where t:
      "\<And>s. res = Inr s \<Longrightarrow> (if ep_split p then need \<le> known_budget p
        else sum_list (map slot_tokens ss) - freed (\<lambda>_. True) (idle_rows ss) calls + need \<le> known_budget p)"
      "\<And>e. res = Inl e \<Longrightarrow> (if ep_split p then known_budget p < need
        else known_budget p < sum_list (map slot_tokens ss) - freed (\<lambda>_. True) (idle_rows ss) calls + need \<and>
          (\<forall>x\<in>set (idle_rows ss). snd x = 0 \<or> fst x \<in> set calls))" unfolding p fst_conv by metis
    show ?thesis
    proof (cases res)
      case (Inl e)
      show ?thesis using t(2)[OF Inl] Inl fr freed_all[of "idle_rows ss" calls] tot by (auto split: if_splits)
    next
      case (Inr s)
      show ?thesis using t(1)[OF Inr] Inr fr freed_le[OF rows, of "\<lambda>_. True" calls] tot by (auto split: if_splits)
    qed
  qed
qed

theorem room_check_exact_witness:
  "decodeRoom (Some ex_slots) ''d'' ex_rooms = (Some (500, ''1'', 200), ex_rooms) \<and>
   (\<exists>s. fst (fst (makeDecodeRoom (\<lambda>_. True) (Some ex_slots) ''d'' 400 ''2'' ex_rooms)) = Inr s)"
proof -
  have rows: "\<forall>s\<in>set ex_slots. slot_id s \<noteq> [] \<and> 0 \<le> slot_tokens s" by code_simp
  have d: "decodeRoom (Some ex_slots) ''d'' ex_rooms = (Some (500, ''1'', 200), ex_rooms)" by code_simp
  show ?thesis using room_check_exact[OF rows _ d ex_room_run] d ex_room_run by simp
qed


text \<open>A request waiting for a prefill slot is answered by the time a look falls past its deadline.\<close>

lemma acquire_answers:
  assumes "\<exists>l\<in>set looks. lk_now l > start + prefillWaitFor est"
  shows "\<exists>a. acquireSlot start engine est looks r = Some a"
  using assms unfolding acquireSlot_def
  by (induction looks arbitrary: r) (auto simp: Let_def split: prod.splits option.splits)

text \<open>What stays committed on an engine is all it holds but its largest idle slot.\<close>

lemma committedKV_fold:
  "foldl (\<lambda>(held, rec) s. let n = slot_tokens s in (held + n, if \<not> slot_busy s \<and> n > rec then n else rec)) (h, m) ss =
     (h + sum_list (map slot_tokens ss), fold max (map slot_tokens (filter (\<lambda>s. \<not> slot_busy s) ss)) m)"
  by (induction ss arbitrary: h m) (auto simp: Let_def max_def)

lemma committedKV_max:
  "committedKV ss = sum_list (map slot_tokens ss) - Max (set (0 # map slot_tokens (filter (\<lambda>s. \<not> slot_busy s) ss)))"
  unfolding Max.set_eq_fold by (simp add: committedKV_def committedKV_fold)

end
