(* ===== verification/Kv_Pipe.thy ===== *)
theory Kv_Pipe
  imports Kv_Rooms Kv_Janitor
begin

text \<open>
  The rest of \<^verbatim>\<open>internal/coordinator/kvpipe.go\<close>: the routes, the token cache, \<^verbatim>\<open>Prefill\<close> and \<^verbatim>\<open>Handoff\<close>. A run of one
  request leaves a trace of the calls it sent, the states it wrote down for the janitor and the purges it started. The
  other ends answer as a function of the trace so far (\<open>pe_post\<close>, \<open>pe_get\<close>), and the clock reads the same way; the only
  place where other requests act on the shared state in the middle of a run is the wait for a prefill slot, whose looks
  carry what they did. An engine answers the erases of one \<^verbatim>\<open>makeDecodeRoom\<close> the same way for one slot. JSON encoding and
  decoding, SHA-256, \<^verbatim>\<open>strings.ToLower\<close> and \<^verbatim>\<open>bytes.TrimSpace\<close> are parameters.
\<close>


section \<open>State and environment\<close>

record kvRoute =
  rt_prefillURL :: string
  rt_prefillCtl :: string
  rt_decodeURL :: string
  rt_decodeCtl :: string

record tokEntry =
  te_ids :: "int list"
  te_at :: float64

datatype pev = EvPost string Body | EvGet string | EvTrack string | EvPurge string

record kvPipe =
  pp_prefillURL :: string
  pp_decodeURL :: string
  pp_prefillCtl :: string
  pp_decodeCtl :: string
  pp_disabled :: bool
  pp_rooms :: rooms
  pp_routes :: "(string \<times> kvRoute) list"
  pp_toks :: "(string \<times> tokEntry) list"
  pp_pend :: "(string \<times> int) list"
  pp_noDft :: "(string \<times> bool) list"
  pp_jan :: janitor
  pp_disk :: pend_disk
  pp_trace :: "pev list"

record penv =
  pe_sha :: "bytes \<Rightarrow> bytes"
  pe_marshal :: "go_any \<Rightarrow> string option"
  pe_unmarshal :: "string \<Rightarrow> (string, Body) result"
  pe_slots :: "string \<Rightarrow> slot_row list option"
  pe_lower :: "string \<Rightarrow> string"
  pe_post :: "pev list \<Rightarrow> string \<Rightarrow> Body \<Rightarrow> (string, nat \<times> string) result"
  pe_get :: "pev list \<Rightarrow> string \<Rightarrow> (string, nat \<times> string) result"
  pe_now :: "pev list \<Rightarrow> float64"
  pe_looks :: "pev list \<Rightarrow> look list"
  pe_save :: save_io
  pe_resolve :: "(Body \<Rightarrow> kvRoute option) option"

definition tokCacheTTL :: float64 where "tokCacheTTL = 180000"
definition tokCacheCap :: nat where "tokCacheCap = 64"
definition minCkptPrefix :: nat where "minCkptPrefix = 1024"
definition minCkptTail :: nat where "minCkptTail = 256"
definition replyHeaderToks :: nat where "replyHeaderToks = 7"

definition newKVPipe :: "string \<Rightarrow> string \<Rightarrow> string \<Rightarrow> string \<Rightarrow> kvPipe" where
  "newKVPipe prefillURL decodeURL prefillCtl decodeCtl =
     \<lparr>pp_prefillURL = trim_slash prefillURL, pp_decodeURL = trim_slash decodeURL,
      pp_prefillCtl = trim_slash prefillCtl, pp_decodeCtl = trim_slash decodeCtl, pp_disabled = False,
      pp_rooms = \<lparr>r_pools = [], r_pHeld = [], r_pHeldAt = [], r_pAll = [], r_pAllAt = []\<rparr>,
      pp_routes = [], pp_toks = [], pp_pend = [], pp_noDft = [],
      pp_jan = \<lparr>k_gc = [], k_gcPath = [], k_decodeCtl = trim_slash decodeCtl, k_prefillCtl = trim_slash prefillCtl\<rparr>,
      pp_disk = \<lparr>d_file = None, d_tmp = None\<rparr>, pp_trace = []\<rparr>"


section \<open>Routes\<close>

definition defaultRoute :: "kvPipe \<Rightarrow> kvRoute" where
  "defaultRoute k =
     \<lparr>rt_prefillURL = pp_prefillURL k, rt_prefillCtl = pp_prefillCtl k, rt_decodeURL = pp_decodeURL k, rt_decodeCtl = pp_decodeCtl k\<rparr>"

definition routeFor :: "penv \<Rightarrow> Body \<Rightarrow> kvPipe \<Rightarrow> (call_error, kvRoute) result" where
  "routeFor env body k =
     (if pp_disabled k then Inl (Skip ''prefill en entrenamiento'')
      else
        let rt = (case pe_resolve env of
                    None \<Rightarrow> defaultRoute k
                  | Some f \<Rightarrow> (case f body of Some r \<Rightarrow> r | None \<Rightarrow> defaultRoute k))
        in if rt_prefillURL rt = [] \<or> rt_decodeURL rt = [] then Inl (Skip ''no hay ruta de prefill'')
           else if rt_prefillURL rt = rt_decodeURL rt then Inl (Skip ''el prompt ya vive en el motor que lo va a servir'')
           else Inr rt)"

definition setDisabled :: "bool \<Rightarrow> kvPipe \<Rightarrow> kvPipe" where
  "setDisabled on k = k\<lparr>pp_disabled := on\<rparr>"

definition noteRoute :: "string \<Rightarrow> kvRoute \<Rightarrow> int \<Rightarrow> kvPipe \<Rightarrow> kvPipe" where
  "noteRoute name rt tokens k =
     (let k = (if length (pp_routes k) > 64 then k\<lparr>pp_routes := [], pp_pend := []\<rparr> else k)
      in k\<lparr>pp_routes := AList.update name rt (pp_routes k), pp_pend := AList.update name tokens (pp_pend k)\<rparr>)"

definition routeOf :: "string \<Rightarrow> kvPipe \<Rightarrow> kvRoute option" where
  "routeOf name k = map_of (pp_routes k) name"

definition DecodeURLFor :: "string \<Rightarrow> kvPipe \<Rightarrow> string" where
  "DecodeURLFor hid k = (case routeOf hid k of Some rt \<Rightarrow> rt_decodeURL rt | None \<Rightarrow> pp_decodeURL k)"

definition notePending :: "string \<Rightarrow> int \<Rightarrow> kvPipe \<Rightarrow> kvPipe" where
  "notePending name tokens k =
     (let k = (if length (pp_pend k) > 32 then k\<lparr>pp_pend := []\<rparr> else k)
      in k\<lparr>pp_pend := AList.update name tokens (pp_pend k)\<rparr>)"

definition takePending :: "string \<Rightarrow> kvPipe \<Rightarrow> int \<times> kvPipe" where
  "takePending name k =
     ((case map_of (pp_pend k) name of Some n \<Rightarrow> n | None \<Rightarrow> 0), k\<lparr>pp_pend := AList.delete name (pp_pend k)\<rparr>)"


section \<open>Calls\<close>

definition truncate :: "string \<Rightarrow> nat \<Rightarrow> string" where
  "truncate s n = (if length s \<le> n then s else take n s @ [CHR 0xE2, CHR 0x80, CHR 0xA6])"

definition log_ev :: "pev \<Rightarrow> kvPipe \<Rightarrow> kvPipe" where
  "log_ev e k = k\<lparr>pp_trace := pp_trace k @ [e]\<rparr>"

text \<open>What an answer is read as.\<close>

definition post_answer :: "penv \<Rightarrow> pev list \<Rightarrow> string \<Rightarrow> Body \<Rightarrow> (string, Body) result" where
  "post_answer env tr url body =
     (case pe_post env tr url body of
        Inl e \<Rightarrow> Inl e
      | Inr (status, data) \<Rightarrow>
          if status div 100 \<noteq> 2 then Inl (url @ '': HTTP '' @ decimal status @ '' '' @ truncate data 200)
          else case pe_unmarshal env data of Inl e \<Rightarrow> Inl (url @ '': '' @ e) | Inr out \<Rightarrow> Inr out)"

definition postJSON :: "penv \<Rightarrow> string \<Rightarrow> Body \<Rightarrow> kvPipe \<Rightarrow> (string, Body) result \<times> kvPipe" where
  "postJSON env url body k =
     (case pe_marshal env (Obj body) of
        None \<Rightarrow> (Inl ''json: unsupported value'', k)
      | Some _ \<Rightarrow> (post_answer env (pp_trace k) url body, log_ev (EvPost url body) k))"

definition ctlReachable :: "penv \<Rightarrow> string \<Rightarrow> kvPipe \<Rightarrow> string option \<times> kvPipe" where
  "ctlReachable env base k =
     (let url = base @ ''/soflink/hello''; a = pe_get env (pp_trace k) url; k = log_ev (EvGet url) k
      in case a of
           Inl e \<Rightarrow> (Some e, k)
         | Inr (status, _) \<Rightarrow> (if status \<noteq> 200 then Some (url @ '': HTTP '' @ decimal status) else None, k))"

definition slotsAt :: "penv \<Rightarrow> string \<Rightarrow> kvPipe \<Rightarrow> slot_row list option \<times> kvPipe" where
  "slotsAt env base k =
     (let url = base @ ''/slots''; a = pe_get env (pp_trace k) url; k = log_ev (EvGet url) k
      in case a of
           Inl e \<Rightarrow> (None, k)
         | Inr (status, data) \<Rightarrow> (if status \<noteq> 200 then None else pe_slots env data, k))"

definition cleanup :: "string \<Rightarrow> kvPipe \<Rightarrow> kvPipe" where
  "cleanup hid k = log_ev (EvPurge hid) k"

definition msSince :: "penv \<Rightarrow> float64 \<Rightarrow> kvPipe \<Rightarrow> go_any" where
  "msSince env t k = Flt (of_int (go_int ((pe_now env (pp_trace k) - t) * 1000)) / 1000)"


section \<open>Tokens\<close>

definition templateFields :: "string list" where
  "templateFields = [''messages'', ''tools'', ''tool_choice'', ''chat_template_kwargs'', ''reasoning_format'',
     ''add_generation_prompt'', ''parallel_tool_calls'']"

definition templateBody :: "Body \<Rightarrow> Body" where
  "templateBody body = concat (map (\<lambda>f. case map_of body f of Some v \<Rightarrow> [(f, v)] | None \<Rightarrow> []) templateFields)"

definition bodyHash :: "penv \<Rightarrow> Body \<Rightarrow> string" where
  "bodyHash env body =
     concat (map hex_lower (pe_sha env (str_bytes (case pe_marshal env (Obj (templateBody body)) of Some s \<Rightarrow> s | None \<Rightarrow> []))))"

fun token_ids :: "go_any list \<Rightarrow> int list option" where
  "token_ids [] = Some []"
| "token_ids (v # vs) = (case v of Flt f \<Rightarrow> map_option (\<lambda>is. go_int f # is) (token_ids vs) | _ \<Rightarrow> None)"

fun evict_toks :: "float64 \<Rightarrow> (string \<times> tokEntry) list \<Rightarrow> (string \<times> tokEntry) list \<Rightarrow> (string \<times> tokEntry) list" where
  "evict_toks now [] toks = toks"
| "evict_toks now ((key, e) # es) toks =
     evict_toks now es (if now - te_at e \<ge> tokCacheTTL \<or> length toks \<ge> tokCacheCap then AList.delete key toks else toks)"

definition store_toks :: "float64 \<Rightarrow> string \<Rightarrow> int list \<Rightarrow> (string \<times> tokEntry) list \<Rightarrow> (string \<times> tokEntry) list" where
  "store_toks now h ids toks =
     (let toks = (if length toks \<ge> tokCacheCap then evict_toks now toks toks else toks)
      in AList.update h \<lparr>te_ids = ids, te_at = now\<rparr> toks)"

definition tokenize :: "penv \<Rightarrow> string \<Rightarrow> string \<Rightarrow> kvPipe \<Rightarrow> (string, int list) result \<times> kvPipe" where
  "tokenize env h prompt k =
     (case postJSON env (pp_prefillURL k @ ''/tokenize'')
             [(''content'', Str prompt), (''add_special'', Bool True), (''with_pieces'', Bool False)] k of
        (Inl e, k) \<Rightarrow> (Inl (''tokenize: '' @ e), k)
      | (Inr tk, k) \<Rightarrow>
          (case token_ids (as_arr (field tk ''tokens'')) of
             None \<Rightarrow> (Inl ''tokenize: non-numeric token'', k)
           | Some [] \<Rightarrow> (Inl ''tokenize: no tokens'', k)
           | Some ids \<Rightarrow> (Inr ids, k\<lparr>pp_toks := store_toks (pe_now env (pp_trace k)) h ids (pp_toks k)\<rparr>)))"

definition cached_toks :: "float64 \<Rightarrow> string \<Rightarrow> (string \<times> tokEntry) list \<Rightarrow> int list option" where
  "cached_toks now h toks =
     (case map_of toks h of Some e \<Rightarrow> if now - te_at e < tokCacheTTL then Some (te_ids e) else None | None \<Rightarrow> None)"

definition tokens :: "penv \<Rightarrow> Body \<Rightarrow> kvPipe \<Rightarrow> (string, int list) result \<times> kvPipe" where
  "tokens env body k =
     (let h = bodyHash env body
      in case cached_toks (pe_now env (pp_trace k)) h (pp_toks k) of
           Some ids \<Rightarrow> (Inr ids, k)
         | None \<Rightarrow>
             (case postJSON env (pp_prefillURL k @ ''/apply-template'') (templateBody body) k of
                (Inl e, k) \<Rightarrow> (Inl (''apply-template: '' @ e), k)
              | (Inr tpl, k) \<Rightarrow>
                  let prompt = as_str (field tpl ''prompt'')
                  in if prompt = [] then (Inl ''apply-template: empty prompt'', k) else tokenize env h prompt k))"

definition Tokens :: "penv \<Rightarrow> Body \<Rightarrow> kvPipe \<Rightarrow> (string, int list) result \<times> kvPipe" where
  "Tokens env body k = tokens env body k"

definition Count :: "penv \<Rightarrow> Body \<Rightarrow> kvPipe \<Rightarrow> (string, int) result \<times> kvPipe" where
  "Count env body k =
     (case tokens env body k of
        (Inl e, k) \<Rightarrow> (Inl e, k)
      | (Inr ids, k) \<Rightarrow> (Inr (int (length ids)), k))"

definition system_head :: "Body \<Rightarrow> go_any list" where
  "system_head body =
     takeWhile (\<lambda>m. case m of Obj mm \<Rightarrow> field mm ''role'' = Str ''system'' | _ \<Rightarrow> False) (as_arr (field body ''messages''))"

definition prefixLen :: "penv \<Rightarrow> Body \<Rightarrow> int list \<Rightarrow> kvPipe \<Rightarrow> nat \<times> kvPipe" where
  "prefixLen env body ids k =
     (let hd_msgs = system_head body
      in if hd_msgs = [] then (0, k)
         else
           let pb = AList.update ''messages''
                      (Arr (hd_msgs @ [Obj [(''role'', Str ''user''), (''content'', Str [CHR 0xC2, CHR 0xB7])]])) body
           in case tokens env pb k of
                (Inl e, k) \<Rightarrow> (0, k)
              | (Inr pids, k) \<Rightarrow> (common_len pids ids, k))"


section \<open>Prefill\<close>

text \<open>Everything before the prefill slot is asked for: the route and the prompt, or the reason there is no handoff.\<close>

definition prefill_gate :: "penv \<Rightarrow> Body \<Rightarrow> kvPipe \<Rightarrow> (call_error, kvRoute \<times> int list) result \<times> kvPipe" where
  "prefill_gate env body k =
     (case routeFor env body k of
        Inl e \<Rightarrow> (Inl e, k)
      | Inr rt \<Rightarrow>
          (case ctlReachable env (rt_prefillCtl rt) k of
             (Some e, k) \<Rightarrow> (Inl (Failed (''prefill soflink unreachable: '' @ e)), k)
           | (None, k) \<Rightarrow>
               (case ctlReachable env (rt_decodeCtl rt) k of
                  (Some e, k) \<Rightarrow> (Inl (Failed (''decode soflink unreachable: '' @ e)), k)
                | (None, k) \<Rightarrow>
                    (case tokens env body k of
                       (Inl e, k) \<Rightarrow> (Inl (Failed e), k)
                     | (Inr ids, k) \<Rightarrow>
                         if length ids < 2 then (Inl (Failed ''prompt too short for a handoff''), k)
                         else
                           let (slots, k) = slotsAt env (rt_decodeURL rt) k;
                               (room, r) = decodeRoom slots (rt_decodeURL rt) (pp_rooms k);
                               k = k\<lparr>pp_rooms := r\<rparr>
                           in case room of
                                Some (free, _) \<Rightarrow>
                                  if free < int (length ids) then (Inl (Skip ''el decode no tiene sitio''), k) else (Inr (rt, ids), k)
                              | None \<Rightarrow> (Inr (rt, ids), k)))))"

definition state_name :: "penv \<Rightarrow> Body \<Rightarrow> float64 \<Rightarrow> string" where
  "state_name env body now = ''sf-'' @ take 12 (bodyHash env body) @ ''-'' @ int_str \<lfloor>now\<rfloor> @ ''.bin''"

definition slot_url :: "string \<Rightarrow> string \<Rightarrow> string" where
  "slot_url engine slot = engine @ ''/slots/'' @ slot"

definition complete :: "penv \<Rightarrow> string \<Rightarrow> int list \<Rightarrow> nat \<Rightarrow> kvPipe \<Rightarrow> (string, Body) result \<times> kvPipe" where
  "complete env engine ids slot k =
     postJSON env (engine @ ''/completion'')
       [(''prompt'', Arr (map Num ids)), (''n_predict'', Num 0), (''id_slot'', Num (int slot)), (''cache_prompt'', Bool True)] k"

text \<open>The erase before the prompt and the two best-effort passes; the result is \<open>prefixCkpt\<close>.\<close>

definition prefill_warm :: "penv \<Rightarrow> kvRoute \<Rightarrow> nat \<Rightarrow> int list \<Rightarrow> Body \<Rightarrow> kvPipe \<Rightarrow> nat \<times> kvPipe" where
  "prefill_warm env rt slot ids body k =
     (let (_, k) = postJSON env (slot_url (rt_prefillURL rt) (decimal slot) @ ''?action=erase'') [] k;
          (pl, k) = prefixLen env body ids k;
          (ckpt, k) =
            (if pl \<ge> minCkptPrefix \<and> int pl < int (length ids) - 1 - int minCkptTail then
               (case complete env (rt_prefillURL rt) (take pl ids) slot k of
                  (Inl e, k) \<Rightarrow> (0, k)
                | (Inr _, k) \<Rightarrow> (pl, k))
             else (0, k));
          (_, k) =
            (if int (length ids) - int replyHeaderToks > int (ckpt + minCkptTail)
             then complete env (rt_prefillURL rt) (take (length ids - replyHeaderToks) ids) slot k
             else (Inr [], k))
      in (ckpt, k))"

definition put_num :: "string \<Rightarrow> (float64 \<Rightarrow> go_any) \<Rightarrow> go_any \<Rightarrow> Record \<Rightarrow> Record" where
  "put_num key f v out = (case v of Flt x \<Rightarrow> put key (f x) out | _ \<Rightarrow> out)"

abbreviation num_any :: "float64 \<Rightarrow> go_any" where
  "num_any x \<equiv> Num (go_int x)"

definition prefill_metrics :: "penv \<Rightarrow> float64 \<Rightarrow> string \<Rightarrow> nat \<Rightarrow> nat \<Rightarrow> Body \<Rightarrow> kvPipe \<Rightarrow> Body" where
  "prefill_metrics env t0 name n ckpt cmp k =
     (let out = [(''handoff_id'', Str name), (''tokens'', Num (int n)), (''prefill_ms'', msSince env t0 k)];
          out = (if ckpt > 0 then put ''prefix_ckpt'' (Num (int ckpt)) out else out);
          tm = as_obj (field cmp ''timings'')
      in put_num ''prefill_n'' num_any (field tm ''prompt_n'') (put_num ''prefill_pp'' Flt (field tm ''prompt_per_second'') out))"

text \<open>A save is refused when the engine says it holds nothing like the prompt.\<close>

definition save_empty :: "Body \<Rightarrow> nat \<Rightarrow> bool" where
  "save_empty sv n =
     (case field sv ''n_saved'' of
        Flt v \<Rightarrow> go_int v \<le> 0 \<or> go_int v < int ((n - 1) div 2)
      | _ \<Rightarrow> False)"

definition note_dft :: "string \<Rightarrow> Body \<Rightarrow> kvPipe \<Rightarrow> kvPipe" where
  "note_dft name sv k =
     (let k = (if length (pp_noDft k) > 64 then k\<lparr>pp_noDft := []\<rparr> else k);
          v = (case field sv ''n_written_dft'' of Flt v \<Rightarrow> v | _ \<Rightarrow> 0)
      in if v \<le> 0 then k\<lparr>pp_noDft := AList.update name True (pp_noDft k)\<rparr> else k)"

definition track_state :: "penv \<Rightarrow> string \<Rightarrow> kvRoute \<Rightarrow> kvPipe \<Rightarrow> kvPipe" where
  "track_state env name rt k =
     (let (j, d) = track (pe_save env) (pe_now env (pp_trace k)) name [rt_prefillCtl rt, rt_decodeCtl rt] (pp_jan k) (pp_disk k)
      in log_ev (EvTrack name) (k\<lparr>pp_jan := j, pp_disk := d\<rparr>))"

definition prefill_save :: "penv \<Rightarrow> kvRoute \<Rightarrow> string \<Rightarrow> nat \<Rightarrow> nat \<Rightarrow> Body \<Rightarrow> kvPipe \<Rightarrow> (call_error, Body) result \<times> kvPipe" where
  "prefill_save env rt name slot n out k =
     (let t1 = pe_now env (pp_trace k);
          k = track_state env name rt k
      in case postJSON env (slot_url (rt_prefillURL rt) (decimal slot) @ ''?action=save'') [(''filename'', Str name)] k of
           (Inl e, k) \<Rightarrow> (Inl (Failed (''prefill save: '' @ e)), cleanup name k)
         | (Inr sv, k) \<Rightarrow>
             let out = put ''save_ms'' (msSince env t1 k) out;
                 out = put_num ''state_bytes'' num_any (field sv ''n_written'') out;
                 out = put_num ''n_saved'' num_any (field sv ''n_saved'') out
             in if save_empty sv n then (Inl (Failed ''prefill save vacio''), cleanup name k)
                else (Inr out, noteRoute name rt (int n) (note_dft name sv k)))"

definition prefill_run :: "penv \<Rightarrow> kvRoute \<Rightarrow> string \<Rightarrow> nat \<Rightarrow> int list \<Rightarrow> Body \<Rightarrow> kvPipe \<Rightarrow> (call_error, Body) result \<times> kvPipe" where
  "prefill_run env rt name slot ids body k =
     (let t0 = pe_now env (pp_trace k);
          (ckpt, k) = prefill_warm env rt slot ids body k
      in case complete env (rt_prefillURL rt) (butlast ids) slot k of
           (Inl e, k) \<Rightarrow> (Inl (Failed (''prefill completion: '' @ e)), k)
         | (Inr cmp, k) \<Rightarrow> prefill_save env rt name slot (length ids) (prefill_metrics env t0 name (length ids) ckpt cmp k) k)"

text \<open>\<open>None\<close> when the looks run out with the request still waiting for a slot. The deferred calls run last first.\<close>

definition Prefill :: "penv \<Rightarrow> Body \<Rightarrow> kvPipe \<Rightarrow> ((call_error, Body) result \<times> kvPipe) option" where
  "Prefill env body k =
     (case prefill_gate env body k of
        (Inl e, k) \<Rightarrow> Some (Inl e, k)
      | (Inr (rt, ids), k) \<Rightarrow>
          let now = pe_now env (pp_trace k);
              name = state_name env body now;
              n = int (length ids)
          in case acquireSlot now (rt_prefillURL rt) n (pe_looks env (pp_trace k)) (pp_rooms k) of
               None \<Rightarrow> None
             | Some (None, r) \<Rightarrow> Some (Inl (Skip ''el prefill no tiene sitio''), k\<lparr>pp_rooms := r\<rparr>)
             | Some (Some slot, r) \<Rightarrow>
                 let (res, k) = prefill_run env rt name slot ids body (k\<lparr>pp_rooms := r\<rparr>);
                     (_, k) = postJSON env (slot_url (rt_prefillURL rt) (decimal slot) @ ''?action=erase'') [] k
                 in Some (res, k\<lparr>pp_rooms := releaseSlot (rt_prefillURL rt) slot n (pp_rooms k)\<rparr>))"


section \<open>Handoff\<close>

definition noRoomTexts :: "string list" where
  "noRoomTexts = [''no available space in kv cache'', ''context size has been exceeded'',
     ''exceeds the available context size'', ''could not find a free slot'']"

definition engineOutOfRoom :: "penv \<Rightarrow> string \<Rightarrow> bool" where
  "engineOutOfRoom env err = list_ex (\<lambda>t. contains (pe_lower env err) t) noRoomTexts"

definition take_inline :: "string \<Rightarrow> kvPipe \<Rightarrow> bool \<times> kvPipe" where
  "take_inline hid k =
     ((case map_of (pp_noDft k) hid of Some b \<Rightarrow> b | None \<Rightarrow> False), k\<lparr>pp_noDft := AList.delete hid (pp_noDft k)\<rparr>)"

definition fetch_dft :: "penv \<Rightarrow> kvRoute \<Rightarrow> string \<Rightarrow> Body \<Rightarrow> kvPipe \<Rightarrow> Body \<times> kvPipe" where
  "fetch_dft env rt hid out k =
     (let out = put ''dft'' (Bool False) out;
          (inl, k) = take_inline hid k
      in if inl then (put ''dft_inline'' (Bool True) out, k)
         else
           (case postJSON env (rt_decodeCtl rt @ ''/control/kv-fetch'')
                   [(''url'', Str (rt_prefillCtl rt @ ''/kv/'' @ hid @ ''.dft'')), (''name'', Str (hid @ ''.dft''))] k of
              (Inl e, k) \<Rightarrow> (out, k)
            | (Inr sd, k) \<Rightarrow> (put_num ''dft_bytes'' num_any (field sd ''bytes'') (put ''dft'' (Bool True) out), k)))"

definition erase_url :: "string \<Rightarrow> string \<Rightarrow> string" where
  "erase_url engine sid = slot_url engine sid @ ''?action=erase''"

text \<open>\<^verbatim>\<open>pickIdleSlot\<close> and \<^verbatim>\<open>makeDecodeRoom\<close> with the readings they ask for and the erases they send.\<close>

definition decode_room_for :: "penv \<Rightarrow> string \<Rightarrow> int \<Rightarrow> string \<Rightarrow> kvPipe \<Rightarrow> ((call_error, string) result \<times> roomInfo) \<times> kvPipe" where
  "decode_room_for env url need slot k =
     (let (slots, k) = slotsAt env url k;
          want = pickIdleSlot slots slot;
          (slots, k) = slotsAt env url k;
          er = (\<lambda>sid. pe_marshal env (Obj []) \<noteq> None \<and> (case post_answer env (pp_trace k) (erase_url url sid) [] of Inr _ \<Rightarrow> True | Inl _ \<Rightarrow> False));
          ((res, ri, calls), r) = makeDecodeRoom er slots url need want (pp_rooms k)
      in ((res, ri), k\<lparr>pp_rooms := r, pp_trace := pp_trace k @
             (if pe_marshal env (Obj []) = None then [] else map (\<lambda>sid. EvPost (erase_url url sid) []) calls)\<rparr>))"

definition put_room :: "string \<Rightarrow> roomInfo \<Rightarrow> Body \<Rightarrow> Body" where
  "put_room slot ri out =
     put ''room_need'' (Num (ri_need ri)) (put ''room_budget'' (Num (ri_budget ri))
       (put ''room_erased_tokens'' (Num (ri_erasedTokens ri)) (put ''room_erased_slots'' (Num (int (ri_erased ri)))
         (put ''room_held_before'' (Num (ri_heldBefore ri)) (put ''slot'' (Str slot) out)))))"

definition restore :: "penv \<Rightarrow> kvRoute \<Rightarrow> string \<Rightarrow> string \<Rightarrow> Body \<Rightarrow> kvPipe \<Rightarrow> (call_error, Body) result \<times> kvPipe" where
  "restore env rt hid slot out k =
     (let t1 = pe_now env (pp_trace k);
          (rs, k) = postJSON env (slot_url (rt_decodeURL rt) slot @ ''?action=restore'') [(''filename'', Str hid)] k;
          k = cleanup hid k
      in case rs of
           Inl e \<Rightarrow>
             (Inl (if engineOutOfRoom env e then Skip (''el decode se lleno entre el calculo y la restauracion: '' @ e)
                   else Failed (''decode restore: '' @ e)), k)
         | Inr rs \<Rightarrow> (Inr (put_num ''n_restored'' num_any (field rs ''n_restored'') (put ''restore_ms'' (msSince env t1 k) out)), k))"

definition Handoff :: "penv \<Rightarrow> string \<Rightarrow> string \<Rightarrow> kvPipe \<Rightarrow> (call_error, Body) result \<times> kvPipe" where
  "Handoff env hid slot k =
     (if \<not> validStateName hid then (Inl (Failed ''invalid state name''), k)
      else
        let rt = (case routeOf hid k of Some rt \<Rightarrow> rt | None \<Rightarrow> defaultRoute k);
            t0 = pe_now env (pp_trace k)
        in case postJSON env (rt_decodeCtl rt @ ''/control/kv-fetch'')
                  [(''url'', Str (rt_prefillCtl rt @ ''/kv/'' @ hid)), (''name'', Str hid)] k of
             (Inl e, k) \<Rightarrow> (Inl (Failed (''kv-fetch: '' @ e)), cleanup hid k)
           | (Inr ft, k) \<Rightarrow>
               let out = put_num ''fetch_bytes'' num_any (field ft ''bytes'') [(''fetch_ms'', msSince env t0 k)];
                   (out, k) = fetch_dft env rt hid out k;
                   (need, k) = takePending hid k
               in case decode_room_for env (rt_decodeURL rt) need slot k of
                    ((Inl e, _), k) \<Rightarrow> (Inl e, cleanup hid k)
                  | ((Inr slot, ri), k) \<Rightarrow> restore env rt hid slot (put_room slot ri out) k)"


section \<open>Streams\<close>

definition strip_data :: "(string \<Rightarrow> string) \<Rightarrow> string \<Rightarrow> string option" where
  "strip_data trim line =
     (let line = trim line
      in if take 5 line = ''data:'' then Some (trim (drop 5 line)) else None)"

definition sse_timing :: "(string \<Rightarrow> string) \<Rightarrow> (string \<Rightarrow> (string, Body) result) \<Rightarrow> Body option \<Rightarrow> string \<Rightarrow> Body option" where
  "sse_timing trim unmarshal found line =
     (case strip_data trim line of
        None \<Rightarrow> found
      | Some payload \<Rightarrow>
          if \<not> contains payload ([CHR 0x22] @ ''timings'' @ [CHR 0x22]) then found
          else case unmarshal payload of
                 Inl _ \<Rightarrow> found
               | Inr obj \<Rightarrow> (case field obj ''timings'' of Obj tm \<Rightarrow> Some tm | _ \<Rightarrow> found))"

definition sseTimings :: "(string \<Rightarrow> string) \<Rightarrow> (string \<Rightarrow> (string, Body) result) \<Rightarrow> string \<Rightarrow> Body option" where
  "sseTimings trim unmarshal sse = foldl (sse_timing trim unmarshal) None (split_on (CHR 0x0A) sse)"

definition sse_err :: "(string \<Rightarrow> string) \<Rightarrow> (string \<Rightarrow> (string, Body) result) \<Rightarrow> (go_any \<Rightarrow> string option) \<Rightarrow> string \<Rightarrow> string \<Rightarrow> string" where
  "sse_err trim unmarshal marshal msg line =
     (case strip_data trim line of
        None \<Rightarrow> msg
      | Some payload \<Rightarrow>
          (case unmarshal payload of
             Inl _ \<Rightarrow> msg
           | Inr obj \<Rightarrow>
               (case field obj ''error'' of
                  Str e \<Rightarrow> e
                | Obj e \<Rightarrow>
                    (case field e ''message'' of
                       Str m \<Rightarrow> m
                     | _ \<Rightarrow> (case marshal (Obj e) of Some b \<Rightarrow> b | None \<Rightarrow> msg))
                | _ \<Rightarrow> msg)))"

definition sseError :: "(string \<Rightarrow> string) \<Rightarrow> (string \<Rightarrow> (string, Body) result) \<Rightarrow> (go_any \<Rightarrow> string option) \<Rightarrow> string \<Rightarrow> string" where
  "sseError trim unmarshal marshal sse =
     take 300 (foldl (sse_err trim unmarshal marshal) [] (split_on (CHR 0x0A) sse))"


section \<open>Quiet steps\<close>

text \<open>A call that neither saves nor restores a state.\<close>

definition plain :: "pev \<Rightarrow> bool" where
  "plain e = (case e of EvPost u b \<Rightarrow> map_of b ''filename'' = None | EvGet _ \<Rightarrow> True | _ \<Rightarrow> False)"

text \<open>Nothing but plain calls and the token cache.\<close>

definition quietly :: "kvPipe \<Rightarrow> kvPipe \<Rightarrow> bool" where
  "quietly k k' \<longleftrightarrow> (\<exists>toks es. list_all plain es \<and> k' = k\<lparr>pp_toks := toks, pp_trace := pp_trace k @ es\<rparr>)"

lemma quietly_same: "quietly k k"
  unfolding quietly_def by (rule exI[of _ "pp_toks k"], rule exI[of _ "[]"]) simp

lemma quietly_trans: "quietly a b \<Longrightarrow> quietly b c \<Longrightarrow> quietly a c"
proof -
  assume "quietly a b" "quietly b c"
  then obtain t1 e1 t2 e2 where e: "list_all plain e1" "b = a\<lparr>pp_toks := t1, pp_trace := pp_trace a @ e1\<rparr>"
    "list_all plain e2" "c = b\<lparr>pp_toks := t2, pp_trace := pp_trace b @ e2\<rparr>" unfolding quietly_def by blast
  show ?thesis unfolding quietly_def by (rule exI[of _ t2], rule exI[of _ "e1 @ e2"]) (simp add: e)
qed

lemma quietly_toks: "quietly k (k\<lparr>pp_toks := ts\<rparr>)"
  unfolding quietly_def by (rule exI[of _ ts], rule exI[of _ "[]"]) simp

lemma quietly_log: "plain e \<Longrightarrow> quietly k (log_ev e k)"
  unfolding quietly_def log_ev_def by (rule exI[of _ "pp_toks k"], rule exI[of _ "[e]"]) simp

lemma quietly_post: "postJSON env url body k = (res, k') \<Longrightarrow> map_of body ''filename'' = None \<Longrightarrow> quietly k k'"
  by (auto simp: postJSON_def plain_def intro: quietly_same quietly_log split: option.splits)

lemma quietly_slots: "slotsAt env url k = (res, k') \<Longrightarrow> quietly k k'"
  by (auto simp: slotsAt_def Let_def plain_def intro: quietly_log split: sum.splits prod.splits)

lemma quietly_hello: "ctlReachable env url k = (res, k') \<Longrightarrow> quietly k k'"
  by (auto simp: ctlReachable_def Let_def plain_def intro: quietly_log split: sum.splits prod.splits)

lemma quietly_complete: "complete env url ids slot k = (res, k') \<Longrightarrow> quietly k k'"
  unfolding complete_def by (erule quietly_post) simp

lemma template_no_file: "map_of (templateBody body) ''filename'' = None"
  by (auto simp: templateBody_def templateFields_def map_of_eq_None_iff split: option.splits)

lemma quietly_tokens:
  assumes "tokens env body k = (res, k')"
  shows "quietly k k'"
proof (cases "cached_toks (pe_now env (pp_trace k)) (bodyHash env body) (pp_toks k)")
  case None
  obtain a k1 where p: "postJSON env (pp_prefillURL k @ ''/apply-template'') (templateBody body) k = (a, k1)" by fastforce
  have q: "quietly k k1" by (rule quietly_post[OF p template_no_file])
  have tk: "quietly k1 k2" if "tokenize env h prompt k1 = (r2, k2)" for h prompt r2 k2
  proof -
    obtain b k3 where p3: "postJSON env (pp_prefillURL k1 @ ''/tokenize'')
             [(''content'', Str prompt), (''add_special'', Bool True), (''with_pieces'', Bool False)] k1 = (b, k3)" by fastforce
    have "quietly k1 k3" by (rule quietly_post[OF p3]) simp
    moreover have "quietly k3 k2" using that p3
      by (auto simp: tokenize_def intro: quietly_same quietly_toks split: sum.splits option.splits list.splits)
    ultimately show ?thesis by (rule quietly_trans)
  qed
  have "k' = k1 \<or> (\<exists>h prompt r. tokenize env h prompt k1 = (r, k'))"
    using assms None p by (auto simp: tokens_def Let_def split: sum.splits if_splits)
  then show ?thesis using q tk quietly_trans by blast
next
  case (Some ids)
  then show ?thesis using assms by (auto simp: tokens_def Let_def intro: quietly_same)
qed

lemma quietly_prefix: "prefixLen env body ids k = (n, k') \<Longrightarrow> quietly k k'"
  by (auto simp: prefixLen_def Let_def intro: quietly_same dest: quietly_tokens split: if_splits prod.splits sum.splits)

lemma quietly_warm:
  assumes "prefill_warm env rt slot ids body k = (ckpt, k')"
  shows "quietly k k'"
proof -
  obtain a k1 where p1: "postJSON env (slot_url (rt_prefillURL rt) (decimal slot) @ ''?action=erase'') [] k = (a, k1)" by fastforce
  obtain pl k2 where p2: "prefixLen env body ids k1 = (pl, k2)" by fastforce
  obtain ck k3 where p3: "(if pl \<ge> minCkptPrefix \<and> int pl < int (length ids) - 1 - int minCkptTail then
       (case complete env (rt_prefillURL rt) (take pl ids) slot k2 of (Inl e, k) \<Rightarrow> (0, k) | (Inr _, k) \<Rightarrow> (pl, k))
     else (0, k2)) = (ck, k3)" by fastforce
  obtain z k4 where p4: "(if int (length ids) - int replyHeaderToks > int (ck + minCkptTail)
     then complete env (rt_prefillURL rt) (take (length ids - replyHeaderToks) ids) slot k3 else (Inr [], k3)) = (z, k4)" by fastforce
  have "k' = k4" using assms p1 p2 p3 p4 by (simp add: prefill_warm_def)
  moreover have "quietly k k1" by (rule quietly_post[OF p1]) simp
  moreover have "quietly k1 k2" by (rule quietly_prefix[OF p2])
  moreover have "quietly k2 k3"
    using p3 by (auto intro: quietly_same dest: quietly_complete split: if_splits prod.splits sum.splits)
  moreover have "quietly k3 k4" using p4 quietly_complete quietly_same by (metis prod.inject)
  ultimately show ?thesis using quietly_trans by blast
qed

lemma quietly_parts:
  assumes "quietly k k'"
  obtains es where "pp_trace k' = pp_trace k @ es" "list_all plain es" "pp_rooms k' = pp_rooms k" "pp_routes k' = pp_routes k"
    "pp_pend k' = pp_pend k" "pp_noDft k' = pp_noDft k" "pp_jan k' = pp_jan k" "defaultRoute k' = defaultRoute k"
  using assms that by (auto simp: quietly_def defaultRoute_def)


section \<open>The stages\<close>

text \<open>The same pools; an engine without one is as good as with a new one.\<close>

definition pools_as :: "rooms \<Rightarrow> rooms \<Rightarrow> bool" where
  "pools_as r r' \<longleftrightarrow> (\<forall>e. fst (poolOf e r') = fst (poolOf e r))"

lemma poolOf_as: "poolOf u r = (p, r') \<Longrightarrow> pools_as r r' \<and> p = fst (poolOf u r)"
  by (auto simp: pools_as_def poolOf_def update_conv split: option.splits if_splits)

lemma pools_as_refl: "pools_as r r"
  by (simp add: pools_as_def)

lemma poolOf_pools: "r_pools r' = r_pools r \<Longrightarrow> fst (poolOf e r') = fst (poolOf e r)"
  by (simp add: poolOf_def split: option.split)

lemma decodeRoom_as: "decodeRoom slots url r = (x, r') \<Longrightarrow> pools_as r r'"
  using poolOf_as[of url r] pools_as_refl[of r]
  by (auto simp: decodeRoom_def Let_def split: option.splits prod.splits if_splits)

lemma makeDecodeRoom_as: "makeDecodeRoom er slots url need want r = (x, r') \<Longrightarrow> pools_as r r'"
  using poolOf_as[of url r] pools_as_refl[of r]
  by (auto simp: makeDecodeRoom_def Let_def split: option.splits prod.splits if_splits)

lemma engineHeld_pools: "engineHeld now slots e r = (h, r') \<Longrightarrow> r_pools r' = r_pools r"
  by (auto simp: engineHeld_def Let_def split: if_splits option.splits)

definition calmly :: "kvPipe \<Rightarrow> kvPipe \<Rightarrow> bool" where
  "calmly k k' \<longleftrightarrow> (\<exists>k1 r. quietly k k1 \<and> k' = k1\<lparr>pp_rooms := r\<rparr> \<and> pools_as (pp_rooms k) r)"

lemma calmly_quiet: "quietly k k' \<Longrightarrow> calmly k k'"
  unfolding calmly_def by (rule exI[of _ k'], rule exI[of _ "pp_rooms k'"]) (auto simp: quietly_def pools_as_def)

lemma calmly_parts:
  assumes "calmly k k'"
  obtains es where "pp_trace k' = pp_trace k @ es" "list_all plain es" "pools_as (pp_rooms k) (pp_rooms k')" "pp_routes k' = pp_routes k"
    "pp_pend k' = pp_pend k" "pp_noDft k' = pp_noDft k" "pp_jan k' = pp_jan k" "defaultRoute k' = defaultRoute k"
  using assms that by (auto simp: calmly_def quietly_def defaultRoute_def)

lemma prefill_gate_calm:
  assumes "prefill_gate env body k = (res, k')"
  shows "calmly k k' \<and> (\<forall>rt ids. res = Inr (rt, ids) \<longrightarrow> routeFor env body k = Inr rt \<and> 2 \<le> length ids)"
proof (cases "routeFor env body k")
  case (Inl e)
  then show ?thesis using assms calmly_quiet[OF quietly_same] by (auto simp: prefill_gate_def)
next
  case (Inr rt)
  obtain a k1 where p1: "ctlReachable env (rt_prefillCtl rt) k = (a, k1)" by fastforce
  obtain b k2 where p2: "ctlReachable env (rt_decodeCtl rt) k1 = (b, k2)" by fastforce
  obtain t k3 where p3: "tokens env body k2 = (t, k3)" by fastforce
  obtain ss k4 where p4: "slotsAt env (rt_decodeURL rt) k3 = (ss, k4)" by fastforce
  obtain room r where p5: "decodeRoom ss (rt_decodeURL rt) (pp_rooms k4) = (room, r)" by fastforce
  have q1: "quietly k k1" by (rule quietly_hello[OF p1])
  have q2: "quietly k k2" using quietly_trans[OF q1 quietly_hello[OF p2]] .
  have q3: "quietly k k3" using quietly_trans[OF q2 quietly_tokens[OF p3]] .
  have q4: "quietly k k4" using quietly_trans[OF q3 quietly_slots[OF p4]] .
  have "pp_rooms k4 = pp_rooms k" using q4 by (auto simp: quietly_def)
  then have q5: "calmly k (k4\<lparr>pp_rooms := r\<rparr>)" using q4 decodeRoom_as[OF p5] unfolding calmly_def by auto
  note c = calmly_quiet[OF q1] calmly_quiet[OF q2] calmly_quiet[OF q3] q5
  show ?thesis using assms Inr p1 p2 p3 p4 p5 c unfolding prefill_gate_def
    by (auto simp: Let_def split: option.splits sum.splits if_splits)
qed

lemma field_put: "field (put key v out) f = (if f = key then v else field out f)"
  by (simp add: field_def update_conv)

lemma field_put_num: "f \<noteq> key \<Longrightarrow> field (put_num key g v out) f = field out f"
  by (simp add: put_num_def field_put split: go_any.split)

lemma prefill_metrics_id: "field (prefill_metrics env t0 name n ckpt cmp k) ''handoff_id'' = Str name"
  by (simp add: prefill_metrics_def Let_def field_put field_put_num) (simp add: field_def)

lemma track_state_parts:
  "pp_trace (track_state env name rt k) = pp_trace k @ [EvTrack name]" "pp_rooms (track_state env name rt k) = pp_rooms k"
  "pp_routes (track_state env name rt k) = pp_routes k"
  "\<exists>p. map_of (k_gc (pp_jan (track_state env name rt k))) name = Some p \<and> Ctls p = ctl_list [rt_prefillCtl rt, rt_decodeCtl rt]"
  by (simp_all add: track_state_def track_def Let_def log_ev_def update_conv)

lemma prefill_save_parts:
  assumes "prefill_save env rt name slot n out k = (res, k')" "field out ''handoff_id'' = Str name"
  defines "save \<equiv> EvPost (slot_url (rt_prefillURL rt) (decimal slot) @ ''?action=save'') [(''filename'', Str name)]"
  shows "pp_rooms k' = pp_rooms k \<and>
    (\<exists>p. map_of (k_gc (pp_jan k')) name = Some p \<and> Ctls p = ctl_list [rt_prefillCtl rt, rt_decodeCtl rt]) \<and>
    (case res of
       Inl e \<Rightarrow> (\<exists>mid. set mid \<subseteq> {save} \<and> pp_trace k' = pp_trace k @ EvTrack name # mid @ [EvPurge name]) \<and> pp_routes k' = pp_routes k
     | Inr out \<Rightarrow> pp_trace k' = pp_trace k @ [EvTrack name, save] \<and> field out ''handoff_id'' = Str name \<and>
         pp_routes k' = AList.update name rt (if 64 < length (pp_routes k) then [] else pp_routes k) \<and> map_of (pp_pend k') name = Some (int n) \<and>
         (64 < length (pp_routes k) \<longrightarrow> pp_pend k' = [(name, int n)]))"
proof -
  define k1 where "k1 = track_state env name rt k"
  obtain a k2 where p: "postJSON env (slot_url (rt_prefillURL rt) (decimal slot) @ ''?action=save'') [(''filename'', Str name)] k1 = (a, k2)" by fastforce
  have k2: "k2 = k1 \<and> (\<exists>e. a = Inl e) \<or> k2 = log_ev save k1" using p by (auto simp: postJSON_def save_def split: option.splits)
  note t = track_state_parts[of env name rt k, folded k1_def]
  show ?thesis
  proof (cases a)
    case (Inl e)
    then have r: "k' = cleanup name k2" "res = Inl (Failed (''prefill save: '' @ e))" using assms(1) p by (simp_all add: prefill_save_def Let_def k1_def[symmetric])
    from k2 have "\<exists>mid. set mid \<subseteq> {save} \<and> pp_trace k2 = pp_trace k1 @ mid"
      by (elim disjE) (rule exI[of _ "[]"], simp, rule exI[of _ "[save]"], simp add: log_ev_def)
    moreover have "pp_rooms k2 = pp_rooms k1" "pp_jan k2 = pp_jan k1" "pp_routes k2 = pp_routes k1" using k2 by (auto simp: log_ev_def)
    ultimately show ?thesis using t by (auto simp: r cleanup_def log_ev_def)
  next
    case (Inr sv)
    then have k2': "k2 = log_ev save k1" using k2 by simp
    show ?thesis
    proof (cases "save_empty sv n")
      case True
      then have r: "k' = cleanup name k2" "res = Inl (Failed ''prefill save vacio'')"
        using assms(1) p Inr by (simp_all add: prefill_save_def Let_def k1_def[symmetric])
      show ?thesis using t by (auto simp: r k2' cleanup_def log_ev_def intro: exI[of _ "[save]"])
    next
      case False
      then obtain out2 where r: "k' = noteRoute name rt (int n) (note_dft name sv k2)" "res = Inr out2" "field out2 ''handoff_id'' = Str name"
        using assms(1,2) p Inr by (auto simp: prefill_save_def Let_def k1_def[symmetric] field_put field_put_num)
      have d: "pp_rooms (note_dft name sv k2) = pp_rooms k1" "pp_jan (note_dft name sv k2) = pp_jan k1"
        "pp_routes (note_dft name sv k2) = pp_routes k1" "pp_trace (note_dft name sv k2) = pp_trace k1 @ [save]"
        by (simp_all add: note_dft_def Let_def k2' log_ev_def)
      show ?thesis using t d by (simp add: r noteRoute_def Let_def update_conv)
    qed
  qed
qed

lemma prefill_run_parts:
  assumes "prefill_run env rt name slot ids body k = (res, k')"
  defines "save \<equiv> EvPost (slot_url (rt_prefillURL rt) (decimal slot) @ ''?action=save'') [(''filename'', Str name)]"
  shows "pp_rooms k' = pp_rooms k \<and> (\<exists>es. pp_trace k' = pp_trace k @ es \<and>
    (case res of
       Inl e \<Rightarrow> pp_routes k' = pp_routes k \<and>
         (list_all plain es \<or> (\<exists>pre mid. list_all plain pre \<and> set mid \<subseteq> {save} \<and> es = pre @ EvTrack name # mid @ [EvPurge name]))
     | Inr out \<Rightarrow> (\<exists>pre. list_all plain pre \<and> es = pre @ [EvTrack name, save]) \<and> field out ''handoff_id'' = Str name \<and>
         (\<exists>p. map_of (k_gc (pp_jan k')) name = Some p \<and> Ctls p = ctl_list [rt_prefillCtl rt, rt_decodeCtl rt]) \<and>
         pp_routes k' = AList.update name rt (if 64 < length (pp_routes k) then [] else pp_routes k) \<and>
         map_of (pp_pend k') name = Some (int (length ids)) \<and>
         (64 < length (pp_routes k) \<longrightarrow> pp_pend k' = [(name, int (length ids))])))"
proof -
  obtain ckpt k1 where p1: "prefill_warm env rt slot ids body k = (ckpt, k1)" by fastforce
  obtain a k2 where p2: "complete env (rt_prefillURL rt) (butlast ids) slot k1 = (a, k2)" by fastforce
  have "quietly k k2" by (rule quietly_trans[OF quietly_warm[OF p1] quietly_complete[OF p2]])
  from quietly_parts[OF this] obtain pre where pre: "pp_trace k2 = pp_trace k @ pre" "list_all plain pre" "pp_rooms k2 = pp_rooms k"
    "pp_routes k2 = pp_routes k" by blast
  show ?thesis
  proof (cases a)
    case (Inl e)
    then have "k' = k2" "\<exists>e. res = Inl e" using assms(1) p1 p2 by (auto simp: prefill_run_def)
    then show ?thesis using pre by auto
  next
    case (Inr c)
    define out where "out = prefill_metrics env (pe_now env (pp_trace k)) name (length ids) ckpt c k2"
    have run: "prefill_save env rt name slot (length ids) out k2 = (res, k')"
      using assms(1) p1 p2 Inr by (simp add: prefill_run_def out_def)
    have "field out ''handoff_id'' = Str name" unfolding out_def by (rule prefill_metrics_id)
    note parts = prefill_save_parts[OF run this, folded save_def]
    show ?thesis
    proof (cases res)
      case (Inl e)
      with parts obtain mid where "set mid \<subseteq> {save}" "pp_trace k' = pp_trace k2 @ EvTrack name # mid @ [EvPurge name]" "pp_routes k' = pp_routes k2"
        "pp_rooms k' = pp_rooms k2" by auto
      then show ?thesis using pre Inl by auto
    next
      case (Inr o2)
      then show ?thesis using parts pre by simp
    qed
  qed
qed


section \<open>The prefill slot comes back\<close>

text \<open>No other request acts while this one waits for its slot.\<close>

definition alone :: "penv \<Rightarrow> bool" where
  "alone env \<longleftrightarrow> (\<forall>tr. \<forall>l\<in>set (pe_looks env tr). lk_others l = (\<lambda>r. r))"

lemma acquire_loop_pools:
  assumes "\<forall>l\<in>set ls. lk_others l = (\<lambda>r. r)" "acquire_loop engine est dl ls r = Some (got, r')"
  shows "case got of
     None \<Rightarrow> pools_as r r'
   | Some slot \<Rightarrow> \<exists>held p. pool_try held est (fst (poolOf engine r)) = Some (slot, p) \<and>
       (\<forall>e. fst (poolOf e r') = (if e = engine then p else fst (poolOf e r)))"
  using assms
proof (induction ls arbitrary: r)
  case (Cons l ls)
  obtain held r1 where h: "engineHeld (lk_now l) (lk_slots l) engine r = (held, r1)" by fastforce
  obtain p r2 where p: "poolOf engine r1 = (p, r2)" by fastforce
  have as1: "pools_as r r1" unfolding pools_as_def using poolOf_pools[OF engineHeld_pools[OF h]] by simp
  have as2: "pools_as r r2" and pe: "p = fst (poolOf engine r)" using poolOf_as[OF p] as1 by (auto simp: pools_as_def)
  have here: "acquire_loop engine est dl (l # ls) r = (case pool_try held est p of
           Some (slot, p) \<Rightarrow> Some (Some slot, r2\<lparr>r_pools := AList.update engine p (r_pools r2)\<rparr>)
         | None \<Rightarrow> if lk_now l > dl then Some (None, r2) else acquire_loop engine est dl ls r2)"
    using Cons.prems(1) h p by simp
  show ?case
  proof (cases "pool_try held est p")
    case None
    show ?thesis
    proof (cases "lk_now l > dl")
      case True
      then show ?thesis using Cons.prems(2) here None as2 by simp
    next
      case False
      then have "acquire_loop engine est dl ls r2 = Some (got, r')" using Cons.prems(2) here None by simp
      from Cons.IH[OF _ this] Cons.prems(1) show ?thesis using as2 by (auto simp: pools_as_def split: option.splits)
    qed
  next
    case (Some sp)
    obtain slot q where sp: "sp = (slot, q)" by fastforce
    have r': "got = Some slot" "r' = r2\<lparr>r_pools := AList.update engine q (r_pools r2)\<rparr>" using Cons.prems(2) here Some sp by simp_all
    have "fst (poolOf e r') = (if e = engine then q else fst (poolOf e r2))" for e
      by (simp add: r' poolOf_def update_conv split: option.split)
    then show ?thesis using Some sp pe as2 r' by (auto simp: pools_as_def)
  qed
qed simp

definition pool_same :: "enginePool \<Rightarrow> enginePool \<Rightarrow> bool" where
  "pool_same p q \<longleftrightarrow> mset (ep_free p) = mset (ep_free q) \<and> ep_inflight p = ep_inflight q \<and> ep_budget p = ep_budget q \<and> ep_split p = ep_split q"

lemma releaseSlot_pool:
  "fst (poolOf e (releaseSlot engine slot est r)) = (if e = engine then pool_release slot est (fst (poolOf engine r)) else fst (poolOf e r))"
proof -
  obtain p r1 where p: "poolOf engine r = (p, r1)" by fastforce
  have "r_pools (releaseSlot engine slot est r) = AList.update engine (pool_release slot est p) (r_pools r1)"
    by (simp add: releaseSlot_def setPool_def p Let_def)
  then have "fst (poolOf e (releaseSlot engine slot est r)) = (if e = engine then pool_release slot est p else fst (poolOf e r1))"
    by (simp add: poolOf_def update_conv split: option.split)
  then show ?thesis using poolOf_as[OF p, THEN conjunct1] by (simp add: pools_as_def p)
qed

lemma pool_back:
  assumes "pool_try held est p = Some (slot, q)" "0 \<le> ep_inflight p"
  shows "pool_same (pool_release slot est q) p"
proof -
  have f: "ep_free p \<noteq> []" "slot = hd (ep_free p)" "q = p\<lparr>ep_free := tl (ep_free p), ep_inflight := ep_inflight p + est\<rparr>"
    using assms(1) by (auto simp: pool_try_def Let_def split: if_splits)
  have "mset (tl (ep_free p) @ [hd (ep_free p)]) = mset (ep_free p)" using f(1) by (cases "ep_free p") simp_all
  then show ?thesis using assms(2) by (simp add: pool_same_def pool_release_def Let_def f(2,3))
qed

lemma prefill_slot_back:
  assumes "Prefill env body k = Some (res, k')" "alone env" "\<forall>e. 0 \<le> ep_inflight (fst (poolOf e (pp_rooms k)))"
  shows "pool_same (fst (poolOf e (pp_rooms k'))) (fst (poolOf e (pp_rooms k)))"
proof -
  obtain g k1 where p1: "prefill_gate env body k = (g, k1)" by fastforce
  have "calmly k k1" using prefill_gate_calm[OF p1] by blast
  then have as1: "pools_as (pp_rooms k) (pp_rooms k1)" by (rule calmly_parts)
  show ?thesis
  proof (cases g)
    case (Inl e)
    then have "k' = k1" using assms(1) p1 by (simp add: Prefill_def)
    then show ?thesis using as1 by (simp add: pools_as_def pool_same_def)
  next
    case (Inr ri)
    obtain rt ids where ri: "ri = (rt, ids)" by fastforce
    define n where "n = int (length ids)"
    have one: "\<forall>l\<in>set (pe_looks env (pp_trace k1)). lk_others l = (\<lambda>r. r)" using assms(2) by (simp add: alone_def)
    obtain got r where acq: "acquireSlot (pe_now env (pp_trace k1)) (rt_prefillURL rt) n (pe_looks env (pp_trace k1)) (pp_rooms k1) = Some (got, r)"
      using assms(1) p1 Inr ri by (fastforce simp: Prefill_def Let_def n_def split: option.splits)
    note loop = acquire_loop_pools[OF one acq[unfolded acquireSlot_def]]
    show ?thesis
    proof (cases got)
      case None
      then have "k' = k1\<lparr>pp_rooms := r\<rparr>" using assms(1) p1 Inr ri acq by (simp add: Prefill_def Let_def n_def)
      then show ?thesis using loop None as1 by (simp add: pools_as_def pool_same_def)
    next
      case (Some slot)
      obtain res2 k2 where p2: "prefill_run env rt (state_name env body (pe_now env (pp_trace k1))) slot ids body (k1\<lparr>pp_rooms := r\<rparr>) = (res2, k2)" by fastforce
      obtain a k3 where p3: "postJSON env (slot_url (rt_prefillURL rt) (decimal slot) @ ''?action=erase'') [] k2 = (a, k3)" by fastforce
      have k': "k' = k3\<lparr>pp_rooms := releaseSlot (rt_prefillURL rt) slot n (pp_rooms k3)\<rparr>"
        using assms(1) p1 Inr ri acq Some p2 p3 by (simp add: Prefill_def Let_def n_def)
      have "pp_rooms k3 = pp_rooms k2" using p3 by (auto simp: postJSON_def log_ev_def split: option.splits)
      also have "\<dots> = r" using prefill_run_parts[OF p2] by simp
      finally have r3: "pp_rooms k3 = r" .
      from loop Some obtain held p where t: "pool_try held n (fst (poolOf (rt_prefillURL rt) (pp_rooms k1))) = Some (slot, p)"
        "\<And>e. fst (poolOf e r) = (if e = rt_prefillURL rt then p else fst (poolOf e (pp_rooms k1)))" by auto
      have "pool_same (pool_release slot n p) (fst (poolOf (rt_prefillURL rt) (pp_rooms k)))"
        using pool_back[OF t(1)] assms(3) as1 by (simp add: pools_as_def)
      then show ?thesis using t(2) as1 by (simp add: k' r3 releaseSlot_pool pools_as_def pool_same_def)
    qed
  qed
qed


section \<open>Names of states\<close>

lemma decimal_digits: "c \<in> set (decimal n) \<Longrightarrow> 48 \<le> byte_of c \<and> byte_of c \<le> 57"
proof (induction n rule: decimal.induct)
  case (1 n)
  have d: "byte_of (char_of (48 + m)) = 48 + m" if "m < 10" for m :: nat using that by (simp add: byte_of_def)
  show ?case
  proof (cases "n < 10")
    case True
    then show ?thesis using 1 d[of n] by (simp add: decimal.simps)
  next
    case False
    then have "c \<in> set (decimal (n div 10)) \<or> c = char_of (48 + n mod 10)" using 1(2) by (subst (asm) decimal.simps) auto
    then show ?thesis using 1(1)[OF False] d[of "n mod 10"] by auto
  qed
qed

lemma decimal_short: "n < 10 ^ m \<Longrightarrow> 0 < m \<Longrightarrow> length (decimal n) \<le> m"
proof (induction n arbitrary: m rule: decimal.induct)
  case (1 n)
  show ?case
  proof (cases "n < 10")
    case True
    then show ?thesis using 1 by (simp add: decimal.simps)
  next
    case False
    then obtain m' where m: "m = Suc m'" "0 < m'" using 1(2,3) by (cases m; cases "m - 1") auto
    then have "n div 10 < 10 ^ m'" using 1(2) by (simp add: less_mult_imp_div_less mult.commute)
    then show ?thesis using 1(1)[OF False] m False by (subst decimal.simps) simp
  qed
qed

lemma hex_alnum:
  assumes "c \<in> set (hex_lower b)"
  shows "alnum c"
proof -
  have "unat b < 2 ^ LENGTH(8)" by (rule unsigned_less)
  then have "unat b div 16 < 16" by simp
  then have "c \<in> set ''0123456789abcdef''"
    using assms nth_mem[of "unat b div 16" "''0123456789abcdef''"] nth_mem[of "unat b mod 16" "''0123456789abcdef''"]
    unfolding hex_lower_def Let_def by auto
  then show ?thesis by (auto simp: alnum_def byte_of_def)
qed

lemma no_dots: "CHR ''.'' \<notin> set s \<Longrightarrow> \<not> contains (s @ ''.bin'') ''..''"
  by (induction s) (auto simp: starts_def)

lemma state_name_valid:
  assumes "\<And>x. length (pe_sha env x) = 32" "0 \<le> now" "now < 10 ^ 18"
  shows "validStateName (state_name env body now)"
proof -
  define h where "h = take 12 (bodyHash env body)"
  define t where "t = decimal (nat \<lfloor>now\<rfloor>)"
  define stem where "stem = ''sf-'' @ h @ ''-'' @ t"
  have "\<lfloor>now\<rfloor> < 10 ^ 18" using assms(3) by (simp add: floor_less_iff)
  then have "nat \<lfloor>now\<rfloor> < 10 ^ 18" using assms(2) by (simp add: nat_less_iff)
  then have lt: "length t \<le> 18" unfolding t_def by (rule decimal_short) simp
  have lh: "length h \<le> 12" by (simp add: h_def)
  have ht: "\<forall>c\<in>set h. alnum c"
    using hex_alnum by (auto simp: h_def bodyHash_def dest!: in_set_takeD)
  have tt: "\<forall>c\<in>set t. alnum c" using decimal_digits by (fastforce simp: t_def alnum_def)
  have dot: "CHR ''.'' \<notin> set h" "CHR ''.'' \<notin> set t" using ht tt by (auto simp: alnum_def byte_of_def)
  have "stem_ok stem" using lt lh ht tt by (auto simp: stem_def stem_ok_def name_char_def alnum_def byte_of_def list_all_iff)
  moreover have eq: "state_name env body now = stem @ ''.bin''"
    using assms(2) by (simp add: state_name_def stem_def h_def t_def int_str_def)
  ultimately have "stateNameRe (state_name env body now)" using strip_end_iff[of "''.bin''" "stem @ ''.bin''" stem] by (simp add: stateNameRe_def)
  moreover have "\<not> contains (stem @ ''.bin'') ''..''" by (rule no_dots) (use dot in \<open>simp add: stem_def\<close>)
  ultimately show ?thesis unfolding validStateName_def eq by simp
qed

lemma set_ctl_list: "set (ctl_list cs) = set cs - {[]}"
proof -
  have "set (foldl (\<lambda>cs c. if c \<noteq> [] \<and> c \<notin> set cs then cs @ [c] else cs) acc cs) = set acc \<union> (set cs - {[]})" for acc :: "string list"
    by (induction cs arbitrary: acc) auto
  then show ?thesis by (simp add: ctl_list_def)
qed

text \<open>How a prefill that got past its checks ends.\<close>

lemma Prefill_cases:
  assumes "Prefill env body k = Some (res, k')"
  obtains (stopped) es where "pp_trace k' = pp_trace k @ es" "list_all plain es" "pp_routes k' = pp_routes k" "\<exists>e. res = Inl e"
  | (ran) k1 rt ids slot r k2 es0 es where "prefill_gate env body k = (Inr (rt, ids), k1)" "routeFor env body k = Inr rt"
    "prefill_run env rt (state_name env body (pe_now env (pp_trace k1))) slot ids body (k1\<lparr>pp_rooms := r\<rparr>) = (res, k2)"
    "pp_trace k1 = pp_trace k @ es0" "list_all plain es0" "pp_routes k1 = pp_routes k"
    "pp_trace k' = pp_trace k2 @ es" "list_all plain es" "pp_routes k' = pp_routes k2" "pp_pend k' = pp_pend k2" "pp_jan k' = pp_jan k2"
proof -
  obtain g k1 where p1: "prefill_gate env body k = (g, k1)" by fastforce
  note gate = prefill_gate_calm[OF p1]
  from gate obtain es0 where e0: "pp_trace k1 = pp_trace k @ es0" "list_all plain es0" "pp_routes k1 = pp_routes k" by (blast elim: calmly_parts)
  show thesis
  proof (cases g)
    case (Inl e)
    then have "k' = k1" "\<exists>e. res = Inl e" using assms p1 by (auto simp: Prefill_def)
    then show thesis using stopped[of es0] e0 by simp
  next
    case (Inr ri)
    obtain rt ids where ri: "ri = (rt, ids)" by fastforce
    obtain got r where acq: "acquireSlot (pe_now env (pp_trace k1)) (rt_prefillURL rt) (int (length ids)) (pe_looks env (pp_trace k1)) (pp_rooms k1) = Some (got, r)"
      using assms p1 Inr ri by (fastforce simp: Prefill_def Let_def split: option.splits)
    show thesis
    proof (cases got)
      case None
      then have "k' = k1\<lparr>pp_rooms := r\<rparr>" "\<exists>e. res = Inl e" using assms p1 Inr ri acq by (auto simp: Prefill_def Let_def)
      then show thesis using stopped[of es0] e0 by simp
    next
      case (Some slot)
      obtain res2 k2 where p2: "prefill_run env rt (state_name env body (pe_now env (pp_trace k1))) slot ids body (k1\<lparr>pp_rooms := r\<rparr>) = (res2, k2)" by fastforce
      obtain a k3 where p3: "postJSON env (slot_url (rt_prefillURL rt) (decimal slot) @ ''?action=erase'') [] k2 = (a, k3)" by fastforce
      have out: "res = res2" "\<exists>q. k' = k3\<lparr>pp_rooms := q\<rparr>"
        using assms p1 Inr ri acq Some p2 p3 by (auto simp: Prefill_def Let_def)
      have "quietly k2 k3" by (rule quietly_post[OF p3]) simp
      from quietly_parts[OF this] obtain es where "pp_trace k3 = pp_trace k2 @ es" "list_all plain es" "pp_routes k3 = pp_routes k2"
        "pp_pend k3 = pp_pend k2" "pp_jan k3 = pp_jan k2" by blast
      then show thesis using ran[of rt ids k1 slot r k2 es0 es] p1 Inr ri gate p2 out e0 by auto
    qed
  qed
qed


lemma prefillWaitFor_cap: "prefillWaitFor n \<le> prefillWaitCap"
  by (simp add: prefillWaitFor_def prefillWaitFloor_def prefillWaitCap_def Let_def)


section \<open>Properties\<close>

text \<open>
  C12. The life of a prefilled state. Whatever the engines answer, a state is written down for the janitor, with both nodes
  it may lie on, before the only call that can create it; when the prefill then fails, a purge of that state is started
  and nothing else is left behind; when it succeeds no purge is, the id handed_off out is a valid state name, and the route
  and the size the handoff will need are recorded under it. A prefill that stops earlier saves nothing.
\<close>

theorem Prefill_lifecycle:
  assumes "Prefill env body k = Some (res, k')" "\<And>x. length (pe_sha env x) = 32" "\<And>tr. 0 \<le> pe_now env tr \<and> pe_now env tr < 10 ^ 18"
  shows "\<exists>es. pp_trace k' = pp_trace k @ es \<and>
    (case res of
       Inl e \<Rightarrow> pp_routes k' = pp_routes k \<and>
         (list_all plain es \<or>
          (\<exists>name pre mid post. es = pre @ EvTrack name # mid @ EvPurge name # post \<and> list_all plain (pre @ post) \<and>
             (\<forall>x\<in>set mid. \<exists>u. x = EvPost u [(''filename'', Str name)])))
     | Inr out \<Rightarrow>
         \<exists>name rt n pre u post p. es = pre @ [EvTrack name, EvPost u [(''filename'', Str name)]] @ post \<and> list_all plain (pre @ post) \<and>
           field out ''handoff_id'' = Str name \<and> validStateName name \<and> routeFor env body k = Inr rt \<and>
           routeOf name k' = Some rt \<and> 2 \<le> n \<and> map_of (pp_pend k') name = Some n \<and>
           map_of (k_gc (pp_jan k')) name = Some p \<and> set (Ctls p) = {rt_prefillCtl rt, rt_decodeCtl rt} - {[]})"
  using assms(1)
proof (cases rule: Prefill_cases)
  case (stopped es)
  then show ?thesis by auto
next
  case (ran k1 rt ids slot r k2 es0 es)
  define name where "name = state_name env body (pe_now env (pp_trace k1))"
  have valid: "validStateName name" unfolding name_def using assms(2,3) by (intro state_name_valid) auto
  have two: "2 \<le> int (length ids)" using prefill_gate_calm[OF ran(1)] by simp
  note run = prefill_run_parts[OF ran(3), folded name_def, THEN conjunct2]
  show ?thesis
  proof (cases res)
    case (Inl e)
    from run obtain es1 where e1: "pp_trace k2 = pp_trace k1 @ es1" "pp_routes k2 = pp_routes k1"
      "list_all plain es1 \<or> (\<exists>pre mid u. list_all plain pre \<and> set mid \<subseteq> {EvPost u [(''filename'', Str name)]} \<and> es1 = pre @ EvTrack name # mid @ [EvPurge name])"
      unfolding Inl by auto
    show ?thesis
    proof (cases "list_all plain es1")
      case True
      then show ?thesis using ran e1(1,2) Inl by simp
    next
      case False
      then obtain pre mid u where m: "list_all plain pre" "set mid \<subseteq> {EvPost u [(''filename'', Str name)]}" "es1 = pre @ EvTrack name # mid @ [EvPurge name]"
        using e1(3) by blast
      have tr: "pp_trace k' = pp_trace k @ (es0 @ pre) @ EvTrack name # mid @ EvPurge name # es" using ran e1(1) m(3) by simp
      have pl: "list_all plain ((es0 @ pre) @ es)" "\<forall>x\<in>set mid. \<exists>u. x = EvPost u [(''filename'', Str name)]" using ran m(1,2) by auto
      have "pp_routes k' = pp_routes k" using ran e1(2) by simp
      then show ?thesis unfolding Inl sum.case using tr pl by blast
    qed
  next
    case (Inr out)
    define save where "save = EvPost (slot_url (rt_prefillURL rt) (decimal slot) @ ''?action=save'') [(''filename'', Str name)]"
    from run obtain pre p where e1: "pp_trace k2 = pp_trace k1 @ pre @ [EvTrack name, save]" "list_all plain pre" "field out ''handoff_id'' = Str name"
      "map_of (k_gc (pp_jan k2)) name = Some p" "Ctls p = ctl_list [rt_prefillCtl rt, rt_decodeCtl rt]"
      and rts: "pp_routes k2 = AList.update name rt (if 64 < length (pp_routes k1) then [] else pp_routes k1)"
      and pn: "map_of (pp_pend k2) name = Some (int (length ids))"
      unfolding Inr save_def sum.case by (elim exE conjE) simp
    have rn: "routeOf name k2 = Some rt" unfolding routeOf_def rts by (simp add: update_conv)
    have tr: "pp_trace k' = pp_trace k @ (es0 @ pre) @ [EvTrack name, save] @ es" using ran e1 by simp
    have "list_all plain ((es0 @ pre) @ es)" "set (Ctls p) = {rt_prefillCtl rt, rt_decodeCtl rt} - {[]}" "routeOf name k' = Some rt"
      "map_of (pp_pend k') name = Some (int (length ids))" "map_of (k_gc (pp_jan k')) name = Some p"
      using ran e1 rn pn by (simp_all add: set_ctl_list routeOf_def)
    then show ?thesis unfolding Inr using tr e1(3) valid ran(2) two
      by (intro exI[of _ "(es0 @ pre) @ [EvTrack name, save] @ es"] conjI) (simp, simp only: sum.case save_def, blast)
  qed
qed

text \<open>A run on two nodes that answer everything: engines at \<open>p\<close> and \<open>d\<close>, agents at \<open>pc\<close> and \<open>dc\<close>.\<close>

definition demo_post :: "pev list \<Rightarrow> string \<Rightarrow> Body \<Rightarrow> (string, nat \<times> string) result" where
  "demo_post tr url body = Inr (200, if url = ''p/apply-template'' then ''tpl'' else if url = ''p/tokenize'' then ''tok'' else [])"

definition demo_unmarshal :: "string \<Rightarrow> (string, Body) result" where
  "demo_unmarshal data =
     (if data = ''tpl'' then Inr [(''prompt'', Str ''hi'')]
      else if data = ''tok'' then Inr [(''tokens'', Arr [Flt 1, Flt 2, Flt 3])]
      else Inr [])"

definition demo_look :: look where
  "demo_look = \<lparr>lk_now = 100000, lk_slots = None, lk_others = (\<lambda>r. r)\<rparr>"

definition demo_penv :: penv where
  "demo_penv =
     \<lparr>pe_sha = (\<lambda>_. replicate 32 0), pe_marshal = (\<lambda>_. Some ''{}''), pe_unmarshal = demo_unmarshal, pe_slots = (\<lambda>_. Some ex_slots),
      pe_lower = (\<lambda>s. s), pe_post = demo_post, pe_get = (\<lambda>_ _. Inr (200, [])), pe_now = (\<lambda>_. 1000), pe_looks = (\<lambda>_. [demo_look]),
      pe_save = Saved, pe_resolve = None\<rparr>"

definition demo_kvpipe :: kvPipe where
  "demo_kvpipe = newKVPipe ''p'' ''d'' ''pc'' ''dc''"

definition handed_off :: "((call_error, Body) result \<times> kvPipe) option \<Rightarrow> bool" where
  "handed_off r = (case r of Some (Inr out, k) \<Rightarrow> field out ''handoff_id'' = Str ''sf-000000000000-1000.bin'' | _ \<Rightarrow> False)"

lemma demo_prefill: "handed_off (Prefill demo_penv [] demo_kvpipe)"
  by code_simp

lemma handed_offE:
  assumes "handed_off r"
  obtains out k where "r = Some (Inr out, k)" "field out ''handoff_id'' = Str ''sf-000000000000-1000.bin''"
  using assms by (auto simp: handed_off_def split: option.splits sum.splits)

theorem Prefill_lifecycle_witness:
  "\<exists>out k'. Prefill demo_penv [] demo_kvpipe = Some (Inr out, k') \<and> routeOf ''sf-000000000000-1000.bin'' k' \<noteq> None"
proof -
  from demo_prefill obtain out k' where r: "Prefill demo_penv [] demo_kvpipe = Some (Inr out, k')"
    "field out ''handoff_id'' = Str ''sf-000000000000-1000.bin''" by (rule handed_offE)
  have "length (pe_sha demo_penv x) = 32" "0 \<le> pe_now demo_penv tr \<and> pe_now demo_penv tr < 10 ^ 18" for x tr by (simp_all add: demo_penv_def)
  from Prefill_lifecycle[OF r(1) this] r show ?thesis by auto
qed


text \<open>
  The prefill slot comes back. However a prefill ends, and while no other request acts, every engine has the free
  slots, the reserved tokens and the budget it had before; and a prefill ends, with an answer, as soon as the wait for a
  slot has a look past the cap of the wait.
\<close>

theorem Prefill_returns_slot:
  assumes "alone env" "\<forall>e. 0 \<le> ep_inflight (fst (poolOf e (pp_rooms k)))"
    and "\<And>tr. \<exists>l\<in>set (pe_looks env tr). lk_now l > pe_now env tr + prefillWaitCap"
  shows "\<exists>res k'. Prefill env body k = Some (res, k') \<and>
    (\<forall>e. pool_same (fst (poolOf e (pp_rooms k'))) (fst (poolOf e (pp_rooms k))))"
proof -
  have "\<exists>res k'. Prefill env body k = Some (res, k')"
  proof -
    obtain g k1 where p1: "prefill_gate env body k = (g, k1)" by fastforce
    show ?thesis
    proof (cases g)
      case (Inr ri)
      obtain rt ids where ri: "ri = (rt, ids)" by fastforce
      obtain l where "l \<in> set (pe_looks env (pp_trace k1))" "lk_now l > pe_now env (pp_trace k1) + prefillWaitCap" using assms(3) by blast
      then have "\<exists>l\<in>set (pe_looks env (pp_trace k1)). lk_now l > pe_now env (pp_trace k1) + prefillWaitFor (int (length ids))"
        using prefillWaitFor_cap[of "int (length ids)"] by (intro bexI[of _ l]) linarith
      from acquire_answers[OF this] obtain got r where
        "acquireSlot (pe_now env (pp_trace k1)) (rt_prefillURL rt) (int (length ids)) (pe_looks env (pp_trace k1)) (pp_rooms k1) = Some (got, r)"
        by fastforce
      then show ?thesis using p1 Inr ri by (cases got) (auto simp: Prefill_def Let_def split: prod.split)
    qed (use p1 in \<open>simp add: Prefill_def\<close>)
  qed
  then show ?thesis using prefill_slot_back[OF _ assms(1,2)] by blast
qed

theorem Prefill_returns_slot_witness:
  "\<exists>res k'. Prefill demo_penv [] demo_kvpipe = Some (res, k') \<and> mset (ep_free (fst (poolOf ''p'' (pp_rooms k')))) = mset [0..<4]"
proof -
  have a: "alone demo_penv" by (simp add: alone_def demo_penv_def demo_look_def)
  have z: "fst (poolOf e (pp_rooms demo_kvpipe)) = new_pool" for e by (simp add: poolOf_def demo_kvpipe_def newKVPipe_def)
  then have i: "\<forall>e. 0 \<le> ep_inflight (fst (poolOf e (pp_rooms demo_kvpipe)))" by (simp add: new_pool_def)
  have l: "\<exists>l\<in>set (pe_looks demo_penv tr). lk_now l > pe_now demo_penv tr + prefillWaitCap" for tr
    by (simp add: demo_penv_def demo_look_def prefillWaitCap_def)
  from Prefill_returns_slot[OF a i l] obtain res k' where "Prefill demo_penv [] demo_kvpipe = Some (res, k')"
    "pool_same (fst (poolOf ''p'' (pp_rooms k'))) new_pool" unfolding z by blast
  then show ?thesis by (auto simp: pool_same_def new_pool_def prefillSlots_def)
qed


section \<open>The stages of a handoff\<close>

lemma fetch_dft_parts:
  assumes "fetch_dft env rt hid out k = (out', k')"
  obtains es where "pp_trace k' = pp_trace k @ es" "list_all plain es" "pp_routes k' = pp_routes k" "pp_rooms k' = pp_rooms k" "pp_pend k' = pp_pend k"
proof -
  obtain b k1 where p1: "take_inline hid k = (b, k1)" by fastforce
  have k1: "pp_trace k1 = pp_trace k" "pp_routes k1 = pp_routes k" "pp_rooms k1 = pp_rooms k" "pp_pend k1 = pp_pend k"
    using p1 by (auto simp: take_inline_def)
  obtain a k2 where p2: "postJSON env (rt_decodeCtl rt @ ''/control/kv-fetch'')
       [(''url'', Str (rt_prefillCtl rt @ ''/kv/'' @ hid @ ''.dft'')), (''name'', Str (hid @ ''.dft''))] k1 = (a, k2)" by fastforce
  have "quietly k1 k2" by (rule quietly_post[OF p2]) simp
  moreover have "k' = k1 \<or> k' = k2" using assms p1 p2 by (auto simp: fetch_dft_def Let_def split: if_splits sum.splits)
  ultimately have "quietly k1 k'" using quietly_same by blast
  then show thesis using that k1 by (auto elim!: quietly_parts)
qed

text \<open>
  What the engine answers to a reading of its slots after the calls \<open>tr\<close>; and how the slot a state is restored into was prepared by the calls \<open>pre\<close> made after \<open>tr\<close>: they end in
  two readings and the erases. When the second reading was answered, the slot is one that it shows idle, and it and only idle ones were told to erase themselves; when it was not,
  nothing was erased and the slot is the one that the first reading gave.
\<close>

definition slots_read :: "penv \<Rightarrow> pev list \<Rightarrow> string \<Rightarrow> slot_row list option" where
  "slots_read env tr base =
     (case pe_get env tr (base @ ''/slots'') of Inl e \<Rightarrow> None | Inr (status, data) \<Rightarrow> if status \<noteq> 200 then None else pe_slots env data)"

definition cleared :: "penv \<Rightarrow> pev list \<Rightarrow> string \<Rightarrow> string \<Rightarrow> string \<Rightarrow> pev list \<Rightarrow> bool" where
  "cleared env tr url slot s pre \<longleftrightarrow>
     (\<exists>es calls. pre = es @ EvGet (url @ ''/slots'') # EvGet (url @ ''/slots'') # map (\<lambda>sid. EvPost (erase_url url sid) []) calls \<and>
        (case slots_read env (tr @ es @ [EvGet (url @ ''/slots'')]) url of
           Some ss \<Rightarrow> s \<in> fst ` set (idle_rows ss) \<and> s \<in> set calls \<and> set calls \<subseteq> fst ` set (idle_rows ss)
         | None \<Rightarrow> calls = [] \<and> s = pickIdleSlot (slots_read env (tr @ es) url) slot))"

lemma cleared_more:
  assumes "cleared env (tr @ b) url slot s pre"
  shows "cleared env tr url slot s (b @ pre)"
proof -
  from assms obtain es calls where e: "pre = es @ EvGet (url @ ''/slots'') # EvGet (url @ ''/slots'') # map (\<lambda>sid. EvPost (erase_url url sid) []) calls"
    "case slots_read env (tr @ b @ es @ [EvGet (url @ ''/slots'')]) url of
       Some ss \<Rightarrow> s \<in> fst ` set (idle_rows ss) \<and> s \<in> set calls \<and> set calls \<subseteq> fst ` set (idle_rows ss)
     | None \<Rightarrow> calls = [] \<and> s = pickIdleSlot (slots_read env (tr @ b @ es) url) slot"
    unfolding cleared_def append_assoc by blast
  then show ?thesis unfolding cleared_def by (intro exI[of _ "b @ es"] exI[of _ calls]) simp
qed

lemma slotsAt_reads: "slotsAt env url k = (slots_read env (pp_trace k) url, log_ev (EvGet (url @ ''/slots'')) k)"
  by (simp add: slotsAt_def slots_read_def Let_def split: sum.split prod.split)

lemma makeDecodeRoom_outcome:
  assumes "makeDecodeRoom er slots url need want r = ((res, ri, calls), r')"
  shows "(\<forall>e. res = Inl e \<longrightarrow> (\<exists>m. e = Skip m)) \<and> (\<forall>s. res = Inr s \<longrightarrow>
     (case slots of Some ss \<Rightarrow> s \<in> fst ` set (idle_rows ss) \<and> s \<in> set calls \<and> set calls \<subseteq> fst ` set (idle_rows ss) | None \<Rightarrow> calls = [] \<and> s = want))"
proof (cases slots)
  case None
  then show ?thesis using assms by (auto simp: makeDecodeRoom_def Let_def)
next
  case (Some ss)
  show ?thesis
  proof (cases "idle_rows ss = []")
    case True
    then show ?thesis using assms Some by (auto simp: makeDecodeRoom_def Let_def split: prod.splits)
  next
    case False
    from makeDecodeRoom_run[OF assms[unfolded Some] False] show ?thesis unfolding Some option.case by metis
  qed
qed

lemma decode_room_for_parts:
  assumes "decode_room_for env url need slot k = ((res, ri), k')" "pe_marshal env (Obj []) \<noteq> None"
  obtains es where "pp_trace k' = pp_trace k @ es" "list_all plain es" "pp_routes k' = pp_routes k" "pp_pend k' = pp_pend k"
    "\<And>e. res = Inl e \<Longrightarrow> \<exists>m. e = Skip m" "\<And>s. res = Inr s \<Longrightarrow> cleared env (pp_trace k) url slot s es"
proof -
  define g where "g = EvGet (url @ ''/slots'')"
  define k2 where "k2 = log_ev g (log_ev g k)"
  define s1 where "s1 = slots_read env (pp_trace k) url"
  define s2 where "s2 = slots_read env (pp_trace k @ [g]) url"
  define er where "er = (\<lambda>sid. pe_marshal env (Obj []) \<noteq> None \<and> (case post_answer env (pp_trace k2) (erase_url url sid) [] of Inr _ \<Rightarrow> True | Inl _ \<Rightarrow> False))"
  obtain res2 ri2 calls r where p3: "makeDecodeRoom er s2 url need (pickIdleSlot s1 slot) (pp_rooms k2) = ((res2, ri2, calls), r)"
    by (metis prod_cases3 surj_pair)
  have t1: "pp_trace (log_ev g k) = pp_trace k @ [g]" by (simp add: log_ev_def)
  have "((res, ri), k') = ((res2, ri2), k2\<lparr>pp_rooms := r, pp_trace := pp_trace k2 @ map (\<lambda>sid. EvPost (erase_url url sid) []) calls\<rparr>)"
    using assms p3 unfolding decode_room_for_def er_def slotsAt_reads g_def[symmetric] Let_def prod.case s1_def[symmetric] t1 s2_def[symmetric] k2_def[symmetric]
    by (simp add: Let_def)
  then have k': "res = res2" "pp_trace k' = pp_trace k2 @ map (\<lambda>sid. EvPost (erase_url url sid) []) calls" "pp_routes k' = pp_routes k2" "pp_pend k' = pp_pend k2"
    by auto
  have k2: "pp_trace k2 = pp_trace k @ [g, g]" "pp_routes k2 = pp_routes k" "pp_pend k2 = pp_pend k" by (simp_all add: k2_def log_ev_def)
  note mo = makeDecodeRoom_outcome[OF p3]
  show thesis
  proof (rule that[of "[g, g] @ map (\<lambda>sid. EvPost (erase_url url sid) []) calls"])
    show "cleared env (pp_trace k) url slot s ([g, g] @ map (\<lambda>sid. EvPost (erase_url url sid) []) calls)" if "res = Inr s" for s
      unfolding cleared_def using mo k'(1) that
      by (intro exI[of _ "[]"] exI[of _ calls]) (auto simp: g_def[symmetric] s1_def[symmetric] s2_def[symmetric] split: option.splits)
  qed (use k' k2 mo in \<open>auto simp: plain_def list_all_iff g_def\<close>)
qed

lemma restore_parts:
  assumes "restore env rt hid slot out k = (res, k')" "\<And>v. pe_marshal env v \<noteq> None"
  defines "url \<equiv> slot_url (rt_decodeURL rt) slot @ ''?action=restore''"
  shows "pp_trace k' = pp_trace k @ [EvPost url [(''filename'', Str hid)], EvPurge hid] \<and> pp_routes k' = pp_routes k \<and> pp_pend k' = pp_pend k \<and>
    (case post_answer env (pp_trace k) url [(''filename'', Str hid)] of
       Inr _ \<Rightarrow> \<exists>out. res = Inr out
     | Inl e \<Rightarrow> if engineOutOfRoom env e then (\<exists>m. res = Inl (Skip m)) else (\<exists>m. res = Inl (Failed m)))"
proof -
  obtain w where w: "pe_marshal env (Obj [(''filename'', Str hid)]) = Some w" using assms(2) by blast
  show ?thesis using assms(1) w unfolding restore_def url_def postJSON_def
    by (auto simp: Let_def log_ev_def cleanup_def split: sum.splits)
qed

text \<open>A handoff whose fetch succeeded, up to the room made for it.\<close>

lemma Handoff_room:
  assumes "Handoff env hid slot k = (res, k')" "\<And>v. pe_marshal env v \<noteq> None" "validStateName hid"
  defines "rt \<equiv> (case routeOf hid k of Some rt \<Rightarrow> rt | None \<Rightarrow> defaultRoute k)"
  defines "furl \<equiv> rt_decodeCtl rt @ ''/control/kv-fetch''"
    and "fbody \<equiv> [(''url'', Str (rt_prefillCtl rt @ ''/kv/'' @ hid)), (''name'', Str hid)]"
  assumes "post_answer env (pp_trace k) furl fbody = Inr ft"
  obtains pre rr ri out k4 where "pp_trace k4 = pp_trace k @ EvPost furl fbody # pre" "list_all plain pre" "map_of (pp_pend k4) hid = None"
    "\<And>e. rr = Inl e \<Longrightarrow> \<exists>m. e = Skip m" "\<And>s. rr = Inr s \<Longrightarrow> cleared env (pp_trace k @ [EvPost furl fbody]) (rt_decodeURL rt) slot s pre"
    "(res, k') = (case rr of Inl e \<Rightarrow> (Inl e, cleanup hid k4) | Inr s \<Rightarrow> restore env rt hid s (put_room s ri out) k4)"
proof -
  define k1 where "k1 = log_ev (EvPost furl fbody) k"
  obtain w where "pe_marshal env (Obj fbody) = Some w" using assms(2) by blast
  then have p1: "postJSON env furl fbody k = (Inr ft, k1)" using assms(7) by (simp add: postJSON_def k1_def)
  have t1: "pp_trace k1 = pp_trace k @ [EvPost furl fbody]" by (simp add: k1_def log_ev_def)
  define out where "out = put_num ''fetch_bytes'' num_any (field ft ''bytes'') [(''fetch_ms'', msSince env (pe_now env (pp_trace k)) k1)]"
  obtain out2 k2 where p2: "fetch_dft env rt hid out k1 = (out2, k2)" by fastforce
  obtain need k3 where p3: "takePending hid k2 = (need, k3)" by fastforce
  obtain rr ri k4 where p4: "decode_room_for env (rt_decodeURL rt) need slot k3 = ((rr, ri), k4)" by (metis surj_pair)
  have run: "(res, k') = (case rr of Inl e \<Rightarrow> (Inl e, cleanup hid k4) | Inr s \<Rightarrow> restore env rt hid s (put_room s ri out2) k4)"
    using assms(1,3) p1 p2 p3 p4 unfolding Handoff_def Let_def rt_def[symmetric] furl_def[symmetric] fbody_def[symmetric] out_def
    by (simp split: sum.splits)
  from fetch_dft_parts[OF p2] obtain e2 where e2: "pp_trace k2 = pp_trace k1 @ e2" "list_all plain e2" by metis
  have k3: "pp_trace k3 = pp_trace k2" "map_of (pp_pend k3) hid = None" using p3 by (auto simp: takePending_def delete_conv)
  from decode_room_for_parts[OF p4 assms(2)] obtain e4 where e4: "pp_trace k4 = pp_trace k3 @ e4" "list_all plain e4" "pp_pend k4 = pp_pend k3"
    "\<And>e. rr = Inl e \<Longrightarrow> \<exists>m. e = Skip m" "\<And>s. rr = Inr s \<Longrightarrow> cleared env (pp_trace k3) (rt_decodeURL rt) slot s e4" by metis
  have cl: "cleared env (pp_trace k @ [EvPost furl fbody]) (rt_decodeURL rt) slot s (e2 @ e4)" if "rr = Inr s" for s
    by (rule cleared_more) (use e4(5)[OF that] k3(1) e2(1) t1 in simp)
  show thesis using that[of k4 "e2 @ e4" rr ri out2] t1 e2 k3 e4 cl run by simp
qed

text \<open>
  C24. The life of a handoff. An id that is no state name is refused and nothing is sent. Otherwise the state is first
  fetched to the decode node over the recorded route. It is restored only when that fetch succeeded, and the calls just before are the readings of the slots of the
  decode and erases: the slot is one the engine, when it answered the last reading, showed idle, and it was told to erase itself since (an engine that could not be read is told nothing, and the slot is the one asked for,
  or an idle one of the reading before). On every path, after the last call, exactly one purge of the state is
  started. The request is refused with an error that opens the breaker only when the fetch or the restore failed; an engine
  without room, found before the restore or by it, is a clean skip.
\<close>

theorem Handoff_lifecycle:
  assumes "Handoff env hid slot k = (res, k')" "\<And>v. pe_marshal env v \<noteq> None"
  defines "rt \<equiv> (case routeOf hid k of Some rt \<Rightarrow> rt | None \<Rightarrow> defaultRoute k)"
  defines "furl \<equiv> rt_decodeCtl rt @ ''/control/kv-fetch''"
    and "fbody \<equiv> [(''url'', Str (rt_prefillCtl rt @ ''/kv/'' @ hid)), (''name'', Str hid)]"
  shows "if \<not> validStateName hid then k' = k \<and> (\<exists>m. res = Inl (Failed m))
    else \<exists>mid. pp_trace k' = pp_trace k @ EvPost furl fbody # mid @ [EvPurge hid] \<and>
      (case post_answer env (pp_trace k) furl fbody of
         Inl e \<Rightarrow> mid = [] \<and> (\<exists>m. res = Inl (Failed m))
       | Inr ft \<Rightarrow> map_of (pp_pend k') hid = None \<and>
           (list_all plain mid \<and> (\<exists>m. res = Inl (Skip m)) \<or>
            (\<exists>pre s url. mid = pre @ [EvPost url [(''filename'', Str hid)]] \<and> list_all plain pre \<and>
               url = slot_url (rt_decodeURL rt) s @ ''?action=restore'' \<and> cleared env (pp_trace k @ [EvPost furl fbody]) (rt_decodeURL rt) slot s pre \<and>
               (case post_answer env (pp_trace k @ EvPost furl fbody # pre) url [(''filename'', Str hid)] of
                  Inr _ \<Rightarrow> \<exists>out. res = Inr out
                | Inl e \<Rightarrow> if engineOutOfRoom env e then (\<exists>m. res = Inl (Skip m)) else (\<exists>m. res = Inl (Failed m))))))"
proof (cases "validStateName hid")
  case False
  then show ?thesis using assms(1) by (auto simp: Handoff_def)
next
  case True
  show ?thesis
  proof (cases "post_answer env (pp_trace k) furl fbody")
    case (Inl e)
    obtain w where "pe_marshal env (Obj fbody) = Some w" using assms(2) by blast
    then have "postJSON env furl fbody k = (Inl e, log_ev (EvPost furl fbody) k)" using Inl by (simp add: postJSON_def)
    then have "k' = cleanup hid (log_ev (EvPost furl fbody) k) \<and> (\<exists>m. res = Inl (Failed m))"
      using assms(1) True unfolding Handoff_def Let_def rt_def[symmetric] furl_def[symmetric] fbody_def[symmetric] by auto
    then show ?thesis using True Inl by (simp add: cleanup_def log_ev_def)
  next
    case (Inr ft)
    show ?thesis
    proof (rule Handoff_room[OF assms(1,2) True, folded rt_def, folded furl_def fbody_def, OF Inr])
      fix k4 pre rr ri out
      assume h: "pp_trace k4 = pp_trace k @ EvPost furl fbody # pre" "list_all plain pre" "map_of (pp_pend k4) hid = None"
        "\<And>e. rr = Inl e \<Longrightarrow> \<exists>m. e = Skip m" "\<And>s. rr = Inr s \<Longrightarrow> cleared env (pp_trace k @ [EvPost furl fbody]) (rt_decodeURL rt) slot s pre"
        "(res, k') = (case rr of Inl e \<Rightarrow> (Inl e, cleanup hid k4) | Inr s \<Rightarrow> restore env rt hid s (put_room s ri out) k4)"
      show ?thesis
      proof (cases rr)
        case (Inl e)
        from h(4)[OF Inl] obtain m where "e = Skip m" by blast
        then have r: "res = Inl (Skip m)" "k' = cleanup hid k4" using h(6) Inl by simp_all
        then show ?thesis using True Inr h(1-3) by (auto simp: cleanup_def log_ev_def)
      next
        case r2: (Inr s)
        define url where "url = slot_url (rt_decodeURL rt) s @ ''?action=restore''"
        have "restore env rt hid s (put_room s ri out) k4 = (res, k')" using h(6) r2 by simp
        note rp = restore_parts[OF this assms(2), folded url_def]
        then have tr: "pp_trace k' = pp_trace k @ EvPost furl fbody # (pre @ [EvPost url [(''filename'', Str hid)]]) @ [EvPurge hid]"
          and pd: "map_of (pp_pend k') hid = None" using h(1,3) by simp_all
        show ?thesis unfolding Inr sum.case using True tr pd h(2) h(5)[OF r2] rp[unfolded h(1)] url_def
          by (simp only: simp_thms if_False) blast
      qed
    qed
  qed
qed

lemma demo_handoff_answers: "pe_marshal demo_penv v \<noteq> None" "validStateName ''sf-000000000000-1000.bin''"
  by (simp add: demo_penv_def) code_simp

theorem Handoff_lifecycle_witness:
  "\<exists>mid. pp_trace (snd (Handoff demo_penv ''sf-000000000000-1000.bin'' ''2'' demo_kvpipe)) =
     EvPost ''dc/control/kv-fetch'' [(''url'', Str ''pc/kv/sf-000000000000-1000.bin''), (''name'', Str ''sf-000000000000-1000.bin'')] #
     mid @ [EvPurge ''sf-000000000000-1000.bin'']"
proof -
  obtain res k' where r: "Handoff demo_penv ''sf-000000000000-1000.bin'' ''2'' demo_kvpipe = (res, k')" by fastforce
  have d: "routeOf ''sf-000000000000-1000.bin'' demo_kvpipe = None" "pp_trace demo_kvpipe = []"
    "rt_decodeCtl (defaultRoute demo_kvpipe) = ''dc''" "rt_prefillCtl (defaultRoute demo_kvpipe) = ''pc''"
    by (simp_all add: routeOf_def demo_kvpipe_def newKVPipe_def defaultRoute_def trim_slash_def)
  show ?thesis using Handoff_lifecycle[OF r demo_handoff_answers(1)] demo_handoff_answers(2) by (auto simp: r d)
qed


section \<open>The token cache and the table of routes\<close>

lemma length_update_le: "length (AList.update k v xs) \<le> Suc (length xs)"
  by (induction xs) auto

lemma length_delete_le: "length (AList.delete k xs) \<le> length xs"
  unfolding AList.delete_eq by simp

lemma length_delete_less: "k \<in> fst ` set xs \<Longrightarrow> length (AList.delete k xs) < length xs"
proof -
  assume "k \<in> fst ` set xs"
  then obtain x where "x \<in> set xs" "fst x = k" by blast
  then show ?thesis unfolding AList.delete_eq by (intro length_filter_less[of x]) (auto split: prod.split)
qed

lemma evict_toks_le: "length (evict_toks now es toks) \<le> length toks"
proof (induction es arbitrary: toks)
  case (Cons e es)
  obtain key v where e: "e = (key, v)" by fastforce
  show ?case using Cons.IH[of "AList.delete key toks"] Cons.IH[of toks] length_delete_le[of key toks] by (auto simp: e)
qed simp

lemma store_toks_bound:
  assumes "length toks \<le> tokCacheCap"
  shows "length (store_toks now h ids toks) \<le> tokCacheCap"
proof (cases "length toks \<ge> tokCacheCap")
  case True
  then obtain key e rest where t: "toks = (key, e) # rest" by (cases toks) (auto simp: tokCacheCap_def)
  have "length (evict_toks now toks toks) \<le> length (AList.delete key toks)"
    using True evict_toks_le[of now rest "AList.delete key toks"] t by simp
  also have "\<dots> < length toks" by (rule length_delete_less) (simp add: t)
  finally show ?thesis using True assms length_update_le[of h "\<lparr>te_ids = ids, te_at = now\<rparr>" "evict_toks now toks toks"]
    by (simp add: store_toks_def Let_def)
next
  case False
  then show ?thesis using length_update_le[of h "\<lparr>te_ids = ids, te_at = now\<rparr>" toks] by (simp add: store_toks_def Let_def)
qed

lemma store_toks_hit: "cached_toks now h (store_toks now h ids toks) = Some ids"
  by (simp add: cached_toks_def store_toks_def Let_def update_conv tokCacheTTL_def)

lemma tokens_Inr_cases:
  assumes "tokens env body k = (Inr ids, k')"
  obtains (hit) "k' = k" "cached_toks (pe_now env (pp_trace k)) (bodyHash env body) (pp_toks k) = Some ids"
  | (fresh) k1 where "k' = k1\<lparr>pp_toks := store_toks (pe_now env (pp_trace k1)) (bodyHash env body) ids (pp_toks k1)\<rparr>" "pp_toks k1 = pp_toks k"
proof (cases "cached_toks (pe_now env (pp_trace k)) (bodyHash env body) (pp_toks k)")
  case (Some x)
  then show thesis using hit assms by (simp add: tokens_def Let_def)
next
  case None
  obtain a k1 where p1: "postJSON env (pp_prefillURL k @ ''/apply-template'') (templateBody body) k = (a, k1)" by fastforce
  obtain tpl where a: "a = Inr tpl" using assms None p1 by (cases a) (simp_all add: tokens_def Let_def)
  define prompt where "prompt = as_str (field tpl ''prompt'')"
  have tk: "tokenize env (bodyHash env body) prompt k1 = (Inr ids, k')"
    using assms None p1 a by (simp add: tokens_def Let_def prompt_def split: if_splits)
  obtain b k2 where p2: "postJSON env (pp_prefillURL k1 @ ''/tokenize'')
             [(''content'', Str prompt), (''add_special'', Bool True), (''with_pieces'', Bool False)] k1 = (b, k2)" by fastforce
  have post: "pp_toks y = pp_toks x" if "postJSON env u bd x = (c, y)" for u bd x c y
    using that by (auto simp: postJSON_def log_ev_def split: option.splits)
  have "k' = k2\<lparr>pp_toks := store_toks (pe_now env (pp_trace k2)) (bodyHash env body) ids (pp_toks k2)\<rparr>"
    using tk p2 by (auto simp: tokenize_def split: sum.splits option.splits list.splits)
  then show thesis using fresh post[OF p1] post[OF p2] by simp
qed

text \<open>
  The token cache. Once a prompt was tokenized, counting it or prefilling it at that instant asks the engine nothing and
  sees the same ids, also for a body that differs only in fields the template does not read; and the cache never
  holds more than its cap.
\<close>

theorem tokens_cached:
  assumes "tokens env body k = (Inr ids, k')" "templateBody body2 = templateBody body"
  shows "tokens env body2 k' = (Inr ids, k') \<and> Count env body2 k' = (Inr (int (length ids)), k') \<and>
    (length (pp_toks k) \<le> 64 \<longrightarrow> length (pp_toks k') \<le> 64)"
proof -
  have h: "bodyHash env body2 = bodyHash env body" using assms(2) by (simp add: bodyHash_def)
  have "cached_toks (pe_now env (pp_trace k')) (bodyHash env body) (pp_toks k') = Some ids \<and>
    (length (pp_toks k) \<le> 64 \<longrightarrow> length (pp_toks k') \<le> 64)"
    using assms(1)
  proof (cases rule: tokens_Inr_cases)
    case (fresh k1)
    then show ?thesis using store_toks_hit store_toks_bound[of "pp_toks k1", unfolded tokCacheCap_def] by simp
  qed simp
  then have "tokens env body2 k' = (Inr ids, k') \<and> (length (pp_toks k) \<le> 64 \<longrightarrow> length (pp_toks k') \<le> 64)"
    by (simp add: tokens_def Let_def h)
  then show ?thesis by (simp add: Count_def)
qed

lemma demo_tokens: "fst (tokens demo_penv [] demo_kvpipe) = Inr [1, 2, 3]"
  by code_simp

theorem tokens_cached_witness:
  "fst (Count demo_penv [(''temperature'', Flt 1)] (snd (tokens demo_penv [] demo_kvpipe))) = Inr 3"
proof -
  have t: "tokens demo_penv [] demo_kvpipe = (Inr [1, 2, 3], snd (tokens demo_penv [] demo_kvpipe))" using demo_tokens by (simp add: prod_eq_iff)
  have "templateBody [(''temperature'', Flt 1)] = templateBody []" by (simp add: templateBody_def templateFields_def)
  from tokens_cached[OF t this] show ?thesis by simp
qed

lemma Handoff_keeps_routes:
  assumes "\<And>v. pe_marshal env v \<noteq> None"
  shows "pp_routes (snd (Handoff env hid slot k)) = pp_routes k"
proof -
  have post: "pp_routes y = pp_routes x" if "postJSON env u b x = (c, y)" for u b x c y
    using that by (auto simp: postJSON_def log_ev_def split: option.splits)
  have dft: "pp_routes y = pp_routes x" if "fetch_dft env rt hid out x = (c, y)" for rt out x c y using fetch_dft_parts[OF that] by metis
  have room: "pp_routes y = pp_routes x" if "decode_room_for env u n s x = (c, y)" for u n s x c y
    using decode_room_for_parts[of env u n s x "fst c" "snd c" y] that assms by (metis prod.collapse)
  have rest: "pp_routes (snd (restore env rt hid s out x)) = pp_routes x" for rt s out x
    using restore_parts[OF surjective_pairing assms] by simp
  show ?thesis unfolding Handoff_def Let_def
    by (auto simp: takePending_def cleanup_def log_ev_def rest split: prod.split sum.split dest!: post dft room)
qed

text \<open>
  The table of routes forgets handoffs under way. A handoff never removes its own route, so the table fills with finished
  ones; and the first prefill that finds more than 64 of them empties it. A state that was saved and not yet
  handed_off off then has no route and no size: it is fetched from the configured prefill node wherever it was saved, no room is
  made for it, and its request is sent to the configured decode engine.
\<close>

theorem routes_forgotten:
  assumes "Prefill env body k = Some (Inr out, k')" "64 < length (pp_routes k)" "field out ''handoff_id'' \<noteq> Str hid"
    and "\<And>v. pe_marshal env v \<noteq> None"
  shows "routeOf hid k' = None \<and> fst (takePending hid k') = 0 \<and> DecodeURLFor hid k' = pp_decodeURL k' \<and>
    (\<forall>h slot. pp_routes (snd (Handoff env h slot k)) = pp_routes k)"
  using assms(1)
proof (cases rule: Prefill_cases)
  case (ran k1 rt ids slot r k2 es0 es)
  define name where "name = state_name env body (pe_now env (pp_trace k1))"
  have "64 < length (pp_routes (k1\<lparr>pp_rooms := r\<rparr>))" using assms(2) ran(6) by simp
  then have n: "field out ''handoff_id'' = Str name" "pp_routes k2 = [(name, rt)]" "pp_pend k2 = [(name, int (length ids))]"
    using prefill_run_parts[OF ran(3), folded name_def] by auto
  then have "name \<noteq> hid" using assms(3) by auto
  then show ?thesis using n ran Handoff_keeps_routes[OF assms(4)] by (simp add: routeOf_def takePending_def DecodeURLFor_def)
qed simp

definition full_kvpipe :: kvPipe where
  "full_kvpipe = demo_kvpipe\<lparr>pp_routes := map (\<lambda>i. (decimal i, defaultRoute demo_kvpipe)) [0..<65]\<rparr>"

lemma full_prefill: "handed_off (Prefill demo_penv [] full_kvpipe)"
  by code_simp

theorem routes_forgotten_witness:
  "routeOf ''7'' full_kvpipe \<noteq> None \<and> (\<exists>out k'. Prefill demo_penv [] full_kvpipe = Some (Inr out, k') \<and> routeOf ''7'' k' = None)"
proof -
  from full_prefill obtain out k' where r: "Prefill demo_penv [] full_kvpipe = Some (Inr out, k')"
    "field out ''handoff_id'' = Str ''sf-000000000000-1000.bin''" by (rule handed_offE)
  have l: "64 < length (pp_routes full_kvpipe)" by (simp add: full_kvpipe_def)
  have "routeOf ''7'' full_kvpipe \<noteq> None" by code_simp
  then show ?thesis using routes_forgotten[OF r(1) l, of "''7''"] r demo_handoff_answers(1) by simp
qed

end
