(* ===== verification/Gguf.thy ===== *)
theory Gguf
  imports Kv_State "HOL-Library.Signed_Division"
begin

text \<open>
  \<^verbatim>\<open>internal/gguf/gguf.go\<close>: the reader of GGUF headers. The reader's state is what is left of the file; the
  position is the length already consumed. \<open>cap\<close> is the largest allocation, in bytes, the Go runtime grants, and
  \<open>Panics\<close> a panic of the program. \<^verbatim>\<open>int64\<close> is an integer with the wrap-around written out (\<open>wrap64\<close>). A metadata value of
  any integer type is \<open>GNum\<close>; floating-point values are kept as their bytes, since nothing reads them.
\<close>

datatype gguf_error =
    OpenFails | NotGGUF | TruncatedHeader | BadVersion nat | TruncatedMeta | MetaError string gguf_error | Eof
  | UnknownType nat | TruncatedInfos | NoTensors | StatFails | NonMonotonic string | AbsFails | MissingShard string
  | NoArchitecture | NoBlockCount | NoHeadDim | NoHeadCount | Panics | NoFuel

datatype gval = GNum int | GFlt bytes | GBool bool | GStr string | GArr "gval list"

type_synonym 'a reader = "(bytes, gguf_error, 'a) action"

definition maxStoredArray :: nat where "maxStoredArray = 32"

record tensorRef =
  tr_name :: string
  tr_rel :: nat

record header =
  h_meta :: "(string \<times> gval) list"
  h_infos :: "tensorRef list"
  h_dataStart :: int


section \<open>Primitive readers\<close>

definition le_get :: "bytes \<Rightarrow> nat" where
  "le_get bs = be_get (rev bs)"

text \<open>\<^verbatim>\<open>io.ReadFull\<close>; \<open>e\<close> is the error the caller makes of a short read.\<close>

definition rd_bytes :: "gguf_error \<Rightarrow> nat \<Rightarrow> bytes reader" where
  "rd_bytes e n = (\<lambda>s. if n \<le> length s then (Inr (take n s), drop n s) else (Inl e, []))"

definition rd_uint :: "gguf_error \<Rightarrow> nat \<Rightarrow> nat reader" where
  "rd_uint e w = bind_action (rd_bytes e w) (\<lambda>b. return_action (le_get b))"

definition bytes_str :: "bytes \<Rightarrow> string" where
  "bytes_str bs = map (\<lambda>b. char_of (unat b)) bs"

text \<open>The buffer is allocated with the announced length before anything is read.\<close>

definition rdStr :: "nat \<Rightarrow> gguf_error \<Rightarrow> string reader" where
  "rdStr cap e =
     bind_action (rd_uint e 8) (\<lambda>n.
       if n > cap then throw_action Panics
       else bind_action (rd_bytes e n) (\<lambda>b. return_action (bytes_str b)))"

text \<open>Width and sign of the integer types.\<close>

definition int_type :: "nat \<Rightarrow> (nat \<times> bool) option" where
  "int_type t =
     (if t = 0 then Some (1, False) else if t = 1 then Some (1, True)
      else if t = 2 then Some (2, False) else if t = 3 then Some (2, True)
      else if t = 4 then Some (4, False) else if t = 5 then Some (4, True)
      else if t = 10 then Some (8, False) else if t = 11 then Some (8, True) else None)"

definition int_value :: "nat \<Rightarrow> bool \<Rightarrow> bytes \<Rightarrow> int" where
  "int_value w sg bs =
     (let v = int (le_get bs) in if sg \<and> v \<ge> 2 ^ (8 * w - 1) then v - 2 ^ (8 * w) else v)"

text \<open>The loop over the elements of an array: all are read, the first 32 are kept.\<close>

fun rd_elems :: "(gval \<times> nat) reader \<Rightarrow> nat \<Rightarrow> nat \<Rightarrow> gval list \<Rightarrow> gval list reader" where
  "rd_elems rd 0 i arr = return_action arr"
| "rd_elems rd (Suc n) i arr =
     bind_action rd (\<lambda>(v, _). rd_elems rd n (Suc i) (if i < maxStoredArray then arr @ [v] else arr))"

text \<open>
  \<^verbatim>\<open>rdVal\<close>. A short read of a scalar returns a nil interface, and the type assertion on it panics; a short read
  of a string or of an array head is an error.
\<close>

fun rdVal :: "nat \<Rightarrow> nat \<Rightarrow> nat \<Rightarrow> (gval \<times> nat) reader" where
  "rdVal cap 0 t = throw_action NoFuel"
| "rdVal cap (Suc fuel) t =
     (case int_type t of
        Some (w, sg) \<Rightarrow> bind_action (rd_bytes Panics w) (\<lambda>b. return_action (GNum (int_value w sg b), 1))
      | None \<Rightarrow>
          if t = 6 then bind_action (rd_bytes Panics 4) (\<lambda>b. return_action (GFlt b, 1))
          else if t = 12 then bind_action (rd_bytes Panics 8) (\<lambda>b. return_action (GFlt b, 1))
          else if t = 7 then bind_action (rd_bytes Panics 1) (\<lambda>b. return_action (GBool (b \<noteq> [0]), 1))
          else if t = 8 then bind_action (rdStr cap Eof) (\<lambda>s. return_action (GStr s, 1))
          else if t = 9 then
            bind_action (rd_uint Eof 4) (\<lambda>et.
              bind_action (rd_uint Eof 8) (\<lambda>n.
                if n \<ge> 2 ^ 63 then throw_action Panics
                else bind_action (rd_elems (rdVal cap fuel et) n 0 []) (\<lambda>arr. return_action (GArr arr, n))))
          else throw_action (UnknownType t))"


section \<open>The header\<close>

text \<open>The error of a value is reported under its key; a panic is not an error.\<close>

definition meta_error :: "string \<Rightarrow> 'a reader \<Rightarrow> 'a reader" where
  "meta_error key m = (\<lambda>s. case m s of (Inl e, s') \<Rightarrow> (Inl (if e \<in> {Panics, NoFuel} then e else MetaError key e), s') | r \<Rightarrow> r)"

fun rd_kvs :: "nat \<Rightarrow> nat \<Rightarrow> nat \<Rightarrow> (string \<times> gval) list \<Rightarrow> (string \<times> gval) list reader" where
  "rd_kvs cap fuel 0 meta = return_action meta"
| "rd_kvs cap fuel (Suc n) meta =
     bind_action (rdStr cap TruncatedMeta) (\<lambda>key.
       bind_action (rd_uint TruncatedMeta 4) (\<lambda>t.
         bind_action (meta_error key (rdVal cap fuel t)) (\<lambda>(v, len).
           rd_kvs cap fuel n (if len \<le> maxStoredArray then AList.update key v meta else meta))))"

text \<open>\<^verbatim>\<open>f.Seek\<close> forwards succeeds past the end of the file too; \<^verbatim>\<open>8*nDims\<close> is computed in 32 bits.\<close>

definition skip_bytes :: "nat \<Rightarrow> unit reader" where
  "skip_bytes n = (\<lambda>s. (Inr (), drop n s))"

fun rd_infos :: "nat \<Rightarrow> nat \<Rightarrow> tensorRef list \<Rightarrow> tensorRef list reader" where
  "rd_infos cap 0 infos = return_action infos"
| "rd_infos cap (Suc n) infos =
     bind_action (rdStr cap TruncatedInfos) (\<lambda>nm.
       bind_action (rd_uint TruncatedInfos 4) (\<lambda>nDims.
         bind_action (skip_bytes (8 * nDims mod 2 ^ 32 + 4)) (\<lambda>_.
           bind_action (rd_uint TruncatedInfos 8) (\<lambda>rel.
             rd_infos cap n (infos @ [\<lparr>tr_name = nm, tr_rel = rel\<rparr>])))))"

definition asInt :: "gval option \<Rightarrow> int \<Rightarrow> int" where
  "asInt v dflt = (case v of Some (GNum i) \<Rightarrow> wrap64 i | _ \<Rightarrow> dflt)"

definition align_up :: "int \<Rightarrow> int \<Rightarrow> (gguf_error, int) result" where
  "align_up pos al =
     (if al = 0 then Inl Panics else Inr (wrap64 (wrap64 (wrap64 (wrap64 (pos + al) - 1) sdiv al) * al)))"

definition magic_GGUF :: bytes where "magic_GGUF = [71, 71, 85, 70]"

text \<open>A tensor reference takes 24 bytes, and the slice is allocated for the announced number of them.\<close>

definition rd_header :: "nat \<Rightarrow> nat \<Rightarrow> ((string \<times> gval) list \<times> tensorRef list) reader" where
  "rd_header cap fuel =
     bind_action (rd_bytes NotGGUF 4) (\<lambda>m.
       if m \<noteq> magic_GGUF then throw_action NotGGUF
       else bind_action (rd_uint TruncatedHeader 4) (\<lambda>version.
         if version < 2 then throw_action (BadVersion version)
         else bind_action (rd_uint TruncatedHeader 8) (\<lambda>nTensors.
           bind_action (rd_uint TruncatedHeader 8) (\<lambda>nKV.
             bind_action (rd_kvs cap fuel nKV []) (\<lambda>meta.
               if 24 * nTensors > cap then throw_action Panics
               else bind_action (rd_infos cap nTensors []) (\<lambda>infos. return_action (meta, infos)))))))"

definition parseHeader :: "nat \<Rightarrow> bytes option \<Rightarrow> (gguf_error, header) result" where
  "parseHeader cap file =
     (case file of
        None \<Rightarrow> Inl OpenFails
      | Some f \<Rightarrow>
          (case rd_header cap (Suc (length f)) f of
             (Inl e, _) \<Rightarrow> Inl e
           | (Inr (meta, infos), rest) \<Rightarrow>
               bind_result (align_up (int (length f - length rest)) (asInt (map_of meta ''general.alignment'') 32)) (\<lambda>start.
                 Inr \<lparr>h_meta = meta, h_infos = infos, h_dataStart = start\<rparr>)))"

definition ReadMetadata :: "nat \<Rightarrow> bytes option \<Rightarrow> (gguf_error, (string \<times> gval) list) result" where
  "ReadMetadata cap file = bind_result (parseHeader cap file) (\<lambda>h. Inr (h_meta h))"


section \<open>The tensor table\<close>

record TensorInfo =
  ti_Name :: string
  ti_Offset :: int
  ti_NBytes :: int

fun table_rows :: "int \<Rightarrow> int \<Rightarrow> tensorRef list \<Rightarrow> (gguf_error, TensorInfo list) result" where
  "table_rows start sz [] = Inr []"
| "table_rows start sz (t # ts) =
     (let b = wrap64 (start + wrap64 (int (tr_rel t)));
          e = (case ts of [] \<Rightarrow> sz | u # _ \<Rightarrow> wrap64 (start + wrap64 (int (tr_rel u))))
      in if e \<le> b then Inl (NonMonotonic (tr_name t))
         else bind_result (table_rows start sz ts) (\<lambda>rows.
                Inr (\<lparr>ti_Name = tr_name t, ti_Offset = b, ti_NBytes = wrap64 (e - b)\<rparr> # rows)))"

text \<open>\<open>sz\<close> is what \<^verbatim>\<open>os.Stat\<close> reports, \<open>None\<close> when it fails.\<close>

definition TensorTable :: "nat \<Rightarrow> bytes option \<Rightarrow> int option \<Rightarrow> (gguf_error, TensorInfo list) result" where
  "TensorTable cap file sz =
     bind_result (parseHeader cap file) (\<lambda>h.
       if h_infos h = [] then Inl NoTensors
       else case sz of
              None \<Rightarrow> Inl StatFails
            | Some n \<Rightarrow> table_rows (h_dataStart h) n (sort_key tr_rel (h_infos h)))"


section \<open>Shards and the model description\<close>

definition is_digit :: "char \<Rightarrow> bool" where
  "is_digit c \<longleftrightarrow> 48 \<le> byte_of c \<and> byte_of c \<le> 57"

text \<open>\<^verbatim>\<open>shardRe\<close>: stem, shard number and number of shards of a base name.\<close>

definition shardRe :: "string \<Rightarrow> (string \<times> string \<times> string) option" where
  "shardRe base =
     (case strip_end ''.gguf'' base of
        None \<Rightarrow> None
      | Some t \<Rightarrow>
          let stem = take (length t - 15) t; tail = drop (length t - 15) t;
              a = take 5 (drop 1 tail); b = drop 10 tail
          in if length t \<ge> 15 \<and> take 1 tail = ''-'' \<and> take 4 (drop 6 tail) = ''-of-'' \<and> list_all is_digit (a @ b) \<and>
                CHR 0x0A \<notin> set stem
             then Some (stem, a, b) else None)"

definition path_base :: "string \<Rightarrow> string" where
  "path_base p =
     (if p = [] then ''.''
      else let q = rev (dropWhile (\<lambda>c. c = CHR ''/'') (rev p))
           in if q = [] then ''/'' else last (split_on CHR ''/'' q))"

definition path_abs :: "string \<Rightarrow> string \<Rightarrow> string" where
  "path_abs cwd p = (if is_rooted p then path_clean p else path_join cwd p)"

definition path_dir :: "string \<Rightarrow> string" where
  "path_dir p = path_clean (take (length p - length (last (split_on CHR ''/'' p))) p)"

definition digits_val :: "string \<Rightarrow> nat" where
  "digits_val ds = foldl (\<lambda>n c. n * 10 + (byte_of c - 48)) 0 ds"

definition pad5 :: "nat \<Rightarrow> string" where
  "pad5 i = (let d = decimal i in replicate (5 - length d) CHR ''0'' @ d)"

definition shard_path :: "string \<Rightarrow> string \<Rightarrow> string \<Rightarrow> nat \<Rightarrow> string" where
  "shard_path folder stem n i = path_join folder (stem @ ''-'' @ pad5 i @ ''-of-'' @ n @ ''.gguf'')"

fun sum_shards :: "(string \<Rightarrow> int option) \<Rightarrow> string list \<Rightarrow> int \<Rightarrow> (gguf_error, int) result" where
  "sum_shards stat [] tot = Inr tot"
| "sum_shards stat (p # ps) tot =
     (case stat p of None \<Rightarrow> Inl (MissingShard p) | Some n \<Rightarrow> sum_shards stat ps (wrap64 (tot + n)))"

text \<open>\<open>cwd\<close> is the working directory, \<open>None\<close> when it cannot be read.\<close>

definition weightsBytes :: "(string \<Rightarrow> int option) \<Rightarrow> string option \<Rightarrow> string \<Rightarrow> (gguf_error, int) result" where
  "weightsBytes stat cwd path =
     (case shardRe (path_base path) of
        None \<Rightarrow> (case stat path of None \<Rightarrow> Inl StatFails | Some n \<Rightarrow> Inr n)
      | Some (stem, _, n) \<Rightarrow>
          (case cwd of
             None \<Rightarrow> if is_rooted path then sum_shards stat (map (shard_path (path_dir (path_clean path)) stem n) [1..<Suc (digits_val n)]) 0
                     else Inl AbsFails
           | Some d \<Rightarrow> sum_shards stat (map (shard_path (path_dir (path_abs d path)) stem n) [1..<Suc (digits_val n)]) 0))"

record Spec =
  sp_Architecture :: string
  sp_NLayers :: int
  sp_WeightsGB :: float64
  sp_KVCacheGB :: float64
  sp_MaxContextTrained :: int

definition meta_get :: "(string \<times> gval) list \<Rightarrow> string \<Rightarrow> string \<Rightarrow> int option" where
  "meta_get meta arch key = map_option (\<lambda>v. asInt (Some v) 0) (map_of meta (arch @ ''.'' @ key))"

definition head_dim :: "(string \<times> gval) list \<Rightarrow> string \<Rightarrow> (gguf_error, int) result" where
  "head_dim meta arch =
     (case meta_get meta arch ''attention.key_length'' of
        Some v \<Rightarrow> Inr v
      | None \<Rightarrow>
          (case (meta_get meta arch ''embedding_length'', meta_get meta arch ''attention.head_count'') of
             (Some emb, Some heads) \<Rightarrow> if heads = 0 then Inl NoHeadDim else Inr (wrap64 (emb sdiv heads))
           | _ \<Rightarrow> Inl NoHeadDim))"

definition kv_heads :: "(string \<times> gval) list \<Rightarrow> string \<Rightarrow> (gguf_error, int) result" where
  "kv_heads meta arch =
     (let fallback = (case meta_get meta arch ''attention.head_count'' of Some v \<Rightarrow> Inr v | None \<Rightarrow> Inl NoHeadCount)
      in case meta_get meta arch ''attention.head_count_kv'' of
           Some v \<Rightarrow> if v = 0 then fallback else Inr v
         | None \<Rightarrow> fallback)"

text \<open>\<open>weights\<close> is what \<open>weightsBytes\<close> gives for the path.\<close>

definition ModelSpec_of :: "nat \<Rightarrow> bytes option \<Rightarrow> (gguf_error, int) result \<Rightarrow> int \<Rightarrow> int \<Rightarrow> (gguf_error, Spec) result" where
  "ModelSpec_of cap file weights maxContext kvBytes =
     bind_result (ReadMetadata cap file) (\<lambda>meta.
       let arch = (case map_of meta ''general.architecture'' of Some (GStr s) \<Rightarrow> s | _ \<Rightarrow> [])
       in if arch = [] then Inl NoArchitecture
          else case meta_get meta arch ''block_count'' of
                 None \<Rightarrow> Inl NoBlockCount
               | Some nLayers \<Rightarrow>
                   bind_result (head_dim meta arch) (\<lambda>headDim.
                     bind_result (kv_heads meta arch) (\<lambda>nKVHeads.
                       bind_result weights (\<lambda>wb.
                         Inr \<lparr>sp_Architecture = arch, sp_NLayers = nLayers, sp_WeightsGB = of_int wb / 10 ^ 9,
                           sp_KVCacheGB = of_int nLayers * 2 * of_int nKVHeads * of_int headDim * of_int kvBytes * of_int maxContext / 10 ^ 9,
                           sp_MaxContextTrained = (case meta_get meta arch ''context_length'' of Some v \<Rightarrow> v | None \<Rightarrow> 0)\<rparr>))))"


section \<open>Reading always ends\<close>

text \<open>A reader never lengthens what is left, and with more fuel than bytes left it never runs out of fuel.\<close>

definition shrinks :: "'a reader \<Rightarrow> bool" where
  "shrinks m \<longleftrightarrow> (\<forall>s. length (snd (m s)) \<le> length s)"

definition fuelled :: "nat \<Rightarrow> 'a reader \<Rightarrow> bool" where
  "fuelled n m \<longleftrightarrow> (\<forall>s. length s < n \<longrightarrow> fst (m s) \<noteq> Inl NoFuel)"

lemma shrinksD: "shrinks m \<Longrightarrow> m s = (r, s1) \<Longrightarrow> length s1 \<le> length s"
  unfolding shrinks_def by (metis snd_conv)

lemma shrinks_bind:
  assumes "shrinks m" "\<And>x. shrinks (k x)"
  shows "shrinks (bind_action m k)"
  unfolding shrinks_def
proof
  fix s
  obtain r s1 where m: "m s = (r, s1)" by fastforce
  show "length (snd (bind_action m k s)) \<le> length s"
  proof (cases r)
    case (Inr x)
    then show ?thesis
      using m shrinksD[OF assms(1) m] assms(2)[of x, unfolded shrinks_def, rule_format, of s1] by (simp add: bind_action_def)
  qed (use m shrinksD[OF assms(1) m] in \<open>simp add: bind_action_def\<close>)
qed

lemma fuelled_bind:
  assumes "fuelled n m" "shrinks m" "\<And>x. fuelled n (k x)"
  shows "fuelled n (bind_action m k)"
  unfolding fuelled_def
proof (intro allI impI)
  fix s :: bytes
  assume s: "length s < n"
  obtain r s1 where m: "m s = (r, s1)" by fastforce
  have "length s1 < n" using shrinksD[OF assms(2) m] s by simp
  then show "fst (bind_action m k s) \<noteq> Inl NoFuel"
    using m assms(1,3) s by (cases r) (auto simp: bind_action_def fuelled_def)
qed

lemma shrinks_basic: "shrinks (return_action x)" "shrinks (throw_action e)" "shrinks (rd_bytes e n)" "shrinks (skip_bytes n)"
  by (simp_all add: shrinks_def rd_bytes_def skip_bytes_def)

lemma fuelled_basic:
  "fuelled n (return_action x)" "e \<noteq> NoFuel \<Longrightarrow> fuelled n (throw_action e)" "e \<noteq> NoFuel \<Longrightarrow> fuelled n (rd_bytes e k)"
  "fuelled n (skip_bytes k)"
  by (simp_all add: fuelled_def rd_bytes_def skip_bytes_def)

lemma tame_uint: "shrinks (rd_uint e w)" "e \<noteq> NoFuel \<Longrightarrow> fuelled n (rd_uint e w)"
  unfolding rd_uint_def by (intro shrinks_bind fuelled_bind shrinks_basic fuelled_basic; assumption)+

lemma tame_str: "shrinks (rdStr cap e)" "e \<noteq> NoFuel \<Longrightarrow> fuelled n (rdStr cap e)"
  unfolding rdStr_def
  by (auto intro!: shrinks_bind fuelled_bind shrinks_basic fuelled_basic tame_uint split: if_splits)

lemma tame_elems: "shrinks rd \<Longrightarrow> shrinks (rd_elems rd n i arr)" "fuelled m rd \<Longrightarrow> shrinks rd \<Longrightarrow> fuelled m (rd_elems rd n i arr)"
  by (induction n arbitrary: i arr) (auto intro!: shrinks_bind fuelled_bind shrinks_basic fuelled_basic)

lemmas tame = shrinks_bind shrinks_basic tame_uint tame_str tame_elems fuelled_bind fuelled_basic

lemma shrinks_rdVal: "shrinks (rdVal cap fuel t)"
  by (induction fuel arbitrary: t) (auto intro!: tame split: option.splits prod.splits)


lemma rd_uint_consumes: "rd_uint e w s = (Inr x, s1) \<Longrightarrow> length s1 + w = length s \<and> w \<le> length s"
  by (auto simp: rd_uint_def bind_action_def rd_bytes_def split: if_splits)

lemma fuelled_head:
  assumes "e \<noteq> NoFuel" "1 \<le> w" "\<And>x. fuelled n (k x)"
  shows "fuelled (Suc n) (bind_action (rd_uint e w) k)"
  unfolding fuelled_def
proof (intro allI impI)
  fix s :: bytes
  assume s: "length s < Suc n"
  obtain r s1 where m: "rd_uint e w s = (r, s1)" by fastforce
  show "fst (bind_action (rd_uint e w) k s) \<noteq> Inl NoFuel"
  proof (cases r)
    case (Inl x)
    then show ?thesis using m tame_uint(2)[OF assms(1), of "Suc n" w] s by (auto simp: bind_action_def fuelled_def)
  next
    case (Inr x)
    then have "length s1 < n" using rd_uint_consumes[of e w s x s1] m s assms(2) by auto
    then show ?thesis using m Inr assms(3) by (auto simp: bind_action_def fuelled_def)
  qed
qed

lemma fuelled_less: "fuelled (Suc n) m \<Longrightarrow> fuelled n m"
  by (simp add: fuelled_def)

lemma fuelled_rdVal: "fuelled fuel (rdVal cap fuel t)"
proof (induction fuel arbitrary: t)
  case (Suc fuel)
  have arr: "fuelled (Suc fuel) (bind_action (rd_uint Eof 4) (\<lambda>et. bind_action (rd_uint Eof 8) (\<lambda>n.
      if n \<ge> 2 ^ 63 then throw_action Panics
      else bind_action (rd_elems (rdVal cap fuel et) n 0 []) (\<lambda>arr. return_action (GArr arr, n)))))"
    by (rule fuelled_head) (auto intro!: tame shrinks_rdVal Suc.IH)
  show ?case using arr by (auto intro!: tame split: option.splits prod.splits simp del: power_numeral)
qed (simp add: fuelled_def)

lemma tame_meta: "shrinks m \<Longrightarrow> shrinks (meta_error key m)" "fuelled n m \<Longrightarrow> fuelled n (meta_error key m)"
  unfolding shrinks_def fuelled_def meta_error_def
  by (metis (no_types, lifting) old.prod.case old.sum.simps(5) old.sum.simps(6) snd_conv surj_pair sum.exhaust)
    (auto split: prod.splits sum.splits)


lemma tame_kvs: "shrinks (rd_kvs cap fuel n meta)" "fuelled fuel (rd_kvs cap fuel n meta)"
  by (induction n arbitrary: meta) (auto intro!: tame tame_meta shrinks_rdVal fuelled_rdVal)

lemma tame_infos: "shrinks (rd_infos cap n infos)" "fuelled m (rd_infos cap n infos)"
  by (induction n arbitrary: infos) (auto intro!: tame)

lemma tame_header: "shrinks (rd_header cap fuel)" "fuelled fuel (rd_header cap fuel)"
  unfolding rd_header_def by (auto intro!: tame tame_kvs tame_infos)


section \<open>The format\<close>

text \<open>
  The layout of a header as the format defines it: typed values, their encoding and what a reader keeps of them.
  \<open>TNum t v\<close> is a value of integer type \<open>t\<close>, \<open>TFlt t b\<close> one of a floating-point type.
\<close>

datatype tval = TNum nat int | TFlt nat bytes | TBool bool | TStr string | TArr nat "tval list"

definition le_put :: "nat \<Rightarrow> nat \<Rightarrow> bytes" where
  "le_put w v = rev (be_put w v)"

definition enc_str :: "string \<Rightarrow> bytes" where
  "enc_str s = le_put 8 (length s) @ str_bytes s"

primrec tcode :: "tval \<Rightarrow> nat" where
  "tcode (TNum t v) = t"
| "tcode (TFlt t b) = t"
| "tcode (TBool b) = 7"
| "tcode (TStr s) = 8"
| "tcode (TArr et vs) = 9"

fun enc_val :: "tval \<Rightarrow> bytes" where
  "enc_val (TNum t v) = (case int_type t of Some (w, _) \<Rightarrow> le_put w (nat (v mod 2 ^ (8 * w))) | None \<Rightarrow> [])"
| "enc_val (TFlt t b) = b"
| "enc_val (TBool b) = [if b then 1 else 0]"
| "enc_val (TStr s) = enc_str s"
| "enc_val (TArr et vs) = le_put 4 et @ le_put 8 (length vs) @ concat (map enc_val vs)"

definition int_fits :: "nat \<Rightarrow> bool \<Rightarrow> int \<Rightarrow> bool" where
  "int_fits w sg v \<longleftrightarrow> (if sg then - (2 ^ (8 * w - 1)) \<le> v \<and> v < 2 ^ (8 * w - 1) else 0 \<le> v \<and> v < 2 ^ (8 * w))"

definition str_fits :: "nat \<Rightarrow> string \<Rightarrow> bool" where
  "str_fits cap s \<longleftrightarrow> length s \<le> cap \<and> length s < 2 ^ 64"

fun wf_val :: "nat \<Rightarrow> tval \<Rightarrow> bool" where
  "wf_val cap (TNum t v) = (case int_type t of Some (w, sg) \<Rightarrow> int_fits w sg v | None \<Rightarrow> False)"
| "wf_val cap (TFlt t b) = (t = 6 \<and> length b = 4 \<or> t = 12 \<and> length b = 8)"
| "wf_val cap (TBool b) = True"
| "wf_val cap (TStr s) = str_fits cap s"
| "wf_val cap (TArr et vs) = (et < 2 ^ 32 \<and> length vs < 2 ^ 63 \<and> list_all (\<lambda>v. tcode v = et \<and> wf_val cap v) vs)"

fun kept :: "tval \<Rightarrow> gval" where
  "kept (TNum t v) = GNum v"
| "kept (TFlt t b) = GFlt b"
| "kept (TBool b) = GBool b"
| "kept (TStr s) = GStr s"
| "kept (TArr et vs) = GArr (take 32 (map kept vs))"

definition val_len :: "tval \<Rightarrow> nat" where
  "val_len v = (case v of TArr et vs \<Rightarrow> length vs | _ \<Rightarrow> 1)"

definition reads :: "'a reader \<Rightarrow> bytes \<Rightarrow> 'a \<Rightarrow> bool" where
  "reads m bs x \<longleftrightarrow> (\<forall>rest. m (bs @ rest) = (Inr x, rest))"

lemma reads_bind: "reads m a x \<Longrightarrow> reads (k x) b y \<Longrightarrow> reads (bind_action m k) (a @ b) y"
  by (simp add: reads_def bind_action_def)

lemma reads_return: "reads (return_action x) [] x"
  by (simp add: reads_def)

lemma reads_bind_return: "reads m a x \<Longrightarrow> k x = return_action y \<Longrightarrow> reads (bind_action m k) a y"
  by (simp add: reads_def bind_action_def)

lemma reads_bytes: "n = length b \<Longrightarrow> reads (rd_bytes e n) b b"
  by (simp add: reads_def rd_bytes_def)

lemma length_le_put [simp]: "length (le_put w v) = w"
  by (simp add: le_put_def)

lemma le_get_put: "le_get (le_put w v) = v mod 2 ^ (8 * w)"
  by (simp add: le_get_def le_put_def be_get_be_put power_mult)

lemma reads_uint: "v < 2 ^ (8 * w) \<Longrightarrow> reads (rd_uint e w) (le_put w v) v"
  unfolding rd_uint_def by (rule reads_bind_return[OF reads_bytes]) (simp_all add: le_get_put)

lemma unat_of_char: "unat (of_char c :: byte) = of_char c"
proof -
  have "unat (of_char c :: byte) = unat (of_nat (of_char c) :: byte)" by (simp only: of_nat_of_char)
  then show ?thesis by (simp only: unat_of_nat_byte) simp
qed

lemma bytes_str_inv: "bytes_str (str_bytes s) = s"
  by (induction s) (simp_all add: bytes_str_def str_bytes_def unat_of_char)

lemma length_str_bytes [simp]: "length (str_bytes s) = length s"
  by (simp add: str_bytes_def)

lemma reads_str: "str_fits cap s \<Longrightarrow> reads (rdStr cap e) (enc_str s) s"
  unfolding rdStr_def enc_str_def str_fits_def
  by (rule reads_bind[OF reads_uint]) (auto intro!: reads_bind_return[OF reads_bytes] simp: bytes_str_inv)

text \<open>Two's complement at the width of the type.\<close>

lemma int_value_enc:
  assumes "int_fits w sg v" "0 < w"
  shows "int_value w sg (le_put w (nat (v mod 2 ^ (8 * w)))) = v"
proof -
  have pow: "(2 :: int) ^ (8 * w) = 2 * 2 ^ (8 * w - 1)" using assms(2) by (metis mult_pos_pos power_eq_if less_irrefl zero_less_numeral)
  have m: "int (le_get (le_put w (nat (v mod 2 ^ (8 * w))))) = v mod 2 ^ (8 * w)"
    by (simp add: le_get_put nat_mod_distrib zmod_int)
  show ?thesis
  proof (cases "0 \<le> v")
    case True
    then have "v mod 2 ^ (8 * w) = v" using assms(1) pow by (auto simp: int_fits_def split: if_splits)
    then show ?thesis using m assms(1) by (auto simp: int_value_def Let_def int_fits_def split: if_splits)
  next
    case False
    then have sg: "sg" "- (2 ^ (8 * w - 1)) \<le> v" using assms(1) by (auto simp: int_fits_def split: if_splits)
    have "v mod 2 ^ (8 * w) = v + 2 ^ (8 * w)"
    proof -
      have "(v + 2 ^ (8 * w)) mod 2 ^ (8 * w) = v + 2 ^ (8 * w)" by (rule mod_pos_pos_trivial) (use False sg(2) pow in auto)
      then show ?thesis by simp
    qed
    then show ?thesis using m sg pow by (simp add: int_value_def)
  qed
qed

lemma int_type_pos: "int_type t = Some (w, sg) \<Longrightarrow> 0 < w"
  by (auto simp: int_type_def split: if_splits)

lemma reads_elems:
  assumes "\<forall>v\<in>set vs. reads rd (enc_val v) (kept v, val_len v)"
  shows "reads (rd_elems rd (length vs) i arr) (concat (map enc_val vs)) (arr @ take (32 - i) (map kept vs))"
  using assms
proof (induction vs arbitrary: i arr)
  case (Cons v vs)
  define arr' where "arr' = (if i < maxStoredArray then arr @ [kept v] else arr)"
  have "arr @ take (32 - i) (map kept (v # vs)) = arr' @ take (32 - Suc i) (map kept vs)"
  proof (cases "i < 32")
    case True
    then have "32 - i = Suc (32 - Suc i)" by simp
    then show ?thesis using True by (simp add: arr'_def maxStoredArray_def)
  qed (simp add: arr'_def maxStoredArray_def)
  moreover have "reads (rd_elems rd (length vs) (Suc i) arr') (concat (map enc_val vs)) (arr' @ take (32 - Suc i) (map kept vs))"
    by (rule Cons.IH) (use Cons.prems in simp)
  then have "reads (rd_elems rd (length (v # vs)) i arr) (enc_val v @ concat (map enc_val vs)) (arr' @ take (32 - Suc i) (map kept vs))"
    using Cons.prems by (auto intro!: reads_bind simp: arr'_def)
  ultimately show ?case by simp
qed (simp add: reads_return)

lemma reads_val: "wf_val cap v \<Longrightarrow> length (enc_val v) < fuel \<Longrightarrow> reads (rdVal cap fuel (tcode v)) (enc_val v) (kept v, val_len v)"
proof (induction v arbitrary: fuel)
  case (TNum t v)
  obtain w sg where t: "int_type t = Some (w, sg)" "int_fits w sg v" using TNum.prems(1) by (auto split: option.splits)
  then show ?case
    using TNum.prems(2) int_value_enc[OF t(2) int_type_pos[OF t(1)]]
    by (cases fuel) (auto intro!: reads_bind_return[OF reads_bytes] simp: val_len_def)
next
  case (TFlt t b)
  then show ?case
    by (cases fuel) (auto intro!: reads_bind_return[OF reads_bytes] simp: int_type_def val_len_def)
next
  case (TBool b)
  then show ?case
    by (cases fuel) (auto intro!: reads_bind_return[OF reads_bytes] simp: int_type_def val_len_def)
next
  case (TStr s)
  then show ?case
    by (cases fuel) (auto intro!: reads_bind_return[OF reads_str] simp: int_type_def val_len_def)
next
  case (TArr et vs)
  obtain k where k: "fuel = Suc k" using TArr.prems(2) by (cases fuel) auto
  have "reads (rdVal cap k et) (enc_val v) (kept v, val_len v)" if "v \<in> set vs" for v
  proof -
    have "length (enc_val v) \<le> length (concat (map enc_val vs))"
      using member_le_sum_list[of "length (enc_val v)" "map (length \<circ> enc_val) vs"] that by (simp add: length_concat comp_def)
    then show ?thesis using TArr.IH[OF that, of k] TArr.prems k that by (auto simp: list_all_iff)
  qed
  then have el: "reads (rd_elems (rdVal cap k et) (length vs) 0 []) (concat (map enc_val vs)) (take 32 (map kept vs))"
    using reads_elems[of vs "rdVal cap k et" 0 "[]"] by simp
  show ?case using TArr.prems(1) k
    by (auto intro!: reads_bind[OF reads_uint] reads_bind_return[OF el] simp: int_type_def val_len_def)
qed


record tinfo =
  in_name :: string
  in_dims :: "nat list"
  in_type :: nat
  in_rel :: nat

definition enc_kv :: "string \<times> tval \<Rightarrow> bytes" where
  "enc_kv x = enc_str (fst x) @ le_put 4 (tcode (snd x)) @ enc_val (snd x)"

definition enc_info :: "tinfo \<Rightarrow> bytes" where
  "enc_info t = enc_str (in_name t) @ le_put 4 (length (in_dims t)) @
     (concat (map (le_put 8) (in_dims t)) @ le_put 4 (in_type t)) @ le_put 8 (in_rel t)"

definition enc_header :: "nat \<Rightarrow> (string \<times> tval) list \<Rightarrow> tinfo list \<Rightarrow> bytes" where
  "enc_header version kvs ts = magic_GGUF @ le_put 4 version @ le_put 8 (length ts) @ le_put 8 (length kvs) @
     concat (map enc_kv kvs) @ concat (map enc_info ts)"

definition keep_kv :: "(string \<times> gval) list \<Rightarrow> string \<times> tval \<Rightarrow> (string \<times> gval) list" where
  "keep_kv meta x = (if val_len (snd x) \<le> 32 then AList.update (fst x) (kept (snd x)) meta else meta)"

definition ref_of :: "tinfo \<Rightarrow> tensorRef" where
  "ref_of t = \<lparr>tr_name = in_name t, tr_rel = in_rel t\<rparr>"

definition wf_header :: "nat \<Rightarrow> nat \<Rightarrow> (string \<times> tval) list \<Rightarrow> tinfo list \<Rightarrow> bool" where
  "wf_header cap version kvs ts \<longleftrightarrow>
     2 \<le> version \<and> version < 2 ^ 32 \<and> 24 * length ts \<le> cap \<and> length ts < 2 ^ 64 \<and> length kvs < 2 ^ 64 \<and>
     (\<forall>x\<in>set kvs. str_fits cap (fst x) \<and> wf_val cap (snd x)) \<and>
     (\<forall>t\<in>set ts. str_fits cap (in_name t) \<and> length (in_dims t) < 2 ^ 29 \<and> in_rel t < 2 ^ 64)"

lemma tcode_less: "wf_val cap v \<Longrightarrow> tcode v < 2 ^ 32"
  by (cases v) (auto simp: int_type_def split: option.splits if_splits)

lemma reads_apply: "reads m b x \<Longrightarrow> m (b @ rest) = (Inr x, rest)"
  by (simp add: reads_def)

lemmas uint_apply = reads_apply[OF reads_uint]

lemma reads_meta: "reads m b x \<Longrightarrow> reads (meta_error key m) b x"
  by (simp add: reads_def meta_error_def)

lemma reads_kvs:
  assumes "\<forall>x\<in>set kvs. str_fits cap (fst x) \<and> wf_val cap (snd x) \<and> length (enc_val (snd x)) < fuel"
  shows "reads (rd_kvs cap fuel (length kvs) meta) (concat (map enc_kv kvs)) (foldl keep_kv meta kvs)"
  using assms
proof (induction kvs arbitrary: meta)
  case (Cons x kvs)
  have x: "str_fits cap (fst x)" "wf_val cap (snd x)" "length (enc_val (snd x)) < fuel" using Cons.prems by auto
  have "reads (rd_kvs cap fuel (length kvs) (keep_kv meta x)) (concat (map enc_kv kvs)) (foldl keep_kv meta (x # kvs))"
    using Cons by simp
  note rest = reads_apply[OF this] reads_apply[OF reads_str[OF x(1)]] reads_apply[OF reads_meta[OF reads_val[OF x(2,3)]]]
  show ?case unfolding reads_def
    using rest tcode_less[OF x(2)] by (auto simp: bind_action_def enc_kv_def uint_apply keep_kv_def maxStoredArray_def)
qed (simp add: reads_return)

lemma reads_skip: "n = length b \<Longrightarrow> reads (skip_bytes n) b ()"
  by (simp add: reads_def skip_bytes_def)

lemma reads_infos:
  assumes "\<forall>t\<in>set ts. str_fits cap (in_name t) \<and> length (in_dims t) < 2 ^ 29 \<and> in_rel t < 2 ^ 64"
  shows "reads (rd_infos cap (length ts) infos) (concat (map enc_info ts)) (infos @ map ref_of ts)"
  using assms
proof (induction ts arbitrary: infos)
  case (Cons t ts)
  have t: "str_fits cap (in_name t)" "length (in_dims t) < 2 ^ 29" "in_rel t < 2 ^ 64" using Cons.prems by auto
  have dims: "length (concat (map (le_put 8) ds)) = 8 * length ds" for ds by (induction ds) auto
  have "reads (rd_infos cap (length ts) (infos @ [ref_of t])) (concat (map enc_info ts)) (infos @ map ref_of (t # ts))"
    using Cons.IH[of "infos @ [ref_of t]"] Cons.prems by simp
  note rest = reads_apply[OF this] reads_apply[OF reads_str[OF t(1)]]
  show ?case unfolding reads_def
    using rest t by (simp add: bind_action_def enc_info_def uint_apply skip_bytes_def dims ref_of_def)
qed (simp add: reads_return)

lemma reads_header:
  assumes "wf_header cap version kvs ts" "length (enc_header version kvs ts) < fuel"
  shows "reads (rd_header cap fuel) (enc_header version kvs ts) (foldl keep_kv [] kvs, map ref_of ts)"
proof -
  have "length (enc_val (snd x)) \<le> length (concat (map enc_kv kvs))" if "x \<in> set kvs" for x
  proof -
    have "length (enc_kv x) \<le> length (concat (map enc_kv kvs))"
      using member_le_sum_list[of "length (enc_kv x)" "map (length \<circ> enc_kv) kvs"] that by (simp add: length_concat comp_def)
    then show ?thesis by (simp add: enc_kv_def)
  qed
  then have kv: "\<forall>x\<in>set kvs. str_fits cap (fst x) \<and> wf_val cap (snd x) \<and> length (enc_val (snd x)) < fuel"
    using assms by (fastforce simp: wf_header_def enc_header_def)
  have ti: "\<forall>t\<in>set ts. str_fits cap (in_name t) \<and> length (in_dims t) < 2 ^ 29 \<and> in_rel t < 2 ^ 64"
    using assms(1) by (simp add: wf_header_def)
  have mg: "rd_bytes NotGGUF 4 (magic_GGUF @ r) = (Inr magic_GGUF, r)" for r
    by (simp add: rd_bytes_def magic_GGUF_def)
  show ?thesis unfolding reads_def
    using assms(1) reads_apply[OF reads_kvs[OF kv, of "[]"]] reads_apply[OF reads_infos[OF ti, of "[]"]]
    by (simp add: rd_header_def bind_action_def enc_header_def wf_header_def mg uint_apply)
qed


section \<open>Properties\<close>

lemma wrap64_id: "- (2 ^ 63) \<le> i \<Longrightarrow> i < 2 ^ 63 \<Longrightarrow> wrap64 i = i"
  by (simp add: wrap64_def)

lemma align_up_least:
  assumes "0 \<le> pos" "0 < al" "pos + al < 2 ^ 63"
  shows "\<exists>start. align_up pos al = Inr start \<and> al dvd start \<and> pos \<le> start \<and> start < pos + al"
proof -
  define start where "start = (pos + al - 1) div al * al"
  have eq: "start = pos + al - 1 - (pos + al - 1) mod al" by (simp add: start_def minus_mod_eq_div_mult)
  have m: "0 \<le> (pos + al - 1) mod al" "(pos + al - 1) mod al < al" using assms(2) by simp_all
  have bounds: "pos \<le> start" "start < pos + al" using eq m by linarith+
  have q: "0 \<le> (pos + al - 1) div al" "(pos + al - 1) div al \<le> pos + al - 1"
    using assms zdiv_mono2[of "pos + al - 1" 1 al] by (simp_all add: pos_imp_zdiv_nonneg_iff)
  have "(pos + al - 1) sdiv al = (pos + al - 1) div al" using assms by (simp add: signed_divide_int_def sgn_if)
  then have "align_up pos al = Inr start"
    using assms q bounds by (simp add: align_up_def wrap64_id start_def)
  then show ?thesis using bounds by (simp add: start_def)
qed

text \<open>
  C33. Reading a header always ends with a header, an error or a panic: the nesting of arrays in the metadata is
  bounded by the length of the file, so the recursion of the value reader cannot run away.
\<close>

theorem parseHeader_total: "parseHeader cap inp \<noteq> Inl NoFuel"
proof (cases inp)
  case (Some f)
  obtain r rest where rd: "rd_header cap (Suc (length f)) f = (r, rest)" by fastforce
  have "r \<noteq> Inl NoFuel" using tame_header(2)[of "Suc (length f)" cap] rd unfolding fuelled_def by (metis fst_conv lessI)
  then show ?thesis using Some rd
    by (cases r) (auto simp: parseHeader_def align_up_def split: prod.splits)
qed (simp add: parseHeader_def)

text \<open>
  C32. Every well-formed file is read back: the metadata with the arrays of at most 32 elements, all tensor references
  in file order, and the start of the data as the least multiple of the alignment not before the end of the header.
\<close>

theorem parseHeader_roundtrip:
  assumes "wf_header cap version kvs ts" "al = asInt (map_of (foldl keep_kv [] kvs) ''general.alignment'') 32" "0 < al"
    and "pos = int (length (enc_header version kvs ts))" "pos + al < 2 ^ 63"
  shows "\<exists>start. parseHeader cap (Some (enc_header version kvs ts @ data)) =
      Inr \<lparr>h_meta = foldl keep_kv [] kvs, h_infos = map ref_of ts, h_dataStart = start\<rparr> \<and>
    al dvd start \<and> pos \<le> start \<and> start < pos + al"
proof -
  define f where "f = enc_header version kvs ts @ data"
  obtain start where st: "align_up pos al = Inr start" "al dvd start" "pos \<le> start" "start < pos + al"
    using align_up_least[OF _ assms(3,5)] assms(4) by auto
  have "rd_header cap (Suc (length f)) f = (Inr (foldl keep_kv [] kvs, map ref_of ts), data)"
    using reads_apply[OF reads_header[OF assms(1), of "Suc (length f)"]] by (simp add: f_def)
  then have "parseHeader cap (Some f) = Inr \<lparr>h_meta = foldl keep_kv [] kvs, h_infos = map ref_of ts, h_dataStart = start\<rparr>"
    using st(1) assms(2,4) by (simp add: parseHeader_def f_def)
  then show ?thesis using st f_def by blast
qed

definition demo_kvs :: "(string \<times> tval) list" where
  "demo_kvs = [(''general.architecture'', TStr ''t''), (''t.block_count'', TNum 4 8), (''t.tokens'', TArr 8 [TStr ''a'', TStr ''b''])]"

definition demo_infos :: "tinfo list" where
  "demo_infos = [\<lparr>in_name = ''w'', in_dims = [16], in_type = 0, in_rel = 0\<rparr>, \<lparr>in_name = ''v'', in_dims = [8], in_type = 0, in_rel = 64\<rparr>]"

lemma demo_header: "wf_header 4096 3 demo_kvs demo_infos" "length (enc_header 3 demo_kvs demo_infos) = 210"
  "foldl keep_kv [] demo_kvs = [(''general.architecture'', GStr ''t''), (''t.block_count'', GNum 8), (''t.tokens'', GArr [GStr ''a'', GStr ''b''])]"
  by (simp_all add: wf_header_def demo_kvs_def demo_infos_def str_fits_def int_type_def int_fits_def enc_header_def enc_kv_def enc_info_def
      enc_str_def magic_GGUF_def keep_kv_def val_len_def)

theorem parseHeader_roundtrip_witness:
  "\<exists>start. parseHeader 4096 (Some (enc_header 3 demo_kvs demo_infos @ [])) =
      Inr \<lparr>h_meta = foldl keep_kv [] demo_kvs, h_infos = map ref_of demo_infos, h_dataStart = start\<rparr> \<and> 210 \<le> start \<and> start < 242"
  using parseHeader_roundtrip[OF demo_header(1) refl _ refl, of "[]"] demo_header(2,3)
  by (auto simp: asInt_def)


text \<open>
  Two damaged files that stop the program instead of being reported. A file that ends inside a scalar of its
  metadata panics on a type assertion, where a truncated string is an error; and a header that is well formed but
  declares an alignment of zero panics on a division.
\<close>

theorem parseHeader_panics:
  assumes "str_fits cap key" "t < 2 ^ 32" "int_type t = Some (w, sg)" "length b < w" "n < 2 ^ 64"
    and "wf_header cap version kvs ts" "asInt (map_of (foldl keep_kv [] kvs) ''general.alignment'') 32 = 0"
  shows "parseHeader cap (Some (magic_GGUF @ le_put 4 3 @ le_put 8 n @ le_put 8 1 @ enc_str key @ le_put 4 t @ b)) = Inl Panics \<and>
    parseHeader cap (Some (enc_header version kvs ts @ data)) = Inl Panics"
proof
  have mg: "rd_bytes NotGGUF 4 (magic_GGUF @ r) = (Inr magic_GGUF, r)" for r
    by (simp add: rd_bytes_def magic_GGUF_def)
  define f where "f = magic_GGUF @ le_put 4 3 @ le_put 8 n @ le_put 8 1 @ enc_str key @ le_put 4 t @ b"
  have "rd_bytes Panics w b = (Inl Panics, [])" using assms(4) by (simp add: rd_bytes_def)
  then have "meta_error key (rdVal cap (Suc k) t) b = (Inl Panics, [])" for k
    using assms(3) by (simp add: meta_error_def bind_action_def)
  then have "rd_header cap (Suc k) f = (Inl Panics, [])" for k
    using assms(2,5) reads_apply[OF reads_str[OF assms(1)]] by (simp add: f_def rd_header_def bind_action_def mg uint_apply)
  then show "parseHeader cap (Some (magic_GGUF @ le_put 4 3 @ le_put 8 n @ le_put 8 1 @ enc_str key @ le_put 4 t @ b)) = Inl Panics"
    unfolding f_def[symmetric] by (simp add: parseHeader_def)
  show "parseHeader cap (Some (enc_header version kvs ts @ data)) = Inl Panics"
    using reads_apply[OF reads_header[OF assms(6), of "Suc (length (enc_header version kvs ts @ data))"], of data] assms(7)
    by (simp add: parseHeader_def align_up_def)
qed

theorem parseHeader_panics_witness:
  "parseHeader 4096 (Some (magic_GGUF @ le_put 4 3 @ le_put 8 0 @ le_put 8 1 @ enc_str ''k'' @ le_put 4 4 @ [1, 2])) = Inl Panics \<and>
   parseHeader 4096 (Some (enc_header 3 [(''general.alignment'', TNum 4 0)] [] @ [])) = Inl Panics"
  by (rule parseHeader_panics[of 4096 "''k''" 4 4 False "[1, 2]" 0 3 "[(''general.alignment'', TNum 4 0)]" "[]" "[]"])
    (simp_all add: str_fits_def int_type_def wf_header_def int_fits_def keep_kv_def val_len_def asInt_def wrap64_def)

text \<open>The rows of a table whose offsets stay within 63 bits.\<close>

lemma table_rows_run:
  assumes "table_rows start n ts = Inr rows" "0 \<le> start" "n < 2 ^ 63" "\<forall>t\<in>set ts. start + int (tr_rel t) < 2 ^ 63"
  shows "map ti_Name rows = map tr_name ts" "map ti_Offset rows = map (\<lambda>t. start + int (tr_rel t)) ts"
    "\<forall>r\<in>set rows. 0 < ti_NBytes r" "rows \<noteq> [] \<Longrightarrow> ti_Offset (last rows) + ti_NBytes (last rows) = n"
    "Suc i < length rows \<Longrightarrow> ti_Offset (rows ! Suc i) = ti_Offset (rows ! i) + ti_NBytes (rows ! i)"
proof -
  have "map ti_Name rows = map tr_name ts \<and> map ti_Offset rows = map (\<lambda>t. start + int (tr_rel t)) ts \<and>
    (\<forall>r\<in>set rows. 0 < ti_NBytes r) \<and> (rows \<noteq> [] \<longrightarrow> ti_Offset (last rows) + ti_NBytes (last rows) = n) \<and>
    (Suc i < length rows \<longrightarrow> ti_Offset (rows ! Suc i) = ti_Offset (rows ! i) + ti_NBytes (rows ! i))"
    using assms
  proof (induction ts arbitrary: rows i)
    case (Cons t ts)
    define off where "off = (\<lambda>u :: tensorRef. start + int (tr_rel u))"
    define e where "e = (case ts of [] \<Rightarrow> n | u # _ \<Rightarrow> off u)"
    have off: "wrap64 (start + wrap64 (int (tr_rel u))) = off u" "0 \<le> off u" "off u < 2 ^ 63" if "u \<in> set (t # ts)" for u
      using Cons.prems(2,4) that by (auto simp: off_def wrap64_id)
    then have e': "e = (case ts of [] \<Rightarrow> n | u # _ \<Rightarrow> wrap64 (start + wrap64 (int (tr_rel u))))" and "e < 2 ^ 63"
      using Cons.prems(3) by (auto simp: e_def split: list.splits)
    obtain rest where r: "table_rows start n ts = Inr rest" "off t < e"
      and rows: "rows = \<lparr>ti_Name = tr_name t, ti_Offset = off t, ti_NBytes = e - off t\<rparr> # rest"
      using Cons.prems(1) off[of t] wrap64_id[of "e - off t"] \<open>e < 2 ^ 63\<close> unfolding table_rows.simps Let_def e'[symmetric]
      by (auto simp: bind_result_Inr_iff split: if_splits)
    note ih = Cons.IH[OF r(1) Cons.prems(2,3), of "i - 1"] 
    have "rest = [] \<longleftrightarrow> ts = []" using ih Cons.prems(4) by auto
    moreover have "ti_Offset (hd rest) = e" if "rest \<noteq> []"
      using ih Cons.prems(4) that by (cases ts; cases rest) (auto simp: e_def off_def)
    ultimately show ?case using ih Cons.prems(4) rows r(2) e_def
      by (cases i) (auto simp: off_def hd_conv_nth)
  qed simp
  then show "map ti_Name rows = map tr_name ts" "map ti_Offset rows = map (\<lambda>t. start + int (tr_rel t)) ts"
    "\<forall>r\<in>set rows. 0 < ti_NBytes r" "rows \<noteq> [] \<Longrightarrow> ti_Offset (last rows) + ti_NBytes (last rows) = n"
    "Suc i < length rows \<Longrightarrow> ti_Offset (rows ! Suc i) = ti_Offset (rows ! i) + ti_NBytes (rows ! i)" by blast+
qed

text \<open>
  The tensor table tiles the data of the file: one row per tensor in offset order, each of at least one byte, none
  before the start of the data, each ending where the next begins and the last at the end of the file.
\<close>

theorem TensorTable_tiles:
  assumes "parseHeader cap inp = Inr h" "TensorTable cap inp (Some n) = Inr rows" "0 \<le> h_dataStart h" "n < 2 ^ 63"
    and "\<forall>t\<in>set (h_infos h). h_dataStart h + int (tr_rel t) < 2 ^ 63"
  shows "rows \<noteq> [] \<and> map ti_Name rows = map tr_name (sort_key tr_rel (h_infos h)) \<and>
    (\<forall>r\<in>set rows. 0 < ti_NBytes r \<and> h_dataStart h \<le> ti_Offset r) \<and>
    ti_Offset (last rows) + ti_NBytes (last rows) = n \<and>
    (\<forall>i. Suc i < length rows \<longrightarrow> ti_Offset (rows ! Suc i) = ti_Offset (rows ! i) + ti_NBytes (rows ! i))"
proof -
  have ne: "h_infos h \<noteq> []" and t: "table_rows (h_dataStart h) n (sort_key tr_rel (h_infos h)) = Inr rows"
    using assms(1,2) by (auto simp: TensorTable_def split: if_splits)
  have "\<forall>t\<in>set (sort_key tr_rel (h_infos h)). h_dataStart h + int (tr_rel t) < 2 ^ 63" using assms(5) by simp
  note run = table_rows_run[OF t assms(3,4) this]
  have "rows \<noteq> []" using run(1) ne by (metis length_0_conv length_map length_sort)
  moreover have "h_dataStart h \<le> ti_Offset r" if "r \<in> set rows" for r
  proof -
    have "ti_Offset r \<in> set (map ti_Offset rows)" using that by simp
    then show ?thesis unfolding run(2) by auto
  qed
  ultimately show ?thesis using run by auto
qed


lemma demo_parsed: "parseHeader 4096 (Some (enc_header 3 demo_kvs demo_infos)) =
    Inr \<lparr>h_meta = foldl keep_kv [] demo_kvs, h_infos = map ref_of demo_infos, h_dataStart = 224\<rparr>"
proof -
  have "rd_header 4096 (Suc 210) (enc_header 3 demo_kvs demo_infos) = (Inr (foldl keep_kv [] demo_kvs, map ref_of demo_infos), [])"
    using reads_apply[OF reads_header[OF demo_header(1), of "Suc 210"], of "[]"] demo_header(2) by simp
  moreover have "align_up 210 32 = Inr 224" by (simp add: align_up_def wrap64_def signed_divide_int_def)
  ultimately show ?thesis using demo_header(2,3) by (simp add: parseHeader_def asInt_def)
qed

theorem TensorTable_tiles_witness:
  "\<exists>rows. TensorTable 4096 (Some (enc_header 3 demo_kvs demo_infos)) (Some 320) = Inr rows \<and>
     map ti_Name rows = [''w'', ''v''] \<and> ti_Offset (last rows) + ti_NBytes (last rows) = 320"
proof -
  define rows where "rows = [\<lparr>ti_Name = ''w'', ti_Offset = 224, ti_NBytes = 64\<rparr>, \<lparr>ti_Name = ''v'', ti_Offset = 288, ti_NBytes = 32\<rparr>]"
  have t: "TensorTable 4096 (Some (enc_header 3 demo_kvs demo_infos)) (Some 320) = Inr rows"
    unfolding TensorTable_def demo_parsed by (simp add: demo_infos_def ref_of_def rows_def wrap64_def)
  show ?thesis using TensorTable_tiles[OF demo_parsed t] t by (simp add: demo_infos_def ref_of_def)
qed

text \<open>
  The offset of a tensor is unsigned in the file and signed in the table. A file with one tensor at offset
  \<open>2\<^sup>6\<^sup>4 - 64\<close> is accepted, and the tensor is laid over the header itself.
\<close>

theorem TensorTable_wraps:
  "TensorTable 4096 (Some (enc_header 3 [] [\<lparr>in_name = ''w'', in_dims = [], in_type = 0, in_rel = 2 ^ 64 - 64\<rparr>])) (Some 96) =
     Inr [\<lparr>ti_Name = ''w'', ti_Offset = 0, ti_NBytes = 96\<rparr>]"
proof -
  define ts where "ts = [\<lparr>in_name = ''w'', in_dims = [], in_type = 0, in_rel = 2 ^ 64 - 64\<rparr>]"
  have wf: "wf_header 4096 3 [] ts" and len: "length (enc_header 3 [] ts) = 49"
    by (simp_all add: wf_header_def ts_def str_fits_def enc_header_def enc_info_def enc_str_def magic_GGUF_def)
  have "rd_header 4096 (Suc 49) (enc_header 3 [] ts) = (Inr ([], map ref_of ts), [])"
    using reads_apply[OF reads_header[OF wf, of "Suc 49"], of "[]"] len by simp
  moreover have "align_up 49 32 = Inr 64" by (simp add: align_up_def wrap64_def signed_divide_int_def)
  ultimately have "parseHeader 4096 (Some (enc_header 3 [] ts)) = Inr \<lparr>h_meta = [], h_infos = map ref_of ts, h_dataStart = 64\<rparr>"
    using len by (simp add: parseHeader_def asInt_def)
  then show ?thesis unfolding ts_def[symmetric] by (simp add: TensorTable_def ts_def ref_of_def wrap64_def)
qed


section \<open>Shards\<close>

lemma split_on_last: "d \<notin> set n \<Longrightarrow> p = [] \<or> last p = d \<Longrightarrow> last (split_on d (p @ n)) = n"
proof -
  assume n: "d \<notin> set n" and p: "p = [] \<or> last p = d"
  show ?thesis
  proof (cases "p = []")
    case True
    then show ?thesis using split_on_free[OF n] by simp
  next
    case False
    then obtain q where "p = q @ [d]" using p by (metis append_butlast_last_id)
    then show ?thesis using split_on_append[of d q n] split_on_free[OF n] by simp
  qed
qed

lemma path_clean_child:
  assumes "d \<noteq> []" "CHR ''/'' \<notin> set n" "n \<noteq> []" "n \<noteq> ''.''" "n \<noteq> ''..''"
  shows "path_clean (d @ ''/'' @ n) = dir_prefix d @ n" "path_dir (dir_prefix d @ n) = path_clean (dir_prefix d)"
    "path_base (d @ ''/'' @ n) = n"
proof -
  show "path_clean (d @ ''/'' @ n) = dir_prefix d @ n"
    using assms(1) path_comps_snoc[OF assms]
    by (auto simp: path_clean_def render_path_def dir_prefix_def join_slash_snoc is_rooted_def)
  have "dir_prefix d = [] \<or> last (dir_prefix d) = CHR ''/''" by (auto simp: dir_prefix_def)
  then show "path_dir (dir_prefix d @ n) = path_clean (dir_prefix d)"
    using split_on_last[OF assms(2)] by (simp add: path_dir_def)
  have "last n \<noteq> CHR ''/''" using assms(2,3) by (metis last_in_set)
  then have "dropWhile (\<lambda>c. c = CHR ''/'') (rev (d @ ''/'' @ n)) = rev (d @ ''/'' @ n)"
    using assms(3) by (cases n rule: rev_cases) auto
  then have q: "rev (dropWhile (\<lambda>c. c = CHR ''/'') (rev (d @ ''/'' @ n))) = d @ ''/'' @ n" by (metis rev_rev_ident)
  show "path_base (d @ ''/'' @ n) = n"
    using split_on_last[OF assms(2), of "d @ ''/''"] unfolding path_base_def q by simp
qed

text \<open>
  Any shard may be passed: two shards of one model in one directory give the same total, the sum over all of them, and
  the same error when one is missing.
\<close>

lemma weightsBytes_any_shard:
  assumes "d \<noteq> []" "is_rooted d" "CHR ''/'' \<notin> set m" "CHR ''/'' \<notin> set n"
    and "shardRe m = Some (stem, i, k)" "shardRe n = Some (stem, j, k)"
  shows "weightsBytes stat cwd (d @ ''/'' @ m) = weightsBytes stat cwd (d @ ''/'' @ n)"
proof -
  have proper: "x \<noteq> []" "x \<noteq> ''.''" "x \<noteq> ''..''" if "shardRe x \<noteq> None" for x
    using that by (auto simp: shardRe_def strip_end_def)
  have "weightsBytes stat cwd (d @ ''/'' @ x) = sum_shards stat (map (shard_path (path_clean (dir_prefix d)) stem k) [1..<Suc (digits_val k)]) 0"
    if "CHR ''/'' \<notin> set x" "shardRe x = Some (stem, a, k)" for x a
  proof -
    have "is_rooted (d @ ''/'' @ x)" using assms(1,2) by (simp add: is_rooted_def)
    then show ?thesis
      using path_clean_child[OF assms(1) that(1) proper[of x]] that(2)
      by (cases cwd) (simp_all add: weightsBytes_def path_abs_def)
  qed
  then show ?thesis using assms(3-6) by metis
qed

end
