(* ===== verification/Cluster_Config.thy ===== *)
theory Cluster_Config
  imports Partition_Search
begin

text \<open>
  \<^verbatim>\<open>internal/config/profiles.go\<close> with the parts of \<^verbatim>\<open>internal/config/config.go\<close> it reads: the way from the cluster
  configuration and the measured profiles to the inputs of the partitioner. A JSON document that decodes is the
  value it decodes to; \<^verbatim>\<open>encoding/json\<close> and the file system are parameters of the two loaders.
\<close>

record MeasuredProfile =
  mp_MsPerLayer :: float64
  mp_BoundaryOverheadMS :: float64

type_synonym Profiles = "(string \<times> MeasuredProfile) list"

record Node =
  n_ID :: string
  n_Agent :: string
  n_ModelMemCapGB :: float64
  n_VRAMGB :: float64
  n_MemBandwidthGBps :: float64

record Model =
  m_NLayers :: int
  m_WeightsGB :: float64
  m_KVCacheGB :: float64
  m_BatchSlots :: int
  m_PrefixCacheGB :: float64

record Instance =
  i_Key :: string
  i_Role :: string
  i_Main :: string
  i_Endpoint :: string
  i_KVUnified :: "bool option"

record Preset =
  pst_Key :: string
  pst_Label :: string
  pst_Exe :: string
  pst_Main :: string
  pst_Endpoint :: string
  pst_Args :: "string list"
  pst_Group :: string

record Alerts =
  al_Target :: string
  al_Container :: string
  al_Docker :: string

record Config =
  c_Listen :: string
  c_Nodes :: "Node list"
  c_Instances :: "Instance list"
  c_Model :: Model
  c_BoundaryOverheadMS :: float64
  c_Presets :: "Preset list"
  c_Alerts :: Alerts
  c_PublicURL :: string
  c_APIKey :: string
  c_RequireAPIKey :: bool
  c_LlamaExe :: string
  c_ModelsHostDir :: string
  c_GPUIndexReversed :: bool

datatype config_error =
    ConfigRead string | ConfigParse string | ProfilesRead string | ProfilesParse string | NoNodes | NoCapacity string | NoSpeed string
  | BadModel partition_error | NoOverhead

datatype read_error = FileMissing | ReadFails string

text \<open>\<open>read\<close> is \<^verbatim>\<open>os.ReadFile\<close> and \<open>dec\<close> is \<^verbatim>\<open>json.Unmarshal\<close> into the type.\<close>

definition Load :: "(string \<Rightarrow> (read_error, bytes) result) \<Rightarrow> (bytes \<Rightarrow> (string, Config) result) \<Rightarrow> string \<Rightarrow> (config_error, Config) result" where
  "Load read dec path =
     (case read path of
        Inl FileMissing \<Rightarrow> Inl (ConfigRead path)
      | Inl (ReadFails e) \<Rightarrow> Inl (ConfigRead path)
      | Inr b \<Rightarrow>
          (case dec b of
             Inl e \<Rightarrow> Inl (ConfigParse path)
           | Inr c \<Rightarrow> Inr (if c_Listen c = [] then c\<lparr>c_Listen := '':8080''\<rparr> else c)))"

definition instance_of :: "Config \<Rightarrow> string \<Rightarrow> Instance option" where
  "instance_of c key = find (\<lambda>i. i_Key i = key) (c_Instances c)"

definition LoadProfiles :: "(string \<Rightarrow> (read_error, bytes) result) \<Rightarrow> (bytes \<Rightarrow> (string, Profiles) result) \<Rightarrow> string \<Rightarrow> (config_error, Profiles) result" where
  "LoadProfiles read dec path =
     (let path = (if path = [] then ''profiles.local.json'' else path)
      in case read path of
           Inl FileMissing \<Rightarrow> Inr []
         | Inl (ReadFails e) \<Rightarrow> Inl (ProfilesRead e)
         | Inr b \<Rightarrow> (case dec b of Inl e \<Rightarrow> Inl (ProfilesParse path) | Inr p \<Rightarrow> Inr p))"

definition node_profile :: "Profiles \<Rightarrow> Node \<Rightarrow> (config_error, NodeProfile) result" where
  "node_profile measured n =
     (let capGB = (if n_ModelMemCapGB n = 0 then n_VRAMGB n else n_ModelMemCapGB n);
          p = \<lparr>ID = n_ID n, ModelMemCapGB = capGB, MsPerLayer = 0, MemBandwidthGBps = 0, Absent = False\<rparr>
      in if capGB \<le> 0 then Inl (NoCapacity (n_ID n))
         else case map_of measured (n_ID n) of
                Some m \<Rightarrow>
                  if mp_MsPerLayer m > 0 then Inr (p\<lparr>MsPerLayer := mp_MsPerLayer m\<rparr>)
                  else if n_MemBandwidthGBps n > 0 then Inr (p\<lparr>MemBandwidthGBps := n_MemBandwidthGBps n\<rparr>)
                  else Inl (NoSpeed (n_ID n))
              | None \<Rightarrow>
                  if n_MemBandwidthGBps n > 0 then Inr (p\<lparr>MemBandwidthGBps := n_MemBandwidthGBps n\<rparr>)
                  else Inl (NoSpeed (n_ID n)))"

fun profile_nodes :: "Profiles \<Rightarrow> Node list \<Rightarrow> NodeProfile list \<Rightarrow> (config_error, NodeProfile list) result" where
  "profile_nodes measured [] acc = Inr acc"
| "profile_nodes measured (n # ns) acc =
     (case node_profile measured n of Inl e \<Rightarrow> Inl e | Inr p \<Rightarrow> profile_nodes measured ns (acc @ [p]))"

definition NodeProfiles :: "Config \<Rightarrow> Profiles \<Rightarrow> (config_error, NodeProfile list) result" where
  "NodeProfiles cfg measured = (if c_Nodes cfg = [] then Inl NoNodes else profile_nodes measured (c_Nodes cfg) [])"

definition ModelSpecFrom :: "Config \<Rightarrow> (config_error, ModelSpec) result" where
  "ModelSpecFrom cfg =
     (let m = c_Model cfg
      in case NewModelSpec (m_NLayers m) (m_WeightsGB m) (m_KVCacheGB m) (m_BatchSlots m) (m_PrefixCacheGB m) of
           Inl e \<Rightarrow> Inl (BadModel e)
         | Inr spec \<Rightarrow> Inr spec)"

definition BoundaryOverhead :: "Config \<Rightarrow> Profiles \<Rightarrow> (config_error, float64) result" where
  "BoundaryOverhead cfg measured =
     (let best = foldl (\<lambda>b (_, m). if mp_BoundaryOverheadMS m > b then mp_BoundaryOverheadMS m else b) 0 measured
      in if best > 0 then Inr best
         else if c_BoundaryOverheadMS cfg > 0 then Inr (c_BoundaryOverheadMS cfg)
         else Inl NoOverhead)"


section \<open>Fail-closed\<close>

text \<open>The capacity and the speed a node is taken with: measured before declared, and nothing in between.\<close>

definition capacity_of :: "Node \<Rightarrow> float64" where
  "capacity_of n = (if n_ModelMemCapGB n = 0 then n_VRAMGB n else n_ModelMemCapGB n)"

definition measured_ms :: "Profiles \<Rightarrow> Node \<Rightarrow> float64" where
  "measured_ms measured n = (case map_of measured (n_ID n) of Some m \<Rightarrow> max 0 (mp_MsPerLayer m) | None \<Rightarrow> 0)"

definition usable_node :: "Profiles \<Rightarrow> Node \<Rightarrow> bool" where
  "usable_node measured n \<longleftrightarrow> 0 < capacity_of n \<and> (0 < measured_ms measured n \<or> 0 < n_MemBandwidthGBps n)"

definition solver_node :: "Profiles \<Rightarrow> Node \<Rightarrow> NodeProfile" where
  "solver_node measured n =
     \<lparr>ID = n_ID n, ModelMemCapGB = capacity_of n, MsPerLayer = measured_ms measured n,
      MemBandwidthGBps = (if 0 < measured_ms measured n then 0 else n_MemBandwidthGBps n), Absent = False\<rparr>"

lemma node_profile_iff: "node_profile measured n = Inr p \<longleftrightarrow> usable_node measured n \<and> p = solver_node measured n"
  by (auto simp: node_profile_def Let_def usable_node_def solver_node_def capacity_of_def measured_ms_def max_def
      split: option.splits if_splits)

lemma profile_nodes_iff:
  "profile_nodes measured ns acc = Inr ps \<longleftrightarrow> (\<forall>n\<in>set ns. usable_node measured n) \<and> ps = acc @ map (solver_node measured) ns"
proof (induction ns arbitrary: acc)
  case (Cons n ns)
  show ?case
  proof (cases "node_profile measured n")
    case (Inl e)
    then have "\<not> usable_node measured n" using node_profile_iff[of measured n] by auto
    then show ?thesis using Inl by simp
  next
    case (Inr p)
    then have "usable_node measured n" "p = solver_node measured n" using node_profile_iff by blast+
    then show ?thesis using Inr Cons.IH by simp
  qed
qed auto

lemma best_overhead:
  "foldl (\<lambda>b (_, m). if mp_BoundaryOverheadMS m > b then mp_BoundaryOverheadMS m else b) (b :: real) ms =
     foldl max b (map (mp_BoundaryOverheadMS \<circ> snd) ms)"
  by (induction ms arbitrary: b) (auto simp: max_def)

text \<open>
  The configuration fails closed: the nodes are accepted exactly when there is one and each has a positive capacity
  and a positive measured or declared speed, and then each is taken with the numbers it was given, a measured speed
  before a declared one.
\<close>

theorem NodeProfiles_fail_closed:
  "NodeProfiles cfg measured = Inr ps \<longleftrightarrow>
     c_Nodes cfg \<noteq> [] \<and> (\<forall>n\<in>set (c_Nodes cfg). usable_node measured n) \<and> ps = map (solver_node measured) (c_Nodes cfg)"
  by (auto simp: NodeProfiles_def profile_nodes_iff)

text \<open>
  C34. The configuration and the solver fit together. What the configuration accepts is what the solver needs: with
  accepted nodes and an accepted model, \<^verbatim>\<open>Solve\<close> fails exactly when no admissible plan exists, and otherwise returns the
  plan it promises.
\<close>

theorem config_feeds_Solve:
  assumes "NodeProfiles cfg measured = Inr nodes" "ModelSpecFrom cfg = Inr model"
  shows "((\<exists>e. Solve nodes model bo nb flr fb = Inl e) \<longleftrightarrow> (\<forall>p. \<not> admissible model bo nb nodes p)) \<and>
    (\<forall>r. Solve nodes model bo nb flr fb = Inr r \<longrightarrow> chosen (admissible model bo nb nodes) flr (Plan r))"
proof -
  have m: "valid_model model" using assms(2) NewModelSpec_valid by (auto simp: ModelSpecFrom_def Let_def split: sum.splits)
  have ps: "\<forall>n\<in>set nodes. 0 < ModelMemCapGB n \<and> profiled n"
    using assms(1) by (auto simp: NodeProfiles_def profile_nodes_iff solver_node_def usable_node_def profiled_def split: if_splits)
  then have n: "present_profiled nodes" "\<forall>n\<in>set nodes. 0 \<le> ModelMemCapGB n" by (auto intro: less_imp_le)
  show ?thesis using Solve_fails_admissible[OF m n] solve_plan_chosen[OF m n(1) Solve_plan] by blast
qed

definition demo_config :: Config where
  "demo_config =
     \<lparr>c_Listen = '':8080'',
      c_Nodes = [\<lparr>n_ID = ''a'', n_Agent = ''http://a:1357'', n_ModelMemCapGB = 0, n_VRAMGB = 24, n_MemBandwidthGBps = 900\<rparr>,
                 \<lparr>n_ID = ''b'', n_Agent = ''http://b:1357'', n_ModelMemCapGB = 12, n_VRAMGB = 16, n_MemBandwidthGBps = 0\<rparr>],
      c_Instances = [], c_Model = \<lparr>m_NLayers = 4, m_WeightsGB = 20, m_KVCacheGB = 2, m_BatchSlots = 0, m_PrefixCacheGB = 0\<rparr>,
      c_BoundaryOverheadMS = 1, c_Presets = [], c_Alerts = \<lparr>al_Target = [], al_Container = [], al_Docker = []\<rparr>,
      c_PublicURL = [], c_APIKey = [], c_RequireAPIKey = False, c_LlamaExe = [], c_ModelsHostDir = [], c_GPUIndexReversed = False\<rparr>"

definition demo_measured :: Profiles where
  "demo_measured = [(''b'', \<lparr>mp_MsPerLayer = 2, mp_BoundaryOverheadMS = 0\<rparr>)]"

theorem config_feeds_Solve_witness:
  "\<exists>nodes model. NodeProfiles demo_config demo_measured = Inr nodes \<and> ModelSpecFrom demo_config = Inr model \<and>
     ((\<exists>e. Solve nodes model 1 1 None False = Inl e) \<longleftrightarrow> (\<forall>p. \<not> admissible model 1 1 nodes p))"
proof -
  have n: "NodeProfiles demo_config demo_measured = Inr
      [\<lparr>ID = ''a'', ModelMemCapGB = 24, MsPerLayer = 0, MemBandwidthGBps = 900, Absent = False\<rparr>,
       \<lparr>ID = ''b'', ModelMemCapGB = 12, MsPerLayer = 2, MemBandwidthGBps = 0, Absent = False\<rparr>]"
    by (simp add: NodeProfiles_def demo_config_def demo_measured_def node_profile_def)
  have m: "ModelSpecFrom demo_config = Inr \<lparr>NLayers = 4, WeightsGB = 20, KVCacheGB = 2, BatchSlots = 1, PrefixCacheGB = 0\<rparr>"
    by (simp add: ModelSpecFrom_def demo_config_def NewModelSpec_def)
  show ?thesis using config_feeds_Solve[OF n m, of 1 1 None False] n m by blast
qed

text \<open>
  The overhead of a boundary: the largest measured value when one is positive, else the declared one, and an error
  when there is neither.
\<close>

lemma BoundaryOverhead_max:
  "BoundaryOverhead cfg measured =
     (let best = foldl max 0 (map (mp_BoundaryOverheadMS \<circ> snd) measured)
      in if 0 < best then Inr best else if 0 < c_BoundaryOverheadMS cfg then Inr (c_BoundaryOverheadMS cfg) else Inl NoOverhead)"
  unfolding BoundaryOverhead_def best_overhead ..

end
