(* ===== verification/Training.thy ===== *)
theory Training
  imports Kv_Pipe Gguf Cluster_Config
begin

text \<open>
  \<^verbatim>\<open>internal/coordinator/train.go\<close>: the training transactions and the fences they keep on the balancer and on the KV
  handoff. The part of \<^verbatim>\<open>Server\<close> it uses is one record, with the file of the open transactions, which is the list it encodes or
  \<open>TTorn\<close>. What a handler learns from outside is a field of \<open>train_env\<close>: the polls of a wait are the instants it wakes at
  with what it sees then, and \<open>tv_mid\<close> is what other requests did while \<^verbatim>\<open>trainEnd\<close> waited. Instants are
  milliseconds, durations nanoseconds in 64 bits. Raising a preset and stopping an engine belong to other files: what
  they answer is a field, what is stopped is part of the result.
\<close>


section \<open>Transactions\<close>

record trainTx =
  tx_Job :: string
  tx_Node :: string
  tx_Instances :: "string list"
  tx_Deadline :: float64
  tx_Started :: float64
  tx_Origin :: string
  tx_Phase :: string
  tx_Alerted :: bool
  tx_Note :: string

definition trainPhaseTraining :: string where "trainPhaseTraining = ''entrenando''"
definition trainPhaseReload :: string where "trainPhaseReload = ''remontando''"
definition trainDrainDefault :: int where "trainDrainDefault = 90 * 10 ^ 9"
definition trainDrainMax :: int where "trainDrainMax = 600 * 10 ^ 9"
definition trainWaitDefault :: int where "trainWaitDefault = 120 * 10 ^ 9"
definition trainWaitMax :: int where "trainWaitMax = 600 * 10 ^ 9"
definition trainDeadlineDefault :: float64 where "trainDeadlineDefault = 6 * 3600000"

datatype train_file = TGood "trainTx option list" | TTorn

record train_srv =
  ts_cfg :: Config
  ts_bal :: "decodeBalancer option"
  ts_kp :: "kvPipe option"
  ts_txs :: "(string \<times> trainTx) list"
  ts_file :: "train_file option"
  ts_tmp :: "train_file option"

definition loaded_tx :: "trainTx \<Rightarrow> trainTx" where
  "loaded_tx t = (if tx_Phase t = [] then t\<lparr>tx_Phase := trainPhaseTraining\<rparr> else t)"

definition load_txs :: "trainTx option list \<Rightarrow> (string \<times> trainTx) list" where
  "load_txs ts =
     foldl (\<lambda>m t. case t of
              Some t \<Rightarrow> if tx_Job t \<noteq> [] then AList.update (tx_Job t) (loaded_tx t) m else m
            | None \<Rightarrow> m) [] ts"

definition loadTrain :: "train_srv \<Rightarrow> train_srv" where
  "loadTrain s = (case ts_file s of Some (TGood ts) \<Rightarrow> s\<lparr>ts_txs := load_txs ts\<rparr> | _ \<Rightarrow> s)"

definition openTrainTxs :: "train_srv \<Rightarrow> trainTx list" where
  "openTrainTxs s = sort_key tx_Started (map snd (ts_txs s))"

definition saveTrainLocked :: "save_io \<Rightarrow> train_srv \<Rightarrow> train_srv" where
  "saveTrainLocked sio s =
     (let doc = TGood (map Some (sort_key tx_Started (map snd (ts_txs s))))
      in case sio of
           CreateFails \<Rightarrow> s
         | WriteFails \<Rightarrow> s\<lparr>ts_tmp := Some TTorn\<rparr>
         | RenameFails \<Rightarrow> s\<lparr>ts_tmp := Some doc\<rparr>
         | Saved \<Rightarrow> s\<lparr>ts_file := Some doc, ts_tmp := None\<rparr>)"

definition trainingOf :: "string \<Rightarrow> train_srv \<Rightarrow> trainTx option" where
  "trainingOf key s = find (\<lambda>t. key \<in> set (tx_Instances t)) (openTrainTxs s)"

definition trainLabel :: "(float64 \<Rightarrow> string) \<Rightarrow> trainTx \<Rightarrow> string" where
  "trainLabel hhmm t =
     ''en entrenamiento '' @ [CHR 0xC2, CHR 0xB7] @ '' job '' @ tx_Job t @ '' '' @ [CHR 0xC2, CHR 0xB7] @ '' remonta antes de '' @ hhmm (tx_Deadline t)"


section \<open>Fences\<close>

definition decode_like :: "Instance \<Rightarrow> bool" where
  "decode_like i \<longleftrightarrow> i_Role i = ''decode'' \<or> starts ''decode'' (i_Key i)"

definition prefill_like :: "Instance \<Rightarrow> bool" where
  "prefill_like i \<longleftrightarrow> i_Key i = ''prefill'' \<or> i_Role i = ''prefill''"

definition fence :: "string \<Rightarrow> bool \<Rightarrow> train_srv \<Rightarrow> train_srv" where
  "fence key on s =
     (case instance_of (ts_cfg s) key of
        None \<Rightarrow> s
      | Some inst \<Rightarrow>
          let s = (case ts_bal s of
                     Some b \<Rightarrow> if decode_like inst then s\<lparr>ts_bal := Some (snd (setExcluded (i_Endpoint inst) on b))\<rparr> else s
                   | None \<Rightarrow> s)
          in case ts_kp s of
               Some k \<Rightarrow> if prefill_like inst then s\<lparr>ts_kp := Some (setDisabled on k)\<rparr> else s
             | None \<Rightarrow> s)"

definition fence_all :: "string list \<Rightarrow> bool \<Rightarrow> train_srv \<Rightarrow> train_srv" where
  "fence_all keys on s = foldl (\<lambda>s k. fence k on s) s keys"

definition applyTrainingFences :: "train_srv \<Rightarrow> train_srv" where
  "applyTrainingFences s = foldl (\<lambda>s t. fence_all (tx_Instances t) True s) s (openTrainTxs s)"


section \<open>Waits\<close>

definition srv_inflightOf :: "string \<Rightarrow> train_srv \<Rightarrow> int" where
  "srv_inflightOf key s =
     (case instance_of (ts_cfg s) key of
        None \<Rightarrow> 0
      | Some inst \<Rightarrow>
          if i_Endpoint inst = [] then 0
          else
            (case ts_bal s of
               Some b \<Rightarrow> (case nodeByURL (i_Endpoint inst) b of Some i \<Rightarrow> fst (dn_load (db_nodes b ! i)) | None \<Rightarrow> 0)
             | None \<Rightarrow> 0) +
            (case ts_kp s of
               Some k \<Rightarrow> if prefill_like inst then inflightOf (i_Endpoint inst) (pp_rooms k) else 0
             | None \<Rightarrow> 0))"

fun drain_loop :: "string list \<Rightarrow> float64 \<Rightarrow> (float64 \<times> train_srv) list \<Rightarrow> bool option" where
  "drain_loop keys deadline [] = None"
| "drain_loop keys deadline ((now, s) # ps) =
     (if sum_list (map (\<lambda>k. srv_inflightOf k s) keys) = 0 then Some True
      else if now > deadline then Some False
      else drain_loop keys deadline ps)"

definition ns_ms :: "int \<Rightarrow> float64" where
  "ns_ms d = of_int d / 10 ^ 6"

definition waitDrained :: "string list \<Rightarrow> float64 \<Rightarrow> int \<Rightarrow> (float64 \<times> train_srv) list \<Rightarrow> bool option" where
  "waitDrained keys now budget polls = drain_loop keys (now + ns_ms budget) polls"

text \<open>\<open>up url\<close> says whether the endpoint answers \<^verbatim>\<open>/health\<close>.\<close>

definition instanceUp :: "Config \<Rightarrow> (string \<Rightarrow> bool) \<Rightarrow> string \<Rightarrow> bool" where
  "instanceUp cfg up key =
     (case instance_of cfg key of None \<Rightarrow> False | Some inst \<Rightarrow> i_Endpoint inst \<noteq> [] \<and> up (i_Endpoint inst))"

definition ups_of :: "Config \<Rightarrow> (string \<Rightarrow> bool) \<Rightarrow> string list \<Rightarrow> (string \<times> bool) list" where
  "ups_of cfg up keys = foldl (\<lambda>m k. AList.update k (instanceUp cfg up k) m) [] keys"

fun up_loop :: "Config \<Rightarrow> string list \<Rightarrow> float64 \<Rightarrow> (float64 \<times> (string \<Rightarrow> bool)) list \<Rightarrow> (string \<times> bool) list option" where
  "up_loop cfg keys deadline [] = None"
| "up_loop cfg keys deadline ((now, up) # ps) =
     (if list_all (instanceUp cfg up) keys \<or> now > deadline then Some (ups_of cfg up keys)
      else up_loop cfg keys deadline ps)"

definition waitUp :: "Config \<Rightarrow> string list \<Rightarrow> float64 \<Rightarrow> int \<Rightarrow> (float64 \<times> (string \<Rightarrow> bool)) list \<Rightarrow> (string \<times> bool) list option" where
  "waitUp cfg keys now budget polls = up_loop cfg keys (now + ns_ms budget) polls"

definition is_up :: "(string \<times> bool) list \<Rightarrow> string \<Rightarrow> bool" where
  "is_up ups k = (map_of ups k = Some True)"

definition downKeys :: "(string \<times> bool) list \<Rightarrow> string list" where
  "downKeys ups = sort (map fst (filter (\<lambda>(k, u). \<not> u) ups))"

text \<open>\<open>raise\<close> is what raising a preset answers.\<close>

definition raiseInstance :: "Config \<Rightarrow> (Preset \<Rightarrow> Body) \<Rightarrow> string \<Rightarrow> bool \<times> string" where
  "raiseInstance cfg raise key =
     (case instance_of cfg key of
        None \<Rightarrow> (False, ''instancia desconocida'')
      | Some inst \<Rightarrow>
          (case find (\<lambda>p. pst_Endpoint p \<noteq> [] \<and> trim_slash (pst_Endpoint p) = trim_slash (i_Endpoint inst)) (c_Presets cfg) of
             Some p \<Rightarrow>
               let st = raise p;
                   reason = as_str (field st ''blocked'');
                   reason = (if reason = [] then as_str (field st ''error'') else reason);
                   reason = (if reason = [] then as_str (field st ''action'') else reason)
               in (case field st ''ok'' of Bool b \<Rightarrow> b | _ \<Rightarrow> False, reason)
           | None \<Rightarrow> (False, ''sin preset lanzable para '' @ key @ '': la remonta el runner de su nodo'')))"


section \<open>Requests\<close>

record train_env =
  tv_trim :: "string \<Rightarrow> string"
  tv_3339 :: "string \<Rightarrow> float64 option"
  tv_today :: "string \<Rightarrow> float64 option"
  tv_fmt :: "float64 \<Rightarrow> string"
  tv_now :: float64
  tv_sio :: save_io
  tv_drain :: "(float64 \<times> train_srv) list"
  tv_up :: "string \<Rightarrow> bool"
  tv_stopped :: "string \<Rightarrow> bool"
  tv_polls :: "string \<Rightarrow> (float64 \<times> (string \<Rightarrow> bool)) list"
  tv_raise :: "Preset \<Rightarrow> Body"
  tv_mid :: "train_srv \<Rightarrow> train_srv"
  tv_docker :: "string list \<Rightarrow> (string, string) result"

text \<open>\<open>tv_today\<close> reads \<^verbatim>\<open>15:04\<close> as an instant of the current day.\<close>

definition parseDeadline :: "train_env \<Rightarrow> string \<Rightarrow> (string, float64) result" where
  "parseDeadline env v =
     (let v = tv_trim env v
      in if v = [] then Inr (tv_now env + trainDeadlineDefault)
         else case tv_3339 env v of
                Some t \<Rightarrow> Inr t
              | None \<Rightarrow>
                  (case tv_today env v of
                     Some d \<Rightarrow> Inr (if \<not> d > tv_now env then d + 24 * 3600000 else d)
                   | None \<Rightarrow> Inl ''deadline invalido''))"

definition clampSeconds :: "int \<Rightarrow> int \<Rightarrow> int \<Rightarrow> int" where
  "clampSeconds v def mx =
     (if v \<le> 0 then def
      else let d = wrap64 (v * 10 ^ 9) in if d > mx then mx else d)"

definition originOf :: "(string \<Rightarrow> string option) \<Rightarrow> string \<Rightarrow> string" where
  "originOf splitHost addr = (case splitHost addr of Some h \<Rightarrow> h | None \<Rightarrow> addr)"

fun dedupe_loop :: "(string \<Rightarrow> string) \<Rightarrow> string list \<Rightarrow> string list \<Rightarrow> string list" where
  "dedupe_loop trim [] out = out"
| "dedupe_loop trim (k # ks) out =
     (let k = trim k in if k = [] \<or> k \<in> set out then dedupe_loop trim ks out else dedupe_loop trim ks (out @ [k]))"

definition dedupe :: "(string \<Rightarrow> string) \<Rightarrow> string list \<Rightarrow> string list" where
  "dedupe trim ks = dedupe_loop trim ks []"

record begin_req =
  br_Job :: string
  br_Node :: string
  br_Instances :: "string list"
  br_Deadline :: string
  br_DrainS :: int
  br_Stop :: bool
  br_Note :: string

definition bad_request :: "string \<Rightarrow> http_resp" where
  "bad_request e = JsonResp 400 [(''error'', Str e)]"

text \<open>The instance of an open transaction the request also asks for, with the job that has it.\<close>

definition busy_with :: "string list \<Rightarrow> (string \<times> trainTx) list \<Rightarrow> (string \<times> string) option" where
  "busy_with wants txs =
     (case concat (map (\<lambda>(_, t). map (\<lambda>k. (k, tx_Job t)) (filter (\<lambda>k. k \<in> set wants) (tx_Instances t))) txs) of
        [] \<Rightarrow> None
      | x # _ \<Rightarrow> Some x)"

text \<open>The section of \<^verbatim>\<open>trainBegin\<close> under the lock.\<close>

definition open_locked :: "save_io \<Rightarrow> trainTx \<Rightarrow> train_srv \<Rightarrow> (http_resp, train_srv) result" where
  "open_locked sio tx s =
     (if map_of (ts_txs s) (tx_Job tx) \<noteq> None then
        Inl (JsonResp 409 [(''error'', Str ''el job ya tiene una transaccion abierta'')])
      else case busy_with (tx_Instances tx) (ts_txs s) of
             Some (k, job) \<Rightarrow> Inl (JsonResp 409 [(''error'', Str (k @ '' ya esta en entrenamiento por el job '' @ job))])
           | None \<Rightarrow> Inr (saveTrainLocked sio (s\<lparr>ts_txs := AList.update (tx_Job tx) tx (ts_txs s)\<rparr>)))"

definition begin_row :: "train_env \<Rightarrow> train_srv \<Rightarrow> bool \<Rightarrow> string \<Rightarrow> Body" where
  "begin_row env s stop k =
     (let ep = (case instance_of (ts_cfg s) k of Some i \<Rightarrow> i_Endpoint i | None \<Rightarrow> []);
          row = [(''key'', Str k), (''endpoint'', Str ep), (''inflight'', Num (srv_inflightOf k s)),
                 (''up'', Bool (instanceUp (ts_cfg s) (tv_up env) k))]
      in if stop \<and> ep \<noteq> []
         then put ''up'' (Bool (instanceUp (ts_cfg s) (tv_stopped env) k)) (put ''parada_pedida'' (Bool True) row) else row)"

definition stops :: "train_srv \<Rightarrow> bool \<Rightarrow> string list \<Rightarrow> string list" where
  "stops s stop ks =
     (if stop then filter (\<lambda>e. e \<noteq> []) (map (\<lambda>k. case instance_of (ts_cfg s) k of Some i \<Rightarrow> i_Endpoint i | None \<Rightarrow> []) ks) else [])"

text \<open>
  The result is the answer, \<open>None\<close> while the drain still waits, the endpoints whose engines were told to stop, and the
  server. \<open>None\<close> as the request is a body that does not decode.
\<close>

definition trainBegin :: "train_env \<Rightarrow> string \<Rightarrow> begin_req option \<Rightarrow> train_srv \<Rightarrow> (http_resp option \<times> string list) \<times> train_srv" where
  "trainBegin env origin req s =
     (case req of
        None \<Rightarrow> ((Some (bad_request ''body JSON invalido''), []), s)
      | Some req \<Rightarrow>
          let job = tv_trim env (br_Job req);
              insts = dedupe (tv_trim env) (br_Instances req)
          in if job = [] then ((Some (bad_request ''job requerido''), []), s)
             else if insts = [] then ((Some (bad_request ''instancias requeridas''), []), s)
             else case find (\<lambda>k. instance_of (ts_cfg s) k = None) insts of
                    Some k \<Rightarrow> ((Some (bad_request (''instancia desconocida: '' @ k)), []), s)
                  | None \<Rightarrow>
                      (case parseDeadline env (br_Deadline req) of
                         Inl e \<Rightarrow> ((Some (bad_request e), []), s)
                       | Inr deadline \<Rightarrow>
                           let tx = \<lparr>tx_Job = job, tx_Node = br_Node req, tx_Instances = insts, tx_Deadline = deadline,
                                     tx_Started = tv_now env, tx_Origin = origin, tx_Phase = trainPhaseTraining, tx_Alerted = False,
                                     tx_Note = br_Note req\<rparr>
                           in case open_locked (tv_sio env) tx s of
                                Inl r \<Rightarrow> ((Some r, []), s)
                              | Inr s \<Rightarrow>
                                  let s = fence_all insts True s
                                  in case waitDrained insts (tv_now env) (clampSeconds (br_DrainS req) trainDrainDefault trainDrainMax) (tv_drain env) of
                                       None \<Rightarrow> ((None, []), s)
                                     | Some drained \<Rightarrow>
                                         ((Some (JsonResp 200 [(''ok'', Bool True), (''job'', Str job), (''deadline'', Str (tv_fmt env deadline)),
                                             (''drenado'', Bool drained), (''instancias'', Objs (map (begin_row env s (br_Stop req)) insts))]),
                                           stops s (br_Stop req) insts), s)))"

text \<open>The section of \<^verbatim>\<open>closeTrain\<close> under the lock: the keys to let back in.\<close>

definition close_locked :: "save_io \<Rightarrow> string \<Rightarrow> train_srv \<Rightarrow> (string list \<times> train_srv) option" where
  "close_locked sio job s =
     (case map_of (ts_txs s) job of
        None \<Rightarrow> None
      | Some t \<Rightarrow> Some (tx_Instances t, saveTrainLocked sio (s\<lparr>ts_txs := AList.delete job (ts_txs s)\<rparr>)))"

definition closeTrain :: "save_io \<Rightarrow> string \<Rightarrow> train_srv \<Rightarrow> train_srv" where
  "closeTrain sio job s =
     (case close_locked sio job s of None \<Rightarrow> s | Some (keys, s) \<Rightarrow> fence_all keys False s)"

definition on_tx :: "save_io \<Rightarrow> string \<Rightarrow> (trainTx \<Rightarrow> trainTx) \<Rightarrow> train_srv \<Rightarrow> train_srv" where
  "on_tx sio job f s =
     (case map_of (ts_txs s) job of
        Some t \<Rightarrow> saveTrainLocked sio (s\<lparr>ts_txs := AList.update job (f t) (ts_txs s)\<rparr>)
      | None \<Rightarrow> s)"

record end_req =
  er_Job :: string
  er_Raise :: bool
  er_WaitS :: int
  er_Force :: bool

definition end_rows :: "Config \<Rightarrow> (string \<times> bool) list \<Rightarrow> string list \<Rightarrow> Body list" where
  "end_rows cfg ups ks =
     map (\<lambda>k. [(''key'', Str k), (''endpoint'', Str (case instance_of cfg k of Some i \<Rightarrow> i_Endpoint i | None \<Rightarrow> [])), (''up'', Bool (is_up ups k))]) ks"

definition raised_rows :: "Config \<Rightarrow> (Preset \<Rightarrow> Body) \<Rightarrow> bool \<Rightarrow> string list \<Rightarrow> Body" where
  "raised_rows cfg raise on ks =
     (if on then foldl (\<lambda>m k. let (ok, why) = raiseInstance cfg raise k in AList.update k (Obj [(''ok'', Bool ok), (''detalle'', Str why)]) m) [] ks
      else [])"

definition trainEnd :: "train_env \<Rightarrow> end_req option \<Rightarrow> train_srv \<Rightarrow> http_resp option \<times> train_srv" where
  "trainEnd env req s =
     (case req of
        None \<Rightarrow> (Some (bad_request ''body JSON invalido''), s)
      | Some req \<Rightarrow>
          let job = tv_trim env (er_Job req)
          in case map_of (ts_txs s) job of
               None \<Rightarrow> (Some (JsonResp 404 [(''error'', Str ''el job no tiene una transaccion abierta'')]), s)
             | Some tx \<Rightarrow>
                 let keys = tx_Instances tx;
                     raised = raised_rows (ts_cfg s) (tv_raise env) (er_Raise req) keys
                 in case waitUp (ts_cfg s) keys (tv_now env) (clampSeconds (er_WaitS req) trainWaitDefault trainWaitMax) (tv_polls env job) of
                      None \<Rightarrow> (None, s)
                    | Some ups \<Rightarrow>
                        let s = tv_mid env s;
                            rows = Objs (end_rows (ts_cfg s) ups keys);
                            allUp = list_all (is_up ups) keys
                        in if allUp \<or> er_Force req then
                             (Some (JsonResp 200 [(''ok'', Bool True), (''job'', Str (tx_Job tx)), (''todas_arriba'', Bool allUp), (''instancias'', rows),
                                (''levantar'', Obj raised)]), closeTrain (tv_sio env) (tx_Job tx) s)
                           else
                             (Some (JsonResp 202 [(''ok'', Bool False), (''job'', Str (tx_Job tx)), (''todas_arriba'', Bool False), (''instancias'', rows),
                                (''levantar'', Obj raised)]), on_tx (tv_sio env) (tx_Job tx) (\<lambda>t. t\<lparr>tx_Phase := trainPhaseReload\<rparr>) s))"

definition trainList :: "train_env \<Rightarrow> train_srv \<Rightarrow> http_resp" where
  "trainList env s =
     JsonResp 200 [(''transacciones'', Objs (map (\<lambda>t.
       [(''job'', Str (tx_Job t)), (''node'', Str (tx_Node t)), (''fase'', Str (tx_Phase t)), (''inicio'', Str (tv_fmt env (tx_Started t))),
        (''deadline'', Str (tv_fmt env (tx_Deadline t))), (''avisado'', Bool (tx_Alerted t)), (''nota'', Str (tx_Note t)),
        (''instancias'', Objs (map (\<lambda>k. [(''key'', Str k),
           (''endpoint'', Str (case instance_of (ts_cfg s) k of Some i \<Rightarrow> i_Endpoint i | None \<Rightarrow> [])),
           (''up'', Bool (instanceUp (ts_cfg s) (tv_up env) k))]) (tx_Instances t)))]) (openTrainTxs s)))]"


section \<open>The watchdog\<close>

definition sendWhatsApp :: "train_env \<Rightarrow> Alerts \<Rightarrow> string \<Rightarrow> string option" where
  "sendWhatsApp env a msg =
     (if al_Target a = [] then Some ''sin destino''
      else
        let container = (if al_Container a = [] then ''openclaw-openclaw-gateway-1'' else al_Container a);
            docker = (if al_Docker a = [] then ''docker'' else al_Docker a)
        in case tv_docker env [docker, ''exec'', container, ''sh'', ''-c'',
                  ''unset OPENCLAW_GATEWAY_TOKEN; node dist/index.js message send --channel whatsapp --target \"$1\" -m \"$2\"'',
                  ''sh'', al_Target a, msg] of
             Inl e \<Rightarrow> Some e
           | Inr out \<Rightarrow> if contains out ''Sent via gateway'' then None else Some (''sin confirmacion del gateway: '' @ out))"

text \<open>The keys the watchdog could not bring back; \<open>None\<close> while a wait goes on.\<close>

fun raise_down :: "train_env \<Rightarrow> Config \<Rightarrow> string list \<Rightarrow> string list option" where
  "raise_down env cfg [] = Some []"
| "raise_down env cfg (k # ks) =
     (if fst (raiseInstance cfg (tv_raise env) k) then
        (case waitUp cfg [k] (tv_now env) (30 * 10 ^ 9) (tv_polls env k) of
           None \<Rightarrow> None
         | Some ups \<Rightarrow> if is_up ups k then raise_down env cfg ks else map_option (\<lambda>d. k # d) (raise_down env cfg ks))
      else map_option (\<lambda>d. k # d) (raise_down env cfg ks))"

text \<open>One transaction of the loop of \<^verbatim>\<open>trainCheck\<close>: the alerts sent and the server.\<close>

definition check_tx :: "train_env \<Rightarrow> trainTx \<Rightarrow> train_srv \<Rightarrow> (string list \<times> train_srv) option" where
  "check_tx env t s =
     (let ups = ups_of (ts_cfg s) (tv_up env) (tx_Instances t);
          allUp = list_all (instanceUp (ts_cfg s) (tv_up env)) (tx_Instances t)
      in if allUp \<and> (tx_Phase t = trainPhaseReload \<or> tv_now env > tx_Deadline t) then Some ([], closeTrain (tv_sio env) (tx_Job t) s)
         else if tv_now env < tx_Deadline t then Some ([], s)
         else case raise_down env (ts_cfg s) (downKeys ups) of
                None \<Rightarrow> None
              | Some [] \<Rightarrow> Some ([], closeTrain (tv_sio env) (tx_Job t) s)
              | Some d \<Rightarrow>
                  if tx_Alerted t then Some ([], s)
                  else Some ([tx_Job t], on_tx (tv_sio env) (tx_Job t) (\<lambda>t. t\<lparr>tx_Alerted := True\<rparr>) s))"

fun check_loop :: "train_env \<Rightarrow> trainTx list \<Rightarrow> train_srv \<Rightarrow> (string list \<times> train_srv) option" where
  "check_loop env [] s = Some ([], s)"
| "check_loop env (t # ts) s =
     (case check_tx env t s of
        None \<Rightarrow> None
      | Some (a, s) \<Rightarrow> (case check_loop env ts s of None \<Rightarrow> None | Some (as, s) \<Rightarrow> Some (a @ as, s)))"

definition trainCheck :: "train_env \<Rightarrow> train_srv \<Rightarrow> (string list \<times> train_srv) option" where
  "trainCheck env s = check_loop env (openTrainTxs s) s"

definition trainModelName :: "string \<Rightarrow> string" where
  "trainModelName p =
     (let p = rev (takeWhile (\<lambda>c. c \<noteq> CHR ''/'' \<and> c \<noteq> CHR 0x5C) (rev p))
      in case strip_end ''.gguf'' p of Some q \<Rightarrow> q | None \<Rightarrow> p)"


section \<open>What is fenced\<close>

definition excluded_at :: "decodeBalancer \<Rightarrow> string \<Rightarrow> bool option" where
  "excluded_at b url = map_option (\<lambda>i. dn_excluded (db_nodes b ! i)) (nodeByURL url b)"

definition dec_mark :: "train_srv \<Rightarrow> string \<Rightarrow> bool option" where
  "dec_mark s key =
     (case instance_of (ts_cfg s) key of
        Some inst \<Rightarrow> if decode_like inst then Option.bind (ts_bal s) (\<lambda>b. excluded_at b (i_Endpoint inst)) else None
      | None \<Rightarrow> None)"

definition pre_mark :: "train_srv \<Rightarrow> string \<Rightarrow> bool option" where
  "pre_mark s key =
     (case instance_of (ts_cfg s) key of
        Some inst \<Rightarrow> if prefill_like inst then map_option pp_disabled (ts_kp s) else None
      | None \<Rightarrow> None)"

text \<open>No two decode instances at one endpoint and no two prefill instances.\<close>

definition cfg_ok :: "Config \<Rightarrow> bool" where
  "cfg_ok cfg \<longleftrightarrow>
     (\<forall>k1 k2 i1 i2. instance_of cfg k1 = Some i1 \<longrightarrow> instance_of cfg k2 = Some i2 \<longrightarrow> k1 \<noteq> k2 \<longrightarrow>
        \<not> (decode_like i1 \<and> decode_like i2 \<and> trim_slash (i_Endpoint i1) = trim_slash (i_Endpoint i2)) \<and>
        \<not> (prefill_like i1 \<and> prefill_like i2))"

lemma index_of_Some: "index_of p j xs = Some i \<Longrightarrow> j \<le> i \<and> i - j < length xs \<and> p (xs ! (i - j))"
proof (induction xs arbitrary: j)
  case (Cons x xs)
  show ?case
  proof (cases "p x")
    case True
    then show ?thesis using Cons.prems by auto
  next
    case False
    then have "Suc j \<le> i \<and> i - Suc j < length xs \<and> p (xs ! (i - Suc j))" using Cons by simp
    moreover from this have "i - j = Suc (i - Suc j)" by arith
    ultimately show ?thesis by simp
  qed
qed simp

lemma index_of_url:
  assumes "map dn_url xs = map dn_url ys"
  shows "index_of (\<lambda>n. dn_url n = u) j xs = index_of (\<lambda>n. dn_url n = u) j ys"
  using assms
proof (induction xs arbitrary: ys j)
  case (Cons x xs)
  then show ?case by (cases ys) auto
qed simp

lemma nodeByURL_Some: "nodeByURL u b = Some i \<Longrightarrow> i < length (db_nodes b) \<and> dn_url (db_nodes b ! i) = trim_slash u"
  using index_of_Some[of "\<lambda>n. dn_url n = trim_slash u" 0 "db_nodes b" i] by (simp add: nodeByURL_def Let_def)

lemma excluded_setExcluded:
  "excluded_at (snd (setExcluded u on b)) v = (if trim_slash u = trim_slash v then map_option (\<lambda>_. on) (excluded_at b v) else excluded_at b v)"
proof (cases "nodeByURL u b")
  case None
  then have "trim_slash u = trim_slash v \<Longrightarrow> nodeByURL v b = None" by (simp add: nodeByURL_def Let_def)
  then show ?thesis using None by (simp add: setExcluded_def excluded_at_def)
next
  case (Some i)
  define b' where "b' = on_node i (\<lambda>n. n\<lparr>dn_excluded := on\<rparr>) b"
  have i: "i < length (db_nodes b)" "dn_url (db_nodes b ! i) = trim_slash u" using nodeByURL_Some[OF Some] by auto
  have "map dn_url (db_nodes b') = map dn_url (db_nodes b)" using i(1) by (auto simp: b'_def on_node_def intro: nth_equalityI simp: nth_list_update)
  then have same: "nodeByURL v b' = nodeByURL v b" unfolding nodeByURL_def Let_def by (rule index_of_url)
  have b': "snd (setExcluded u on b) = b'" using Some by (simp add: setExcluded_def b'_def)
  show ?thesis
  proof (cases "nodeByURL v b")
    case None
    then show ?thesis using same by (simp add: b' excluded_at_def)
  next
    case sv: (Some j)
    have j: "j < length (db_nodes b)" "dn_url (db_nodes b ! j) = trim_slash v" using nodeByURL_Some[OF sv] by auto
    have "i = j \<longleftrightarrow> trim_slash u = trim_slash v" using i(2) j(2) Some sv by (auto simp: nodeByURL_def Let_def)
    then show ?thesis using same sv i(1) j(1) by (auto simp: b' excluded_at_def b'_def on_node_def nth_list_update)
  qed
qed

lemma fence_frame [simp]: "ts_cfg (fence k on s) = ts_cfg s" "ts_txs (fence k on s) = ts_txs s" "ts_file (fence k on s) = ts_file s"
  by (simp_all add: fence_def Let_def split: option.split)

lemma fence_marks:
  assumes "cfg_ok (ts_cfg s)"
  shows "dec_mark (fence k on s) key = (if key = k then map_option (\<lambda>_. on) (dec_mark s key) else dec_mark s key)"
    and "pre_mark (fence k on s) key = (if key = k then map_option (\<lambda>_. on) (pre_mark s key) else pre_mark s key)"
proof -
  have "dec_mark (fence k on s) key = (if key = k then map_option (\<lambda>_. on) (dec_mark s key) else dec_mark s key) \<and>
    pre_mark (fence k on s) key = (if key = k then map_option (\<lambda>_. on) (pre_mark s key) else pre_mark s key)"
  proof (cases "instance_of (ts_cfg s) k")
    case None
    then show ?thesis by (simp add: fence_def dec_mark_def pre_mark_def)
  next
    case (Some inst)
    have bal: "ts_bal (fence k on s) = (if decode_like inst then map_option (\<lambda>b. snd (setExcluded (i_Endpoint inst) on b)) (ts_bal s) else ts_bal s)"
      and kp: "ts_kp (fence k on s) = (if prefill_like inst then map_option (setDisabled on) (ts_kp s) else ts_kp s)"
      using Some by (simp_all add: fence_def Let_def split: option.split)
    show ?thesis
    proof (cases "instance_of (ts_cfg s) key")
      case None
      then show ?thesis by (auto simp: dec_mark_def pre_mark_def)
    next
      case si: (Some inst2)
      show ?thesis
      proof (cases "key = k")
        case True
        then show ?thesis using si Some
          by (cases "ts_bal s"; cases "ts_kp s") (simp_all add: dec_mark_def pre_mark_def bal kp excluded_setExcluded setDisabled_def)
      next
        case False
        then have apart: "\<not> (decode_like inst \<and> decode_like inst2 \<and> trim_slash (i_Endpoint inst) = trim_slash (i_Endpoint inst2))"
          "\<not> (prefill_like inst \<and> prefill_like inst2)"
          using assms Some si unfolding cfg_ok_def by blast+
        show ?thesis using apart False si
          by (cases "ts_bal s"; cases "ts_kp s") (auto simp: dec_mark_def pre_mark_def bal kp excluded_setExcluded)
      qed
    qed
  qed
  then show "dec_mark (fence k on s) key = (if key = k then map_option (\<lambda>_. on) (dec_mark s key) else dec_mark s key)"
    "pre_mark (fence k on s) key = (if key = k then map_option (\<lambda>_. on) (pre_mark s key) else pre_mark s key)" by blast+
qed

text \<open>Whatever can be fenced of an instance is fenced, or let in, as \<open>v\<close> says.\<close>

definition marked :: "train_srv \<Rightarrow> string \<Rightarrow> bool \<Rightarrow> bool" where
  "marked s key v \<longleftrightarrow> dec_mark s key \<noteq> Some (\<not> v) \<and> pre_mark s key \<noteq> Some (\<not> v)"

lemma fence_all_frame [simp]:
  "ts_cfg (fence_all ks on s) = ts_cfg s" "ts_txs (fence_all ks on s) = ts_txs s" "ts_file (fence_all ks on s) = ts_file s"
  unfolding fence_all_def by (induction ks arbitrary: s) simp_all

lemma fence_marked:
  assumes "cfg_ok (ts_cfg s)"
  shows "marked (fence k on s) key v \<longleftrightarrow> (if key = k then dec_mark s key = None \<and> pre_mark s key = None \<or> v = on else marked s key v)"
  unfolding marked_def fence_marks[OF assms] by (cases "dec_mark s key"; cases "pre_mark s key") auto

lemma fence_all_marked:
  assumes "cfg_ok (ts_cfg s)" "\<forall>key. marked s key (f key)"
  shows "marked (fence_all ks on s) key (if key \<in> set ks then on else f key)"
  using assms
proof (induction ks arbitrary: s f key)
  case (Cons k ks)
  have "\<forall>key. marked (fence k on s) key (if key = k then on else f key)" using Cons.prems by (simp add: fence_marked)
  from Cons.IH[OF _ this, of key] Cons.prems(1) show ?case by (auto simp: fence_all_def split: if_splits)
qed (simp add: fence_all_def)


section \<open>The invariant\<close>

definition in_training :: "train_srv \<Rightarrow> string \<Rightarrow> bool" where
  "in_training s key \<longleftrightarrow> (\<exists>t\<in>snd ` set (ts_txs s). key \<in> set (tx_Instances t))"

definition tx_ok :: "Config \<Rightarrow> trainTx \<Rightarrow> bool" where
  "tx_ok cfg t \<longleftrightarrow> tx_Job t \<noteq> [] \<and> tx_Phase t \<noteq> [] \<and> tx_Instances t \<noteq> [] \<and> (\<forall>k\<in>set (tx_Instances t). instance_of cfg k \<noteq> None)"

definition apart :: "trainTx \<Rightarrow> trainTx \<Rightarrow> bool" where
  "apart t u \<longleftrightarrow> set (tx_Instances t) \<inter> set (tx_Instances u) = {}"

definition txs_ok :: "Config \<Rightarrow> (string \<times> trainTx) list \<Rightarrow> bool" where
  "txs_ok cfg txs \<longleftrightarrow> distinct (map fst txs) \<and> (\<forall>(j, t)\<in>set txs. tx_Job t = j \<and> tx_ok cfg t) \<and>
     (\<forall>(i, t)\<in>set txs. \<forall>(j, u)\<in>set txs. i \<noteq> j \<longrightarrow> apart t u)"

definition disk_txs :: "train_srv \<Rightarrow> (string \<times> trainTx) list" where
  "disk_txs s = (case ts_file s of Some (TGood ts) \<Rightarrow> load_txs ts | _ \<Rightarrow> [])"

text \<open>\<open>saved\<close> says that every write of the file succeeded.\<close>

definition train_inv :: "bool \<Rightarrow> train_srv \<Rightarrow> bool" where
  "train_inv saved s \<longleftrightarrow> cfg_ok (ts_cfg s) \<and> txs_ok (ts_cfg s) (ts_txs s) \<and> (\<forall>key. marked s key (in_training s key)) \<and>
     txs_ok (ts_cfg s) (disk_txs s) \<and> (saved \<longrightarrow> set (disk_txs s) = set (ts_txs s))"

lemma txs_ok_set: "set xs = set ys \<Longrightarrow> distinct (map fst xs) \<Longrightarrow> txs_ok cfg ys \<Longrightarrow> txs_ok cfg xs"
  by (simp add: txs_ok_def)

lemma set_update_distinct:
  assumes "distinct (map fst xs)"
  shows "set (AList.update k v xs) = insert (k, v) {x \<in> set xs. fst x \<noteq> k}"
  using assms by (induction xs) (force)+

lemma update_new: "k \<notin> fst ` set xs \<Longrightarrow> AList.update k v xs = xs @ [(k, v)]"
  by (induction xs) auto

lemma set_delete: "set (AList.delete k xs) = {x \<in> set xs. fst x \<noteq> k}"
  by (auto simp: AList.delete_eq)

lemma load_txs_distinct: "distinct (map fst (load_txs ts))"
proof -
  have "distinct (map fst m) \<Longrightarrow> distinct (map fst (foldl (\<lambda>m t. case t of
              Some t \<Rightarrow> if tx_Job t \<noteq> [] then AList.update (tx_Job t) (loaded_tx t) m else m
            | None \<Rightarrow> m) m ts))" for m :: "(string \<times> trainTx) list"
    by (induction ts arbitrary: m) (auto simp: distinct_update split: option.split)
  then show ?thesis by (simp add: load_txs_def)
qed

lemma load_saved:
  assumes "\<forall>t\<in>set ts. tx_ok cfg t" "distinct (map tx_Job ts)"
  shows "set (load_txs (map Some ts)) = (\<lambda>t. (tx_Job t, t)) ` set ts"
proof -
  have "set (foldl (\<lambda>m t. case t of
              Some t \<Rightarrow> if tx_Job t \<noteq> [] then AList.update (tx_Job t) (loaded_tx t) m else m
            | None \<Rightarrow> m) m (map Some ts)) = set m \<union> (\<lambda>t. (tx_Job t, t)) ` set ts"
    if "distinct (map fst m)" "fst ` set m \<inter> tx_Job ` set ts = {}" for m :: "(string \<times> trainTx) list"
    using assms that
  proof (induction ts arbitrary: m)
    case (Cons t ts)
    have ok: "tx_Job t \<noteq> []" "loaded_tx t = t" using Cons.prems(1) by (auto simp: tx_ok_def loaded_tx_def)
    define m' where "m' = AList.update (tx_Job t) t m"
    have "tx_Job t \<notin> fst ` set m" using Cons.prems(4) by auto
    then have m': "set m' = insert (tx_Job t, t) (set m)" "distinct (map fst m')"
      using Cons.prems(3) by (simp_all add: m'_def update_new distinct_update)
    then have "fst ` set m' \<inter> tx_Job ` set ts = {}" using Cons.prems(2,4) by auto
    then show ?case using Cons.IH[OF _ _ m'(2)] Cons.prems(1,2) m'(1) ok by (simp add: m'_def)
  qed simp
  then show ?thesis by (simp add: load_txs_def)
qed

lemma txs_jobs: "txs_ok cfg txs \<Longrightarrow> map tx_Job (map snd txs) = map fst txs"
  by (auto simp: txs_ok_def)

lemma saved_disk:
  assumes "txs_ok cfg (ts_txs s)"
  shows "set (disk_txs (saveTrainLocked Saved s)) = set (ts_txs s)"
proof -
  define ts where "ts = sort_key tx_Started (map snd (ts_txs s))"
  have "distinct (map tx_Job (map snd (ts_txs s)))" unfolding txs_jobs[OF assms] using assms by (simp add: txs_ok_def)
  moreover have "mset (map tx_Job ts) = mset (map tx_Job (map snd (ts_txs s)))" by (simp add: ts_def multiset.map_comp)
  ultimately have "distinct (map tx_Job ts)" using mset_eq_imp_distinct_iff by blast
  moreover have "\<forall>t\<in>set ts. tx_ok cfg t" using assms by (auto simp: ts_def txs_ok_def)
  ultimately have "set (load_txs (map Some ts)) = (\<lambda>t. (tx_Job t, t)) ` set ts" by (intro load_saved)
  also have "\<dots> = set (ts_txs s)"
  proof -
    have "\<forall>x\<in>set (ts_txs s). (tx_Job (snd x), snd x) = x" using assms by (auto simp: txs_ok_def)
    then show ?thesis by (simp add: ts_def image_image)
  qed
  finally show ?thesis by (simp add: disk_txs_def saveTrainLocked_def Let_def ts_def)
qed

lemma save_frame [simp]: "ts_cfg (saveTrainLocked sio s) = ts_cfg s" "ts_txs (saveTrainLocked sio s) = ts_txs s"
  "ts_bal (saveTrainLocked sio s) = ts_bal s" "ts_kp (saveTrainLocked sio s) = ts_kp s"
  by (simp_all add: saveTrainLocked_def Let_def split: save_io.split)

lemma marked_cong: "ts_cfg s = ts_cfg s' \<Longrightarrow> ts_bal s = ts_bal s' \<Longrightarrow> ts_kp s = ts_kp s' \<Longrightarrow> marked s key v \<longleftrightarrow> marked s' key v"
  by (simp add: marked_def dec_mark_def pre_mark_def split: option.split)

lemma disk_cong: "ts_file s = ts_file s' \<Longrightarrow> disk_txs s = disk_txs s'"
  by (simp add: disk_txs_def)

lemma disk_distinct: "distinct (map fst (disk_txs s))"
  by (simp add: disk_txs_def load_txs_distinct split: option.split train_file.split)

text \<open>The new table under the lock, with the fences of its keys brought in line afterwards.\<close>

lemma relock_inv:
  assumes "train_inv saved s" "txs_ok (ts_cfg s) txs" "saved \<longrightarrow> sio = Saved"
    and "\<And>key. (\<exists>t\<in>snd ` set txs. key \<in> set (tx_Instances t)) = (if key \<in> set ks then on else in_training s key)"
  shows "train_inv saved (fence_all ks on (saveTrainLocked sio (s\<lparr>ts_txs := txs\<rparr>)))"
proof -
  define s1 where "s1 = saveTrainLocked sio (s\<lparr>ts_txs := txs\<rparr>)"
  have m: "\<forall>key. marked s1 key (in_training s key)"
    using assms(1) marked_cong[of s1 s] by (simp add: train_inv_def s1_def)
  have c: "cfg_ok (ts_cfg s1)" using assms(1) by (simp add: train_inv_def s1_def)
  have "in_training (fence_all ks on s1) key = (if key \<in> set ks then on else in_training s key)" for key
    using assms(4) by (simp add: in_training_def s1_def)
  then have "marked (fence_all ks on s1) key (in_training (fence_all ks on s1) key)" for key using fence_all_marked[OF c m, of ks on key] by simp
  moreover have "txs_ok (ts_cfg s) (disk_txs s1) \<and> (sio = Saved \<longrightarrow> set (disk_txs s1) = set txs)"
  proof (cases "sio = Saved")
    case True
    then have "set (disk_txs s1) = set txs" using saved_disk[of "ts_cfg s" "s\<lparr>ts_txs := txs\<rparr>"] assms(2) by (simp add: s1_def)
    then show ?thesis using txs_ok_set disk_distinct assms(2) by blast
  next
    case False
    then have "disk_txs s1 = disk_txs s" by (cases sio) (simp_all add: s1_def saveTrainLocked_def Let_def disk_txs_def)
    then show ?thesis using False assms(1) by (simp add: train_inv_def)
  qed
  moreover have "disk_txs (fence_all ks on s1) = disk_txs s1" by (rule disk_cong) simp
  ultimately have "\<And>key. marked (fence_all ks on s1) key (in_training (fence_all ks on s1) key)" "txs_ok (ts_cfg s) (disk_txs (fence_all ks on s1))"
    "saved \<longrightarrow> set (disk_txs (fence_all ks on s1)) = set txs" using assms(3) by simp_all
  moreover have "ts_cfg s1 = ts_cfg s" "ts_txs s1 = txs" by (simp_all add: s1_def)
  ultimately show ?thesis using assms(2) c unfolding s1_def[symmetric] train_inv_def by simp
qed

lemma ex_key:
  assumes "distinct (map fst xs)" "(k, t) \<in> set xs"
  shows "(\<exists>u\<in>snd ` set xs. P u) \<longleftrightarrow> P t \<or> (\<exists>x\<in>set xs. fst x \<noteq> k \<and> P (snd x))"
proof
  assume "\<exists>u\<in>snd ` set xs. P u"
  then obtain j u where u: "(j, u) \<in> set xs" "P u" by auto
  show "P t \<or> (\<exists>x\<in>set xs. fst x \<noteq> k \<and> P (snd x))"
  proof (cases "j = k")
    case True
    then have "u = t" using u(1) assms by (metis map_of_is_SomeI option.inject)
    then show ?thesis using u(2) by simp
  next
    case False
    then show ?thesis using u by force
  qed
next
  assume "P t \<or> (\<exists>x\<in>set xs. fst x \<noteq> k \<and> P (snd x))"
  then show "\<exists>u\<in>snd ` set xs. P u" using assms(2) by force
qed

lemma in_training_tx: "txs_ok cfg txs \<Longrightarrow> (i, t) \<in> set txs \<Longrightarrow> (j, u) \<in> set txs \<Longrightarrow> key \<in> set (tx_Instances t) \<Longrightarrow> key \<in> set (tx_Instances u) \<Longrightarrow> i = j \<and> t = u"
proof -
  assume a: "txs_ok cfg txs" "(i, t) \<in> set txs" "(j, u) \<in> set txs" "key \<in> set (tx_Instances t)" "key \<in> set (tx_Instances u)"
  then have "i = j" unfolding txs_ok_def apart_def by blast
  then show ?thesis using a unfolding txs_ok_def by (metis map_of_is_SomeI option.inject)
qed

lemma busy_None: "busy_with wants txs = None \<longleftrightarrow> (\<forall>(j, t)\<in>set txs. set wants \<inter> set (tx_Instances t) = {})"
proof -
  define hits where "hits = concat (map (\<lambda>(_, t). map (\<lambda>k. (k, tx_Job t)) (filter (\<lambda>k. k \<in> set wants) (tx_Instances t))) txs)"
  have "busy_with wants txs = None \<longleftrightarrow> hits = []" unfolding busy_with_def hits_def[symmetric] by (simp split: list.split)
  also have "\<dots> \<longleftrightarrow> (\<forall>(j, t)\<in>set txs. set wants \<inter> set (tx_Instances t) = {})" 
    unfolding hits_def by (fastforce simp: filter_empty_conv)
  finally show ?thesis .
qed

lemma open_inv:
  assumes "train_inv saved s" "open_locked sio tx s = Inr s'" "tx_ok (ts_cfg s) tx" "saved \<longrightarrow> sio = Saved"
  shows "train_inv saved (fence_all (tx_Instances tx) True s')"
proof -
  define txs where "txs = AList.update (tx_Job tx) tx (ts_txs s)"
  have new: "map_of (ts_txs s) (tx_Job tx) = None" "busy_with (tx_Instances tx) (ts_txs s) = None" "s' = saveTrainLocked sio (s\<lparr>ts_txs := txs\<rparr>)"
    using assms(2) by (auto simp: open_locked_def txs_def split: if_splits option.splits)
  have ok: "txs_ok (ts_cfg s) (ts_txs s)" using assms(1) by (simp add: train_inv_def)
  have st: "set txs = insert (tx_Job tx, tx) (set (ts_txs s))"
    using new(1) by (simp add: txs_def map_of_eq_None_iff update_new)
  have "\<forall>(j, t)\<in>set (ts_txs s). set (tx_Instances tx) \<inter> set (tx_Instances t) = {}" using new(2) by (simp add: busy_None)
  then have disj: "\<forall>(j, t)\<in>set (ts_txs s). apart tx t \<and> apart t tx" unfolding apart_def by blast
  have "txs_ok (ts_cfg s) txs"
    unfolding txs_ok_def st using ok assms(3) disj by (auto simp: txs_ok_def txs_def distinct_update)
  moreover have "(\<exists>t\<in>snd ` set txs. key \<in> set (tx_Instances t)) = (if key \<in> set (tx_Instances tx) then True else in_training s key)" for key
    unfolding st in_training_def by auto
  ultimately show ?thesis using relock_inv[OF assms(1) _ assms(4)] new(3) by blast
qed

lemma close_inv:
  assumes "train_inv saved s" "saved \<longrightarrow> sio = Saved"
  shows "train_inv saved (closeTrain sio job s)"
proof (cases "map_of (ts_txs s) job")
  case None
  then show ?thesis using assms by (simp add: closeTrain_def close_locked_def)
next
  case (Some t)
  define txs where "txs = AList.delete job (ts_txs s)"
  have ok: "txs_ok (ts_cfg s) (ts_txs s)" using assms(1) by (simp add: train_inv_def)
  have st: "set txs = {x \<in> set (ts_txs s). fst x \<noteq> job}" by (simp add: txs_def set_delete)
  have mem: "(job, t) \<in> set (ts_txs s)" using Some by (rule map_of_SomeD)
  have "txs_ok (ts_cfg s) txs" using ok unfolding txs_ok_def st by (auto simp: txs_def distinct_delete)
  moreover have "(\<exists>u\<in>snd ` set txs. key \<in> set (tx_Instances u)) = (if key \<in> set (tx_Instances t) then False else in_training s key)" for key
  proof -
    have "\<not> (\<exists>u\<in>snd ` set txs. key \<in> set (tx_Instances u))" if "key \<in> set (tx_Instances t)"
      using in_training_tx[OF ok mem _ that] unfolding st by auto
    moreover have "in_training s key \<longleftrightarrow> (\<exists>u\<in>snd ` set txs. key \<in> set (tx_Instances u))" if "key \<notin> set (tx_Instances t)"
    proof -
      have "u = t" if "(job, u) \<in> set (ts_txs s)" for u using that mem ok unfolding txs_ok_def by (metis map_of_is_SomeI option.inject)
      then show ?thesis using that unfolding in_training_def st by force
    qed
    ultimately show ?thesis by auto
  qed
  ultimately have "train_inv saved (fence_all (tx_Instances t) False (saveTrainLocked sio (s\<lparr>ts_txs := txs\<rparr>)))"
    by (intro relock_inv[OF assms(1) _ assms(2)]) blast+
  then show ?thesis using Some by (simp add: closeTrain_def close_locked_def txs_def)
qed

lemma fence_all_Nil [simp]: "fence_all [] on s = s"
  by (simp add: fence_all_def)

lemma on_tx_inv:
  assumes "train_inv saved s" "\<And>t. tx_Job (f t) = tx_Job t \<and> tx_Instances (f t) = tx_Instances t \<and> (tx_Phase t \<noteq> [] \<longrightarrow> tx_Phase (f t) \<noteq> [])" "saved \<longrightarrow> sio = Saved"
  shows "train_inv saved (on_tx sio job f s)"
proof (cases "map_of (ts_txs s) job")
  case None
  then show ?thesis using assms(1) by (simp add: on_tx_def)
next
  case (Some t)
  define txs where "txs = AList.update job (f t) (ts_txs s)"
  have ok: "txs_ok (ts_cfg s) (ts_txs s)" using assms(1) by (simp add: train_inv_def)
  have mem: "(job, t) \<in> set (ts_txs s)" using Some by (rule map_of_SomeD)
  have st: "set txs = insert (job, f t) {x \<in> set (ts_txs s). fst x \<noteq> job}"
    unfolding txs_def by (rule set_update_distinct) (use ok in \<open>simp add: txs_ok_def\<close>)
  have fix_insts: "tx_Instances (f t) = tx_Instances t" using assms(2) by simp
  have "tx_ok (ts_cfg s) (f t) \<and> tx_Job (f t) = job" using ok mem assms(2)[of t] by (auto simp: txs_ok_def tx_ok_def)
  moreover have "apart (f t) u = apart t u" "apart u (f t) = apart u t" for u by (simp_all add: apart_def fix_insts)
  ultimately have "txs_ok (ts_cfg s) txs"
    unfolding txs_ok_def st using ok mem by (auto simp: txs_ok_def txs_def distinct_update)
  moreover have "(\<exists>u\<in>snd ` set txs. key \<in> set (tx_Instances u)) = in_training s key" for key
  proof -
    have "in_training s key \<longleftrightarrow> key \<in> set (tx_Instances t) \<or> (\<exists>x\<in>set (ts_txs s). fst x \<noteq> job \<and> key \<in> set (tx_Instances (snd x)))"
      unfolding in_training_def by (rule ex_key[OF _ mem]) (use ok in \<open>simp add: txs_ok_def\<close>)
    then show ?thesis unfolding st by (auto simp: fix_insts) (blast, force)
  qed
  ultimately have "train_inv saved (fence_all [] True (saveTrainLocked sio (s\<lparr>ts_txs := txs\<rparr>)))" by (intro relock_inv[OF assms(1) _ assms(3)]) auto
  then show ?thesis using Some by (simp add: on_tx_def txs_def)
qed

lemma begin_inv:
  assumes "train_inv saved s" "saved \<longrightarrow> tv_sio env = Saved" "trainBegin env origin req s = (r, s')"
  shows "train_inv saved s'"
proof (cases "s' = s")
  case False
  then obtain q where q: "req = Some q" using assms(3) by (cases req) (auto simp: trainBegin_def)
  define job where "job = tv_trim env (br_Job q)"
  define insts where "insts = dedupe (tv_trim env) (br_Instances q)"
  have g: "job \<noteq> []" "insts \<noteq> []" "find (\<lambda>k. instance_of (ts_cfg s) k = None) insts = None"
    using assms(3) False unfolding q trainBegin_def option.case Let_def job_def[symmetric] insts_def[symmetric]
    by (auto split: if_splits option.splits)
  obtain dl where dl: "parseDeadline env (br_Deadline q) = Inr dl"
    using assms(3) False g unfolding q trainBegin_def option.case Let_def job_def[symmetric] insts_def[symmetric]
    by (auto split: sum.splits)
  define tx where "tx = \<lparr>tx_Job = job, tx_Node = br_Node q, tx_Instances = insts, tx_Deadline = dl,
     tx_Started = tv_now env, tx_Origin = origin, tx_Phase = trainPhaseTraining, tx_Alerted = False, tx_Note = br_Note q\<rparr>"
  obtain s1 where o: "open_locked (tv_sio env) tx s = Inr s1" "s' = fence_all insts True s1"
    using assms(2,3) False g dl unfolding q trainBegin_def option.case Let_def job_def[symmetric] insts_def[symmetric] tx_def
    by (auto split: sum.splits option.splits)
  have "tx_ok (ts_cfg s) tx" using g by (auto simp: tx_ok_def tx_def trainPhaseTraining_def find_None_iff)
  from open_inv[OF assms(1) o(1) this assms(2)] show ?thesis by (simp add: o(2) tx_def)
qed (use assms in simp)

lemma end_inv:
  assumes "train_inv saved s" "saved \<longrightarrow> tv_sio env = Saved" "tv_mid env = (\<lambda>s. s)" "trainEnd env req s = (r, s')"
  shows "train_inv saved s'"
proof -
  have "s' = s \<or> (\<exists>job. s' = closeTrain (tv_sio env) job s) \<or> (\<exists>job. s' = on_tx (tv_sio env) job (\<lambda>t. t\<lparr>tx_Phase := trainPhaseReload\<rparr>) s)"
    using assms(3,4) unfolding trainEnd_def by (auto simp: Let_def split: option.splits if_splits)
  moreover have "train_inv saved (on_tx (tv_sio env) job (\<lambda>t. t\<lparr>tx_Phase := trainPhaseReload\<rparr>) s)" for job
    by (rule on_tx_inv[OF assms(1) _ assms(2)]) (simp add: trainPhaseReload_def)
  ultimately show ?thesis using assms(1) close_inv[OF assms(1,2)] by blast
qed

lemma check_tx_cases:
  assumes "check_tx env t s = Some (a, s')"
  obtains "a = []" "s' = s" | "a = []" "s' = closeTrain (tv_sio env) (tx_Job t) s"
  | "a = [tx_Job t]" "\<not> tx_Alerted t" "s' = on_tx (tv_sio env) (tx_Job t) (\<lambda>t. t\<lparr>tx_Alerted := True\<rparr>) s"
  using assms unfolding check_tx_def by (auto simp: Let_def split: if_splits option.splits list.splits)

lemma check_tx_inv:
  assumes "train_inv saved s" "saved \<longrightarrow> tv_sio env = Saved" "check_tx env t s = Some (a, s')"
  shows "train_inv saved s'"
  using assms(3)
proof (cases rule: check_tx_cases)
  case 3
  then show ?thesis using on_tx_inv[OF assms(1) _ assms(2)] by simp
qed (use assms(1) close_inv[OF assms(1,2)] in auto)

lemma check_inv: "check_loop env ts s = Some (a, s') \<Longrightarrow> train_inv saved s \<Longrightarrow> saved \<longrightarrow> tv_sio env = Saved \<Longrightarrow> train_inv saved s'"
proof (induction ts arbitrary: s a)
  case (Cons t ts)
  then obtain a1 s1 a2 where "check_tx env t s = Some (a1, s1)" "check_loop env ts s1 = Some (a2, s')" by (auto split: option.splits)
  then show ?case using Cons check_tx_inv by blast
qed simp

text \<open>A coordinator that starts again has a new balancer and a new pipe, in which nothing is fenced.\<close>

definition train_restart :: "decodeBalancer option \<Rightarrow> kvPipe option \<Rightarrow> train_srv \<Rightarrow> train_srv" where
  "train_restart bal kp s = applyTrainingFences (loadTrain (s\<lparr>ts_txs := [], ts_bal := bal, ts_kp := kp, ts_tmp := None\<rparr>))"

lemma fence_txs_marked:
  assumes "cfg_ok (ts_cfg s)" "\<forall>key. marked s key (f key)"
  shows "marked (foldl (\<lambda>s t. fence_all (tx_Instances t) True s) s ts) key ((\<exists>t\<in>set ts. key \<in> set (tx_Instances t)) \<or> f key)"
  using assms
proof (induction ts arbitrary: s f)
  case (Cons t ts)
  have "\<forall>key. marked (fence_all (tx_Instances t) True s) key (key \<in> set (tx_Instances t) \<or> f key)"
  proof
    fix key
    show "marked (fence_all (tx_Instances t) True s) key (key \<in> set (tx_Instances t) \<or> f key)"
      using fence_all_marked[OF Cons.prems, of "tx_Instances t" True key] by (cases "key \<in> set (tx_Instances t)") auto
  qed
  from Cons.IH[OF _ this] Cons.prems(1) show ?case by (simp add: disj_assoc disj_left_commute)
qed simp

lemma fence_txs_frame [simp]:
  "ts_cfg (foldl (\<lambda>s t. fence_all (tx_Instances t) True s) s ts) = ts_cfg s" "ts_txs (foldl (\<lambda>s t. fence_all (tx_Instances t) True s) s ts) = ts_txs s"
  "ts_file (foldl (\<lambda>s t. fence_all (tx_Instances t) True s) s ts) = ts_file s"
  by (induction ts arbitrary: s) simp_all

lemma restart_inv:
  assumes "train_inv saved s" "\<forall>key. marked (s\<lparr>ts_bal := bal, ts_kp := kp\<rparr>) key False"
  shows "train_inv saved (train_restart bal kp s)"
proof -
  define s1 where "s1 = loadTrain (s\<lparr>ts_txs := [], ts_bal := bal, ts_kp := kp, ts_tmp := None\<rparr>)"
  have s1: "ts_txs s1 = disk_txs s" "ts_cfg s1 = ts_cfg s" "ts_file s1 = ts_file s" "ts_bal s1 = bal" "ts_kp s1 = kp"
    by (simp_all add: s1_def loadTrain_def disk_txs_def split: option.split train_file.split)
  have ok: "txs_ok (ts_cfg s1) (ts_txs s1)" using assms(1) s1(1,2) by (simp add: train_inv_def)
  have "\<forall>key. marked s1 key False" using assms(2) marked_cong[of s1 "s\<lparr>ts_bal := bal, ts_kp := kp\<rparr>"] s1 by simp
  from fence_txs_marked[OF _ this, of "openTrainTxs s1"] assms(1) s1(2)
  have m: "marked (train_restart bal kp s) key (in_training s1 key)" for key
    by (simp add: train_restart_def applyTrainingFences_def s1_def[symmetric] in_training_def openTrainTxs_def train_inv_def)
  have r: "ts_txs (train_restart bal kp s) = ts_txs s1" "ts_cfg (train_restart bal kp s) = ts_cfg s1" "ts_file (train_restart bal kp s) = ts_file s"
    using s1(3) by (simp_all add: train_restart_def applyTrainingFences_def s1_def[symmetric])
  have "disk_txs (train_restart bal kp s) = disk_txs s" using r(3) by (rule disk_cong)
  then show ?thesis using assms(1) m r ok s1 by (simp add: train_inv_def in_training_def)
qed



section \<open>Histories\<close>

inductive train_step :: "bool \<Rightarrow> train_srv \<Rightarrow> train_srv \<Rightarrow> bool" for saved :: bool where
  begins: "(saved \<longrightarrow> tv_sio env = Saved) \<Longrightarrow> trainBegin env origin req s = (r, s') \<Longrightarrow> train_step saved s s'"
| finishes: "(saved \<longrightarrow> tv_sio env = Saved) \<Longrightarrow> tv_mid env = (\<lambda>s. s) \<Longrightarrow> trainEnd env req s = (r', s') \<Longrightarrow> train_step saved s s'"
| watches: "(saved \<longrightarrow> tv_sio env = Saved) \<Longrightarrow> trainCheck env s = Some (a, s') \<Longrightarrow> train_step saved s s'"
| restarts: "\<forall>key. marked (s\<lparr>ts_bal := bal, ts_kp := kp\<rparr>) key False \<Longrightarrow> train_step saved s (train_restart bal kp s)"

inductive train_reach :: "bool \<Rightarrow> train_srv \<Rightarrow> train_srv \<Rightarrow> bool" for saved :: bool where
  train_start: "train_reach saved s s"
| train_onward: "train_reach saved s t \<Longrightarrow> train_step saved t u \<Longrightarrow> train_reach saved s u"

text \<open>No transaction, no file, nothing fenced.\<close>

definition train_fresh :: "train_srv \<Rightarrow> bool" where
  "train_fresh s \<longleftrightarrow> ts_txs s = [] \<and> ts_file s = None \<and> (\<forall>key. marked s key False)"

lemma train_reach_inv: "train_reach saved s t \<Longrightarrow> train_fresh s \<Longrightarrow> cfg_ok (ts_cfg s) \<Longrightarrow> train_inv saved t"
proof (induction rule: train_reach.induct)
  case (train_start s)
  then show ?case by (simp add: train_fresh_def train_inv_def txs_ok_def in_training_def disk_txs_def)
next
  case (train_onward s t u)
  have inv: "train_inv saved t" by (rule train_onward.IH[OF train_onward.prems])
  from train_onward.hyps(2) show ?case
  proof cases
    case (watches env a)
    then show ?thesis using check_inv[OF _ inv] by (simp add: trainCheck_def)
  qed (use inv begin_inv end_inv restart_inv in blast)+
qed

lemma trainingOf_iff: "trainingOf key s \<noteq> None \<longleftrightarrow> in_training s key"
  by (auto simp: trainingOf_def find_None_iff openTrainTxs_def in_training_def)


definition demo_train_cfg :: Config where
  "demo_train_cfg = demo_config\<lparr>c_Instances := [\<lparr>i_Key = ''decode'', i_Role = ''decode'', i_Main = ''a'', i_Endpoint = ''d'', i_KVUnified = None\<rparr>,
     \<lparr>i_Key = ''prefill'', i_Role = ''prefill'', i_Main = ''b'', i_Endpoint = ''p'', i_KVUnified = None\<rparr>]\<rparr>"

definition demo_srv :: train_srv where
  "demo_srv = \<lparr>ts_cfg = demo_train_cfg, ts_bal = Some (newDecodeBalancer [(''d'', ''d'')]), ts_kp = Some demo_kvpipe,
     ts_txs = [], ts_file = None, ts_tmp = None\<rparr>"

definition demo_tenv :: train_env where
  "demo_tenv = \<lparr>tv_trim = (\<lambda>s. s), tv_3339 = (\<lambda>_. None), tv_today = (\<lambda>_. None), tv_fmt = (\<lambda>_. []), tv_now = 0, tv_sio = Saved,
     tv_drain = [(0, demo_srv)], tv_up = (\<lambda>_. False), tv_stopped = (\<lambda>_. False), tv_polls = (\<lambda>_. [(10 ^ 9, (\<lambda>_. False))]),
     tv_raise = (\<lambda>_. []), tv_mid = (\<lambda>s. s), tv_docker = (\<lambda>_. Inl [])\<rparr>"

definition demo_begin :: begin_req where
  "demo_begin = \<lparr>br_Job = ''j'', br_Node = ''a'', br_Instances = [''decode''], br_Deadline = [], br_DrainS = 0, br_Stop = False, br_Note = []\<rparr>"

lemma demo_instance:
  "instance_of demo_train_cfg k =
     (if k = ''decode'' then Some \<lparr>i_Key = ''decode'', i_Role = ''decode'', i_Main = ''a'', i_Endpoint = ''d'', i_KVUnified = None\<rparr>
      else if k = ''prefill'' then Some \<lparr>i_Key = ''prefill'', i_Role = ''prefill'', i_Main = ''b'', i_Endpoint = ''p'', i_KVUnified = None\<rparr> else None)"
  by (auto simp: instance_of_def demo_train_cfg_def)

lemma demo_fresh: "train_fresh demo_srv" "cfg_ok (ts_cfg demo_srv)"
proof -
  have "cfg_ok demo_train_cfg" by (auto simp: cfg_ok_def demo_instance decode_like_def prefill_like_def starts_def split: if_splits)
  moreover have "marked demo_srv key False" for key
    by (auto simp: marked_def dec_mark_def pre_mark_def demo_srv_def demo_instance decode_like_def prefill_like_def starts_def excluded_at_def
        nodeByURL_def newDecodeBalancer_def demo_kvpipe_def newKVPipe_def split: if_splits)
  ultimately show "train_fresh demo_srv" "cfg_ok (ts_cfg demo_srv)" by (simp_all add: train_fresh_def demo_srv_def)
qed




section \<open>Overlapping requests\<close>

text \<open>What the two handlers do to the shared state, one action per critical section or flag.\<close>

datatype train_act = AOpen trainTx | AClose string | AFence string bool

fun act_run :: "train_act \<Rightarrow> train_srv \<Rightarrow> train_srv" where
  "act_run (AOpen tx) s = (case open_locked Saved tx s of Inr s \<Rightarrow> s | Inl _ \<Rightarrow> s)"
| "act_run (AClose job) s = (case close_locked Saved job s of Some (_, s) \<Rightarrow> s | None \<Rightarrow> s)"
| "act_run (AFence k on) s = fence k on s"

definition acts_run :: "train_act list \<Rightarrow> train_srv \<Rightarrow> train_srv" where
  "acts_run as s = foldl (\<lambda>s a. act_run a s) s as"

definition begin_acts :: "trainTx \<Rightarrow> train_act list" where
  "begin_acts tx = AOpen tx # map (\<lambda>k. AFence k True) (tx_Instances tx)"

definition close_acts :: "trainTx \<Rightarrow> train_act list" where
  "close_acts t = AClose (tx_Job t) # map (\<lambda>k. AFence k False) (tx_Instances t)"

lemma acts_fences: "acts_run (map (\<lambda>k. AFence k on) ks) s = fence_all ks on s"
  by (induction ks arbitrary: s) (simp_all add: acts_run_def fence_all_def)

lemma close_acts_run: "map_of (ts_txs s) (tx_Job t) = Some t \<Longrightarrow> acts_run (close_acts t) s = closeTrain Saved (tx_Job t) s"
  using acts_fences[of False "tx_Instances t"] by (simp add: acts_run_def close_acts_def closeTrain_def close_locked_def)

lemma begin_acts_run: "open_locked Saved tx s = Inr s' \<Longrightarrow> acts_run (begin_acts tx) s = fence_all (tx_Instances tx) True s'"
  using acts_fences[of True "tx_Instances tx"] by (simp add: acts_run_def begin_acts_def)

lemma find_unique:
  assumes "x \<in> set xs" "P x" "\<And>y. y \<in> set xs \<Longrightarrow> P y \<Longrightarrow> y = x"
  shows "find P xs = Some x"
proof -
  obtain y where y: "find P xs = Some y" using assms(1,2) by (cases "find P xs") (auto simp: find_None_iff)
  then have "y \<in> set xs" "P y" by (auto simp: find_Some_iff)
  then show ?thesis using y assms(3) by simp
qed

text \<open>
  Two requests that overlap can leave a training engine in service. \<^verbatim>\<open>closeTrain\<close> lifts its fences after it has let go of the
  lock, so a transaction on the same instance that opens in between has its fence lifted by the one that closes: it is open,
  and its engine is back in the balancer.
\<close>

theorem fence_race:
  assumes "train_inv True s" "map_of (ts_txs s) (tx_Job t) = Some t" "tx_Instances t = [key]" "dec_mark s key \<noteq> None"
    and "tx_Instances tx = [key]" "tx_Job tx \<noteq> tx_Job t" "map_of (ts_txs s) (tx_Job tx) = None"
  shows "\<exists>acts\<in>shuffles (close_acts t) (begin_acts tx).
    trainingOf key (acts_run acts s) = Some tx \<and> dec_mark (acts_run acts s) key = Some False"
proof -
  define s1 where "s1 = saveTrainLocked Saved (s\<lparr>ts_txs := AList.delete (tx_Job t) (ts_txs s)\<rparr>)"
  define s2 where "s2 = saveTrainLocked Saved (s1\<lparr>ts_txs := AList.update (tx_Job tx) tx (ts_txs s1)\<rparr>)"
  define acts where "acts = [AClose (tx_Job t), AOpen tx, AFence key True, AFence key False]"
  have ok: "txs_ok (ts_cfg s) (ts_txs s)" and c: "cfg_ok (ts_cfg s)" using assms(1) by (simp_all add: train_inv_def)
  have txs1: "ts_txs s1 = AList.delete (tx_Job t) (ts_txs s)" by (simp add: s1_def)
  have free: "\<forall>(j, u)\<in>set (ts_txs s1). key \<notin> set (tx_Instances u)"
    using in_training_tx[OF ok map_of_SomeD[OF assms(2)], of _ _ key] assms(3) by (auto simp: txs1 set_delete)
  then have "busy_with (tx_Instances tx) (ts_txs s1) = None" using assms(5) by (auto simp: busy_None)
  moreover have new: "map_of (ts_txs s1) (tx_Job tx) = None" using assms(6,7) by (simp add: txs1 delete_conv)
  ultimately have "open_locked Saved tx s1 = Inr s2" by (simp add: open_locked_def s2_def)
  then have run: "acts_run acts s = fence key False (fence key True s2)"
    using assms(2) by (simp add: acts_run_def acts_def close_locked_def s1_def)
  have "set (ts_txs s2) = insert (tx_Job tx, tx) (set (ts_txs s1))"
    using new by (simp add: s2_def map_of_eq_None_iff update_new)
  then have op: "set (openTrainTxs (acts_run acts s)) = insert tx (snd ` set (ts_txs s1))" by (simp add: run openTrainTxs_def)
  have tr: "trainingOf key (acts_run acts s) = Some tx" unfolding trainingOf_def
  proof (rule find_unique)
    show "y = tx" if "y \<in> set (openTrainTxs (acts_run acts s))" "key \<in> set (tx_Instances y)" for y using that free unfolding op by auto
  qed (use op assms(5) in simp_all)
  have "dec_mark s2 key = dec_mark s key" by (simp add: dec_mark_def s2_def s1_def split: option.split)
  then have "dec_mark (acts_run acts s) key = Some False" using assms(4) c fence_marks(1)[of "fence key True s2"] fence_marks(1)[of s2]
    by (auto simp: run s2_def s1_def)
  moreover have "acts \<in> shuffles (close_acts t) (begin_acts tx)"
    unfolding acts_def close_acts_def begin_acts_def assms(3,5) by simp
  ultimately show ?thesis using tr by blast
qed

theorem fence_race_witness:
  "\<exists>acts s tx. trainingOf ''decode'' (acts_run acts s) = Some tx \<and> dec_mark (acts_run acts s) ''decode'' = Some False"
proof -
  define s where "s = snd (trainBegin demo_tenv [] (Some demo_begin) demo_srv)"
  obtain r where r: "trainBegin demo_tenv [] (Some demo_begin) demo_srv = (r, s)" unfolding s_def by (metis prod.collapse)
  have "train_step True demo_srv s" by (rule begins[OF _ r]) (simp add: demo_tenv_def)
  then have inv: "train_inv True s" using train_reach_inv[OF train_onward[OF train_start]] demo_fresh by blast
  have d: "map_option tx_Instances (map_of (ts_txs s) ''j'') = Some [''decode'']" "map_option tx_Job (map_of (ts_txs s) ''j'') = Some ''j''"
    "map_of (ts_txs s) ''k'' = None" "dec_mark s ''decode'' = Some True" unfolding s_def by code_simp+
  then obtain t where t: "map_of (ts_txs s) (tx_Job t) = Some t" "tx_Instances t = [''decode'']" "tx_Job t = ''j''" by auto
  show ?thesis using fence_race[OF inv t(1,2), of "t\<lparr>tx_Job := ''k''\<rparr>"] d t by auto
qed

text \<open>The handoff has one flag for every prefill instance.\<close>

lemma fence_kp:
  "ts_kp (fence k on s) =
     (case instance_of (ts_cfg s) k of Some inst \<Rightarrow> if prefill_like inst then map_option (setDisabled on) (ts_kp s) else ts_kp s | None \<Rightarrow> ts_kp s)"
  by (simp add: fence_def Let_def split: option.split)

lemma fence_all_flag:
  assumes "k \<in> set ks" "instance_of (ts_cfg s) k = Some inst" "prefill_like inst" "ts_kp s = Some kp"
  shows "\<exists>kp'. ts_kp (fence_all ks on s) = Some kp' \<and> pp_disabled kp' = on"
  using assms
proof (induction ks arbitrary: s kp)
  case (Cons x ks)
  have "\<exists>kp1. ts_kp (fence x on s) = Some kp1 \<and> (x = k \<longrightarrow> pp_disabled kp1 = on)"
    using Cons.prems by (auto simp: fence_kp setDisabled_def split: option.split)
  then obtain kp1 where kp1: "ts_kp (fence x on s) = Some kp1" "x = k \<Longrightarrow> pp_disabled kp1 = on" by blast
  show ?case
  proof (cases "k \<in> set ks")
    case True
    then show ?thesis using Cons.IH[OF True _ _ kp1(1)] Cons.prems by (simp add: fence_all_def)
  next
    case False
    then have x: "x = k" using Cons.prems(1) by simp
    have "\<exists>kp'. ts_kp (fence_all ks on s') = Some kp' \<and> pp_disabled kp' = on" if "ts_kp s' = Some q" "pp_disabled q = on" for s' q
      using that
    proof (induction ks arbitrary: s' q)
      case (Cons y ys)
      have "\<exists>q'. ts_kp (fence y on s') = Some q' \<and> pp_disabled q' = on"
        using Cons.prems by (auto simp: fence_kp setDisabled_def split: option.split)
      then show ?case using Cons.IH by (auto simp: fence_all_def)
    qed (simp add: fence_all_def)
    from this[OF kp1(1) kp1(2)[OF x]] show ?thesis by (simp add: fence_all_def)
  qed
qed simp

text \<open>
  With two prefill instances in training, closing the transaction of one puts the handoff back in service while the
  other is still training: both are fenced by the one flag of the pipe.
\<close>

theorem prefill_flag_shared:
  assumes "ts_kp s = Some kp" "map_of (ts_txs s) job = Some t" "k \<in> set (tx_Instances t)"
    and "instance_of (ts_cfg s) k = Some inst" "prefill_like inst"
    and "map_of (ts_txs s) job2 = Some t2" "job2 \<noteq> job" "k2 \<in> set (tx_Instances t2)"
  shows "\<exists>kp'. ts_kp (closeTrain sio job s) = Some kp' \<and> \<not> pp_disabled kp' \<and> trainingOf k2 (closeTrain sio job s) \<noteq> None"
proof -
  define s1 where "s1 = saveTrainLocked sio (s\<lparr>ts_txs := AList.delete job (ts_txs s)\<rparr>)"
  have close: "closeTrain sio job s = fence_all (tx_Instances t) False s1" using assms(2) by (simp add: closeTrain_def close_locked_def s1_def)
  have "map_of (ts_txs s1) job2 = Some t2" using assms(6,7) by (simp add: s1_def delete_conv)
  then have "(job2, t2) \<in> set (ts_txs s1)" by (rule map_of_SomeD)
  then have "in_training (closeTrain sio job s) k2" using assms(8) unfolding close in_training_def by force
  moreover have "\<exists>kp'. ts_kp (fence_all (tx_Instances t) False s1) = Some kp' \<and> pp_disabled kp' = False"
    using assms by (intro fence_all_flag[where k = k and inst = inst and kp = kp]) (simp_all add: s1_def)
  ultimately show ?thesis unfolding close trainingOf_iff by auto
qed

definition two_prefills :: train_srv where
  "two_prefills =
     (let tx = (\<lambda>j k. \<lparr>tx_Job = j, tx_Node = [], tx_Instances = [k], tx_Deadline = 0, tx_Started = 0, tx_Origin = [],
                  tx_Phase = trainPhaseTraining, tx_Alerted = False, tx_Note = []\<rparr>)
      in demo_srv\<lparr>ts_cfg := demo_config\<lparr>c_Instances := [\<lparr>i_Key = ''prefill'', i_Role = ''prefill'', i_Main = ''a'', i_Endpoint = ''p'', i_KVUnified = None\<rparr>,
           \<lparr>i_Key = ''prefill2'', i_Role = ''prefill'', i_Main = ''b'', i_Endpoint = ''q'', i_KVUnified = None\<rparr>]\<rparr>,
         ts_kp := Some (setDisabled True demo_kvpipe), ts_txs := [(''a'', tx ''a'' ''prefill''), (''b'', tx ''b'' ''prefill2'')]\<rparr>)"

theorem prefill_flag_shared_witness:
  "\<exists>kp'. ts_kp (closeTrain Saved ''a'' two_prefills) = Some kp' \<and> \<not> pp_disabled kp' \<and> trainingOf ''prefill2'' (closeTrain Saved ''a'' two_prefills) \<noteq> None"
  using prefill_flag_shared[of two_prefills _ "''a''" _ "''prefill''" _ "''b''" _ "''prefill2''" Saved]
  by (simp add: two_prefills_def Let_def instance_of_def prefill_like_def)


section \<open>Durations\<close>

text \<open>
  The wait a request asks for is honoured up to its cap while its nanoseconds fit in 64 bits; a request for 10000000000
  seconds wraps to a negative duration, below every cap, and the drain does not wait at all.
\<close>

theorem clampSeconds_range:
  assumes "0 \<le> mx" "mx < 2 ^ 63"
  shows "(\<forall>v. 0 < v \<and> v \<le> 9223372036 \<longrightarrow> clampSeconds v dfl mx = min (v * 10 ^ 9) mx) \<and>
    clampSeconds 10000000000 dfl mx = - 8446744073709551616"
proof -
  have "clampSeconds v dfl mx = min (v * 10 ^ 9) mx" if "0 < v" "v \<le> 9223372036" for v
  proof -
    have "v * 10 ^ 9 < 2 ^ 63" using that(2) by simp
    then have "wrap64 (v * 10 ^ 9) = v * 10 ^ 9" using that(1) by (intro wrap64_fits) simp_all
    then show ?thesis using that(1) by (simp add: clampSeconds_def Let_def)
  qed
  moreover have "clampSeconds 10000000000 dfl mx = - 8446744073709551616" using assms by (simp add: clampSeconds_def wrap64_def)
  ultimately show ?thesis by blast
qed

theorem clampSeconds_range_witness:
  "clampSeconds 90 trainDrainDefault trainDrainMax = 90 * 10 ^ 9 \<and> clampSeconds 10000000000 trainDrainDefault trainDrainMax < 0"
  using clampSeconds_range[of trainDrainMax trainDrainDefault] by (simp add: trainDrainMax_def)


section \<open>What a look of the watchdog does\<close>

lemma closeTrain_txs: "map_of (ts_txs (closeTrain sio job s)) = (map_of (ts_txs s))(job := None)" "ts_cfg (closeTrain sio job s) = ts_cfg s"
  by (auto simp: closeTrain_def close_locked_def delete_conv fun_eq_iff split: option.split)

lemma on_tx_txs:
  "map_of (ts_txs (on_tx sio job f s)) = (map_of (ts_txs s))(job := map_option f (map_of (ts_txs s) job))" "ts_cfg (on_tx sio job f s) = ts_cfg s"
  by (auto simp: on_tx_def update_conv fun_eq_iff split: option.split)

lemma check_tx_frame:
  assumes "check_tx env t s = Some (a, s')"
  shows "ts_cfg s' = ts_cfg s" "job \<noteq> tx_Job t \<Longrightarrow> map_of (ts_txs s') job = map_of (ts_txs s) job" "set a \<subseteq> {tx_Job t}"
  using assms by (cases rule: check_tx_cases; auto simp: closeTrain_txs on_tx_txs)+

lemma check_loop_frame:
  "check_loop env ts s = Some (a, s') \<Longrightarrow>
     ts_cfg s' = ts_cfg s \<and> (\<forall>job. job \<notin> tx_Job ` set ts \<longrightarrow> map_of (ts_txs s') job = map_of (ts_txs s) job) \<and> set a \<subseteq> tx_Job ` set ts"
proof (induction ts arbitrary: s a)
  case (Cons t ts)
  then obtain a1 s1 a2 where c: "check_tx env t s = Some (a1, s1)" "check_loop env ts s1 = Some (a2, s')" "a = a1 @ a2" by (auto split: option.splits)
  show ?case using check_tx_frame[OF c(1)] Cons.IH[OF c(2)] c(3) by auto
qed simp

lemma check_loop_at:
  assumes "check_loop env ts s = Some (a, s')" "distinct (map tx_Job ts)" "t \<in> set ts"
  shows "\<exists>s1 a1 s2. check_tx env t s1 = Some (a1, s2) \<and> ts_cfg s1 = ts_cfg s \<and>
    map_of (ts_txs s1) (tx_Job t) = map_of (ts_txs s) (tx_Job t) \<and> map_of (ts_txs s') (tx_Job t) = map_of (ts_txs s2) (tx_Job t) \<and>
    (tx_Job t \<in> set a \<longleftrightarrow> tx_Job t \<in> set a1)"
  using assms
proof (induction ts arbitrary: s a)
  case (Cons x ts)
  then obtain a1 s1 a2 where c: "check_tx env x s = Some (a1, s1)" "check_loop env ts s1 = Some (a2, s')" "a = a1 @ a2" by (auto split: option.splits)
  show ?case
  proof (cases "t = x")
    case True
    then have "tx_Job t \<notin> tx_Job ` set ts" using Cons.prems(2) by simp
    then show ?thesis using check_loop_frame[OF c(2)] c True by (intro exI[of _ s] exI[of _ a1] exI[of _ s1]) auto
  next
    case False
    then have t: "t \<in> set ts" using Cons.prems(3) by simp
    then have jx: "tx_Job t \<noteq> tx_Job x" using Cons.prems(2) by (metis distinct.simps(2) image_eqI list.simps(9) list.set_map)
    then have "tx_Job t \<notin> set a1" using check_tx_frame(3)[OF c(1)] by auto
    then show ?thesis using Cons.IH[OF c(2) _ t] Cons.prems(2) check_tx_frame[OF c(1)] jx c(3) by auto
  qed
qed simp

text \<open>
  One look of the watchdog. A transaction whose instances all answer is closed once its runner has finished or its
  deadline has passed; before the deadline every other one is left as it is; past the deadline one with an instance down is
  closed if the coordinator brought them all back, and otherwise kept, fences included, with its alert sent exactly
  once.
\<close>

theorem trainCheck_outcome:
  assumes "train_inv True s" "trainCheck env s = Some (alerts, s')" "map_of (ts_txs s) job = Some t"
  defines "up \<equiv> list_all (instanceUp (ts_cfg s) (tv_up env)) (tx_Instances t)"
  shows "(if up \<and> (tx_Phase t = trainPhaseReload \<or> tv_now env > tx_Deadline t) then map_of (ts_txs s') job = None \<and> job \<notin> set alerts
    else if tv_now env < tx_Deadline t then map_of (ts_txs s') job = Some t \<and> job \<notin> set alerts
    else case raise_down env (ts_cfg s) (downKeys (ups_of (ts_cfg s) (tv_up env) (tx_Instances t))) of
           None \<Rightarrow> False
         | Some [] \<Rightarrow> map_of (ts_txs s') job = None \<and> job \<notin> set alerts
         | Some d \<Rightarrow> map_of (ts_txs s') job = Some (t\<lparr>tx_Alerted := True\<rparr>) \<and> (job \<in> set alerts \<longleftrightarrow> \<not> tx_Alerted t))"
proof -
  have ok: "txs_ok (ts_cfg s) (ts_txs s)" using assms(1) by (simp add: train_inv_def)
  have mem: "(job, t) \<in> set (ts_txs s)" using assms(3) by (rule map_of_SomeD)
  then have job: "tx_Job t = job" using ok by (auto simp: txs_ok_def)
  have "mset (map tx_Job (openTrainTxs s)) = mset (map tx_Job (map snd (ts_txs s)))" by (simp add: openTrainTxs_def multiset.map_comp)
  moreover have "distinct (map tx_Job (map snd (ts_txs s)))" unfolding txs_jobs[OF ok] using ok by (simp add: txs_ok_def)
  ultimately have "distinct (map tx_Job (openTrainTxs s))" using mset_eq_imp_distinct_iff by blast
  moreover have "t \<in> set (openTrainTxs s)" using mem by (force simp: openTrainTxs_def)
  ultimately obtain s1 a1 s2 where c: "check_tx env t s1 = Some (a1, s2)" "ts_cfg s1 = ts_cfg s" "map_of (ts_txs s1) job = Some t"
    "map_of (ts_txs s') job = map_of (ts_txs s2) job" "job \<in> set alerts \<longleftrightarrow> job \<in> set a1"
    using check_loop_at[OF assms(2)[unfolded trainCheck_def]] assms(3) job by force
  have again: "tx_Alerted t \<Longrightarrow> t\<lparr>tx_Alerted := True\<rparr> = t" by simp
  show ?thesis using c(1,3) unfolding check_tx_def c(2,4,5) up_def job Let_def
    by (auto simp: closeTrain_txs on_tx_txs again split: if_splits option.splits list.splits)
qed

theorem trainCheck_outcome_witness:
  "\<exists>alerts s'. trainCheck (demo_tenv\<lparr>tv_now := 10 ^ 9\<rparr>) (snd (trainBegin demo_tenv [] (Some demo_begin) demo_srv)) = Some (alerts, s') \<and> ''j'' \<in> set alerts"
proof -
  define s where "s = snd (trainBegin demo_tenv [] (Some demo_begin) demo_srv)"
  define env where "env = demo_tenv\<lparr>tv_now := 10 ^ 9\<rparr>"
  obtain r where r: "trainBegin demo_tenv [] (Some demo_begin) demo_srv = (r, s)" unfolding s_def by (metis prod.collapse)
  have "train_step True demo_srv s" by (rule begins[OF _ r]) (simp add: demo_tenv_def)
  then have inv: "train_inv True s" using train_reach_inv[OF train_onward[OF train_start]] demo_fresh by blast
  have "map_option (\<lambda>t. (list_all (instanceUp (ts_cfg s) (tv_up env)) (tx_Instances t), tv_now env < tx_Deadline t, tx_Alerted t,
      raise_down env (ts_cfg s) (downKeys (ups_of (ts_cfg s) (tv_up env) (tx_Instances t))))) (map_of (ts_txs s) ''j'')
    = Some (False, False, False, Some [''decode''])" unfolding s_def env_def by code_simp
  then obtain t where t: "map_of (ts_txs s) ''j'' = Some t" "\<not> list_all (instanceUp (ts_cfg s) (tv_up env)) (tx_Instances t)"
    "\<not> tv_now env < tx_Deadline t" "\<not> tx_Alerted t"
    "raise_down env (ts_cfg s) (downKeys (ups_of (ts_cfg s) (tv_up env) (tx_Instances t))) = Some [''decode'']" by auto
  have "trainCheck env s \<noteq> None" unfolding s_def env_def by code_simp
  then obtain alerts s' where c: "trainCheck env s = Some (alerts, s')" by fastforce
  from trainCheck_outcome[OF inv c t(1)] t have "''j'' \<in> set alerts" by simp
  then show ?thesis using c unfolding s_def env_def by blast
qed

end
