(* ===== verification/Chat_Serve.thy ===== *)
theory Chat_Serve
  imports Sse_Stream Training Gateway_Correct
begin

text \<open>
  \<^verbatim>\<open>internal/coordinator/serve.go\<close> and \<^verbatim>\<open>userckpt.go\<close>: the way of a chat request through the coordinator. The gateway, the
  balancer and the pipe are those of the other theories; what the engines answer, the decoding of JSON and the clock are fields of
  \<open>chat_env\<close>. An instant is milliseconds. Header names are ASCII. The texts of messages are shortened.
\<close>


section \<open>Resolving the configuration\<close>

record backend_cfg =
  bc_decode :: string
  bc_prefill :: string

definition backendConfigFrom :: "Config \<Rightarrow> backend_cfg" where
  "backendConfigFrom cfg =
     foldl (\<lambda>bc i. if i_Key i = ''decode'' then bc\<lparr>bc_decode := i_Endpoint i\<rparr>
                   else if i_Key i = ''prefill'' then bc\<lparr>bc_prefill := i_Endpoint i\<rparr> else bc)
       \<lparr>bc_decode = [], bc_prefill = []\<rparr> (c_Instances cfg)"

definition agentOfNode :: "Config \<Rightarrow> string \<Rightarrow> string" where
  "agentOfNode cfg i = (case find (\<lambda>n. n_ID n = i) (c_Nodes cfg) of Some n \<Rightarrow> trim_slash (n_Agent n) | None \<Rightarrow> [])"

definition ctlByEndpoint :: "Config \<Rightarrow> (string \<times> string) list" where
  "ctlByEndpoint cfg =
     foldl (\<lambda>m i. if i_Endpoint i = [] then m
                  else let a = agentOfNode cfg (i_Main i) in if a = [] then m else AList.update (trim_slash (i_Endpoint i)) a m)
       [] (c_Instances cfg)"

definition engineURLs :: "Config \<Rightarrow> string list" where
  "engineURLs cfg =
     foldl (\<lambda>out i. let u = trim_slash (i_Endpoint i) in if u = [] \<or> u \<in> set out then out else out @ [u]) [] (c_Instances cfg)"

definition decodeEndpointsFrom :: "Config \<Rightarrow> (string \<times> string) list" where
  "decodeEndpointsFrom cfg =
     foldl (\<lambda>out i. if \<not> decode_like i \<or> i_Endpoint i = [] \<or> i_Endpoint i \<in> snd ` set out then out
                    else out @ [(if i_Key i = [] then i_Main i else i_Key i, i_Endpoint i)]) [] (c_Instances cfg)"

text \<open>The two control agents of a disaggregated fleet, and the engines whose KV is split.\<close>

definition kv_agents :: "Config \<Rightarrow> string \<times> string" where
  "kv_agents cfg =
     foldl (\<lambda>(dec, pre) i. if i_Key i = ''decode'' then (agentOfNode cfg (i_Main i), pre)
                           else if i_Key i = ''prefill'' then (dec, agentOfNode cfg (i_Main i)) else (dec, pre)) ([], []) (c_Instances cfg)"

definition kvPipeFrom :: "Config \<Rightarrow> backend_cfg \<Rightarrow> (string \<times> string \<times> string \<times> string \<times> string list) option" where
  "kvPipeFrom cfg bc =
     (if bc_prefill bc = [] \<or> bc_decode bc = [] then None
      else let (dec, pre) = kv_agents cfg
           in if pre = [] \<or> dec = [] then None
              else Some (bc_prefill bc, bc_decode bc, pre, dec,
                     map i_Endpoint (filter (\<lambda>i. i_Endpoint i \<noteq> [] \<and> i_KVUnified i = Some False) (c_Instances cfg))))"


section \<open>Capacity\<close>

definition smallDecodePromptTokens :: int where "smallDecodePromptTokens = 4000"
definition templateMargin :: int where "templateMargin = 3072"

definition replyReserveFor :: "Body \<Rightarrow> int" where
  "replyReserveFor body =
     (let reply = intField body ''max_tokens'';
          reply = (if reply \<le> 0 then replyDefault else reply)
      in if reply > replyReserve then replyReserve else reply)"

definition estBodyTokens :: "(go_any \<Rightarrow> string option) \<Rightarrow> Body \<Rightarrow> int" where
  "estBodyTokens marshal body =
     (case marshal (field body ''messages'') of Some raw \<Rightarrow> int (length raw div 3) | None \<Rightarrow> 0) + replyReserveFor body"

definition bodyTokens :: "gw_env \<Rightarrow> Body \<Rightarrow> Headers \<Rightarrow> int" where
  "bodyTokens env body extra =
     (let v = header extra ''x-sofmat-exact-tokens''
      in if v = [] then estBodyTokens (e_marshal env) body
         else case e_atoi env v of
                Some n \<Rightarrow> if n > 0 then n + replyReserveFor body else estBodyTokens (e_marshal env) body
              | None \<Rightarrow> estBodyTokens (e_marshal env) body)"

definition reply_room :: "decodeBalancer option \<Rightarrow> int \<Rightarrow> int" where
  "reply_room bal n =
     (case bal of
        None \<Rightarrow> 0
      | Some b \<Rightarrow>
          if db_nodes b = [] \<or> n \<le> 0 then 0
          else let room = dn_budget (hd (db_nodes b)) - n - templateMargin in if room < 0 then 0 else room)"

definition smallToPrefill :: "gw_env \<Rightarrow> backend_cfg \<Rightarrow> Body \<Rightarrow> Headers \<Rightarrow> string" where
  "smallToPrefill env bc body extra =
     (if bc_prefill bc = [] \<or> bc_prefill bc = bc_decode bc then []
      else if header extra ''x-sofmat-kv-handoff'' \<noteq> [] then []
      else if bodyTokens env body extra - replyReserveFor body < smallDecodePromptTokens then bc_prefill bc
      else [])"


section \<open>Who sent it\<close>

record http_req =
  hq_headers :: Headers
  hq_remote :: string
  hq_path :: string
  hq_raw :: string

definition isTimingNote :: "string \<Rightarrow> bool" where
  "isTimingNote k \<longleftrightarrow> starts ''x-sofmat-t-'' (map lower_char k)"

definition stamped_names :: "string list" where
  "stamped_names = [''X-Sofmat-Client-Ip'', ''X-Sofmat-Client-Fwd'', ''X-Sofmat-Client-Ua'', ''X-Sofmat-Route'']"

text \<open>\<open>split\<close> is the host of \<^verbatim>\<open>net.SplitHostPort\<close>, \<open>None\<close> when it fails; the headers of the request have canonical names.\<close>

definition client_ip :: "(string \<Rightarrow> string option) \<Rightarrow> http_req \<Rightarrow> string" where
  "client_ip split r = (case split (hq_remote r) of Some host \<Rightarrow> host | None \<Rightarrow> hq_remote r)"

definition stampClient :: "(string \<Rightarrow> string option) \<Rightarrow> http_req \<Rightarrow> Headers \<Rightarrow> Headers" where
  "stampClient split r h =
     (let h = filter (\<lambda>(k, v). \<not> list_ex (EqualFold k) stamped_names) h;
          h = AList.update ''X-Sofmat-Client-Ip'' (client_ip split r) h;
          h = AList.update ''X-Sofmat-Client-Fwd'' (header (hq_headers r) ''X-Forwarded-For'') h;
          h = AList.update ''X-Sofmat-Client-Ua'' (header (hq_headers r) ''User-Agent'') h
      in AList.update ''X-Sofmat-Route'' (hq_path r) h)"

definition key_ok :: "string \<Rightarrow> http_req \<Rightarrow> bool" where
  "key_ok key r \<longleftrightarrow> key = [] \<or> header (hq_headers r) ''Authorization'' = ''Bearer '' @ key \<or> header (hq_headers r) ''X-Api-Key'' = key"

definition streamRequested :: "Body \<Rightarrow> bool" where
  "streamRequested body = (case field body ''stream'' of Bool b \<Rightarrow> b | _ \<Rightarrow> False)"


section \<open>The checkpoint of a user turn\<close>

definition userCkptMarker :: string where "userCkptMarker = ''<|im_start|>assistant''"

definition lastRoleIsUser :: "Body \<Rightarrow> bool" where
  "lastRoleIsUser body =
     (let msgs = as_arr (field body ''messages'')
      in if length msgs < 2 then False else as_str (field (as_obj (last msgs)) ''role'') = ''user'')"

fun last_index :: "nat \<Rightarrow> string \<Rightarrow> string \<Rightarrow> nat option" where
  "last_index i key [] = (if key = [] then Some i else None)"
| "last_index i key (c # s) =
     (case last_index (Suc i) key s of Some j \<Rightarrow> Some j | None \<Rightarrow> if starts key (c # s) then Some i else None)"

text \<open>An engine answers nothing, or a status with the object its body decodes to.\<close>

type_synonym engine_post = "string \<Rightarrow> Body \<Rightarrow> (string, nat \<times> Body option) result"

definition postEngine :: "(go_any \<Rightarrow> string option) \<Rightarrow> engine_post \<Rightarrow> string \<Rightarrow> Body \<Rightarrow> (string, Body) result" where
  "postEngine marshal post url body =
     (if marshal (Obj body) = None then Inl ''marshal''
      else case post url body of
             Inl e \<Rightarrow> Inl e
           | Inr (status, None) \<Rightarrow> Inl ''HTTP''
           | Inr (status, Some out) \<Rightarrow> if status \<noteq> 200 then Inl ''HTTP'' else Inr out)"

definition ckpt_pass :: "Body \<Rightarrow> string \<Rightarrow> nat \<Rightarrow> Body" where
  "ckpt_pass body prompt n =
     [(''prompt'', Str (take n prompt)), (''n_predict'', Num 0), (''cache_prompt'', Bool True)] @
     (case map_of body ''id_slot'' of Some v \<Rightarrow> [(''id_slot'', v)] | None \<Rightarrow> [])"

definition ckpt_done :: "float64 \<Rightarrow> Body \<Rightarrow> Plan \<Rightarrow> Plan" where
  "ckpt_done ms res plan =
     (let body = p_Body plan;
          plan = Note ''user_ckpt_ms'' (Flt ms) plan;
          plan = (case field res ''timings'' of
                    Obj tm \<Rightarrow> Note ''user_ckpt_prompt_n'' (field tm ''prompt_n'') (Note ''user_ckpt_cache_n'' (field tm ''cache_n'') plan)
                  | _ \<Rightarrow> plan)
      in if map_of body ''id_slot'' \<noteq> None then plan
         else case field res ''id_slot'' of
                Flt v \<Rightarrow>
                  if v \<ge> 0 then Note ''user_ckpt_slot'' (Num (go_int v)) (plan\<lparr>p_Body := put ''id_slot'' (Num (go_int v)) body\<rparr>)
                  else plan
              | _ \<Rightarrow> plan)"

definition checkpointUserTurn :: "(go_any \<Rightarrow> string option) \<Rightarrow> engine_post \<Rightarrow> float64 \<Rightarrow> string \<Rightarrow> Plan \<Rightarrow> Plan" where
  "checkpointUserTurn marshal post ms url plan =
     (if \<not> lastRoleIsUser (p_Body plan) then plan
      else
        let tb = filter (\<lambda>(k, v). k \<notin> {''stream'', ''stream_options'', ''id_slot''}) (p_Body plan)
        in case postEngine marshal post (url @ ''/apply-template'') tb of
             Inl e \<Rightarrow> Note ''user_ckpt_error'' (Str (''apply-template: '' @ e)) plan
           | Inr tpl \<Rightarrow>
               let prompt = as_str (field tpl ''prompt'')
               in case last_index 0 userCkptMarker prompt of
                    Some (Suc c) \<Rightarrow>
                      (case postEngine marshal post (url @ ''/completion'') (ckpt_pass (p_Body plan) prompt (Suc c)) of
                         Inl e \<Rightarrow> Note ''user_ckpt_error'' (Str (''completion: '' @ e)) plan
                       | Inr res \<Rightarrow> ckpt_done ms res plan)
                  | _ \<Rightarrow> Note ''user_ckpt_error'' (Str ''sin cabecera de respuesta en la plantilla'') plan)"

section \<open>Choosing the engine\<close>

record chat_env =
  ch_pre :: gw_env
  ch_fin :: gw_env
  ch_sse :: sse_env
  ch_post :: engine_post
  ch_fmt :: "float64 \<Rightarrow> string"
  ch_ms :: "string \<Rightarrow> float64"
  ch_split :: "string \<Rightarrow> string option"
  ch_rounds :: "round list"
  ch_last :: round
  ch_gap :: "bal_op list"
  ch_start :: float64
  ch_flusher :: bool
  ch_newreq :: bool

text \<open>\<open>ch_ms\<close> is what each clock of the handler reads.\<close>

datatype claim = NoNode | OnNode nat int

definition noteWait :: "(float64 \<Rightarrow> string) \<Rightarrow> string \<Rightarrow> float64 \<Rightarrow> Headers \<Rightarrow> Headers" where
  "noteWait fmt key ms extra = AList.update key (fmt ms) extra"

definition handoff_node :: "kvPipe option \<Rightarrow> string \<Rightarrow> decodeBalancer \<Rightarrow> nat" where
  "handoff_node kp hid b =
     (case kp of
        Some k \<Rightarrow> (case nodeByURL (DecodeURLFor hid k) b of Some m \<Rightarrow> m | None \<Rightarrow> 0)
      | None \<Rightarrow> 0)"

definition pickDecode ::
  "chat_env \<Rightarrow> Body \<Rightarrow> Headers \<Rightarrow> decodeBalancer option \<Rightarrow> kvPipe option
     \<Rightarrow> ((pick_result, claim) result \<times> Headers \<times> decodeBalancer option) option" where
  "pickDecode env body extra bal kp =
     (case bal of
        None \<Rightarrow> Some (Inr NoNode, extra, bal)
      | Some b \<Rightarrow>
          if db_nodes b = [] then Some (Inr NoNode, extra, bal)
          else
            let est = bodyTokens (ch_pre env) body extra;
                key = sessionKey (e_sha (ch_pre env)) (e_marshal (ch_pre env)) body;
                hid = header extra ''x-sofmat-kv-handoff''
            in if hid \<noteq> [] then
                 (let n = handoff_node kp hid b
                  in if dn_excluded (db_nodes b ! n) then Some (Inl DecodeTraining, extra, bal)
                     else
                       case remember_node key n (on_node n (dn_claim est) b) of
                         None \<Rightarrow> Some (Inl PickPanic, extra, Some (on_node n (dn_claim est) b))
                       | Some b \<Rightarrow> Some (Inr (OnNode n est), noteWait (ch_fmt env) ''x-sofmat-t-wait-budget-ms'' 0 extra, Some b))
               else
                 (case pick (ch_rounds env) (ch_last env) (ch_gap env) (ch_start env) key est b of
                    None \<Rightarrow> None
                  | Some (r, b) \<Rightarrow>
                      Some (case r of Served n \<Rightarrow> Inr (OnNode n (if est < 0 then 0 else est)) | NoEngines \<Rightarrow> Inr NoNode | e \<Rightarrow> Inl e,
                            noteWait (ch_fmt env) ''x-sofmat-t-wait-budget-ms'' (ch_ms env ''pick'') extra, Some b)))"

text \<open>The release function that goes with a choice.\<close>

definition give_back :: "claim \<Rightarrow> decodeBalancer option \<Rightarrow> decodeBalancer option" where
  "give_back c bal =
     (case c of NoNode \<Rightarrow> bal | OnNode n est \<Rightarrow> map_option (release_at n est) bal)"

definition claim_url :: "backend_cfg \<Rightarrow> claim \<Rightarrow> decodeBalancer option \<Rightarrow> string" where
  "claim_url bc c bal =
     (case (c, bal) of (OnNode n est, Some b) \<Rightarrow> dn_url (db_nodes b ! n) | _ \<Rightarrow> bc_decode bc)"

text \<open>The small ones go to the prefill engine, without a claim.\<close>

definition engine_for ::
  "chat_env \<Rightarrow> backend_cfg \<Rightarrow> Body \<Rightarrow> Headers \<Rightarrow> decodeBalancer option \<Rightarrow> kvPipe option
     \<Rightarrow> ((pick_result, string \<times> claim) result \<times> Headers \<times> decodeBalancer option) option" where
  "engine_for env bc body extra bal kp =
     (let pf = smallToPrefill (ch_pre env) bc body extra
      in if pf \<noteq> [] then Some (Inr (pf, NoNode), extra, bal)
         else case pickDecode env body extra bal kp of
                None \<Rightarrow> None
              | Some (Inl e, extra, bal) \<Rightarrow> Some (Inl e, extra, bal)
              | Some (Inr c, extra, bal) \<Rightarrow> Some (Inr (claim_url bc c bal, c), extra, bal))"


section \<open>The JSON path\<close>

datatype engine_answer = NoAnswer string | CutAnswer string | Answer nat string

datatype backend_error = Plain string | EngineErr nat Body | Panicked

type_synonym engine_http = "string \<Rightarrow> Body \<Rightarrow> Headers \<Rightarrow> engine_answer"

definition json_obj :: "sse_env \<Rightarrow> string \<Rightarrow> Body option" where
  "json_obj env s = (case se_json env s of Some (Obj m) \<Rightarrow> Some m | Some Null \<Rightarrow> Some [] | _ \<Rightarrow> None)"

definition engine_reply :: "sse_env \<Rightarrow> nat \<Rightarrow> string \<Rightarrow> (backend_error, Body) result" where
  "engine_reply env status d =
     (case json_obj env d of
        None \<Rightarrow>
          if status \<noteq> 200
          then Inl (EngineErr status [(''error'', Obj [(''code'', Num (int status)), (''message'', Str (take 512 d))])])
          else Inl (Plain ''json'')
      | Some out \<Rightarrow> if status \<noteq> 200 then Inl (EngineErr status out) else Inr out)"

definition httpBackend :: "chat_env \<Rightarrow> engine_http \<Rightarrow> string \<Rightarrow> Body \<Rightarrow> Headers \<Rightarrow> (backend_error, Body) result \<times> Headers" where
  "httpBackend env http url body extra =
     (if e_marshal (ch_pre env) (Obj body) = None then (Inl (Plain ''marshal''), extra)
      else if \<not> ch_newreq env then (Inl (Plain ''request''), extra)
      else case http url body (filter (\<lambda>(k, v). \<not> isTimingNote k) extra) of
             NoAnswer e \<Rightarrow> (Inl (Plain e), extra)
           | CutAnswer e \<Rightarrow> (Inl (Plain e), noteWait (ch_fmt env) ''x-sofmat-t-first-byte-ms'' (ch_ms env ''first-byte'') extra)
           | Answer status d \<Rightarrow>
               (engine_reply (ch_sse env) status d, noteWait (ch_fmt env) ''x-sofmat-t-first-byte-ms'' (ch_ms env ''first-byte'') extra))"

definition pick_text :: "pick_result \<Rightarrow> string" where
  "pick_text r =
     (case r of
        DecodeTraining \<Rightarrow> ''motor de decode en entrenamiento''
      | EngineFull n \<Rightarrow> ''motor de decode sin contexto disponible''
      | EngineTooBig n \<Rightarrow> ''no cabe ni con todos los motores''
      | _ \<Rightarrow> [])"

definition backendCall ::
  "chat_env \<Rightarrow> engine_http \<Rightarrow> backend_cfg \<Rightarrow> Body \<Rightarrow> Headers \<Rightarrow> decodeBalancer option \<Rightarrow> kvPipe option
     \<Rightarrow> ((backend_error, Body) result \<times> Headers \<times> decodeBalancer option) option" where
  "backendCall env http bc body extra bal kp =
     (case engine_for env bc body extra bal kp of
        None \<Rightarrow> None
      | Some (Inl e, extra, bal) \<Rightarrow> Some (Inl (if e = PickPanic then Panicked else Plain (pick_text e)), extra, bal)
      | Some (Inr (url, c), extra, bal) \<Rightarrow>
          let (r, extra) = httpBackend env http url body extra in Some (r, extra, give_back c bal))"

text \<open>\<^verbatim>\<open>engineError.Error\<close>; \<open>st\<close> is \<^verbatim>\<open>http.StatusText\<close>.\<close>

definition engine_error_text :: "(nat \<Rightarrow> string) \<Rightarrow> nat \<Rightarrow> Body \<Rightarrow> string" where
  "engine_error_text st status body =
     (let msg = as_str (field (as_obj (field body ''error'')) ''message'');
          msg = (if msg = [] then st status else msg)
      in ''motor HTTP '' @ decimal status @ '': '' @ msg)"

datatype chat_reply = JsonReply nat Body | StreamReply nat string | Aborted

definition backend_reply :: "backend_error \<Rightarrow> chat_reply" where
  "backend_reply e = (case e of EngineErr status body \<Rightarrow> JsonReply status body | Plain m \<Rightarrow> JsonReply 502 [(''error'', Str m)] | Panicked \<Rightarrow> Aborted)"

text \<open>
  \<^verbatim>\<open>Gateway.Chat\<close> with \<^verbatim>\<open>backendCall\<close>, after \<^verbatim>\<open>Prepare\<close>. The headers of the plan are one map, so what the call notes in them is there
  when the record is written. \<open>text_of\<close> is \<^verbatim>\<open>err.Error\<close>.
\<close>

definition chat_prepared ::
  "chat_env \<Rightarrow> engine_http \<Rightarrow> backend_cfg \<Rightarrow> (backend_error \<Rightarrow> string) \<Rightarrow> Plan \<Rightarrow> Gateway \<Rightarrow> decodeBalancer option \<Rightarrow> kvPipe option
     \<Rightarrow> (chat_reply \<times> Gateway \<times> decodeBalancer option) option" where
  "chat_prepared env http bc text_of p g bal kp =
     (case backendCall env http bc (p_Body p) (p_Headers p) bal kp of
        None \<Rightarrow> None
      | Some (Inl e, extra, bal) \<Rightarrow>
          Some (backend_reply e,
                if e = Panicked then g
                else snd (finishRecord (ch_fin env) (p\<lparr>p_Headers := extra, p_fields := put ''error'' (Str (text_of e)) (p_fields p)\<rparr>) g), bal)
      | Some (Inr resp, extra, bal) \<Rightarrow>
          (case Finish (ch_fin env) (p\<lparr>p_Headers := extra\<rparr>) resp g of
             None \<Rightarrow> Some (Aborted, g, bal)
           | Some (p, g) \<Rightarrow> Some (JsonReply 200 resp, g, bal)))"


section \<open>The streaming path\<close>

text \<open>The closure \<^verbatim>\<open>finish\<close>: the plan, the gateway and the flag \<^verbatim>\<open>finished\<close>.\<close>

definition finish_once :: "gw_env \<Rightarrow> Body \<Rightarrow> Plan \<times> Gateway \<times> bool \<Rightarrow> (Plan \<times> Gateway \<times> bool) option" where
  "finish_once env fin st =
     (case st of (p, g, finished) \<Rightarrow>
        if finished then Some st
        else case Finish env p fin g of None \<Rightarrow> None | Some (p, g) \<Rightarrow> Some (p, g, True))"

text \<open>An engine that takes a stream answers its status and what the reads give.\<close>

type_synonym engine_stream = "string \<Rightarrow> Body \<Rightarrow> Headers \<Rightarrow> (string, nat \<times> sse_read list) result"

definition obj_of :: "sse_env \<Rightarrow> string \<Rightarrow> (string, Body) result" where
  "obj_of env s = (case json_obj env s of Some m \<Rightarrow> Inr m | None \<Rightarrow> Inl ''json'')"

definition tail_timings :: "sse_env \<Rightarrow> string \<Rightarrow> Body option" where
  "tail_timings env t = sseTimings (se_trim env) (obj_of env) t"

definition tail_error :: "sse_env \<Rightarrow> string \<Rightarrow> string" where
  "tail_error env t = sseError (se_trim env) (obj_of env) (se_marshal env) t"

definition end_notes :: "chat_env \<Rightarrow> string option \<Rightarrow> nat \<Rightarrow> sse_state \<Rightarrow> Plan \<Rightarrow> Plan" where
  "end_notes env engine status v p =
     (let tm = tail_timings (ch_sse env) (ss_tail v);
          p = (case engine of Some nm \<Rightarrow> Note ''engine'' (Str nm) p | None \<Rightarrow> p);
          p = (if status \<noteq> 200 then Note ''engine_status'' (Num (int status)) p else p);
          p = (if tm = None then
                 let p = Note ''engine_bytes'' (Num (int (ss_streamed v))) p;
                     p = (case ss_err v of Some e \<Rightarrow> Note ''engine_read_error'' (Str e) p | None \<Rightarrow> p);
                     p = (if status \<noteq> 200 \<and> ss_head v \<noteq> [] then Note ''engine_said'' (Str (se_trim (ch_sse env) (ss_head v))) p else p);
                     e = tail_error (ch_sse env) (ss_tail v)
                 in if e \<noteq> [] then Note ''engine_error'' (Str e) p else p
               else p);
          p = Note ''stream_ms'' (Flt (ch_ms env ''stream'')) p;
          p = Note ''engine_events'' (Num (int (ss_events v))) p
      in Note ''tool_calls_n'' (Num (int (calls_n (ss_calls v)))) p)"

definition late_error :: "chat_env \<Rightarrow> nat \<Rightarrow> sse_state \<Rightarrow> string" where
  "late_error env status v =
     (if ss_streamed v = 0 \<and> \<not> ss_gone v
      then emitSSEError (ch_sse env) status (case ss_err v of Some e \<Rightarrow> e | None \<Rightarrow> ''el motor acepto la peticion y cerro el stream sin enviar nada'')
      else [])"

definition fin_body :: "chat_env \<Rightarrow> sse_state \<Rightarrow> Body" where
  "fin_body env v = (case tail_timings (ch_sse env) (ss_tail v) of Some tm \<Rightarrow> [(''timings'', Obj tm)] | None \<Rightarrow> [])"

text \<open>What comes after the choice of the engine: the reply, the plan with its notes, and what \<^verbatim>\<open>finish\<close> gets when it is called here.\<close>

definition stream_talk ::
  "chat_env \<Rightarrow> engine_stream \<Rightarrow> string \<Rightarrow> string \<Rightarrow> string option \<Rightarrow> Plan \<Rightarrow> (chat_reply \<times> Plan \<times> Body option) option" where
  "stream_talk env eng bearer url engine p =
     (if \<not> ch_flusher env then Some (JsonReply 500 [(''error'', Str ''streaming unsupported by server'')], p, None)
      else
        let p = (if header (p_Headers p) ''x-sofmat-kv-handoff'' = []
                 then checkpointUserTurn (e_marshal (ch_pre env)) (ch_post env) (ch_ms env ''ckpt'') url p else p)
        in if e_marshal (ch_pre env) (Obj (p_Body p)) = None then Some (JsonReply 500 [(''error'', Str ''marshal'')], p, None)
           else if \<not> ch_newreq env then Some (JsonReply 500 [(''error'', Str ''request'')], p, None)
           else
             let hs = filter (\<lambda>(k, v). \<not> isTimingNote k) (p_Headers p);
                 hs = (if bearer \<noteq> [] then AList.update ''Authorization'' bearer hs else hs)
             in case eng url (p_Body p) hs of
                  Inl e \<Rightarrow> Some (JsonReply 502 [(''error'', Str e)], Note ''engine_bytes'' (Num 0) (Note ''engine_read_error'' (Str e) p), None)
                | Inr (status, rds) \<Rightarrow>
                    let p = Note ''first_byte_ms'' (Flt (ch_ms env ''first-byte'')) p
                    in case sse_loop (ch_sse env) rds sse_start of
                         None \<Rightarrow> None
                       | Some v \<Rightarrow>
                           let p = (case ss_first v of Some ms \<Rightarrow> Note ''first_token_ms'' (Flt ms) p | None \<Rightarrow> p)
                           in Some (StreamReply status (ss_sent v @ late_error env status v), end_notes env engine status v p, Some (fin_body env v)))"

definition engine_name :: "claim \<Rightarrow> decodeBalancer option \<Rightarrow> string option" where
  "engine_name c bal = (case (c, bal) of (OnNode n est, Some b) \<Rightarrow> Some (dn_name (db_nodes b ! n)) | _ \<Rightarrow> None)"

text \<open>\<open>None\<close> while the request waits for room or the engine keeps the stream open. A panic runs the deferred \<^verbatim>\<open>finish\<close> and has no reply.\<close>

definition chatStream ::
  "chat_env \<Rightarrow> engine_stream \<Rightarrow> backend_cfg \<Rightarrow> string \<Rightarrow> Plan \<Rightarrow> Gateway \<Rightarrow> decodeBalancer option \<Rightarrow> kvPipe option
     \<Rightarrow> (chat_reply \<times> Plan \<times> Gateway \<times> decodeBalancer option) option" where
  "chatStream env eng bc bearer p g bal kp =
     (let ending = (\<lambda>reply st bal. case finish_once (ch_fin env) [] st of
                      None \<Rightarrow> Some (Aborted, fst st, fst (snd st), bal)
                    | Some (p, g, _) \<Rightarrow> Some (reply, p, g, bal))
      in if bc_decode bc = [] then ending (JsonReply 503 [(''error'', Str ''no decode backend'')]) (p, g, False) bal
         else case engine_for env bc (p_Body p) (p_Headers p) bal kp of
                None \<Rightarrow> None
              | Some (Inl e, extra, bal) \<Rightarrow>
                  let p = p\<lparr>p_Headers := extra\<rparr>
                  in if e = PickPanic then ending Aborted (p, g, False) bal
                     else (case finish_once (ch_fin env) [] (Note ''error'' (Str (pick_text e)) p, g, False) of
                             None \<Rightarrow> Some (Aborted, p, g, bal)
                           | Some st \<Rightarrow> ending (JsonReply 503 [(''error'', Str (pick_text e))]) st bal)
              | Some (Inr (url, c), extra, bal) \<Rightarrow>
                  (case stream_talk env eng bearer url (engine_name c bal) (p\<lparr>p_Headers := extra\<rparr>) of
                     None \<Rightarrow> None
                   | Some (reply, p, None) \<Rightarrow> ending reply (p, g, False) (give_back c bal)
                   | Some (reply, p, Some fin) \<Rightarrow>
                       (case finish_once (ch_fin env) fin (p, g, False) of
                          None \<Rightarrow> Some (Aborted, p, g, give_back c bal)
                        | Some st \<Rightarrow> ending reply st (give_back c bal))))"

text \<open>The handler of \<^verbatim>\<open>/v1/chat/completions\<close>.\<close>

definition unauthorised_key :: chat_reply where
  "unauthorised_key =
     JsonReply 401 [(''error'', Obj [(''code'', Num 401), (''type'', Str ''invalid_request_error''), (''message'', Str ''API key requerida'')])]"

definition chat ::
  "chat_env \<Rightarrow> engine_http \<Rightarrow> engine_stream \<Rightarrow> Config \<Rightarrow> string \<Rightarrow> (backend_error \<Rightarrow> string) \<Rightarrow> http_req \<Rightarrow> Gateway \<Rightarrow> decodeBalancer option \<Rightarrow> kvPipe option
     \<Rightarrow> (chat_reply \<times> Gateway \<times> decodeBalancer option) option" where
  "chat env http eng cfg key text_of r g bal kp =
     (case json_obj (ch_sse env) (hq_raw r) of
        None \<Rightarrow> Some (JsonReply 400 [(''error'', Str ''json'')], g, bal)
      | Some body \<Rightarrow>
          if c_RequireAPIKey cfg \<and> \<not> key_ok key r then Some (unauthorised_key, g, bal)
          else
            case Prepare (ch_pre env) (stampClient (ch_split env) r (hq_headers r)) body g of
              (Inl e, g) \<Rightarrow>
                Some (if e = Panic then Aborted
                      else JsonReply (if e = ErrUnauthorized \<and> streamRequested body then 401 else 502) [(''error'', Str ''gateway'')], g, bal)
            | (Inr p, g) \<Rightarrow>
                if streamRequested body
                then map_option (\<lambda>(reply, p, g, bal). (reply, g, bal))
                       (chatStream env eng (backendConfigFrom cfg) (header (hq_headers r) ''Authorization'') p g bal kp)
                else chat_prepared env http (backendConfigFrom cfg) text_of p g bal kp)"


section \<open>Residency\<close>

text \<open>\<open>slots\<close> is what the slots of an engine read; the balancer is consulted, and remembers the conversation.\<close>

definition cacheResident ::
  "chat_env \<Rightarrow> (string \<Rightarrow> slot_row list option) \<Rightarrow> kvPipe option \<Rightarrow> Body \<Rightarrow> int \<Rightarrow> string \<Rightarrow> decodeBalancer option \<Rightarrow> (bool \<times> decodeBalancer option) option" where
  "cacheResident env slots kp body expect slot bal =
     (case (bal, kp) of
        (Some b, Some k) \<Rightarrow>
          if db_nodes b = [] then Some (True, bal)
          else
            (case stickyNode (sessionKey (e_sha (ch_pre env)) (e_marshal (ch_pre env)) body) b of
               None \<Rightarrow> None
             | Some (None, b) \<Rightarrow> Some (True, Some b)
             | Some (Some n, b) \<Rightarrow>
                 let rows = slots (dn_url (db_nodes b ! n))
                 in Some (if slot \<noteq> [] then
                            (case slotHeld rows slot of None \<Rightarrow> True | Some held \<Rightarrow> held \<ge> go_int (of_int expect * (8 / 10)))
                          else
                            (case slotsHolding rows expect of None \<Rightarrow> True | Some (big, cached) \<Rightarrow> cached > 0 \<and> big \<ge> cached),
                          Some b))
      | _ \<Rightarrow> Some (True, bal))"

section \<open>Loads\<close>

text \<open>What the engines are charged with; \<open>alone\<close> says that nobody else touches the balancer meanwhile.\<close>

definition loads :: "decodeBalancer \<Rightarrow> (int \<times> int) list" where
  "loads b = map dn_load (db_nodes b)"

definition alone :: "chat_env \<Rightarrow> bool" where
  "alone env \<longleftrightarrow> list_all (\<lambda>r. rd_ops r = []) (ch_rounds env) \<and> rd_ops (ch_last env) = [] \<and> ch_gap env = []"

lemma seen_loads: "list_all2 seen ns ns' \<Longrightarrow> map dn_load ns' = map dn_load ns"
  by (induction rule: list_all2_induct) (auto simp: dn_load_def dest: seenD)

lemma pick_wait_part:
  assumes "pick_wait rs deadline key est n b = Some (r, b')" "bal_inv b" "n < length (db_nodes b)"
  shows "\<exists>m. r = Some m \<and> m < length (db_nodes b') \<and> bal_inv b' \<and> length (db_nodes b') = length (db_nodes b) \<and>
    (list_all (\<lambda>r. rd_ops r = []) rs \<longrightarrow> loads b' = loads b)"
  using assms
proof (induction rs arbitrary: b)
  case (Cons x rs)
  obtain b1 where b1: "apply_ops (rd_ops x) b = Some b1" "bal_inv b1" "length (db_nodes b1) = length (db_nodes b)" "rd_ops x = [] \<Longrightarrow> b1 = b"
    using apply_ops_run[OF Cons.prems(2), of "rd_ops x"] by fastforce
  obtain ok b2 where f: "fits_at (rd_now x) (rd_occ x) est n b1 = (ok, b2)" by fastforce
  have n1: "n < length (db_nodes b1)" using Cons.prems(3) b1(3) by simp
  have b2: "bal_inv b2" "length (db_nodes b2) = length (db_nodes b)" "loads b2 = loads b1"
    using fits_at_run(1,2)[OF b1(2) n1 f] seen_loads b1(3) list_all2_lengthD by (fastforce simp: loads_def)+
  obtain alt b3 where a: "freeNode (rd_now x) (rd_occ x) est b2 = (alt, b3)" by fastforce
  have b3: "bal_inv b3" "length (db_nodes b3) = length (db_nodes b)" "loads b3 = loads b2" "\<And>m. alt = Some m \<Longrightarrow> m < length (db_nodes b3)"
    using freeNode_run[OF b2(1) a] seen_loads b2(2) list_all2_lengthD by (fastforce simp: loads_def)+
  have quietly: "rd_ops x = [] \<Longrightarrow> loads b3 = loads b" using b1(4) b2(3) b3(3) by simp
  show ?case
  proof (cases "ok \<or> \<not> rd_now x < deadline")
    case True
    then show ?thesis using Cons.prems(1,3) b1 b2 f by auto
  next
    case no: False
    have again: "pick_wait rs deadline key est n b3 = Some (r, b') \<Longrightarrow> ?thesis"
      using Cons.IH[of b3] b3(1,2) Cons.prems(3) quietly by auto
    show ?thesis
    proof (cases "\<exists>m. alt = Some m \<and> m \<noteq> n")
      case True
      then obtain m where m: "alt = Some m" "m \<noteq> n" by blast
      obtain b4 where "setLocked key m b3 = Some b4" "bal_inv b4" "db_nodes b4 = db_nodes b3"
        by (rule setLocked_run[OF b3(1) b3(4)[OF m(1)], of key])
      then show ?thesis using Cons.prems(1) no b1(1) f a m b3(2) b3(4)[OF m(1)] quietly by (auto simp: remember_node_def loads_def)
    next
      case False
      then have "pick_wait rs deadline key est n b3 = Some (r, b')"
        using Cons.prems(1) no b1(1) f a by (cases alt) auto
      then show ?thesis by (rule again)
    qed
  qed
qed simp

definition charged :: "claim \<Rightarrow> (int \<times> int) list \<Rightarrow> (int \<times> int) list" where
  "charged c ls = (case c of NoNode \<Rightarrow> ls | OnNode n est \<Rightarrow> ls[n := (fst (ls ! n) + 1, snd (ls ! n) + est)])"

definition claim_of :: "int \<Rightarrow> pick_result \<Rightarrow> claim" where
  "claim_of est r = (case r of Served n \<Rightarrow> OnNode n (if est < 0 then 0 else est) | _ \<Rightarrow> NoNode)"

lemma claim_loads: "n < length (db_nodes b) \<Longrightarrow> loads (on_node n (dn_claim est) b) = charged (OnNode n est) (loads b)"
  by (simp add: loads_def on_node_def charged_def map_update dn_claim_def dn_load_def)

lemma pick_claim_part:
  assumes "bal_inv b" "n < length (db_nodes b)" "0 \<le> est" "pick_claim fin gap est n b = (res, b')"
  shows "bal_inv b' \<and> length (db_nodes b') = length (db_nodes b) \<and> res \<in> {Served n, EngineFull n} \<and>
    (rd_ops fin = [] \<and> gap = [] \<longrightarrow> loads b' = charged (claim_of est res) (loads b))"
proof -
  obtain b1 where b1: "apply_ops (rd_ops fin) b = Some b1" "bal_inv b1" "length (db_nodes b1) = length (db_nodes b)" "rd_ops fin = [] \<Longrightarrow> b1 = b"
    using apply_ops_run[OF assms(1), of "rd_ops fin"] by fastforce
  have n1: "n < length (db_nodes b1)" using assms(2) b1(3) by simp
  obtain ok b2 where f: "fits_at (rd_now fin) (rd_occ fin) est n b1 = (ok, b2)" by fastforce
  note fr = fits_at_run[OF b1(2) n1 f]
  have b2: "length (db_nodes b2) = length (db_nodes b)" "loads b2 = loads b1"
    using fr(2) seen_loads b1(3) list_all2_lengthD by (fastforce simp: loads_def)+
  obtain b3 where b3: "apply_ops gap b2 = Some b3" "bal_inv b3" "length (db_nodes b3) = length (db_nodes b2)" "gap = [] \<Longrightarrow> b3 = b2"
    using apply_ops_run[OF fr(1), of gap] by fastforce
  have c: "bal_inv (claim_at n est b3)" unfolding claim_at_def using assms(2,3) b3(2,3) b2(1)
    by (intro on_node_inv(1)) (auto simp: node_ok_def invalidateHeld_def dn_claim_def)
  have l: "loads (claim_at n est x) = charged (OnNode n est) (loads x)" if "n < length (db_nodes x)" for x
    using claim_loads[OF that] by (simp add: claim_at_def loads_def on_node_def map_update invalidateHeld_def dn_load_def dn_claim_def)
  show ?thesis
  proof (cases ok)
    case True
    then have r: "res = Served n" "b' = claim_at n est b3" using assms(4) b1(1) f b3(1) by (auto simp: pick_claim_def)
    then show ?thesis using c b2 b3 b1(4) assms(2,3) l[of b3] by (auto simp: claim_of_def claim_at_def on_node_def)
  next
    case False
    then have r: "res = EngineFull n" "b' = b2" using assms(4) b1(1) f by (auto simp: pick_claim_def)
    then show ?thesis using fr(1) b2 b1(4) by (auto simp: claim_of_def charged_def)
  qed
qed

lemma pick_part:
  assumes "pick rs fin gap start key est b = Some (res, b')" "bal_inv b"
  shows "res \<noteq> PickPanic \<and> bal_inv b' \<and> length (db_nodes b') = length (db_nodes b) \<and> (\<forall>n. res = Served n \<longrightarrow> n < length (db_nodes b)) \<and>
    (list_all (\<lambda>r. rd_ops r = []) rs \<and> rd_ops fin = [] \<and> gap = [] \<longrightarrow> loads b' = charged (claim_of est res) (loads b))"
proof -
  define e where "e = (if est < 0 then 0 else est)"
  obtain r b1 where c: "chooseNode key b = Some (r, b1)" "bal_inv b1" "db_nodes b1 = db_nodes b"
    "\<And>n. r = Some n \<Longrightarrow> n < length (db_nodes b)" using chooseNode_run[OF assms(2), of key] by fastforce
  obtain bg room tb where t: "tooBigForEveryEngine e b = (bg, room, tb)" using prod_cases3 by blast
  show ?thesis
  proof (cases "db_nodes b = [] \<or> (bg \<noteq> None \<and> tb) \<or> r = None")
    case True
    then show ?thesis using t c assms e_def by (cases bg; cases tb) (auto simp: pick_def Let_def claim_of_def charged_def loads_def split: if_splits)
  next
    case False
    then obtain n where n: "r = Some n" by auto
    have p: "pick rs fin gap start key est b =
      (case pick_wait rs (start + waitBudget) key e n b1 of
         None \<Rightarrow> None | Some (None, b) \<Rightarrow> Some (PickPanic, b) | Some (Some n, b) \<Rightarrow> Some (pick_claim fin gap e n b))"
      using pick_parts[OF assms(2) _ e_def _ c(1)[unfolded n], of rs fin gap start] False t by auto
    then obtain w b2 where w: "pick_wait rs (start + waitBudget) key e n b1 = Some (w, b2)" using assms(1) by (auto split: option.splits)
    obtain m where m: "w = Some m" "m < length (db_nodes b2)" "bal_inv b2" "length (db_nodes b2) = length (db_nodes b1)"
      "list_all (\<lambda>r. rd_ops r = []) rs \<longrightarrow> loads b2 = loads b1"
      using pick_wait_part[OF w c(2)] c(3,4) n by auto
    have e0: "0 \<le> e" "\<And>x. claim_of e x = claim_of est x" by (auto simp: e_def claim_of_def split: pick_result.split)
    have "pick_claim fin gap e m b2 = (res, b')" using p w m(1) assms(1) by simp
    from pick_claim_part[OF m(3,2) e0(1) this] show ?thesis using m c(3) e0(2) by (auto simp: loads_def)
  qed
qed

section \<open>The life of a request\<close>

text \<open>What \<^verbatim>\<open>Prepare\<close> leaves of a gateway, and what has to hold of it when the request is over.\<close>

definition under_way :: "Gateway \<Rightarrow> Plan \<Rightarrow> Gateway \<Rightarrow> bool" where
  "under_way g p gp \<longleftrightarrow> gw_inv gp \<and> g_log gp = g_log g \<and> p_gated p \<and> entries (gate_release (p_ckey p) (g_gate gp)) = entries (g_gate g)"

definition recorded :: "Gateway \<Rightarrow> Gateway \<Rightarrow> bool" where
  "recorded g g' \<longleftrightarrow> gw_inv g' \<and> entries (g_gate g') = entries (g_gate g) \<and> rl_nextID (g_log g') = Suc (rl_nextID (g_log g)) \<and>
     rl_capacity (g_log g') = rl_capacity (g_log g) \<and> Len (g_log g') = min (nat (rl_capacity (g_log g))) (Suc (Len (g_log g)))"

definition same_gate :: "Plan \<Rightarrow> Plan \<Rightarrow> bool" where
  "same_gate p p' \<longleftrightarrow> p_ckey p' = p_ckey p \<and> p_gated p' = p_gated p"

lemma same_gate_refl [simp]: "same_gate p p"
  by (simp add: same_gate_def)

lemma same_gate_step [simp]:
  "same_gate p (Note k v q) = same_gate p q" "same_gate p (q\<lparr>p_Body := b\<rparr>) = same_gate p q"
  "same_gate p (q\<lparr>p_Headers := h\<rparr>) = same_gate p q" "same_gate p (q\<lparr>p_fields := fs\<rparr>) = same_gate p q"
  "same_gate (q\<lparr>p_Headers := h\<rparr>) p = same_gate q p"
  by (simp_all add: same_gate_def Note_def)

lemma under_way_same: "under_way g p gp \<Longrightarrow> same_gate p q \<Longrightarrow> under_way g q gp"
  by (simp add: under_way_def same_gate_def)

lemma finishRecord_recorded:
  assumes "under_way g p gp" "booked p gp q g1"
  shows "recorded g (snd (finishRecord env q g1))"
proof -
  have "gw_inv g1" "g_gate g1 = g_gate gp" "g_log g1 = g_log g" "p_gated q" "p_ckey q = p_ckey p"
    using assms by (auto simp: booked_def under_way_def)
  then show ?thesis using finishRecord_run[of g1 env q] assms(1) by (simp add: recorded_def under_way_def Len_def)
qed

lemma Finish_recorded:
  assumes "under_way g p gp"
  obtains p' g' where "Finish env p resp gp = Some (p', g')" "recorded g g'"
proof -
  have "gw_inv gp" using assms by (simp add: under_way_def)
  then obtain q g1 where q: "booked p gp q g1" "Finish env p resp gp = Some (finishRecord env (q\<lparr>p_fields := final_fields env resp q\<rparr>) g1)"
    by (rule Finish_run[of gp p env resp])
  then show thesis using that finishRecord_recorded[OF assms booked_fields[OF q(1)], of env "final_fields env resp q"]
    by (metis prod.collapse)
qed

lemma finish_once_recorded:
  assumes "under_way g p gp"
  obtains p' g' where "finish_once env fin (p, gp, False) = Some (p', g', True)" "recorded g g'"
  by (rule Finish_recorded[OF assms, of env fin]) (use that in \<open>auto simp: finish_once_def\<close>)

lemma finish_once_twice: "finish_once env fin (p, g, True) = Some (p, g, True)"
  by (simp add: finish_once_def)

lemma checkpoint_same: "same_gate p (checkpointUserTurn marshal post ms url p)"
  by (simp add: checkpointUserTurn_def ckpt_done_def Let_def split: sum.split option.split nat.split go_any.split)

lemma end_notes_same: "same_gate q (end_notes env e st v p) = same_gate q p"
  by (simp add: end_notes_def Let_def split: option.split)

lemma stream_talk_same:
  assumes "stream_talk env eng bearer url e p = Some (reply, p', fin)"
  shows "same_gate p p' \<and> reply \<noteq> Aborted"
proof -
  define q where "q = (if header (p_Headers p) ''x-sofmat-kv-handoff'' = []
     then checkpointUserTurn (e_marshal (ch_pre env)) (ch_post env) (ch_ms env ''ckpt'') url p else p)"
  have "same_gate p q" by (simp add: q_def checkpoint_same)
  then show ?thesis using assms unfolding stream_talk_def q_def[symmetric] Let_def
    by (auto simp: end_notes_same split: if_splits sum.splits option.splits)
qed


section \<open>What a choice does to the balancer\<close>

lemma replyReserveFor_pos: "0 < replyReserveFor body"
  by (simp add: replyReserveFor_def replyReserve_def replyDefault_def Let_def)

lemma bodyTokens_nonneg: "0 \<le> bodyTokens env body extra"
  using replyReserveFor_pos[of body] by (auto simp: bodyTokens_def estBodyTokens_def Let_def split: option.split)

definition bal_ok :: "decodeBalancer option \<Rightarrow> bool" where
  "bal_ok bal \<longleftrightarrow> (\<forall>b. bal = Some b \<longrightarrow> bal_inv b)"

definition claim_ok :: "decodeBalancer option \<Rightarrow> claim \<Rightarrow> bool" where
  "claim_ok bal c \<longleftrightarrow> (\<forall>n est. c = OnNode n est \<longrightarrow> (\<exists>b. bal = Some b \<and> n < length (db_nodes b)) \<and> 0 \<le> est)"

text \<open>A choice is sound when it did not panic, kept the balancer, and charged just the engine it names.\<close>

definition chose :: "chat_env \<Rightarrow> decodeBalancer option \<Rightarrow> (pick_result, claim) result \<Rightarrow> decodeBalancer option \<Rightarrow> bool" where
  "chose env bal r bal' \<longleftrightarrow> bal_ok bal' \<and> r \<noteq> Inl PickPanic \<and>
     (case r of
        Inl e \<Rightarrow> alone env \<longrightarrow> map_option loads bal' = map_option loads bal
      | Inr c \<Rightarrow> claim_ok bal' c \<and> (alone env \<longrightarrow> map_option loads bal' = map_option (\<lambda>b. charged c (loads b)) bal))"

lemma charged_none [simp]: "charged NoNode ls = ls"
  by (simp add: charged_def)

lemma handoff_node_bound: "db_nodes b \<noteq> [] \<Longrightarrow> handoff_node kp hid b < length (db_nodes b)"
  using index_of_bound[of _ 0 "db_nodes b"] by (fastforce simp: handoff_node_def nodeByURL_def Let_def split: option.split)

lemma handoff_chose:
  assumes "bal_inv b" "n < length (db_nodes b)" "0 \<le> est"
  obtains b' where "remember_node key n (on_node n (dn_claim est) b) = Some b'" "chose env (Some b) (Inr (OnNode n est)) (Some b')"
proof -
  let ?b = "on_node n (dn_claim est) b"
  have i: "bal_inv ?b" using on_node_inv(1)[OF assms(1,2), of "dn_claim est"] assms(3) by (simp add: node_ok_def dn_claim_def)
  have l: "n < length (db_nodes ?b)" using assms(2) by (simp add: on_node_def)
  obtain b' where b': "setLocked key n ?b = Some b'" "bal_inv b'" "db_nodes b' = db_nodes ?b" by (rule setLocked_run[OF i l, of key])
  have "loads b' = charged (OnNode n est) (loads b)" using claim_loads[OF assms(2), of est] b'(3) by (simp add: loads_def)
  then show thesis using that[of b'] b' l assms(3) by (simp add: remember_node_def chose_def bal_ok_def claim_ok_def)
qed

lemma picked_chose:
  assumes "pick (ch_rounds env) (ch_last env) (ch_gap env) start key est b = Some (r, b')" "bal_inv b"
  shows "chose env (Some b) (case r of Served n \<Rightarrow> Inr (OnNode n (if est < 0 then 0 else est)) | NoEngines \<Rightarrow> Inr NoNode | e \<Rightarrow> Inl e) (Some b')"
  using pick_part[OF assms] by (cases r) (auto simp: chose_def bal_ok_def claim_ok_def alone_def claim_of_def)

lemma pickDecode_chose:
  assumes "pickDecode env body extra bal kp = Some (r, extra', bal')" "bal_ok bal"
  shows "chose env bal r bal'"
proof (cases "bal = None \<or> (\<exists>b. bal = Some b \<and> db_nodes b = [])")
  case True
  then show ?thesis using assms by (auto simp: pickDecode_def chose_def claim_ok_def)
next
  case False
  then obtain b where b: "bal = Some b" "db_nodes b \<noteq> []" by auto
  have i: "bal_inv b" using assms(2) b by (simp add: bal_ok_def)
  define est where "est = bodyTokens (ch_pre env) body extra"
  define key where "key = sessionKey (e_sha (ch_pre env)) (e_marshal (ch_pre env)) body"
  define n where "n = handoff_node kp (header extra ''x-sofmat-kv-handoff'') b"
  note run = assms(1)[unfolded pickDecode_def b(1) option.case if_not_P[OF b(2)] Let_def est_def[symmetric] key_def[symmetric] n_def[symmetric]]
  show ?thesis
  proof (cases "header extra ''x-sofmat-kv-handoff'' \<noteq> []")
    case True
    obtain b' where "remember_node key n (on_node n (dn_claim est) b) = Some b'" "chose env (Some b) (Inr (OnNode n est)) (Some b')"
      using handoff_chose[OF i, of n est key env] handoff_node_bound[OF b(2)] bodyTokens_nonneg unfolding n_def est_def by metis
    moreover have "chose env (Some b) (Inl DecodeTraining) (Some b)" using i by (simp add: chose_def bal_ok_def)
    ultimately show ?thesis using run True b by (auto split: if_splits)
  next
    case False
    then obtain x b' where p: "pick (ch_rounds env) (ch_last env) (ch_gap env) (ch_start env) key est b = Some (x, b')"
      and r: "r = (case x of Served n \<Rightarrow> Inr (OnNode n (if est < 0 then 0 else est)) | NoEngines \<Rightarrow> Inr NoNode | e \<Rightarrow> Inl e)" "bal' = Some b'"
      using run by (auto split: option.splits prod.splits)
    show ?thesis using picked_chose[OF p i] unfolding r b(1) .
  qed
qed

lemma engine_for_chose:
  assumes "engine_for env bc body extra bal kp = Some (r, extra', bal')" "bal_ok bal"
  shows "chose env bal (case r of Inl e \<Rightarrow> Inl e | Inr (url, c) \<Rightarrow> Inr c) bal'"
proof (cases "smallToPrefill (ch_pre env) bc body extra \<noteq> []")
  case True
  then show ?thesis using assms by (auto simp: engine_for_def Let_def chose_def claim_ok_def option.map_ident)
next
  case False
  then show ?thesis using assms pickDecode_chose[of env body extra bal kp]
    by (auto simp: engine_for_def Let_def split: option.splits sum.splits)
qed

lemma give_back_chose:
  assumes "chose env bal (Inr c) bal'" "bal_ok bal"
  shows "bal_ok (give_back c bal') \<and> (alone env \<longrightarrow> map_option loads (give_back c bal') = map_option loads bal)"
proof (cases c)
  case NoNode
  then show ?thesis using assms by (simp add: chose_def give_back_def option.map_ident)
next
  case (OnNode n est)
  obtain b' where b': "bal' = Some b'" "n < length (db_nodes b')" "0 \<le> est" "bal_inv b'" using assms(1) OnNode by (auto simp: chose_def claim_ok_def bal_ok_def)
  have i: "bal_inv (release_at n est b')" unfolding release_at_def
    by (rule on_node_inv(1)[OF b'(4,2)]) (simp add: node_ok_def invalidateHeld_def dn_release_def)
  have "loads (release_at n est b') = loads b" if a: "alone env" "bal = Some b" for b
  proof -
    have l: "loads b' = (loads b)[n := (fst (loads b ! n) + 1, snd (loads b ! n) + est)]" using assms(1) OnNode b'(1) a by (simp add: chose_def charged_def)
    have n: "n < length (loads b)" using arg_cong[OF l, of length] b'(2) by (simp add: loads_def)
    have k: "node_ok (db_nodes b ! n)" using assms(2) a(2) n by (auto simp: bal_ok_def bal_inv_def loads_def)
    have "loads (release_at n est b') = (loads b')[n := dn_load (dn_release est (db_nodes b' ! n))]"
      by (simp add: loads_def release_at_def on_node_def map_update invalidateHeld_def dn_load_def)
    also have "dn_load (dn_release est (db_nodes b' ! n)) = loads b ! n"
      using arg_cong[OF l, of "\<lambda>x. x ! n"] n b'(2,3) k by (auto simp: loads_def dn_load_def dn_release_def node_ok_def)
    finally show ?thesis using n by (simp add: l)
  qed
  moreover have "bal \<noteq> None" if "alone env" using that assms(1) b'(1) by (cases bal) (auto simp: chose_def)
  ultimately show ?thesis using OnNode b'(1) i by (cases bal) (auto simp: give_back_def bal_ok_def)
qed

text \<open>What every request that was let in leaves behind.\<close>

definition settled :: "chat_env \<Rightarrow> Gateway \<Rightarrow> decodeBalancer option \<Rightarrow> chat_reply \<times> Gateway \<times> decodeBalancer option \<Rightarrow> bool" where
  "settled env g bal out \<longleftrightarrow> (case out of (reply, g', bal') \<Rightarrow>
     reply \<noteq> Aborted \<and> recorded g g' \<and> bal_ok bal' \<and> (alone env \<longrightarrow> map_option loads bal' = map_option loads bal))"

lemma httpBackend_plain: "fst (httpBackend env http url body extra) \<noteq> Inl Panicked"
  by (simp add: httpBackend_def engine_reply_def split: engine_answer.split option.split)

lemma backendCall_part:
  assumes "backendCall env http bc body extra bal kp = Some (r, extra', bal')" "bal_ok bal"
  shows "r \<noteq> Inl Panicked \<and> bal_ok bal' \<and> (alone env \<longrightarrow> map_option loads bal' = map_option loads bal)"
proof -
  obtain x ex b where e: "engine_for env bc body extra bal kp = Some (x, ex, b)" using assms(1) by (auto simp: backendCall_def split: option.splits)
  note c = engine_for_chose[OF e assms(2)]
  show ?thesis
  proof (cases x)
    case (Inl v)
    then show ?thesis using assms(1) e c by (auto simp: backendCall_def chose_def)
  next
    case (Inr uc)
    obtain url cl where uc: "uc = (url, cl)" by fastforce
    have "chose env bal (Inr cl) b" using c Inr uc by simp
    then have "bal_ok (give_back cl b) \<and> (alone env \<longrightarrow> map_option loads (give_back cl b) = map_option loads bal)"
      using give_back_chose assms(2) by blast
    then show ?thesis using assms(1) e Inr uc httpBackend_plain[of env http url body ex]
      by (auto simp: backendCall_def split: prod.splits)
  qed
qed

lemma chat_prepared_settled:
  assumes "chat_prepared env http bc text_of p gp bal kp = Some out" "under_way g p gp" "bal_ok bal"
  shows "settled env g bal out"
proof -
  obtain r ex b where c: "backendCall env http bc (p_Body p) (p_Headers p) bal kp = Some (r, ex, b)"
    using assms(1) by (auto simp: chat_prepared_def split: option.splits)
  note part = backendCall_part[OF c assms(3)]
  have u: "under_way g (p\<lparr>p_Headers := ex\<rparr>) gp" using under_way_same[OF assms(2)] by simp
  show ?thesis
  proof (cases r)
    case (Inl e)
    define q where "q = p\<lparr>p_Headers := ex, p_fields := put ''error'' (Str (text_of e)) (p_fields p)\<rparr>"
    have "under_way g q gp" using under_way_same[OF assms(2)] by (simp add: q_def)
    then have "recorded g (snd (finishRecord (ch_fin env) q gp))" using finishRecord_recorded booked_refl by blast
    moreover have "backend_reply e \<noteq> Aborted" "e \<noteq> Panicked" using part Inl by (auto simp: backend_reply_def split: backend_error.split)
    ultimately show ?thesis using assms(1) c Inl part by (auto simp: chat_prepared_def settled_def q_def[symmetric])
  next
    case (Inr resp)
    obtain p' g' where "Finish (ch_fin env) (p\<lparr>p_Headers := ex\<rparr>) resp gp = Some (p', g')" "recorded g g'"
      by (rule Finish_recorded[OF u])
    then show ?thesis using assms(1) c Inr part by (auto simp: chat_prepared_def settled_def)
  qed
qed

lemma chatStream_settled:
  assumes "chatStream env eng bc bearer p gp bal kp = Some (reply, p', g', bal')" "under_way g p gp" "bal_ok bal"
  shows "settled env g bal (reply, g', bal')"
proof -
  have once: "recorded g g1" if "finish_once (ch_fin env) fin (q, gp, False) = Some (p1, g1, f)" "same_gate p q" for fin q p1 g1 f
    using finish_once_recorded[OF under_way_same[OF assms(2) that(2)], of "ch_fin env" fin] that(1) by force
  have some: "\<exists>p1 g1. finish_once (ch_fin env) fin (q, gp, False) = Some (p1, g1, True)" if "same_gate p q" for fin q
    using finish_once_recorded[OF under_way_same[OF assms(2) that], of "ch_fin env" fin] by metis
  have ok: "alone env \<longrightarrow> map_option loads bal = map_option loads bal" by simp
  show ?thesis
  proof (cases "bc_decode bc = []")
    case True
    obtain p1 g1 where f: "finish_once (ch_fin env) [] (p, gp, False) = Some (p1, g1, True)" using some[of p "[]"] by auto
    then show ?thesis using assms(1,3) True once[OF f] by (auto simp: chatStream_def settled_def)
  next
    case False
    then obtain x ex b where e: "engine_for env bc (p_Body p) (p_Headers p) bal kp = Some (x, ex, b)"
      using assms(1) by (auto simp: chatStream_def split: option.splits)
    note c = engine_for_chose[OF e assms(3)]
    show ?thesis
    proof (cases x)
      case (Inl v)
      define q where "q = Note ''error'' (Str (pick_text v)) (p\<lparr>p_Headers := ex\<rparr>)"
      have q: "same_gate p q" by (simp add: q_def)
      obtain p1 g1 where f: "finish_once (ch_fin env) [] (q, gp, False) = Some (p1, g1, True)" using some[OF q, of "[]"] by blast
      have "v \<noteq> PickPanic" using c Inl by (auto simp: chose_def)
      then have "reply = JsonReply 503 [(''error'', Str (pick_text v))]" "g' = g1" "bal' = b"
        using assms(1) False e Inl f by (auto simp: chatStream_def q_def[symmetric] finish_once_twice)
      then show ?thesis using once[OF f q] c Inl by (auto simp: settled_def chose_def)
    next
      case (Inr uc)
      obtain url cl where uc: "uc = (url, cl)" by fastforce
      obtain y where t: "stream_talk env eng bearer url (engine_name cl b) (p\<lparr>p_Headers := ex\<rparr>) = Some y"
        using assms(1) False e Inr uc by (auto simp: chatStream_def split: option.splits)
      obtain rp q fin where y: "y = (rp, q, fin)" using prod_cases3 by blast
      have q: "same_gate p q" "rp \<noteq> Aborted" using stream_talk_same[OF t[unfolded y]] by (auto simp: same_gate_def)
      have "chose env bal (Inr cl) b" using c Inr uc by simp
      note give = give_back_chose[OF this assms(3)]
      obtain p1 g1 where f: "finish_once (ch_fin env) (case fin of None \<Rightarrow> [] | Some r \<Rightarrow> r) (q, gp, False) = Some (p1, g1, True)"
        using some[OF q(1)] by blast
      have "reply = rp \<and> g' = g1 \<and> bal' = give_back cl b"
        using assms(1) False e Inr uc t y f by (cases fin) (auto simp: chatStream_def finish_once_twice)
      then show ?thesis using once[OF f q(1)] q(2) give by (simp add: settled_def)
    qed
  qed
qed

definition turned_away :: "chat_env \<Rightarrow> Config \<Rightarrow> string \<Rightarrow> http_req \<Rightarrow> bool" where
  "turned_away env cfg key r \<longleftrightarrow> json_obj (ch_sse env) (hq_raw r) = None \<or> (c_RequireAPIKey cfg \<and> \<not> key_ok key r) \<or>
     \<not> e_verify (ch_pre env) (stampClient (ch_split env) r (hq_headers r))"

lemma chat_run_ok:
  assumes "gw_inv g" "bal_ok bal" "chat env http eng cfg key text_of r g bal kp = Some (reply, g', bal')"
  shows "if turned_away env cfg key r
         then g' = g \<and> bal' = bal \<and> (\<exists>st body. reply = JsonReply st body \<and> st \<in> {400, 401, 502})
         else reply \<noteq> Aborted \<and> recorded g g' \<and> bal_ok bal' \<and> (alone env \<longrightarrow> map_option loads bal' = map_option loads bal)"
proof -
  let ?h = "stampClient (ch_split env) r (hq_headers r)"
  show ?thesis
  proof (cases "json_obj (ch_sse env) (hq_raw r) = None \<or> (c_RequireAPIKey cfg \<and> \<not> key_ok key r)")
    case True
    then show ?thesis using assms(3) by (auto simp: chat_def turned_away_def unauthorised_key_def split: option.splits)
  next
    case False
    then obtain body where body: "json_obj (ch_sse env) (hq_raw r) = Some body" by auto
    show ?thesis
    proof (cases "e_verify (ch_pre env) ?h")
      case no: False
      then have "Prepare (ch_pre env) ?h body g = (Inl ErrUnauthorized, g)" by (simp add: Prepare_def)
      then show ?thesis using assms(3) False body no by (auto simp: chat_def turned_away_def)
    next
      case True
      obtain p gp where p: "Prepare (ch_pre env) ?h body g = (Inr p, gp)" "gw_inv gp" "g_log gp = g_log g" "p_gated p"
        "entries (gate_release (p_ckey p) (g_gate gp)) = entries (g_gate g)" by (rule Chat_run[OF assms(1) True])
      have u: "under_way g p gp" using p by (simp add: under_way_def)
      have "settled env g bal (reply, g', bal')"
      proof (cases "streamRequested body")
        case True
        then obtain p' where "chatStream env eng (backendConfigFrom cfg) (header (hq_headers r) ''Authorization'') p gp bal kp = Some (reply, p', g', bal')"
          using assms(3) False body p(1) by (auto simp: chat_def)
        then show ?thesis by (rule chatStream_settled[OF _ u assms(2)])
      next
        case no: False
        have "chat_prepared env http (backendConfigFrom cfg) text_of p gp bal kp = Some (reply, g', bal')"
          using assms(3) False body p(1) no by (auto simp: chat_def)
        then show ?thesis by (rule chat_prepared_settled[OF _ u assms(2)])
      qed
      then show ?thesis using False body True by (auto simp: turned_away_def settled_def)
    qed
  qed
qed

text \<open>When the waits are bounded and the engines end their streams.\<close>

definition rounds_end :: "chat_env \<Rightarrow> bool" where
  "rounds_end env \<longleftrightarrow> ch_rounds env \<noteq> [] \<and> ch_start env + waitBudget \<le> rd_now (last (ch_rounds env))"

definition stream_ends :: "sse_read list \<Rightarrow> bool" where
  "stream_ends rs \<longleftrightarrow> list_ex (\<lambda>r. rd_end r \<noteq> Continues) rs"

lemma sse_loop_ends: "stream_ends rs \<Longrightarrow> \<exists>v. sse_loop env rs s = Some v"
  by (induction env rs s rule: sse_loop.induct) (auto simp: stream_ends_def Let_def split: read_end.splits)

lemma pick_ends:
  assumes "bal_inv b" "rs \<noteq> []" "start + waitBudget \<le> rd_now (last rs)"
  shows "pick rs fin gap start key est b \<noteq> None"
proof -
  define e where "e = (if est < 0 then 0 else est)"
  obtain r b1 where c: "chooseNode key b = Some (r, b1)" "bal_inv b1" "db_nodes b1 = db_nodes b"
    "\<And>n. r = Some n \<Longrightarrow> n < length (db_nodes b)" using chooseNode_run[OF assms(1), of key] by fastforce
  have "pick_wait rs (start + waitBudget) key e n b1 \<noteq> None" if "r = Some n" for n
    using pick_wait_run[OF c(2) _ assms(2,3), of n key e] c(3,4) that by auto
  then show ?thesis using c(1) by (auto simp: pick_def Let_def e_def[symmetric] split: option.split bool.split prod.split)
qed

lemma pickDecode_ends:
  assumes "bal_ok bal" "rounds_end env"
  obtains r h b where "pickDecode env body extra bal kp = Some (r, h, b)"
proof (cases bal)
  case None
  then show ?thesis using that by (simp add: pickDecode_def)
next
  case (Some b)
  define key where "key = sessionKey (e_sha (ch_pre env)) (e_marshal (ch_pre env)) body"
  define est where "est = bodyTokens (ch_pre env) body extra"
  have i: "bal_inv b" using assms(1) Some by (simp add: bal_ok_def)
  have r: "ch_rounds env \<noteq> []" "ch_start env + waitBudget \<le> rd_now (last (ch_rounds env))" using assms(2) by (auto simp: rounds_end_def)
  obtain x where x: "pick (ch_rounds env) (ch_last env) (ch_gap env) (ch_start env) key est b = Some x"
    using pick_ends[OF i r] by blast
  have "pickDecode env body extra bal kp \<noteq> None"
    unfolding pickDecode_def Some option.case Let_def key_def[symmetric] est_def[symmetric] x by (simp split: option.split prod.split)
  then show ?thesis using that by (metis not_None_eq prod_cases3)
qed

lemma engine_for_ends:
  assumes "bal_ok bal" "rounds_end env"
  obtains r h b where "engine_for env bc body extra bal kp = Some (r, h, b)"
proof -
  obtain r h b where "pickDecode env body extra bal kp = Some (r, h, b)" by (rule pickDecode_ends[OF assms])
  then have "engine_for env bc body extra bal kp \<noteq> None" by (simp add: engine_for_def Let_def split: sum.split)
  then show thesis using that by (metis not_None_eq prod_cases3)
qed

definition streams_end :: "engine_stream \<Rightarrow> bool" where
  "streams_end eng \<longleftrightarrow> (\<forall>u b h st rds. eng u b h = Inr (st, rds) \<longrightarrow> stream_ends rds)"

lemma stream_talk_ends:
  assumes "streams_end eng"
  obtains reply q fin where "stream_talk env eng bearer url e p = Some (reply, q, fin)"
proof -
  define q where "q = (if header (p_Headers p) ''x-sofmat-kv-handoff'' = []
     then checkpointUserTurn (e_marshal (ch_pre env)) (ch_post env) (ch_ms env ''ckpt'') url p else p)"
  define hs where "hs = filter (\<lambda>(k, v). \<not> isTimingNote k) (p_Headers q)"
  define hs' where "hs' = (if bearer \<noteq> [] then AList.update ''Authorization'' bearer hs else hs)"
  have l: "\<exists>v. sse_loop s rds sse_start = Some v" if "eng url (p_Body q) hs' = Inr (st, rds)" for st rds s
    using assms that sse_loop_ends[of rds s sse_start] by (auto simp: streams_end_def)
  have "stream_talk env eng bearer url e p \<noteq> None"
  proof (cases "eng url (p_Body q) hs'")
    case (Inl x)
    then show ?thesis unfolding stream_talk_def Let_def q_def[symmetric] hs_def[symmetric] hs'_def[symmetric] by simp
  next
    case (Inr x)
    obtain st rds where x: "x = (st, rds)" by fastforce
    obtain v where "sse_loop (ch_sse env) rds sse_start = Some v" using l Inr x by blast
    then show ?thesis unfolding stream_talk_def Let_def q_def[symmetric] hs_def[symmetric] hs'_def[symmetric] Inr x by simp
  qed
  then show thesis using that by (metis not_None_eq prod_cases3)
qed

lemma chatStream_ends:
  assumes "bal_ok bal" "rounds_end env" "streams_end eng"
  shows "chatStream env eng bc bearer p gp bal kp \<noteq> None"
proof -
  obtain x h b where e: "engine_for env bc (p_Body p) (p_Headers p) bal kp = Some (x, h, b)" by (rule engine_for_ends[OF assms(1,2)])
  show ?thesis
  proof (cases x)
    case (Inl v)
    then show ?thesis using e by (simp add: chatStream_def Let_def split: option.split)
  next
    case (Inr uc)
    obtain url c where uc: "uc = (url, c)" by fastforce
    obtain reply q fin where "stream_talk env eng bearer url (engine_name c b) (p\<lparr>p_Headers := h\<rparr>) = Some (reply, q, fin)"
      by (rule stream_talk_ends[OF assms(3)])
    then show ?thesis using e Inr uc by (simp add: chatStream_def Let_def split: option.split)
  qed
qed

lemma chat_prepared_ends:
  assumes "bal_ok bal" "rounds_end env"
  shows "chat_prepared env http bc text_of p gp bal kp \<noteq> None"
proof -
  obtain x h b where e: "engine_for env bc (p_Body p) (p_Headers p) bal kp = Some (x, h, b)" by (rule engine_for_ends[OF assms])
  show ?thesis by (cases x) (simp_all add: e chat_prepared_def backendCall_def split: option.split sum.split prod.split)
qed

lemma chat_ends:
  assumes "bal_ok bal" "rounds_end env" "streams_end eng"
  obtains reply g' bal' where "chat env http eng cfg key text_of r g bal kp = Some (reply, g', bal')"
proof -
  have "chat env http eng cfg key text_of r g bal kp \<noteq> None"
    using chatStream_ends[OF assms] chat_prepared_ends[OF assms(1,2)]
    by (simp add: chat_def split: option.split prod.split sum.split) metis
  then show thesis using that by (metis not_None_eq prod_cases3)
qed

text \<open>
  C17. The life of a chat request, streamed or not, from the socket to the record. One that is turned away (no JSON object, no key where one is
  required, no authority) changes neither the gateway nor the balancer and gets a JSON error. Every other, whatever the engine does: it never panics, it leaves exactly
  one record, the gate of its conversation is given back on every path, the invariants of the gateway and the balancer hold again, and when nobody
  else acts meanwhile every engine carries the load it carried before.
\<close>

theorem chat_lifecycle:
  assumes "gw_inv g" "bal_ok bal" "chat env http eng cfg key text_of r g bal kp = Some (reply, g', bal')"
  shows "if turned_away env cfg key r
         then g' = g \<and> bal' = bal \<and> (\<exists>st body. reply = JsonReply st body \<and> st \<in> {400, 401, 502})
         else reply \<noteq> Aborted \<and> recorded g g' \<and> bal_ok bal' \<and> (alone env \<longrightarrow> map_option loads bal' = map_option loads bal)"
  by (rule chat_run_ok[OF assms])

definition demo_chat_env :: chat_env where
  "demo_chat_env = \<lparr>ch_pre = demo_env, ch_fin = demo_env,
     ch_sse = \<lparr>se_trim = \<lambda>s. s, se_json = \<lambda>s. if s = ''{}'' then Some (Obj [(''stream'', Bool True)]) else None, se_deltas = \<lambda>_. None, se_marshal = \<lambda>_. None\<rparr>,
     ch_post = \<lambda>_ _. Inl ''refused'', ch_fmt = \<lambda>_. ''0'', ch_ms = \<lambda>_. 0, ch_split = \<lambda>_. Some ''10.0.0.7'', ch_rounds = [demo_round],
     ch_last = demo_round, ch_gap = [], ch_start = 0, ch_flusher = True, ch_newreq = True\<rparr>"

definition demo_req :: http_req where
  "demo_req = \<lparr>hq_headers = [(''X-Sofmat-Client-Ip'', ''1.2.3.4''), (''User-Agent'', ''hud'')], hq_remote = ''10.0.0.7:5000'',
     hq_path = ''/v1/chat/completions'', hq_raw = ''{}''\<rparr>"

definition demo_stream :: engine_stream where
  "demo_stream = (\<lambda>_ _ _. Inr (200, [demo_read ''data: {}'' AtEOF]))"

lemma demo_chat_ok:
  "bal_ok (Some demo_balancer)" "rounds_end demo_chat_env" "streams_end demo_stream" "alone demo_chat_env"
  "\<not> turned_away demo_chat_env demo_config ''k'' demo_req"
  by (simp_all add: bal_ok_def demo_balancer_inv rounds_end_def demo_chat_env_def demo_round_def waitBudget_def streams_end_def stream_ends_def
      demo_stream_def demo_read_def alone_def turned_away_def json_obj_def demo_req_def demo_config_def demo_env_def)

theorem chat_lifecycle_witness:
  "\<exists>reply g' b'. chat demo_chat_env (\<lambda>_ _ _. NoAnswer ''x'') demo_stream demo_config ''k'' (\<lambda>_. []) demo_req demo_gateway (Some demo_balancer) None = Some (reply, g', Some b') \<and>
     recorded demo_gateway g' \<and> loads b' = loads demo_balancer"
proof -
  obtain reply g' bal' where c: "chat demo_chat_env (\<lambda>_ _ _. NoAnswer ''x'') demo_stream demo_config ''k'' (\<lambda>_. []) demo_req demo_gateway (Some demo_balancer) None = Some (reply, g', bal')"
    by (rule chat_ends[OF demo_chat_ok(1-3)])
  show ?thesis using chat_lifecycle[OF demo_gateway_inv demo_chat_ok(1) c] demo_chat_ok(4,5) c by auto
qed

text \<open>
  C36. Every chat request ends. When the rounds of the engine choice reach their deadline and the engines end their streams, the handler returns,
  and a request that is let in gets a reply: nothing it meets on its way can make it panic or wait forever.
\<close>

theorem chat_answers:
  assumes "gw_inv g" "bal_ok bal" "rounds_end env" "streams_end eng"
  shows "\<exists>reply g' bal'. chat env http eng cfg key text_of r g bal kp = Some (reply, g', bal') \<and> reply \<noteq> Aborted"
proof -
  obtain reply g' bal' where c: "chat env http eng cfg key text_of r g bal kp = Some (reply, g', bal')"
    by (rule chat_ends[OF assms(2-4)])
  then show ?thesis using chat_run_ok[OF assms(1,2) c] by (auto split: if_splits)
qed

theorem chat_answers_witness:
  "\<exists>reply out. chat demo_chat_env (\<lambda>_ _ _. NoAnswer ''x'') demo_stream demo_config ''k'' (\<lambda>_. []) demo_req demo_gateway (Some demo_balancer) None = Some (reply, out) \<and>
     reply \<noteq> Aborted"
  using chat_answers[OF demo_gateway_inv demo_chat_ok(1-3)] by blast


section \<open>Who sent it\<close>

lemma update_absent: "k \<notin> fst ` set h \<Longrightarrow> AList.update k v h = h @ [(k, v)]"
  by (induction h) auto

lemma EqualFold_refl [simp]: "EqualFold k k"
  by (simp add: EqualFold_def)

lemma fold_header_append: "list_all (\<lambda>(k, v). \<not> EqualFold k key) h \<Longrightarrow> fold_header (h @ l) key = fold_header l key"
  by (induction h) auto

lemma firstHeader_append:
  assumes "list_all (\<lambda>(k, v). \<not> EqualFold k key) h"
  shows "firstHeader (h @ l) key = firstHeader l key"
proof -
  have "map_of h key = None" using assms by (fastforce simp: map_of_eq_None_iff list_all_iff)
  then show ?thesis using fold_header_append[OF assms] by (simp add: firstHeader_def header_def map_add_def Let_def)
qed

definition stamps :: "(string \<Rightarrow> string option) \<Rightarrow> http_req \<Rightarrow> Headers" where
  "stamps split r = [(''X-Sofmat-Client-Ip'', client_ip split r), (''X-Sofmat-Client-Fwd'', header (hq_headers r) ''X-Forwarded-For''),
     (''X-Sofmat-Client-Ua'', header (hq_headers r) ''User-Agent''), (''X-Sofmat-Route'', hq_path r)]"

lemma stampClient_parts: "stampClient split r h = filter (\<lambda>(k, v). \<not> list_ex (EqualFold k) stamped_names) h @ stamps split r"
proof -
  let ?f = "filter (\<lambda>(k, v). \<not> list_ex (EqualFold k) stamped_names) h"
  have "k \<notin> fst ` set ?f" if "k \<in> set stamped_names" for k using that by (auto simp: list_ex_iff)
  then show ?thesis by (simp add: stampClient_def stamps_def Let_def update_absent stamped_names_def image_Un)
qed

lemma stamped_unfold: "list_all (\<lambda>k. list_all (\<lambda>k'. EqualFold k k' = (k = k')) stamped_names) stamped_names"
  by code_simp

lemma stamps_fold:
  assumes "k \<in> set stamped_names"
  shows "firstHeader (stamps split r) k = header (stamps split r) k"
proof -
  have "fold_header h k = header h k" if "list_all (\<lambda>(k', v). k' \<in> set stamped_names) h" "distinct (map fst h)" for h :: Headers
    using that
  proof (induction h)
    case (Cons x h)
    obtain k' v where x: "x = (k', v)" by fastforce
    have e: "EqualFold k' k = (k' = k)" using stamped_unfold assms Cons.prems(1) x by (auto simp: list_all_iff)
    have "k \<notin> fst ` set h \<Longrightarrow> header h k = []" by (simp add: header_def map_of_eq_None_iff[THEN iffD2])
    then show ?case using Cons x e by (auto simp: header_def)
  qed (simp add: header_def)
  from this[of "stamps split r"] show ?thesis by (simp add: firstHeader_def Let_def stamps_def stamped_names_def)
qed

text \<open>
  C18. A client cannot pass itself off as another. Whatever it sent under the four names in any spelling, what the gateway reads there is the address of
  the connection, the forwarded-for and the agent it reported, and the path of the request; every other header arrives as it was sent.
\<close>

theorem stampClient_authentic:
  "firstHeader (stampClient split r h) ''X-Sofmat-Client-Ip'' = client_ip split r \<and>
   firstHeader (stampClient split r h) ''X-Sofmat-Client-Fwd'' = header (hq_headers r) ''X-Forwarded-For'' \<and>
   firstHeader (stampClient split r h) ''X-Sofmat-Client-Ua'' = header (hq_headers r) ''User-Agent'' \<and>
   firstHeader (stampClient split r h) ''X-Sofmat-Route'' = hq_path r \<and>
   filter (\<lambda>(k, v). \<not> list_ex (EqualFold k) stamped_names) (stampClient split r h) = filter (\<lambda>(k, v). \<not> list_ex (EqualFold k) stamped_names) h"
proof -
  have f: "firstHeader (stampClient split r h) k = header (stamps split r) k" if "k \<in> set stamped_names" for k
  proof -
    have "list_all (\<lambda>(k', v). \<not> EqualFold k' k) (filter (\<lambda>(k, v). \<not> list_ex (EqualFold k) stamped_names) h)"
      using that by (auto simp: list_all_iff list_ex_iff)
    then show ?thesis unfolding stampClient_parts using stamps_fold[OF that] by (simp add: firstHeader_append)
  qed
  have "filter (\<lambda>(k, v). \<not> list_ex (EqualFold k) stamped_names) (stamps split r) = []" by (simp add: stamps_def stamped_names_def)
  then show ?thesis using f by (simp add: stamped_names_def stamps_def header_def stampClient_parts)
qed


section \<open>The checkpoint\<close>

lemma starts_nil [simp]: "starts [] s"
  by (simp add: starts_def)

lemma all_le_Suc: "(\<forall>j\<le>Suc n. P j) \<longleftrightarrow> P 0 \<and> (\<forall>j\<le>n. P (Suc j))"
  by (metis Suc_le_mono le0 not0_implies_Suc)

lemma last_index_none: "last_index i key s = None \<longleftrightarrow> (\<forall>j\<le>length s. \<not> starts key (drop j s))"
  by (induction i key s rule: last_index.induct) (auto simp: starts_def all_le_Suc split: option.split)

lemma last_index_some:
  "last_index i key s = Some n \<Longrightarrow> \<exists>j. n = i + j \<and> j \<le> length s \<and> starts key (drop j s) \<and> (\<forall>k. j < k \<and> k \<le> length s \<longrightarrow> \<not> starts key (drop k s))"
proof (induction i key s rule: last_index.induct)
  case (1 i key)
  then show ?case by (auto split: if_splits)
next
  case (2 i key c s)
  show ?case
  proof (cases "last_index (Suc i) key s")
    case None
    then have "n = i" "starts key (c # s)" using 2(2) by (auto split: if_splits)
    moreover have "\<not> starts key (drop k (c # s))" if "0 < k" "k \<le> length (c # s)" for k
      using None that by (cases k) (auto simp: last_index_none)
    ultimately show ?thesis by (intro exI[of _ 0]) auto
  next
    case (Some j)
    then obtain j' where j': "j = Suc i + j'" "j' \<le> length s" "starts key (drop j' s)" "\<forall>k. j' < k \<and> k \<le> length s \<longrightarrow> \<not> starts key (drop k s)"
      using 2 Some by fastforce
    have "\<not> starts key (drop k (c # s))" if "Suc j' < k" "k \<le> length (c # s)" for k
      using j'(4) that by (cases k) auto
    then show ?thesis using 2(2) Some j' by (intro exI[of _ "Suc j'"]) auto
  qed
qed

definition is_last_marker :: "string \<Rightarrow> bool" where
  "is_last_marker t \<longleftrightarrow> starts userCkptMarker t \<and> list_all (\<lambda>j. \<not> starts userCkptMarker (drop j t)) [1..<Suc (length t)]"

lemma last_marker_found:
  assumes "is_last_marker t"
  shows "last_index 0 userCkptMarker (h @ t) = Some (length h)"
proof -
  have "starts userCkptMarker (drop (length h) (h @ t))" using assms by (simp add: is_last_marker_def)
  then have "last_index 0 userCkptMarker (h @ t) \<noteq> None" unfolding last_index_none by (metis le_add1 length_append)
  then obtain n where n: "last_index 0 userCkptMarker (h @ t) = Some n" by blast
  obtain j where j: "n = j" "j \<le> length (h @ t)" "starts userCkptMarker (drop j (h @ t))"
    "\<And>k. j < k \<Longrightarrow> k \<le> length (h @ t) \<Longrightarrow> \<not> starts userCkptMarker (drop k (h @ t))" using last_index_some[OF n] by auto
  have "\<not> j < length h" using j(4)[of "length h"] assms by (auto simp: is_last_marker_def)
  moreover have "\<not> length h < j"
  proof
    assume l: "length h < j"
    then have "j - length h \<in> set [1..<Suc (length t)]" using j(2) by auto
    then have "\<not> starts userCkptMarker (drop (j - length h) t)" using assms by (auto simp: is_last_marker_def list_all_iff)
    then show False using j(3) l by simp
  qed
  ultimately show ?thesis using n j(1) by simp
qed

definition ckpt_template :: "Body \<Rightarrow> Body" where
  "ckpt_template body = filter (\<lambda>(k, v). k \<notin> {''stream'', ''stream_options'', ''id_slot''}) body"

lemma ckpt_done_frame:
  "filter (\<lambda>(k, v). k \<noteq> ''id_slot'') (p_Body (ckpt_done ms res p)) = filter (\<lambda>(k, v). k \<noteq> ''id_slot'') (p_Body p) \<and>
   (map_of (p_Body p) ''id_slot'' \<noteq> None \<longrightarrow> p_Body (ckpt_done ms res p) = p_Body p) \<and> p_Headers (ckpt_done ms res p) = p_Headers p"
proof -
  have u: "filter (\<lambda>(k, v). k \<noteq> ''id_slot'') (AList.update ''id_slot'' x b) = filter (\<lambda>(k, v). k \<noteq> ''id_slot'') b" for x and b :: Body
    by (induction b) auto
  show ?thesis by (simp add: ckpt_done_def Let_def Note_def u split: go_any.split)
qed

text \<open>
  The checkpoint of a user turn. The extra pass gets exactly the part of the rendered prompt that ends where the header of the reply begins, generates
  nothing, and runs in the pinned slot when there is one; the request that follows is the same request, save that an unpinned one is pinned to the slot
  the pass used.
\<close>

theorem checkpoint_turn:
  assumes "lastRoleIsUser (p_Body p)" "postEngine marshal post (url @ ''/apply-template'') (ckpt_template (p_Body p)) = Inr tpl"
    "as_str (field tpl ''prompt'') = h @ t" "h \<noteq> []" "is_last_marker t"
  shows "checkpointUserTurn marshal post ms url p =
      (case postEngine marshal post (url @ ''/completion'')
          ([(''prompt'', Str h), (''n_predict'', Num 0), (''cache_prompt'', Bool True)] @
           (case map_of (p_Body p) ''id_slot'' of Some v \<Rightarrow> [(''id_slot'', v)] | None \<Rightarrow> [])) of
         Inl e \<Rightarrow> Note ''user_ckpt_error'' (Str (''completion: '' @ e)) p
       | Inr res \<Rightarrow> ckpt_done ms res p) \<and>
    filter (\<lambda>(k, v). k \<noteq> ''id_slot'') (p_Body (checkpointUserTurn marshal post ms url p)) = filter (\<lambda>(k, v). k \<noteq> ''id_slot'') (p_Body p) \<and>
    (map_of (p_Body p) ''id_slot'' \<noteq> None \<longrightarrow> p_Body (checkpointUserTurn marshal post ms url p) = p_Body p) \<and>
    p_Headers (checkpointUserTurn marshal post ms url p) = p_Headers p"
proof -
  obtain c where c: "length h = Suc c" using assms(4) by (cases h) auto
  have l: "last_index 0 userCkptMarker (h @ t) = Some (Suc c)" using last_marker_found[OF assms(5), of h] c by simp
  have e: "checkpointUserTurn marshal post ms url p =
      (case postEngine marshal post (url @ ''/completion'')
          ([(''prompt'', Str h), (''n_predict'', Num 0), (''cache_prompt'', Bool True)] @
           (case map_of (p_Body p) ''id_slot'' of Some v \<Rightarrow> [(''id_slot'', v)] | None \<Rightarrow> [])) of
         Inl e \<Rightarrow> Note ''user_ckpt_error'' (Str (''completion: '' @ e)) p
       | Inr res \<Rightarrow> ckpt_done ms res p)"
    unfolding checkpointUserTurn_def Let_def ckpt_template_def[symmetric] assms(2) sum.case assms(3) l option.case nat.case ckpt_pass_def
    using assms(1) by (simp add: c[symmetric])
  show ?thesis unfolding e
    by (intro conjI; simp add: Note_def ckpt_done_frame split: sum.split)
qed

definition demo_ckpt_post :: engine_post where
  "demo_ckpt_post = (\<lambda>url body. if url = ''/apply-template'' then Inr (200, Some [(''prompt'', Str (''hola'' @ userCkptMarker))])
     else if map_of body ''prompt'' = Some (Str ''hola'') then Inr (200, Some [(''id_slot'', Flt 2)]) else Inl ''x'')"

definition demo_turn :: Plan where
  "demo_turn = demo_plan\<lparr>p_Body := [(''messages'', Arr [Null, Obj [(''role'', Str ''user'')]])]\<rparr>"

theorem checkpoint_turn_witness:
  "map_of (p_Body (checkpointUserTurn (\<lambda>_. Some []) demo_ckpt_post 1 [] demo_turn)) ''id_slot'' = Some (Num 2)"
proof -
  have r: "lastRoleIsUser (p_Body demo_turn)" by (simp add: demo_turn_def lastRoleIsUser_def any_access)
  have p: "postEngine (\<lambda>_. Some []) demo_ckpt_post ([] @ ''/apply-template'') (ckpt_template (p_Body demo_turn)) = Inr [(''prompt'', Str (''hola'' @ userCkptMarker))]"
    by (simp add: postEngine_def demo_ckpt_post_def)
  have m: "is_last_marker userCkptMarker" by code_simp
  have f: "as_str (field [(''prompt'', Str (''hola'' @ userCkptMarker))] ''prompt'') = ''hola'' @ userCkptMarker" by (simp add: any_access)
  show ?thesis using checkpoint_turn[OF r p f _ m, of 1]
    by (simp add: demo_turn_def postEngine_def demo_ckpt_post_def ckpt_done_def any_access Note_def go_int_def)
qed


section \<open>The two halves\<close>

text \<open>
  The two paths answer the same refusal differently. When no engine can be chosen for a request, the streaming path says 503 and the JSON path says
  502 with the same message, on the same gateway, balancer and plan.
\<close>

theorem halves_disagree:
  assumes "gw_inv g" "engine_for env bc (p_Body p) (p_Headers p) bal kp = Some (Inl e, h, bal')" "e \<noteq> PickPanic" "bc_decode bc \<noteq> []"
  shows "(\<exists>q g' b'. chatStream env eng bc bearer p g bal kp = Some (JsonReply 503 [(''error'', Str (pick_text e))], q, g', b')) \<and>
    (\<exists>g' b'. chat_prepared env http bc text_of p g bal kp = Some (JsonReply 502 [(''error'', Str (pick_text e))], g', b'))"
proof -
  define q where "q = Note ''error'' (Str (pick_text e)) (p\<lparr>p_Headers := h\<rparr>)"
  obtain q1 g1 where "Finish (ch_fin env) q [] g = Some (q1, g1)"
    by (rule Finish_run[OF assms(1), of q "ch_fin env" "[]"]) (use that in \<open>auto simp: prod_eq_iff\<close>)
  then have f: "finish_once (ch_fin env) [] (q, g, False) = Some (q1, g1, True)" by (simp add: finish_once_def)
  have s: "chatStream env eng bc bearer p g bal kp = Some (JsonReply 503 [(''error'', Str (pick_text e))], q1, g1, bal')"
    using assms(2-4) f by (simp add: chatStream_def Let_def q_def[symmetric] finish_once_twice)
  have j: "\<exists>g'. chat_prepared env http bc text_of p g bal kp = Some (JsonReply 502 [(''error'', Str (pick_text e))], g', bal')"
    using assms(2,3) by (simp add: chat_prepared_def backendCall_def backend_reply_def)
  show ?thesis using s j by blast
qed

definition demo_fenced :: decodeBalancer where
  "demo_fenced = on_node 0 (\<lambda>n. n\<lparr>dn_excluded := True\<rparr>) demo_balancer"

definition demo_handed :: Plan where
  "demo_handed = demo_plan\<lparr>p_Body := [], p_Headers := [(''x-sofmat-kv-handoff'', ''h1'')]\<rparr>"

theorem halves_disagree_witness:
  "\<exists>q g' b'. chatStream demo_chat_env demo_stream \<lparr>bc_decode = ''d'', bc_prefill = []\<rparr> [] demo_handed demo_gateway (Some demo_fenced) None =
     Some (JsonReply 503 [(''error'', Str ''motor de decode en entrenamiento'')], q, g', b')"
proof -
  have "engine_for demo_chat_env \<lparr>bc_decode = ''d'', bc_prefill = []\<rparr> (p_Body demo_handed) (p_Headers demo_handed) (Some demo_fenced) None =
     Some (Inl DecodeTraining, [(''x-sofmat-kv-handoff'', ''h1'')], Some demo_fenced)"
    by (simp add: engine_for_def smallToPrefill_def pickDecode_def demo_handed_def header_def handoff_node_def demo_fenced_def on_node_def
        demo_balancer_def newDecodeBalancer_def Let_def)
  from halves_disagree[OF demo_gateway_inv this, of demo_stream "[]"] show ?thesis by (simp add: pick_text_def)
qed

text \<open>
  A small request does not see the fence. Fencing the prefill engine for a training transaction turns off the handoff and nothing else: every request
  below the limit that carries no handoff is still sent to that engine, with no claim on the balancer, whatever engines are free.
\<close>

theorem small_ignores_fence:
  assumes "bc_prefill bc \<noteq> []" "bc_prefill bc \<noteq> bc_decode bc" "header extra ''x-sofmat-kv-handoff'' = []"
    "bodyTokens (ch_pre env) body extra < smallDecodePromptTokens + replyReserveFor body"
  shows "engine_for env bc body extra bal (Some (k\<lparr>pp_disabled := True\<rparr>)) = Some (Inr (bc_prefill bc, NoNode), extra, bal)"
  using assms by (simp add: engine_for_def smallToPrefill_def)

theorem small_ignores_fence_witness:
  "engine_for demo_chat_env \<lparr>bc_decode = ''d'', bc_prefill = ''p''\<rparr> [] [] (Some demo_balancer) (Some (demo_kvpipe\<lparr>pp_disabled := True\<rparr>)) =
     Some (Inr (''p'', NoNode), [], Some demo_balancer)"
  using small_ignores_fence[of "\<lparr>bc_decode = ''d'', bc_prefill = ''p''\<rparr>" "[]" demo_chat_env "[]" "Some demo_balancer" demo_kvpipe]
  by (simp add: header_def bodyTokens_def estBodyTokens_def demo_chat_env_def demo_env_def smallDecodePromptTokens_def Let_def)

end
