(* ===== verification/Model_Store.thy ===== *)
theory Model_Store
  imports Gguf Kv_Janitor Gateway_Body
begin

text \<open>
  \<^verbatim>\<open>internal/coordinator/models.go\<close>: the directory of models, the catalogue, the downloads and the deletion. A path is the list of its cleaned components, on a
  system whose separator is the slash; the disk is the files with their bytes and the directories. HuggingFace, the failures of the disk and the clock are
  arguments. Case folding is that of ASCII, which is what the patterns contain.
\<close>


section \<open>Paths and the disk\<close>

text \<open>\<^verbatim>\<open>filepath.Join\<close> of an absolute path and one element.\<close>

definition sub :: "string list \<Rightarrow> string \<Rightarrow> string list" where
  "sub d x = (if x \<in> {[], ''.'', ''/''} then d else if x = ''..'' then butlast d else d @ [x])"

definition under :: "string list \<Rightarrow> string list \<Rightarrow> bool" where
  "under d p \<longleftrightarrow> take (length d) p = d"

record disk =
  dk_files :: "(string list \<times> string) list"
  dk_dirs :: "string list list"

definition present :: "string list \<Rightarrow> disk \<Rightarrow> bool" where
  "present p k \<longleftrightarrow> p \<in> fst ` set (dk_files k) \<or> p \<in> set (dk_dirs k)"

text \<open>\<^verbatim>\<open>os.RemoveAll\<close> removes all it can and fails when something \<open>stuck\<close> stays.\<close>

definition RemoveAll :: "(string list \<Rightarrow> bool) \<Rightarrow> string list \<Rightarrow> disk \<Rightarrow> bool \<times> disk" where
  "RemoveAll stuck t k =
     (let left = filter (\<lambda>(p, c). under t p \<and> stuck p) (dk_files k)
      in (left = [],
          k\<lparr>dk_files := filter (\<lambda>(p, c). \<not> under t p \<or> stuck p) (dk_files k),
            dk_dirs := filter (\<lambda>d. \<not> under t d \<or> list_ex (\<lambda>(p, c). under d p) left) (dk_dirs k)\<rparr>))"

definition mkdirAll :: "string list \<Rightarrow> disk \<Rightarrow> disk" where
  "mkdirAll p k = k\<lparr>dk_dirs := remdups (map (\<lambda>n. take n p) [1..<Suc (length p)] @ dk_dirs k)\<rparr>"

definition children :: "string list \<Rightarrow> disk \<Rightarrow> string list" where
  "children d k = sort (remdups (map last (filter (\<lambda>p. length p = Suc (length d) \<and> under d p) (map fst (dk_files k) @ dk_dirs k))))"

text \<open>\<^verbatim>\<open>os.ReadDir\<close>: name, whether it is a directory, size.\<close>

type_synonym dir_entry = "string \<times> bool \<times> nat"

definition readDir :: "string list \<Rightarrow> disk \<Rightarrow> dir_entry list" where
  "readDir d k =
     map (\<lambda>n. (n, d @ [n] \<in> set (dk_dirs k), case map_of (dk_files k) (d @ [n]) of Some c \<Rightarrow> length c | None \<Rightarrow> 0)) (children d k)"


section \<open>Names\<close>

text \<open>\<^verbatim>\<open>strings.TrimSpace\<close> on UTF-8: the encodings of the white space of Unicode are taken off both ends.\<close>

definition spaces :: "string list" where
  "spaces = map (\<lambda>c. [c]) [CHR 0x09, CHR 0x0A, CHR 0x0B, CHR 0x0C, CHR 0x0D, CHR 0x20] @ [[CHR 0xC2, CHR 0x85], [CHR 0xC2, CHR 0xA0], [CHR 0xE1, CHR 0x9A, CHR 0x80]] @
     map (\<lambda>c. [CHR 0xE2, CHR 0x80, c])
       [CHR 0x80, CHR 0x81, CHR 0x82, CHR 0x83, CHR 0x84, CHR 0x85, CHR 0x86, CHR 0x87, CHR 0x88, CHR 0x89, CHR 0x8A, CHR 0xA8, CHR 0xA9, CHR 0xAF] @
     [[CHR 0xE2, CHR 0x81, CHR 0x9F], [CHR 0xE3, CHR 0x80, CHR 0x80]]"

fun trim_left :: "string list \<Rightarrow> string \<Rightarrow> string" where
  "trim_left ws [] = []"
| "trim_left ws (c # s) = (case find (\<lambda>w. starts w (c # s)) ws of None \<Rightarrow> c # s | Some w \<Rightarrow> trim_left ws (drop (length w - 1) s))"

definition TrimSpace :: "string \<Rightarrow> string" where
  "TrimSpace s = rev (trim_left (map rev spaces) (rev (trim_left spaces s)))"

text \<open>\<open>env\<close>, \<open>exe\<close> and \<open>home\<close> are the variable, the directory of the executable and the home directory.\<close>

definition modelsDir :: "string \<Rightarrow> string option \<Rightarrow> string option \<Rightarrow> string" where
  "modelsDir env exe home =
     (if env \<noteq> [] then env
      else case exe of
             Some d \<Rightarrow>
               if d \<noteq> [] \<and> d \<noteq> ''.'' then path_join d ''models''
               else (case home of Some h \<Rightarrow> path_join (path_join h ''soflink'') ''models'' | None \<Rightarrow> ''models'')
           | None \<Rightarrow> (case home of Some h \<Rightarrow> path_join (path_join h ''soflink'') ''models'' | None \<Rightarrow> ''models''))"

definition lower :: "string \<Rightarrow> string" where
  "lower s = map lower_char s"

text \<open>A suffix in any case, and what comes before it.\<close>

definition strip_ci :: "string \<Rightarrow> string \<Rightarrow> string option" where
  "strip_ci e s =
     (if length e \<le> length s \<and> lower (drop (length s - length e) s) = e then Some (take (length s - length e) s) else None)"

definition end_digits :: "string \<Rightarrow> (string \<times> string) option" where
  "end_digits s =
     (let ds = rev (takeWhile is_digit (rev s)) in if ds = [] then None else Some (rev (dropWhile is_digit (rev s)), ds))"

definition splitPartRe :: "string \<Rightarrow> (string \<times> string \<times> string) option" where
  "splitPartRe b =
     (case Option.bind (strip_ci ''.gguf'' b) end_digits of
        None \<Rightarrow> None
      | Some (t, n) \<Rightarrow>
          (case Option.bind (strip_ci ''-of-'' t) end_digits of
             None \<Rightarrow> None
           | Some (t, i) \<Rightarrow>
               (case strip_end ''-'' t of None \<Rightarrow> None | Some t \<Rightarrow> if CHR 0x0A \<in> set t then None else Some (t, i, n))))"

definition is_gguf :: "string \<Rightarrow> bool" where
  "is_gguf n \<longleftrightarrow> strip_ci ''.gguf'' n \<noteq> None"

definition trim_gguf :: "string \<Rightarrow> string" where
  "trim_gguf b = (case strip_end ''.gguf'' b of Some t \<Rightarrow> t | None \<Rightarrow> b)"

definition modelFolder :: "string \<Rightarrow> string" where
  "modelFolder f = (case splitPartRe (path_base f) of Some (m, i, n) \<Rightarrow> m | None \<Rightarrow> trim_gguf (path_base f))"

definition quant_tags :: "string list" where
  "quant_tags = [''BF16'', ''F16'', ''F32'', ''Q2_K'', ''Q3_K_S'', ''Q3_K_M'', ''Q3_K_L'', ''Q4_K_S'', ''Q4_K_M'', ''Q4_0'', ''Q4_1'', ''Q5_K_S'', ''Q5_K_M'',
     ''Q5_0'', ''Q5_1'', ''Q6_K'', ''Q8_0'', ''IQ1_S'', ''IQ2_XXS'', ''IQ2_M'', ''IQ3_M'', ''IQ4_XS'', ''IQ4_NL'']"

definition upper_char :: "char \<Rightarrow> char" where
  "upper_char c = (if 97 \<le> byte_of c \<and> byte_of c \<le> 122 then char_of (byte_of c - 32) else c)"

definition quantOf :: "string \<Rightarrow> string" where
  "quantOf name =
     (let b = trim_gguf (path_base name)
      in case find (\<lambda>tag. contains (map upper_char b) tag) quant_tags of Some t \<Rightarrow> t | None \<Rightarrow> b)"


section \<open>The catalogue\<close>

definition hasGGUFtag :: "go_any \<Rightarrow> bool" where
  "hasGGUFtag tags = list_ex (\<lambda>t. EqualFold (as_str t) ''gguf'') (as_arr tags)"

definition is_unsloth :: "string \<Rightarrow> bool" where
  "is_unsloth repo \<longleftrightarrow> starts ''unsloth/'' (lower repo)"

text \<open>A client error, or the decoded answer.\<close>

type_synonym hf_rows = "(string, Body list) result"

definition hfModels :: "hf_rows \<Rightarrow> (nat \<times> string, Body list) result" where
  "hfModels rows =
     (case rows of
        Inl e \<Rightarrow> Inl (502, e)
      | Inr raw \<Rightarrow>
          Inr (map (\<lambda>m. [(''id'', field m ''id''), (''downloads'', field m ''downloads''), (''likes'', field m ''likes''), (''gguf'', Bool (hasGGUFtag (field m ''tags'')))])
                 (filter (\<lambda>m. as_str (field m ''id'') \<noteq> [] \<and> is_unsloth (as_str (field m ''id''))) raw)))"

definition hfFiles :: "(string \<Rightarrow> hf_rows) \<Rightarrow> string \<Rightarrow> (nat \<times> string, Body list) result" where
  "hfFiles tree repo =
     (if \<not> is_unsloth (TrimSpace repo) then Inl (400, ''solo repos unsloth/'')
      else case tree (TrimSpace repo) of
             Inl e \<Rightarrow> Inl (502, e)
           | Inr es \<Rightarrow>
               Inr (map (\<lambda>e. [(''file'', field e ''path''), (''size'', field e ''size''), (''quant'', Str (quantOf (as_str (field e ''path''))))])
                      (filter (\<lambda>e. is_gguf (as_str (field e ''path''))) es)))"


section \<open>Downloads\<close>

record dlJob =
  dj_Repo :: string
  dj_File :: string
  dj_Total :: int
  dj_Done :: int
  dj_Status :: string
  dj_Error :: string
  dj_Rate :: float64

text \<open>
  A download is a goroutine of its own: between its start and the creation of its file, in its loop (the instant and the byte count of the last sample of
  the rate), or past it.
\<close>

datatype dl_phase = Fresh | Reading float64 int | Whole

record dl_sys =
  dy_jobs :: "(string \<times> dlJob) list"
  dy_runs :: "(string \<times> dl_phase) list"
  dy_disk :: disk

definition destDir :: "string list \<Rightarrow> string \<Rightarrow> string list" where
  "destDir dir name = sub dir (modelFolder name)"

definition part_path :: "string list \<Rightarrow> string \<Rightarrow> string list" where
  "part_path dir name = sub (destDir dir name) (name @ ''.part'')"

definition final_path :: "string list \<Rightarrow> string \<Rightarrow> string list" where
  "final_path dir name = sub (destDir dir name) name"

datatype dl_reply = DlBad | DlAlready string | DlStarted string

definition hfDownload :: "string \<Rightarrow> string \<Rightarrow> dl_sys \<Rightarrow> dl_reply \<times> dl_sys" where
  "hfDownload repo f s =
     (if \<not> is_unsloth repo \<or> f = [] then (DlBad, s)
      else
        let name = path_base f
        in case map_of (dy_jobs s) name of
             Some j \<Rightarrow>
               if dj_Status j = ''downloading'' then (DlAlready name, s)
               else (DlStarted name, s\<lparr>dy_jobs := AList.update name \<lparr>dj_Repo = repo, dj_File = f, dj_Total = 0, dj_Done = 0, dj_Status = ''downloading'',
                       dj_Error = [], dj_Rate = 0\<rparr> (dy_jobs s), dy_runs := AList.update name Fresh (dy_runs s)\<rparr>)
           | None \<Rightarrow>
               (DlStarted name, s\<lparr>dy_jobs := AList.update name \<lparr>dj_Repo = repo, dj_File = f, dj_Total = 0, dj_Done = 0, dj_Status = ''downloading'',
                       dj_Error = [], dj_Rate = 0\<rparr> (dy_jobs s), dy_runs := AList.update name Fresh (dy_runs s)\<rparr>))"

definition on_job :: "string \<Rightarrow> (dlJob \<Rightarrow> dlJob) \<Rightarrow> dl_sys \<Rightarrow> dl_sys" where
  "on_job name h s = (case map_of (dy_jobs s) name of Some j \<Rightarrow> s\<lparr>dy_jobs := AList.update name (h j) (dy_jobs s)\<rparr> | None \<Rightarrow> s)"

text \<open>The goroutine ends: with \<open>fail\<close>, or done.\<close>

definition dl_end :: "string \<Rightarrow> string \<Rightarrow> string \<Rightarrow> dl_sys \<Rightarrow> dl_sys" where
  "dl_end status e name s =
     on_job name (\<lambda>j. j\<lparr>dj_Status := status, dj_Error := (if status = ''error'' then e else dj_Error j)\<rparr>) (s\<lparr>dy_runs := AList.delete name (dy_runs s)\<rparr>)"

definition put_file :: "string list \<Rightarrow> string \<Rightarrow> dl_sys \<Rightarrow> dl_sys" where
  "put_file p c s = s\<lparr>dy_disk := (dy_disk s)\<lparr>dk_files := AList.update p c (dk_files (dy_disk s))\<rparr>\<rparr>"

definition drop_file :: "string list \<Rightarrow> dl_sys \<Rightarrow> dl_sys" where
  "drop_file p s = s\<lparr>dy_disk := (dy_disk s)\<lparr>dk_files := AList.delete p (dk_files (dy_disk s))\<rparr>\<rparr>"

text \<open>
  What opening meets: the directory, the request, the status with the length, the file. A response that is read has a body, the bytes of the file on the server, which the goroutine learns
  only by reading.
\<close>

datatype dl_open = NoDir string | NoReply string | Status nat | NoFile string int | Opened string int float64

definition open_download :: "string list \<Rightarrow> dl_open \<Rightarrow> string \<Rightarrow> dl_sys \<Rightarrow> dl_sys" where
  "open_download dir ans name s =
     (let made = s\<lparr>dy_disk := mkdirAll (destDir dir name) (dy_disk s)\<rparr>
      in case ans of
           NoDir e \<Rightarrow> dl_end ''error'' e name s
         | NoReply e \<Rightarrow> dl_end ''error'' e name made
         | Status c \<Rightarrow> dl_end ''error'' (''HF HTTP '' @ decimal c) name made
         | NoFile e len \<Rightarrow> dl_end ''error'' e name (on_job name (\<lambda>j. j\<lparr>dj_Total := len\<rparr>) made)
         | Opened body len now \<Rightarrow>
             let s = put_file (part_path dir name) [] (on_job name (\<lambda>j. j\<lparr>dj_Total := len\<rparr>) made)
             in s\<lparr>dy_runs := AList.update name (Reading now 0) (dy_runs s)\<rparr>)"

text \<open>
  One turn of the loop: the bytes of the read, \<open>Some\<close> how many of them a failing write stored, how the read ended, the instant. Bytes written to a file that was
  removed go nowhere.
\<close>

datatype dl_end = More | AtEnd | Cut string

definition append_file :: "string list \<Rightarrow> string \<Rightarrow> dl_sys \<Rightarrow> dl_sys" where
  "append_file p d s = (case map_of (dk_files (dy_disk s)) p of Some c \<Rightarrow> put_file p (c @ d) s | None \<Rightarrow> s)"

definition count_bytes :: "float64 \<Rightarrow> float64 \<Rightarrow> int \<Rightarrow> nat \<Rightarrow> string \<Rightarrow> dl_sys \<Rightarrow> dl_sys" where
  "count_bytes now lastAt lastDone n name s =
     (let s = on_job name (\<lambda>j. j\<lparr>dj_Done := dj_Done j + int n\<rparr>) s;
          done = (case map_of (dy_jobs s) name of Some j \<Rightarrow> dj_Done j | None \<Rightarrow> 0)
      in if now - lastAt \<ge> 1000
         then (on_job name (\<lambda>j. j\<lparr>dj_Rate := of_int (done - lastDone) / ((now - lastAt) / 1000)\<rparr>) s)\<lparr>dy_runs := AList.update name (Reading now done) (dy_runs s)\<rparr>
         else s)"

definition read_download :: "string list \<Rightarrow> string \<Rightarrow> nat option \<Rightarrow> dl_end \<Rightarrow> float64 \<Rightarrow> float64 \<Rightarrow> int \<Rightarrow> string \<Rightarrow> dl_sys \<Rightarrow> dl_sys" where
  "read_download dir d wr r now lastAt lastDone name s =
     (if d \<noteq> [] \<and> wr \<noteq> None
      then dl_end ''error'' ''write'' name (append_file (part_path dir name) (take (the wr) d) s)
      else
        let s = (if d = [] then s else count_bytes now lastAt lastDone (length d) name (append_file (part_path dir name) d s))
        in case r of
             More \<Rightarrow> s
           | AtEnd \<Rightarrow> s\<lparr>dy_runs := AList.update name Whole (dy_runs s)\<rparr>
           | Cut e \<Rightarrow> dl_end ''error'' e name (drop_file (part_path dir name) s))"

text \<open>The rename; it fails by itself when the part is gone.\<close>

definition close_download :: "string list \<Rightarrow> string option \<Rightarrow> string \<Rightarrow> dl_sys \<Rightarrow> dl_sys" where
  "close_download dir err name s =
     (case (err, map_of (dk_files (dy_disk s)) (part_path dir name)) of
        (None, Some c) \<Rightarrow> dl_end ''done'' [] name (put_file (final_path dir name) c (drop_file (part_path dir name) s))
      | (Some e, _) \<Rightarrow> dl_end ''error'' e name s
      | (None, None) \<Rightarrow> dl_end ''error'' ''rename'' name s)"

definition round1 :: "float64 \<Rightarrow> float64" where
  "round1 x = of_int (go_int (x * 10 + 1 / 2)) / 10"

definition progress :: "dlJob \<Rightarrow> float64 \<times> float64 \<times> float64" where
  "progress j =
     (if dj_Total j > 0 then round1 (of_int (dj_Done j) / of_int (dj_Total j) * 100) else 0,
      if dj_Status j = ''downloading'' then dj_Rate j else 0,
      if dj_Status j = ''downloading'' \<and> dj_Rate j > 0 \<and> dj_Total j > dj_Done j then round1 (of_int (dj_Total j - dj_Done j) / dj_Rate j) else 0)"


section \<open>What is there\<close>

fun load_loop :: "dir_entry list \<Rightarrow> string \<Rightarrow> nat \<Rightarrow> string \<times> nat" where
  "load_loop [] load tot = (load, tot)"
| "load_loop ((n, isdir, sz) # es) load tot =
     (if isdir \<or> \<not> is_gguf n then load_loop es load tot
      else
        let load = (case splitPartRe n of
                      Some (m, i, k) \<Rightarrow> if digits_val i = 1 then n else load
                    | None \<Rightarrow> if load = [] then n else load)
        in load_loop es load (tot + sz))"

definition loadableGGUF :: "string list \<Rightarrow> disk \<Rightarrow> string \<times> nat" where
  "loadableGGUF d k = load_loop (readDir d k) [] 0"

definition flat_size :: "dir_entry list \<Rightarrow> string \<Rightarrow> nat \<Rightarrow> nat" where
  "flat_size ents n sz =
     (case splitPartRe n of
        None \<Rightarrow> sz
      | Some (m, i, k) \<Rightarrow> sum_list (map (\<lambda>(n2, d2, s2). case splitPartRe n2 of Some (m2, i2, k2) \<Rightarrow> if m2 = m \<and> k2 = k then s2 else 0 | None \<Rightarrow> 0) ents))"

record model_row =
  mr_file :: string
  mr_size :: nat
  mr_quant :: string
  mr_path :: "string list"

definition local_row :: "string list \<Rightarrow> disk \<Rightarrow> dir_entry \<Rightarrow> model_row list" where
  "local_row dir k e =
     (case e of (n, isdir, sz) \<Rightarrow>
        if isdir then
          (let (load, tot) = loadableGGUF (dir @ [n]) k
           in if load = [] then []
              else [\<lparr>mr_file = n @ ''/'' @ load, mr_size = tot, mr_quant = quantOf load, mr_path = dir @ [n, load]\<rparr>])
        else if \<not> is_gguf n then []
        else if (case splitPartRe n of Some (m, i, k) \<Rightarrow> digits_val i \<noteq> 1 | None \<Rightarrow> False) then []
        else [\<lparr>mr_file = n, mr_size = flat_size (readDir dir k) n sz, mr_quant = quantOf n, mr_path = dir @ [n]\<rparr>])"

definition localModels :: "string list \<Rightarrow> disk \<Rightarrow> model_row list" where
  "localModels dir k = concat (map (local_row dir k) (readDir dir k))"


section \<open>Deletion\<close>

datatype del_reply = DelBad | DelMissing | DelFails | Deleted string

definition modelsDelete :: "(string list \<Rightarrow> bool) \<Rightarrow> string list \<Rightarrow> string option \<Rightarrow> disk \<Rightarrow> del_reply \<times> disk" where
  "modelsDelete stuck dir req k =
     (case req of
        None \<Rightarrow> (DelBad, k)
      | Some f \<Rightarrow>
          let name = TrimSpace f;
              parts = split_on CHR ''/'' name
          in if name = [] \<or> \<not> is_gguf name \<or> contains name ''..'' \<or> starts ''/'' name then (DelBad, k)
             else if (length parts = 1 \<and> parts ! 0 \<noteq> []) \<or> (length parts = 2 \<and> parts ! 0 \<noteq> [] \<and> parts ! 1 \<noteq> [])
             then
               let t = sub dir (parts ! 0)
               in if \<not> present t k then (DelMissing, k)
                  else (case RemoveAll stuck t k of
                          (ok, k) \<Rightarrow> (if ok then Deleted (parts ! 0) else DelFails, k))
             else (DelBad, k))"


section \<open>Everything at once\<close>

text \<open>Requests, the goroutines of the downloads and deletions, in any order. \<open>None\<close> when an event is not possible in the state.\<close>

datatype dl_ev =
    EAsk string string
  | EOpen string dl_open
  | ERead string string "nat option" dl_end float64
  | EClose string "string option"
  | EDelete string "string list list"

fun dl_step :: "string list \<Rightarrow> dl_ev \<Rightarrow> dl_sys \<Rightarrow> dl_sys option" where
  "dl_step dir (EAsk repo f) s = Some (snd (hfDownload repo f s))"
| "dl_step dir (EOpen name ans) s = (if map_of (dy_runs s) name = Some Fresh then Some (open_download dir ans name s) else None)"
| "dl_step dir (ERead name d wr r now) s =
     (case map_of (dy_runs s) name of
        Some (Reading lastAt lastDone) \<Rightarrow> Some (read_download dir d wr r now lastAt lastDone name s)
      | _ \<Rightarrow> None)"
| "dl_step dir (EClose name err) s = (if map_of (dy_runs s) name = Some Whole then Some (close_download dir err name s) else None)"
| "dl_step dir (EDelete f stuck) s = Some (s\<lparr>dy_disk := snd (modelsDelete (\<lambda>p. p \<in> set stuck) dir (Some f) (dy_disk s))\<rparr>)"

definition dl_run :: "string list \<Rightarrow> dl_ev list \<Rightarrow> dl_sys \<Rightarrow> dl_sys option" where
  "dl_run dir evs s = foldl (\<lambda>s e. Option.bind s (dl_step dir e)) (Some s) evs"

definition dl_start :: "disk \<Rightarrow> dl_sys" where
  "dl_start k = \<lparr>dy_jobs = [], dy_runs = [], dy_disk = k\<rparr>"

text \<open>What the reads of a download delivered since its file was opened.\<close>

definition receive :: "string \<Rightarrow> string \<Rightarrow> dl_ev \<Rightarrow> string" where
  "receive name c e =
     (case e of
        EOpen n (Opened body len now) \<Rightarrow> if n = name then [] else c
      | ERead n d wr r now \<Rightarrow> if n = name then c @ d else c
      | _ \<Rightarrow> c)"

definition received :: "string \<Rightarrow> dl_ev list \<Rightarrow> string" where
  "received name evs = foldl (receive name) [] evs"

text \<open>The body the server sends for the download under that name, that of the last response opened.\<close>

definition send :: "string \<Rightarrow> string \<Rightarrow> dl_ev \<Rightarrow> string" where
  "send name c e = (case e of EOpen n (Opened body len now) \<Rightarrow> if n = name then body else c | _ \<Rightarrow> c)"

definition sent :: "string \<Rightarrow> dl_ev list \<Rightarrow> string" where
  "sent name evs = foldl (send name) [] evs"

text \<open>
  What \<^verbatim>\<open>net/http\<close> says of \<^verbatim>\<open>resp.Body.Read\<close>: the reads hand out the body from its start, in order, and \<^verbatim>\<open>io.EOF\<close> is answered only
  when all of it was handed out; a connection that breaks before is another error.
\<close>

definition body_read :: "dl_ev list \<Rightarrow> dl_ev \<Rightarrow> bool" where
  "body_read evs e =
     (case e of
        ERead n d wr r now \<Rightarrow> starts (received n evs @ d) (sent n evs) \<and> (r = AtEnd \<longrightarrow> received n evs @ d = sent n evs)
      | _ \<Rightarrow> True)"

definition body_reads :: "dl_ev list \<Rightarrow> bool" where
  "body_reads evs \<longleftrightarrow> list_all (\<lambda>i. body_read (take i evs) (evs ! i)) [0..<length evs]"

lemma body_reads_snoc: "body_reads (evs @ [e]) \<longleftrightarrow> body_reads evs \<and> body_read evs e"
proof -
  have "list_all (\<lambda>i. body_read (take i (evs @ [e])) ((evs @ [e]) ! i)) [0..<length evs] = list_all (\<lambda>i. body_read (take i evs) (evs ! i)) [0..<length evs]"
    by (rule list.pred_cong) (auto simp: nth_append)
  then show ?thesis by (simp add: body_reads_def)
qed

lemma received_snoc: "received name (evs @ [e]) = receive name (received name evs) e"
  by (simp add: received_def)

lemma sent_snoc: "sent name (evs @ [e]) = send name (sent name evs) e"
  by (simp add: sent_def)

lemma received_starts: "body_reads evs \<Longrightarrow> starts (received n evs) (sent n evs)"
proof (induction evs rule: rev_induct)
  case Nil
  then show ?case by (simp add: received_def sent_def starts_def)
next
  case (snoc e evs)
  then show ?case by (auto simp: body_reads_snoc received_snoc sent_snoc receive_def send_def body_read_def starts_def split: dl_ev.split dl_open.split)
qed

lemma dl_run_snoc: "dl_run dir (evs @ [e]) s = Option.bind (dl_run dir evs s) (dl_step dir e)"
  by (simp add: dl_run_def)

definition file_name :: "string \<Rightarrow> bool" where
  "file_name n \<longleftrightarrow> n \<notin> {[], ''.'', ''..'', ''/''} \<and> CHR ''/'' \<notin> set n"

definition asks_file :: "dl_ev \<Rightarrow> bool" where
  "asks_file e \<longleftrightarrow> (case e of EAsk repo f \<Rightarrow> file_name (path_base f) | _ \<Rightarrow> True)"

lemma path_base_name: "file_name n \<Longrightarrow> path_base n = n"
proof -
  assume n: "file_name n"
  have "last (split_on CHR ''/'' n) = n" using n by (simp add: file_name_def split_on_free)
  moreover have "dropWhile (\<lambda>c. c = CHR ''/'') (rev n) = rev n"
    using n by (cases n rule: rev_cases) (auto simp: file_name_def)
  ultimately show ?thesis using n by (simp add: path_base_def file_name_def)
qed

lemma part_last: "part_path dir n = destDir dir n @ [n @ ''.part'']"
proof -
  have "n @ ''.part'' \<noteq> ''..''" "n @ ''.part'' \<noteq> ''.''" "n @ ''.part'' \<noteq> ''/''" using arg_cong[where f = "\<lambda>x. last x"] by fastforce+
  then show ?thesis by (simp add: part_path_def sub_def)
qed

lemma final_last: "file_name n \<Longrightarrow> final_path dir n = destDir dir n @ [n]"
  by (simp add: final_path_def sub_def file_name_def)

lemma part_inj: "part_path dir m = part_path dir n \<Longrightarrow> m = n"
  by (simp add: part_last)

lemma strip_end_length: "strip_end e s = Some t \<Longrightarrow> length t \<le> length s"
  by (auto simp: strip_end_def split: if_splits)

lemma strip_ci_length: "strip_ci e s = Some t \<Longrightarrow> length t \<le> length s"
  by (auto simp: strip_ci_def split: if_splits)

lemma end_digits_length: "end_digits s = Some (t, ds) \<Longrightarrow> length t \<le> length s"
  using length_dropWhile_le[of is_digit "rev s"] by (auto simp: end_digits_def Let_def split: if_splits)

lemma splitPartRe_length: "splitPartRe b = Some (m, i, n) \<Longrightarrow> length m \<le> length b"
  by (auto simp: splitPartRe_def bind_eq_Some_conv split: option.splits if_splits
      dest!: strip_ci_length end_digits_length strip_end_length)

lemma modelFolder_length: "file_name n \<Longrightarrow> length (modelFolder n) \<le> length n"
  using splitPartRe_length[of n] strip_end_length[of "''.gguf''" n] by (auto simp: modelFolder_def trim_gguf_def path_base_name split: option.split)

lemma part_no_gguf: "splitPartRe (n @ ''.part'') = None" "strip_end ''.gguf'' (n @ ''.part'') = None"
proof -
  have l: "last (drop (length s - 5) (s :: string)) = last s" if "5 \<le> length s" for s using that by (simp add: last_drop)
  have "strip_ci ''.gguf'' (n @ ''.part'') = None"
  proof -
    have "lower (drop (length (n @ ''.part'') - 5) (n @ ''.part'')) \<noteq> ''.gguf''" by (simp add: lower_def) code_simp
    then show ?thesis by (simp add: strip_ci_def)
  qed
  then show "splitPartRe (n @ ''.part'') = None" by (simp add: splitPartRe_def)
  show "strip_end ''.gguf'' (n @ ''.part'') = None" by (simp add: strip_end_def)
qed

lemma part_not_final:
  assumes "file_name m" "file_name n"
  shows "part_path dir m \<noteq> final_path dir n"
proof
  assume "part_path dir m = final_path dir n"
  then have e: "destDir dir m = destDir dir n" "n = m @ ''.part''" using part_last final_last[OF assms(2)] by auto
  have "modelFolder n = n" using part_no_gguf[of m] path_base_name[OF assms(2)] by (simp add: modelFolder_def trim_gguf_def e(2))
  then have d: "destDir dir n = dir @ [n]" using assms(2) by (simp add: destDir_def sub_def file_name_def)
  have "length (modelFolder m) < length n" using modelFolder_length[OF assms(1)] e(2) by simp
  then have "modelFolder m \<noteq> n" by auto
  then show False using e(1) d by (auto simp: destDir_def sub_def split: if_splits dest: arg_cong[where f = length])
qed

text \<open>
  The goroutines and the jobs under way are the same; a part file, when it is there, is what its goroutine received; and any other file is an old one or the
  whole of a finished download.
\<close>

definition jobs_ok :: "dl_sys \<Rightarrow> bool" where
  "jobs_ok s \<longleftrightarrow> (\<forall>n. (map_of (dy_runs s) n \<noteq> None \<longleftrightarrow> (\<exists>j. map_of (dy_jobs s) n = Some j \<and> dj_Status j = ''downloading'')) \<and>
     (map_of (dy_runs s) n \<noteq> None \<longrightarrow> file_name n))"

definition part_ok :: "string list \<Rightarrow> dl_ev list \<Rightarrow> dl_sys \<Rightarrow> string \<Rightarrow> bool" where
  "part_ok dir evs s n \<longleftrightarrow> (\<forall>ph c. map_of (dy_runs s) n = Some ph \<and> ph \<noteq> Fresh \<and> map_of (dk_files (dy_disk s)) (part_path dir n) = Some c \<longrightarrow> c = received n evs) \<and>
     (map_of (dy_runs s) n = Some Whole \<longrightarrow> received n evs = sent n evs)"

definition whole_of :: "string list \<Rightarrow> dl_ev list \<Rightarrow> string list \<Rightarrow> string \<Rightarrow> bool" where
  "whole_of dir evs p c \<longleftrightarrow> (\<exists>n xs ys. file_name n \<and> p = final_path dir n \<and> evs = xs @ EClose n None # ys \<and> c = sent n xs)"

definition file_ok :: "string list \<Rightarrow> disk \<Rightarrow> dl_ev list \<Rightarrow> dl_sys \<Rightarrow> string list \<Rightarrow> bool" where
  "file_ok dir k evs s p \<longleftrightarrow> (\<forall>c. map_of (dk_files (dy_disk s)) p = Some c \<longrightarrow>
     map_of (dk_files k) p = Some c \<or> (\<exists>n. file_name n \<and> p = part_path dir n) \<or> whole_of dir evs p c)"

definition dl_inv :: "string list \<Rightarrow> disk \<Rightarrow> dl_ev list \<Rightarrow> dl_sys \<Rightarrow> bool" where
  "dl_inv dir k evs s \<longleftrightarrow> jobs_ok s \<and> (\<forall>n. part_ok dir evs s n) \<and> (\<forall>p. file_ok dir k evs s p)"

lemma whole_of_more: "whole_of dir evs p c \<Longrightarrow> whole_of dir (evs @ [e]) p c"
  unfolding whole_of_def by (metis append_Cons append_assoc)

text \<open>How the pieces of a step change the three.\<close>

lemma on_job_frame [simp]: "dy_runs (on_job n h s) = dy_runs s" "dy_disk (on_job n h s) = dy_disk s"
  by (simp_all add: on_job_def split: option.split)

lemma dl_end_frame [simp]: "dy_runs (dl_end st e n s) = AList.delete n (dy_runs s)" "dy_disk (dl_end st e n s) = dy_disk s"
  by (simp_all add: dl_end_def)

lemma file_frames [simp]:
  "dy_runs (put_file p c s) = dy_runs s" "dy_jobs (put_file p c s) = dy_jobs s" "dy_runs (drop_file p s) = dy_runs s" "dy_jobs (drop_file p s) = dy_jobs s"
  "dy_runs (append_file p c s) = dy_runs s" "dy_jobs (append_file p c s) = dy_jobs s"
  "map_of (dk_files (dy_disk (put_file p c s))) q = (if q = p then Some c else map_of (dk_files (dy_disk s)) q)"
  "map_of (dk_files (dy_disk (drop_file p s))) q = (if q = p then None else map_of (dk_files (dy_disk s)) q)"
  "map_of (dk_files (dy_disk (append_file p c s))) q = (if q = p then map_option (\<lambda>x. x @ c) (map_of (dk_files (dy_disk s)) p) else map_of (dk_files (dy_disk s)) q)"
  by (auto simp: put_file_def drop_file_def append_file_def update_conv' delete_conv' split: option.split)

lemma count_bytes_frame [simp]: "dy_disk (count_bytes now la ld n name s) = dy_disk s"
  by (simp add: count_bytes_def Let_def)

lemma on_job_jobs:
  "map_of (dy_jobs (on_job n h s)) m = (if m = n then map_option h (map_of (dy_jobs s) n) else map_of (dy_jobs s) m)"
  by (auto simp: on_job_def update_conv' split: option.split)

lemma jobs_ok_on_job: "jobs_ok s \<Longrightarrow> (\<And>j. dj_Status (h j) = dj_Status j) \<Longrightarrow> jobs_ok (on_job n h s)"
  by (auto simp: jobs_ok_def on_job_jobs)

lemma jobs_ok_end: "jobs_ok s \<Longrightarrow> st \<noteq> ''downloading'' \<Longrightarrow> jobs_ok (dl_end st e n s)"
  by (auto simp: jobs_ok_def dl_end_def on_job_jobs delete_conv')

lemma jobs_ok_phase: "jobs_ok s \<Longrightarrow> (\<And>m. map_of rs m = None \<longleftrightarrow> map_of (dy_runs s) m = None) \<Longrightarrow> jobs_ok (s\<lparr>dy_runs := rs\<rparr>)"
  by (simp add: jobs_ok_def)

lemma jobs_ok_disk: "jobs_ok (s\<lparr>dy_disk := k\<rparr>) = jobs_ok s"
  by (simp add: jobs_ok_def)

lemma jobs_ok_same: "dy_runs s' = dy_runs s \<Longrightarrow> dy_jobs s' = dy_jobs s \<Longrightarrow> jobs_ok s' = jobs_ok s"
  by (simp add: jobs_ok_def)

lemma count_bytes_ok: "jobs_ok s \<Longrightarrow> map_of (dy_runs s) n \<noteq> None \<Longrightarrow> jobs_ok (count_bytes now la ld k n s)"
  unfolding count_bytes_def Let_def by (auto intro!: jobs_ok_on_job jobs_ok_phase simp: update_conv' split: if_splits)

lemma mkdirAll_files [simp]: "dk_files (mkdirAll p k) = dk_files k"
  by (simp add: mkdirAll_def)

lemma jobs_ok_open:
  assumes "jobs_ok s" "map_of (dy_runs s) n = Some Fresh"
  shows "jobs_ok (open_download dir ans n s)"
  using assms by (cases ans)
    (auto simp: open_download_def Let_def jobs_ok_disk update_conv' jobs_ok_same[of "put_file p c s" s for p c s]
      intro!: jobs_ok_end jobs_ok_phase jobs_ok_on_job split: if_splits)

lemma jobs_ok_read:
  assumes "jobs_ok s" "map_of (dy_runs s) n = Some (Reading la ld)"
  shows "jobs_ok (read_download dir d wr r now la ld n s)"
proof -
  have a: "jobs_ok (append_file p x s)" for p x using assms(1) by (simp add: jobs_ok_same[of "append_file p x s" s])
  define t where "t = (if d = [] then s else count_bytes now la ld (length d) n (append_file (part_path dir n) d s))"
  have t: "jobs_ok t" "map_of (dy_runs t) n \<noteq> None"
    using assms a count_bytes_ok[of "append_file (part_path dir n) d s" n] by (auto simp: t_def count_bytes_def Let_def update_conv')
  have "jobs_ok (drop_file p t)" for p using t(1) by (simp add: jobs_ok_same[of "drop_file p t" t])
  then show ?thesis using a t unfolding read_download_def t_def[symmetric] Let_def
    by (auto intro!: jobs_ok_end jobs_ok_phase simp: update_conv' split: dl_end.split if_splits)
qed

lemma jobs_ok_close:
  assumes "jobs_ok s"
  shows "jobs_ok (close_download dir err n s)"
proof -
  have "jobs_ok (put_file p c (drop_file q s))" for p c q
    using assms by (simp add: jobs_ok_same[of "put_file p c (drop_file q s)" s])
  then show ?thesis using assms by (auto simp: close_download_def intro!: jobs_ok_end split: option.split)
qed

lemma jobs_ok_ask:
  assumes "jobs_ok s" "file_name (path_base f)"
  shows "jobs_ok (snd (hfDownload repo f s))"
  using assms by (auto simp: hfDownload_def Let_def jobs_ok_def update_conv' split: option.split)

text \<open>What a step does to the disk and to the other downloads.\<close>

lemma map_of_filter_key: "map_of (filter (\<lambda>(p, c). P p) xs) q = (if P q then map_of xs q else None)"
  by (induction xs) auto

lemma RemoveAll_files: "map_of (dk_files (snd (RemoveAll stuck t k))) q = (if \<not> under t q \<or> stuck q then map_of (dk_files k) q else None)"
  by (simp add: RemoveAll_def Let_def map_of_filter_key)

lemma modelsDelete_files:
  "map_of (dk_files (snd (modelsDelete stuck dir req k))) q \<in> {None, map_of (dk_files k) q}"
  by (auto simp: modelsDelete_def Let_def RemoveAll_def map_of_filter_key split: option.split)

definition others_same :: "string list \<Rightarrow> string \<Rightarrow> dl_sys \<Rightarrow> dl_sys \<Rightarrow> bool" where
  "others_same dir n s s' \<longleftrightarrow> (\<forall>m. m \<noteq> n \<longrightarrow> map_of (dy_runs s') m = map_of (dy_runs s) m) \<and>
     (\<forall>q. q \<noteq> part_path dir n \<and> q \<noteq> final_path dir n \<longrightarrow> map_of (dk_files (dy_disk s')) q = map_of (dk_files (dy_disk s)) q)"

lemma part_ok_others:
  assumes "others_same dir n s s'" "jobs_ok s" "file_name n" "part_ok dir evs s m" "m \<noteq> n" "received m (evs @ [e]) = received m evs"
    "sent m (evs @ [e]) = sent m evs"
  shows "part_ok dir (evs @ [e]) s' m"
proof (cases "map_of (dy_runs s) m")
  case (Some ph)
  then have "file_name m" using assms(2) by (auto simp: jobs_ok_def)
  then have "part_path dir m \<noteq> part_path dir n" "part_path dir m \<noteq> final_path dir n" using part_inj part_not_final assms(3,5) by blast+
  then show ?thesis using assms(1,4-7) by (auto simp: others_same_def part_ok_def)
qed (use assms(1,5) in \<open>auto simp: others_same_def part_ok_def\<close>)

lemma file_ok_others:
  assumes "others_same dir n s s'" "file_name n" "file_ok dir k evs s p"
    "\<And>c. p = final_path dir n \<Longrightarrow> map_of (dk_files (dy_disk s')) p = Some c \<Longrightarrow> map_of (dk_files (dy_disk s)) p = Some c \<or> whole_of dir (evs @ [e]) p c"
  shows "file_ok dir k (evs @ [e]) s' p"
  unfolding file_ok_def
proof (intro allI impI)
  fix c
  assume c: "map_of (dk_files (dy_disk s')) p = Some c"
  show "map_of (dk_files k) p = Some c \<or> (\<exists>n. file_name n \<and> p = part_path dir n) \<or> whole_of dir (evs @ [e]) p c"
  proof (cases "p = part_path dir n \<or> (p = final_path dir n \<and> whole_of dir (evs @ [e]) p c)")
    case False
    then have "map_of (dk_files (dy_disk s)) p = Some c"
      using c assms(1) assms(4)[OF _ c] by (cases "p = final_path dir n") (auto simp: others_same_def)
    then show ?thesis using assms(3) whole_of_more by (auto simp: file_ok_def)
  qed (use assms(2) in blast)
qed

lemma dl_inv_step:
  assumes "dl_inv dir k evs s" "jobs_ok s'" "file_name n" "others_same dir n s s'" "\<And>m. m \<noteq> n \<Longrightarrow> received m (evs @ [e]) = received m evs \<and> sent m (evs @ [e]) = sent m evs"
    "part_ok dir (evs @ [e]) s' n"
    "\<And>c. map_of (dk_files (dy_disk s')) (final_path dir n) = Some c \<Longrightarrow>
       map_of (dk_files (dy_disk s)) (final_path dir n) = Some c \<or> whole_of dir (evs @ [e]) (final_path dir n) c"
  shows "dl_inv dir k (evs @ [e]) s'"
  unfolding dl_inv_def
proof (intro conjI allI)
  show "part_ok dir (evs @ [e]) s' m" for m
    using part_ok_others[OF assms(4) _ assms(3), of evs m e] assms(1,5,6) by (cases "m = n") (auto simp: dl_inv_def)
  show "file_ok dir k (evs @ [e]) s' p" for p
    using file_ok_others[OF assms(4,3), of k evs p e] assms(1,7) by (auto simp: dl_inv_def)
qed (rule assms(2))

lemma download_open_inv:
  assumes "dl_inv dir k evs s" "map_of (dy_runs s) n = Some Fresh"
  shows "dl_inv dir k (evs @ [EOpen n ans]) (open_download dir ans n s)"
proof -
  have j: "jobs_ok s" and n: "file_name n" using assms by (auto simp: dl_inv_def jobs_ok_def)
  have ne: "final_path dir n \<noteq> part_path dir n" using part_not_final[OF n n, of dir] by metis
  show ?thesis
    by (rule dl_inv_step[OF assms(1) jobs_ok_open[OF j assms(2)] n])
      (use ne in \<open>auto simp: open_download_def Let_def others_same_def update_conv' delete_conv' received_snoc receive_def sent_snoc send_def part_ok_def split: dl_open.splits\<close>)
qed

lemma read_inv:
  assumes "dl_inv dir k evs s" "map_of (dy_runs s) n = Some (Reading la ld)" "r = AtEnd \<longrightarrow> received n evs @ d = sent n evs"
  shows "dl_inv dir k (evs @ [ERead n d wr r now]) (read_download dir d wr r now la ld n s)"
proof -
  have j: "jobs_ok s" and n: "file_name n" and p: "part_ok dir evs s n" using assms by (auto simp: dl_inv_def jobs_ok_def)
  have ne: "final_path dir n \<noteq> part_path dir n" using part_not_final[OF n n, of dir] by metis
  have c: "\<And>c. map_of (dk_files (dy_disk s)) (part_path dir n) = Some c \<Longrightarrow> c = received n evs" using p assms(2) by (auto simp: part_ok_def)
  define t where "t = (if d = [] then s else count_bytes now la ld (length d) n (append_file (part_path dir n) d s))"
  have t: "\<And>m. m \<noteq> n \<Longrightarrow> map_of (dy_runs t) m = map_of (dy_runs s) m"
    "\<And>q. map_of (dk_files (dy_disk t)) q = (if q = part_path dir n then map_option (\<lambda>x. x @ d) (map_of (dk_files (dy_disk s)) q) else map_of (dk_files (dy_disk s)) q)"
    "map_of (dy_runs t) n \<noteq> Some Whole"
    using assms(2) by (auto simp: t_def count_bytes_def Let_def update_conv' option.map_ident)
  show ?thesis
  proof (rule dl_inv_step[OF assms(1) jobs_ok_read[OF j assms(2)] n])
    show "others_same dir n s (read_download dir d wr r now la ld n s)"
      using t unfolding read_download_def t_def[symmetric] Let_def by (auto simp: others_same_def update_conv' delete_conv' split: dl_end.split)
    show "part_ok dir (evs @ [ERead n d wr r now]) (read_download dir d wr r now la ld n s) n"
      using t c assms(3) unfolding read_download_def t_def[symmetric] Let_def
      by (auto simp: part_ok_def update_conv' delete_conv' received_snoc receive_def sent_snoc send_def split: dl_end.split)
    fix x
    assume "map_of (dk_files (dy_disk (read_download dir d wr r now la ld n s))) (final_path dir n) = Some x"
    then show "map_of (dk_files (dy_disk s)) (final_path dir n) = Some x \<or> whole_of dir (evs @ [ERead n d wr r now]) (final_path dir n) x"
      using t ne unfolding read_download_def t_def[symmetric] Let_def by (auto split: if_splits dl_end.splits)
  qed (auto simp: received_snoc receive_def sent_snoc send_def)
qed

lemma download_close_inv:
  assumes "dl_inv dir k evs s" "map_of (dy_runs s) n = Some Whole"
  shows "dl_inv dir k (evs @ [EClose n err]) (close_download dir err n s)"
proof -
  have j: "jobs_ok s" and n: "file_name n" and p: "part_ok dir evs s n" using assms by (auto simp: dl_inv_def jobs_ok_def)
  have ne: "final_path dir n \<noteq> part_path dir n" using part_not_final[OF n n, of dir] by metis
  have c: "\<And>c. map_of (dk_files (dy_disk s)) (part_path dir n) = Some c \<Longrightarrow> c = sent n evs" using p assms(2) by (auto simp: part_ok_def)
  have w: "whole_of dir (evs @ [EClose n None]) (final_path dir n) (sent n evs)" using n by (auto simp: whole_of_def)
  show ?thesis
    by (rule dl_inv_step[OF assms(1) jobs_ok_close[OF j] n])
      (use ne c w in \<open>auto simp: close_download_def others_same_def delete_conv' received_snoc receive_def sent_snoc send_def part_ok_def split: option.splits if_splits\<close>)
qed

lemma file_ok_more:
  assumes "file_ok dir k evs s p" "map_of (dk_files (dy_disk s')) p \<in> {None, map_of (dk_files (dy_disk s)) p}"
  shows "file_ok dir k (evs @ [e]) s' p"
  using assms whole_of_more[of dir evs p _ e] unfolding file_ok_def by force

lemma ask_inv:
  assumes "dl_inv dir k evs s" "file_name (path_base f)"
  shows "dl_inv dir k (evs @ [EAsk repo f]) (snd (hfDownload repo f s))"
proof -
  have d: "dy_disk (snd (hfDownload repo f s)) = dy_disk s" by (simp add: hfDownload_def Let_def split: option.split)
  have r: "map_of (dy_runs (snd (hfDownload repo f s))) m = Some Fresh \<or> map_of (dy_runs (snd (hfDownload repo f s))) m = map_of (dy_runs s) m" for m
    by (auto simp: hfDownload_def Let_def update_conv' split: option.split)
  have "part_ok dir (evs @ [EAsk repo f]) (snd (hfDownload repo f s)) m" for m
  proof (cases "map_of (dy_runs (snd (hfDownload repo f s))) m = Some Fresh")
    case False
    then have "map_of (dy_runs (snd (hfDownload repo f s))) m = map_of (dy_runs s) m" using r by blast
    then show ?thesis using assms(1) unfolding dl_inv_def part_ok_def d received_snoc sent_snoc by (simp add: receive_def send_def) blast
  qed (simp add: part_ok_def)
  moreover have "file_ok dir k (evs @ [EAsk repo f]) (snd (hfDownload repo f s)) p" for p
    using assms(1) file_ok_more[of dir k evs s p] by (simp add: dl_inv_def d)
  ultimately show ?thesis using jobs_ok_ask[OF _ assms(2)] assms(1) by (simp add: dl_inv_def)
qed

lemma delete_inv:
  assumes "dl_inv dir k evs s"
  shows "dl_inv dir k (evs @ [EDelete f st]) (s\<lparr>dy_disk := snd (modelsDelete stuck dir req (dy_disk s))\<rparr>)"
proof -
  let ?k = "snd (modelsDelete stuck dir req (dy_disk s))"
  have sub: "map_of (dk_files (dy_disk s)) q = Some c" if "map_of (dk_files ?k) q = Some c" for q c
    using modelsDelete_files[of stuck dir req "dy_disk s" q] that by auto
  have "part_ok dir (evs @ [EDelete f st]) (s\<lparr>dy_disk := ?k\<rparr>) m" for m
    using assms sub by (auto simp: dl_inv_def part_ok_def received_snoc receive_def sent_snoc send_def)
  moreover have "file_ok dir k (evs @ [EDelete f st]) (s\<lparr>dy_disk := ?k\<rparr>) p" for p
    using assms file_ok_more[of dir k evs s p] modelsDelete_files[of stuck dir req "dy_disk s" p] by (simp add: dl_inv_def)
  ultimately show ?thesis using assms by (simp add: dl_inv_def jobs_ok_disk)
qed

lemma dl_inv_dl_step:
  assumes "dl_inv dir k evs s" "dl_step dir e s = Some s'" "asks_file e" "body_read evs e"
  shows "dl_inv dir k (evs @ [e]) s'"
proof (cases e)
  case (EAsk repo f)
  then show ?thesis using assms ask_inv by (auto simp: asks_file_def)
next
  case (EOpen n ans)
  then show ?thesis using assms download_open_inv by (auto split: if_splits)
next
  case (ERead n d wr r now)
  then show ?thesis using assms read_inv[of dir k evs s n] by (auto simp: body_read_def split: option.splits dl_phase.splits)
next
  case (EClose n err)
  then show ?thesis using assms download_close_inv by (auto split: if_splits)
next
  case (EDelete f st)
  then show ?thesis using assms delete_inv by auto
qed

lemma dl_run_inv:
  "dl_run dir evs (dl_start k) = Some s \<Longrightarrow> list_all asks_file evs \<Longrightarrow> body_reads evs \<Longrightarrow> dl_inv dir k evs s"
proof (induction evs arbitrary: s rule: rev_induct)
  case Nil
  then show ?case by (auto simp: dl_run_def dl_start_def dl_inv_def jobs_ok_def part_ok_def file_ok_def)
next
  case (snoc e evs)
  obtain t where t: "dl_run dir evs (dl_start k) = Some t" "dl_step dir e t = Some s"
    using snoc.prems(1) by (auto simp: dl_run_snoc bind_eq_Some_conv)
  show ?case using dl_inv_dl_step[OF snoc.IH[OF t(1)] t(2)] snoc.prems(2,3) by (simp add: body_reads_snoc)
qed

text \<open>
  C22. A half file is never taken for a model. In every history of requests, downloads that overlap and fail anywhere, and deletions, a file that is not
  the part of a download holds either what it held before or, byte for byte, the whole body the server sent for one download that finished; each download under way has one goroutine,
  and what is in its part file is a beginning of the body it reads. It supposes of \<^verbatim>\<open>net/http\<close> that reads hand out the body in order and that the end of file is
  answered at its end only.
\<close>

theorem downloads_whole:
  assumes "dl_run dir evs (dl_start k) = Some s" "list_all asks_file evs" "body_reads evs"
  shows "(\<forall>p c. map_of (dk_files (dy_disk s)) p = Some c \<longrightarrow>
       map_of (dk_files k) p = Some c \<or> (\<exists>n. file_name n \<and> p = part_path dir n) \<or>
       (\<exists>n xs ys. p = final_path dir n \<and> evs = xs @ EClose n None # ys \<and> c = sent n xs)) \<and>
    (\<forall>n. (map_of (dy_runs s) n \<noteq> None \<longleftrightarrow> (\<exists>j. map_of (dy_jobs s) n = Some j \<and> dj_Status j = ''downloading'')) \<and>
       (\<forall>la ld c. map_of (dy_runs s) n = Some (Reading la ld) \<and> map_of (dk_files (dy_disk s)) (part_path dir n) = Some c \<longrightarrow> starts c (sent n evs)))"
proof -
  have i: "dl_inv dir k evs s" using dl_run_inv[OF assms] .
  have f: "map_of (dk_files k) p = Some c \<or> (\<exists>n. file_name n \<and> p = part_path dir n) \<or>
     (\<exists>n xs ys. p = final_path dir n \<and> evs = xs @ EClose n None # ys \<and> c = sent n xs)"
    if "map_of (dk_files (dy_disk s)) p = Some c" for p c
    using i that unfolding dl_inv_def file_ok_def whole_of_def by blast
  have r: "starts c (sent n evs)" if "map_of (dy_runs s) n = Some (Reading la ld)" "map_of (dk_files (dy_disk s)) (part_path dir n) = Some c" for n la ld c
    using i that received_starts[OF assms(3), of n] by (auto simp: dl_inv_def part_ok_def)
  show ?thesis using i f r unfolding dl_inv_def jobs_ok_def by blast
qed

definition demo_dir :: "string list" where "demo_dir = [''models'']"

definition demo_dl :: "dl_ev list" where
  "demo_dl = [EAsk ''unsloth/m'' ''UD/m-00001-of-00002.gguf'', EOpen ''m-00001-of-00002.gguf'' (Opened ''abcd'' 4 0),
     ERead ''m-00001-of-00002.gguf'' ''ab'' None More 10, ERead ''m-00001-of-00002.gguf'' ''cd'' None AtEnd 2000, EClose ''m-00001-of-00002.gguf'' None]"

definition empty_disk :: disk where "empty_disk = \<lparr>dk_files = [], dk_dirs = [demo_dir]\<rparr>"

theorem downloads_whole_witness:
  "\<exists>s. dl_run demo_dir demo_dl (dl_start empty_disk) = Some s \<and>
     map_of (dk_files (dy_disk s)) [''models'', ''m'', ''m-00001-of-00002.gguf''] = Some ''abcd'' \<and> map_of (dy_runs s) ''m-00001-of-00002.gguf'' = None"
proof -
  have e: "(case dl_run demo_dir demo_dl (dl_start empty_disk) of
      Some s \<Rightarrow> map_of (dk_files (dy_disk s)) [''models'', ''m'', ''m-00001-of-00002.gguf''] = Some ''abcd'' \<and>
        map_option dj_Status (map_of (dy_jobs s) ''m-00001-of-00002.gguf'') = Some ''done'' | None \<Rightarrow> False)" by code_simp
  then obtain s where s: "dl_run demo_dir demo_dl (dl_start empty_disk) = Some s" by (auto split: option.splits)
  have "list_all asks_file demo_dl" "body_reads demo_dl" by code_simp+
  from downloads_whole[OF s this]
  have r: "map_of (dy_runs s) n \<noteq> None \<longleftrightarrow> (\<exists>j. map_of (dy_jobs s) n = Some j \<and> dj_Status j = ''downloading'')" for n by blast
  show ?thesis using r[of "''m-00001-of-00002.gguf''"] e s by auto
qed


section \<open>Deleting\<close>

lemma starts_iff: "starts p s \<longleftrightarrow> (\<exists>b. s = p @ b)"
  unfolding starts_def by (metis append_eq_conv_conj)

lemma contains_iff: "contains s t \<longleftrightarrow> (\<exists>a b. s = a @ t @ b)"
proof (induction s)
  case (Cons c s)
  have "(\<exists>a b. c # s = a @ t @ b) \<longleftrightarrow> starts t (c # s) \<or> (\<exists>a b. s = a @ t @ b)"
    unfolding starts_iff by (metis Cons_eq_append_conv append_Cons append_Nil)
  then show ?case using Cons by simp
qed (simp add: starts_iff)

lemma split_on_part: "p \<in> set (split_on d s) \<Longrightarrow> \<exists>a b. s = a @ p @ b"
proof (induction s arbitrary: p)
  case (Cons c s)
  obtain w ws where w: "split_on d s = w # ws" using split_on_nonempty[of d s] by (cases "split_on d s") auto
  have first: "\<exists>b. s = w @ b"
  proof -
    have "takeWhile (\<lambda>x. x \<noteq> d) s = w" using w
      by (induction s arbitrary: w ws) (auto simp: split_on_nonempty split: list.splits if_splits)
    then show ?thesis using takeWhile_dropWhile_id by metis
  qed
  show ?case
  proof (cases "c \<noteq> d \<and> p = c # w")
    case True
    then show ?thesis using first by (metis append_Cons append_Nil)
  next
    case False
    then have "p = [] \<or> p \<in> set (split_on d s)" using Cons.prems w by (auto split: if_splits)
    then show ?thesis using Cons.IH by (metis append_Cons append_Nil)
  qed
qed simp

text \<open>A name that ends as a model does has no white space to take off its end.\<close>

definition blank_start :: "string \<Rightarrow> bool" where
  "blank_start s \<longleftrightarrow> list_ex (\<lambda>w. starts w s) spaces"

lemma trim_left_plain: "\<not> list_ex (\<lambda>w. starts w s) ws \<Longrightarrow> trim_left ws s = s"
proof (cases s)
  case (Cons c t)
  assume "\<not> list_ex (\<lambda>w. starts w s) ws"
  then have "find (\<lambda>w. starts w (c # t)) ws = None" by (simp add: list_ex_iff find_None_iff Cons)
  then show ?thesis by (simp add: Cons)
qed simp

lemma gguf_end:
  assumes "is_gguf s"
  shows "\<exists>t c. s = t @ [c] \<and> lower_char c = CHR ''f''"
proof -
  define x where "x = drop (length s - 5) s"
  have five: "length ''.gguf'' = 5" by simp
  have "lower x = ''.gguf''" using assms unfolding is_gguf_def strip_ci_def five x_def[symmetric] by (simp split: if_splits)
  then have x: "map lower_char x = ''.gguf''" by (simp add: lower_def)
  then have l: "lower_char (last x) = CHR ''f''" "x \<noteq> []" by (auto simp flip: last_map)
  then obtain y c where y: "x = y @ [c]" by (cases x rule: rev_cases) auto
  have "lower_char c = CHR ''f''" using l(1) y by simp
  moreover have "s = (take (length s - 5) s @ y) @ [c]" using append_take_drop_id[of "length s - 5" s] y unfolding x_def by simp
  ultimately show ?thesis by blast
qed

lemma end_kept: "lower_char c = CHR ''f'' \<Longrightarrow> \<not> list_ex (\<lambda>w. starts w (c # s)) (map rev spaces)"
  by (auto simp: spaces_def starts_def lower_char_def byte_of_def)

lemma TrimSpace_model:
  assumes "is_gguf s" "\<not> blank_start s"
  shows "TrimSpace s = s"
proof -
  obtain t c where s: "s = t @ [c]" "lower_char c = CHR ''f''" using gguf_end[OF assms(1)] by blast
  have "trim_left spaces s = s" using assms(2) by (simp add: blank_start_def trim_left_plain)
  then show ?thesis using trim_left_plain[OF end_kept[OF s(2)], of "rev t"] s(1) by (simp add: TrimSpace_def)
qed

lemma modelsDelete_parts:
  assumes "modelsDelete stuck dir (Some f) k = (r, k')"
  shows "(r \<in> {DelBad, DelMissing} \<and> k' = k) \<or>
    (\<exists>x. x = hd (split_on CHR ''/'' (TrimSpace f)) \<and> x \<noteq> [] \<and> x \<noteq> ''..'' \<and> k' = snd (RemoveAll stuck (sub dir x) k) \<and>
       r = (if fst (RemoveAll stuck (sub dir x) k) then Deleted x else DelFails))"
proof -
  define name where "name = TrimSpace f"
  define x where "x = hd (split_on CHR ''/'' name)"
  have h: "split_on CHR ''/'' name ! 0 = x" using split_on_nonempty[of "CHR ''/''" name] by (simp add: hd_conv_nth x_def)
  have d: "x \<noteq> ''..''" if "\<not> contains name ''..''"
    using split_on_part[of x "CHR ''/''" name] that split_on_nonempty[of "CHR ''/''" name] unfolding x_def contains_iff by (metis hd_in_set)
  show ?thesis using assms d unfolding modelsDelete_def option.case Let_def name_def[symmetric] h x_def[symmetric]
    by (auto split: if_splits prod.splits)
qed

lemma sub_cases: "x \<noteq> [] \<Longrightarrow> x \<noteq> ''..'' \<Longrightarrow> sub dir x = dir \<or> sub dir x = dir @ [x]"
  by (simp add: sub_def)

text \<open>
  Deletion stays inside the directory of models and takes a whole model or nothing it should not. Whatever is asked, no file outside the directory
  changes; what is not refused removes exactly the files below one entry, and it answers that they are gone exactly when they all are.
\<close>

theorem modelsDelete_confined:
  assumes "modelsDelete stuck dir (Some f) k = (r, k')"
  shows "\<exists>t. (t = dir \<or> (\<exists>x. t = dir @ [x])) \<and>
    (\<forall>q. map_of (dk_files k') q = (if r \<notin> {DelBad, DelMissing} \<and> under t q \<and> \<not> stuck q then None else map_of (dk_files k) q)) \<and>
    ((\<exists>x. r = Deleted x) \<longrightarrow> (\<forall>q. under t q \<longrightarrow> map_of (dk_files k') q = None)) \<and> (r = DelFails \<longrightarrow> (\<exists>q. under t q \<and> map_of (dk_files k') q \<noteq> None))"
proof -
  consider "r \<in> {DelBad, DelMissing}" "k' = k"
    | x where "x \<noteq> []" "x \<noteq> ''..''" "k' = snd (RemoveAll stuck (sub dir x) k)" "r = (if fst (RemoveAll stuck (sub dir x) k) then Deleted x else DelFails)"
    using modelsDelete_parts[OF assms] by blast
  then show ?thesis
  proof cases
    case 1
    then show ?thesis by (intro exI[of _ dir]) auto
  next
    case 2
    have f: "map_of (dk_files k') q = (if under (sub dir x) q \<and> \<not> stuck q then None else map_of (dk_files k) q)" for q
      using RemoveAll_files[of stuck "sub dir x" k q] 2(3) by simp
    have g: "fst (RemoveAll stuck (sub dir x) k) \<longleftrightarrow> (\<forall>q. under (sub dir x) q \<longrightarrow> map_of (dk_files k') q = None)"
    proof -
      have "fst (RemoveAll stuck (sub dir x) k) \<longleftrightarrow> (\<forall>(p, c)\<in>set (dk_files k). under (sub dir x) p \<longrightarrow> \<not> stuck p)"
        by (auto simp: RemoveAll_def Let_def filter_empty_conv)
      also have "\<dots> \<longleftrightarrow> (\<forall>q. under (sub dir x) q \<and> stuck q \<longrightarrow> map_of (dk_files k) q = None)"
        by (auto simp: map_of_eq_None_iff image_iff; fastforce)
      finally show ?thesis by (auto simp: f)
    qed
    show ?thesis using sub_cases[OF 2(1,2), of dir] f g 2(4) by (intro exI[of _ "sub dir x"]) auto
  qed
qed

definition demo_disk :: disk where
  "demo_disk = \<lparr>dk_files = [([''models'', ''m'', ''m-1-of-2.gguf''], ''ab''), ([''models'', ''m'', ''m-2-of-2.gguf''], ''cd''), ([''models'', ''n.gguf''], ''e''), ([''x''], ''f'')],
     dk_dirs = [[''models''], [''models'', ''m'']]\<rparr>"

definition demo_delete :: "del_reply \<times> disk" where
  "demo_delete = modelsDelete (\<lambda>_. False) demo_dir (Some ''m/m-1-of-2.gguf'') demo_disk"

theorem modelsDelete_confined_witness:
  "fst demo_delete = Deleted ''m'' \<and> map_of (dk_files (snd demo_delete)) [''x''] = Some ''f''"
proof -
  have r: "fst demo_delete = Deleted ''m''" by code_simp
  have "modelsDelete (\<lambda>_. False) demo_dir (Some ''m/m-1-of-2.gguf'') demo_disk = (fst demo_delete, snd demo_delete)" by (simp add: demo_delete_def)
  from modelsDelete_confined[OF this] obtain t where "t = demo_dir \<or> (\<exists>x. t = demo_dir @ [x])"
    "map_of (dk_files (snd demo_delete)) [''x''] = (if fst demo_delete \<notin> {DelBad, DelMissing} \<and> under t [''x''] \<and> \<not> False then None else map_of (dk_files demo_disk) [''x''])"
    by blast
  then show ?thesis using r by (auto simp: under_def demo_dir_def demo_disk_def)
qed

text \<open>
  A name that begins with a dot component deletes every model. \<^verbatim>\<open>./x.gguf\<close> passes the checks, since its first component is neither empty nor contains two
  dots; joined to the directory of models it is the directory, and all of it is removed.
\<close>

theorem delete_dot_wipes:
  assumes "is_gguf (''./'' @ x)" "x \<noteq> []" "CHR ''/'' \<notin> set x" "\<not> contains (''./'' @ x) ''..''" "present dir k"
  shows "fst (modelsDelete (\<lambda>_. False) dir (Some (''./'' @ x)) k) = Deleted ''.'' \<and>
    (\<forall>q. under dir q \<longrightarrow> map_of (dk_files (snd (modelsDelete (\<lambda>_. False) dir (Some (''./'' @ x)) k))) q = None)"
proof -
  have p: "split_on CHR ''/'' (''./'' @ x) = [''.'', x]" using assms(3) by (simp add: split_on_free)
  have s: "\<not> starts ''/'' (''./'' @ x)" by (simp add: starts_def)
  have tr: "TrimSpace (''./'' @ x) = ''./'' @ x" by (rule TrimSpace_model[OF assms(1)]) (simp add: blank_start_def spaces_def starts_def)
  have t: "sub dir ([''.'', x] ! 0) = dir" by (simp add: sub_def)
  have m: "modelsDelete (\<lambda>_. False) dir (Some (''./'' @ x)) k = (Deleted ''.'', snd (RemoveAll (\<lambda>_. False) dir k))"
    unfolding modelsDelete_def option.case Let_def tr p t using assms s by (simp add: RemoveAll_def)
  show ?thesis unfolding m using RemoveAll_files[of "\<lambda>_. False" dir k] by simp
qed

theorem delete_dot_wipes_witness:
  "map_of (dk_files (snd (modelsDelete (\<lambda>_. False) demo_dir (Some ''./n.gguf'') demo_disk))) [''models'', ''m'', ''m-2-of-2.gguf''] = None"
proof -
  have g: "is_gguf (''./'' @ ''n.gguf'')" "\<not> contains (''./'' @ ''n.gguf'') ''..''" "present demo_dir demo_disk" by code_simp+
  have "under demo_dir [''models'', ''m'', ''m-2-of-2.gguf'']" by (simp add: under_def demo_dir_def)
  then show ?thesis using delete_dot_wipes[OF g(1) _ _ g(2,3)] by auto
qed

text \<open>
  Downloads stay inside the directory of models unless the name of the model is two dots. Every file a download writes lies in the directory when the folder of the
  model is not \<^verbatim>\<open>..\<close>; but the file name \<^verbatim>\<open>...gguf\<close> has that folder, and its download lands beside the directory.
\<close>

theorem downloads_confined:
  "(file_name n \<and> modelFolder n \<noteq> ''..'' \<longrightarrow> under dir (part_path dir n) \<and> under dir (final_path dir n) \<and> length (final_path dir n) \<le> length dir + 2) \<and>
   file_name ''...gguf'' \<and> final_path (d @ [x]) ''...gguf'' = d @ [''...gguf'']"
proof -
  have "modelFolder ''...gguf'' = ''..''" "file_name ''...gguf''" by code_simp+
  moreover have "under dir (part_path dir n) \<and> under dir (final_path dir n) \<and> length (final_path dir n) \<le> length dir + 2"
    if "file_name n" "modelFolder n \<noteq> ''..''"
    using that by (auto simp: part_last final_last destDir_def sub_def under_def)
  ultimately show ?thesis by (auto simp: final_last destDir_def sub_def)
qed

theorem downloads_confined_witness:
  "under demo_dir (final_path demo_dir ''n.gguf'')"
proof -
  have "file_name ''n.gguf''" "modelFolder ''n.gguf'' \<noteq> ''..''" by code_simp+
  then show ?thesis using downloads_confined[of "''n.gguf''" demo_dir "[]" "[]"] by blast
qed


section \<open>The list after a deletion\<close>

lemma sort_filter_remdups: "sort (remdups (filter P xs)) = filter P (sort (remdups xs))"
proof -
  have "remdups (filter P xs) = filter P (remdups xs)" by (induction xs) auto
  then show ?thesis by (simp add: filter_sort)
qed

text \<open>A deletion below \<open>t\<close> leaves the children of every directory that is not below it, save \<open>t\<close> itself.\<close>

definition cleared :: "string list \<Rightarrow> disk \<Rightarrow> disk" where
  "cleared t k = snd (RemoveAll (\<lambda>_. False) t k)"

lemma cleared_parts: "dk_files (cleared t k) = filter (\<lambda>(p, c). \<not> under t p) (dk_files k)" "dk_dirs (cleared t k) = filter (\<lambda>d. \<not> under t d) (dk_dirs k)"
  by (simp_all add: cleared_def RemoveAll_def Let_def)

lemma under_child: "length p = Suc (length d) \<Longrightarrow> under d p \<Longrightarrow> p = d @ [last p]"
  unfolding under_def by (metis append_butlast_last_id butlast_conv_take diff_Suc_1 length_0_conv nat.distinct(1))

lemma all_paths_cleared:
  "map fst (dk_files (cleared t k)) @ dk_dirs (cleared t k) = filter (\<lambda>p. \<not> under t p) (map fst (dk_files k) @ dk_dirs k)"
  by (simp add: cleared_parts filter_map o_def case_prod_unfold)

lemma children_cleared: "children dir (cleared (dir @ [n]) k) = filter (\<lambda>x. x \<noteq> n) (children dir k)"
proof -
  have "map last (filter (\<lambda>p. length p = Suc (length dir) \<and> under dir p) (filter (\<lambda>p. \<not> under (dir @ [n]) p) qs)) =
      filter (\<lambda>x. x \<noteq> n) (map last (filter (\<lambda>p. length p = Suc (length dir) \<and> under dir p) qs))" for qs
  proof (induction qs)
    case (Cons p qs)
    have "under (dir @ [n]) p \<longleftrightarrow> last p = n" if "length p = Suc (length dir)" "under dir p"
      using under_child[OF that] that(1) by (auto simp: under_def)
    then show ?case using Cons by auto
  qed simp
  then show ?thesis unfolding children_def all_paths_cleared by (simp only: sort_filter_remdups[symmetric])
qed

lemma children_cleared_other:
  assumes "n \<noteq> m"
  shows "children (dir @ [m]) (cleared (dir @ [n]) k) = children (dir @ [m]) k"
proof -
  have "\<not> under (dir @ [n]) p" if "under (dir @ [m]) p" for p
  proof
    assume "under (dir @ [n]) p"
    then have "dir @ [n] = dir @ [m]" using that by (simp add: under_def)
    then show False using assms by simp
  qed
  then have f: "filter (\<lambda>p. length p = Suc (length (dir @ [m])) \<and> under (dir @ [m]) p) (filter (\<lambda>p. \<not> under (dir @ [n]) p) ps) =
     filter (\<lambda>p. length p = Suc (length (dir @ [m])) \<and> under (dir @ [m]) p) ps" for ps
    by (induction ps) auto
  show ?thesis unfolding children_def all_paths_cleared f ..
qed

lemma entry_cleared:
  assumes "m \<noteq> n"
  shows "dir @ [m] \<in> set (dk_dirs (cleared (dir @ [n]) k)) \<longleftrightarrow> dir @ [m] \<in> set (dk_dirs k)"
    "map_of (dk_files (cleared (dir @ [n]) k)) (dir @ [m]) = map_of (dk_files k) (dir @ [m])"
    "dir @ [m, x] \<in> set (dk_dirs (cleared (dir @ [n]) k)) \<longleftrightarrow> dir @ [m, x] \<in> set (dk_dirs k)"
    "map_of (dk_files (cleared (dir @ [n]) k)) (dir @ [m, x]) = map_of (dk_files k) (dir @ [m, x])"
  using assms by (auto simp: cleared_parts map_of_filter_key under_def)

lemma readDir_cleared: "readDir dir (cleared (dir @ [n]) k) = filter (\<lambda>(x, d, s). x \<noteq> n) (readDir dir k)"
proof -
  have "map (\<lambda>x. (x, dir @ [x] \<in> set (dk_dirs (cleared (dir @ [n]) k)), case map_of (dk_files (cleared (dir @ [n]) k)) (dir @ [x]) of Some c \<Rightarrow> length c | None \<Rightarrow> 0))
      (filter (\<lambda>x. x \<noteq> n) xs) =
    filter (\<lambda>(x, d, s). x \<noteq> n) (map (\<lambda>x. (x, dir @ [x] \<in> set (dk_dirs k), case map_of (dk_files k) (dir @ [x]) of Some c \<Rightarrow> length c | None \<Rightarrow> 0)) xs)" for xs
    by (induction xs) (auto simp: entry_cleared)
  then show ?thesis by (simp add: readDir_def children_cleared)
qed

lemma loadable_cleared: "m \<noteq> n \<Longrightarrow> loadableGGUF (dir @ [m]) (cleared (dir @ [n]) k) = loadableGGUF (dir @ [m]) k"
  by (simp add: loadableGGUF_def readDir_def children_cleared_other[of n m] entry_cleared)

lemma row_cleared: "fst e \<noteq> n \<Longrightarrow> map mr_file (local_row dir (cleared (dir @ [n]) k) e) = map mr_file (local_row dir k e)"
  by (cases e) (auto simp: local_row_def loadable_cleared Let_def split: prod.split)

text \<open>Names as a directory holds them, and the name of the entry a row is about.\<close>

definition plain_disk :: "string list \<Rightarrow> disk \<Rightarrow> bool" where
  "plain_disk dir k \<longleftrightarrow> (\<forall>n\<in>set (children dir k). CHR ''/'' \<notin> set n \<and> n \<notin> {[], ''.'', ''..''} \<and>
     (\<forall>x\<in>set (children (dir @ [n]) k). CHR ''/'' \<notin> set x))"

lemma load_loop_in: "load_loop es load tot = (l, t) \<Longrightarrow> l = load \<or> (l \<in> fst ` set es \<and> is_gguf l)"
  by (induction es load tot arbitrary: l t rule: load_loop.induct) (fastforce simp: Let_def split: if_splits option.splits)+

lemma row_name:
  assumes "r \<in> set (local_row dir k e)" "e \<in> set (readDir dir k)" "plain_disk dir k"
  shows "hd (split_on CHR ''/'' (mr_file r)) = fst e"
proof -
  obtain n d s where e: "e = (n, d, s)" using prod_cases3 by blast
  have n: "n \<in> set (children dir k)" using assms(2) e by (auto simp: readDir_def)
  then have c: "CHR ''/'' \<notin> set n" using assms(3) by (simp add: plain_disk_def)
  show ?thesis
  proof (cases d)
    case True
    obtain l t where l: "loadableGGUF (dir @ [n]) k = (l, t)" by fastforce
    have f: "mr_file r = n @ CHR ''/'' # l" using assms(1) e True l by (auto simp: local_row_def split: if_splits)
    show ?thesis unfolding f split_on_append using split_on_free[OF c] e by simp
  next
    case False
    then have "mr_file r = n" using assms(1) e by (auto simp: local_row_def split: if_splits)
    then show ?thesis using split_on_free[OF c] e by simp
  qed
qed

lemma rows_cleared:
  assumes "plain_disk dir k"
  shows "map mr_file (localModels dir (cleared (dir @ [n]) k)) = filter (\<lambda>f. hd (split_on CHR ''/'' f) \<noteq> n) (map mr_file (localModels dir k))"
proof -
  have "map mr_file (concat (map (local_row dir (cleared (dir @ [n]) k)) (filter (\<lambda>(x, d, s). x \<noteq> n) es))) =
      filter (\<lambda>f. hd (split_on CHR ''/'' f) \<noteq> n) (map mr_file (concat (map (local_row dir k) es)))" if "set es \<subseteq> set (readDir dir k)" for es
    using that
  proof (induction es)
    case (Cons e es)
    have h: "\<And>r. r \<in> set (local_row dir k e) \<Longrightarrow> hd (split_on CHR ''/'' (mr_file r)) = fst e"
      using row_name[OF _ _ assms] Cons.prems by simp
    have "filter (\<lambda>f. hd (split_on CHR ''/'' f) \<noteq> n) (map mr_file (local_row dir k e)) = (if fst e = n then [] else map mr_file (local_row dir k e))"
      using h by (auto simp: filter_map o_def filter_empty_conv)
    then show ?case using Cons row_cleared[of e n dir k] by (cases e) auto
  qed simp
  from this[of "readDir dir k"] show ?thesis by (simp add: localModels_def readDir_cleared)
qed

lemma is_gguf_append: "is_gguf l \<Longrightarrow> is_gguf (a @ l)"
  by (simp add: is_gguf_def strip_ci_def eval_nat_numeral split: if_splits)

lemma is_gguf_nonempty: "is_gguf l \<Longrightarrow> l \<noteq> []"
  by (auto simp: is_gguf_def strip_ci_def)

lemma in_readDir: "(n, d, s) \<in> set (readDir dir k) \<longleftrightarrow> n \<in> set (children dir k) \<and> d = (dir @ [n] \<in> set (dk_dirs k)) \<and>
    s = (case map_of (dk_files k) (dir @ [n]) of Some c \<Rightarrow> length c | None \<Rightarrow> 0)"
  by (auto simp: readDir_def)

lemma children_present:
  assumes "n \<in> set (children dir k)"
  shows "present (dir @ [n]) k"
proof -
  obtain p where "p \<in> set (map fst (dk_files k) @ dk_dirs k)" "length p = Suc (length dir)" "under dir p" "n = last p"
    using assms by (auto simp: children_def)
  then show ?thesis using under_child[of p dir] by (auto simp: present_def)
qed

lemma row_parts:
  assumes "r \<in> set (localModels dir k)" "plain_disk dir k"
  obtains n where "n \<in> set (children dir k)" "is_gguf (mr_file r)"
    "split_on CHR ''/'' (mr_file r) = [n] \<or> (\<exists>l. l \<noteq> [] \<and> split_on CHR ''/'' (mr_file r) = [n, l])" "n \<noteq> []" "n \<noteq> ''.''" "n \<noteq> ''..''" "\<not> starts ''/'' (mr_file r)"
proof -
  obtain n d s where e: "(n, d, s) \<in> set (readDir dir k)" "r \<in> set (local_row dir k (n, d, s))" using assms(1) by (auto simp: localModels_def)
  have n: "n \<in> set (children dir k)" using e(1) by (simp add: in_readDir)
  then have c: "CHR ''/'' \<notin> set n" "n \<noteq> []" "n \<noteq> ''.''" "n \<noteq> ''..''" using assms(2) by (auto simp: plain_disk_def)
  have st: "\<not> starts ''/'' (n @ x)" for x using c(1,2) by (cases n) (auto simp: starts_def)
  show thesis
  proof (cases d)
    case True
    obtain l t where l: "loadableGGUF (dir @ [n]) k = (l, t)" by fastforce
    have f: "mr_file r = n @ CHR ''/'' # l" "l \<noteq> []" using e(2) True l by (auto simp: local_row_def split: if_splits)
    have "l \<in> fst ` set (readDir (dir @ [n]) k) \<and> is_gguf l" using load_loop_in l f(2) by (fastforce simp: loadableGGUF_def)
    then have l': "CHR ''/'' \<notin> set l" "is_gguf l" using assms(2) n by (auto simp: plain_disk_def readDir_def)
    have "is_gguf (mr_file r)" using is_gguf_append[OF l'(2), of "n @ ''/''"] f(1) by simp
    moreover have "split_on CHR ''/'' (mr_file r) = [n, l]" unfolding f(1) split_on_append using split_on_free[OF c(1)] split_on_free[OF l'(1)] by simp
    ultimately show ?thesis using that[OF n] c f st[of "CHR ''/'' # l"] by auto
  next
    case False
    then have "mr_file r = n" "is_gguf n" using e(2) by (auto simp: local_row_def split: if_splits)
    then show ?thesis using that[OF n] c split_on_free[OF c(1)] st[of "[]"] by auto
  qed
qed

lemma RemoveAll_free: "\<forall>p. under t p \<longrightarrow> \<not> stuck p \<Longrightarrow> RemoveAll stuck t k = (True, cleared t k)"
proof -
  assume h: "\<forall>p. under t p \<longrightarrow> \<not> stuck p"
  have "filter (\<lambda>(p, c). under t p \<and> stuck p) (dk_files k) = []" "filter (\<lambda>(p, c). \<not> under t p \<or> stuck p) (dk_files k) = filter (\<lambda>(p, c). \<not> under t p) (dk_files k)"
    using h by (auto simp: filter_empty_conv intro!: filter_cong)
  then show ?thesis by (simp add: RemoveAll_def cleared_def Let_def)
qed

lemma delete_row:
  assumes "plain_disk dir k" "n \<in> set (children dir k)" "is_gguf f" "split_on CHR ''/'' f = [n] \<or> (\<exists>l. l \<noteq> [] \<and> split_on CHR ''/'' f = [n, l])"
    "n \<noteq> []" "n \<noteq> ''.''" "n \<noteq> ''..''" "\<not> starts ''/'' f" "TrimSpace f = f" "\<not> contains f ''..''" "\<forall>p. under (dir @ [n]) p \<longrightarrow> \<not> stuck p"
  shows "modelsDelete stuck dir (Some f) k = (Deleted n, cleared (dir @ [n]) k)"
proof -
  have "n \<noteq> ''/''" using assms(1,2) by (auto simp: plain_disk_def)
  then have s: "sub dir n = dir @ [n]" using assms(5-7) by (simp add: sub_def)
  have h: "split_on CHR ''/'' f ! 0 = n" using assms(4) by auto
  have p: "(length (split_on CHR ''/'' f) = 1 \<and> n \<noteq> []) \<or> (length (split_on CHR ''/'' f) = 2 \<and> n \<noteq> [] \<and> split_on CHR ''/'' f ! 1 \<noteq> [])"
    using assms(4,5) by auto
  have g: "\<not> (f = [] \<or> \<not> is_gguf f \<or> contains f ''..'' \<or> starts ''/'' f)" using assms(3,8,10) is_gguf_nonempty by blast
  show ?thesis unfolding modelsDelete_def option.case Let_def assms(9) h s RemoveAll_free[OF assms(11)] using g p children_present[OF assms(2)]
    by (simp only: if_True if_False prod.case not_False_eq_True not_True_eq_False if_not_P if_P)
qed

text \<open>
  C19. Deleting a model that is listed takes it off the list and nothing else. Asking for the file of a listed row, the name of whose folder or file does not begin with white space, is refused
  when two dots are in it; otherwise, with nothing in use below its entry of the directory, the answer is that it was deleted, the rows that come of that entry are gone and every other row of the list is left, in its place.
\<close>

theorem delete_unlists:
  assumes "plain_disk dir k" "r \<in> set (localModels dir k)" "\<not> blank_start (mr_file r)" "n = hd (split_on CHR ''/'' (mr_file r))"
    "\<forall>p. under (dir @ [n]) p \<longrightarrow> \<not> stuck p"
  shows "if contains (mr_file r) ''..'' then modelsDelete stuck dir (Some (mr_file r)) k = (DelBad, k)
    else \<exists>k'. modelsDelete stuck dir (Some (mr_file r)) k = (Deleted n, k') \<and>
      map mr_file (localModels dir k') = filter (\<lambda>f. hd (split_on CHR ''/'' f) \<noteq> n) (map mr_file (localModels dir k)) \<and>
      mr_file r \<notin> set (map mr_file (localModels dir k'))"
proof -
  have n: "n \<in> set (children dir k)" "is_gguf (mr_file r)"
    "split_on CHR ''/'' (mr_file r) = [n] \<or> (\<exists>l. l \<noteq> [] \<and> split_on CHR ''/'' (mr_file r) = [n, l])" "n \<noteq> []" "n \<noteq> ''.''" "n \<noteq> ''..''" "\<not> starts ''/'' (mr_file r)"
    by (rule row_parts[OF assms(2,1)]; use assms(4) in auto)+
  have t: "TrimSpace (mr_file r) = mr_file r" by (rule TrimSpace_model[OF n(2) assms(3)])
  show ?thesis
  proof (cases "contains (mr_file r) ''..''")
    case True
    then show ?thesis by (simp add: modelsDelete_def Let_def t)
  next
    case False
    have "modelsDelete stuck dir (Some (mr_file r)) k = (Deleted n, cleared (dir @ [n]) k)"
      by (rule delete_row[OF assms(1) n t False assms(5)])
    moreover have "mr_file r \<notin> set (map mr_file (localModels dir (cleared (dir @ [n]) k)))" unfolding rows_cleared[OF assms(1), of n] using assms(4) by simp
    ultimately show ?thesis using rows_cleared[OF assms(1), of n] unfolding if_not_P[OF False] by blast
  qed
qed

theorem delete_unlists_witness:
  "\<exists>k'. modelsDelete (\<lambda>_. False) demo_dir (Some ''m/m-1-of-2.gguf'') demo_disk = (Deleted ''m'', k') \<and> map mr_file (localModels demo_dir k') = [''n.gguf'']"
proof -
  have p: "plain_disk demo_dir demo_disk" "\<not> contains ''m/m-1-of-2.gguf'' ''..''" "\<not> blank_start ''m/m-1-of-2.gguf''" "''m'' = hd (split_on CHR ''/'' ''m/m-1-of-2.gguf'')" by code_simp+
  have l: "map mr_file (localModels demo_dir demo_disk) = [''m/m-1-of-2.gguf'', ''n.gguf'']" by code_simp
  then obtain r where r: "r \<in> set (localModels demo_dir demo_disk)" "mr_file r = ''m/m-1-of-2.gguf''" by (cases "localModels demo_dir demo_disk") auto
  have "\<exists>k'. modelsDelete (\<lambda>_. False) demo_dir (Some ''m/m-1-of-2.gguf'') demo_disk = (Deleted ''m'', k') \<and>
      map mr_file (localModels demo_dir k') = filter (\<lambda>f. hd (split_on CHR ''/'' f) \<noteq> ''m'') (map mr_file (localModels demo_dir demo_disk))"
    using delete_unlists[OF p(1) r(1) p(3)[folded r(2)] p(4)[folded r(2)], of "\<lambda>_. False"] unfolding r(2) if_not_P[OF p(2)] by blast
  then show ?thesis using l by auto
qed

text \<open>
  Folders that begin with white space are beyond the panel. A folder listed with a blank at its start cannot be deleted: the name is trimmed before it is looked for, so when there is a model of the trimmed
  name it is that one that is deleted.
\<close>

theorem blank_folder_misses:
  assumes "k = \<lparr>dk_files = [([''models'', '' m'', ''a.gguf''], ''x''), ([''models'', ''m'', ''b.gguf''], ''y'')], dk_dirs = [[''models''], [''models'', '' m''], [''models'', ''m'']]\<rparr>"
  shows "map mr_file (localModels [''models''] k) = ['' m/a.gguf'', ''m/b.gguf''] \<and> fst (modelsDelete (\<lambda>_. False) [''models''] (Some '' m/a.gguf'') k) = Deleted ''m'' \<and>
    map mr_file (localModels [''models''] (snd (modelsDelete (\<lambda>_. False) [''models''] (Some '' m/a.gguf'') k))) = ['' m/a.gguf'']"
  unfolding assms by code_simp

text \<open>
  Deleting a split model that lies flat in the directory removes its first part only. The list shows such a model as one row with the size of all its parts, but
  the deletion of that row leaves the others on the disk, and no row is left to delete them with.
\<close>

theorem flat_parts_left:
  assumes "plain_disk dir k" "r \<in> set (localModels dir k)" "\<not> contains (mr_file r) ''..''" "\<not> blank_start (mr_file r)" "splitPartRe (mr_file r) = Some (m, i, t)"
    "hd (split_on CHR ''/'' (mr_file r)) = mr_file r"
    "splitPartRe n2 = Some (m, i2, t)" "digits_val i2 \<noteq> 1" "mr_file r \<noteq> n2" "map_of (dk_files k) (dir @ [n2]) = Some c" "dir @ [n2] \<notin> set (dk_dirs k)" "CHR ''/'' \<notin> set n2"
  shows "\<exists>n k'. modelsDelete (\<lambda>_. False) dir (Some (mr_file r)) k = (Deleted n, k') \<and> map_of (dk_files k') (dir @ [n2]) = Some c \<and>
    n2 \<notin> set (map mr_file (localModels dir k'))"
proof -
  obtain n where n: "n \<in> set (children dir k)" "is_gguf (mr_file r)"
    "split_on CHR ''/'' (mr_file r) = [n] \<or> (\<exists>l. l \<noteq> [] \<and> split_on CHR ''/'' (mr_file r) = [n, l])" "n \<noteq> []" "n \<noteq> ''.''" "n \<noteq> ''..''" "\<not> starts ''/'' (mr_file r)"
    by (rule row_parts[OF assms(2,1)])
  have e: "n = mr_file r" using n(3) assms(6) by auto
  have d: "modelsDelete (\<lambda>_. False) dir (Some (mr_file r)) k = (Deleted n, cleared (dir @ [n]) k)"
    by (rule delete_row[OF assms(1) n TrimSpace_model[OF n(2) assms(4)] assms(3)]) simp
  have f: "map_of (dk_files (cleared (dir @ [n]) k)) (dir @ [n2]) = Some c" using entry_cleared(2)[of n2 n dir k] e assms(9,10) by simp
  have "n2 \<noteq> mr_file x" if x: "x \<in> set (localModels dir k)" for x
  proof
    assume eq: "n2 = mr_file x"
    obtain a b z where a: "(a, b, z) \<in> set (readDir dir k)" "x \<in> set (local_row dir k (a, b, z))" using x by (auto simp: localModels_def)
    have "hd (split_on CHR ''/'' n2) = a" using row_name[OF a(2,1) assms(1)] eq by simp
    then have "a = n2" using split_on_free[OF assms(12)] by simp
    then have "\<not> b" using a(1) assms(11) by (simp add: in_readDir)
    then show False using a(2) \<open>a = n2\<close> assms(7,8) by (auto simp: local_row_def split: if_splits)
  qed
  then have "n2 \<notin> set (map mr_file (localModels dir (cleared (dir @ [n]) k)))" using rows_cleared[OF assms(1), of n] by auto
  then show ?thesis using d f by auto
qed

definition flat_disk :: disk where
  "flat_disk = \<lparr>dk_files = [([''models'', ''m-1-of-2.gguf''], ''ab''), ([''models'', ''m-2-of-2.gguf''], ''cd'')], dk_dirs = [[''models'']]\<rparr>"

theorem flat_parts_left_witness:
  "\<exists>k'. snd (modelsDelete (\<lambda>_. False) demo_dir (Some ''m-1-of-2.gguf'') flat_disk) = k' \<and> map_of (dk_files k') [''models'', ''m-2-of-2.gguf''] = Some ''cd''"
proof -
  have p: "plain_disk demo_dir flat_disk" "\<not> contains ''m-1-of-2.gguf'' ''..''" "\<not> blank_start ''m-1-of-2.gguf''" "splitPartRe ''m-1-of-2.gguf'' = Some (''m'', ''1'', ''2'')"
    "hd (split_on CHR ''/'' ''m-1-of-2.gguf'') = ''m-1-of-2.gguf''" "splitPartRe ''m-2-of-2.gguf'' = Some (''m'', ''2'', ''2'')" "digits_val ''2'' \<noteq> 1" "CHR ''/'' \<notin> set ''m-2-of-2.gguf''"
    "map_of (dk_files flat_disk) (demo_dir @ [''m-2-of-2.gguf'']) = Some ''cd''" "demo_dir @ [''m-2-of-2.gguf''] \<notin> set (dk_dirs flat_disk)" by code_simp+
  have l: "map mr_file (localModels demo_dir flat_disk) = [''m-1-of-2.gguf'']" by code_simp
  then obtain r where r: "r \<in> set (localModels demo_dir flat_disk)" "mr_file r = ''m-1-of-2.gguf''" by (cases "localModels demo_dir flat_disk") auto
  obtain n k' where d: "modelsDelete (\<lambda>_. False) demo_dir (Some ''m-1-of-2.gguf'') flat_disk = (Deleted n, k')"
    "map_of (dk_files k') (demo_dir @ [''m-2-of-2.gguf'']) = Some ''cd''"
    using flat_parts_left[OF p(1) r(1), of "''m''" "''1''" "''2''" "''m-2-of-2.gguf''" "''2''" "''cd''"] p unfolding r(2) by auto
  then show ?thesis by (simp add: demo_dir_def)
qed

end
