(* ===== verification/Engine_Control.thy ===== *)
theory Engine_Control
  imports Model_Store Training
begin

text \<open>
  \<^verbatim>\<open>internal/coordinator/control.go\<close> and \<^verbatim>\<open>modelload.go\<close>: launching and stopping engines. The processes of a host are a table by number; what the operating
  system, the peers and the disk answer are arguments. A request that stops engines takes its steps one by one, with anything in between, as it holds no lock while it kills. Paths use the slash.
\<close>


section \<open>Addresses\<close>

definition trim_prefix :: "string \<Rightarrow> string \<Rightarrow> string" where
  "trim_prefix p s = (if starts p s then drop (length p) s else s)"

definition before :: "char \<Rightarrow> string \<Rightarrow> string" where
  "before c s = takeWhile (\<lambda>x. x \<noteq> c) s"

definition hostOf :: "string \<Rightarrow> string" where
  "hostOf u = before CHR '':'' (before CHR ''/'' (trim_prefix ''https://'' (trim_prefix ''http://'' u)))"

definition itoa :: "int \<Rightarrow> string" where
  "itoa i = (if i < 0 then ''-'' @ decimal (nat (- i)) else decimal (nat i))"

definition ends_with :: "string \<Rightarrow> string \<Rightarrow> bool" where
  "ends_with e s \<longleftrightarrow> strip_end e s \<noteq> None"

definition agentBase :: "Config \<Rightarrow> string \<Rightarrow> string" where
  "agentBase cfg i = (case find (\<lambda>n. n_ID n = i) (c_Nodes cfg) of Some n \<Rightarrow> n_Agent n | None \<Rightarrow> [])"

definition hasControlAgent :: "string \<Rightarrow> bool" where
  "hasControlAgent agent \<longleftrightarrow> ends_with '':50060'' (trim_slash agent) \<or> ends_with '':1357'' (trim_slash agent)"

text \<open>\<open>addrs\<close> are the addresses of the interfaces.\<close>

definition isSelfHost :: "string list \<Rightarrow> Config \<Rightarrow> string \<Rightarrow> bool" where
  "isSelfHost addrs cfg host \<longleftrightarrow> host = [] \<or> host = ''localhost'' \<or> starts ''127.'' host \<or>
     (c_PublicURL cfg \<noteq> [] \<and> hostOf (c_PublicURL cfg) = host) \<or> host \<in> set addrs"

definition controlBaseForHost :: "Config \<Rightarrow> string \<Rightarrow> string" where
  "controlBaseForHost cfg ip =
     (case find (\<lambda>n. hostOf (n_Agent n) = ip \<and> hasControlAgent (n_Agent n)) (c_Nodes cfg) of
        Some n \<Rightarrow> trim_slash (n_Agent n)
      | None \<Rightarrow> ''http://'' @ ip @ '':1357'')"


section \<open>Processes\<close>

text \<open>\<open>procReg\<close>: the numbers of the processes that were launched, and of those seen to exit.\<close>

record procReg =
  pr_dead :: "int list"
  pr_live :: "int list"

definition recordLaunched :: "int \<Rightarrow> procReg \<Rightarrow> procReg" where
  "recordLaunched pid r = r\<lparr>pr_live := List.insert pid (pr_live r)\<rparr>"

definition markDead :: "int \<Rightarrow> procReg \<Rightarrow> procReg" where
  "markDead pid r = r\<lparr>pr_dead := List.insert pid (pr_dead r), pr_live := removeAll pid (pr_live r)\<rparr>"

definition isDead :: "int \<Rightarrow> procReg \<Rightarrow> bool" where
  "isDead pid r \<longleftrightarrow> pid \<in> set (pr_dead r)"

definition isLaunched :: "int \<Rightarrow> procReg \<Rightarrow> bool" where
  "isLaunched pid r \<longleftrightarrow> pid \<in> set (pr_live r)"

fun read_pid :: "string \<Rightarrow> int \<Rightarrow> int" where
  "read_pid [] n = n"
| "read_pid (c # s) n = (if is_digit c then read_pid s (n * 10 + (int (byte_of c) - 48)) else - 1)"

definition controlAlive :: "string \<Rightarrow> procReg \<Rightarrow> bool" where
  "controlAlive p r = (let pid = read_pid p 0 in pid \<le> 0 \<or> \<not> isDead pid r)"

definition isLlamaServer :: "string \<Rightarrow> bool" where
  "isLlamaServer exe \<longleftrightarrow> map lower_char (path_base exe) \<in> {''llama-server'', ''llama-server.exe'', ''llama-server.sh''}"

text \<open>
  A request that stops engines: all of them (no port), or those on a port. It has numbers left to look at, may have one that it will kill or one that it killed and
  has not marked yet; \<open>sp_ok\<close> and \<open>sp_killed\<close> are what it answers in the end.
\<close>

datatype stop_at = Between | Aimed int | Hit int

record stopping =
  sp_port :: "string option"
  sp_todo :: "int list"
  sp_at :: stop_at
  sp_ok :: bool
  sp_killed :: "string list"

text \<open>
  The host: every process of the table with whether this daemon is its parent, whether it still runs (a child that ended keeps its number until it is waited for) and the
  port it listens on. \<open>hs_waited\<close> are the children whose wait has returned and whose goroutine has not run on yet, \<open>hs_stops\<close> the requests under way that stop engines.
\<close>

record proc =
  po_ours :: bool
  po_runs :: bool
  po_port :: string
  po_args :: "string list"

record host_sys =
  hs_reg :: procReg
  hs_table :: "(int \<times> proc) list"
  hs_waited :: "int list"
  hs_stops :: "(nat \<times> stopping) list"

datatype launch_reply = Refused | NotStarted string | Launched int

text \<open>\<open>start\<close> is the error of the start or the number the system gives.\<close>

definition launchLlama :: "string \<Rightarrow> string list \<Rightarrow> (string, int) result \<Rightarrow> string \<Rightarrow> host_sys \<Rightarrow> launch_reply \<times> host_sys" where
  "launchLlama exe args start port h =
     (if \<not> isLlamaServer exe then (Refused, h)
      else case start of
             Inl e \<Rightarrow> (NotStarted e, h)
           | Inr pid \<Rightarrow>
               (Launched pid, h\<lparr>hs_table := AList.update pid \<lparr>po_ours = True, po_runs = True, po_port = port, po_args = args\<rparr> (hs_table h),
                  hs_reg := recordLaunched pid (hs_reg h)\<rparr>))"

text \<open>\<open>kill -9\<close>: it fails when there is no such process or it may not be killed.\<close>

definition ended :: "int \<Rightarrow> host_sys \<Rightarrow> host_sys" where
  "ended pid h =
     (case map_of (hs_table h) pid of
        None \<Rightarrow> h
      | Some p \<Rightarrow>
          if po_ours p then h\<lparr>hs_table := AList.update pid (p\<lparr>po_runs := False\<rparr>) (hs_table h)\<rparr>
          else h\<lparr>hs_table := AList.delete pid (hs_table h)\<rparr>)"

definition killPID :: "(int \<Rightarrow> bool) \<Rightarrow> int \<Rightarrow> host_sys \<Rightarrow> bool \<times> host_sys" where
  "killPID may pid h = (if map_of (hs_table h) pid = None \<or> \<not> may pid then (False, h) else (True, ended pid h))"

text \<open>\<open>livePIDs\<close> copies the tracked numbers under the lock, in the order of a Go map, which is any.\<close>

definition livePIDs :: "procReg \<Rightarrow> int list \<Rightarrow> bool" where
  "livePIDs r pids \<longleftrightarrow> distinct pids \<and> set pids = set (pr_live r)"

definition ejectOwnLlama :: "int list \<Rightarrow> stopping" where
  "ejectOwnLlama pids = \<lparr>sp_port = None, sp_todo = pids, sp_at = Between, sp_ok = True, sp_killed = []\<rparr>"

text \<open>\<open>pids\<close> are the numbers in the answer of \<^verbatim>\<open>lsof\<close> or \<^verbatim>\<open>netstat\<close>, which may be anything.\<close>

definition killLlamaByPort :: "string \<Rightarrow> int list \<Rightarrow> stopping" where
  "killLlamaByPort port pids = \<lparr>sp_port = Some port, sp_todo = pids, sp_at = Between, sp_ok = True, sp_killed = []\<rparr>"

text \<open>
  The steps: the next number, which by port is looked up under the lock and left alone when it is not tracked; the kill, whose failure by port is not looked at; the mark.
\<close>

definition tryKill :: "int \<Rightarrow> procReg \<Rightarrow> stop_at" where
  "tryKill pid r = (if \<not> isLaunched pid r then Between else Aimed pid)"

definition stop_next :: "procReg \<Rightarrow> stopping \<Rightarrow> stopping option" where
  "stop_next r p =
     (case (sp_at p, sp_todo p) of
        (Between, pid # pids) \<Rightarrow> Some (p\<lparr>sp_todo := pids, sp_at := (if sp_port p = None then Aimed pid else tryKill pid r)\<rparr>)
      | _ \<Rightarrow> None)"

definition stop_kill :: "bool \<Rightarrow> stopping \<Rightarrow> host_sys \<Rightarrow> (stopping \<times> host_sys) option" where
  "stop_kill may p h =
     (case sp_at p of
        Aimed pid \<Rightarrow>
          (case killPID (\<lambda>_. may) pid h of
             (done, h) \<Rightarrow> Some (if done \<or> sp_port p \<noteq> None then p\<lparr>sp_at := Hit pid\<rparr> else p\<lparr>sp_at := Between, sp_ok := False\<rparr>, h))
      | _ \<Rightarrow> None)"

definition stop_mark :: "stopping \<Rightarrow> procReg \<Rightarrow> (stopping \<times> procReg) option" where
  "stop_mark p r =
     (case sp_at p of
        Hit pid \<Rightarrow> Some (p\<lparr>sp_at := Between, sp_killed := sp_killed p @ (if sp_port p = None then [] else [itoa pid])\<rparr>, markDead pid r)
      | _ \<Rightarrow> None)"

definition stop_over :: "stopping \<Rightarrow> bool" where
  "stop_over p \<longleftrightarrow> sp_at p = Between \<and> sp_todo p = []"


section \<open>Models this coordinator launched\<close>

record loadedModel =
  lm_Endpoint :: string
  lm_Model :: string
  lm_Node :: string
  lm_Mode :: string
  lm_Layers :: int

type_synonym loadedReg = "(string \<times> loadedModel) list"

definition recordLoaded :: "loadedModel \<Rightarrow> loadedReg \<Rightarrow> loadedReg" where
  "recordLoaded m r = AList.update (lm_Endpoint m) m r"

definition dropLoaded :: "string \<Rightarrow> loadedReg \<Rightarrow> loadedReg" where
  "dropLoaded ep r = AList.delete ep r"

definition loadedModels :: "loadedReg \<Rightarrow> loadedModel list" where
  "loadedModels r = map snd r"

text \<open>\<open>n\<close> is what \<^verbatim>\<open>modelLayers\<close> read.\<close>

definition setLoadedLayers :: "string \<Rightarrow> int \<Rightarrow> loadedReg \<Rightarrow> loadedReg" where
  "setLoadedLayers ep n r =
     (if n = 0 then r else case map_of r ep of Some m \<Rightarrow> AList.update ep (m\<lparr>lm_Layers := n\<rparr>) r | None \<Rightarrow> r)"

text \<open>\<open>atoi\<close> is \<^verbatim>\<open>strconv.Atoi\<close>, \<open>None\<close> for an error.\<close>

definition endpoint_port :: "(string \<Rightarrow> int option) \<Rightarrow> string \<Rightarrow> int option" where
  "endpoint_port atoi ep =
     (if CHR '':'' \<in> set ep
      then (case atoi (last (split_on CHR '':'' ep)) of Some p \<Rightarrow> if p > 0 then Some p else None | None \<Rightarrow> None)
      else None)"

definition used_ports :: "(string \<Rightarrow> int option) \<Rightarrow> loadedReg \<Rightarrow> int list" where
  "used_ports atoi r = List.map_filter (\<lambda>m. endpoint_port atoi (lm_Endpoint m)) (loadedModels r)"

definition nextLoadPort :: "(string \<Rightarrow> int option) \<Rightarrow> loadedReg \<Rightarrow> int" where
  "nextLoadPort atoi r = (case find (\<lambda>p. p \<notin> set (used_ports atoi r)) [1358..1399] of Some p \<Rightarrow> p | None \<Rightarrow> 1358)"


section \<open>Placement\<close>

record gpu =
  gp_idx :: int
  gp_total :: float64
  gp_used :: float64

definition gpu_free :: "gpu \<Rightarrow> float64" where
  "gpu_free g = gp_total g - gp_used g"

definition gpu_busy :: "gpu \<Rightarrow> bool" where
  "gpu_busy g \<longleftrightarrow> gpu_free g < 2000 \<or> (gp_total g > 0 \<and> gpu_free g < gp_total g * (30 / 100))"

definition gpu_part :: "gpu \<Rightarrow> string" where
  "gpu_part g = (if gpu_busy g then ''0'' else itoa (go_int (gpu_free g / 1024)))"

fun freest :: "gpu list \<Rightarrow> float64 \<Rightarrow> int \<Rightarrow> int" where
  "freest [] best m = m"
| "freest (g # gs) best m = (if gpu_free g > best then freest gs (gpu_free g) (gp_idx g) else freest gs best m)"

fun joined :: "string list \<Rightarrow> string" where
  "joined [] = []"
| "joined [x] = x"
| "joined (x # xs) = x @ '','' @ joined xs"

definition gpuPlacement :: "bool \<Rightarrow> string \<Rightarrow> gpu list \<Rightarrow> int \<times> string" where
  "gpuPlacement reversed base gpus =
     (if base = [] \<or> gpus = [] then (- 1, [])
      else
        let parts = map gpu_part gpus;
            main = freest gpus (- 1) (- 1);
            turn = reversed \<and> length gpus > 1;
            main = (if turn then int (length gpus) - 1 - main else main);
            parts = (if turn then rev parts else parts)
        in (main, if length gpus > 1 \<and> list_ex (\<lambda>g. \<not> gpu_busy g) gpus then joined parts else []))"

text \<open>The engines of the host: a variable, the configuration, the candidates next to the binary, the search path.\<close>

definition exe_path :: "string \<Rightarrow> string \<Rightarrow> string list \<Rightarrow> (string \<Rightarrow> bool) \<Rightarrow> string option \<Rightarrow> string \<Rightarrow> string" where
  "exe_path env cfg cands isfile look name =
     (if env \<noteq> [] then env
      else if cfg \<noteq> [] then cfg
      else case find isfile cands of Some c \<Rightarrow> c | None \<Rightarrow> (case look of Some p \<Rightarrow> p | None \<Rightarrow> name))"

record exe_env =
  xe_llama :: string
  xe_rpc :: string
  xe_rpccfg :: string
  xe_windows :: bool
  xe_exedir :: "string option"
  xe_home :: "string option"
  xe_isfile :: "string \<Rightarrow> bool"
  xe_look :: "string \<Rightarrow> string option"
  xe_models :: string
  xe_hostmodels :: string
  xe_slotdir :: string

definition bundle_cands :: "exe_env \<Rightarrow> string \<Rightarrow> string list" where
  "bundle_cands xe name =
     (case xe_exedir xe of
        Some d \<Rightarrow> [path_join d name, path_join (path_join d ''inference'') name, path_join (path_join d ''llama'') name, path_join (path_join d ''bin'') name]
      | None \<Rightarrow> [])"

definition llamaExePath :: "exe_env \<Rightarrow> Config \<Rightarrow> string" where
  "llamaExePath xe cfg =
     (let name = (if xe_windows xe then ''llama-server.exe'' else ''llama-server'');
          home = (case xe_home xe of Some h \<Rightarrow> [path_join (path_join (path_join (path_join h ''.docker'') ''bin'') ''inference'') name] | None \<Rightarrow> [])
      in exe_path (xe_llama xe) (c_LlamaExe cfg) (bundle_cands xe name @ home) (xe_isfile xe) (xe_look xe name) name)"

definition rpcExePath :: "exe_env \<Rightarrow> string" where
  "rpcExePath xe =
     (let name = (if xe_windows xe then ''ggml-rpc-server.exe'' else ''ggml-rpc-server'')
      in exe_path (xe_rpc xe) (xe_rpccfg xe) (bundle_cands xe name) (xe_isfile xe) (xe_look xe name) name)"

definition hostModelsDir :: "exe_env \<Rightarrow> Config \<Rightarrow> string" where
  "hostModelsDir xe cfg =
     (if xe_hostmodels xe \<noteq> [] then xe_hostmodels xe
      else if c_ModelsHostDir cfg \<noteq> [] then c_ModelsHostDir cfg
      else xe_models xe)"

definition rpcPort :: int where "rpcPort = 50052"


section \<open>Loading\<close>

record loadNode =
  ln_ID :: string
  ln_GPUs :: int

record loadReq =
  lr_File :: string
  lr_Mode :: string
  lr_Nodes :: "loadNode list"
  lr_Main :: string
  lr_Ctx :: int
  lr_Port :: int
  lr_NGL :: int
  lr_DryRun :: bool

definition maxi :: "int \<Rightarrow> int \<Rightarrow> int" where
  "maxi a b = (if a > b then a else b)"

text \<open>The file under the directory of models, when the name is one.\<close>

definition model_rel :: "string \<Rightarrow> string option" where
  "model_rel f =
     (let rel = trim_prefix ''/'' (TrimSpace f)
      in if rel = [] \<or> contains rel ''..'' \<or> length (split_on CHR ''/'' rel) > 2 then None else Some rel)"

definition with_defaults :: "(string \<Rightarrow> int option) \<Rightarrow> loadedReg \<Rightarrow> loadReq \<Rightarrow> loadReq" where
  "with_defaults atoi reg q =
     q\<lparr>lr_Mode := (if lr_Mode q = [] then ''individual'' else lr_Mode q),
       lr_Ctx := (if lr_Ctx q \<le> 0 then 8192 else lr_Ctx q),
       lr_Port := (if lr_Port q \<le> 0 then nextLoadPort atoi reg else lr_Port q),
       lr_NGL := (if lr_NGL q \<le> 0 then 99 else lr_NGL q),
       lr_Main := (if lr_Main q = [] \<and> lr_Nodes q \<noteq> [] then ln_ID (hd (lr_Nodes q)) else lr_Main q)\<rparr>"

definition model_alias :: "string \<Rightarrow> string" where
  "model_alias rel = (case strip_end ''.gguf'' (path_base rel) of Some t \<Rightarrow> t | None \<Rightarrow> path_base rel)"

definition base_args :: "string \<Rightarrow> string \<Rightarrow> loadReq \<Rightarrow> string list" where
  "base_args path nick q =
     [''-m'', path, ''--host'', ''0.0.0.0'', ''--port'', itoa (lr_Port q), ''-ngl'', itoa (lr_NGL q), ''-c'', itoa (lr_Ctx q), ''--jinja'', ''-a'', nick]"

definition place_args :: "(string \<Rightarrow> int \<times> string) \<Rightarrow> loadReq \<Rightarrow> string list" where
  "place_args place q =
     (if lr_NGL q > 0 \<and> lr_Mode q \<noteq> ''union''
      then let (mg, split) = place (lr_Main q)
           in if mg \<ge> 0 then [''--main-gpu'', itoa mg] @ (if split \<noteq> [] then [''--tensor-split'', split] else []) else []
      else [])"

definition union_workers :: "Config \<Rightarrow> loadReq \<Rightarrow> string list" where
  "union_workers cfg q =
     List.map_filter (\<lambda>n. if ln_ID n = lr_Main q then None
                          else let ip = hostOf (agentBase cfg (ln_ID n)) in if ip = [] then None else Some (ip @ '':'' @ itoa rpcPort)) (lr_Nodes q)"

definition union_split :: "loadReq \<Rightarrow> string list" where
  "union_split q = map (\<lambda>n. itoa (maxi (ln_GPUs n) 1)) (lr_Nodes q)"

definition union_args :: "Config \<Rightarrow> loadReq \<Rightarrow> string list" where
  "union_args cfg q =
     (if lr_Mode q = ''union''
      then (if union_workers cfg q \<noteq> [] then [''--rpc'', joined (union_workers cfg q)] else []) @ [''--tensor-split'', joined (union_split q)]
      else [])"

text \<open>The plan that is sent back; \<open>lp_union\<close> has the workers, the split and the worker's engine.\<close>

datatype blocked = NeedsWorkers int | NoControl

record load_plan =
  lp_mode :: string
  lp_main :: string
  lp_model :: string
  lp_union :: "(string list \<times> string list \<times> string) option"
  lp_exe :: string
  lp_args :: "string list"
  lp_endpoint :: string
  lp_can_launch :: bool
  lp_local :: bool
  lp_launched :: bool
  lp_blocked :: "blocked option"

datatype load_error = NoFile | BadModelName string | NotDownloaded string | NoMain

datatype load_reply = BadLoad load_error | Planned load_plan | LoadFailed load_plan string

record load_env =
  le_atoi :: "string \<Rightarrow> int option"
  le_stat :: "string \<Rightarrow> bool"
  le_exe :: exe_env
  le_addrs :: "string list"
  le_gpus :: "string \<Rightarrow> gpu list"
  le_start :: "(string, int) result"
  le_agent :: "string \<Rightarrow> string \<Rightarrow> string list \<Rightarrow> (string, bool) result"

definition load_args :: "load_env \<Rightarrow> Config \<Rightarrow> loadReq \<Rightarrow> string \<Rightarrow> string list" where
  "load_args env cfg q rel =
     base_args (path_join (hostModelsDir (le_exe env) cfg) rel) (model_alias rel) q @
     place_args (\<lambda>n. gpuPlacement (c_GPUIndexReversed cfg) (agentBase cfg n) (le_gpus env n)) q @ union_args cfg q"

definition plan_load :: "load_env \<Rightarrow> Config \<Rightarrow> loadReq \<Rightarrow> string \<Rightarrow> load_plan" where
  "plan_load env cfg q rel =
     (let agent = agentBase cfg (lr_Main q); here = isSelfHost (le_addrs env) cfg (hostOf agent)
      in \<lparr>lp_mode = lr_Mode q, lp_main = lr_Main q, lp_model = rel,
          lp_union = (if lr_Mode q = ''union'' then Some (union_workers cfg q, union_split q, rpcExePath (le_exe env)) else None),
          lp_exe = llamaExePath (le_exe env) cfg, lp_args = load_args env cfg q rel, lp_endpoint = ''http://'' @ hostOf agent @ '':'' @ itoa (lr_Port q),
          lp_can_launch = ((here \<or> hasControlAgent agent) \<and> lr_Mode q = ''individual''), lp_local = here, lp_launched = False, lp_blocked = None\<rparr>)"

definition why_blocked :: "load_plan \<Rightarrow> blocked option" where
  "why_blocked plan = (if lp_mode plan = ''union'' then Some (NeedsWorkers rpcPort) else if \<not> lp_local plan then Some NoControl else None)"

definition load_entry :: "loadReq \<Rightarrow> string \<Rightarrow> load_plan \<Rightarrow> loadedModel" where
  "load_entry q rel plan = \<lparr>lm_Endpoint = lp_endpoint plan, lm_Model = model_alias rel, lm_Node = lr_Main q, lm_Mode = lr_Mode q, lm_Layers = 0\<rparr>"

definition fire_load :: "load_env \<Rightarrow> Config \<Rightarrow> loadReq \<Rightarrow> string \<Rightarrow> load_plan \<Rightarrow> loadedReg \<Rightarrow> host_sys \<Rightarrow> load_reply \<times> loadedReg \<times> host_sys" where
  "fire_load env cfg q rel plan reg h =
     (if lr_DryRun q \<or> \<not> lp_can_launch plan then (Planned (plan\<lparr>lp_blocked := why_blocked plan\<rparr>), reg, h)
      else if lp_local plan
      then (case launchLlama (lp_exe plan) (withSlotSavePath (xe_slotdir (le_exe env)) (lp_args plan)) (le_start env) (itoa (lr_Port q)) h of
              (Launched pid, h) \<Rightarrow> (Planned (plan\<lparr>lp_launched := True\<rparr>), recordLoaded (load_entry q rel plan) reg, h)
            | (r, h) \<Rightarrow> (Planned plan, reg, h))
      else (case le_agent env (agentBase cfg (lr_Main q)) (lp_exe plan) (lp_args plan) of
              Inl e \<Rightarrow> (LoadFailed plan e, reg, h)
            | Inr ok \<Rightarrow>
                if ok then (Planned (plan\<lparr>lp_launched := True\<rparr>), recordLoaded (load_entry q rel plan) reg, h) else (Planned plan, reg, h)))"

definition modelsLoad ::
  "load_env \<Rightarrow> Config \<Rightarrow> loadReq option \<Rightarrow> loadedReg \<Rightarrow> host_sys \<Rightarrow> load_reply \<times> loadedReg \<times> host_sys" where
  "modelsLoad env cfg req reg h =
     (case req of
        None \<Rightarrow> (BadLoad NoFile, reg, h)
      | Some q \<Rightarrow>
          if lr_File q = [] then (BadLoad NoFile, reg, h)
          else case model_rel (lr_File q) of
                 None \<Rightarrow> (BadLoad (BadModelName (lr_File q)), reg, h)
               | Some rel \<Rightarrow>
                   if \<not> le_stat env (path_join (xe_models (le_exe env)) rel) then (BadLoad (NotDownloaded rel), reg, h)
                   else
                     let q = with_defaults (le_atoi env) reg q
                     in if lr_Main q = [] then (BadLoad NoMain, reg, h)
                        else fire_load env cfg q rel (plan_load env cfg q rel) reg h)"


section \<open>Ejecting\<close>

text \<open>
  \<open>hostport\<close> is \<^verbatim>\<open>hostPort\<close> of \<^verbatim>\<open>hop.go\<close>, the host of the parsed address. An endpoint is stopped by a request by port on this host, by one that another node is asked for, or,
  without a port, by nobody; its entry is dropped when that is over.
\<close>

datatype eject_plan = NoPort | StopHere stopping | AskNode string

definition ejectEndpoint :: "(string \<Rightarrow> string) \<Rightarrow> string list \<Rightarrow> int list \<Rightarrow> Config \<Rightarrow> string \<Rightarrow> eject_plan \<times> (loadedReg \<Rightarrow> loadedReg)" where
  "ejectEndpoint hostport addrs pids cfg ep =
     (let hp = hostport ep;
          port = (if hp \<noteq> [] \<and> CHR '':'' \<in> set hp then last (split_on CHR '':'' hp) else [])
      in (if port = [] then NoPort
          else if isSelfHost addrs cfg (hostOf ep) then StopHere (killLlamaByPort port pids)
          else AskNode (controlBaseForHost cfg (hostOf ep) @ ''/control/kill?port='' @ port),
          dropLoaded ep))"

definition modelsEject :: "(string \<Rightarrow> string) \<Rightarrow> string list \<Rightarrow> int list \<Rightarrow> Config \<Rightarrow> string \<Rightarrow> (eject_plan \<times> (loadedReg \<Rightarrow> loadedReg)) option" where
  "modelsEject hostport addrs pids cfg ep = (if ep = [] then None else Some (ejectEndpoint hostport addrs pids cfg ep))"

definition controlKill :: "string \<Rightarrow> int list \<Rightarrow> stopping option" where
  "controlKill port pids = (if port = [] then None else Some (killLlamaByPort port pids))"

definition kill_reply :: "stopping \<Rightarrow> bool \<times> string list" where
  "kill_reply p = (sp_killed p \<noteq> [], sp_killed p)"

text \<open>The port the engine will listen on is the one of its arguments.\<close>

definition controlLoad :: "string \<Rightarrow> (string, int) result \<Rightarrow> string \<Rightarrow> string list \<Rightarrow> string \<Rightarrow> host_sys \<Rightarrow> (nat \<times> launch_reply) \<times> host_sys" where
  "controlLoad slotdir start exe args port h =
     (case launchLlama exe (withSlotSavePath slotdir args) start port h of
        (Launched pid, h) \<Rightarrow> ((200, Launched pid), h)
      | (r, h) \<Rightarrow> ((400, r), h))"


section \<open>The processes, everything at once\<close>

text \<open>
  What happens to the processes of a host, in any order: launches, other programs that start, processes that end, waits that return, their goroutines that run on, and the
  requests that stop engines, step by step. \<open>None\<close> when an event is not possible.
\<close>

datatype host_ev =
    HLaunch string "string list" "(string, int) result" string
  | HForeign int string
  | HExit int
  | HWait int
  | HMark int
  | HEject nat "int list"
  | HKill nat string "int list"
  | HNext nat
  | HStrike nat bool
  | HStamp nat
  | HReply nat

definition put_stop :: "nat \<Rightarrow> stopping \<Rightarrow> host_sys \<Rightarrow> host_sys" where
  "put_stop j p h = h\<lparr>hs_stops := AList.update j p (hs_stops h)\<rparr>"

fun host_step :: "host_ev \<Rightarrow> host_sys \<Rightarrow> host_sys option" where
  "host_step (HLaunch exe args start port) h =
     (case start of
        Inr pid \<Rightarrow> if map_of (hs_table h) pid = None then Some (snd (launchLlama exe args start port h)) else None
      | Inl e \<Rightarrow> Some (snd (launchLlama exe args start port h)))"
| "host_step (HForeign pid port) h =
     (if map_of (hs_table h) pid = None
      then Some (h\<lparr>hs_table := AList.update pid \<lparr>po_ours = False, po_runs = True, po_port = port, po_args = []\<rparr> (hs_table h)\<rparr>)
      else None)"
| "host_step (HExit pid) h =
     (case map_of (hs_table h) pid of Some p \<Rightarrow> if po_runs p then Some (ended pid h) else None | None \<Rightarrow> None)"
| "host_step (HWait pid) h =
     (case map_of (hs_table h) pid of
        Some p \<Rightarrow> if po_ours p \<and> \<not> po_runs p then Some (h\<lparr>hs_table := AList.delete pid (hs_table h), hs_waited := hs_waited h @ [pid]\<rparr>) else None
      | None \<Rightarrow> None)"
| "host_step (HMark pid) h =
     (if pid \<in> set (hs_waited h) then Some (h\<lparr>hs_waited := remove1 pid (hs_waited h), hs_reg := markDead pid (hs_reg h)\<rparr>) else None)"
| "host_step (HEject j pids) h =
     (if map_of (hs_stops h) j = None \<and> livePIDs (hs_reg h) pids then Some (put_stop j (ejectOwnLlama pids) h) else None)"
| "host_step (HKill j port pids) h = (if map_of (hs_stops h) j = None then Some (put_stop j (killLlamaByPort port pids) h) else None)"
| "host_step (HNext j) h = Option.bind (map_of (hs_stops h) j) (\<lambda>p. map_option (\<lambda>p. put_stop j p h) (stop_next (hs_reg h) p))"
| "host_step (HStrike j may) h = Option.bind (map_of (hs_stops h) j) (\<lambda>p. map_option (\<lambda>(p, h). put_stop j p h) (stop_kill may p h))"
| "host_step (HStamp j) h = Option.bind (map_of (hs_stops h) j) (\<lambda>p. map_option (\<lambda>(p, r). put_stop j p (h\<lparr>hs_reg := r\<rparr>)) (stop_mark p (hs_reg h)))"
| "host_step (HReply j) h =
     (case map_of (hs_stops h) j of Some p \<Rightarrow> if stop_over p then Some (h\<lparr>hs_stops := AList.delete j (hs_stops h)\<rparr>) else None | None \<Rightarrow> None)"

definition host_run :: "host_ev list \<Rightarrow> host_sys \<Rightarrow> host_sys option" where
  "host_run evs h = foldl (\<lambda>h e. Option.bind h (host_step e)) (Some h) evs"


definition host_start :: "(int \<times> proc) list \<Rightarrow> host_sys" where
  "host_start table = \<lparr>hs_reg = \<lparr>pr_dead = [], pr_live = []\<rparr>, hs_table = table, hs_waited = [], hs_stops = []\<rparr>"

definition foreign :: "host_sys \<Rightarrow> int \<Rightarrow> proc option" where
  "foreign h pid = (case map_of (hs_table h) pid of Some p \<Rightarrow> if po_ours p then None else Some p | None \<Rightarrow> None)"






lemma ended_keeps [simp]: "hs_reg (ended pid h) = hs_reg h" "hs_waited (ended pid h) = hs_waited h" "hs_stops (ended pid h) = hs_stops h"
  by (simp_all add: ended_def split: option.split)


lemma kill_keeps [simp]: "hs_reg (snd (killPID may pid h)) = hs_reg h" "hs_stops (snd (killPID may pid h)) = hs_stops h"
  by (simp_all add: killPID_def)



lemma put_stop_keeps [simp]: "hs_reg (put_stop j p h) = hs_reg h" "hs_table (put_stop j p h) = hs_table h" "map_of (hs_stops (put_stop j p h)) i = (if i = j then Some p else map_of (hs_stops h) i)"
  by (simp_all add: put_stop_def update_conv')












text \<open>
  The two ways it happens. The number of an engine that ended is free as soon as its wait returns, but it is tracked until the goroutine runs on; and an ejection kills from a copy of the
  numbers, so that one of them can be marked in time, and be given away, while another is killed. Both kill the program that got the number.
\<close>

definition late_hist :: "host_ev list" where
  "late_hist = [HLaunch ''/b/llama-server'' [] (Inr 7) ''1358'', HExit 7, HWait 7, HForeign 7 ''5432'', HEject 0 [7], HNext 0]"

definition copy_hist :: "host_ev list" where
  "copy_hist = [HLaunch ''/b/llama-server'' [] (Inr 7) ''1358'', HLaunch ''/b/llama-server'' [] (Inr 8) ''1359'', HEject 0 [7, 8], HNext 0, HStrike 0 True,
     HExit 8, HWait 8, HMark 8, HForeign 8 ''5432'', HStamp 0, HNext 0]"

definition struck :: "host_ev list \<Rightarrow> int \<Rightarrow> bool" where
  "struck evs pid = (case host_run evs (host_start []) of
     Some h \<Rightarrow> foreign h pid \<noteq> None \<and> (case host_step (HStrike 0 True) h of Some h' \<Rightarrow> foreign h' pid = None | None \<Rightarrow> False) | None \<Rightarrow> False)"

theorem late_mark_kills: "struck late_hist 7 \<and> struck copy_hist 8"
  by code_simp



lemma read_pid_snoc: "list_all is_digit s \<Longrightarrow> is_digit c \<Longrightarrow> read_pid (s @ [c]) n = read_pid s n * 10 + (int (byte_of c) - 48)"
  by (induction s arbitrary: n) auto

lemma decimal_all_digits: "list_all is_digit (decimal n)"
  using decimal_digits[of _ n] by (auto simp: list_all_iff is_digit_def)

lemma read_pid_decimal: "read_pid (decimal n) 0 = int n"
proof (induction n rule: decimal.induct)
  case (1 n)
  have b: "byte_of (char_of (48 + m)) = 48 + m" "is_digit (char_of (48 + m))" if "m < 10" for m :: nat using that by (simp_all add: byte_of_def is_digit_def)
  show ?case
  proof (cases "n < 10")
    case True
    then show ?thesis using b[of n] by (simp add: decimal.simps[of n])
  next
    case False
    have m: "n mod 10 < 10" by simp
    have e: "n div 10 * 10 + n mod 10 = n" by simp
    have "read_pid (decimal n) 0 = int (n div 10) * 10 + int (n mod 10)"
      using False 1 read_pid_snoc[OF decimal_all_digits b(2)[OF m]] b(1)[OF m] by (simp add: decimal.simps[of n])
    then show ?thesis using e by linarith
  qed
qed

text \<open>
  An engine with a used number is reported dead. Once the daemon saw an engine with some number exit, a later engine that the system gives the same number is running and tracked,
  and the panel is told that it is not alive: nothing clears the record of the exit.
\<close>

theorem recycled_reported_dead:
  assumes "isDead pid (hs_reg h)" "0 < pid" "isLlamaServer exe" "host_step (HLaunch exe args (Inr pid) port) h = Some h'"
  shows "(\<exists>p. map_of (hs_table h') pid = Some p \<and> po_ours p \<and> po_runs p) \<and> isLaunched pid (hs_reg h') \<and> \<not> controlAlive (itoa pid) (hs_reg h')"
proof -
  have h': "h' = snd (launchLlama exe args (Inr pid) port h)" using assms(4) by (simp split: if_splits)
  have "read_pid (itoa pid) 0 = pid" using assms(2) read_pid_decimal[of "nat pid"] by (simp add: itoa_def)
  then show ?thesis using assms(1-3) unfolding h'
    by (simp add: launchLlama_def update_conv' recordLaunched_def isLaunched_def isDead_def controlAlive_def Let_def)
qed

theorem recycled_reported_dead_witness:
  "\<exists>h h'. host_run [HLaunch ''/b/llama-server'' [] (Inr 7) ''1358'', HExit 7, HWait 7, HMark 7] (host_start []) = Some h \<and>
     host_step (HLaunch ''/b/llama-server'' [] (Inr 7) ''1358'') h = Some h' \<and> \<not> controlAlive ''7'' (hs_reg h')"
proof -
  have r: "(case host_run [HLaunch ''/b/llama-server'' [] (Inr 7) ''1358'', HExit 7, HWait 7, HMark 7] (host_start []) of
      Some h \<Rightarrow> isDead 7 (hs_reg h) \<and> host_step (HLaunch ''/b/llama-server'' [] (Inr 7) ''1358'') h \<noteq> None | None \<Rightarrow> False)" by code_simp
  then obtain h h' where h: "host_run [HLaunch ''/b/llama-server'' [] (Inr 7) ''1358'', HExit 7, HWait 7, HMark 7] (host_start []) = Some h"
    "isDead 7 (hs_reg h)" "host_step (HLaunch ''/b/llama-server'' [] (Inr 7) ''1358'') h = Some h'" by (auto split: option.splits simp del: host_step.simps)
  have e: "isLlamaServer ''/b/llama-server''" "itoa 7 = ''7''" by code_simp+
  show ?thesis using recycled_reported_dead[OF h(2) _ e(1) h(3)] e(2) h(1,3) by (simp del: host_step.simps)
qed


section \<open>Loading\<close>

lemma clean_comps_append:
  assumes "''..'' \<notin> set ds"
  shows "clean_comps r acc (cs @ ds) = clean_comps r acc cs @ filter (\<lambda>c. c \<noteq> [] \<and> c \<noteq> ''.'') ds"
proof (induction cs arbitrary: acc)
  case Nil
  show ?case using assms by (induction ds arbitrary: acc) auto
next
  case (Cons c cs)
  then show ?case by (auto split: list.split)
qed

text \<open>A name without two dots stays below the directory it is joined to.\<close>

lemma path_join_below:
  assumes "d \<noteq> []" "rel \<noteq> []" "\<not> contains rel ''..''"
  obtains cs where "path_join d rel = render_path (is_rooted d) (path_comps d @ cs)" "''..'' \<notin> set cs" "length cs \<le> length (split_on CHR ''/'' rel)"
proof -
  have dd: "''..'' \<notin> set (split_on CHR ''/'' rel)"
    using split_on_part[of "''..''" "CHR ''/''" rel] assms(3) unfolding contains_iff by metis
  have c: "path_comps (d @ ''/'' @ rel) = path_comps d @ filter (\<lambda>c. c \<noteq> [] \<and> c \<noteq> ''.'') (split_on CHR ''/'' rel)"
    using clean_comps_append[OF dd] split_on_append[of "CHR ''/''" d rel] assms(1) by (simp add: path_comps_def is_rooted_def)
  have "is_rooted (d @ ''/'' @ rel) = is_rooted d" using assms(1) by (simp add: is_rooted_def)
  then have "path_join d rel = render_path (is_rooted d) (path_comps d @ filter (\<lambda>c. c \<noteq> [] \<and> c \<noteq> ''.'') (split_on CHR ''/'' rel))"
    using assms(1,2) c unfolding path_join_def path_clean_def by simp
  moreover have "''..'' \<notin> set (filter (\<lambda>c. c \<noteq> [] \<and> c \<noteq> ''.'') (split_on CHR ''/'' rel))" using dd by simp
  ultimately show thesis using that length_filter_le by blast
qed

text \<open>
  A node can be launched on when it is this host, which a node that is not configured is taken for, or its agent is one that has the control plane. The node, the mode and the port of a
  request are those after the defaults.
\<close>

definition launch_on :: "load_env \<Rightarrow> Config \<Rightarrow> string \<Rightarrow> bool" where
  "launch_on env cfg node \<longleftrightarrow> isSelfHost (le_addrs env) cfg (hostOf (agentBase cfg node)) \<or> hasControlAgent (agentBase cfg node)"

definition launch_sound :: "load_env \<Rightarrow> Config \<Rightarrow> loadReq \<Rightarrow> load_plan \<Rightarrow> loadedReg \<Rightarrow> loadedReg \<Rightarrow> host_sys \<Rightarrow> host_sys \<Rightarrow> bool" where
  "launch_sound env cfg q plan reg reg' h h' \<longleftrightarrow>
     (let w = with_defaults (le_atoi env) reg q; agent = agentBase cfg (lr_Main w); ep = ''http://'' @ hostOf agent @ '':'' @ itoa (lr_Port w)
      in \<not> lr_DryRun q \<and> lr_Mode w = ''individual'' \<and> launch_on env cfg (lr_Main w) \<and>
         (\<exists>rel. model_rel (lr_File q) = Some rel \<and> le_stat env (path_join (xe_models (le_exe env)) rel) \<and>
            take 2 (lp_args plan) = [''-m'', path_join (hostModelsDir (le_exe env) cfg) rel] \<and>
            (hostModelsDir (le_exe env) cfg \<noteq> [] \<longrightarrow>
              (\<exists>cs. ''..'' \<notin> set cs \<and> path_join (hostModelsDir (le_exe env) cfg) rel =
                 render_path (is_rooted (hostModelsDir (le_exe env) cfg)) (path_comps (hostModelsDir (le_exe env) cfg) @ cs)))) \<and>
         (if isSelfHost (le_addrs env) cfg (hostOf agent)
          then \<exists>pid. le_start env = Inr pid \<and> isLlamaServer (lp_exe plan) \<and> isLaunched pid (hs_reg h') \<and>
                 map_of (hs_table h') pid = Some \<lparr>po_ours = True, po_runs = True, po_port = itoa (lr_Port w), po_args = withSlotSavePath (xe_slotdir (le_exe env)) (lp_args plan)\<rparr>
          else h' = h \<and> le_agent env agent (lp_exe plan) (lp_args plan) = Inr True) \<and>
         (\<forall>e. (map_of reg' e \<noteq> None \<longleftrightarrow> e = ep \<or> map_of reg e \<noteq> None) \<and> (e \<noteq> ep \<longrightarrow> map_of reg' e = map_of reg e)))"

lemma model_rel_below:
  assumes "model_rel f = Some rel" "d \<noteq> []"
  shows "\<exists>cs. ''..'' \<notin> set cs \<and> path_join d rel = render_path (is_rooted d) (path_comps d @ cs)"
proof -
  have "rel \<noteq> []" "\<not> contains rel ''..''" using assms(1) by (auto simp: model_rel_def Let_def split: if_splits)
  then obtain cs where "path_join d rel = render_path (is_rooted d) (path_comps d @ cs)" "''..'' \<notin> set cs"
    by (rule path_join_below[OF assms(2)])
  then show ?thesis by blast
qed

lemma recordLoaded_get: "map_of (recordLoaded m r) ep = (if ep = lm_Endpoint m then Some m else map_of r ep)"
  by (simp add: recordLoaded_def update_conv')

text \<open>
  C23. What a request to load a model can do. Nothing is launched and nothing is recorded unless the name, without two dots, is one that \<^verbatim>\<open>os.Stat\<close> finds below the directory of models, the mode is
  individual, the request is not a rehearsal and the main node is this host, which one that is not configured counts as, or has an agent with the control plane. Then the engine gets the path of that name below the
  directory of the host: on this host it is a new, tracked process with these arguments, elsewhere the agent was asked for exactly that and agreed; and exactly its endpoint is recorded. In every other
  case nothing changes, and no other process ever does.
\<close>

theorem modelsLoad_sound:
  assumes "modelsLoad env cfg req reg h = (reply, reg', h')" "\<And>pid. le_start env = Inr pid \<Longrightarrow> map_of (hs_table h) pid = None"
  shows "(case reply of
      Planned plan \<Rightarrow> if lp_launched plan then \<exists>q. req = Some q \<and> launch_sound env cfg q plan reg reg' h h' else reg' = reg \<and> h' = h
    | _ \<Rightarrow> reg' = reg \<and> h' = h) \<and> (\<forall>pid p. map_of (hs_table h) pid = Some p \<longrightarrow> map_of (hs_table h') pid = Some p)"
proof (cases "\<exists>q rel. req = Some q \<and> lr_File q \<noteq> [] \<and> model_rel (lr_File q) = Some rel \<and> le_stat env (path_join (xe_models (le_exe env)) rel) \<and>
    lr_Main (with_defaults (le_atoi env) reg q) \<noteq> []")
  case False
  then have "reply \<in> range BadLoad \<and> reg' = reg \<and> h' = h" using assms(1)
    by (auto simp: modelsLoad_def Let_def split: option.splits if_splits)
  then show ?thesis by auto
next
  case True
  then obtain q rel where q: "req = Some q" "lr_File q \<noteq> []" "model_rel (lr_File q) = Some rel"
    "le_stat env (path_join (xe_models (le_exe env)) rel)" "lr_Main (with_defaults (le_atoi env) reg q) \<noteq> []" by blast
  define w where "w = with_defaults (le_atoi env) reg q"
  define plan where "plan = plan_load env cfg w rel"
  define entry where "entry = load_entry w rel plan"
  define agent where "agent = agentBase cfg (lr_Main w)"
  have eq: "modelsLoad env cfg req reg h = fire_load env cfg w rel plan reg h"
    unfolding modelsLoad_def q(1) option.case if_not_P[OF q(2)] q(3) Let_def w_def[symmetric] plan_def[symmetric]
    using q(4,5) unfolding w_def[symmetric] by simp
  have t: "take 2 (load_args env cfg w rel) = [''-m'', path_join (hostModelsDir (le_exe env) cfg) rel]" by (simp add: load_args_def base_args_def)
  have p: "\<not> lp_launched plan" "lp_args plan = load_args env cfg w rel" "lp_can_launch plan \<longleftrightarrow> launch_on env cfg (lr_Main w) \<and> lr_Mode w = ''individual''"
    "lm_Endpoint entry = ''http://'' @ hostOf agent @ '':'' @ itoa (lr_Port w)" "lp_local plan = isSelfHost (le_addrs env) cfg (hostOf agent)"
    by (simp_all add: plan_def plan_load_def Let_def entry_def load_entry_def launch_on_def agent_def)
  have d: "lr_DryRun w = lr_DryRun q" by (simp add: w_def with_defaults_def)
  have s: "launch_sound env cfg q (plan\<lparr>lp_launched := True\<rparr>) reg (recordLoaded entry reg) h g"
    if "\<not> lr_DryRun w" "lp_can_launch plan"
      "if lp_local plan then \<exists>pid. le_start env = Inr pid \<and> isLlamaServer (lp_exe plan) \<and> isLaunched pid (hs_reg g) \<and>
                 map_of (hs_table g) pid = Some \<lparr>po_ours = True, po_runs = True, po_port = itoa (lr_Port w), po_args = withSlotSavePath (xe_slotdir (le_exe env)) (lp_args plan)\<rparr>
          else g = h \<and> le_agent env agent (lp_exe plan) (lp_args plan) = Inr True" for g
  proof -
    have found: "\<exists>rel. model_rel (lr_File q) = Some rel \<and> le_stat env (path_join (xe_models (le_exe env)) rel) \<and>
            take 2 (lp_args plan) = [''-m'', path_join (hostModelsDir (le_exe env) cfg) rel] \<and>
            (hostModelsDir (le_exe env) cfg \<noteq> [] \<longrightarrow>
              (\<exists>cs. ''..'' \<notin> set cs \<and> path_join (hostModelsDir (le_exe env) cfg) rel =
                 render_path (is_rooted (hostModelsDir (le_exe env) cfg)) (path_comps (hostModelsDir (le_exe env) cfg) @ cs)))"
      using q(3,4) model_rel_below[OF q(3), of "hostModelsDir (le_exe env) cfg"] t p(2) by auto
    have entries: "\<forall>e. (map_of (recordLoaded entry reg) e \<noteq> None \<longleftrightarrow> e = lm_Endpoint entry \<or> map_of reg e \<noteq> None) \<and>
        (e \<noteq> lm_Endpoint entry \<longrightarrow> map_of (recordLoaded entry reg) e = map_of reg e)"
      by (simp add: recordLoaded_get)
    show ?thesis using that found entries d p(3)
      unfolding launch_sound_def w_def[symmetric] Let_def agent_def[symmetric] p(4) p(5) load_plan.simps by simp
  qed
  show ?thesis
  proof (cases "lr_DryRun w \<or> \<not> lp_can_launch plan")
    case True
    then show ?thesis using assms(1) p(1) unfolding eq fire_load_def by auto
  next
    case False
    then have c: "\<not> lr_DryRun w" "lp_can_launch plan" by auto
    show ?thesis
    proof (cases "lp_local plan")
      case True
      obtain lr h1 where l: "launchLlama (lp_exe plan) (withSlotSavePath (xe_slotdir (le_exe env)) (lp_args plan)) (le_start env) (itoa (lr_Port w)) h = (lr, h1)" by fastforce
      have lh: "\<And>pid p. map_of (hs_table h) pid = Some p \<Longrightarrow> map_of (hs_table h1) pid = Some p"
        using l assms(2) by (auto simp: launchLlama_def update_conv' split: if_splits sum.splits)
      show ?thesis
      proof (cases lr)
        case (Launched pid)
        have "le_start env = Inr pid \<and> isLlamaServer (lp_exe plan) \<and> isLaunched pid (hs_reg h1) \<and>
            map_of (hs_table h1) pid = Some \<lparr>po_ours = True, po_runs = True, po_port = itoa (lr_Port w), po_args = withSlotSavePath (xe_slotdir (le_exe env)) (lp_args plan)\<rparr>"
          using l unfolding Launched by (auto simp: launchLlama_def update_conv' isLaunched_def recordLaunched_def split: if_splits sum.splits)
        then have "launch_sound env cfg q (plan\<lparr>lp_launched := True\<rparr>) reg (recordLoaded entry reg) h h1" using s[OF c, of h1] True by auto
        then show ?thesis using assms(1) lh q(1) c True unfolding eq fire_load_def l entry_def[symmetric] Launched by auto
      qed (use l assms(1) c True p(1) in \<open>auto simp: eq fire_load_def launchLlama_def split: if_splits sum.splits\<close>)
    next
      case False
      have "launch_sound env cfg q (plan\<lparr>lp_launched := True\<rparr>) reg (recordLoaded entry reg) h h" if "le_agent env agent (lp_exe plan) (lp_args plan) = Inr True"
        using s[OF c, of h] False that by simp
      then show ?thesis using assms(1) q(1) c False p(1) unfolding eq fire_load_def entry_def[symmetric] agent_def[symmetric]
        by (auto split: sum.splits if_splits)
    qed
  qed
qed

definition demo_exe_env :: exe_env where
  "demo_exe_env = \<lparr>xe_llama = ''/b/llama-server'', xe_rpc = [], xe_rpccfg = [], xe_windows = False, xe_exedir = None, xe_home = None, xe_isfile = \<lambda>_. False,
     xe_look = \<lambda>_. None, xe_models = ''/m'', xe_hostmodels = [], xe_slotdir = []\<rparr>"

definition demo_load_env :: load_env where
  "demo_load_env = \<lparr>le_atoi = \<lambda>_. None, le_stat = \<lambda>_. True, le_exe = demo_exe_env, le_addrs = [''a''], le_gpus = \<lambda>_. [], le_start = Inr 7,
     le_agent = \<lambda>_ _ _. Inl ''x''\<rparr>"

definition demo_load :: "string \<Rightarrow> loadReq" where
  "demo_load main = \<lparr>lr_File = ''q/q.gguf'', lr_Mode = [], lr_Nodes = [], lr_Main = main, lr_Ctx = 9, lr_Port = 7, lr_NGL = 1, lr_DryRun = False\<rparr>"

definition launched :: "load_reply \<Rightarrow> bool" where
  "launched r \<longleftrightarrow> (case r of Planned plan \<Rightarrow> lp_launched plan | _ \<Rightarrow> False)"

theorem modelsLoad_sound_witness:
  "\<exists>plan reg' h'. modelsLoad demo_load_env demo_config (Some (demo_load ''a'')) [] (host_start []) = (Planned plan, reg', h') \<and>
     launch_sound demo_load_env demo_config (demo_load ''a'') plan [] reg' (host_start []) h'"
proof -
  obtain r reg' h' where m: "modelsLoad demo_load_env demo_config (Some (demo_load ''a'')) [] (host_start []) = (r, reg', h')"
    using prod_cases3 by blast
  have "launched (fst (modelsLoad demo_load_env demo_config (Some (demo_load ''a'')) [] (host_start [])))" by code_simp
  then have "launched r" unfolding m by simp
  then obtain plan where r: "r = Planned plan" "lp_launched plan" by (cases r) (auto simp: launched_def)
  have t: "map_of (hs_table (host_start [])) pid = None" for pid by (simp add: host_start_def)
  have "\<exists>q. Some (demo_load ''a'') = Some q \<and> launch_sound demo_load_env demo_config q plan [] reg' (host_start []) h'"
    using modelsLoad_sound[OF m t] r(2) unfolding r(1) load_reply.case if_P[OF r(2)] by blast
  then show ?thesis using m r(1) by blast
qed

text \<open>
  A main node that is not in the configuration is taken for this host. Its agent is the empty string, whose host is empty, and an empty host counts as this machine: the
  model is launched here, on an endpoint without a host.
\<close>

theorem unknown_main_here:
  assumes "model_rel (lr_File q) = Some rel" "lr_File q \<noteq> []" "le_stat env (path_join (xe_models (le_exe env)) rel)"
    "lr_Main q \<noteq> []" "agentBase cfg (lr_Main q) = []" "lr_Mode q = ''individual''" "\<not> lr_DryRun q" "0 < lr_Port q"
    "isLlamaServer (llamaExePath (le_exe env) cfg)" "le_start env = Inr pid"
  shows "\<exists>plan reg' h'. modelsLoad env cfg (Some q) reg h = (Planned plan, reg', h') \<and> lp_launched plan \<and> isLaunched pid (hs_reg h') \<and>
    lp_endpoint plan = ''http://:'' @ itoa (lr_Port q)"
proof -
  have w: "lr_Main (with_defaults (le_atoi env) reg q) = lr_Main q" "lr_Mode (with_defaults (le_atoi env) reg q) = ''individual''"
    "lr_DryRun (with_defaults (le_atoi env) reg q) = lr_DryRun q" "lr_Port (with_defaults (le_atoi env) reg q) = lr_Port q"
    using assms(4,6,8) by (simp_all add: with_defaults_def)
  have e: "hostOf [] = []" "isSelfHost addrs cfg []" for addrs by (simp_all add: hostOf_def before_def trim_prefix_def starts_def isSelfHost_def)
  define w' where "w' = with_defaults (le_atoi env) reg q"
  define plan where "plan = plan_load env cfg w' rel"
  have m: "modelsLoad env cfg (Some q) reg h = fire_load env cfg w' rel plan reg h"
    unfolding modelsLoad_def option.case if_not_P[OF assms(2)] assms(1) Let_def w'_def[symmetric] plan_def[symmetric]
    using assms(3,4) w(1) unfolding w'_def[symmetric] by simp
  have p: "lp_can_launch plan" "lp_local plan" "lp_exe plan = llamaExePath (le_exe env) cfg" "lp_endpoint plan = ''http://:'' @ itoa (lr_Port q)"
    using w[folded w'_def] assms(5) e by (simp_all add: plan_def plan_load_def Let_def)
  show ?thesis using p assms(7,9,10) w(3)[folded w'_def] unfolding m fire_load_def
    by (simp add: launchLlama_def isLaunched_def recordLaunched_def)
qed

theorem unknown_main_here_witness:
  "\<exists>plan reg' h'. modelsLoad demo_load_env demo_config (Some ((demo_load ''typo'')\<lparr>lr_Mode := ''individual'', lr_Port := 1358\<rparr>)) [] (host_start []) = (Planned plan, reg', h') \<and>
     lp_launched plan \<and> isLaunched 7 (hs_reg h')"
proof -
  let ?q = "(demo_load ''typo'')\<lparr>lr_Mode := ''individual'', lr_Port := 1358\<rparr>"
  have "model_rel (lr_File ?q) = Some ''q/q.gguf''" "lr_File ?q \<noteq> []" "le_stat demo_load_env (path_join (xe_models (le_exe demo_load_env)) ''q/q.gguf'')"
    "lr_Main ?q \<noteq> []" "agentBase demo_config (lr_Main ?q) = []" "lr_Mode ?q = ''individual''" "\<not> lr_DryRun ?q" "0 < lr_Port ?q"
    "isLlamaServer (llamaExePath (le_exe demo_load_env) demo_config)" by code_simp+
  moreover have "le_start demo_load_env = Inr 7" by (simp add: demo_load_env_def)
  ultimately show ?thesis using unknown_main_here[of ?q "''q/q.gguf''" demo_load_env demo_config 7 "[]" "host_start []"] by blast
qed

text \<open>
  The port a load gets when it names none is one of 1358 to 1399, and no recorded model has it, unless all 42 are taken: then it is 1358 again.
\<close>

theorem nextLoadPort_free:
  "1358 \<le> nextLoadPort atoi reg \<and> nextLoadPort atoi reg \<le> 1399 \<and>
   (nextLoadPort atoi reg \<in> set (used_ports atoi reg) \<longleftrightarrow> {1358..1399} \<subseteq> set (used_ports atoi reg))"
proof (cases "find (\<lambda>p. p \<notin> set (used_ports atoi reg)) [1358..1399]")
  case None
  then have "\<not> (\<exists>p. p \<in> set [1358..1399] \<and> p \<notin> set (used_ports atoi reg))" unfolding find_None_iff .
  then have "{1358..1399} \<subseteq> set (used_ports atoi reg)" unfolding set_upto by blast
  moreover from this have "1358 \<in> set (used_ports atoi reg)" by auto
  ultimately show ?thesis unfolding nextLoadPort_def None option.case by simp
next
  case (Some p)
  then obtain i where "i < length [1358..1399]" "p \<notin> set (used_ports atoi reg)" "p = [1358..1399] ! i" unfolding find_Some_iff by blast
  then have "p \<in> set [1358..1399]" "p \<notin> set (used_ports atoi reg)" using nth_mem by blast+
  then show ?thesis unfolding nextLoadPort_def Some option.case set_upto by auto
qed

text \<open>
  A load is weighed towards the processors with room, but its main one need not have any. A busy processor gets weight zero; the main processor is the one with the
  most free memory, which can be a busy one although another has room.
\<close>

theorem gpu_placement:
  "(\<forall>g\<in>set gpus. gpu_busy g \<longrightarrow> gpu_part g = ''0'') \<and>
   gpuPlacement False ''http://a'' [\<lparr>gp_idx = 0, gp_total = 80000, gp_used = 60000\<rparr>, \<lparr>gp_idx = 1, gp_total = 16000, gp_used = 2000\<rparr>] = (0, ''0,13'')"
proof -
  have d: "itoa 13 = ''13''" by code_simp
  have f: "\<lfloor>14000 / 1024 :: real\<rfloor> = 13" by linarith
  show ?thesis using d f by (simp add: gpu_part_def gpuPlacement_def gpu_busy_def gpu_free_def go_int_def Let_def)
qed

theorem gpu_placement_witness: "gpu_part \<lparr>gp_idx = 0, gp_total = 80000, gp_used = 60000\<rparr> = ''0''"
  using gpu_placement[of "[\<lparr>gp_idx = 0, gp_total = 80000, gp_used = 60000\<rparr>]"] by (simp add: gpu_busy_def gpu_free_def)

end
