(* ===== verification/Access_Policy.thy ===== *)
theory Access_Policy
  imports Engine_Control Chat_Serve
begin

text \<open>
  \<^verbatim>\<open>internal/coordinator/routepolicy.go\<close>, the route table of \<^verbatim>\<open>serve.go\<close>, the API key in \<^verbatim>\<open>panel.go\<close> and its start in \<^verbatim>\<open>cmd/sofmat/main.go\<close>: who
  may call what. The mux of the standard library is modelled; the handlers are an argument.
\<close>


section \<open>The key\<close>

text \<open>\<open>ns_apiKey\<close> is the key made at run time; the rest of the state of the node is a parameter.\<close>

record 'x node_state =
  ns_apiKey :: string
  ns_rest :: 'x

definition effectiveAPIKey :: "Config \<Rightarrow> 'x node_state \<Rightarrow> string" where
  "effectiveAPIKey cfg s = (if ns_apiKey s \<noteq> [] then ns_apiKey s else c_APIKey cfg)"

definition maskAPIKey :: "string \<Rightarrow> string" where
  "maskAPIKey k = (if length k < 20 then ''sk-soflink-...'' else take 14 k @ ''...'' @ drop (length k - 4) k)"

text \<open>The mask of the log at the start has another bound.\<close>

definition maskKey :: "string \<Rightarrow> string" where
  "maskKey k = (if length k < 16 then ''sk-soflink-...'' else take 14 k @ ''...'' @ drop (length k - 4) k)"

definition genAPIKey :: "bytes \<Rightarrow> string" where
  "genAPIKey rnd = ''sk-soflink-'' @ concat (map hex_lower rnd)"

text \<open>
  What is asked of the network: the host of a remote address, the canonical text of an address, whether it is a loopback one, the addresses of the interfaces, the host name
  of a URL, and its addresses.
\<close>

record net_env =
  ne_split :: "string \<Rightarrow> string option"
  ne_ip :: "string \<Rightarrow> string option"
  ne_loopback :: "string \<Rightarrow> bool"
  ne_own :: "string list"
  ne_hostname :: "string \<Rightarrow> string option"
  ne_lookup :: "string \<Rightarrow> string list option"

definition isThisMachine :: "net_env \<Rightarrow> string \<Rightarrow> bool" where
  "isThisMachine env ip \<longleftrightarrow> ne_loopback env ip \<or> ip \<in> set (ne_own env)"

definition keyForViewerMasked :: "net_env \<Rightarrow> Config \<Rightarrow> http_req \<Rightarrow> 'x node_state \<Rightarrow> string \<times> bool" where
  "keyForViewerMasked env cfg r s =
     (let key = effectiveAPIKey cfg s
      in if key = [] then (key, False)
         else case ne_ip env (client_ip (ne_split env) r) of
                Some ip \<Rightarrow> if isThisMachine env ip then (key, False) else (maskAPIKey key, True)
              | None \<Rightarrow> (maskAPIKey key, True))"

definition keyForViewer :: "net_env \<Rightarrow> Config \<Rightarrow> http_req \<Rightarrow> 'x node_state \<Rightarrow> string" where
  "keyForViewer env cfg r s = fst (keyForViewerMasked env cfg r s)"

definition authOK :: "Config \<Rightarrow> http_req \<Rightarrow> 'x node_state \<Rightarrow> bool" where
  "authOK cfg r s \<longleftrightarrow> key_ok (effectiveAPIKey cfg s) r"


section \<open>Handlers and their wrappers\<close>

text \<open>\<open>ca_escaped\<close> is \<^verbatim>\<open>r.URL.EscapedPath()\<close>; the path of the request is the unescaped one.\<close>

record call =
  ca_method :: string
  ca_escaped :: string
  ca_req :: http_req

datatype 'b answer = Unauthorized | MethodNotAllowed | NotFound | Moved string | Answered 'b

type_synonym ('x, 'b) handler = "call \<Rightarrow> 'x node_state \<Rightarrow> 'b answer \<times> 'x node_state"

definition guard :: "Config \<Rightarrow> ('x, 'b) handler \<Rightarrow> ('x, 'b) handler" where
  "guard cfg nxt r s = (if \<not> authOK cfg (ca_req r) s then (Unauthorized, s) else nxt r s)"

definition postOnly :: "('x, 'b) handler \<Rightarrow> ('x, 'b) handler" where
  "postOnly nxt r s = (if ca_method r \<noteq> ''POST'' then (MethodNotAllowed, s) else nxt r s)"

definition mut :: "Config \<Rightarrow> ('x, 'b) handler \<Rightarrow> ('x, 'b) handler" where
  "mut cfg nxt = guard cfg (postOnly nxt)"

definition peer_host :: "net_env \<Rightarrow> string \<Rightarrow> string list" where
  "peer_host env raw =
     (if raw = [] then []
      else case ne_hostname env (if contains raw ''//'' then raw else ''http://'' @ raw) of
             None \<Rightarrow> []
           | Some h \<Rightarrow>
               (case ne_ip env h of
                  Some ip \<Rightarrow> [ip]
                | None \<Rightarrow> (case ne_lookup env h of Some addrs \<Rightarrow> addrs | None \<Rightarrow> [])))"

definition peerHosts :: "net_env \<Rightarrow> Config \<Rightarrow> string list" where
  "peerHosts env cfg = concat (map (peer_host env) (map n_Agent (c_Nodes cfg) @ map i_Endpoint (c_Instances cfg)))"

definition fromPeer :: "net_env \<Rightarrow> Config \<Rightarrow> http_req \<Rightarrow> bool" where
  "fromPeer env cfg r =
     (case ne_ip env (client_ip (ne_split env) r) of
        None \<Rightarrow> False
      | Some ip \<Rightarrow> ne_loopback env ip \<or> ip \<in> set (peerHosts env cfg))"

definition peer :: "net_env \<Rightarrow> Config \<Rightarrow> ('x, 'b) handler \<Rightarrow> ('x, 'b) handler" where
  "peer env cfg nxt r s = (if fromPeer env cfg (ca_req r) \<or> authOK cfg (ca_req r) s then nxt r s else (Unauthorized, s))"

text \<open>Minting a key; \<open>rnd\<close> are the random bytes.\<close>

definition panelGenKey :: "bytes \<Rightarrow> (string \<Rightarrow> 'b) \<Rightarrow> ('x, 'b) handler" where
  "panelGenKey rnd out r s =
     (if ca_method r \<noteq> ''POST'' then (MethodNotAllowed, s)
      else let key = genAPIKey rnd in (Answered (out key), s\<lparr>ns_apiKey := key\<rparr>))"

definition authCheck :: "'b \<Rightarrow> ('x, 'b) handler" where
  "authCheck ok r s = (Answered ok, s)"

definition panelPage :: "'b \<Rightarrow> ('x, 'b) handler" where
  "panelPage page r s = (if hq_path (ca_req r) \<noteq> ''/'' \<and> hq_path (ca_req r) \<noteq> ''/panel'' then (NotFound, s) else (Answered page, s))"


section \<open>The route table\<close>

datatype route_class = Open | Mut | Guarded | Peer

type_synonym route = "string \<times> route_class \<times> string"

definition prefill_routes :: "route list" where
  "prefill_routes =
     [(''/prefill/health'', Open, ''proxyReq /health''), (''/prefill/v1/models'', Open, ''proxyReq /v1/models''),
      (''/prefill/props'', Open, ''proxyReq /props''), (''/prefill/v1/chat/completions'', Open, ''proxyReq /v1/chat/completions'')]"

definition routes :: "bool \<Rightarrow> route list" where
  "routes has_prefill =
     [(''/health'', Open, ''proxyGET /health''), (''/v1/models'', Open, ''proxyGET /v1/models''), (''/props'', Open, ''proxyGET /props''),
      (''/v1/chat/completions'', Open, ''chat'')] @
     (if has_prefill then prefill_routes else []) @
     [(''/nodes'', Open, ''nodes''), (''/hop'', Open, ''hop''),
      (''/admin/eject'', Mut, ''adminEject''), (''/admin/load'', Mut, ''adminLoad''), (''/config/apply'', Mut, ''configApply''),
      (''/soflink/hello'', Open, ''HelloHandler''), (''/soflink/rename'', Peer, ''peerRename''), (''/soflink/renames'', Open, ''renamesList''),
      (''/gpu'', Open, ''agent.Handler''), (''/panel'', Open, ''panelPage''), (''/api/status'', Open, ''panelStatus''), (''/api/version'', Open, ''panelVersion''),
      (''/api/autoupdate'', Mut, ''panelSetAutoUpdate''), (''/api/update'', Mut, ''panelUpdateNow''), (''/api/update/fleet'', Mut, ''panelUpdateFleet''),
      (''/api/eject'', Mut, ''adminEject''), (''/api/load'', Mut, ''adminLoad''), (''/api/apply'', Mut, ''configApply''),
      (''/api/apply-union'', Mut, ''configApplyUnion''), (''/api/train'', Open, ''trainList''), (''/api/train/begin'', Mut, ''trainBegin''),
      (''/api/train/end'', Mut, ''trainEnd''), (''/api/authcheck'', Guarded, ''authCheck''), (''/api/genkey'', Mut, ''panelGenKey''),
      (''/api/chat'', Open, ''panelChat''), (''/api/chat/stream'', Open, ''panelChatStream''), (''/api/measure'', Mut, ''panelMeasure''),
      (''/api/selectinstance'', Mut, ''panelSelectInstance''), (''/api/setconfig'', Mut, ''panelSetConfig''), (''/api/rename'', Mut, ''panelRename''),
      (''/api/hf/models'', Open, ''hfModels''), (''/api/hf/files'', Open, ''hfFiles''), (''/api/hf/download'', Mut, ''hfDownload''),
      (''/api/hf/progress'', Open, ''hfProgress''), (''/api/models/local'', Open, ''localModels''), (''/api/models/load'', Mut, ''modelsLoad''),
      (''/api/models/eject'', Mut, ''modelsEject''), (''/api/models/delete'', Mut, ''modelsDelete''), (''/api/models/probe'', Open, ''modelsProbe''),
      (''/api/models/alive'', Open, ''controlAlive''), (''/control/load'', Peer, ''controlLoad''), (''/control/eject'', Peer, ''controlEject''),
      (''/control/kill'', Peer, ''controlKill''), (''/control/kv-fetch'', Peer, ''controlKVFetch''), (''/kv/'', Peer, ''kvFile''),
      (''/api/runtime'', Open, ''apiRuntime''), (''/api/requests'', Open, ''panelRequests''), (''/'', Open, ''panelPage'')]"

text \<open>The handler of a route, in its wrapper.\<close>

definition wrapped :: "net_env \<Rightarrow> Config \<Rightarrow> route_class \<Rightarrow> ('x, 'b) handler \<Rightarrow> ('x, 'b) handler" where
  "wrapped env cfg c h = (case c of Open \<Rightarrow> h | Mut \<Rightarrow> mut cfg h | Guarded \<Rightarrow> guard cfg h | Peer \<Rightarrow> peer env cfg h)"


section \<open>The mux\<close>

text \<open>\<^verbatim>\<open>http.ServeMux\<close>: a pattern is a literal or, with a slash at its end, a subtree; the segments of the path are unescaped one by one.\<close>

definition is_subtree :: "string \<Rightarrow> bool" where
  "is_subtree p \<longleftrightarrow> p \<noteq> [] \<and> last p = CHR ''/''"

definition url_segs :: "string \<Rightarrow> string list" where
  "url_segs p = split_on CHR ''/'' p"

definition pattern_fits :: "string \<Rightarrow> string list \<Rightarrow> bool" where
  "pattern_fits pat segs =
     (if is_subtree pat then (let ps = butlast (url_segs pat) in length ps < length segs \<and> take (length ps) segs = ps)
      else url_segs pat = segs)"

text \<open>Of the patterns that fit, a literal wins, then the longest subtree.\<close>

fun best_route :: "route list \<Rightarrow> string list \<Rightarrow> route option \<Rightarrow> route option" where
  "best_route [] segs b = b"
| "best_route (r # rs) segs b =
     (if \<not> pattern_fits (fst r) segs then best_route rs segs b
      else if \<not> is_subtree (fst r) then Some r
      else best_route rs segs (case b of None \<Rightarrow> Some r | Some q \<Rightarrow> if length (fst r) > length (fst q) then Some r else b))"

definition cleanPath :: "string \<Rightarrow> string" where
  "cleanPath p =
     (if p = [] then ''/''
      else let p = (if hd p = CHR ''/'' then p else CHR ''/'' # p); np = path_clean p
           in if last p = CHR ''/'' \<and> np \<noteq> ''/'' then np @ ''/'' else np)"

datatype found = Redirect string | Route route | NoRoute

definition mux_find :: "(string \<Rightarrow> string) \<Rightarrow> route list \<Rightarrow> string \<Rightarrow> string \<Rightarrow> found" where
  "mux_find unescape rs meth path =
     (let p = (if meth = ''CONNECT'' then path else cleanPath path);
          segs = map unescape (url_segs p);
          n = best_route rs segs None;
          exact = (case n of None \<Rightarrow> False | Some q \<Rightarrow> \<not> is_subtree (fst q) \<or> (is_subtree p \<and> length (url_segs (fst q)) = length segs));
          tree = (case best_route rs (segs @ [[]]) None of None \<Rightarrow> False | Some q \<Rightarrow> is_subtree (fst q) \<and> length (url_segs (fst q)) = length segs + 1)
      in if \<not> exact \<and> \<not> is_subtree p \<and> tree then Redirect (p @ ''/'')
         else if p \<noteq> path then Redirect p
         else case n of Some q \<Rightarrow> Route q | None \<Rightarrow> NoRoute)"

definition serve :: "net_env \<Rightarrow> (string \<Rightarrow> string) \<Rightarrow> Config \<Rightarrow> bool \<Rightarrow> (string \<Rightarrow> ('x, 'b) handler) \<Rightarrow> ('x, 'b) handler" where
  "serve env unescape cfg has_prefill H r s =
     (case mux_find unescape (routes has_prefill) (ca_method r) (ca_escaped r) of
        Redirect p \<Rightarrow> (Moved p, s)
      | NoRoute \<Rightarrow> (NotFound, s)
      | Route (pat, c, name) \<Rightarrow> wrapped env cfg c (H name) r s)"


section \<open>The chat of the panel\<close>

definition pnum :: "go_any \<Rightarrow> float64" where
  "pnum v = (case v of Num n \<Rightarrow> of_int n | Flt f \<Rightarrow> f | _ \<Rightarrow> 0)"

definition pint :: "go_any \<Rightarrow> int" where
  "pint v = go_int (pnum v)"

definition round2 :: "float64 \<Rightarrow> float64" where
  "round2 f = of_int (go_int (f * 100 + 1 / 2)) / 100"

record chat_result =
  ct_text :: string
  ct_tokens :: int
  ct_secs :: float64
  ct_tokps :: float64
  ct_prompt :: float64

definition chat_body :: "go_any \<Rightarrow> int \<Rightarrow> Body" where
  "chat_body msgs maxTokens =
     [(''messages'', msgs), (''max_tokens'', Num maxTokens), (''temperature'', Flt (4 / 10)), (''chat_template_kwargs'', Obj [(''enable_thinking'', Bool False)])]"

text \<open>\<open>post\<close> is the request with the decoding of its answer, and the seconds both took.\<close>

definition chatCall :: "(string \<Rightarrow> Body \<Rightarrow> (string, Body \<times> float64) result) \<Rightarrow> string \<Rightarrow> go_any \<Rightarrow> int \<Rightarrow> (string, chat_result) result" where
  "chatCall post base msgs maxTokens =
     (case post (base @ ''/v1/chat/completions'') (chat_body msgs maxTokens) of
        Inl e \<Rightarrow> Inl e
      | Inr (d, dt) \<Rightarrow>
          let ct = pint (field (as_obj (field d ''usage'')) ''completion_tokens'');
              ch = as_arr (field d ''choices'')
          in Inr \<lparr>ct_text = (if ch = [] then [] else as_str (field (as_obj (field (as_obj (hd ch)) ''message'')) ''content'')), ct_tokens = ct, ct_secs = round2 dt,
                  ct_tokps = (if dt > 0 then round1 (of_int ct / dt) else 0),
                  ct_prompt = round1 (pnum (field (as_obj (field d ''timings'')) ''prompt_per_second''))\<rparr>)"

definition textOr :: "string \<Rightarrow> string" where
  "textOr t = (if t = [] then ''(sin contenido)'' else t)"

text \<open>\<open>dec\<close> is the decoding of the request: its messages and its mode.\<close>

definition panelChat ::
  "(string \<Rightarrow> Body \<Rightarrow> (string, Body \<times> float64) result) \<Rightarrow> backend_cfg \<Rightarrow> (string \<Rightarrow> go_any \<times> string) \<Rightarrow> ('x, Body) handler" where
  "panelChat post bc dec r s =
     (let (msgs, mode) = dec (hq_raw (ca_req r));
          err = (\<lambda>e. [(''text'', Str (''(error: '' @ e @ '')''))])
      in if mode = ''cluster'' \<and> bc_prefill bc \<noteq> []
         then let pre = chatCall post (bc_prefill bc) msgs 1
              in case chatCall post (bc_decode bc) msgs 2048 of
                   Inl e \<Rightarrow> (Answered (err e), s)
                 | Inr m \<Rightarrow>
                     let pf = (case pre of Inl e \<Rightarrow> 0 | Inr p \<Rightarrow> ct_prompt p)
                     in (Answered [(''text'', Str (textOr (ct_text m))), (''tokps'', Flt (ct_tokps m)), (''tokens'', Num (ct_tokens m)), (''secs'', Flt (ct_secs m)),
                                   (''mode'', Str ''cluster''), (''prefill_tokps'', Flt pf), (''decode_tokps'', Flt (ct_tokps m))], s)
         else case chatCall post (bc_decode bc) msgs 2048 of
                Inl e \<Rightarrow> (Answered (err e), s)
              | Inr m \<Rightarrow>
                  (Answered [(''text'', Str (textOr (ct_text m))), (''tokps'', Flt (ct_tokps m)), (''tokens'', Num (ct_tokens m)), (''secs'', Flt (ct_secs m)),
                             (''mode'', Str ''individual'')], s))"


section \<open>The key at the start\<close>

text \<open>The start of the program and the file beside the configuration; \<open>can_write\<close> is whether the file can be written.\<close>

definition apiKeyPath :: "string \<Rightarrow> string" where
  "apiKeyPath cfg_path = path_join (path_dir cfg_path) ''.soflink-apikey''"

definition readAPIKey :: "(string \<Rightarrow> string) \<Rightarrow> string option \<Rightarrow> string" where
  "readAPIKey trim key_file = (case key_file of None \<Rightarrow> [] | Some b \<Rightarrow> trim b)"

definition writeAPIKey :: "bool \<Rightarrow> string \<Rightarrow> string option \<Rightarrow> bool \<times> string option" where
  "writeAPIKey can_write key key_file = (if can_write then (True, Some (key @ [CHR 0x0A])) else (False, key_file))"

definition start_key :: "(string \<Rightarrow> string) \<Rightarrow> bool \<Rightarrow> bool \<Rightarrow> bytes \<Rightarrow> Config \<Rightarrow> string option \<Rightarrow> Config \<times> string option" where
  "start_key trim noAuth can_write rnd cfg key_file =
     (if c_APIKey cfg = [] \<and> \<not> noAuth then
        (let k = readAPIKey trim key_file
         in if k \<noteq> [] then (cfg\<lparr>c_APIKey := k\<rparr>, key_file)
            else (cfg\<lparr>c_APIKey := genAPIKey rnd\<rparr>, snd (writeAPIKey can_write (genAPIKey rnd) key_file)))
      else (cfg, key_file))"


section \<open>What the policy gives\<close>

lemma hex_lower_chars: "c \<in> set (hex_lower b) \<Longrightarrow> c \<in> set ''0123456789abcdef''"
proof -
  have "unat b div 16 < 16" "unat b mod 16 < 16" using unat_byte_less[of b] by auto
  then have "''0123456789abcdef'' ! (unat b div 16) \<in> set ''0123456789abcdef''" "''0123456789abcdef'' ! (unat b mod 16) \<in> set ''0123456789abcdef''"
    by (intro nth_mem; simp)+
  moreover assume "c \<in> set (hex_lower b)"
  then have "c = ''0123456789abcdef'' ! (unat b div 16) \<or> c = ''0123456789abcdef'' ! (unat b mod 16)" by (simp add: hex_lower_def Let_def)
  ultimately show ?thesis by metis
qed

text \<open>A printed character that is not a space.\<close>

definition graphic :: "char \<Rightarrow> bool" where
  "graphic c \<longleftrightarrow> 32 < byte_of c \<and> byte_of c < 127"

lemma genAPIKey_chars: "genAPIKey rnd \<noteq> []" "list_all graphic (genAPIKey rnd)"
proof -
  have "list_all graphic ''0123456789abcdef''" "list_all graphic ''sk-soflink-''" by code_simp+
  then have "list_all graphic (hex_lower b)" "list_all graphic ''sk-soflink-''" for b using hex_lower_chars[of _ b] by (auto simp only: list_all_iff)
  then show "genAPIKey rnd \<noteq> []" "list_all graphic (genAPIKey rnd)" by (auto simp only: genAPIKey_def list_all_append list_all_iff set_append set_concat set_map)
qed

lemma wrapper_upd:
  assumes "n = name \<Longrightarrow> \<not> (case c of Open \<Rightarrow> True | Mut \<Rightarrow> authOK cfg (ca_req r) s \<and> ca_method r = ''POST'' | Guarded \<Rightarrow> authOK cfg (ca_req r) s
      | Peer \<Rightarrow> fromPeer env cfg (ca_req r) \<or> authOK cfg (ca_req r) s)"
  shows "wrapped env cfg c ((H(name := h)) n) r s = wrapped env cfg c (H n) r s"
  using assms by (cases "n = name"; cases c) (auto simp: wrapped_def mut_def guard_def postOnly_def peer_def)

lemma best_route_in: "best_route rs segs b = Some q \<Longrightarrow> q \<in> set rs \<or> b = Some q"
  by (induction rs segs b rule: best_route.induct) (auto split: if_splits option.splits)

lemma mux_find_in: "mux_find unescape rs meth path = Route q \<Longrightarrow> q \<in> set rs"
  using best_route_in[of rs _ None q] by (auto simp: mux_find_def Let_def split: if_splits option.splits)

definition guarded_handlers :: "route_class \<Rightarrow> string list" where
  "guarded_handlers c =
     (case c of
        Mut \<Rightarrow> [''adminEject'', ''adminLoad'', ''configApply'', ''configApplyUnion'', ''panelSetAutoUpdate'', ''panelUpdateNow'', ''panelUpdateFleet'', ''trainBegin'', ''trainEnd'',
                ''panelGenKey'', ''panelMeasure'', ''panelSelectInstance'', ''panelSetConfig'', ''panelRename'', ''hfDownload'', ''modelsLoad'', ''modelsEject'', ''modelsDelete'']
      | Peer \<Rightarrow> [''peerRename'', ''controlLoad'', ''controlEject'', ''controlKill'', ''controlKVFetch'', ''kvFile'']
      | Guarded \<Rightarrow> [''authCheck'']
      | Open \<Rightarrow> [])"

definition classes_right :: "route list \<Rightarrow> bool" where
  "classes_right rs \<longleftrightarrow> list_all (\<lambda>q. list_all (\<lambda>c. snd (snd q) \<in> set (guarded_handlers c) \<longrightarrow> fst (snd q) = c) [Open, Mut, Guarded, Peer]) rs"

lemma table_right: "classes_right (routes b)"
proof (cases b)
  case True
  have "classes_right (routes True)" by code_simp
  then show ?thesis using True by simp
next
  case False
  have "classes_right (routes False)" by code_simp
  then show ?thesis using False by simp
qed

lemma table_classes:
  "q \<in> set (routes b) \<Longrightarrow> snd (snd q) \<in> set (guarded_handlers c) \<Longrightarrow> fst (snd q) = c"
proof -
  have "list_all (\<lambda>q. list_all (\<lambda>c. snd (snd q) \<in> set (guarded_handlers c) \<longrightarrow> fst (snd q) = c) [Open, Mut, Guarded, Peer]) (routes b)"
    using table_right[of b] by (simp only: classes_right_def)
  moreover have "c \<in> set [Open, Mut, Guarded, Peer]" by (cases c) auto
  ultimately show "q \<in> set (routes b) \<Longrightarrow> snd (snd q) \<in> set (guarded_handlers c) \<Longrightarrow> ?thesis" by (auto simp: list_all_iff)
qed

definition demo_net :: net_env where
  "demo_net = \<lparr>ne_split = \<lambda>_. None, ne_ip = Some, ne_loopback = \<lambda>ip. ip = ''lo'', ne_own = [''me''], ne_hostname = \<lambda>_. None, ne_lookup = \<lambda>_. None\<rparr>"

definition demo_http :: "Headers \<Rightarrow> http_req" where
  "demo_http h = \<lparr>hq_headers = h, hq_remote = ''far'', hq_path = ''/'', hq_raw = []\<rparr>"

definition demo_call :: "string \<Rightarrow> string \<Rightarrow> call" where
  "demo_call m p = \<lparr>ca_method = m, ca_escaped = p, ca_req = demo_http []\<rparr>"

definition demo_keyed :: "string \<Rightarrow> unit node_state" where
  "demo_keyed k = \<lparr>ns_apiKey = k, ns_rest = ()\<rparr>"

text \<open>
  C21. A handler that acts runs only for who may call it. Whatever the method and the spelling of the path, an action of the panel has no effect at all without the key and POST, and one of
  the surface between nodes has none unless the call comes from a declared node or this machine, or has the key.
\<close>

theorem access_enforced:
  "(name \<in> set (guarded_handlers Mut) \<and> \<not> (authOK cfg (ca_req r) s \<and> ca_method r = ''POST'') \<longrightarrow>
      serve env unescape cfg b (H(name := h)) r s = serve env unescape cfg b H r s) \<and>
   (name \<in> set (guarded_handlers Peer) \<and> \<not> (fromPeer env cfg (ca_req r) \<or> authOK cfg (ca_req r) s) \<longrightarrow>
      serve env unescape cfg b (H(name := h)) r s = serve env unescape cfg b H r s)"
proof -
  have "serve env unescape cfg b (H(name := h)) r s = serve env unescape cfg b H r s"
    if n: "name \<in> set (guarded_handlers c)" and no: "\<not> (case c of Open \<Rightarrow> True | Mut \<Rightarrow> authOK cfg (ca_req r) s \<and> ca_method r = ''POST''
      | Guarded \<Rightarrow> authOK cfg (ca_req r) s | Peer \<Rightarrow> fromPeer env cfg (ca_req r) \<or> authOK cfg (ca_req r) s)" for c
  proof (cases "mux_find unescape (routes b) (ca_method r) (ca_escaped r)")
    case (Route q)
    obtain pat c' n' where q: "q = (pat, c', n')" by (cases q) auto
    have "n' = name \<Longrightarrow> c' = c" using table_classes[OF mux_find_in[OF Route], of c] q n by simp
    then show ?thesis using wrapper_upd[where n = n' and name = name and c = c' and cfg = cfg and r = r and s = s and env = env and H = H and h = h] no Route q by (simp add: serve_def)
  qed (simp_all add: serve_def)
  from this[of Mut] this[of Peer] show ?thesis by simp
qed


theorem access_enforced_witness:
  "fst (serve demo_net (\<lambda>x. x) demo_config True (\<lambda>n r s. (Answered n, s)) (demo_call ''GET'' ''/control//load'') (demo_keyed ''k'')) = Moved ''/control/load'' \<and>
   serve demo_net (\<lambda>x. x) demo_config True ((\<lambda>n r s. (Answered n, s))(''controlLoad'' := (\<lambda>r s. (NotFound, s)))) (demo_call ''POST'' ''/control/load'') (demo_keyed ''k'') =
   serve demo_net (\<lambda>x. x) demo_config True (\<lambda>n r s. (Answered n, s)) (demo_call ''POST'' ''/control/load'') (demo_keyed ''k'')"
proof -
  have "fst (serve demo_net (\<lambda>x. x) demo_config True (\<lambda>n r s. (Answered n, s)) (demo_call ''GET'' ''/control//load'') (demo_keyed ''k'')) = Moved ''/control/load''"
    by code_simp
  moreover have "''controlLoad'' \<in> set (guarded_handlers Peer)" "\<not> fromPeer demo_net demo_config (ca_req (demo_call ''POST'' ''/control/load''))"
    "\<not> authOK demo_config (ca_req (demo_call ''POST'' ''/control/load'')) (demo_keyed ''k'')" by code_simp+
  ultimately show ?thesis using access_enforced by blast
qed

lemma mux_plain:
  assumes "map unescape (url_segs p) = url_segs p" "cleanPath p = p" "\<not> is_subtree p" "best_route rs (url_segs p) None = Some q" "\<not> is_subtree (fst q)"
  shows "mux_find unescape rs meth p = Route q"
  using assms by (simp add: mux_find_def Let_def)

definition plain_route :: "route list \<Rightarrow> route \<Rightarrow> bool" where
  "plain_route rs q \<longleftrightarrow> is_subtree (fst q) \<or> (cleanPath (fst q) = fst q \<and> best_route rs (url_segs (fst q)) None = Some q)"

lemma table_plain: "q \<in> set (routes b) \<Longrightarrow> plain_route (routes b) q"
proof -
  have "list_all (plain_route (routes b)) (routes b)"
  proof (cases b)
    case True
    have "list_all (plain_route (routes True)) (routes True)" by code_simp
    then show ?thesis using True by simp
  next
    case False
    have "list_all (plain_route (routes False)) (routes False)" by code_simp
    then show ?thesis using False by simp
  qed
  then show "q \<in> set (routes b) \<Longrightarrow> ?thesis" by (simp add: list_all_iff)
qed

text \<open>
  Every route is served to who may call it. A POST with the key to the path of any literal route of the table runs exactly the handler the table names for it, whatever the other routes.
\<close>

theorem routes_served:
  assumes "(pat, c, name) \<in> set (routes b)" "\<not> is_subtree pat" "ca_escaped r = pat" "map unescape (url_segs pat) = url_segs pat"
    "ca_method r = ''POST''" "authOK cfg (ca_req r) s"
  shows "serve env unescape cfg b H r s = H name r s"
proof -
  have "mux_find unescape (routes b) (ca_method r) (ca_escaped r) = Route (pat, c, name)"
    using mux_plain[of unescape pat "routes b" "(pat, c, name)"] table_plain[OF assms(1)] assms(2-4) by (simp add: plain_route_def)
  then show ?thesis using assms(5,6) by (cases c) (simp_all add: serve_def wrapped_def mut_def guard_def postOnly_def peer_def)
qed

theorem routes_served_witness:
  "serve demo_net (\<lambda>x. x) demo_config False (\<lambda>n r s. (Answered n, s)) ((demo_call ''POST'' ''/api/eject'')\<lparr>ca_req := demo_http [(''X-Api-Key'', ''k'')]\<rparr>) (demo_keyed ''k'') =
   (Answered ''adminEject'', demo_keyed ''k'')"
proof -
  have "(''/api/eject'', Mut, ''adminEject'') \<in> set (routes False)" "\<not> is_subtree ''/api/eject''"
    "authOK demo_config (demo_http [(''X-Api-Key'', ''k'')]) (demo_keyed ''k'')" by code_simp+
  then have "serve demo_net (\<lambda>x. x) demo_config False (\<lambda>n r s. (Answered n, s)) ((demo_call ''POST'' ''/api/eject'')\<lparr>ca_req := demo_http [(''X-Api-Key'', ''k'')]\<rparr>) (demo_keyed ''k'') =
    (\<lambda>n r s. (Answered n, s)) ''adminEject'' ((demo_call ''POST'' ''/api/eject'')\<lparr>ca_req := demo_http [(''X-Api-Key'', ''k'')]\<rparr>) (demo_keyed ''k'')"
    by (intro routes_served) (simp_all add: demo_call_def)
  then show ?thesis by simp
qed

text \<open>What a mask keeps.\<close>

definition alike :: "string \<Rightarrow> string \<Rightarrow> bool" where
  "alike k k' \<longleftrightarrow> (length k < 20 \<and> length k' < 20) \<or>
     (20 \<le> length k \<and> 20 \<le> length k' \<and> take 14 k = take 14 k' \<and> drop (length k - 4) k = drop (length k' - 4) k')"

text \<open>
  C38. The panel does not give the key away. A viewer on another machine is told a value that depends only on the first fourteen and the last four characters of a key of twenty or more, on nothing
  of a shorter one, and no header changes that.
\<close>

theorem remote_viewer_blind:
  fixes s s' :: "'x node_state"
  assumes "\<And>ip. ne_ip env (client_ip (ne_split env) r) = Some ip \<Longrightarrow> \<not> isThisMachine env ip" "hq_remote r' = hq_remote r"
    "effectiveAPIKey cfg s \<noteq> []" "effectiveAPIKey cfg s' \<noteq> []" "alike (effectiveAPIKey cfg s) (effectiveAPIKey cfg s')"
  shows "keyForViewerMasked env cfg r s = keyForViewerMasked env cfg r' s' \<and> snd (keyForViewerMasked env cfg r s) \<and> keyForViewer env cfg r s = maskAPIKey (effectiveAPIKey cfg s)"
proof -
  have v: "keyForViewerMasked env cfg q t = (maskAPIKey (effectiveAPIKey cfg t), True)" if "hq_remote q = hq_remote r" "effectiveAPIKey cfg t \<noteq> []" for q and t :: "'x node_state"
    using that assms(1) by (auto simp: keyForViewerMasked_def Let_def client_ip_def split: option.splits)
  have "maskAPIKey (effectiveAPIKey cfg s) = maskAPIKey (effectiveAPIKey cfg s')" using assms(5) by (auto simp: alike_def maskAPIKey_def)
  then show ?thesis using v[of r s] v[of r' s'] assms(2-4) by (simp add: keyForViewer_def)
qed

theorem remote_viewer_blind_witness:
  "keyForViewerMasked demo_net demo_config (demo_http [(''X-Forwarded-For'', ''lo'')]) (demo_keyed ''sk-soflink-abcd-efgh-9999'') =
   keyForViewerMasked demo_net demo_config (demo_http []) (demo_keyed ''sk-soflink-abczzzz9999'')"
proof -
  have "effectiveAPIKey demo_config (demo_keyed ''sk-soflink-abcd-efgh-9999'') = ''sk-soflink-abcd-efgh-9999''" "effectiveAPIKey demo_config (demo_keyed ''sk-soflink-abczzzz9999'') = ''sk-soflink-abczzzz9999''"
    "alike ''sk-soflink-abcd-efgh-9999'' ''sk-soflink-abczzzz9999''" "\<not> isThisMachine demo_net ''far''"
    "client_ip (ne_split demo_net) (demo_http [(''X-Forwarded-For'', ''lo'')]) = ''far''" by code_simp+
  moreover have "ne_ip demo_net x = Some ip \<Longrightarrow> ip = x" "hq_remote (demo_http h) = ''far''" for x ip h by (simp_all add: demo_net_def demo_http_def)
  ultimately show ?thesis using remote_viewer_blind[of demo_net "demo_http [(''X-Forwarded-For'', ''lo'')]" "demo_http []" demo_config "demo_keyed ''sk-soflink-abcd-efgh-9999''"
    "demo_keyed ''sk-soflink-abczzzz9999''"] by auto
qed

text \<open>
  The masks hide nothing of short keys. Of a key of twenty characters all but two are published, and the line a start writes to the log about a key of sixteen to eighteen characters
  determines it.
\<close>

theorem masks_show_short_keys:
  "(length k = 20 \<longrightarrow> {k'. length k' = 20 \<and> maskAPIKey k' = maskAPIKey k} = {take 14 k @ [a, b] @ drop 16 k | a b. True}) \<and>
   (16 \<le> length k \<and> length k \<le> 18 \<and> length k' = length k \<and> maskKey k' = maskKey k \<longrightarrow> k' = k)"
proof (intro conjI impI)
  assume k: "length k = 20"
  have "length k' = 20 \<and> maskAPIKey k' = maskAPIKey k \<longleftrightarrow> (\<exists>a b. k' = take 14 k @ [a, b] @ drop 16 k)" for k'
  proof
    assume h: "length k' = 20 \<and> maskAPIKey k' = maskAPIKey k"
    then have t: "take 14 k' = take 14 k" "drop 16 k' = drop 16 k" using k by (auto simp: maskAPIKey_def)
    have "length (take 2 (drop 14 k')) = 2" using h by simp
    then obtain a b where ab: "take 2 (drop 14 k') = [a, b]" by (auto simp: length_Suc_conv numeral_2_eq_2 simp del: length_take)
    have "k' = take 14 k' @ take 2 (drop 14 k') @ drop 16 k'" using append_take_drop_id[of 14 k'] append_take_drop_id[of 2 "drop 14 k'"] by simp
    then show "\<exists>a b. k' = take 14 k @ [a, b] @ drop 16 k" unfolding t ab by blast
  next
    assume "\<exists>a b. k' = take 14 k @ [a, b] @ drop 16 k"
    then show "length k' = 20 \<and> maskAPIKey k' = maskAPIKey k" using k by (auto simp: maskAPIKey_def)
  qed
  then show "{k'. length k' = 20 \<and> maskAPIKey k' = maskAPIKey k} = {take 14 k @ [a, b] @ drop 16 k | a b. True}" by blast
next
  assume h: "16 \<le> length k \<and> length k \<le> 18 \<and> length k' = length k \<and> maskKey k' = maskKey k"
  then have t: "take 14 k' = take 14 k" "drop (length k - 4) k' = drop (length k - 4) k" by (auto simp: maskKey_def)
  have "drop 14 x = drop (14 - (length k - 4)) (drop (length k - 4) x)" for x :: string using h by simp
  then have "drop 14 k' = drop 14 k" using t(2) by metis
  then show "k' = k" using t(1) by (metis append_take_drop_id)
qed

theorem masks_show_short_keys_witness:
  "{k'. length k' = 20 \<and> maskAPIKey k' = maskAPIKey ''0123456789abcdefghij''} = {take 14 ''0123456789abcdefghij'' @ [a, b] @ drop 16 ''0123456789abcdefghij'' | a b. True}"
proof -
  have "length ''0123456789abcdefghij'' = 20" by simp
  then show ?thesis using masks_show_short_keys by blast
qed

text \<open>
  C39. A minted key takes over at once. A POST with the current key to the minting route answers the new key, which is the only one that opens the guarded routes afterwards; the old one is refused unless it is the new
  one.
\<close>

theorem genkey_rotates:
  assumes "H ''panelGenKey'' = panelGenKey rnd out" "ca_method r = ''POST''" "ca_escaped r = ''/api/genkey''" "map unescape (url_segs ''/api/genkey'') = url_segs ''/api/genkey''"
    "authOK cfg (ca_req r) s"
  shows "\<exists>s'. serve env unescape cfg b H r s = (Answered (out (genAPIKey rnd)), s') \<and> ns_rest s' = ns_rest s \<and>
    (\<forall>q. authOK cfg q s' \<longleftrightarrow> header (hq_headers q) ''Authorization'' = ''Bearer '' @ genAPIKey rnd \<or> header (hq_headers q) ''X-Api-Key'' = genAPIKey rnd)"
proof -
  have "(''/api/genkey'', Mut, ''panelGenKey'') \<in> set (routes b)" by (simp add: routes_def)
  then have q: "mux_find unescape (routes b) (ca_method r) (ca_escaped r) = Route (''/api/genkey'', Mut, ''panelGenKey'')"
    using mux_plain[of unescape "''/api/genkey''" "routes b" "(''/api/genkey'', Mut, ''panelGenKey'')"] table_plain assms(3,4) by (fastforce simp: plain_route_def is_subtree_def)
  have n: "genAPIKey rnd \<noteq> []" by (simp add: genAPIKey_def)
  have "serve env unescape cfg b H r s = (Answered (out (genAPIKey rnd)), s\<lparr>ns_apiKey := genAPIKey rnd\<rparr>)"
    using q assms(1,2,5) by (simp add: serve_def wrapped_def mut_def guard_def postOnly_def panelGenKey_def Let_def)
  then show ?thesis using n by (simp add: authOK_def effectiveAPIKey_def key_ok_def)
qed

theorem genkey_rotates_witness:
  "\<exists>s'. serve demo_net (\<lambda>x. x) demo_config False (\<lambda>n. panelGenKey [] (\<lambda>k. k)) ((demo_call ''POST'' ''/api/genkey'')\<lparr>ca_req := demo_http [(''X-Api-Key'', ''k'')]\<rparr>) (demo_keyed ''k'') =
     (Answered (genAPIKey []), s') \<and> \<not> authOK demo_config (demo_http [(''X-Api-Key'', ''k'')]) s'"
proof -
  let ?r = "(demo_call ''POST'' ''/api/genkey'')\<lparr>ca_req := demo_http [(''X-Api-Key'', ''k'')]\<rparr>"
  have "authOK demo_config (ca_req ?r) (demo_keyed ''k'')" by code_simp
  moreover have "ca_method ?r = ''POST''" "ca_escaped ?r = ''/api/genkey''" by (simp_all add: demo_call_def)
  ultimately obtain s' where s: "serve demo_net (\<lambda>x. x) demo_config False (\<lambda>n. panelGenKey [] (\<lambda>k. k)) ?r (demo_keyed ''k'') = (Answered (genAPIKey []), s')"
    "\<forall>q. authOK demo_config q s' \<longleftrightarrow> header (hq_headers q) ''Authorization'' = ''Bearer '' @ genAPIKey [] \<or> header (hq_headers q) ''X-Api-Key'' = genAPIKey []"
    using genkey_rotates[of "\<lambda>n. panelGenKey [] (\<lambda>k. k)" "[]" "\<lambda>k. k" ?r "\<lambda>x. x" demo_config "demo_keyed ''k''" demo_net False] by auto
  then show ?thesis by (auto simp: demo_http_def header_def genAPIKey_def)
qed

text \<open>
  A minted key does not outlive the process. It is kept in memory only: after a restart the key of the configuration or of the file, which the answer of the minting route says is no longer
  in force, opens the guarded routes again.
\<close>

definition restarted :: "'x node_state \<Rightarrow> 'x node_state" where
  "restarted s = s\<lparr>ns_apiKey := []\<rparr>"

theorem minted_key_lost:
  assumes "authOK cfg q s" "ns_apiKey s = []"
  shows "authOK cfg q (restarted (snd (panelGenKey rnd out r s)))"
proof -
  have "ns_apiKey (restarted (snd (panelGenKey rnd out r s))) = []" by (simp add: restarted_def)
  then show ?thesis using assms by (simp add: authOK_def effectiveAPIKey_def)
qed

theorem minted_key_lost_witness:
  "authOK (demo_config\<lparr>c_APIKey := ''old''\<rparr>) (demo_http [(''X-Api-Key'', ''old'')])
     (restarted (snd (panelGenKey [] (\<lambda>k. k) (demo_call ''POST'' ''/api/genkey'') (demo_keyed []))))"
proof -
  have "authOK (demo_config\<lparr>c_APIKey := ''old''\<rparr>) (demo_http [(''X-Api-Key'', ''old'')]) (demo_keyed [])" by code_simp
  moreover have "ns_apiKey (demo_keyed []) = []" by (simp add: demo_keyed_def)
  ultimately show ?thesis by (rule minted_key_lost)
qed

text \<open>
  A node never starts open by accident, and its key stays. Without the flag the key in force is not empty; a key that was written is the one of every later start, whatever the random bytes.
\<close>

theorem start_key_stays:
  assumes "start_key trim False True rnd cfg key_file = (cfg', key_file')" "\<And>k. list_all graphic k \<Longrightarrow> trim (k @ [CHR 0x0A]) = k"
    "c_APIKey cfg = []"
  shows "c_APIKey cfg' \<noteq> [] \<and> start_key trim False w rnd' cfg key_file' = (cfg', key_file')"
proof -
  note g = genAPIKey_chars[of rnd]
  show ?thesis
    using assms(1,3) assms(2)[OF g(2)] g(1) by (auto simp: start_key_def readAPIKey_def writeAPIKey_def Let_def split: if_splits option.splits)
qed


theorem start_key_stays_witness:
  "let trim = (\<lambda>k. if k = [] then [] else butlast k); (cfg', f) = start_key trim False True [] (demo_config\<lparr>c_APIKey := []\<rparr>) None
   in c_APIKey cfg' \<noteq> [] \<and> start_key trim False False [1] (demo_config\<lparr>c_APIKey := []\<rparr>) f = (cfg', f)"
proof -
  obtain cfg' f where s: "start_key (\<lambda>k. if k = [] then [] else butlast k) False True [] (demo_config\<lparr>c_APIKey := []\<rparr>) None = (cfg', f)" by fastforce
  have "(\<lambda>k :: string. if k = [] then [] else butlast k) (k @ [CHR 0x0A]) = k" for k by simp
  then show ?thesis using start_key_stays[OF s, of False "[1]"] s by simp
qed

text \<open>
  This machine is not always a peer. A caller on an address of the machine that is not a loopback one and not in the configuration is shown the key as one on this machine, and is refused by the surface
  between nodes as one that is not.
\<close>

theorem own_address_refused:
  assumes "ne_ip env (client_ip (ne_split env) (ca_req r)) = Some ip" "ip \<in> set (ne_own env)" "\<not> ne_loopback env ip" "ip \<notin> set (peerHosts env cfg)"
    "\<not> authOK cfg (ca_req r) s"
  shows "keyForViewer env cfg (ca_req r) s = effectiveAPIKey cfg s \<and> peer env cfg h r s = (Unauthorized, s)"
  using assms by (simp add: keyForViewer_def keyForViewerMasked_def Let_def isThisMachine_def peer_def fromPeer_def)

theorem own_address_refused_witness:
  "keyForViewer demo_net demo_config ((demo_http [])\<lparr>hq_remote := ''me''\<rparr>) (demo_keyed ''k'') = ''k'' \<and>
   peer demo_net demo_config (\<lambda>r s. (NotFound, s)) ((demo_call ''POST'' ''/control/eject'')\<lparr>ca_req := (demo_http [])\<lparr>hq_remote := ''me''\<rparr>\<rparr>) (demo_keyed ''k'') = (Unauthorized, demo_keyed ''k'')"
proof -
  let ?r = "(demo_call ''POST'' ''/control/eject'')\<lparr>ca_req := (demo_http [])\<lparr>hq_remote := ''me''\<rparr>\<rparr>"
  have "ne_ip demo_net (client_ip (ne_split demo_net) (ca_req ?r)) = Some ''me''" by (simp add: demo_net_def client_ip_def)
  moreover have "''me'' \<in> set (ne_own demo_net)" "\<not> ne_loopback demo_net ''me''" "''me'' \<notin> set (peerHosts demo_net demo_config)" "\<not> authOK demo_config (ca_req ?r) (demo_keyed ''k'')"
    "effectiveAPIKey demo_config (demo_keyed ''k'') = ''k''" by code_simp+
  ultimately show ?thesis using own_address_refused[of demo_net ?r "''me''" demo_config "demo_keyed ''k''" "\<lambda>r s. (NotFound, s)"] by simp
qed

text \<open>
  The surface between nodes acts on any method. A GET of a peer, as one that merely follows an address sends, reaches the handler that stops the engines.
\<close>

theorem peer_get_acts:
  assumes "fromPeer env cfg (ca_req r)" "ca_escaped r = ''/control/eject''" "map unescape (url_segs ''/control/eject'') = url_segs ''/control/eject''"
  shows "serve env unescape cfg b H r s = H ''controlEject'' r s"
proof -
  have "(''/control/eject'', Peer, ''controlEject'') \<in> set (routes b)" by (simp add: routes_def)
  then have "mux_find unescape (routes b) (ca_method r) (ca_escaped r) = Route (''/control/eject'', Peer, ''controlEject'')"
    using mux_plain[of unescape "''/control/eject''" "routes b" "(''/control/eject'', Peer, ''controlEject'')"] table_plain assms(2,3) by (fastforce simp: plain_route_def is_subtree_def)
  then show ?thesis using assms(1) by (simp add: serve_def wrapped_def peer_def)
qed

theorem peer_get_acts_witness:
  "fst (serve demo_net (\<lambda>x. x) demo_config False (\<lambda>n r s. (Answered n, s)) ((demo_call ''GET'' ''/control/eject'')\<lparr>ca_req := (demo_http [])\<lparr>hq_remote := ''lo''\<rparr>\<rparr>) (demo_keyed ''k'')) =
   Answered ''controlEject''"
proof -
  let ?r = "(demo_call ''GET'' ''/control/eject'')\<lparr>ca_req := (demo_http [])\<lparr>hq_remote := ''lo''\<rparr>\<rparr>"
  have f: "fromPeer demo_net demo_config (ca_req ?r)" by code_simp
  have e: "ca_escaped ?r = ''/control/eject''" by (simp add: demo_call_def)
  show ?thesis unfolding peer_get_acts[where unescape = "\<lambda>x. x", OF f e list.map_ident] by simp
qed


text \<open>
  C40. The key of the inference routes does not cover the chat of the panel. With \<^verbatim>\<open>require_api_key\<close> set, a request without the key is refused by the gateway, and the same caller gets the answer of the decode
  engine on the route of the panel, by any method.
\<close>

theorem inference_open:
  assumes "c_RequireAPIKey cfg" "\<not> authOK cfg (ca_req r) s" "json_obj (ch_sse env') (hq_raw (ca_req r)) = Some body"
    "H ''panelChat'' = panelChat post bc dec" "ca_escaped r = ''/api/chat''" "map unescape (url_segs ''/api/chat'') = url_segs ''/api/chat''"
    "dec (hq_raw (ca_req r)) = (msgs, mode)" "chatCall post (bc_decode bc) msgs 2048 = Inr m"
  shows "chat env' http eng cfg (effectiveAPIKey cfg s) text_of (ca_req r) g bal kp = Some (unauthorised_key, g, bal) \<and>
    (\<exists>a. serve env unescape cfg b H r s = (Answered a, s) \<and> field a ''text'' = Str (textOr (ct_text m)))"
proof
  show "chat env' http eng cfg (effectiveAPIKey cfg s) text_of (ca_req r) g bal kp = Some (unauthorised_key, g, bal)"
    using assms(1-3) by (simp add: chat_def authOK_def)
  have "(''/api/chat'', Open, ''panelChat'') \<in> set (routes b)" by (simp add: routes_def)
  then have "mux_find unescape (routes b) (ca_method r) (ca_escaped r) = Route (''/api/chat'', Open, ''panelChat'')"
    using mux_plain[of unescape "''/api/chat''" "routes b" "(''/api/chat'', Open, ''panelChat'')"] table_plain assms(5,6) by (fastforce simp: plain_route_def is_subtree_def)
  then have "serve env unescape cfg b H r s = panelChat post bc dec r s" using assms(4) by (simp add: serve_def wrapped_def)
  then show "\<exists>a. serve env unescape cfg b H r s = (Answered a, s) \<and> field a ''text'' = Str (textOr (ct_text m))"
    using assms(7,8) by (auto simp: panelChat_def Let_def field_def)
qed


text \<open>An engine that answers, and a request of the panel without a key.\<close>

definition demo_engine_post :: "string \<Rightarrow> Body \<Rightarrow> (string, Body \<times> float64) result" where
  "demo_engine_post url body = Inr ([(''choices'', Arr [Obj [(''message'', Obj [(''content'', Str ''hi'')])]])], 0)"

definition demo_locked :: Config where
  "demo_locked = demo_config\<lparr>c_RequireAPIKey := True\<rparr>"

lemma demo_answer: "chatCall demo_engine_post [] Null 2048 = Inr \<lparr>ct_text = ''hi'', ct_tokens = 0, ct_secs = 0, ct_tokps = 0, ct_prompt = 0\<rparr>"
  by (simp add: chatCall_def demo_engine_post_def Let_def field_def as_obj_def as_arr_def as_str_def pint_def pnum_def go_int_def round1_def round2_def)

theorem inference_open_witness:
  "\<exists>a. serve demo_net (\<lambda>x. x) demo_locked False (\<lambda>n. panelChat demo_engine_post \<lparr>bc_decode = [], bc_prefill = []\<rparr> (\<lambda>_. (Null, [])))
       ((demo_call ''GET'' ''/api/chat'')\<lparr>ca_req := demo_req\<rparr>) (demo_keyed ''k'') = (Answered a, demo_keyed ''k'') \<and> field a ''text'' = Str ''hi''"
proof -
  let ?r = "(demo_call ''GET'' ''/api/chat'')\<lparr>ca_req := demo_req\<rparr>"
  let ?H = "\<lambda>n. panelChat demo_engine_post \<lparr>bc_decode = [], bc_prefill = []\<rparr> (\<lambda>_. (Null, []))"
  have c: "c_RequireAPIKey demo_locked" by (simp add: demo_locked_def)
  have a: "\<not> authOK demo_locked (ca_req ?r) (demo_keyed ''k'')" by (simp add: authOK_def effectiveAPIKey_def key_ok_def demo_keyed_def demo_req_def header_def)
  obtain body where j: "json_obj (ch_sse demo_chat_env) (hq_raw (ca_req ?r)) = Some body" by (simp add: json_obj_def demo_chat_env_def demo_req_def)
  have e: "ca_escaped ?r = ''/api/chat''" by (simp add: demo_call_def)
  have p: "chatCall demo_engine_post (bc_decode \<lparr>bc_decode = [], bc_prefill = []\<rparr>) Null 2048 = Inr \<lparr>ct_text = ''hi'', ct_tokens = 0, ct_secs = 0, ct_tokps = 0, ct_prompt = 0\<rparr>"
    using demo_answer by simp
  show ?thesis
    using inference_open[where H = ?H and unescape = "\<lambda>x. x" and dec = "\<lambda>_. (Null, [])" and msgs = Null and mode = "[]" and env = demo_net and b = False,
        OF c a j refl e list.map_ident refl p] by (auto simp: textOr_def)
qed

end
