(* ===== verification/Spec2Isabelle.thy ===== *)
theory Spec2Isabelle
  imports Kv_Handoff Role_Plan Gateway_Correct Update_Guard Chat_Serve Engine_Control Access_Policy
begin

text \<open>
  Verification of sofmat, a coordinator for language models served by a cluster of machines. A client talks to one
  gateway; the gateway decides per request whether the decode engine processes the prompt itself or a second engine
  does and hands its KV state over; a partitioner places the layers of a model on the nodes; nodes move activations
  and KV states over an authenticated framed protocol and over plain HTTP files.

  \<^bold>\<open>Theories and sources\<close> (paths under \<^verbatim>\<open>internal/\<close>)

  \<^item> \<open>Sofmat_Prelude\<close>, \<open>Go_Data\<close>: results, state actions, big-endian codec, Go values (\<^verbatim>\<open>any\<close>, maps, runes).
  \<^item> \<open>Framing\<close> (\<^verbatim>\<open>framing/framing.go\<close>): activation and control frames; encoder and decoder are inverse in both
    directions; the element count wraps at 64 bits.
  \<^item> \<open>Transport\<close> (\<^verbatim>\<open>transport/transport.go\<close>, \<^verbatim>\<open>auth/auth.go\<close>): the handshake authenticates, completes and rejects. A
    connection is the bytes still to come, the bytes written, and whether it can be written.
  \<^item> \<open>Kv_Handoff\<close> (\<^verbatim>\<open>kvhandoff/kv_handoff.go\<close>): locale \<open>activation_link\<close> states what a transport promises; it is
    interpreted on the TCP transport, and the round trip and integrity of a KV blob rest on it.
  \<^item> \<open>Partitioner\<close>, \<open>Partition_Search\<close>, \<open>Partition_Roles\<close>, \<open>Role_Plan\<close> (\<^verbatim>\<open>partitioner/solver.go\<close>, \<^verbatim>\<open>gateway/roleplan.go\<close>):
    layer assignment is exact and fastest for its set of nodes, \<^verbatim>\<open>Solve\<close> is optimal and complete, the memoised replica
    search equals the plain one, role reservations are isolated.
  \<^item> \<open>Cluster_Config\<close> (\<^verbatim>\<open>config/profiles.go\<close>, \<^verbatim>\<open>config/config.go\<close>): the configuration fails closed and what it accepts
    satisfies the preconditions of the solver.
  \<^item> \<open>Gguf\<close> (\<^verbatim>\<open>gguf/gguf.go\<close>): the header reader against an encoder of the format, the tensor table, shards.
  \<^item> \<open>Bounded_Map\<close>, \<open>Admission\<close>, \<open>Policy\<close>, \<open>Gateway_Body\<close>, \<open>Gateway_State\<close>, \<open>Conv_Gate\<close> (\<^verbatim>\<open>gateway/admission.go\<close>,
    \<^verbatim>\<open>admit.go\<close>, \<^verbatim>\<open>cachecost.go\<close>, \<^verbatim>\<open>policy.go\<close>, \<^verbatim>\<open>requestlog.go\<close>, \<^verbatim>\<open>status.go\<close>, \<^verbatim>\<open>gateway.go\<close>): registries with a capacity (locale
    \<open>lru_map\<close>, interpreted on each of them), cost model, hash ring, request log, and the gate that keeps requests of one
    conversation apart, as an interleaving of its critical sections.
  \<^item> \<open>Gateway\<close>, \<open>Gateway_Prepare\<close>, \<open>Gateway_Finish\<close>, \<open>Gateway_Correct\<close> (\<^verbatim>\<open>gateway/gateway.go\<close>): \<^verbatim>\<open>Prepare\<close>, \<^verbatim>\<open>Finish\<close>, \<^verbatim>\<open>Chat\<close> and
    \<^verbatim>\<open>New\<close> over one state record; fail-soft preparation, the life cycle of a chat, and the invariant of a session.
  \<^item> \<open>Balancer\<close> (\<^verbatim>\<open>coordinator/balancer.go\<close>): sticky engines with token budgets; \<^verbatim>\<open>pick\<close> ends, and what it guarantees.
  \<^item> \<open>Kv_State\<close>, \<open>Kv_Janitor\<close> (\<^verbatim>\<open>coordinator/kvstate.go\<close>, \<^verbatim>\<open>kvjanitor.go\<close>): state files are confined and fetched
    atomically; the list of states left on nodes loses none in calm histories, and how a late save is lost.
  \<^item> \<open>Kv_Rooms\<close>, \<open>Kv_Pipe\<close> (\<^verbatim>\<open>coordinator/kvpipe.go\<close> and the wiring in \<^verbatim>\<open>serve.go\<close>): the slots of the prefill engine and the room
    of the decode engines as interleavings of their critical sections; \<^verbatim>\<open>Prefill\<close> and \<^verbatim>\<open>Handoff\<close> from the reservation to
    the purge: no slot is held twice, and a state is written down before the call that can create it.
  \<^item> \<open>Training\<close> (\<^verbatim>\<open>coordinator/train.go\<close>): transactions that take engines out of the routing, the watchdog and the restart; an
    engine is fenced exactly while a transaction names it, and how overlapping requests break that.
  \<^item> \<open>Update_Guard\<close> (\<^verbatim>\<open>cmd/sofmat/updateguard.go\<close>, \<^verbatim>\<open>update.go\<close>): the self-update over histories of checks, restarts and releases; the
    versions that run never decrease, the attempts at one artifact are bounded, a good release is installed.
  \<^item> \<open>Sse_Stream\<close>, \<open>Chat_Serve\<close> (\<^verbatim>\<open>coordinator/serve.go\<close>, \<^verbatim>\<open>userckpt.go\<close>): the copy loop of a streamed answer equals its specification on
    the whole stream however it is split; the handler of a chat request on both paths, from the socket to the record.
  \<^item> \<open>Model_Store\<close> (\<^verbatim>\<open>coordinator/models.go\<close>): the directory of models as files by path, downloads as goroutines that interleave;
    what is on the disk in every history, given that reads hand out the body the server sends, and what a deletion removes.
  \<^item> \<open>Engine_Control\<close> (\<^verbatim>\<open>coordinator/control.go\<close>, \<^verbatim>\<open>modelload.go\<close>): the processes of a host as a table by number, launches, ejections and kills
    by port as steps that interleave, the spec of a load; a foreign process is killed only by a number it got while the daemon still held it.
  \<^item> \<open>Access_Policy\<close> (\<^verbatim>\<open>coordinator/routepolicy.go\<close>, the key in \<^verbatim>\<open>panel.go\<close>, the route table of \<^verbatim>\<open>serve.go\<close>, the start in
    \<^verbatim>\<open>cmd/sofmat/main.go\<close>): the wrappers as functions on handlers, the table as data and the mux that picks from it; a handler that
    acts has no effect for a caller without authority, whatever the spelling of the path.

  \<^bold>\<open>How the code is read.\<close> A Go function is a HOL function; a method that changes its receiver takes and returns the
  receiver's record. An error return is \<open>Inl\<close>, a panic is a value of its own (\<open>Panics\<close>, \<open>PickPanic\<close>, \<open>None\<close> where the text
  says so). Locks become the granularity of the steps: one critical section is one definition, and where the code gives up
  a lock in between, the interleaving is a step relation or a list of what the others did meanwhile. \<^verbatim>\<open>float64\<close> is an exact
  real; \<^verbatim>\<open>int\<close> and \<^verbatim>\<open>uint64\<close> are words or have their wrap-around written out where lengths and offsets come from a peer or a
  file, and are unbounded where they count tokens, slots and milliseconds. Go maps are association lists with distinct
  keys. Code outside the repository is a parameter: HMAC and SHA-256, JSON marshalling, the engines' HTTP answers, clocks,
  the random source, the allocation limit of the runtime. What is needed of it is a hypothesis of the theorem, with a
  witness on a concrete function.

  \<^bold>\<open>Bounds and fuel.\<close> The value reader of \<open>Gguf\<close> recurses with as much fuel as the file has bytes plus one, and
  \<open>parseHeader_total\<close> shows it never runs out. Waiting loops (\<^verbatim>\<open>pick\<close>, \<^verbatim>\<open>acquireSlot\<close>) take the looks they make as a list;
  their termination theorems say that a list whose last look is past the deadline is enough.

  \<^bold>\<open>Limits of the model.\<close> Log lines on the standard error stream are left out. \<^verbatim>\<open>HandoffAllowed\<close> and \<^verbatim>\<open>ReplyRoom\<close> have no
  recover wrapper in the gateway and are taken to return. A nil and an empty token slice are not told apart. The zero
  \<^verbatim>\<open>time.Time\<close> of the breaker is instant 0. Iteration over a Go map is in the order of the association list.

  \<^bold>\<open>Not modelled.\<close> The rendering and probing of the panel (the rest of \<^verbatim>\<open>panel.go\<close>, \<^verbatim>\<open>discover.go\<close>, \<^verbatim>\<open>hop.go\<close>, \<^verbatim>\<open>buildinfo.go\<close>,
  \<^verbatim>\<open>runtimeinfo.go\<close>), display names, presets and the relay to another node (\<^verbatim>\<open>renames.go\<close>, \<^verbatim>\<open>config_apply.go\<close>, \<^verbatim>\<open>apply_union.go\<close>,
  \<^verbatim>\<open>nodes.go\<close>), process and platform glue (\<^verbatim>\<open>agent/\<close>, \<^verbatim>\<open>engine/\<close> and the rest of \<^verbatim>\<open>cmd/\<close>), discovery on the local network
  (\<^verbatim>\<open>discovery/\<close>), and the leak guard of the repository (\<^verbatim>\<open>leakguard/\<close>), which is a table of regular expressions.
\<close>

end
